(* ===== verification/Prelude.thy ===== *)
theory Prelude
  imports Main "HOL-Library.Word"
begin

text \<open>
  Shared vocabulary of the development: machine integer types, the faults a run of the
  C program can end in, the result type of every operation that can fault, and the
  generic lemmas on words, lists and options that the component theories use.

  A C run that dereferences NULL, touches freed memory, leaves an array, fails an
  \<open>assert\<close> or evaluates an expression that ISO C leaves undefined has no value; the
  model makes each such run the value \<^term>\<open>Inl f\<close> for a \<open>fault\<close> f, so that
  ``this operation is safe'' is the statement that its result is \<^term>\<open>Inr\<close>.
  Ordinary error returns (NULL, \<open>-1\<close>, \<open>-LINUX_EINVAL\<close>) are values, never faults.
\<close>

unbundle bit_operations_syntax

section \<open>Machine integers\<close>

type_synonym u8 = "8 word"
type_synonym u16 = "16 word"
type_synonym u32 = "32 word"
type_synonym u64 = "64 word"

text \<open>C \<open>int\<close> is the 32 bit word, read with \<^const>\<open>sint\<close> where its sign matters.\<close>

type_synonym cint = "32 word"

section \<open>Faults and results\<close>

datatype fault =
    NullDeref
  | UseAfterFree
  | DoubleFree
  | OutOfBounds
  | AssertFail
  | ShiftUB
  | DivByZero
  | Uninitialised
  | Unreachable
  | Deadlock
  | ProcessExit
  | OutOfFuel

type_synonym 'a res = "fault + 'a"

definition rbind :: "'a res \<Rightarrow> ('a \<Rightarrow> 'b res) \<Rightarrow> 'b res" where
  "rbind r f = (case r of Inl e \<Rightarrow> Inl e | Inr x \<Rightarrow> f x)"

definition rassert :: "bool \<Rightarrow> unit res" where
  "rassert b = (if b then Inr () else Inl AssertFail)"

text \<open>The fault a run ends in, if any.\<close>

definition fault_of :: "'a res \<Rightarrow> fault option" where
  "fault_of r = (case r of Inl e \<Rightarrow> Some e | Inr _ \<Rightarrow> None)"

lemma rbind_simps [simp]:
  "rbind (Inl e) f = Inl e"
  "rbind (Inr x) f = f x"
  by (simp_all add: rbind_def)

lemma rbind_Inr_iff: "rbind r f = Inr y \<longleftrightarrow> (\<exists>x. r = Inr x \<and> f x = Inr y)"
  by (cases r) simp_all

lemma rassert_simps [simp]:
  "b \<Longrightarrow> rassert b = Inr ()"
  "\<not> b \<Longrightarrow> rassert b = Inl AssertFail"
  by (simp_all add: rassert_def)

section \<open>Shifts of a C \<open>int\<close>\<close>

text \<open>
  ISO C leaves \<open>e << n\<close> undefined when the shift count reaches the width, when \<open>e\<close> is negative
  and when the mathematical result is not an \<open>int\<close> (C11 6.5.7).
\<close>

definition int_shl :: "cint \<Rightarrow> nat \<Rightarrow> cint res" where
  "int_shl e n =
     (if n < 32 \<and> 0 \<le> sint e \<and> sint e * 2 ^ n < 2 ^ 31 then Inr (push_bit n e) else Inl ShiftUB)"

text \<open>Conversion of an \<open>int\<close> to a 64 bit unsigned type sign-extends.\<close>

definition int_to_u64 :: "cint \<Rightarrow> u64" where
  "int_to_u64 e = scast e"

section \<open>Lemma collections\<close>

text \<open>
  \<open>u64_arith\<close> moves comparisons and sums of words to \<^typ>\<open>nat\<close> once wrap-around has been
  excluded; the component theories add their own range facts to it.
\<close>

named_theorems u64_arith

section \<open>Words\<close>

lemma unat_u64_bound [simp]: "unat (x :: u64) < 18446744073709551616"
  using unsigned_less [of x] by simp

lemma unat_lt_2p64: "unat (x :: u64) < 2 ^ 64"
  by simp

lemma unat_add_nowrap:
  "unat (a :: u64) + unat b < 2 ^ 64 \<Longrightarrow> unat (a + b) = unat a + unat b"
  by (simp add: unat_word_ariths)

lemma unat_sub_nowrap: "b \<le> (a :: u64) \<Longrightarrow> unat (a - b) = unat a - unat b"
  by (rule unat_sub)

lemma u64_le_iff [u64_arith]: "(a :: u64) \<le> b \<longleftrightarrow> unat a \<le> unat b"
  by (rule word_le_nat_alt)

lemma u64_less_iff [u64_arith]: "(a :: u64) < b \<longleftrightarrow> unat a < unat b"
  by (rule word_less_nat_alt)

lemma u64_eq_iff: "(a :: u64) = b \<longleftrightarrow> unat a = unat b"
  by (simp add: word_unat_eq_iff)

lemma unat_add_wrap:
  "unat (a + b :: u64) = (unat a + unat b) mod 2 ^ 64"
  by (simp add: unat_word_ariths)

text \<open>Shifting left a value that leaves enough head room multiplies, and shifting back divides.\<close>

lemma unat_push_bit_nowrap:
  "unat (x :: u64) * 2 ^ k < 2 ^ 64 \<Longrightarrow> unat (push_bit k x) = unat x * 2 ^ k"
  by (simp only: unsigned_push_bit_eq) (simp add: push_bit_eq_mult take_bit_eq_mod)

lemma unat_drop_bit: "unat (drop_bit k (x :: u64)) = unat x div 2 ^ k"
  by (simp only: unat_drop_bit_eq) (simp only: drop_bit_eq_div)

lemma unat_power2: "k < 64 \<Longrightarrow> unat ((2 :: u64) ^ k) = 2 ^ k"
proof -
  assume k: "k < 64"
  have "unat (of_nat (2 ^ k) :: u64) = take_bit 64 (2 ^ k)"
    by (simp only: unsigned_of_nat) simp
  also have "\<dots> = 2 ^ k"
    using k by (simp add: take_bit_nat_eq_self)
  finally show ?thesis by simp
qed

lemma unat_of_nat_u64: "n < 2 ^ 64 \<Longrightarrow> unat (of_nat n :: u64) = n"
  by (simp only: unsigned_of_nat) (simp add: take_bit_nat_eq_self)

lemma unat_Suc_u64: "unat (i :: u64) + 1 < 2 ^ 64 \<Longrightarrow> unat (i + 1) = unat i + 1"
  by (subst unat_add_nowrap) simp_all

text \<open>Small values of type \<open>int\<close> and their conversions.\<close>

lemma sint_small: "unat (x :: cint) < 2 ^ 31 \<Longrightarrow> sint x = int (unat x)"
proof -
  assume x: "unat x < 2 ^ 31"
  have "sint x = signed_take_bit 31 (uint x)" by (simp add: sint_uint)
  also have "\<dots> = signed_take_bit 31 (int (unat x))" by simp
  also have "\<dots> = int (unat x)"
    by (rule signed_take_bit_int_eq_self) (use x in \<open>simp_all del: uint_nat int_nat_eq of_nat_unat\<close>)
  finally show ?thesis .
qed

lemma int_to_u64_small: "unat (x :: cint) < 2 ^ 31 \<Longrightarrow> unat (int_to_u64 x) = unat x"
  by (simp add: int_to_u64_def scast_eq sint_small unat_of_nat_u64 of_nat_inverse)

lemma count_as_int:
  assumes "unat (c :: u64) < 2 ^ 31"
  shows "int_to_u64 (ucast c) = c" "sint (ucast c :: cint) = int (unat c)"
proof -
  have le: "unat (ucast c :: cint) = unat c"
    using assms by (simp add: unsigned_ucast_eq take_bit_nat_eq_self_iff)
  then show "sint (ucast c :: cint) = int (unat c)" using assms sint_small [of "ucast c"] by simp
  show "int_to_u64 (ucast c) = c" using le assms int_to_u64_small [of "ucast c"] by (simp add: u64_eq_iff)
qed

section \<open>Lists and options\<close>

lemma last_opt_snoc: "(if xs @ [x] = [] then None else Some (last (xs @ [x]))) = Some x"
  by simp

lemma distinct_append_notin:
  "distinct (xs @ a # ys) \<Longrightarrow> a \<notin> set xs \<and> a \<notin> set ys"
  by auto

section \<open>Components as servers of requests\<close>

text \<open>
  Several components are used as a state that serves a sequence of requests. \<open>run_reqs\<close> serves a
  sequence with the detailed operations and stops at the first fault; \<open>spec_run\<close> says what a
  sequence of answers may be according to an abstract specification \<open>spec r v a a'\<close> (in
  abstract state a, request r may be answered v and leave a'). The locale \<open>server\<close> is the
  contract between the two: under it every sequence of admissible requests runs without a
  fault, keeps the invariant and is allowed by the specification.
\<close>

fun run_reqs :: "('r \<Rightarrow> 's \<Rightarrow> ('v \<times> 's) res) \<Rightarrow> 'r list \<Rightarrow> 's \<Rightarrow> ('v list \<times> 's) res" where
  "run_reqs exec [] s = Inr ([], s)"
| "run_reqs exec (r # rs) s =
     rbind (exec r s) (\<lambda>(v, s). rbind (run_reqs exec rs s) (\<lambda>(vs, s). Inr (v # vs, s)))"

fun spec_run :: "('r \<Rightarrow> 'v \<Rightarrow> 'a \<Rightarrow> 'a \<Rightarrow> bool) \<Rightarrow> 'r list \<Rightarrow> 'v list \<Rightarrow> 'a \<Rightarrow> 'a \<Rightarrow> bool" where
  "spec_run spec [] [] a a' \<longleftrightarrow> a = a'"
| "spec_run spec (r # rs) (v # vs) a a' \<longleftrightarrow> (\<exists>b. spec r v a b \<and> spec_run spec rs vs b a')"
| "spec_run spec [] (v # vs) a a' \<longleftrightarrow> False"
| "spec_run spec (r # rs) [] a a' \<longleftrightarrow> False"

locale server =
  fixes inv :: "'s \<Rightarrow> bool"
    and abs :: "'s \<Rightarrow> 'a"
    and exec :: "'r \<Rightarrow> 's \<Rightarrow> ('v \<times> 's) res"
    and adm :: "'r \<Rightarrow> 'a \<Rightarrow> bool"
    and spec :: "'r \<Rightarrow> 'v \<Rightarrow> 'a \<Rightarrow> 'a \<Rightarrow> bool"
  assumes serve: "inv s \<Longrightarrow> adm r (abs s) \<Longrightarrow>
      \<exists>v s'. exec r s = Inr (v, s') \<and> inv s' \<and> spec r v (abs s) (abs s')"
    and adm_stable: "spec r v a a' \<Longrightarrow> adm r' a \<Longrightarrow> adm r' a'"
begin

lemma serve_all:
  assumes "inv s" "\<forall>r \<in> set rs. adm r (abs s)"
  shows "\<exists>vs s'. run_reqs exec rs s = Inr (vs, s') \<and> inv s' \<and> spec_run spec rs vs (abs s) (abs s')"
  using assms
proof (induction rs arbitrary: s)
  case Nil
  then show ?case by (intro exI [of _ "[]"] exI [of _ s]) simp
next
  case (Cons r rs)
  obtain v s1 where 1: "exec r s = Inr (v, s1)" "inv s1" "spec r v (abs s) (abs s1)"
    using serve [of s r] Cons.prems by auto
  have "\<forall>r \<in> set rs. adm r (abs s1)" using adm_stable [OF 1(3)] Cons.prems(2) by auto
  then obtain vs s2 where 2: "run_reqs exec rs s1 = Inr (vs, s2)" "inv s2" "spec_run spec rs vs (abs s1) (abs s2)"
    using Cons.IH [OF 1(2)] by blast
  show ?case
    using 1 2 by (intro exI [of _ "v # vs"] exI [of _ s2]) auto
qed

end

end
