(* ===== verification/Align.thy ===== *)
theory Align
  imports Prelude
begin

text \<open>
  Address rounding. \<open>lps-linux/align.h\<close> rounds with masks and is only meaningful for powers
  of two; \<open>lps-core/boxmap.c\<close> has its own pair that rounds with \<open>%\<close> for any alignment. Both
  are modelled at 64 bits, so that the wrap-around of rounding up is visible.
\<close>

section \<open>Definitions\<close>

definition truncp :: "u64 \<Rightarrow> u64 \<Rightarrow> u64" where
  "truncp addr align = (let align_mask = align - 1 in addr AND NOT align_mask)"

definition ceilp :: "u64 \<Rightarrow> u64 \<Rightarrow> u64" where
  "ceilp addr align = (let align_mask = align - 1 in (addr + align_mask) AND NOT align_mask)"

text \<open>The macro \<open>MIN\<close> copies both operands into \<open>int\<close> variables before it compares them.\<close>

definition c_MIN :: "cint \<Rightarrow> cint \<Rightarrow> cint" where
  "c_MIN a b = (if sint a < sint b then a else b)"

definition boxmap_truncp :: "u64 \<Rightarrow> u64 \<Rightarrow> u64" where
  "boxmap_truncp addr align = addr - (addr mod align)"

definition boxmap_ceilp :: "u64 \<Rightarrow> u64 \<Rightarrow> u64" where
  "boxmap_ceilp addr align =
     (let rem = addr mod align
      in if rem = 0 then addr else addr + (align - rem))"

section \<open>Rounding down\<close>

lemma and_not_low_mask: "(x :: u64) AND NOT (mask k) = push_bit k (drop_bit k x)"
  by (rule bit_eqI) (auto simp: bit_simps)

lemma truncp_pow2: "truncp addr (2 ^ k) = push_bit k (drop_bit k addr)"
  by (simp add: truncp_def and_not_low_mask flip: mask_eq_exp_minus_1)

lemma unat_truncp: "unat (truncp addr (2 ^ k)) = unat addr div 2 ^ k * 2 ^ k"
proof -
  have "unat (drop_bit k addr) * 2 ^ k < 2 ^ 64"
    unfolding unat_drop_bit
    by (rule le_less_trans [OF div_times_less_eq_dividend unat_lt_2p64])
  then show ?thesis
    by (simp only: truncp_pow2 unat_push_bit_nowrap unat_drop_bit)
qed

lemma unat_boxmap_truncp:
  "unat (boxmap_truncp addr align) = unat addr div unat align * unat align"
proof -
  have "addr mod align \<le> addr"
    by (simp add: word_le_nat_alt unat_mod)
  then have "unat (boxmap_truncp addr align) = unat addr - unat addr mod unat align"
    by (simp add: boxmap_truncp_def unat_sub unat_mod)
  then show ?thesis by (simp add: minus_mod_eq_div_mult)
qed

section \<open>Rounding up\<close>

text \<open>Rounding up to a multiple of a positive \<open>n\<close>, on natural numbers.\<close>

definition round_up :: "nat \<Rightarrow> nat \<Rightarrow> nat" where
  "round_up n x = (x + (n - 1)) div n * n"

lemma round_up_ge: "0 < n \<Longrightarrow> x \<le> round_up n x"
proof -
  assume n: "0 < n"
  have "x + (n - 1) = (x + (n - 1)) div n * n + (x + (n - 1)) mod n" by simp
  moreover have "(x + (n - 1)) mod n < n"
    using n by (rule mod_less_divisor)
  ultimately show ?thesis unfolding round_up_def by linarith
qed

lemma round_up_less: "0 < n \<Longrightarrow> round_up n x < x + n"
  by (auto simp: round_up_def intro: le_less_trans [OF div_times_less_eq_dividend])

lemma round_up_dvd: "n dvd round_up n x"
  by (simp add: round_up_def)

lemma round_up_least: "0 < n \<Longrightarrow> n dvd y \<Longrightarrow> x \<le> y \<Longrightarrow> round_up n x \<le> y"
proof -
  assume n: "0 < n" and y: "n dvd y" "x \<le> y"
  then obtain q where q: "y = n * q" by (auto elim: dvdE)
  have "x + (n - 1) < n * Suc q" using n y q by simp
  then have "(x + (n - 1)) div n < Suc q"
    using n by (simp add: less_mult_imp_div_less mult.commute)
  then have "(x + (n - 1)) div n * n \<le> q * n"
    by (intro mult_le_mono1) simp
  then show ?thesis by (simp only: round_up_def q mult.commute [of n q])
qed

lemma round_up_id: "0 < n \<Longrightarrow> n dvd x \<Longrightarrow> round_up n x = x"
  by (simp add: le_antisym round_up_ge round_up_least)

lemma unat_ceilp:
  assumes k: "k < 64" and nowrap: "unat addr + (2 ^ k - 1) < 2 ^ 64"
  shows "unat (ceilp addr (2 ^ k)) = round_up (2 ^ k) (unat addr)"
proof -
  have mask: "unat ((2 :: u64) ^ k - 1) = 2 ^ k - 1"
    using k by (subst unat_minus_one) (simp_all add: unat_power2)
  then have "unat (addr + (2 ^ k - 1)) = unat addr + (2 ^ k - 1)"
    using nowrap by (simp add: unat_add_nowrap)
  moreover have "ceilp addr (2 ^ k) = truncp (addr + (2 ^ k - 1)) (2 ^ k)"
    by (simp add: ceilp_def truncp_def Let_def)
  ultimately show ?thesis
    by (simp add: unat_truncp round_up_def)
qed

text \<open>Within one page of the top of the address space rounding up wraps to zero.\<close>

lemma ceilp_wraps:
  assumes k: "k < 64" and wrap: "2 ^ 64 \<le> unat addr + (2 ^ k - 1)"
  shows "ceilp addr (2 ^ k) = 0"
proof -
  have mask: "unat ((2 :: u64) ^ k - 1) = 2 ^ k - 1"
    using k by (subst unat_minus_one) (simp_all add: unat_power2)
  let ?s = "addr + (2 ^ k - 1)"
  have "unat ?s = (unat addr + (2 ^ k - 1)) mod 2 ^ 64"
    by (simp only: unat_add_wrap mask)
  also have "\<dots> = unat addr + (2 ^ k - 1) - 2 ^ 64"
  proof -
    have "(2 :: nat) ^ k < 2 ^ 64" using k by (rule power_strict_increasing) simp
    moreover note unat_lt_2p64 [of addr]
    ultimately have "unat addr + (2 ^ k - 1) - 2 ^ 64 < 2 ^ 64" by linarith
    then show ?thesis using wrap by (simp only: le_mod_geq mod_less)
  qed
  also have "\<dots> < 2 ^ k"
    using unat_lt_2p64 [of addr] wrap by linarith
  finally have small: "unat ?s div 2 ^ k = 0" by simp
  have "ceilp addr (2 ^ k) = truncp ?s (2 ^ k)"
    by (simp add: ceilp_def truncp_def Let_def)
  then have "unat (ceilp addr (2 ^ k)) = 0"
    using small by (simp only: unat_truncp)
  then show ?thesis by (simp add: unat_0_iff)
qed

lemma unat_boxmap_ceilp:
  assumes pos: "align \<noteq> 0" and nowrap: "unat addr + (unat align - 1) < 2 ^ 64"
  shows "unat (boxmap_ceilp addr align) = round_up (unat align) (unat addr)"
proof (cases "addr mod align = 0")
  case True
  then have "unat align dvd unat addr"
    by (simp add: unat_mod unat_0_iff flip: unat_0_iff mod_eq_0_iff_dvd)
  then show ?thesis using True pos
    by (simp add: boxmap_ceilp_def round_up_id unat_gt_0)
next
  case False
  let ?a = "unat align" and ?x = "unat addr"
  have r: "unat (addr mod align) = ?x mod ?a" by (simp add: unat_mod)
  have a: "0 < ?a" using pos by (simp add: unat_gt_0)
  have rpos: "0 < ?x mod ?a" using False r by (metis gr0I unat_0_iff)
  have le: "addr mod align \<le> align"
    using a r by (simp add: word_le_nat_alt less_imp_le)
  have d: "unat (align - addr mod align) = ?a - ?x mod ?a"
    using le r by (simp add: unat_sub)
  have sum: "unat (addr + (align - addr mod align)) = ?x + (?a - ?x mod ?a)"
    using nowrap rpos d by (subst unat_add_nowrap) simp_all
  have lt: "?x mod ?a < ?a" using a by simp
  have split: "?x div ?a * ?a + ?x mod ?a = ?x" by simp
  have up: "(?x div ?a + 1) * ?a = ?x div ?a * ?a + ?a" by simp
  have "?x + (?a - ?x mod ?a) = (?x div ?a + 1) * ?a"
    using lt split unfolding up by linarith
  moreover have "(?x + (?a - 1)) div ?a = ?x div ?a + 1"
  proof -
    have "?x + (?a - 1) = (?x div ?a + 1) * ?a + (?x mod ?a - 1)"
      using rpos lt a split unfolding up by linarith
    moreover have "?x mod ?a - 1 < ?a" using lt by simp
    ultimately show ?thesis using a by (simp only: div_mult_self3 div_less)
  qed
  ultimately show ?thesis
    using False sum by (simp add: boxmap_ceilp_def round_up_def)
qed

section \<open>Properties\<close>

text \<open>
  Rounding an address up to a page (or any power of two below \<open>2 ^ 64\<close>) gives the least
  multiple of the alignment that is not below the address, unless the address lies within one
  unit of the top of the address space, where the result is 0.
\<close>

theorem ceilp_correct:
  assumes "k < 64"
  shows "unat (ceilp addr (2 ^ k)) =
    (if unat addr + (2 ^ k - 1) < 2 ^ 64 then round_up (2 ^ k) (unat addr) else 0)"
proof (cases "unat addr + (2 ^ k - 1) < 2 ^ 64")
  case True
  with assms show ?thesis by (simp only: unat_ceilp if_True)
next
  case False
  then have "2 ^ 64 \<le> unat addr + (2 ^ k - 1)" by linarith
  with assms show ?thesis using False by (simp only: ceilp_wraps if_False) simp
qed

theorem ceilp_correct_witness:
  "unat (ceilp 4097 (2 ^ 12)) =
    (if unat (4097 :: u64) + (2 ^ 12 - 1) < 2 ^ 64 then round_up (2 ^ 12) (unat (4097 :: u64)) else 0)"
  by (rule ceilp_correct) simp

end
