(* ===== verification/Mmap.thy ===== *)
theory Mmap
  imports Align
begin

text \<open>
  The memory mapper of \<open>lps-core/mmap.c\<close>: an address space is a doubly linked list of
  mapped regions, ordered by page number, with a cursor into the list that speeds up the
  next operation. The model keeps the code's pointers: nodes live in an explicit heap, a
  pointer is an optional address (None is NULL), reading a freed or absent cell faults, and
  \<open>malloc\<close> may fail. All page numbers and lengths are 64 bit words.

  Callbacks (\<open>UpdateFn\<close>) act on a client state \<open>'u\<close>, the \<open>udata\<close> they are handed.
\<close>

section \<open>Data\<close>

record MMInfo =
  mi_prot :: cint
  mi_flags :: cint
  mi_fd :: cint
  mi_offset :: u64
  mi_original :: bool

record MMNode =
  n_base :: u64
  n_len :: u64
  n_info :: MMInfo
  n_next :: "nat option"
  n_prev :: "nat option"

record MMAddrSpace =
  mm_base :: u64
  mm_len :: u64
  mm_p2pagesize :: nat
  mm_nodes :: "nat option"
  mm_cursor :: "nat option"

text \<open>
  The C heap as the mapper sees it: the allocated nodes, the next address \<open>malloc\<close> hands out
  (addresses are never handed out twice, so a stale pointer never becomes valid again) and,
  for each allocation, whether it fails.
\<close>

record nheap =
  h_cells :: "nat \<Rightarrow> MMNode option"
  h_next :: nat
  h_oom :: "nat \<Rightarrow> bool"

record 'u mstate =
  s_heap :: nheap
  s_mm :: MMAddrSpace
  s_ud :: 'u

type_synonym 'u ufn = "u64 \<Rightarrow> u64 \<Rightarrow> MMInfo \<Rightarrow> 'u \<Rightarrow> 'u res"

abbreviation LINUX_EINVAL :: "'a::len word" where
  "LINUX_EINVAL \<equiv> 22"

section \<open>Heap access\<close>

abbreviation s_cells :: "'u mstate \<Rightarrow> nat \<Rightarrow> MMNode option" where
  "s_cells s \<equiv> h_cells (s_heap s)"

definition get_cell :: "'u mstate \<Rightarrow> nat option \<Rightarrow> MMNode res" where
  "get_cell s p =
     (case p of None \<Rightarrow> Inl NullDeref
      | Some a \<Rightarrow> (case s_cells s a of None \<Rightarrow> Inl UseAfterFree | Some n \<Rightarrow> Inr n))"

definition set_cells :: "'u mstate \<Rightarrow> (nat \<Rightarrow> MMNode option) \<Rightarrow> 'u mstate" where
  "set_cells s c = s\<lparr>s_heap := (s_heap s)\<lparr>h_cells := c\<rparr>\<rparr>"

definition upd_cell :: "'u mstate \<Rightarrow> nat option \<Rightarrow> (MMNode \<Rightarrow> MMNode) \<Rightarrow> 'u mstate res" where
  "upd_cell s p f =
     (case p of None \<Rightarrow> Inl NullDeref
      | Some a \<Rightarrow> (case s_cells s a of None \<Rightarrow> Inl UseAfterFree
                   | Some n \<Rightarrow> Inr (set_cells s ((s_cells s)(a \<mapsto> f n)))))"

definition blank_info :: MMInfo where
  "blank_info = \<lparr>mi_prot = 0, mi_flags = 0, mi_fd = 0, mi_offset = 0, mi_original = False\<rparr>"

definition blank_node :: MMNode where
  "blank_node = \<lparr>n_base = 0, n_len = 0, n_info = blank_info, n_next = None, n_prev = None\<rparr>"

definition malloc_node :: "'u mstate \<Rightarrow> nat option \<times> 'u mstate" where
  "malloc_node s =
     (let h = s_heap s; a = h_next h
      in if h_oom h a then (None, s\<lparr>s_heap := h\<lparr>h_next := Suc a\<rparr>\<rparr>)
         else (Some a, s\<lparr>s_heap := h\<lparr>h_next := Suc a, h_cells := (h_cells h)(a \<mapsto> blank_node)\<rparr>\<rparr>))"

definition free_node :: "'u mstate \<Rightarrow> nat option \<Rightarrow> 'u mstate res" where
  "free_node s p =
     (case p of None \<Rightarrow> Inr s
      | Some a \<Rightarrow> (case s_cells s a of None \<Rightarrow> Inl DoubleFree
                   | Some n \<Rightarrow> Inr (set_cells s ((s_cells s)(a := None)))))"

definition set_mm :: "'u mstate \<Rightarrow> (MMAddrSpace \<Rightarrow> MMAddrSpace) \<Rightarrow> 'u mstate" where
  "set_mm s f = s\<lparr>s_mm := f (s_mm s)\<rparr>"

definition set_cursor :: "'u mstate \<Rightarrow> nat option \<Rightarrow> 'u mstate" where
  "set_cursor s c = set_mm s (\<lambda>mm. mm\<lparr>mm_cursor := c\<rparr>)"

definition set_nodes :: "'u mstate \<Rightarrow> nat option \<Rightarrow> 'u mstate" where
  "set_nodes s p = set_mm s (\<lambda>mm. mm\<lparr>mm_nodes := p\<rparr>)"

section \<open>Arithmetic helpers\<close>

definition ispow2 :: "u64 \<Rightarrow> bool" where
  "ispow2 x \<longleftrightarrow> x AND (x - 1) = 0"

function getpow :: "u64 \<Rightarrow> nat" where
  "getpow x = (let x' = drop_bit 1 x in if x' \<noteq> 0 then Suc (getpow x') else 0)"
  by pat_completeness auto
termination
proof (relation "measure unat")
  fix x x' :: u64
  assume "x' = drop_bit 1 x" and "x' \<noteq> 0"
  then have "0 < unat x div 2" and "unat x' = unat x div 2"
    using unat_drop_bit [of 1 x] by (simp_all only: unat_gt_0 [symmetric] power_one_right)
  then show "(x', x) \<in> measure unat" by simp
qed simp

declare getpow.simps [simp del]

definition mmvalid :: "MMAddrSpace \<Rightarrow> u64 \<Rightarrow> u64 \<Rightarrow> bool" where
  "mmvalid mm start len \<longleftrightarrow> start \<ge> mm_base mm \<and> start + len \<le> mm_base mm + mm_len mm"

definition mmtrunc :: "MMAddrSpace \<Rightarrow> u64 \<Rightarrow> u64" where
  "mmtrunc mm addr = drop_bit (mm_p2pagesize mm) addr"

text \<open>\<open>1 << mm->p2pagesize\<close> is an \<open>int\<close> shift, widened afterwards.\<close>

definition mmpagesize :: "MMAddrSpace \<Rightarrow> u64 res" where
  "mmpagesize mm = rbind (int_shl 1 (mm_p2pagesize mm)) (\<lambda>v. Inr (int_to_u64 v))"

definition mmceil :: "MMAddrSpace \<Rightarrow> u64 \<Rightarrow> u64 res" where
  "mmceil mm addr =
     rbind (mmpagesize mm) (\<lambda>align.
       let align_mask = align - 1
       in Inr (drop_bit (mm_p2pagesize mm) ((addr + align_mask) AND NOT align_mask)))"

definition contained :: "u64 \<Rightarrow> u64 \<Rightarrow> u64 \<Rightarrow> u64 \<Rightarrow> bool" where
  "contained key1 size1 key2 size2 \<longleftrightarrow> key1 \<ge> key2 \<and> key1 + size1 \<le> key2 + size2"

section \<open>List surgery\<close>

definition node_insert_before :: "'u mstate \<Rightarrow> nat option \<Rightarrow> nat option \<Rightarrow> 'u mstate res" where
  "node_insert_before s n new =
     rbind (rassert (n \<noteq> None)) (\<lambda>_.
     rbind (upd_cell s new (\<lambda>x. x\<lparr>n_next := n\<rparr>)) (\<lambda>s.
     rbind (get_cell s n) (\<lambda>nd.
     rbind (upd_cell s new (\<lambda>x. x\<lparr>n_prev := n_prev nd\<rparr>)) (\<lambda>s.
     rbind (get_cell s n) (\<lambda>nd.
     rbind (case n_prev nd of
              Some p \<Rightarrow> upd_cell s (Some p) (\<lambda>x. x\<lparr>n_next := new\<rparr>)
            | None \<Rightarrow> Inr (set_nodes s new)) (\<lambda>s.
     upd_cell s n (\<lambda>x. x\<lparr>n_prev := new\<rparr>)))))))"

definition node_insert_after :: "'u mstate \<Rightarrow> nat option \<Rightarrow> nat option \<Rightarrow> 'u mstate res" where
  "node_insert_after s n new =
     rbind (rassert (n \<noteq> None)) (\<lambda>_.
     rbind (get_cell s n) (\<lambda>nd.
     rbind (upd_cell s new (\<lambda>x. x\<lparr>n_next := n_next nd\<rparr>)) (\<lambda>s.
     rbind (upd_cell s new (\<lambda>x. x\<lparr>n_prev := n\<rparr>)) (\<lambda>s.
     rbind (get_cell s n) (\<lambda>nd.
     rbind (case n_next nd of
              Some q \<Rightarrow> upd_cell s (Some q) (\<lambda>x. x\<lparr>n_prev := new\<rparr>)
            | None \<Rightarrow> Inr s) (\<lambda>s.
     upd_cell s n (\<lambda>x. x\<lparr>n_next := new\<rparr>)))))))"

definition node_remove :: "'u mstate \<Rightarrow> nat option \<Rightarrow> 'u mstate res" where
  "node_remove s n =
     rbind (get_cell s n) (\<lambda>nd.
     rbind (case n_next nd of
              Some q \<Rightarrow> upd_cell s (Some q) (\<lambda>x. x\<lparr>n_prev := n_prev nd\<rparr>)
            | None \<Rightarrow> Inr s) (\<lambda>s.
     rbind (get_cell s n) (\<lambda>nd.
     rbind (case n_prev nd of
              Some p \<Rightarrow> upd_cell s (Some p) (\<lambda>x. x\<lparr>n_next := n_next nd\<rparr>)
            | None \<Rightarrow> Inr (set_nodes s (n_next nd))) (\<lambda>s.
     rbind (upd_cell s n (\<lambda>x. x\<lparr>n_next := None\<rparr>)) (\<lambda>s.
     upd_cell s n (\<lambda>x. x\<lparr>n_prev := None\<rparr>))))))"

section \<open>Operations\<close>

definition mm_init :: "u64 \<Rightarrow> u64 \<Rightarrow> u64 \<Rightarrow> (bool \<times> MMAddrSpace) res" where
  "mm_init start len pagesize =
     rbind (rassert (ispow2 pagesize)) (\<lambda>_.
       let p2pagesize = getpow pagesize
       in Inr (True, \<lparr>mm_base = drop_bit p2pagesize start, mm_len = drop_bit p2pagesize len,
                       mm_p2pagesize = p2pagesize, mm_nodes = None, mm_cursor = None\<rparr>))"

text \<open>
  Loops that follow \<open>next\<close> or \<open>prev\<close> pointers carry fuel; every caller passes one unit more
  than the number of addresses \<open>malloc\<close> ever handed out, which bounds the length of any list.
\<close>

abbreviation walk_fuel :: "'u mstate \<Rightarrow> nat" where
  "walk_fuel s \<equiv> Suc (h_next (s_heap s))"

fun mark_original_loop :: "nat \<Rightarrow> 'u mstate \<Rightarrow> nat option \<Rightarrow> 'u mstate res" where
  "mark_original_loop 0 s node = Inl OutOfFuel"
| "mark_original_loop (Suc fuel) s node =
     (case node of
        None \<Rightarrow> Inr s
      | Some _ \<Rightarrow>
          rbind (upd_cell s node (\<lambda>x. x\<lparr>n_info := (n_info x)\<lparr>mi_original := True\<rparr>\<rparr>)) (\<lambda>s.
          rbind (get_cell s node) (\<lambda>nd. mark_original_loop fuel s (n_next nd))))"

definition mm_mark_original :: "'u mstate \<Rightarrow> 'u mstate res" where
  "mm_mark_original s = mark_original_loop (walk_fuel s) s (mm_nodes (s_mm s))"

subsection \<open>Mapping anywhere\<close>

text \<open>The search loop: node, end, start and gap are the loop's variables.\<close>

fun mapany_scan ::
  "nat \<Rightarrow> 'u mstate \<Rightarrow> u64 \<Rightarrow> nat option \<Rightarrow> nat option \<Rightarrow> u64 \<Rightarrow> u64 \<Rightarrow>
   (nat option \<times> nat option \<times> u64 \<times> u64) res" where
  "mapany_scan 0 s len node endp start gap = Inl OutOfFuel"
| "mapany_scan (Suc fuel) s len node endp start gap =
     (if start < mm_base (s_mm s) + mm_len (s_mm s) then
        (case node of
           None \<Rightarrow> Inr (node, endp, start, mm_base (s_mm s) + mm_len (s_mm s) - start)
         | Some _ \<Rightarrow>
             rbind (get_cell s node) (\<lambda>nd.
               let gap = n_base nd - start
               in if gap \<ge> len then Inr (node, endp, start, gap)
                  else mapany_scan fuel s len (n_next nd)
                         (if n_next nd = None then node else endp) (n_base nd + n_len nd) gap))
      else Inr (node, endp, start, gap))"

definition new_info :: "cint \<Rightarrow> cint \<Rightarrow> cint \<Rightarrow> u64 \<Rightarrow> MMInfo" where
  "new_info prot flags fd offset =
     \<lparr>mi_prot = prot, mi_flags = flags, mi_fd = fd, mi_offset = offset, mi_original = False\<rparr>"

definition new_node :: "u64 \<Rightarrow> u64 \<Rightarrow> MMInfo \<Rightarrow> MMNode" where
  "new_node base len info =
     \<lparr>n_base = base, n_len = len, n_info = info, n_next = None, n_prev = None\<rparr>"

text \<open>The new node goes before node, or after end when the search ran off the list.\<close>

definition mapany_insert ::
  "'u mstate \<Rightarrow> u64 \<Rightarrow> u64 \<Rightarrow> MMInfo \<Rightarrow> nat option \<Rightarrow> nat option \<Rightarrow> (u64 \<times> 'u mstate) res" where
  "mapany_insert s start len info node endp =
     (case malloc_node s of
        (None, s) \<Rightarrow> Inr (-1, s)
      | (new, s) \<Rightarrow>
          rbind (upd_cell s new (\<lambda>_. new_node start len info)) (\<lambda>s.
          rbind (if node \<noteq> None then node_insert_before s node new
                 else if endp \<noteq> None then node_insert_after s endp new
                 else rbind (rassert (mm_nodes (s_mm s) = None)) (\<lambda>_. Inr (set_nodes s new))) (\<lambda>s.
          rbind (get_cell s new) (\<lambda>nw.
          let s = set_cursor s (n_prev nw)
          in Inr (push_bit (mm_p2pagesize (s_mm s)) start, s)))))"

definition mm_mapany_cursor ::
  "'u mstate \<Rightarrow> u64 \<Rightarrow> cint \<Rightarrow> cint \<Rightarrow> cint \<Rightarrow> u64 \<Rightarrow> nat option \<Rightarrow> (u64 \<times> 'u mstate) res" where
  "mm_mapany_cursor s len prot flags fd offset cursor =
     rbind (mmceil (s_mm s) len) (\<lambda>len.
     rbind (case cursor of None \<Rightarrow> Inr (mm_base (s_mm s))
            | Some _ \<Rightarrow> rbind (get_cell s cursor) (\<lambda>nd. Inr (n_base nd))) (\<lambda>start.
     rbind (mapany_scan (walk_fuel s) s len cursor cursor start 0) (\<lambda>(node, endp, start, gap).
     if gap \<ge> len then mapany_insert s start len (new_info prot flags fd offset) node endp
     else Inr (-1, s))))"

definition mm_mapany ::
  "'u mstate \<Rightarrow> u64 \<Rightarrow> cint \<Rightarrow> cint \<Rightarrow> cint \<Rightarrow> u64 \<Rightarrow> (u64 \<times> 'u mstate) res" where
  "mm_mapany s len prot flags fd offset =
     rbind (if mm_cursor (s_mm s) \<noteq> None
            then mm_mapany_cursor s len prot flags fd offset (mm_cursor (s_mm s))
            else Inr (-1, s)) (\<lambda>(p, s).
     if p \<noteq> -1 then Inr (p, s)
     else mm_mapany_cursor s len prot flags fd offset (mm_nodes (s_mm s)))"

subsection \<open>Unmapping\<close>

definition call_ufn :: "'u ufn option \<Rightarrow> u64 \<Rightarrow> u64 \<Rightarrow> MMInfo \<Rightarrow> 'u mstate \<Rightarrow> 'u mstate res" where
  "call_ufn ufn start len info s =
     (case ufn of None \<Rightarrow> Inr s
      | Some f \<Rightarrow> rbind (f start len info (s_ud s)) (\<lambda>ud. Inr (s\<lparr>s_ud := ud\<rparr>)))"

text \<open>
  One iteration of the unmap loop at \<open>node\<close>. The result says whether the loop goes on, the
  next node, and whether the spare node has been used.
\<close>

definition mm_unmap_step ::
  "'u ufn option \<Rightarrow> u64 \<Rightarrow> u64 \<Rightarrow> nat option \<Rightarrow> nat option \<Rightarrow> nat option \<Rightarrow> bool \<Rightarrow> 'u mstate \<Rightarrow>
   (bool \<times> nat option \<times> bool \<times> 'u mstate) res" where
  "mm_unmap_step ufn addr len new cursor node used_new s =
     (let p = mm_p2pagesize (s_mm s) in
      rbind (get_cell s node) (\<lambda>nd.
      if contained (n_base nd) (n_len nd) addr len then
        rbind (call_ufn ufn (push_bit p (n_base nd)) (push_bit p (n_len nd)) (n_info nd) s) (\<lambda>s.
        let s = (if mm_cursor (s_mm s) = cursor then set_cursor s (n_prev nd) else s) in
        rbind (node_remove s node) (\<lambda>s.
        rbind (free_node s node) (\<lambda>s.
        Inr (True, n_next nd, used_new, s))))
      else if contained addr len (n_base nd) (n_len nd) then
        rbind (call_ufn ufn (push_bit p addr) (push_bit p len) (n_info nd) s) (\<lambda>s.
        rbind (upd_cell s new (\<lambda>_. new_node (addr + len)
                 (n_base nd + n_len nd - (addr + len)) (n_info nd))) (\<lambda>s.
        rbind (get_cell s new) (\<lambda>nw.
        rbind (if n_len nw \<noteq> 0
               then rbind (node_insert_after s node new) (\<lambda>s.
                    rbind (rassert (\<not> used_new)) (\<lambda>_. Inr (True, s)))
               else Inr (used_new, s)) (\<lambda>(used_new, s).
        rbind (upd_cell s node (\<lambda>x. x\<lparr>n_len := addr - n_base x\<rparr>)) (\<lambda>s.
        rbind (get_cell s node) (\<lambda>nd.
        let s = (if mm_cursor (s_mm s) = cursor then set_cursor s (n_prev nd) else s) in
        rbind (if n_len nd = 0
               then rbind (node_remove s node) (\<lambda>s. free_node s node)
               else Inr s) (\<lambda>s.
        Inr (False, n_next nd, used_new, s))))))))
      else if n_base nd < addr \<and> n_base nd + n_len nd > addr then
        (let node_end = n_base nd + n_len nd in
        rbind (call_ufn ufn (push_bit p addr) (push_bit p (node_end - addr)) (n_info nd) s) (\<lambda>s.
        let s = (if mm_cursor (s_mm s) = cursor then set_cursor s node else s) in
        rbind (upd_cell s node (\<lambda>x. x\<lparr>n_len := addr - n_base x\<rparr>)) (\<lambda>s.
        Inr (True, n_next nd, used_new, s))))
      else if n_base nd < addr + len \<and> n_base nd + n_len nd > addr then
        rbind (call_ufn ufn (push_bit p (n_base nd)) (push_bit p (addr + len - n_base nd))
                 (n_info nd) s) (\<lambda>s.
        let node_end = n_base nd + n_len nd in
        rbind (upd_cell s node (\<lambda>x. x\<lparr>n_base := addr + len, n_len := node_end - (addr + len)\<rparr>)) (\<lambda>s.
        Inr (False, n_next nd, used_new, s)))
      else if n_base nd \<ge> addr + len then Inr (False, node, used_new, s)
      else Inr (True, n_next nd, used_new, s)))"

fun mm_unmap_loop ::
  "nat \<Rightarrow> 'u ufn option \<Rightarrow> u64 \<Rightarrow> u64 \<Rightarrow> nat option \<Rightarrow> nat option \<Rightarrow> nat option \<Rightarrow> bool \<Rightarrow> 'u mstate \<Rightarrow>
   (bool \<times> 'u mstate) res" where
  "mm_unmap_loop 0 ufn addr len new cursor node used_new s = Inl OutOfFuel"
| "mm_unmap_loop (Suc fuel) ufn addr len new cursor node used_new s =
     (case node of
        None \<Rightarrow> Inr (used_new, s)
      | Some _ \<Rightarrow>
          rbind (mm_unmap_step ufn addr len new cursor node used_new s)
            (\<lambda>(continue, node, used_new, s).
               if continue then mm_unmap_loop fuel ufn addr len new cursor node used_new s
               else Inr (used_new, s)))"

fun unmap_walk_back :: "nat \<Rightarrow> 'u mstate \<Rightarrow> u64 \<Rightarrow> nat option \<Rightarrow> nat option res" where
  "unmap_walk_back 0 s addr start = Inl OutOfFuel"
| "unmap_walk_back (Suc fuel) s addr start =
     (case start of
        None \<Rightarrow> Inr None
      | Some _ \<Rightarrow>
          rbind (get_cell s start) (\<lambda>nd.
            if n_base nd > addr then unmap_walk_back fuel s addr (n_prev nd) else Inr start))"

text \<open>Where the loop starts: at or before the cursor when the cursor is of use.\<close>

definition unmap_start :: "'u mstate \<Rightarrow> u64 \<Rightarrow> nat option res" where
  "unmap_start s addr =
     (if mm_cursor (s_mm s) \<noteq> None
      then rbind (unmap_walk_back (walk_fuel s) s addr (mm_cursor (s_mm s))) (\<lambda>start.
           if start \<noteq> None
           then rbind (get_cell s start) (\<lambda>nd.
                rbind (rassert (n_base nd \<le> addr)) (\<lambda>_. Inr start))
           else Inr (mm_nodes (s_mm s)))
      else Inr (mm_nodes (s_mm s)))"

definition mm_unmap_cb ::
  "'u mstate \<Rightarrow> u64 \<Rightarrow> u64 \<Rightarrow> 'u ufn option \<Rightarrow> (cint \<times> 'u mstate) res" where
  "mm_unmap_cb s addr len ufn =
     rbind (mmpagesize (s_mm s)) (\<lambda>pagesize.
     if addr mod pagesize \<noteq> 0 \<or> len = 0 then Inr (- LINUX_EINVAL, s)
     else
       let addr = mmtrunc (s_mm s) addr in
       rbind (mmceil (s_mm s) len) (\<lambda>len.
       if \<not> mmvalid (s_mm s) addr len then Inr (- LINUX_EINVAL, s)
       else
         (case malloc_node s of
            (None, s) \<Rightarrow> Inr (-1, s)
          | (new, s) \<Rightarrow>
              rbind (unmap_start s addr) (\<lambda>node.
              rbind (mm_unmap_loop (walk_fuel s) ufn addr len new (mm_cursor (s_mm s)) node False s)
                (\<lambda>(used_new, s).
              rbind (if \<not> used_new then free_node s new else Inr s) (\<lambda>s.
              Inr (0, s)))))))"

definition mm_unmap :: "'u mstate \<Rightarrow> u64 \<Rightarrow> u64 \<Rightarrow> (cint \<times> 'u mstate) res" where
  "mm_unmap s addr len = mm_unmap_cb s addr len None"

definition mm_free :: "'u mstate \<Rightarrow> 'u mstate res" where
  "mm_free s =
     (let p2pagesize = mm_p2pagesize (s_mm s) in
      rbind (mm_unmap s (push_bit p2pagesize (mm_base (s_mm s))) (push_bit p2pagesize (mm_len (s_mm s))))
        (\<lambda>(_, s).
      rbind (free_node s (mm_nodes (s_mm s))) (\<lambda>s. Inr (set_nodes s None))))"

subsection \<open>Mapping at an address\<close>

fun mapat_find :: "nat \<Rightarrow> 'u mstate \<Rightarrow> u64 \<Rightarrow> u64 \<Rightarrow> nat option \<Rightarrow> nat option res" where
  "mapat_find 0 s addr len node = Inl OutOfFuel"
| "mapat_find (Suc fuel) s addr len node =
     (case node of
        None \<Rightarrow> Inr None
      | Some _ \<Rightarrow>
          rbind (get_cell s node) (\<lambda>nd.
          rbind (case n_next nd of None \<Rightarrow> Inr (mm_base (s_mm s) + mm_len (s_mm s))
                 | Some _ \<Rightarrow> rbind (get_cell s (n_next nd)) (\<lambda>nx. Inr (n_base nx))) (\<lambda>next.
          if addr \<ge> n_base nd + n_len nd \<and> addr + len \<le> next then Inr node
          else mapat_find fuel s addr len (n_next nd))))"

text \<open>The insertion of the new node, once its range is free.\<close>

definition mapat_link :: "'u mstate \<Rightarrow> u64 \<Rightarrow> u64 \<Rightarrow> nat option \<Rightarrow> 'u mstate res" where
  "mapat_link s addr len new =
     rbind (case mm_cursor (s_mm s) of
              None \<Rightarrow> Inr (mm_nodes (s_mm s))
            | Some c \<Rightarrow> rbind (get_cell s (Some c)) (\<lambda>cd.
                Inr (if n_base cd \<le> addr then Some c else mm_nodes (s_mm s)))) (\<lambda>node.
     case node of
       None \<Rightarrow> Inr (set_nodes s new)
     | Some _ \<Rightarrow>
         rbind (get_cell s node) (\<lambda>nd.
         if addr + len \<le> n_base nd then node_insert_before s node new
         else
           rbind (mapat_find (walk_fuel s) s addr len node) (\<lambda>node.
           rbind (rassert (node \<noteq> None)) (\<lambda>_. node_insert_after s node new))))"

definition mm_mapat_cb ::
  "'u mstate \<Rightarrow> u64 \<Rightarrow> u64 \<Rightarrow> cint \<Rightarrow> cint \<Rightarrow> cint \<Rightarrow> u64 \<Rightarrow> 'u ufn option \<Rightarrow> (u64 \<times> 'u mstate) res" where
  "mm_mapat_cb s addr len prot flags fd offset ufn =
     rbind (mmpagesize (s_mm s)) (\<lambda>pagesize.
     if addr mod pagesize \<noteq> 0 then Inr (-1, s)
     else
       let addr = mmtrunc (s_mm s) addr in
       rbind (mmceil (s_mm s) len) (\<lambda>len.
       if \<not> mmvalid (s_mm s) addr len then Inr (- LINUX_EINVAL, s)
       else
         (case malloc_node s of
            (None, s) \<Rightarrow> Inr (-1, s)
          | (new, s) \<Rightarrow>
              (let p = mm_p2pagesize (s_mm s) in
              rbind (mm_unmap_cb s (push_bit p addr) (push_bit p len) ufn) (\<lambda>(r, s).
              rbind (rassert (r = 0)) (\<lambda>_.
              rbind (upd_cell s new (\<lambda>_. new_node addr len (new_info prot flags fd offset))) (\<lambda>s.
              rbind (mapat_link s addr len new) (\<lambda>s.
              Inr (push_bit (mm_p2pagesize (s_mm s)) addr, s)))))))))"

definition mm_mapat ::
  "'u mstate \<Rightarrow> u64 \<Rightarrow> u64 \<Rightarrow> cint \<Rightarrow> cint \<Rightarrow> cint \<Rightarrow> u64 \<Rightarrow> (u64 \<times> 'u mstate) res" where
  "mm_mapat s addr len prot flags fd offset =
     mm_mapat_cb s addr len prot flags fd offset None"

subsection \<open>Dropping the mappings a sandbox added\<close>

fun unmap_non_original_loop :: "nat \<Rightarrow> 'u mstate \<Rightarrow> nat option \<Rightarrow> 'u ufn option \<Rightarrow> 'u mstate res" where
  "unmap_non_original_loop 0 s node ufn = Inl OutOfFuel"
| "unmap_non_original_loop (Suc fuel) s node ufn =
     (case node of
        None \<Rightarrow> Inr s
      | Some _ \<Rightarrow>
          (let p = mm_p2pagesize (s_mm s) in
           rbind (get_cell s node) (\<lambda>nd.
           rbind (if \<not> mi_original (n_info nd)
                  then rbind (mm_unmap_cb s (push_bit p (n_base nd)) (push_bit p (n_len nd)) ufn)
                         (\<lambda>(_, s). Inr s)
                  else Inr s) (\<lambda>s.
           rbind (get_cell s node) (\<lambda>nd. unmap_non_original_loop fuel s (n_next nd) ufn)))))"

definition mm_unmap_non_original :: "'u mstate \<Rightarrow> 'u ufn option \<Rightarrow> 'u mstate res" where
  "mm_unmap_non_original s ufn =
     unmap_non_original_loop (walk_fuel s) s (mm_nodes (s_mm s)) ufn"

end
