(* ===== verification/Mmap_Heap.thy ===== *)
theory Mmap_Heap
  imports Mmap
begin

text \<open>
  The shape of the mapper's node list on the heap. \<open>lseg\<close> describes a doubly linked segment
  by the addresses it visits; the three surgery routines of \<open>mmap.c\<close> are shown to insert and
  remove exactly one address, to touch nothing but links, and never to fault on a
  well-formed list.
\<close>

section \<open>Doubly linked segments\<close>

text \<open>
  \<open>lseg c p pv as q l\<close>: starting at pointer p, with p's \<open>prev\<close> equal to pv, the list visits
  the addresses as and ends at pointer q; l is the last address visited (pv if none).
\<close>

fun lseg ::
  "(nat \<Rightarrow> MMNode option) \<Rightarrow> nat option \<Rightarrow> nat option \<Rightarrow> nat list \<Rightarrow> nat option \<Rightarrow> nat option \<Rightarrow> bool"
where
  "lseg c p pv [] q l \<longleftrightarrow> p = q \<and> pv = l"
| "lseg c p pv (a # as) q l \<longleftrightarrow>
     p = Some a \<and> (\<exists>n. c a = Some n \<and> n_prev n = pv \<and> lseg c (n_next n) (Some a) as q l)"

definition dll :: "(nat \<Rightarrow> MMNode option) \<Rightarrow> nat option \<Rightarrow> nat list \<Rightarrow> bool" where
  "dll c p as \<longleftrightarrow> (\<exists>l. lseg c p None as None l)"

definition first_ptr :: "nat list \<Rightarrow> nat option" where
  "first_ptr as = (case as of [] \<Rightarrow> None | a # _ \<Rightarrow> Some a)"

definition last_ptr :: "nat list \<Rightarrow> nat option" where
  "last_ptr as = (if as = [] then None else Some (last as))"

lemma first_ptr_simps [simp]: "first_ptr [] = None" "first_ptr (a # as) = Some a"
  by (simp_all add: first_ptr_def)

lemma last_ptr_simps [simp]: "last_ptr [] = None" "last_ptr (as @ [a]) = Some a"
  by (simp_all add: last_ptr_def)

lemma lseg_append:
  "lseg c p pv (xs @ ys) q l \<longleftrightarrow> (\<exists>r m. lseg c p pv xs r m \<and> lseg c r m ys q l)"
  by (induction xs arbitrary: p pv) auto

lemma lseg_upd_out [simp]:
  "a \<notin> set as \<Longrightarrow> lseg (c(a := v)) p pv as q l = lseg c p pv as q l"
  by (induction as arbitrary: p pv) auto

lemma lseg_last: "lseg c p pv as q l \<Longrightarrow> l = (if as = [] then pv else Some (last as))"
  by (induction as arbitrary: p pv) auto

lemma lseg_first: "lseg c p pv as q l \<Longrightarrow> p = (if as = [] then q else Some (hd as))"
  by (cases as) auto

lemma lseg_cells: "lseg c p pv as q l \<Longrightarrow> a \<in> set as \<Longrightarrow> \<exists>n. c a = Some n"
  by (induction as arbitrary: p pv) auto

lemma lseg_cong: "(\<And>a. a \<in> set as \<Longrightarrow> c a = c' a) \<Longrightarrow> lseg c p pv as q l = lseg c' p pv as q l"
  by (induction as arbitrary: p pv) auto

lemma dll_Nil [simp]: "dll c p [] \<longleftrightarrow> p = None"
  by (auto simp: dll_def)

lemma dll_first: "dll c p as \<Longrightarrow> p = first_ptr as"
  by (auto simp: dll_def first_ptr_def split: list.splits)

lemma dll_split:
  "dll c p (xs @ ys) \<longleftrightarrow>
     lseg c p None xs (first_ptr ys) (last_ptr xs) \<and> (\<exists>l. lseg c (first_ptr ys) (last_ptr xs) ys None l)"
proof
  assume "dll c p (xs @ ys)"
  then obtain r m l where *: "lseg c p None xs r m" "lseg c r m ys None l"
    by (auto simp: dll_def lseg_append)
  then have "m = last_ptr xs" by (auto dest: lseg_last simp: last_ptr_def)
  moreover from * have "r = first_ptr ys" by (auto dest: lseg_first simp: first_ptr_def split: list.splits)
  ultimately show "lseg c p None xs (first_ptr ys) (last_ptr xs) \<and>
    (\<exists>l. lseg c (first_ptr ys) (last_ptr xs) ys None l)" using * by blast
next
  assume "lseg c p None xs (first_ptr ys) (last_ptr xs) \<and>
    (\<exists>l. lseg c (first_ptr ys) (last_ptr xs) ys None l)"
  then show "dll c p (xs @ ys)" by (auto simp: dll_def lseg_append)
qed

lemma dll_cells: "dll c p as \<Longrightarrow> a \<in> set as \<Longrightarrow> \<exists>n. c a = Some n"
  by (auto simp: dll_def dest: lseg_cells)

lemma dll_cong: "(\<And>a. a \<in> set as \<Longrightarrow> c a = c' a) \<Longrightarrow> dll c p as = dll c' p as"
  unfolding dll_def by (auto cong: lseg_cong)

lemma dll_live: "dll c p as \<Longrightarrow> set bs \<subseteq> set as \<Longrightarrow> b \<in> set bs \<Longrightarrow> c b \<noteq> None"
  by (auto dest: dll_cells)

lemma lseg_upd_data:
  "c a = Some n \<Longrightarrow> n_next n' = n_next n \<Longrightarrow> n_prev n' = n_prev n \<Longrightarrow>
   lseg (c(a \<mapsto> n')) p pv as q l = lseg c p pv as q l"
  by (induction as arbitrary: p pv) auto

lemma dll_upd_data:
  "c a = Some n \<Longrightarrow> n_next n' = n_next n \<Longrightarrow> n_prev n' = n_prev n \<Longrightarrow>
   dll (c(a \<mapsto> n')) p as = dll c p as"
  by (simp add: dll_def lseg_upd_data)

lemma dll_upd_out: "a \<notin> set as \<Longrightarrow> dll (c(a := v)) p as = dll c p as"
  by (simp add: dll_def)

lemma dll_node:
  assumes "dll c p (xs @ a # ys)"
  obtains n where "c a = Some n" "n_prev n = last_ptr xs" "n_next n = first_ptr ys"
proof -
  from assms obtain n l where "c a = Some n" "n_prev n = last_ptr xs"
      "lseg c (n_next n) (Some a) ys None l"
    by (auto simp: dll_split)
  moreover from this(3) have "n_next n = first_ptr ys"
    by (auto dest: lseg_first simp: first_ptr_def split: list.splits)
  ultimately show ?thesis using that by blast
qed

section \<open>What the surgery routines leave alone\<close>

definition node_data :: "MMNode \<Rightarrow> u64 \<times> u64 \<times> MMInfo" where
  "node_data n = (n_base n, n_len n, n_info n)"

abbreviation data_at :: "(nat \<Rightarrow> MMNode option) \<Rightarrow> nat \<Rightarrow> (u64 \<times> u64 \<times> MMInfo) option" where
  "data_at c b \<equiv> map_option node_data (c b)"

definition mm_same :: "MMAddrSpace \<Rightarrow> MMAddrSpace \<Rightarrow> bool" where
  "mm_same mm mm' \<longleftrightarrow>
     mm_base mm' = mm_base mm \<and> mm_len mm' = mm_len mm \<and> mm_p2pagesize mm' = mm_p2pagesize mm"

lemma mm_same_simps [simp]:
  "mm_same mm mm"
  "mm_same mm (mm'\<lparr>mm_nodes := p\<rparr>) = mm_same mm mm'"
  "mm_same mm (mm'\<lparr>mm_cursor := p\<rparr>) = mm_same mm mm'"
  by (simp_all add: mm_same_def)

lemma mm_same_trans: "mm_same a b \<Longrightarrow> mm_same b c \<Longrightarrow> mm_same a c"
  by (simp add: mm_same_def)

definition links_only :: "'u mstate \<Rightarrow> 'u mstate \<Rightarrow> nat set \<Rightarrow> bool" where
  "links_only s s' A \<longleftrightarrow>
     s_ud s' = s_ud s \<and> h_next (s_heap s') = h_next (s_heap s) \<and> h_oom (s_heap s') = h_oom (s_heap s) \<and>
     mm_same (s_mm s) (s_mm s') \<and> mm_cursor (s_mm s') = mm_cursor (s_mm s) \<and>
     (\<forall>b. data_at (s_cells s') b = data_at (s_cells s) b) \<and>
     (\<forall>b. b \<notin> A \<longrightarrow> s_cells s' b = s_cells s b)"

text \<open>A change confined to the cells of A, the list head, the cursor and the client state.\<close>

definition mframe :: "'u mstate \<Rightarrow> 'u mstate \<Rightarrow> nat set \<Rightarrow> bool" where
  "mframe s s' A \<longleftrightarrow>
     h_next (s_heap s') = h_next (s_heap s) \<and> h_oom (s_heap s') = h_oom (s_heap s) \<and>
     mm_same (s_mm s) (s_mm s') \<and> (\<forall>b. b \<notin> A \<longrightarrow> s_cells s' b = s_cells s b)"

lemma mframe_trans: "mframe s s' A \<Longrightarrow> mframe s' s'' B \<Longrightarrow> A \<subseteq> C \<Longrightarrow> B \<subseteq> C \<Longrightarrow> mframe s s'' C"
  unfolding mframe_def by (metis mm_same_trans subsetD)

lemma links_only_mframe: "links_only s s' A \<Longrightarrow> mframe s s' A"
  by (simp add: links_only_def mframe_def)

named_theorems cell_simps

lemma cell_access [cell_simps]:
  "s_cells s a = Some n \<Longrightarrow> get_cell s (Some a) = Inr n"
  "s_cells s a = Some n \<Longrightarrow> upd_cell s (Some a) f = Inr (set_cells s ((s_cells s)(a \<mapsto> f n)))"
  "s_cells s a = Some n \<Longrightarrow> free_node s (Some a) = Inr (set_cells s ((s_cells s)(a := None)))"
  by (simp_all add: get_cell_def upd_cell_def free_node_def)

lemma set_cells_simps [simp]:
  "s_cells (set_cells s c) = c"
  "s_mm (set_cells s c) = s_mm s"
  "s_ud (set_cells s c) = s_ud s"
  "h_next (s_heap (set_cells s c)) = h_next (s_heap s)"
  "h_oom (s_heap (set_cells s c)) = h_oom (s_heap s)"
  "set_cells (set_cells s c) c' = set_cells s c'"
  by (simp_all add: set_cells_def)

lemma set_mm_simps [simp]:
  "s_heap (set_nodes s p) = s_heap s"
  "s_ud (set_nodes s p) = s_ud s"
  "s_mm (set_nodes s p) = (s_mm s)\<lparr>mm_nodes := p\<rparr>"
  "s_heap (set_cursor s p) = s_heap s"
  "s_ud (set_cursor s p) = s_ud s"
  "s_mm (set_cursor s p) = (s_mm s)\<lparr>mm_cursor := p\<rparr>"
  by (simp_all add: set_nodes_def set_cursor_def set_mm_def)

lemma node_data_link [simp]:
  "node_data (n\<lparr>n_next := p\<rparr>) = node_data n"
  "node_data (n\<lparr>n_prev := p\<rparr>) = node_data n"
  by (simp_all add: node_data_def)

section \<open>Removal\<close>

lemma node_remove_ok:
  assumes dll: "dll (s_cells s) (mm_nodes (s_mm s)) (xs @ a # ys)" and dist: "distinct (xs @ a # ys)"
  obtains s' where "node_remove s (Some a) = Inr s'" "links_only s s' (set (xs @ a # ys))"
    "dll (s_cells s') (mm_nodes (s_mm s')) (xs @ ys)"
proof -
  obtain na where na: "s_cells s a = Some na" "n_prev na = last_ptr xs" "n_next na = first_ptr ys"
    using dll by (rule dll_node)
  show ?thesis
  proof (cases ys)
    case ys: Nil
    show ?thesis
    proof (cases xs rule: rev_cases)
      case Nil
      then show ?thesis
        using na ys by (intro that) (auto simp: node_remove_def cell_simps links_only_def)
    next
      case (snoc xs' x)
      obtain nx where nx: "s_cells s x = Some nx" "n_prev nx = last_ptr xs'" "n_next nx = Some a"
        using dll snoc by (auto elim: dll_node [of _ _ xs' x "a # ys"])
      show ?thesis
        using na ys snoc nx dist dll
        by (intro that) (auto simp: node_remove_def cell_simps links_only_def dll_split lseg_append)
    qed
  next
    case ys: (Cons y ys')
    obtain ny where ny: "s_cells s y = Some ny" "n_prev ny = Some a" "n_next ny = first_ptr ys'"
      using dll ys dll_node [of "s_cells s" "mm_nodes (s_mm s)" "xs @ [a]" y ys'] by auto
    show ?thesis
    proof (cases xs rule: rev_cases)
      case Nil
      then show ?thesis
        using na ys ny dist dll
        by (intro that) (auto simp: node_remove_def cell_simps links_only_def dll_def)
    next
      case (snoc xs' x)
      obtain nx where nx: "s_cells s x = Some nx" "n_prev nx = last_ptr xs'" "n_next nx = Some a"
        using dll snoc by (auto elim: dll_node [of _ _ xs' x "a # ys"])
      show ?thesis
        using na ys snoc nx ny dist dll
        by (intro that) (auto simp: node_remove_def cell_simps links_only_def dll_split lseg_append)
    qed
  qed
qed

lemma remove_free_ok:
  assumes dll: "dll (s_cells s) (mm_nodes (s_mm s)) (xs @ a # ys)" and dist: "distinct (xs @ a # ys)"
  obtains s2 s3 where "node_remove s (Some a) = Inr s2" "free_node s2 (Some a) = Inr s3"
    "dll (s_cells s3) (mm_nodes (s_mm s3)) (xs @ ys)" "s_cells s3 a = None"
    "s_ud s3 = s_ud s" "mm_cursor (s_mm s3) = mm_cursor (s_mm s)" "mframe s s3 (set (xs @ a # ys))"
    "\<forall>b. b \<noteq> a \<longrightarrow> data_at (s_cells s3) b = data_at (s_cells s) b"
proof -
  obtain s2 where s2: "node_remove s (Some a) = Inr s2" "links_only s s2 (set (xs @ a # ys))"
      "dll (s_cells s2) (mm_nodes (s_mm s2)) (xs @ ys)"
    using dll dist by (rule node_remove_ok)
  obtain na where "s_cells s a = Some na" using dll by (rule dll_node)
  then obtain na2 where na2: "s_cells s2 a = Some na2"
    using s2(2) unfolding links_only_def by (metis map_option_eq_Some)
  let ?s3 = "set_cells s2 ((s_cells s2)(a := None))"
  show ?thesis
  proof
    show "free_node s2 (Some a) = Inr ?s3" using na2 by (rule cell_access)
    show "dll (s_cells ?s3) (mm_nodes (s_mm ?s3)) (xs @ ys)"
      using s2(3) dist by (simp add: dll_upd_out)
  qed (use s2 in \<open>auto simp: links_only_def mframe_def\<close>)
qed

section \<open>Insertion\<close>

lemma node_insert_before_ok:
  assumes dll: "dll (s_cells s) (mm_nodes (s_mm s)) (xs @ a # ys)"
    and dist: "distinct (xs @ a # ys)" and new: "b \<notin> set (xs @ a # ys)" "s_cells s b = Some nb"
  obtains s' where "node_insert_before s (Some a) (Some b) = Inr s'"
    "links_only s s' (insert b (set (xs @ a # ys)))"
    "dll (s_cells s') (mm_nodes (s_mm s')) (xs @ b # a # ys)"
proof -
  obtain na where na: "s_cells s a = Some na" "n_prev na = last_ptr xs" "n_next na = first_ptr ys"
    using dll by (rule dll_node)
  have tail: "\<exists>l. lseg (s_cells s) (first_ptr ys) (Some a) ys None l"
    using dll na by (auto simp: dll_split)
  show ?thesis
  proof (cases xs rule: rev_cases)
    case Nil
    then show ?thesis
      using na dist new tail
      by (intro that) (auto simp: node_insert_before_def cell_simps links_only_def dll_def)
  next
    case (snoc xs' x)
    obtain nx where nx: "s_cells s x = Some nx" "n_prev nx = last_ptr xs'" "n_next nx = Some a"
      using dll snoc by (auto elim: dll_node [of _ _ xs' x "a # ys"])
    show ?thesis
      using na snoc nx dist dll new tail
      by (intro that)
        (auto simp: node_insert_before_def cell_simps links_only_def dll_split lseg_append)
  qed
qed

lemma node_insert_after_ok:
  assumes dll: "dll (s_cells s) (mm_nodes (s_mm s)) (xs @ a # ys)"
    and dist: "distinct (xs @ a # ys)" and new: "b \<notin> set (xs @ a # ys)" "s_cells s b = Some nb"
  obtains s' where "node_insert_after s (Some a) (Some b) = Inr s'"
    "links_only s s' (insert b (set (xs @ a # ys)))"
    "dll (s_cells s') (mm_nodes (s_mm s')) (xs @ a # b # ys)"
proof -
  obtain na where na: "s_cells s a = Some na" "n_prev na = last_ptr xs" "n_next na = first_ptr ys"
    using dll by (rule dll_node)
  have head: "lseg (s_cells s) (mm_nodes (s_mm s)) None xs (Some a) (last_ptr xs)"
    using dll by (simp add: dll_split)
  show ?thesis
  proof (cases ys)
    case Nil
    then show ?thesis
      using na dist new head
      by (intro that) (auto simp: node_insert_after_def cell_simps links_only_def dll_split)
  next
    case (Cons y ys')
    obtain ny where ny: "s_cells s y = Some ny" "n_prev ny = Some a" "n_next ny = first_ptr ys'"
      using dll Cons dll_node [of "s_cells s" "mm_nodes (s_mm s)" "xs @ [a]" y ys'] by auto
    show ?thesis
      using na Cons ny dist dll new head
      by (intro that) (auto simp: node_insert_after_def cell_simps links_only_def dll_split)
  qed
qed

section \<open>The list as a value\<close>

text \<open>Following the \<open>next\<close> pointers, with fuel; on a well-formed list this finds the address list.\<close>

fun walk :: "nat \<Rightarrow> (nat \<Rightarrow> MMNode option) \<Rightarrow> nat option \<Rightarrow> nat list" where
  "walk 0 c p = []"
| "walk (Suc fuel) c p =
     (case p of None \<Rightarrow> []
      | Some a \<Rightarrow> (case c a of None \<Rightarrow> [] | Some n \<Rightarrow> a # walk fuel c (n_next n)))"

lemma walk_lseg: "lseg c p pv as None l \<Longrightarrow> length as < fuel \<Longrightarrow> walk fuel c p = as"
proof (induction as arbitrary: fuel p pv)
  case Nil
  then show ?case by (cases fuel) auto
next
  case (Cons a as)
  then show ?case by (cases fuel) auto
qed

lemma walk_dll: "dll c p as \<Longrightarrow> length as < fuel \<Longrightarrow> walk fuel c p = as"
  by (auto simp: dll_def intro: walk_lseg)

lemma distinct_bounded_length:
  "distinct as \<Longrightarrow> (\<And>a. a \<in> set as \<Longrightarrow> a < n) \<Longrightarrow> length as \<le> n"
  by (metis card_lessThan card_mono distinct_card finite_lessThan lessThan_iff subsetI)

text \<open>Regions: first page, number of pages, attributes.\<close>

type_synonym seg = "nat \<times> nat \<times> MMInfo"

definition seg_of :: "MMNode \<Rightarrow> seg" where
  "seg_of n = (unat (n_base n), unat (n_len n), n_info n)"

definition segs_at :: "(nat \<Rightarrow> MMNode option) \<Rightarrow> nat list \<Rightarrow> seg list" where
  "segs_at c as = map (\<lambda>a. seg_of (the (c a))) as"

definition mm_addrs :: "'u mstate \<Rightarrow> nat list" where
  "mm_addrs s = walk (walk_fuel s) (s_cells s) (mm_nodes (s_mm s))"

definition mm_segs :: "'u mstate \<Rightarrow> seg list" where
  "mm_segs s = segs_at (s_cells s) (mm_addrs s)"

lemma segs_at_simps [simp]:
  "segs_at c [] = []"
  "segs_at c (a # as) = seg_of (the (c a)) # segs_at c as"
  "segs_at c (as @ bs) = segs_at c as @ segs_at c bs"
  by (simp_all add: segs_at_def)

lemma segs_at_cong: "(\<And>a. a \<in> set as \<Longrightarrow> c a = c' a) \<Longrightarrow> segs_at c as = segs_at c' as"
  by (simp add: segs_at_def)

lemma segs_at_upd_out [simp]: "a \<notin> set as \<Longrightarrow> segs_at (c(a := v)) as = segs_at c as"
  by (auto simp: segs_at_def)

lemma seg_of_node_data: "node_data n = node_data n' \<Longrightarrow> seg_of n = seg_of n'"
  by (simp add: node_data_def seg_of_def)

lemma segs_at_data:
  assumes "\<And>b. b \<in> set bs \<Longrightarrow> data_at c' b = data_at c b"
  shows "segs_at c' bs = segs_at c bs"
proof -
  have "seg_of (the (c' b)) = seg_of (the (c b))" if mem: "b \<in> set bs" for b
    using assms [OF mem] by (cases "c b"; cases "c' b") (auto intro: seg_of_node_data)
  then show ?thesis by (simp add: segs_at_def)
qed

lemma segs_at_one: "data_at c b = Some (x, y, i) \<Longrightarrow> segs_at c [b] = [(unat x, unat y, i)]"
  by (auto simp: node_data_def seg_of_def)

lemma seg_of_simps [simp]:
  "seg_of (new_node b l i) = (unat b, unat l, i)"
  by (simp add: seg_of_def new_node_def)

end
