(* ===== verification/Mmap_Unmap.thy ===== *)
theory Mmap_Unmap
  imports Mmap_Heap
begin

text \<open>
  Correctness of the unmap loop of \<open>mmap.c\<close>: on a well-formed list it computes, node for
  node, the list function \<open>unm\<close>, which removes a page range from a sorted list of regions,
  and it reports exactly the removed pieces to the callback.
\<close>

section \<open>Regions as lists\<close>

text \<open>Sorted, disjoint, non-empty regions between two page numbers.\<close>

fun segs_ok :: "nat \<Rightarrow> nat \<Rightarrow> seg list \<Rightarrow> bool" where
  "segs_ok lo hi [] \<longleftrightarrow> lo \<le> hi"
| "segs_ok lo hi ((b, l, i) # xs) \<longleftrightarrow> lo \<le> b \<and> 0 < l \<and> segs_ok (b + l) hi xs"

lemma segs_ok_le: "segs_ok lo hi xs \<Longrightarrow> lo \<le> hi"
proof (induction xs arbitrary: lo)
  case (Cons x xs)
  then show ?case by (cases x) (auto dest!: Cons.IH)
qed simp

lemma segs_ok_append:
  "segs_ok lo hi (xs @ ys) \<longleftrightarrow> (\<exists>m. segs_ok lo m xs \<and> segs_ok m hi ys)"
proof (induction xs arbitrary: lo)
  case Nil
  then show ?case
  proof (cases ys)
    case (Cons y ys')
    then show ?thesis by (cases y) (auto intro: le_trans)
  qed (auto intro: le_trans)
next
  case (Cons x xs)
  then show ?case by (cases x) auto
qed

lemma segs_ok_lower: "segs_ok lo hi xs \<Longrightarrow> lo' \<le> lo \<Longrightarrow> segs_ok lo' hi xs"
  by (induction lo hi xs rule: segs_ok.induct) auto

lemma segs_ok_upper: "segs_ok lo hi xs \<Longrightarrow> hi \<le> hi' \<Longrightarrow> segs_ok lo hi' xs"
proof (induction xs arbitrary: lo)
  case (Cons x xs)
  then show ?case by (cases x) auto
qed simp

text \<open>The pages a list of regions maps, each with the attributes of its region.\<close>

fun pages_of :: "seg list \<Rightarrow> nat \<Rightarrow> MMInfo option" where
  "pages_of [] q = None"
| "pages_of ((b, l, i) # xs) q = (if b \<le> q \<and> q < b + l then Some i else pages_of xs q)"

lemma pages_of_append:
  "pages_of (xs @ ys) q = (case pages_of xs q of None \<Rightarrow> pages_of ys q | Some i \<Rightarrow> Some i)"
  by (induction xs) auto

lemma pages_of_below: "segs_ok lo hi xs \<Longrightarrow> q < lo \<Longrightarrow> pages_of xs q = None"
proof (induction xs arbitrary: lo)
  case (Cons x xs)
  then show ?case by (cases x) auto
qed simp

lemma pages_of_above: "segs_ok lo hi xs \<Longrightarrow> hi \<le> q \<Longrightarrow> pages_of xs q = None"
proof (induction xs arbitrary: lo)
  case (Cons x xs)
  then show ?case by (cases x) (auto dest: segs_ok_le)
qed simp

section \<open>Unmapping a range from a list\<close>

fun unm :: "nat \<Rightarrow> nat \<Rightarrow> seg list \<Rightarrow> seg list" where
  "unm a n [] = []"
| "unm a n ((b, l, i) # xs) =
     (if a \<le> b \<and> b + l \<le> a + n then unm a n xs
      else if b \<le> a \<and> a + n \<le> b + l then
        (if b < a then [(b, a - b, i)] else []) @
        (if a + n < b + l then [(a + n, b + l - (a + n), i)] else []) @ xs
      else if b < a \<and> a < b + l then (b, a - b, i) # unm a n xs
      else if b < a + n \<and> a < b + l then (a + n, b + l - (a + n), i) # xs
      else if a + n \<le> b then (b, l, i) # xs
      else (b, l, i) # unm a n xs)"

text \<open>The pieces reported to the callback, in order.\<close>

fun hits :: "nat \<Rightarrow> nat \<Rightarrow> seg list \<Rightarrow> seg list" where
  "hits a n [] = []"
| "hits a n ((b, l, i) # xs) =
     (if a \<le> b \<and> b + l \<le> a + n then (b, l, i) # hits a n xs
      else if b \<le> a \<and> a + n \<le> b + l then [(a, n, i)]
      else if b < a \<and> a < b + l then (a, b + l - a, i) # hits a n xs
      else if b < a + n \<and> a < b + l then [(b, a + n - b, i)]
      else if a + n \<le> b then []
      else hits a n xs)"

lemma unm_ok: "segs_ok lo hi xs \<Longrightarrow> segs_ok lo hi (unm a n xs)"
proof (induction xs arbitrary: lo)
  case (Cons x xs)
  obtain b l i where x: "x = (b, l, i)" by (cases x)
  have xs: "segs_ok (b + l) hi xs" and lo: "lo \<le> b" "0 < l"
    using Cons.prems by (simp_all add: x)
  have rest: "segs_ok (b + l) hi (unm a n xs)" using xs by (rule Cons.IH)
  have "segs_ok m hi (unm a n xs)" "segs_ok m hi xs" if "m \<le> b + l" for m
    using rest xs that by (auto intro: segs_ok_lower)
  then show ?case using lo by (auto simp: x)
qed simp

lemma pages_of_unm:
  "segs_ok lo hi xs \<Longrightarrow>
   pages_of (unm a n xs) q = (if a \<le> q \<and> q < a + n then None else pages_of xs q)"
proof (induction xs arbitrary: lo)
  case (Cons x xs)
  obtain b l i where x: "x = (b, l, i)" by (cases x)
  have xs: "segs_ok (b + l) hi xs" and l: "0 < l"
    using Cons.prems by (simp_all add: x)
  have IH: "pages_of (unm a n xs) q = (if a \<le> q \<and> q < a + n then None else pages_of xs q)"
    using xs by (rule Cons.IH)
  have out: "q < b + l \<Longrightarrow> pages_of xs q = None"
    using xs by (rule pages_of_below)
  show ?case using IH out l by (auto simp: x)
qed simp

lemma pages_of_hits:
  "segs_ok lo hi xs \<Longrightarrow>
   pages_of (hits a n xs) q = (if a \<le> q \<and> q < a + n then pages_of xs q else None)"
proof (induction xs arbitrary: lo)
  case (Cons x xs)
  obtain b l i where x: "x = (b, l, i)" by (cases x)
  have xs: "segs_ok (b + l) hi xs" and l: "0 < l"
    using Cons.prems by (simp_all add: x)
  have IH: "pages_of (hits a n xs) q = (if a \<le> q \<and> q < a + n then pages_of xs q else None)"
    using xs by (rule Cons.IH)
  have out: "q < b + l \<Longrightarrow> pages_of xs q = None"
    using xs by (rule pages_of_below)
  show ?case using IH out l by (auto simp: x)
qed simp

text \<open>Regions that end below the range are left alone.\<close>

lemma unm_zero: "segs_ok a hi ys \<Longrightarrow> unm a 0 ys = ys"
  by (cases ys) auto

lemma unm_append_before:
  "segs_ok lo m xs \<Longrightarrow> segs_ok m hi ys \<Longrightarrow> m \<le> a \<Longrightarrow> unm a n (xs @ ys) = xs @ unm a n ys"
proof (induction xs arbitrary: lo)
  case (Cons x xs)
  obtain b l i where x: "x = (b, l, i)" by (cases x)
  have xs: "segs_ok (b + l) m xs" and l: "0 < l" using Cons.prems by (simp_all add: x)
  have le: "b + l \<le> m" using segs_ok_le [OF xs] by simp
  have "unm a n ys = ys" if "a + n \<le> b + l"
  proof -
    have "n = 0" "a = m" using that le Cons.prems(3) by simp_all
    then show ?thesis using Cons.prems(2) unm_zero by simp
  qed
  then show ?case
    using Cons.IH [OF xs Cons.prems(2,3)] l le Cons.prems(3) by (auto simp: x)
qed simp

lemma hits_append_before:
  "segs_ok lo m xs \<Longrightarrow> m \<le> a \<Longrightarrow> 0 < n \<Longrightarrow> hits a n (xs @ ys) = hits a n ys"
proof (induction xs arbitrary: lo)
  case (Cons x xs)
  obtain b l i where x: "x = (b, l, i)" by (cases x)
  have xs: "segs_ok (b + l) m xs" and l: "0 < l" using Cons.prems by (simp_all add: x)
  have "b + l \<le> a" using segs_ok_le [OF xs] Cons.prems(2) by simp
  then show ?case
    using Cons.IH [OF xs Cons.prems(2,3)] l Cons.prems(3) by (auto simp: x)
qed simp

section \<open>The heap loop computes \<open>unm\<close>\<close>

fun run_ufn :: "'u ufn option \<Rightarrow> nat \<Rightarrow> seg list \<Rightarrow> 'u \<Rightarrow> 'u res" where
  "run_ufn ufn p [] u = Inr u"
| "run_ufn ufn p ((b, l, i) # hs) u =
     rbind (case ufn of None \<Rightarrow> Inr u | Some f \<Rightarrow> f (push_bit p (of_nat b)) (push_bit p (of_nat l)) i u)
       (run_ufn ufn p hs)"

definition cursor_in :: "nat option \<Rightarrow> nat list \<Rightarrow> bool" where
  "cursor_in c as \<longleftrightarrow> (case c of None \<Rightarrow> True | Some a \<Rightarrow> a \<in> set as)"

lemma cursor_in_simps [simp]:
  "cursor_in None as" "cursor_in (Some a) as \<longleftrightarrow> a \<in> set as"
  by (simp_all add: cursor_in_def)

lemma cursor_in_last_ptr: "cursor_in (last_ptr xs) (xs @ ys)"
  by (simp add: last_ptr_def)

lemma cursor_in_mono: "cursor_in c as \<Longrightarrow> set as \<subseteq> set bs \<Longrightarrow> cursor_in c bs"
  by (cases c) auto

lemma contained_iff:
  assumes "unat k1 + unat s1 < 2 ^ 64" "unat k2 + unat s2 < 2 ^ 64"
  shows "contained k1 s1 k2 s2 \<longleftrightarrow> unat k2 \<le> unat k1 \<and> unat k1 + unat s1 \<le> unat k2 + unat s2"
  using assms by (simp add: contained_def word_le_nat_alt unat_add_nowrap)

text \<open>The range and node of one iteration, with all sums in range.\<close>

lemma node_bounds:
  assumes "segs_ok lo hi (segs_at c (a # ys))" "c a = Some n" "hi < 2 ^ 64"
  shows "lo \<le> unat (n_base n)" "0 < unat (n_len n)" "unat (n_base n) + unat (n_len n) \<le> hi"
    "segs_ok (unat (n_base n) + unat (n_len n)) hi (segs_at c ys)"
    "unat (n_base n + n_len n) = unat (n_base n) + unat (n_len n)"
proof -
  show 1: "lo \<le> unat (n_base n)" "0 < unat (n_len n)"
    and 2: "segs_ok (unat (n_base n) + unat (n_len n)) hi (segs_at c ys)"
    using assms by (simp_all add: seg_of_def)
  show 3: "unat (n_base n) + unat (n_len n) \<le> hi" using segs_ok_le [OF 2] .
  show "unat (n_base n + n_len n) = unat (n_base n) + unat (n_len n)"
    using 3 assms(3) by (intro unat_add_nowrap) simp
qed

text \<open>The cursor update every branch performs before it drops or shortens its node.\<close>

definition retarget :: "'u mstate \<Rightarrow> nat option \<Rightarrow> nat option \<Rightarrow> 'u mstate" where
  "retarget s cur p = (if mm_cursor (s_mm s) = cur then set_cursor s p else s)"

lemma retarget_simps [simp]:
  "s_heap (retarget s cur p) = s_heap s"
  "s_ud (retarget s cur p) = s_ud s"
  "mm_nodes (s_mm (retarget s cur p)) = mm_nodes (s_mm s)"
  "mm_same mm (s_mm (retarget s cur p)) = mm_same mm (s_mm s)"
  "mm_cursor (s_mm (retarget s cur p)) = (if mm_cursor (s_mm s) = cur then p else mm_cursor (s_mm s))"
  by (simp_all add: retarget_def)

lemmas unmap_step_retarget = mm_unmap_step_def [folded retarget_def]

text \<open>First case: the node lies inside the range and is removed.\<close>

lemma unmap_step_inside:
  assumes dll: "dll (s_cells s) (mm_nodes (s_mm s)) (xs @ a # ys)" and dist: "distinct (xs @ a # ys)"
    and na: "s_cells s a = Some na" and hit: "contained (n_base na) (n_len na) addr len"
    and ufn: "call_ufn ufn (push_bit (mm_p2pagesize (s_mm s)) (n_base na))
        (push_bit (mm_p2pagesize (s_mm s)) (n_len na)) (n_info na) s = Inr (s\<lparr>s_ud := u\<rparr>)"
  obtains s' where "mm_unmap_step ufn addr len new cur (Some a) used s = Inr (True, first_ptr ys, used, s')"
    "dll (s_cells s') (mm_nodes (s_mm s')) (xs @ ys)" "s_cells s' a = None" "s_ud s' = u"
    "mm_cursor (s_mm s') = (if mm_cursor (s_mm s) = cur then last_ptr xs else mm_cursor (s_mm s))"
    "mframe s s' (set (xs @ a # ys))"
    "\<forall>b. b \<noteq> a \<longrightarrow> data_at (s_cells s') b = data_at (s_cells s) b"
proof -
  obtain na' where "s_cells s a = Some na'" "n_prev na' = last_ptr xs" "n_next na' = first_ptr ys"
    using dll by (rule dll_node)
  with na have link: "n_prev na = last_ptr xs" "n_next na = first_ptr ys" by simp_all
  let ?s1 = "retarget (s\<lparr>s_ud := u\<rparr>) cur (last_ptr xs)"
  have "dll (s_cells ?s1) (mm_nodes (s_mm ?s1)) (xs @ a # ys)" using dll by simp
  then obtain s2 s3 where s3: "node_remove ?s1 (Some a) = Inr s2" "free_node s2 (Some a) = Inr s3"
      "dll (s_cells s3) (mm_nodes (s_mm s3)) (xs @ ys)" "s_cells s3 a = None"
      "s_ud s3 = s_ud ?s1" "mm_cursor (s_mm s3) = mm_cursor (s_mm ?s1)"
      "mframe ?s1 s3 (set (xs @ a # ys))"
      "\<forall>b. b \<noteq> a \<longrightarrow> data_at (s_cells s3) b = data_at (s_cells ?s1) b"
    using dist by (rule remove_free_ok)
  show ?thesis
  proof
    show "mm_unmap_step ufn addr len new cur (Some a) used s = Inr (True, first_ptr ys, used, s3)"
      using na hit ufn s3(1,2) link by (simp add: unmap_step_retarget cell_simps)
  qed (use s3 in \<open>auto simp: mframe_def mm_same_def retarget_def\<close>)
qed

text \<open>Second case: the range lies inside the node, which is split.\<close>

lemma insert_rest_ok:
  assumes dll: "dll (s_cells s) (mm_nodes (s_mm s)) (xs @ a # ys)" and dist: "distinct (xs @ a # ys)"
    and new: "b \<notin> set (xs @ a # ys)" "s_cells s b = Some nb"
  obtains s2 where "(if n_len nb \<noteq> 0 then rbind (node_insert_after s (Some a) (Some b)) (\<lambda>s.
        rbind (rassert (\<not> False)) (\<lambda>_. Inr (True, s))) else Inr (False, s)) = Inr (n_len nb \<noteq> 0, s2)"
    "links_only s s2 (insert b (set (xs @ a # ys)))"
    "dll (s_cells s2) (mm_nodes (s_mm s2)) (xs @ a # (if n_len nb \<noteq> 0 then [b] else []) @ ys)"
proof (cases "n_len nb = 0")
  case True
  then show ?thesis using dll by (intro that [of s]) (auto simp: links_only_def)
next
  case False
  obtain s2 where "node_insert_after s (Some a) (Some b) = Inr s2"
      "links_only s s2 (insert b (set (xs @ a # ys)))"
      "dll (s_cells s2) (mm_nodes (s_mm s2)) (xs @ a # b # ys)"
    using dll dist new by (rule node_insert_after_ok)
  then show ?thesis using False by (intro that [of s2]) auto
qed

lemma drop_if_empty_ok:
  assumes dll: "dll (s_cells s) (mm_nodes (s_mm s)) (xs @ a # ys)" and dist: "distinct (xs @ a # ys)"
  obtains s' where "(if v = (0 :: u64) then rbind (node_remove s (Some a)) (\<lambda>s. free_node s (Some a)) else Inr s) = Inr s'"
    "dll (s_cells s') (mm_nodes (s_mm s')) (xs @ (if v \<noteq> 0 then [a] else []) @ ys)"
    "v = 0 \<longrightarrow> s_cells s' a = None" "s_ud s' = s_ud s" "mm_cursor (s_mm s') = mm_cursor (s_mm s)"
    "mframe s s' (set (xs @ a # ys))"
    "\<forall>b. b \<noteq> a \<or> v \<noteq> 0 \<longrightarrow> data_at (s_cells s') b = data_at (s_cells s) b"
proof (cases "v = 0")
  case True
  obtain s2 s3 where s3: "node_remove s (Some a) = Inr s2" "free_node s2 (Some a) = Inr s3"
      "dll (s_cells s3) (mm_nodes (s_mm s3)) (xs @ ys)" "s_cells s3 a = None"
      "s_ud s3 = s_ud s" "mm_cursor (s_mm s3) = mm_cursor (s_mm s)" "mframe s s3 (set (xs @ a # ys))"
      "\<forall>b. b \<noteq> a \<longrightarrow> data_at (s_cells s3) b = data_at (s_cells s) b"
    using dll dist by (rule remove_free_ok)
  show ?thesis by (rule that [of s3]) (use True s3 in auto)
next
  case False
  show ?thesis by (rule that [of s]) (use False dll in \<open>auto simp: mframe_def\<close>)
qed

lemma unmap_step_split:
  assumes dll: "dll (s_cells s) (mm_nodes (s_mm s)) (xs @ a # ys)" and dist: "distinct (xs @ a # ys)"
    and na: "s_cells s a = Some na" and new: "b \<notin> set (xs @ a # ys)" "s_cells s b \<noteq> None"
    and hit: "\<not> contained (n_base na) (n_len na) addr len" "contained addr len (n_base na) (n_len na)"
    and ufn: "call_ufn ufn (push_bit (mm_p2pagesize (s_mm s)) addr)
        (push_bit (mm_p2pagesize (s_mm s)) len) (n_info na) s = Inr (s\<lparr>s_ud := u\<rparr>)"
    and rest: "rest = n_base na + n_len na - (addr + len)"
  obtains s' q where
    "mm_unmap_step ufn addr len (Some b) cur (Some a) False s = Inr (False, q, rest \<noteq> 0, s')"
    "dll (s_cells s') (mm_nodes (s_mm s'))
       (xs @ (if addr - n_base na \<noteq> 0 then [a] else []) @ (if rest \<noteq> 0 then [b] else []) @ ys)"
    "s_ud s' = u" "data_at (s_cells s') b = Some (addr + len, rest, n_info na)"
    "addr - n_base na \<noteq> 0 \<longrightarrow> data_at (s_cells s') a = Some (n_base na, addr - n_base na, n_info na)"
    "addr - n_base na = 0 \<longrightarrow> s_cells s' a = None"
    "mm_cursor (s_mm s') = (if mm_cursor (s_mm s) = cur then last_ptr xs else mm_cursor (s_mm s))"
    "mframe s s' (insert b (set (xs @ a # ys)))"
    "\<forall>c. c \<noteq> a \<and> c \<noteq> b \<longrightarrow> data_at (s_cells s') c = data_at (s_cells s) c"
proof -
  let ?nn = "new_node (addr + len) rest (n_info na)"
  let ?s1 = "set_cells (s\<lparr>s_ud := u\<rparr>) ((s_cells s)(b \<mapsto> ?nn))"
  have nn: "n_len ?nn = rest" by (simp add: new_node_def)
  have new1: "s_cells ?s1 b = Some ?nn" by simp
  have dll1: "dll (s_cells ?s1) (mm_nodes (s_mm ?s1)) (xs @ a # ys)"
    using dll new(1) by (simp add: dll_upd_out)
  obtain s2 where ins: "(if rest \<noteq> 0 then rbind (node_insert_after ?s1 (Some a) (Some b)) (\<lambda>s.
        rbind (rassert (\<not> False)) (\<lambda>_. Inr (True, s))) else Inr (False, ?s1)) = Inr (rest \<noteq> 0, s2)"
      and s2: "links_only ?s1 s2 (insert b (set (xs @ a # ys)))"
      "dll (s_cells s2) (mm_nodes (s_mm s2)) (xs @ a # (if rest \<noteq> 0 then [b] else []) @ ys)"
    using insert_rest_ok [OF dll1 dist new(1) new1] unfolding nn by metis
  obtain n2 where n2: "s_cells s2 a = Some n2" "n_prev n2 = last_ptr xs"
    using dll_node [OF s2(2)] by blast
  have s2_data: "data_at (s_cells s2) q = data_at (s_cells ?s1) q" for q
    using s2(1) by (simp add: links_only_def)
  have n2_data: "n_base n2 = n_base na" "n_info n2 = n_info na"
    using s2_data [of a] n2(1) na new(1) by (simp_all add: node_data_def)
  let ?n3 = "n2\<lparr>n_len := addr - n_base na\<rparr>"
  let ?s4 = "retarget (set_cells s2 ((s_cells s2)(a \<mapsto> ?n3))) cur (last_ptr xs)"
  have dll4: "dll (s_cells ?s4) (mm_nodes (s_mm ?s4)) (xs @ a # (if rest \<noteq> 0 then [b] else []) @ ys)"
    using s2(2) n2(1) by (simp add: dll_upd_data)
  have dist4: "distinct (xs @ a # (if rest \<noteq> 0 then [b] else []) @ ys)" using dist new(1) by auto
  obtain s' where s': "(if addr - n_base na = 0 then rbind (node_remove ?s4 (Some a)) (\<lambda>s. free_node s (Some a))
        else Inr ?s4) = Inr s'"
      "dll (s_cells s') (mm_nodes (s_mm s'))
        (xs @ (if addr - n_base na \<noteq> 0 then [a] else []) @ (if rest \<noteq> 0 then [b] else []) @ ys)"
      "addr - n_base na = 0 \<longrightarrow> s_cells s' a = None" "s_ud s' = s_ud ?s4"
      "mm_cursor (s_mm s') = mm_cursor (s_mm ?s4)"
      "mframe ?s4 s' (set (xs @ a # (if rest \<noteq> 0 then [b] else []) @ ys))"
      "\<forall>b. b \<noteq> a \<or> addr - n_base na \<noteq> 0 \<longrightarrow> data_at (s_cells s') b = data_at (s_cells ?s4) b"
    using dll4 dist4 by (rule drop_if_empty_ok)
  have fr: "mframe s ?s4 (insert b (set (xs @ a # ys)))"
    using s2(1) by (auto simp: links_only_def mframe_def)
  show ?thesis
  proof
    show "mm_unmap_step ufn addr len (Some b) cur (Some a) False s = Inr (False, n_next ?n3, rest \<noteq> 0, s')"
    proof -
      obtain nb where nb: "s_cells s b = Some nb" using new(2) by blast
      show ?thesis
        using na hit ufn nb ins s'(1) n2 n2_data
        by (simp add: unmap_step_retarget cell_simps nn Let_def cong: if_cong split del: if_split flip: rest)
    qed
    show "mframe s s' (insert b (set (xs @ a # ys)))"
      by (rule mframe_trans [OF fr s'(6)]) auto
    show "data_at (s_cells s') b = Some (addr + len, rest, n_info na)"
      using s'(7) new(1) s2_data [of b] by (auto simp: node_data_def new_node_def)
    show "\<forall>c. c \<noteq> a \<and> c \<noteq> b \<longrightarrow> data_at (s_cells s') c = data_at (s_cells s) c"
      using s'(7) s2_data by auto
    show "addr - n_base na \<noteq> 0 \<longrightarrow> data_at (s_cells s') a = Some (n_base na, addr - n_base na, n_info na)"
      using s'(7) n2_data by (auto simp: node_data_def)
  qed (use s' s2(1) in \<open>auto simp: links_only_def\<close>)
qed

text \<open>Third and fourth case: the range cuts off the node's tail or its head.\<close>

lemma unmap_step_tail:
  assumes dll: "dll (s_cells s) (mm_nodes (s_mm s)) (xs @ a # ys)"
    and na: "s_cells s a = Some na"
    and hit: "\<not> contained (n_base na) (n_len na) addr len" "\<not> contained addr len (n_base na) (n_len na)"
      "n_base na < addr" "addr < n_base na + n_len na"
    and ufn: "call_ufn ufn (push_bit (mm_p2pagesize (s_mm s)) addr)
        (push_bit (mm_p2pagesize (s_mm s)) (n_base na + n_len na - addr)) (n_info na) s = Inr (s\<lparr>s_ud := u\<rparr>)"
  obtains s' where "mm_unmap_step ufn addr len new cur (Some a) used s = Inr (True, first_ptr ys, used, s')"
    "dll (s_cells s') (mm_nodes (s_mm s')) (xs @ a # ys)" "s_ud s' = u"
    "data_at (s_cells s') a = Some (n_base na, addr - n_base na, n_info na)"
    "mm_cursor (s_mm s') = (if mm_cursor (s_mm s) = cur then Some a else mm_cursor (s_mm s))"
    "mframe s s' {a}" "\<forall>b. b \<noteq> a \<longrightarrow> data_at (s_cells s') b = data_at (s_cells s) b"
proof -
  let ?s' = "set_cells (retarget (s\<lparr>s_ud := u\<rparr>) cur (Some a))
    ((s_cells s)(a \<mapsto> na\<lparr>n_len := addr - n_base na\<rparr>))"
  have "n_next na = first_ptr ys" using dll na by (metis dll_node option.inject)
  then show ?thesis
    using assms
    by (intro that [of ?s'])
      (auto simp: unmap_step_retarget cell_simps Let_def mframe_def node_data_def dll_upd_data)
qed

lemma unmap_step_head:
  assumes dll: "dll (s_cells s) (mm_nodes (s_mm s)) (xs @ a # ys)"
    and na: "s_cells s a = Some na"
    and hit: "\<not> contained (n_base na) (n_len na) addr len" "\<not> contained addr len (n_base na) (n_len na)"
      "\<not> n_base na < addr" "n_base na < addr + len" "addr < n_base na + n_len na"
    and ufn: "call_ufn ufn (push_bit (mm_p2pagesize (s_mm s)) (n_base na))
        (push_bit (mm_p2pagesize (s_mm s)) (addr + len - n_base na)) (n_info na) s = Inr (s\<lparr>s_ud := u\<rparr>)"
  obtains s' q where "mm_unmap_step ufn addr len new cur (Some a) used s = Inr (False, q, used, s')"
    "dll (s_cells s') (mm_nodes (s_mm s')) (xs @ a # ys)" "s_ud s' = u"
    "data_at (s_cells s') a = Some (addr + len, n_base na + n_len na - (addr + len), n_info na)"
    "mm_cursor (s_mm s') = mm_cursor (s_mm s)"
    "mframe s s' {a}" "\<forall>b. b \<noteq> a \<longrightarrow> data_at (s_cells s') b = data_at (s_cells s) b"
proof -
  let ?s' = "set_cells (s\<lparr>s_ud := u\<rparr>) ((s_cells s)(a \<mapsto>
    na\<lparr>n_base := addr + len, n_len := n_base na + n_len na - (addr + len)\<rparr>))"
  show ?thesis
    using assms
    by (intro that [of "n_next na" ?s'])
      (auto simp: unmap_step_retarget cell_simps Let_def mframe_def node_data_def dll_upd_data)
qed

text \<open>What the whole loop leaves behind, from a state with prefix xs done and ys to do.\<close>

definition unmap_done ::
  "'u mstate \<Rightarrow> 'u mstate \<Rightarrow> nat \<Rightarrow> nat list \<Rightarrow> nat list \<Rightarrow> nat list \<Rightarrow> bool \<Rightarrow> seg list \<Rightarrow> bool" where
  "unmap_done s s' b xs ys ws used segs \<longleftrightarrow>
     dll (s_cells s') (mm_nodes (s_mm s')) (xs @ ws) \<and> distinct (xs @ ws) \<and>
     set ws \<subseteq> insert b (set ys) \<and> (used \<longleftrightarrow> b \<in> set ws) \<and> s_cells s' b \<noteq> None \<and>
     cursor_in (mm_cursor (s_mm s')) (xs @ ws) \<and>
     segs_at (s_cells s') ws = segs \<and> segs_at (s_cells s') xs = segs_at (s_cells s) xs \<and>
     (\<forall>a \<in> set ys. a \<notin> set ws \<longrightarrow> s_cells s' a = None) \<and>
     mframe s s' (insert b (set (xs @ ys)))"

definition cursor_tracked :: "nat option \<Rightarrow> nat option \<Rightarrow> nat list \<Rightarrow> nat list \<Rightarrow> bool" where
  "cursor_tracked c cur xs ys \<longleftrightarrow> c = cur \<and> cursor_in cur (xs @ ys) \<or> cursor_in c xs"

lemma call_ufn_run:
  "(case ufn of None \<Rightarrow> Inr (s_ud s) | Some f \<Rightarrow> f x y i (s_ud s)) = Inr u \<Longrightarrow>
   call_ufn ufn x y i s = Inr (s\<lparr>s_ud := u\<rparr>)"
  by (cases ufn) (auto simp: call_ufn_def)

lemma unmap_done_drop:
  assumes fin: "unmap_done s1 s' b xs ys ws used segs"
    and fr: "mframe s s1 (set (xs @ a # ys))" and a: "s_cells s1 a = None" "a \<notin> set (xs @ ys)" "a \<noteq> b"
    and data: "\<forall>q. q \<noteq> a \<longrightarrow> data_at (s_cells s1) q = data_at (s_cells s) q"
  shows "unmap_done s s' b xs (a # ys) ws used segs"
proof -
  have fr1: "mframe s1 s' (insert b (set (xs @ ys)))" using fin by (simp add: unmap_done_def)
  have "s_cells s' a = None" using fr1 a by (simp add: mframe_def)
  moreover have "segs_at (s_cells s1) xs = segs_at (s_cells s) xs"
    using data a by (intro segs_at_data) auto
  moreover have "mframe s s' (insert b (set (xs @ a # ys)))"
    by (rule mframe_trans [OF fr fr1]) auto
  ultimately show ?thesis using fin by (auto simp: unmap_done_def)
qed

lemma unmap_done_keep:
  assumes fin: "unmap_done s1 s' b (xs @ [a]) ys ws used segs"
    and fr: "mframe s s1 {a}" and a: "a \<notin> set (xs @ ys)" "a \<noteq> b" "segs_at (s_cells s1) [a] = [x]"
    and data: "\<forall>q. q \<noteq> a \<longrightarrow> data_at (s_cells s1) q = data_at (s_cells s) q"
  shows "unmap_done s s' b xs (a # ys) (a # ws) used (x # segs)"
proof -
  have fr1: "mframe s1 s' (insert b (set (xs @ a # ys)))" using fin by (auto simp: unmap_done_def)
  have "segs_at (s_cells s1) xs = segs_at (s_cells s) xs"
    using data a by (intro segs_at_data) auto
  moreover have "mframe s s' (insert b (set (xs @ a # ys)))"
    by (rule mframe_trans [OF fr fr1]) auto
  ultimately show ?thesis using fin a by (auto simp: unmap_done_def)
qed

text \<open>The conditions of the loop body, read as natural numbers.\<close>

lemma body_conds:
  assumes bl: "unat (n_base n) + unat (n_len n) \<le> hi" and an: "unat addr + unat len \<le> hi"
    and hi: "hi < 2 ^ 64"
  shows
    "contained (n_base n) (n_len n) addr len \<longleftrightarrow>
       unat addr \<le> unat (n_base n) \<and> unat (n_base n) + unat (n_len n) \<le> unat addr + unat len"
    "contained addr len (n_base n) (n_len n) \<longleftrightarrow>
       unat (n_base n) \<le> unat addr \<and> unat addr + unat len \<le> unat (n_base n) + unat (n_len n)"
    "n_base n < addr \<longleftrightarrow> unat (n_base n) < unat addr"
    "addr < n_base n + n_len n \<longleftrightarrow> unat addr < unat (n_base n) + unat (n_len n)"
    "n_base n < addr + len \<longleftrightarrow> unat (n_base n) < unat addr + unat len"
    "addr + len \<le> n_base n \<longleftrightarrow> unat addr + unat len \<le> unat (n_base n)"
    "unat (addr + len) = unat addr + unat len"
    "unat (n_base n + n_len n) = unat (n_base n) + unat (n_len n)"
  using assms by (simp_all add: contained_iff word_less_nat_alt word_le_nat_alt unat_add_nowrap)

lemma unmap_loop_step:
  assumes "mm_unmap_step ufn addr len new cur (Some a) used s = Inr (k, q, used', s1)"
  shows "mm_unmap_loop (Suc fuel) ufn addr len new cur (Some a) used s =
    (if k then mm_unmap_loop fuel ufn addr len new cur q used' s1 else Inr (used', s1))"
  using assms by simp

definition unmap_goal ::
  "'u ufn option \<Rightarrow> u64 \<Rightarrow> u64 \<Rightarrow> nat \<Rightarrow> nat option \<Rightarrow> nat \<Rightarrow> 'u mstate \<Rightarrow> nat list \<Rightarrow> nat list \<Rightarrow> 'u \<Rightarrow> bool" where
  "unmap_goal ufn addr len b cur fuel s xs ys u \<longleftrightarrow>
     (\<exists>s' ws used. mm_unmap_loop fuel ufn addr len (Some b) cur (first_ptr ys) False s = Inr (used, s') \<and>
        s_ud s' = u \<and>
        unmap_done s s' b xs ys ws used (unm (unat addr) (unat len) (segs_at (s_cells s) ys)))"

definition unmap_ready ::
  "'u ufn option \<Rightarrow> u64 \<Rightarrow> u64 \<Rightarrow> nat \<Rightarrow> nat option \<Rightarrow> 'u mstate \<Rightarrow> nat list \<Rightarrow> nat list \<Rightarrow> nat \<Rightarrow> nat \<Rightarrow> 'u \<Rightarrow> bool" where
  "unmap_ready ufn addr len b cur s xs ys lo hi u \<longleftrightarrow>
     dll (s_cells s) (mm_nodes (s_mm s)) (xs @ ys) \<and> distinct (xs @ ys) \<and> b \<notin> set (xs @ ys) \<and>
     s_cells s b \<noteq> None \<and> cursor_tracked (mm_cursor (s_mm s)) cur xs ys \<and>
     segs_ok lo hi (segs_at (s_cells s) ys) \<and> unat addr + unat len \<le> hi \<and> hi < 2 ^ 64 \<and>
     run_ufn ufn (mm_p2pagesize (s_mm s))
       (hits (unat addr) (unat len) (segs_at (s_cells s) ys)) (s_ud s) = Inr u"

lemma unmap_ready_node:
  assumes R: "unmap_ready ufn addr len b cur s xs (a # ys) lo hi u" and na: "s_cells s a = Some na"
  shows "n_prev na = last_ptr xs" "n_next na = first_ptr ys" "0 < unat (n_len na)"
    "unat (n_base na) + unat (n_len na) \<le> hi" "unat addr + unat len \<le> hi" "hi < 2 ^ 64"
    "segs_ok (unat (n_base na) + unat (n_len na)) hi (segs_at (s_cells s) ys)"
    "segs_at (s_cells s) (a # ys) = (unat (n_base na), unat (n_len na), n_info na) # segs_at (s_cells s) ys"
proof -
  have dll: "dll (s_cells s) (mm_nodes (s_mm s)) (xs @ a # ys)"
    and ok: "segs_ok lo hi (segs_at (s_cells s) (a # ys))"
    using R by (simp_all add: unmap_ready_def)
  show "n_prev na = last_ptr xs" "n_next na = first_ptr ys"
    using dll_node [OF dll] na by (metis option.inject)+
  show hi: "unat addr + unat len \<le> hi" "hi < 2 ^ 64" using R by (simp_all add: unmap_ready_def)
  show "0 < unat (n_len na)" "unat (n_base na) + unat (n_len na) \<le> hi"
    "segs_ok (unat (n_base na) + unat (n_len na)) hi (segs_at (s_cells s) ys)"
    using node_bounds [OF ok na hi(2)] by blast+
  show "segs_at (s_cells s) (a # ys) = (unat (n_base na), unat (n_len na), n_info na) # segs_at (s_cells s) ys"
    using na by (simp add: seg_of_def)
qed

lemma run_ufn_hit:
  "run_ufn ufn p ((unat x, unat y, i) # hs) u0 = Inr u \<longleftrightarrow>
     (\<exists>u1. (case ufn of None \<Rightarrow> Inr u0 | Some f \<Rightarrow> f (push_bit p x) (push_bit p y) i u0) = Inr u1 \<and>
        run_ufn ufn p hs u1 = Inr u)"
  by (cases ufn) (simp_all add: rbind_Inr_iff)

lemma unmap_case_inside:
  assumes R: "unmap_ready ufn addr len b cur s xs (a # ys) lo hi u"
    and IH: "\<And>s1 lo u. unmap_ready ufn addr len b cur s1 xs ys lo hi u \<Longrightarrow> unmap_goal ufn addr len b cur fuel s1 xs ys u"
    and na: "s_cells s a = Some na"
    and hit: "contained (n_base na) (n_len na) addr len"
  shows "unmap_goal ufn addr len b cur (Suc fuel) s xs (a # ys) u"
proof -
  let ?p = "mm_p2pagesize (s_mm s)"
  have dll: "dll (s_cells s) (mm_nodes (s_mm s)) (xs @ a # ys)" and dist: "distinct (xs @ a # ys)"
    and b: "b \<notin> set (xs @ a # ys)"
    using R by (simp_all add: unmap_ready_def)
  note node = unmap_ready_node [OF R na]
  note c = body_conds [OF node(4-6)]
  obtain u1 where u1: "(case ufn of None \<Rightarrow> Inr (s_ud s) | Some f \<Rightarrow>
        f (push_bit ?p (n_base na)) (push_bit ?p (n_len na)) (n_info na) (s_ud s)) = Inr u1"
      "run_ufn ufn ?p (hits (unat addr) (unat len) (segs_at (s_cells s) ys)) u1 = Inr u"
  proof -
    have "run_ufn ufn ?p ((unat (n_base na), unat (n_len na), n_info na) #
        hits (unat addr) (unat len) (segs_at (s_cells s) ys)) (s_ud s) = Inr u"
      using R hit c node(8) by (simp add: unmap_ready_def)
    then show ?thesis using that unfolding run_ufn_hit by blast
  qed
  obtain s1 where s1: "mm_unmap_step ufn addr len (Some b) cur (Some a) False s = Inr (True, first_ptr ys, False, s1)"
      "dll (s_cells s1) (mm_nodes (s_mm s1)) (xs @ ys)" "s_cells s1 a = None" "s_ud s1 = u1"
      "mm_cursor (s_mm s1) = (if mm_cursor (s_mm s) = cur then last_ptr xs else mm_cursor (s_mm s))"
      "mframe s s1 (set (xs @ a # ys))"
      "\<forall>q. q \<noteq> a \<longrightarrow> data_at (s_cells s1) q = data_at (s_cells s) q"
    using dll dist na hit call_ufn_run [OF u1(1)] by (rule unmap_step_inside)
  have segs: "segs_at (s_cells s1) ys = segs_at (s_cells s) ys"
    using s1(7) dist by (intro segs_at_data) auto
  have "cursor_tracked (mm_cursor (s_mm s1)) cur xs ys"
    using R s1(5) cursor_in_last_ptr [of xs "[]"] by (auto simp: unmap_ready_def cursor_tracked_def)
  moreover have "s_cells s1 b \<noteq> None" "mm_p2pagesize (s_mm s1) = ?p"
    using R s1(6) b by (auto simp: unmap_ready_def mframe_def mm_same_def)
  ultimately have "unmap_ready ufn addr len b cur s1 xs ys (unat (n_base na) + unat (n_len na)) hi u"
    using s1 dist b node u1(2) segs by (simp add: unmap_ready_def)
  then have "unmap_goal ufn addr len b cur fuel s1 xs ys u" by (rule IH)
  then show ?thesis
    using unmap_loop_step [OF s1(1)] unmap_done_drop [OF _ s1(6) s1(3) _ _ s1(7)] dist b segs na hit c
    unfolding unmap_goal_def by (fastforce simp: seg_of_def)
qed

lemma unmap_case_tail:
  assumes R: "unmap_ready ufn addr len b cur s xs (a # ys) lo hi u"
    and IH: "\<And>s1 lo u. unmap_ready ufn addr len b cur s1 (xs @ [a]) ys lo hi u \<Longrightarrow>
      unmap_goal ufn addr len b cur fuel s1 (xs @ [a]) ys u"
    and na: "s_cells s a = Some na"
    and hit: "\<not> contained (n_base na) (n_len na) addr len" "\<not> contained addr len (n_base na) (n_len na)"
      "n_base na < addr" "addr < n_base na + n_len na"
  shows "unmap_goal ufn addr len b cur (Suc fuel) s xs (a # ys) u"
proof -
  let ?p = "mm_p2pagesize (s_mm s)" and ?e = "n_base na + n_len na"
  have dll: "dll (s_cells s) (mm_nodes (s_mm s)) (xs @ a # ys)" and dist: "distinct (xs @ a # ys)"
    and b: "b \<notin> set (xs @ a # ys)"
    using R by (simp_all add: unmap_ready_def)
  note node = unmap_ready_node [OF R na]
  note c = body_conds [OF node(4-6)]
  have e: "unat (?e - addr) = unat (n_base na) + unat (n_len na) - unat addr"
    using hit c by (simp add: unat_sub word_le_nat_alt)
  have l: "unat (addr - n_base na) = unat addr - unat (n_base na)"
    using hit c by (simp add: unat_sub word_le_nat_alt)
  obtain u1 where u1: "(case ufn of None \<Rightarrow> Inr (s_ud s) | Some f \<Rightarrow>
        f (push_bit ?p addr) (push_bit ?p (?e - addr)) (n_info na) (s_ud s)) = Inr u1"
      "run_ufn ufn ?p (hits (unat addr) (unat len) (segs_at (s_cells s) ys)) u1 = Inr u"
  proof -
    have "run_ufn ufn ?p ((unat addr, unat (?e - addr), n_info na) #
        hits (unat addr) (unat len) (segs_at (s_cells s) ys)) (s_ud s) = Inr u"
      using R hit c node(8) e by (simp add: unmap_ready_def)
    then show ?thesis using that unfolding run_ufn_hit by blast
  qed
  obtain s1 where s1: "mm_unmap_step ufn addr len (Some b) cur (Some a) False s = Inr (True, first_ptr ys, False, s1)"
      "dll (s_cells s1) (mm_nodes (s_mm s1)) (xs @ a # ys)" "s_ud s1 = u1"
      "data_at (s_cells s1) a = Some (n_base na, addr - n_base na, n_info na)"
      "mm_cursor (s_mm s1) = (if mm_cursor (s_mm s) = cur then Some a else mm_cursor (s_mm s))"
      "mframe s s1 {a}" "\<forall>q. q \<noteq> a \<longrightarrow> data_at (s_cells s1) q = data_at (s_cells s) q"
    using dll na hit call_ufn_run [OF u1(1)] by (rule unmap_step_tail)
  have segs: "segs_at (s_cells s1) ys = segs_at (s_cells s) ys"
    using s1(7) dist by (intro segs_at_data) auto
  have "cursor_tracked (mm_cursor (s_mm s1)) cur (xs @ [a]) ys"
    using R s1(5) by (auto simp: unmap_ready_def cursor_tracked_def intro: cursor_in_mono)
  moreover have "s_cells s1 b \<noteq> None" "mm_p2pagesize (s_mm s1) = ?p"
    using R s1(6) b by (auto simp: unmap_ready_def mframe_def mm_same_def)
  ultimately have "unmap_ready ufn addr len b cur s1 (xs @ [a]) ys (unat (n_base na) + unat (n_len na)) hi u"
    using s1 dist b node u1(2) segs by (simp add: unmap_ready_def)
  then have "unmap_goal ufn addr len b cur fuel s1 (xs @ [a]) ys u" by (rule IH)
  moreover have "segs_at (s_cells s1) [a] = [(unat (n_base na), unat (addr - n_base na), n_info na)]"
    using s1(4) by (rule segs_at_one)
  ultimately show ?thesis
    using unmap_loop_step [OF s1(1)] dist b segs hit c node(8) l
      unmap_done_keep [OF _ s1(6) _ _ _ s1(7)]
    unfolding unmap_goal_def by fastforce
qed

lemma unmap_case_skip:
  assumes R: "unmap_ready ufn addr len b cur s xs (a # ys) lo hi u"
    and IH: "\<And>s1 lo u. unmap_ready ufn addr len b cur s1 (xs @ [a]) ys lo hi u \<Longrightarrow>
      unmap_goal ufn addr len b cur fuel s1 (xs @ [a]) ys u"
    and na: "s_cells s a = Some na"
    and hit: "\<not> contained (n_base na) (n_len na) addr len" "\<not> contained addr len (n_base na) (n_len na)"
      "\<not> addr < n_base na + n_len na" "\<not> addr + len \<le> n_base na"
  shows "unmap_goal ufn addr len b cur (Suc fuel) s xs (a # ys) u"
proof -
  have dist: "distinct (xs @ a # ys)" and b: "b \<notin> set (xs @ a # ys)"
    using R by (simp_all add: unmap_ready_def)
  note node = unmap_ready_node [OF R na]
  note c = body_conds [OF node(4-6)]
  have step: "mm_unmap_step ufn addr len (Some b) cur (Some a) False s = Inr (True, first_ptr ys, False, s)"
    using na hit node(2) by (simp add: mm_unmap_step_def cell_simps)
  have "cursor_tracked (mm_cursor (s_mm s)) cur (xs @ [a]) ys"
    using R by (auto simp: unmap_ready_def cursor_tracked_def intro: cursor_in_mono)
  then have "unmap_ready ufn addr len b cur s (xs @ [a]) ys (unat (n_base na) + unat (n_len na)) hi u"
    using R hit c node by (auto simp: unmap_ready_def)
  then have "unmap_goal ufn addr len b cur fuel s (xs @ [a]) ys u" by (rule IH)
  moreover have "mframe s s {a}" by (simp add: mframe_def)
  ultimately show ?thesis
    using unmap_loop_step [OF step] dist b hit c node(8)
      unmap_done_keep [of s _ b xs a ys _ _ _ s "(unat (n_base na), unat (n_len na), n_info na)"]
    unfolding unmap_goal_def by fastforce
qed

lemma unmap_case_beyond:
  assumes R: "unmap_ready ufn addr len b cur s xs (a # ys) lo hi u"
    and na: "s_cells s a = Some na"
    and hit: "\<not> contained (n_base na) (n_len na) addr len" "\<not> contained addr len (n_base na) (n_len na)"
      "\<not> n_base na < addr" "addr + len \<le> n_base na"
  shows "unmap_goal ufn addr len b cur (Suc fuel) s xs (a # ys) u"
proof -
  note node = unmap_ready_node [OF R na]
  note c = body_conds [OF node(4-6)]
  have step: "mm_unmap_step ufn addr len (Some b) cur (Some a) False s = Inr (False, Some a, False, s)"
    using na hit by (auto simp: mm_unmap_step_def cell_simps Let_def)
  have "cursor_in (mm_cursor (s_mm s)) (xs @ a # ys)"
    using R by (auto simp: unmap_ready_def cursor_tracked_def intro: cursor_in_mono)
  then have "unmap_done s s b xs (a # ys) (a # ys) False (unm (unat addr) (unat len) (segs_at (s_cells s) (a # ys)))"
    using R hit c node(8) by (auto simp: unmap_ready_def unmap_done_def mframe_def)
  moreover have "s_ud s = u" using R hit c node(8) by (auto simp: unmap_ready_def)
  ultimately show ?thesis
    using unmap_loop_step [OF step] unfolding unmap_goal_def by auto
qed

lemma unmap_case_head:
  assumes R: "unmap_ready ufn addr len b cur s xs (a # ys) lo hi u"
    and na: "s_cells s a = Some na"
    and hit: "\<not> contained (n_base na) (n_len na) addr len" "\<not> contained addr len (n_base na) (n_len na)"
      "\<not> n_base na < addr" "n_base na < addr + len" "addr < n_base na + n_len na"
  shows "unmap_goal ufn addr len b cur (Suc fuel) s xs (a # ys) u"
proof -
  let ?p = "mm_p2pagesize (s_mm s)" and ?e = "addr + len - n_base na"
    and ?r = "n_base na + n_len na - (addr + len)"
  have dll: "dll (s_cells s) (mm_nodes (s_mm s)) (xs @ a # ys)" and dist: "distinct (xs @ a # ys)"
    and b: "b \<notin> set (xs @ a # ys)"
    using R by (simp_all add: unmap_ready_def)
  note node = unmap_ready_node [OF R na]
  note c = body_conds [OF node(4-6)]
  have e: "unat ?e = unat addr + unat len - unat (n_base na)"
    using hit c by (simp add: unat_sub word_le_nat_alt)
  have r: "unat ?r = unat (n_base na) + unat (n_len na) - (unat addr + unat len)"
    using hit c by (simp add: unat_sub word_le_nat_alt)
  have "run_ufn ufn ?p [(unat (n_base na), unat ?e, n_info na)] (s_ud s) = Inr u"
    using R hit c node(8) e by (simp add: unmap_ready_def)
  then have u: "(case ufn of None \<Rightarrow> Inr (s_ud s) | Some f \<Rightarrow>
        f (push_bit ?p (n_base na)) (push_bit ?p ?e) (n_info na) (s_ud s)) = Inr u"
    unfolding run_ufn_hit by auto
  obtain s1 q where s1: "mm_unmap_step ufn addr len (Some b) cur (Some a) False s = Inr (False, q, False, s1)"
      "dll (s_cells s1) (mm_nodes (s_mm s1)) (xs @ a # ys)" "s_ud s1 = u"
      "data_at (s_cells s1) a = Some (addr + len, ?r, n_info na)"
      "mm_cursor (s_mm s1) = mm_cursor (s_mm s)"
      "mframe s s1 {a}" "\<forall>q. q \<noteq> a \<longrightarrow> data_at (s_cells s1) q = data_at (s_cells s) q"
    using dll na hit call_ufn_run [OF u] by (rule unmap_step_head)
  have segs: "segs_at (s_cells s1) ys = segs_at (s_cells s) ys" "segs_at (s_cells s1) xs = segs_at (s_cells s) xs"
    using s1(7) dist by (auto intro!: segs_at_data)
  have "segs_at (s_cells s1) [a] = [(unat (addr + len), unat ?r, n_info na)]"
    using s1(4) by (rule segs_at_one)
  then have "segs_at (s_cells s1) (a # ys) = unm (unat addr) (unat len) (segs_at (s_cells s) (a # ys))"
    using segs hit c node(8) r by auto
  moreover have "cursor_in (mm_cursor (s_mm s1)) (xs @ a # ys)"
    using R s1(5) by (auto simp: unmap_ready_def cursor_tracked_def intro: cursor_in_mono)
  moreover have "mframe s s1 (insert b (set (xs @ a # ys)))" "s_cells s1 b \<noteq> None"
    using R s1(6) b by (auto simp: mframe_def unmap_ready_def)
  ultimately have "unmap_done s s1 b xs (a # ys) (a # ys) False (unm (unat addr) (unat len) (segs_at (s_cells s) (a # ys)))"
    using s1(2) dist b segs(2) by (auto simp: unmap_done_def)
  then show ?thesis
    using unmap_loop_step [OF s1(1)] s1(3) unfolding unmap_goal_def by auto
qed

lemma unmap_case_split:
  assumes R: "unmap_ready ufn addr len b cur s xs (a # ys) lo hi u"
    and na: "s_cells s a = Some na"
    and hit: "\<not> contained (n_base na) (n_len na) addr len" "contained addr len (n_base na) (n_len na)"
  shows "unmap_goal ufn addr len b cur (Suc fuel) s xs (a # ys) u"
proof -
  let ?p = "mm_p2pagesize (s_mm s)" and ?r = "n_base na + n_len na - (addr + len)" and ?l = "addr - n_base na"
  have dll: "dll (s_cells s) (mm_nodes (s_mm s)) (xs @ a # ys)" and dist: "distinct (xs @ a # ys)"
    and b: "b \<notin> set (xs @ a # ys)" "s_cells s b \<noteq> None"
    using R by (simp_all add: unmap_ready_def)
  note node = unmap_ready_node [OF R na]
  note c = body_conds [OF node(4-6)]
  have l: "unat ?l = unat addr - unat (n_base na)"
    using hit c by (simp add: unat_sub word_le_nat_alt)
  have r: "unat ?r = unat (n_base na) + unat (n_len na) - (unat addr + unat len)"
    using hit c by (simp add: unat_sub word_le_nat_alt)
  have h: "\<not> (unat addr \<le> unat (n_base na) \<and> unat (n_base na) + unat (n_len na) \<le> unat addr + unat len)"
      "unat (n_base na) \<le> unat addr" "unat addr + unat len \<le> unat (n_base na) + unat (n_len na)"
    using hit c(1,2) by simp_all
  then have "hits (unat addr) (unat len) (segs_at (s_cells s) (a # ys)) = [(unat addr, unat len, n_info na)]"
    by (simp only: node(8) hits.simps if_False if_True simp_thms)
  then have "run_ufn ufn ?p [(unat addr, unat len, n_info na)] (s_ud s) = Inr u"
    using R by (simp only: unmap_ready_def)
  then have u: "(case ufn of None \<Rightarrow> Inr (s_ud s) | Some f \<Rightarrow>
        f (push_bit ?p addr) (push_bit ?p len) (n_info na) (s_ud s)) = Inr u"
    unfolding run_ufn_hit by auto
  let ?ws = "(if ?l \<noteq> 0 then [a] else []) @ (if ?r \<noteq> 0 then [b] else []) @ ys"
  obtain s1 q where s1: "mm_unmap_step ufn addr len (Some b) cur (Some a) False s = Inr (False, q, ?r \<noteq> 0, s1)"
      "dll (s_cells s1) (mm_nodes (s_mm s1)) (xs @ ?ws)" "s_ud s1 = u"
      "data_at (s_cells s1) b = Some (addr + len, ?r, n_info na)"
      "?l \<noteq> 0 \<longrightarrow> data_at (s_cells s1) a = Some (n_base na, ?l, n_info na)"
      "?l = 0 \<longrightarrow> s_cells s1 a = None"
      "mm_cursor (s_mm s1) = (if mm_cursor (s_mm s) = cur then last_ptr xs else mm_cursor (s_mm s))"
      "mframe s s1 (insert b (set (xs @ a # ys)))"
      "\<forall>c. c \<noteq> a \<and> c \<noteq> b \<longrightarrow> data_at (s_cells s1) c = data_at (s_cells s) c"
    using dll dist na b hit call_ufn_run [OF u] refl by (rule unmap_step_split)
  have segs: "segs_at (s_cells s1) ys = segs_at (s_cells s) ys" "segs_at (s_cells s1) xs = segs_at (s_cells s) xs"
    using s1(9) dist b(1) by (auto intro!: segs_at_data)
  have one: "segs_at (s_cells s1) [b] = [(unat (addr + len), unat ?r, n_info na)]"
      "?l \<noteq> 0 \<Longrightarrow> segs_at (s_cells s1) [a] = [(unat (n_base na), unat ?l, n_info na)]"
    using s1(4,5) by (blast intro: segs_at_one)+
  have "?l \<noteq> 0 \<longleftrightarrow> unat (n_base na) < unat addr"
      "?r \<noteq> 0 \<longleftrightarrow> unat addr + unat len < unat (n_base na) + unat (n_len na)"
    using l r hit c by (auto simp: u64_eq_iff simp del: right_minus_eq eq_iff_diff_eq_0)
  then have "segs_at (s_cells s1) ?ws = unm (unat addr) (unat len) (segs_at (s_cells s) (a # ys))"
    using segs h c(7) node(8) r l one by auto
  moreover have "cursor_in (mm_cursor (s_mm s1)) (xs @ ?ws)"
    using R s1(7) cursor_in_last_ptr
    by (auto simp: unmap_ready_def cursor_tracked_def intro: cursor_in_mono)
  moreover have "s_cells s1 b \<noteq> None" using s1(4) by auto
  ultimately have "unmap_done s s1 b xs (a # ys) ?ws (?r \<noteq> 0) (unm (unat addr) (unat len) (segs_at (s_cells s) (a # ys)))"
    using s1(2,6,8) dist b segs(2) by (auto simp: unmap_done_def)
  then show ?thesis
    using unmap_loop_step [OF s1(1)] s1(3) unfolding unmap_goal_def by auto
qed

lemma unmap_loop_ok:
  "unmap_ready ufn addr len b cur s xs ys lo hi u \<Longrightarrow> length ys < fuel \<Longrightarrow>
   unmap_goal ufn addr len b cur fuel s xs ys u"
proof (induction ys arbitrary: xs s lo u fuel)
  case Nil
  then obtain f where "fuel = Suc f" by (cases fuel) auto
  moreover have "cursor_in (mm_cursor (s_mm s)) xs"
    using Nil.prems by (auto simp: unmap_ready_def cursor_tracked_def)
  moreover from this have "unmap_done s s b xs [] [] False []"
    using Nil.prems by (auto simp: unmap_done_def unmap_ready_def mframe_def)
  ultimately show ?case
    using Nil.prems(1) unfolding unmap_goal_def by (auto simp: unmap_ready_def)
next
  case (Cons a ys)
  then obtain f where f: "fuel = Suc f" "length ys < f" by (cases fuel) auto
  have IH: "unmap_goal ufn addr len b cur f s1 zs ys v"
    if "unmap_ready ufn addr len b cur s1 zs ys lo' hi v" for s1 zs lo' v
    using Cons.IH that f(2) by blast
  have "dll (s_cells s) (mm_nodes (s_mm s)) (xs @ a # ys)"
    using Cons.prems(1) by (simp add: unmap_ready_def)
  then obtain na where na: "s_cells s a = Some na" by (rule dll_node)
  note node = unmap_ready_node [OF Cons.prems(1) na]
  note c = body_conds [OF node(4-6)]
  note R = Cons.prems(1)
  let ?N = "n_base na" and ?L = "n_len na"
  have ord: "\<not> addr + len \<le> ?N \<Longrightarrow> ?N < addr + len" "addr + len \<le> ?N \<Longrightarrow> \<not> ?N < addr"
    using c(3,6) by auto
  consider (inside) "contained ?N ?L addr len"
    | (split) "\<not> contained ?N ?L addr len" "contained addr len ?N ?L"
    | (tail) "\<not> contained ?N ?L addr len" "\<not> contained addr len ?N ?L" "?N < addr" "addr < ?N + ?L"
    | (head) "\<not> contained ?N ?L addr len" "\<not> contained addr len ?N ?L" "\<not> ?N < addr"
        "?N < addr + len" "addr < ?N + ?L"
    | (beyond) "\<not> contained ?N ?L addr len" "\<not> contained addr len ?N ?L" "\<not> ?N < addr"
        "addr + len \<le> ?N"
    | (skip) "\<not> contained ?N ?L addr len" "\<not> contained addr len ?N ?L"
        "\<not> addr < ?N + ?L" "\<not> addr + len \<le> ?N"
    using ord by blast
  then have "unmap_goal ufn addr len b cur (Suc f) s xs (a # ys) u"
  proof cases
    case inside show ?thesis by (rule unmap_case_inside [OF R _ na inside]) (rule IH)
  next
    case split then show ?thesis by (rule unmap_case_split [OF R na])
  next
    case tail show ?thesis by (rule unmap_case_tail [OF R _ na tail]) (rule IH)
  next
    case head then show ?thesis by (rule unmap_case_head [OF R na])
  next
    case beyond then show ?thesis by (rule unmap_case_beyond [OF R na])
  next
    case skip show ?thesis by (rule unmap_case_skip [OF R _ na skip]) (rule IH)
  qed
  then show ?case by (simp only: f(1))
qed

end
