(* ===== verification/Mmap_Correct.thy ===== *)
theory Mmap_Correct
  imports Mmap_Unmap
begin

text \<open>
  Correctness of the operations of \<open>mmap.c\<close>. The invariant \<open>mm_wf\<close> says that the heap holds a
  well-formed, sorted list of disjoint non-empty regions inside the address space, that the
  cursor points into it and that every live node is on it (so nothing leaks). Each operation
  keeps it, and changes the page map \<open>pages_of\<close> by exactly the range it was given.
\<close>

section \<open>Page arithmetic\<close>

definition mm_ok :: "MMAddrSpace \<Rightarrow> bool" where
  "mm_ok mm \<longleftrightarrow> 1 \<le> mm_p2pagesize mm \<and> mm_p2pagesize mm \<le> 30 \<and>
     (unat (mm_base mm) + unat (mm_len mm)) * 2 ^ mm_p2pagesize mm < 2 ^ 64"

text \<open>Number of pages of size \<open>2 ^ p\<close> that cover n bytes.\<close>

definition pages_up :: "nat \<Rightarrow> nat \<Rightarrow> nat" where
  "pages_up p n = (n + (2 ^ p - 1)) div 2 ^ p"

lemma pages_up_pos: "0 < n \<Longrightarrow> 0 < pages_up p n"
proof -
  assume "0 < n"
  then have "2 ^ p \<le> n + (2 ^ p - 1)" by simp
  then show ?thesis by (simp add: pages_up_def div_greater_zero_iff)
qed

lemma pages_up_mult: "pages_up p (n * 2 ^ p) = n"
proof -
  have "n * 2 ^ p + (2 ^ p - 1) = (2 ^ p - 1) + n * 2 ^ p" by simp
  then have "pages_up p (n * 2 ^ p) = ((2 ^ p - 1) + n * 2 ^ p) div 2 ^ p"
    by (simp only: pages_up_def)
  also have "\<dots> = n + (2 ^ p - 1) div 2 ^ p" by (rule div_mult_self1) simp
  finally show ?thesis by simp
qed

lemma p2_power_less: "p \<le> 30 \<Longrightarrow> (2 :: int) ^ p < 2 ^ 31"
  by (rule power_strict_increasing) auto

lemma mmpagesize_ok: "mm_p2pagesize mm \<le> 30 \<Longrightarrow> mmpagesize mm = Inr (2 ^ mm_p2pagesize mm)"
proof -
  assume p: "mm_p2pagesize mm \<le> 30"
  then have "int_to_u64 (push_bit (mm_p2pagesize mm) 1) = 2 ^ mm_p2pagesize mm"
    unfolding int_to_u64_def
    by (intro bit_word_eqI) (auto simp: bit_simps bit_1_iff)
  then show ?thesis using p p2_power_less [OF p] by (simp add: mmpagesize_def int_shl_def)
qed

lemma mmceil_ok:
  assumes p: "mm_p2pagesize mm \<le> 30"
  shows "mmceil mm x = Inr (drop_bit (mm_p2pagesize mm) (ceilp x (2 ^ mm_p2pagesize mm)))"
  using mmpagesize_ok [OF p] by (simp add: mmceil_def ceilp_def Let_def)

text \<open>The page count the code computes, as a number: 0 when rounding up wraps.\<close>

definition page_count :: "nat \<Rightarrow> u64 \<Rightarrow> nat" where
  "page_count p x = unat (drop_bit p (ceilp x (2 ^ p)))"

lemma page_count_nowrap:
  "p \<le> 30 \<Longrightarrow> unat x + (2 ^ p - 1) < 2 ^ 64 \<Longrightarrow> page_count p x = pages_up p (unat x)"
  by (simp only: page_count_def unat_drop_bit unat_ceilp round_up_def pages_up_def) simp

lemma page_count_wrap: "p \<le> 30 \<Longrightarrow> 2 ^ 64 \<le> unat x + (2 ^ p - 1) \<Longrightarrow> page_count p x = 0"
  by (simp add: page_count_def ceilp_wraps)

lemma u64_mod_pow2_eq_0: "p \<le> 30 \<Longrightarrow> (x :: u64) mod 2 ^ p = 0 \<longleftrightarrow> 2 ^ p dvd unat x"
  by (simp add: u64_eq_iff unat_mod unat_power2 dvd_eq_mod_eq_0)

lemma drop_bit_small: "1 \<le> p \<Longrightarrow> unat (drop_bit p (x :: u64)) < 2 ^ 63"
proof -
  assume p: "1 \<le> p"
  have "unat x div 2 ^ p \<le> unat x div 2 ^ 1"
    by (rule div_le_mono2) (simp, rule power_increasing [OF p], simp)
  also have "\<dots> < 2 ^ 63"
    using unat_lt_2p64 [of x] by (simp add: less_mult_imp_div_less)
  finally show ?thesis by (simp only: unat_drop_bit)
qed

lemma mmvalid_iff:
  assumes "mm_ok mm"
  shows "mmvalid mm (drop_bit (mm_p2pagesize mm) a) (drop_bit (mm_p2pagesize mm) n) \<longleftrightarrow>
    unat (mm_base mm) \<le> unat a div 2 ^ mm_p2pagesize mm \<and>
    unat a div 2 ^ mm_p2pagesize mm + unat (drop_bit (mm_p2pagesize mm) n) \<le> unat (mm_base mm) + unat (mm_len mm)"
proof -
  let ?p = "mm_p2pagesize mm"
  have p: "1 \<le> ?p" using assms by (simp add: mm_ok_def)
  have "unat (mm_base mm) + unat (mm_len mm) \<le> (unat (mm_base mm) + unat (mm_len mm)) * 2 ^ ?p"
    by simp
  then have lim: "unat (mm_base mm) + unat (mm_len mm) < 2 ^ 64"
    using assms unfolding mm_ok_def by linarith
  have "unat (drop_bit ?p a) + unat (drop_bit ?p n) < 2 ^ 64"
    using drop_bit_small [OF p, of a] drop_bit_small [OF p, of n] by simp
  then show ?thesis
    using lim by (simp only: mmvalid_def u64_le_iff unat_add_nowrap unat_drop_bit)
qed

lemma unat_push_page:
  "mm_ok mm \<Longrightarrow> unat (x :: u64) \<le> unat (mm_base mm) + unat (mm_len mm) \<Longrightarrow>
   unat (push_bit (mm_p2pagesize mm) x) = unat x * 2 ^ mm_p2pagesize mm"
proof (rule unat_push_bit_nowrap)
  assume "mm_ok mm" "unat x \<le> unat (mm_base mm) + unat (mm_len mm)"
  then show "unat x * 2 ^ mm_p2pagesize mm < 2 ^ 64"
    unfolding mm_ok_def using mult_le_mono1 by (meson le_less_trans)
qed

section \<open>The invariant\<close>

text \<open>
  \<open>wf_at E s as\<close>: the list of s visits exactly the addresses as; the live nodes are those and
  the ones of E, which an operation has allocated and not linked yet.
\<close>

definition wf_at :: "nat set \<Rightarrow> 'u mstate \<Rightarrow> nat list \<Rightarrow> bool" where
  "wf_at E s as \<longleftrightarrow>
     mm_ok (s_mm s) \<and> dll (s_cells s) (mm_nodes (s_mm s)) as \<and> distinct as \<and>
     cursor_in (mm_cursor (s_mm s)) as \<and>
     dom (s_cells s) = set as \<union> E \<and> set as \<inter> E = {} \<and>
     (\<forall>a \<in> set as \<union> E. a < h_next (s_heap s)) \<and>
     segs_ok (unat (mm_base (s_mm s))) (unat (mm_base (s_mm s)) + unat (mm_len (s_mm s)))
       (segs_at (s_cells s) as)"

definition mm_wf :: "'u mstate \<Rightarrow> bool" where
  "mm_wf s \<longleftrightarrow> wf_at {} s (mm_addrs s)"

lemma wf_at_length: "wf_at E s as \<Longrightarrow> length as \<le> h_next (s_heap s)"
  by (rule distinct_bounded_length) (auto simp: wf_at_def)

lemma wf_at_addrs: "wf_at E s as \<Longrightarrow> mm_addrs s = as"
  using wf_at_length [of E s as] by (simp add: mm_addrs_def wf_at_def walk_dll del: walk.simps)

lemma wf_at_mm_wf: "wf_at {} s as \<Longrightarrow> mm_wf s"
  by (simp add: mm_wf_def wf_at_addrs)

lemma wf_at_segs: "wf_at E s as \<Longrightarrow> mm_segs s = segs_at (s_cells s) as"
  by (simp add: mm_segs_def wf_at_addrs)

lemma wf_at_limit:
  "wf_at E s as \<Longrightarrow> unat (mm_base (s_mm s)) + unat (mm_len (s_mm s)) < 2 ^ 64"
proof -
  assume "wf_at E s as"
  then have "(unat (mm_base (s_mm s)) + unat (mm_len (s_mm s))) * 2 ^ mm_p2pagesize (s_mm s) < 2 ^ 64"
    by (simp add: wf_at_def mm_ok_def)
  then show ?thesis by (rule le_less_trans [rotated]) simp
qed

text \<open>Allocation of a node that is not linked yet.\<close>

lemma malloc_fail:
  "h_oom (s_heap s) (h_next (s_heap s)) \<Longrightarrow>
   malloc_node s = (None, s\<lparr>s_heap := (s_heap s)\<lparr>h_next := Suc (h_next (s_heap s))\<rparr>\<rparr>)"
  by (simp add: malloc_node_def Let_def)

lemma wf_at_bump:
  "wf_at E s as \<Longrightarrow> wf_at E (s\<lparr>s_heap := (s_heap s)\<lparr>h_next := Suc (h_next (s_heap s))\<rparr>\<rparr>) as"
  by (auto simp: wf_at_def less_Suc_eq)

lemma malloc_ok:
  assumes wf: "wf_at E s as" and mem: "\<not> h_oom (s_heap s) (h_next (s_heap s))"
  obtains s' where "malloc_node s = (Some (h_next (s_heap s)), s')"
    "wf_at (insert (h_next (s_heap s)) E) s' as" "segs_at (s_cells s') as = segs_at (s_cells s) as"
    "h_next (s_heap s') = Suc (h_next (s_heap s))" "h_oom (s_heap s') = h_oom (s_heap s)"
    "s_ud s' = s_ud s" "s_mm s' = s_mm s" "h_next (s_heap s) \<notin> set as \<union> E"
proof -
  let ?b = "h_next (s_heap s)"
  have fresh: "?b \<notin> set as" "?b \<notin> E" using wf by (auto simp: wf_at_def)
  show ?thesis
  proof (rule that)
    show "malloc_node s = (Some ?b, s\<lparr>s_heap := (s_heap s)\<lparr>h_next := Suc ?b,
        h_cells := (s_cells s)(?b \<mapsto> blank_node)\<rparr>\<rparr>)"
      using mem by (simp add: malloc_node_def Let_def)
  qed (use wf fresh in \<open>auto simp: wf_at_def dll_upd_out less_Suc_eq\<close>)
qed

section \<open>Where unmapping starts\<close>

lemma segs_at_base: "c a = Some n \<Longrightarrow> segs_at c (a # as) = (unat (n_base n), unat (n_len n), n_info n) # segs_at c as"
  by (simp add: seg_of_def)

lemma walk_back_ok:
  assumes "dll (s_cells s) (mm_nodes (s_mm s)) (xs @ ys)" "length xs < fuel"
  shows "\<exists>us vs. xs = us @ vs \<and>
    unmap_walk_back fuel s addr (last_ptr xs) = Inr (last_ptr us) \<and>
    (us \<noteq> [] \<longrightarrow> (\<exists>n. s_cells s (last us) = Some n \<and> n_base n \<le> addr))"
  using assms
proof (induction xs arbitrary: ys fuel rule: rev_induct)
  case Nil
  then obtain f where "fuel = Suc f" by (cases fuel) auto
  then show ?case by auto
next
  case (snoc x xs)
  then obtain f where f: "fuel = Suc f" "length xs < f" by (cases fuel) auto
  have dll: "dll (s_cells s) (mm_nodes (s_mm s)) (xs @ x # ys)" using snoc.prems by simp
  then obtain n where n: "s_cells s x = Some n" "n_prev n = last_ptr xs" by (rule dll_node)
  show ?case
  proof (cases "n_base n > addr")
    case True
    obtain us vs where "xs = us @ vs" "unmap_walk_back f s addr (last_ptr xs) = Inr (last_ptr us)"
        "us \<noteq> [] \<longrightarrow> (\<exists>n. s_cells s (last us) = Some n \<and> n_base n \<le> addr)"
      using snoc.IH [OF dll f(2)] by blast
    moreover have "unmap_walk_back fuel s addr (last_ptr (xs @ [x])) = unmap_walk_back f s addr (last_ptr xs)"
      using True n f(1) by (simp add: cell_simps)
    ultimately have "xs @ [x] = us @ (vs @ [x]) \<and>
        unmap_walk_back fuel s addr (last_ptr (xs @ [x])) = Inr (last_ptr us) \<and>
        (us \<noteq> [] \<longrightarrow> (\<exists>n. s_cells s (last us) = Some n \<and> n_base n \<le> addr))"
      by simp
    then show ?thesis by blast
  next
    case False
    then have "unmap_walk_back fuel s addr (last_ptr (xs @ [x])) = Inr (last_ptr (xs @ [x]))"
      using n f(1) by (simp add: cell_simps)
    then show ?thesis using False n by - (rule exI [of _ "xs @ [x]"], simp)
  qed
qed

lemma unmap_start_ok:
  assumes wf: "wf_at E s as"
  obtains xs ys where "as = xs @ ys" "unmap_start s addr = Inr (first_ptr ys)"
    "xs = [] \<or> segs_ok (unat (mm_base (s_mm s))) (unat addr) (segs_at (s_cells s) xs)"
proof (cases "mm_cursor (s_mm s)")
  case None
  have "mm_nodes (s_mm s) = first_ptr as" using wf by (auto simp: wf_at_def dest: dll_first)
  then show ?thesis using None that [of "[]" as] by (simp add: unmap_start_def)
next
  case (Some c)
  have dll: "dll (s_cells s) (mm_nodes (s_mm s)) as" using wf by (simp add: wf_at_def)
  have c: "c \<in> set as" using wf Some by (simp add: wf_at_def)
  then obtain ps qs where as: "as = (ps @ [c]) @ qs" by (auto dest: split_list)
  have len: "length (ps @ [c]) < walk_fuel s" using wf_at_length [OF wf] as by simp
  obtain us vs where us: "ps @ [c] = us @ vs"
      "unmap_walk_back (walk_fuel s) s addr (last_ptr (ps @ [c])) = Inr (last_ptr us)"
      "us \<noteq> [] \<longrightarrow> (\<exists>n. s_cells s (last us) = Some n \<and> n_base n \<le> addr)"
    using walk_back_ok [OF dll [unfolded as] len] by blast
  show ?thesis
  proof (cases us rule: rev_cases)
    case Nil
    then show ?thesis
      using us(2) Some that [of "[]" as] dll_first [OF dll] by (simp add: unmap_start_def)
  next
    case (snoc us' u)
    then obtain n where n: "s_cells s u = Some n" "n_base n \<le> addr" using us(3) by auto
    have as': "as = us' @ u # vs @ qs" using as us(1) snoc by simp
    have "segs_ok (unat (mm_base (s_mm s))) (unat (mm_base (s_mm s)) + unat (mm_len (s_mm s)))
        (segs_at (s_cells s) us' @ (unat (n_base n), unat (n_len n), n_info n) # segs_at (s_cells s) (vs @ qs))"
      using wf n(1) unfolding wf_at_def as' by (simp add: seg_of_def)
    then obtain m where "segs_ok (unat (mm_base (s_mm s))) m (segs_at (s_cells s) us')" "m \<le> unat (n_base n)"
      by (auto simp: segs_ok_append)
    then have "segs_ok (unat (mm_base (s_mm s))) (unat addr) (segs_at (s_cells s) us')"
      using n(2) by (auto elim!: segs_ok_upper simp: u64_le_iff)
    then show ?thesis
      using that [of us' "u # vs @ qs"] as' us(2) snoc n Some
      by (simp add: unmap_start_def cell_simps)
  qed
qed

section \<open>Unmapping\<close>

lemma unmap_finish:
  assumes fin: "unmap_done s s' b xs ys ws used segs" and wf: "wf_at (insert b E) s (xs @ ys)"
    and b: "b \<notin> set (xs @ ys)" "b \<notin> E"
    and segs: "segs_ok (unat (mm_base (s_mm s))) (unat (mm_base (s_mm s)) + unat (mm_len (s_mm s)))
        (segs_at (s_cells s) xs @ segs)"
  obtains s3 where "(if \<not> used then free_node s' (Some b) else Inr s') = Inr s3"
    "wf_at E s3 (xs @ ws)" "segs_at (s_cells s3) (xs @ ws) = segs_at (s_cells s) xs @ segs"
    "s_ud s3 = s_ud s'" "mframe s s3 (insert b (set (xs @ ys)))"
proof -
  define s3 where "s3 = (if used then s' else set_cells s' ((s_cells s')(b := None)))"
  have ub: "used \<longleftrightarrow> b \<in> set ws" and wsub: "set ws \<subseteq> insert b (set ys)" and bl: "s_cells s' b \<noteq> None"
    and dll: "dll (s_cells s') (mm_nodes (s_mm s')) (xs @ ws)" and dist: "distinct (xs @ ws)"
    and cur: "cursor_in (mm_cursor (s_mm s')) (xs @ ws)"
    and sg: "segs_at (s_cells s') ws = segs" "segs_at (s_cells s') xs = segs_at (s_cells s) xs"
    and gone: "\<forall>a \<in> set ys. a \<notin> set ws \<longrightarrow> s_cells s' a = None"
    and fr: "mframe s s' (insert b (set (xs @ ys)))"
    using fin by (simp_all add: unmap_done_def)
  have free: "(if \<not> used then free_node s' (Some b) else Inr s') = Inr s3"
    using bl by (auto simp: s3_def cell_simps)
  have c3: "s_cells s3 a = (if a = b \<and> \<not> used then None else s_cells s' a)" for a
    by (simp add: s3_def)
  have notb: "b \<notin> set xs" "\<not> used \<Longrightarrow> b \<notin> set (xs @ ws)" using b(1) ub by auto
  have dll3: "dll (s_cells s3) (mm_nodes (s_mm s3)) (xs @ ws)"
    using dll notb(2) by (auto simp: s3_def dll_upd_out)
  have sg3: "segs_at (s_cells s3) (xs @ ws) = segs_at (s_cells s) xs @ segs"
    using sg notb(2) by (auto simp: s3_def)
  have fr3: "mframe s s3 (insert b (set (xs @ ys)))"
    using fr by (auto simp: s3_def mframe_def)
  have dom0: "dom (s_cells s) = set (xs @ ys) \<union> insert b E" "set (xs @ ys) \<inter> insert b E = {}"
    using wf by (simp_all add: wf_at_def)
  have live: "a \<in> dom (s_cells s3)" if "a \<in> set (xs @ ws)" for a
    using dll_cells [OF dll3 that] by blast
  have out: "a \<in> dom (s_cells s3) \<longleftrightarrow> a \<in> dom (s_cells s)" if "a \<notin> insert b (set (xs @ ys))" for a
    using fr3 that by (auto simp: mframe_def dom_def)
  have b3: "b \<in> dom (s_cells s3) \<longleftrightarrow> used" using bl by (auto simp: c3 dom_def)
  have ys3: "a \<in> dom (s_cells s3) \<longleftrightarrow> a \<in> set ws" if "a \<in> set ys" for a
    using that gone live [of a] by (auto simp: c3 dom_def)
  have dom3: "dom (s_cells s3) = set (xs @ ws) \<union> E"
  proof (rule set_eqI)
    fix a
    consider "a = b" | "a \<in> set xs" | "a \<in> set ys" | "a \<notin> insert b (set (xs @ ys))" by auto
    then show "a \<in> dom (s_cells s3) \<longleftrightarrow> a \<in> set (xs @ ws) \<union> E"
    proof cases
      case 1 then show ?thesis using b3 ub notb(1) b(2) by simp
    next
      case 2 then show ?thesis using live [of a] by simp
    next
      case 3 then show ?thesis using ys3 [of a] dom0(2) live [of a] by auto
    next
      case 4 then show ?thesis using out [of a] dom0(1) wsub by auto
    qed
  qed
  have "wf_at E s3 (xs @ ws)"
    unfolding wf_at_def
  proof (intro conjI)
    show "mm_ok (s_mm s3)" using wf fr3 by (simp add: wf_at_def mframe_def mm_ok_def mm_same_def)
    show "cursor_in (mm_cursor (s_mm s3)) (xs @ ws)" using cur by (simp add: s3_def)
    show "set (xs @ ws) \<inter> E = {}" using dom0(2) wsub b(2) by auto
    show "\<forall>a \<in> set (xs @ ws) \<union> E. a < h_next (s_heap s3)"
      using wf fr3 wsub by (auto simp: wf_at_def mframe_def)
    show "segs_ok (unat (mm_base (s_mm s3))) (unat (mm_base (s_mm s3)) + unat (mm_len (s_mm s3)))
        (segs_at (s_cells s3) (xs @ ws))"
      using segs fr3 by (simp only: sg3) (simp add: mframe_def mm_same_def)
  qed (use dll3 dist dom3 in simp_all)
  then show ?thesis using that free sg3 fr3 by (simp add: s3_def)
qed

text \<open>The arguments of a request that \<open>mm_unmap_cb\<close> accepts, as page numbers.\<close>

definition unmap_req :: "MMAddrSpace \<Rightarrow> u64 \<Rightarrow> u64 \<Rightarrow> bool" where
  "unmap_req mm addr len \<longleftrightarrow>
     2 ^ mm_p2pagesize mm dvd unat addr \<and> len \<noteq> 0 \<and>
     unat len + (2 ^ mm_p2pagesize mm - 1) < 2 ^ 64 \<and>
     unat (mm_base mm) \<le> unat addr div 2 ^ mm_p2pagesize mm \<and>
     unat addr div 2 ^ mm_p2pagesize mm + pages_up (mm_p2pagesize mm) (unat len)
       \<le> unat (mm_base mm) + unat (mm_len mm)"

abbreviation req_page :: "MMAddrSpace \<Rightarrow> u64 \<Rightarrow> nat" where
  "req_page mm addr \<equiv> unat addr div 2 ^ mm_p2pagesize mm"

abbreviation req_pages :: "MMAddrSpace \<Rightarrow> u64 \<Rightarrow> nat" where
  "req_pages mm len \<equiv> pages_up (mm_p2pagesize mm) (unat len)"

lemma unmap_req_checks:
  assumes ok: "mm_ok mm" and req: "unmap_req mm addr len"
  defines "p \<equiv> mm_p2pagesize mm"
  defines "n \<equiv> drop_bit p (ceilp len (2 ^ p))"
  shows "mmpagesize mm = Inr (2 ^ p)" "addr mod 2 ^ p = 0" "mmceil mm len = Inr n"
    "mmvalid mm (mmtrunc mm addr) n" "unat (mmtrunc mm addr) = req_page mm addr"
    "unat n = req_pages mm len" "0 < req_pages mm len"
proof -
  have p: "mm_p2pagesize mm \<le> 30" using ok by (simp add: mm_ok_def)
  show "mmpagesize mm = Inr (2 ^ p)" unfolding p_def using p by (rule mmpagesize_ok)
  show "addr mod 2 ^ p = 0" using req p by (simp add: unmap_req_def p_def u64_mod_pow2_eq_0)
  show "mmceil mm len = Inr n" unfolding n_def p_def using p by (rule mmceil_ok)
  show n: "unat n = req_pages mm len"
    using page_count_nowrap [OF p, of len] req by (simp add: n_def p_def page_count_def unmap_req_def)
  show "unat (mmtrunc mm addr) = req_page mm addr" by (simp only: mmtrunc_def unat_drop_bit)
  show "mmvalid mm (mmtrunc mm addr) n"
    using mmvalid_iff [OF ok, of addr "ceilp len (2 ^ p)"] req n
    by (simp add: unmap_req_def mmtrunc_def n_def p_def)
  show "0 < req_pages mm len" using req by (simp add: unmap_req_def pages_up_pos unat_gt_0)
qed

lemma unmap_cb_ok:
  assumes wf: "wf_at E s as" and req: "unmap_req (s_mm s) addr len"
    and mem: "\<not> h_oom (s_heap s) (h_next (s_heap s))"
    and ufn: "run_ufn ufn (mm_p2pagesize (s_mm s))
      (hits (req_page (s_mm s) addr) (req_pages (s_mm s) len) (segs_at (s_cells s) as)) (s_ud s) = Inr u"
  obtains s' as' where "mm_unmap_cb s addr len ufn = Inr (0, s')" "wf_at E s' as'"
    "segs_at (s_cells s') as' = unm (req_page (s_mm s) addr) (req_pages (s_mm s) len) (segs_at (s_cells s) as)"
    "s_ud s' = u" "h_next (s_heap s') = Suc (h_next (s_heap s))" "h_oom (s_heap s') = h_oom (s_heap s)"
    "mm_same (s_mm s) (s_mm s')"
proof -
  let ?p = "mm_p2pagesize (s_mm s)" and ?b = "h_next (s_heap s)"
  let ?A = "req_page (s_mm s) addr" and ?N = "req_pages (s_mm s) len"
  let ?lo = "unat (mm_base (s_mm s))" and ?hi = "unat (mm_base (s_mm s)) + unat (mm_len (s_mm s))"
  define a n where "a = mmtrunc (s_mm s) addr" and "n = drop_bit ?p (ceilp len (2 ^ ?p))"
  have ok: "mm_ok (s_mm s)" using wf by (simp add: wf_at_def)
  note ck = unmap_req_checks [OF ok req, folded n_def a_def]
  obtain s1 where s1: "malloc_node s = (Some ?b, s1)" "wf_at (insert ?b E) s1 as"
      "segs_at (s_cells s1) as = segs_at (s_cells s) as" "h_next (s_heap s1) = Suc ?b"
      "h_oom (s_heap s1) = h_oom (s_heap s)" "s_ud s1 = s_ud s" "s_mm s1 = s_mm s" "?b \<notin> set as \<union> E"
    using wf mem by (rule malloc_ok)
  obtain xs ys where xy: "as = xs @ ys" "unmap_start s1 a = Inr (first_ptr ys)"
      "xs = [] \<or> segs_ok ?lo (unat a) (segs_at (s_cells s1) xs)"
    using unmap_start_ok [OF s1(2)] s1(7) by metis
  let ?X = "segs_at (s_cells s1) xs" and ?Y = "segs_at (s_cells s1) ys"
  have all: "segs_ok ?lo ?hi (?X @ ?Y)" using s1(2,7) xy(1) by (simp add: wf_at_def)
  obtain m where m: "segs_ok ?lo m ?X" "segs_ok m ?hi ?Y" using all by (auto simp: segs_ok_append)
  have lim: "?hi < 2 ^ 64" using wf by (rule wf_at_limit)
  have AN: "?A + ?N \<le> ?hi" using req by (simp add: unmap_req_def)
  have split: "unm ?A ?N (?X @ ?Y) = ?X @ unm ?A ?N ?Y \<and> hits ?A ?N (?X @ ?Y) = hits ?A ?N ?Y"
  proof (cases "xs = []")
    case False
    then have X: "segs_ok ?lo ?A ?X" using xy(3) ck(5) by simp
    show ?thesis
    proof (cases "m \<le> ?A")
      case True
      then show ?thesis using m unm_append_before hits_append_before [OF m(1) True ck(7)] by blast
    next
      case False
      then have "segs_ok ?A ?hi ?Y" using segs_ok_lower [OF m(2)] by simp
      then show ?thesis using X unm_append_before hits_append_before [OF X order_refl ck(7)] by blast
    qed
  qed simp
  have ready: "unmap_ready ufn a n ?b (mm_cursor (s_mm s1)) s1 xs ys m ?hi u"
    using s1 xy(1) m(2) lim AN ufn split ck(5,6)
    by (auto simp: unmap_ready_def wf_at_def cursor_tracked_def)
  have "length ys < walk_fuel s1" using wf_at_length [OF s1(2)] xy(1) by simp
  then obtain s2 ws used where s2:
      "mm_unmap_loop (walk_fuel s1) ufn a n (Some ?b) (mm_cursor (s_mm s1)) (first_ptr ys) False s1 = Inr (used, s2)"
      "s_ud s2 = u" "unmap_done s1 s2 ?b xs ys ws used (unm (unat a) (unat n) ?Y)"
    using unmap_loop_ok [OF ready] unfolding unmap_goal_def by blast
  have sok: "segs_ok ?lo ?hi (?X @ unm ?A ?N ?Y)" using unm_ok [OF all] split by metis
  obtain s3 where s3: "(if \<not> used then free_node s2 (Some ?b) else Inr s2) = Inr s3" "wf_at E s3 (xs @ ws)"
      "segs_at (s_cells s3) (xs @ ws) = ?X @ unm (unat a) (unat n) ?Y" "s_ud s3 = s_ud s2"
      "mframe s1 s3 (insert ?b (set (xs @ ys)))"
    using s1 xy(1) sok ck(5,6) by (auto intro: unmap_finish [OF s2(3), of E])
  show ?thesis
  proof (rule that)
    show "mm_unmap_cb s addr len ufn = Inr (0, s3)"
      using ck(1-4) req s1(1) xy(2) s2(1) s3(1)
      by (simp add: mm_unmap_cb_def Let_def a_def [symmetric] unmap_req_def del: mm_unmap_loop.simps)
    show "segs_at (s_cells s3) (xs @ ws) = unm ?A ?N (segs_at (s_cells s) as)"
      using s3(3) split ck(5,6) s1(3) xy(1) by simp
  qed (use s3 s2 s1 in \<open>auto simp: mframe_def\<close>)
qed

end
