(* ===== verification/Mmap_Map.thy ===== *)
theory Mmap_Map
  imports Mmap_Correct
begin

text \<open>
  Correctness of the two mapping operations of \<open>mmap.c\<close>: \<open>mm_mapat_cb\<close> replaces whatever was
  mapped in its range, \<open>mm_mapany\<close> finds a gap and maps there.
\<close>

section \<open>Inserting into a list of regions\<close>

fun ins_seg :: "seg \<Rightarrow> seg list \<Rightarrow> seg list" where
  "ins_seg x [] = [x]"
| "ins_seg x (y # ys) = (if fst x \<le> fst y then x # y # ys else y # ins_seg x ys)"

lemma ins_seg_between:
  "segs_ok lo hi (xs @ (a, n, i) # ys) \<Longrightarrow> ins_seg (a, n, i) (xs @ ys) = xs @ (a, n, i) # ys"
proof (induction xs arbitrary: lo)
  case Nil
  show ?case
  proof (cases ys)
    case (Cons y ys')
    then show ?thesis using Nil by (cases y) auto
  qed simp
next
  case (Cons x xs)
  obtain b l j where x: "x = (b, l, j)" by (cases x)
  have l: "0 < l" and ok: "segs_ok (b + l) hi (xs @ (a, n, i) # ys)" using Cons.prems by (simp_all add: x)
  then obtain m where "segs_ok (b + l) m xs" "m \<le> a" by (auto simp: segs_ok_append)
  then have "b < a" using l segs_ok_le [of "b + l" m xs] by simp
  then show ?case using Cons.IH [OF ok] by (simp add: x)
qed

lemma pages_of_ins_seg:
  assumes "segs_ok lo hi (xs @ (a, n, i) # ys)"
  shows "pages_of (ins_seg (a, n, i) (xs @ ys)) q =
    (if a \<le> q \<and> q < a + n then Some i else pages_of (xs @ ys) q)"
proof -
  obtain m where m: "segs_ok lo m xs" "m \<le> a" using assms by (auto simp: segs_ok_append)
  have "pages_of xs q = None" if "a \<le> q"
    using m that by (auto intro: pages_of_above)
  then show ?thesis
    unfolding ins_seg_between [OF assms] by (auto simp: pages_of_append split: option.splits)
qed

text \<open>No region meets the range.\<close>

definition range_free :: "nat \<Rightarrow> nat \<Rightarrow> seg list \<Rightarrow> bool" where
  "range_free a n xs \<longleftrightarrow> (\<forall>(b, l, i) \<in> set xs. b + l \<le> a \<or> a + n \<le> b)"

lemma range_free_simps [simp]:
  "range_free a n []"
  "range_free a n ((b, l, i) # xs) \<longleftrightarrow> (b + l \<le> a \<or> a + n \<le> b) \<and> range_free a n xs"
  "range_free a n (xs @ ys) \<longleftrightarrow> range_free a n xs \<and> range_free a n ys"
  by (simp_all add: range_free_def ball_Un)

lemma range_free_above: "segs_ok m hi xs \<Longrightarrow> a + n \<le> m \<Longrightarrow> range_free a n xs"
proof (induction xs arbitrary: m)
  case (Cons x xs)
  obtain b l i where x: "x = (b, l, i)" by (cases x)
  have "segs_ok (b + l) hi xs" "a + n \<le> b + l" using Cons.prems by (simp_all add: x)
  then show ?case using Cons.IH Cons.prems by (simp add: x)
qed simp

lemma range_free_below: "segs_ok m hi xs \<Longrightarrow> hi \<le> a \<Longrightarrow> range_free a n xs"
proof (induction xs arbitrary: m)
  case (Cons x xs)
  obtain b l i where x: "x = (b, l, i)" by (cases x)
  have "segs_ok (b + l) hi xs" using Cons.prems by (simp add: x)
  then show ?case using Cons.IH Cons.prems segs_ok_le by (simp add: x) (meson le_trans)
qed simp

lemma unm_range_free: "segs_ok lo hi xs \<Longrightarrow> 0 < n \<Longrightarrow> range_free a n (unm a n xs)"
proof (induction xs arbitrary: lo)
  case (Cons x xs)
  obtain b l i where x: "x = (b, l, i)" by (cases x)
  have xs: "segs_ok (b + l) hi xs" using Cons.prems by (simp add: x)
  have "range_free a n xs" if "a + n \<le> b + l" using xs that by (rule range_free_above)
  moreover have "range_free a n (unm a n xs)" using Cons.IH [OF xs Cons.prems(2)] .
  ultimately show ?case using Cons.prems by (auto simp: x)
qed simp

lemma range_free_pages:
  "range_free a n xs \<Longrightarrow> a \<le> q \<Longrightarrow> q < a + n \<Longrightarrow> pages_of xs q = None"
proof (induction xs)
  case (Cons x xs)
  then show ?case by (cases x) auto
qed simp

lemma segs_ok_raise:
  "segs_ok m hi xs \<Longrightarrow> m' \<le> (case xs of [] \<Rightarrow> hi | (b, l, i) # _ \<Rightarrow> b) \<Longrightarrow> segs_ok m' hi xs"
  by (auto split: list.splits)

section \<open>Linking a fresh node\<close>

lemma wf_at_fill:
  assumes wf: "wf_at (insert b E) s as" and b: "b \<notin> E"
  obtains s' where "upd_cell s (Some b) (\<lambda>_. nd) = Inr s'" "wf_at (insert b E) s' as"
    "s_cells s' b = Some nd" "segs_at (s_cells s') as = segs_at (s_cells s) as" "s_mm s' = s_mm s"
    "s_ud s' = s_ud s" "h_next (s_heap s') = h_next (s_heap s)" "h_oom (s_heap s') = h_oom (s_heap s)"
proof -
  have "b \<in> dom (s_cells s)" and out: "b \<notin> set as" using wf by (auto simp: wf_at_def)
  then obtain n where n: "s_cells s b = Some n" by auto
  show ?thesis
    by (rule that [OF cell_access(2) [OF n]]) (use wf out in \<open>auto simp: wf_at_def dll_upd_out\<close>)
qed

lemma wf_at_link:
  assumes wf: "wf_at (insert b E) s (xs @ ys)" and b: "b \<notin> E" "s_cells s b = Some (new_node a n i)"
    and lk: "links_only s s' (insert b (set (xs @ ys)))"
    and dll: "dll (s_cells s') (mm_nodes (s_mm s')) (xs @ b # ys)"
    and ok: "segs_ok (unat (mm_base (s_mm s))) (unat (mm_base (s_mm s)) + unat (mm_len (s_mm s)))
        (segs_at (s_cells s) xs @ (unat a, unat n, i) # segs_at (s_cells s) ys)"
  shows "wf_at E s' (xs @ b # ys)"
    "segs_at (s_cells s') (xs @ b # ys) = ins_seg (unat a, unat n, i) (segs_at (s_cells s) (xs @ ys))"
proof -
  have data: "data_at (s_cells s') q = data_at (s_cells s) q" for q using lk by (simp add: links_only_def)
  have segs: "segs_at (s_cells s') qs = segs_at (s_cells s) qs" for qs
    using data by (intro segs_at_data)
  have seg_b: "seg_of (the (s_cells s b)) = (unat a, unat n, i)" using b(2) by simp
  have dom: "dom (s_cells s') = dom (s_cells s)"
    using data by (auto simp: dom_def) (metis option.map_disc_iff not_None_eq)+
  have bx: "b \<notin> set (xs @ ys)" using wf by (auto simp: wf_at_def)
  show "segs_at (s_cells s') (xs @ b # ys) = ins_seg (unat a, unat n, i) (segs_at (s_cells s) (xs @ ys))"
    unfolding segs using ins_seg_between [OF ok] seg_b by simp
  show "wf_at E s' (xs @ b # ys)"
    unfolding wf_at_def
  proof (intro conjI)
    show "mm_ok (s_mm s')" using wf lk by (simp add: wf_at_def links_only_def mm_ok_def mm_same_def)
    show "cursor_in (mm_cursor (s_mm s')) (xs @ b # ys)"
      using wf lk by (cases "mm_cursor (s_mm s)") (auto simp: wf_at_def links_only_def)
    show "segs_ok (unat (mm_base (s_mm s'))) (unat (mm_base (s_mm s')) + unat (mm_len (s_mm s')))
        (segs_at (s_cells s') (xs @ b # ys))"
      unfolding segs using ok lk seg_b by (simp add: links_only_def mm_same_def)
  qed (use wf b bx lk dom dll in \<open>auto simp: wf_at_def links_only_def\<close>)
qed

section \<open>Mapping at an address\<close>

text \<open>The search for the predecessor of a free range that does not begin the list.\<close>

lemma mapat_find_ok:
  assumes "dll (s_cells s) (mm_nodes (s_mm s)) (xs @ a # ys)"
    "segs_ok lo hi (segs_at (s_cells s) (a # ys))"
    "range_free (unat addr) (unat len) (segs_at (s_cells s) (a # ys))"
    "s_cells s a = Some na" "\<not> addr + len \<le> n_base na" "0 < unat len"
    "unat addr + unat len \<le> hi" "hi = unat (mm_base (s_mm s)) + unat (mm_len (s_mm s))" "hi < 2 ^ 64"
    "length ys < fuel"
  shows "\<exists>us b vs. a # ys = us @ b # vs \<and> mapat_find fuel s addr len (Some a) = Inr (Some b) \<and>
    segs_ok lo hi (segs_at (s_cells s) (us @ [b]) @ (unat addr, unat len, i) # segs_at (s_cells s) vs)"
  using assms
proof (induction ys arbitrary: xs a lo fuel na)
  case Nil
  then obtain f where f: "fuel = Suc f" by (cases fuel) auto
  note nb = node_bounds [OF Nil.prems(2,4,9)]
  have nx: "n_next na = None" using Nil.prems(1,4) by (auto elim: dll_node)
  have nw: "unat (addr + len) = unat addr + unat len"
    "unat (mm_base (s_mm s) + mm_len (s_mm s)) = hi"
    using Nil.prems(7,8,9) by (auto simp: unat_add_nowrap)
  have fr: "unat (n_base na) + unat (n_len na) \<le> unat addr"
    using Nil.prems(3-6) nw(1) nb by (auto simp: seg_of_def u64_le_iff)
  have "mapat_find fuel s addr len (Some a) = Inr (Some a)"
    using f nx fr nw nb(5) Nil.prems(4,7) by (simp add: cell_simps u64_le_iff)
  then show ?case
    using fr nb Nil.prems(4,6,7)
    by (intro exI [of _ "[]"] exI [of _ a]) (auto simp: seg_of_def)
next
  case (Cons y ys)
  then obtain f where f: "fuel = Suc f" "length ys < f" by (cases fuel) auto
  note nb = node_bounds [OF Cons.prems(2,4,9)]
  have dll: "dll (s_cells s) (mm_nodes (s_mm s)) ((xs @ [a]) @ y # ys)" using Cons.prems(1) by simp
  then obtain ny where ny: "s_cells s y = Some ny" by (rule dll_node)
  have nx: "n_next na = Some y" using Cons.prems(1,4) by (auto elim: dll_node)
  have nw: "unat (addr + len) = unat addr + unat len" using Cons.prems(7,9) by (simp add: unat_add_nowrap)
  have fr: "unat (n_base na) + unat (n_len na) \<le> unat addr"
    using Cons.prems(3-6) nw nb by (auto simp: seg_of_def u64_le_iff)
  have fy: "range_free (unat addr) (unat len) (segs_at (s_cells s) (y # ys))"
    using Cons.prems(3) by (simp add: seg_of_def)
  show ?case
  proof (cases "addr + len \<le> n_base ny")
    case True
    have "mapat_find fuel s addr len (Some a) = Inr (Some a)"
      using f nx fr nb(5) ny True Cons.prems(4) by (simp add: cell_simps u64_le_iff)
    moreover have "segs_ok (unat addr + unat len) hi (segs_at (s_cells s) (y # ys))"
    proof (rule segs_ok_raise [OF nb(4)])
      have "unat addr + unat len \<le> unat (n_base ny)" using True nw by (simp add: u64_le_iff)
      then show "unat addr + unat len \<le>
          (case segs_at (s_cells s) (y # ys) of [] \<Rightarrow> hi | (b, l, i) # _ \<Rightarrow> b)"
        using ny by (simp add: seg_of_def)
    qed
    ultimately show ?thesis
      using fr nb Cons.prems(4,6)
      by (intro exI [of _ "[]"] exI [of _ a] exI [of _ "y # ys"]) (auto simp: seg_of_def)
  next
    case False
    have step: "mapat_find fuel s addr len (Some a) = mapat_find f s addr len (Some y)"
      using f nx ny False Cons.prems(4) by (simp add: cell_simps)
    obtain us b vs where R: "y # ys = us @ b # vs" "mapat_find f s addr len (Some y) = Inr (Some b)"
        "segs_ok (unat (n_base na) + unat (n_len na)) hi
          (segs_at (s_cells s) (us @ [b]) @ (unat addr, unat len, i) # segs_at (s_cells s) vs)"
      using Cons.IH [OF dll nb(4) fy ny False Cons.prems(6-9) f(2)] by blast
    have "a # y # ys = (a # us) @ b # vs" using R(1) by simp
    moreover have "segs_ok lo hi
        (segs_at (s_cells s) ((a # us) @ [b]) @ (unat addr, unat len, i) # segs_at (s_cells s) vs)"
      using R(3) nb(1,2) Cons.prems(4) by (simp add: seg_of_def)
    ultimately show ?thesis using step R(2) by metis
  qed
qed

lemma page_headroom: "p \<le> 64 \<Longrightarrow> n * 2 ^ p < 2 ^ 64 \<Longrightarrow> n * 2 ^ p + 2 ^ p \<le> (2 :: nat) ^ 64"
proof -
  assume p: "p \<le> 64" and lt: "n * 2 ^ p < (2 :: nat) ^ 64"
  have eq: "(2 :: nat) ^ 64 = 2 ^ (64 - p) * 2 ^ p" using p by (simp flip: power_add)
  then have "n < 2 ^ (64 - p)" using lt by (metis mult_less_cancel2)
  then have "(n + 1) * 2 ^ p \<le> 2 ^ (64 - p) * 2 ^ p" by (intro mult_le_mono1) simp
  then show ?thesis using eq by (simp add: algebra_simps)
qed

text \<open>A request that \<open>mm_mapat_cb\<close> accepts is one that \<open>mm_unmap_cb\<close> accepts.\<close>

lemma repage_req:
  assumes ok: "mm_ok mm" and req: "unmap_req mm addr len"
  defines "n \<equiv> drop_bit (mm_p2pagesize mm) (ceilp len (2 ^ mm_p2pagesize mm))"
  shows "push_bit (mm_p2pagesize mm) (mmtrunc mm addr) = addr"
    "unmap_req mm addr (push_bit (mm_p2pagesize mm) n)"
    "req_pages mm (push_bit (mm_p2pagesize mm) n) = req_pages mm len"
proof -
  let ?p = "mm_p2pagesize mm" and ?hi = "unat (mm_base mm) + unat (mm_len mm)"
  note ck = unmap_req_checks [OF ok req, folded n_def]
  have A: "req_page mm addr + req_pages mm len \<le> ?hi" using req by (simp add: unmap_req_def)
  have ua: "unat (push_bit ?p (mmtrunc mm addr)) = req_page mm addr * 2 ^ ?p"
    using unat_push_page [OF ok, of "mmtrunc mm addr"] A ck(5) by simp
  show "push_bit ?p (mmtrunc mm addr) = addr"
    using ua req by (simp add: u64_eq_iff unmap_req_def)
  have un: "unat (push_bit ?p n) = req_pages mm len * 2 ^ ?p"
    using unat_push_page [OF ok, of n] A ck(6) by simp
  show pages: "req_pages mm (push_bit ?p n) = req_pages mm len"
    by (simp only: un pages_up_mult)
  have lim: "?hi * 2 ^ ?p + 2 ^ ?p \<le> 2 ^ 64" using ok by (intro page_headroom) (simp_all add: mm_ok_def)
  have "req_pages mm len * 2 ^ ?p \<le> ?hi * 2 ^ ?p" using A by (intro mult_le_mono1) simp
  moreover have "0 < (2 :: nat) ^ ?p" by simp
  ultimately have "unat (push_bit ?p n) + (2 ^ ?p - 1) < 2 ^ 64"
    using lim un by linarith
  moreover have "push_bit ?p n \<noteq> 0"
  proof
    assume "push_bit ?p n = 0"
    then have "req_pages mm len * 2 ^ ?p = 0" using un by simp
    then show False using ck(7) by simp
  qed
  ultimately show "unmap_req mm addr (push_bit ?p n)"
    using req pages by (simp add: unmap_req_def)
qed

text \<open>The effect of linking the node for region x into the list of addresses as.\<close>

definition linked :: "nat \<Rightarrow> nat set \<Rightarrow> 'u mstate \<Rightarrow> nat list \<Rightarrow> seg \<Rightarrow> 'u mstate \<Rightarrow> bool" where
  "linked b E s as x s' \<longleftrightarrow>
     (\<exists>as'. wf_at E s' as' \<and> b \<in> set as' \<and> segs_at (s_cells s') as' = ins_seg x (segs_at (s_cells s) as)) \<and>
     s_ud s' = s_ud s \<and> mm_same (s_mm s) (s_mm s') \<and>
     h_next (s_heap s') = h_next (s_heap s) \<and> h_oom (s_heap s') = h_oom (s_heap s)"

lemma linkedI:
  assumes "wf_at (insert b E) s (xs @ ys)" "b \<notin> E" "s_cells s b = Some (new_node a n i)"
    "links_only s s' (insert b (set (xs @ ys)))" "dll (s_cells s') (mm_nodes (s_mm s')) (xs @ b # ys)"
    "segs_ok (unat (mm_base (s_mm s))) (unat (mm_base (s_mm s)) + unat (mm_len (s_mm s)))
        (segs_at (s_cells s) xs @ (unat a, unat n, i) # segs_at (s_cells s) ys)"
  shows "linked b E s (xs @ ys) (unat a, unat n, i) s'"
  using wf_at_link [OF assms] assms(4) unfolding linked_def links_only_def
  by (auto intro!: exI [of _ "xs @ b # ys"])

text \<open>The node from which \<open>mapat_link\<close> looks for the insertion point.\<close>

lemma mapat_select:
  assumes wf: "wf_at E s as" and ne: "as \<noteq> []"
  obtains xs c ys nc where "as = xs @ c # ys" "s_cells s c = Some nc" "xs = [] \<or> n_base nc \<le> addr"
    "(case mm_cursor (s_mm s) of None \<Rightarrow> Inr (mm_nodes (s_mm s))
        | Some c \<Rightarrow> rbind (get_cell s (Some c)) (\<lambda>cd.
            Inr (if n_base cd \<le> addr then Some c else mm_nodes (s_mm s)))) = Inr (Some c)"
proof -
  have dll: "dll (s_cells s) (mm_nodes (s_mm s)) as" using wf by (simp add: wf_at_def)
  obtain a0 as0 where as: "as = a0 # as0" using ne by (cases as) auto
  obtain n0 where n0: "s_cells s a0 = Some n0" using dll_cells [OF dll] as by auto
  have head: "mm_nodes (s_mm s) = Some a0" using dll_first [OF dll] as by simp
  show thesis
  proof (cases "mm_cursor (s_mm s)")
    case None
    then show thesis using that [of "[]" a0 as0 n0] as n0 head by simp
  next
    case (Some c)
    then have "c \<in> set as" using wf by (simp add: wf_at_def)
    then obtain xs ys where xy: "as = xs @ c # ys" by (auto dest: split_list)
    obtain nc where nc: "s_cells s c = Some nc" using dll xy by (auto elim: dll_node)
    show thesis
    proof (cases "n_base nc \<le> addr")
      case True
      then show thesis using that [OF xy nc] Some nc by (simp add: cell_simps)
    next
      case False
      then show thesis using that [of "[]" a0 as0 n0] as Some nc n0 head by (simp add: cell_simps)
    qed
  qed
qed

lemma mapat_link_before:
  assumes wf: "wf_at (insert b E) s as" and b: "b \<notin> E" "s_cells s b = Some (new_node addr len i)"
    and as: "as = c # ys" "s_cells s c = Some nc" and len: "0 < unat len"
    and lo: "unat (mm_base (s_mm s)) \<le> unat addr" and below: "unat addr + unat len \<le> unat (n_base nc)"
  obtains s' where "node_insert_before s (Some c) (Some b) = Inr s'"
    "linked b E s as (unat addr, unat len, i) s'"
proof -
  let ?lo = "unat (mm_base (s_mm s))" and ?hi = "unat (mm_base (s_mm s)) + unat (mm_len (s_mm s))"
  have dll: "dll (s_cells s) (mm_nodes (s_mm s)) ([] @ c # ys)" and dist: "distinct ([] @ c # ys)"
    and bn: "b \<notin> set ([] @ c # ys)" and sok: "segs_ok ?lo ?hi (segs_at (s_cells s) (c # ys))"
    using wf as(1) by (auto simp: wf_at_def)
  obtain s' where s': "node_insert_before s (Some c) (Some b) = Inr s'"
      "links_only s s' (insert b (set ([] @ c # ys)))" "dll (s_cells s') (mm_nodes (s_mm s')) ([] @ b # c # ys)"
    using dll dist bn b(2) by (rule node_insert_before_ok)
  have "segs_ok (unat addr + unat len) ?hi (segs_at (s_cells s) (c # ys))"
    by (rule segs_ok_raise [OF sok]) (use as(2) below in \<open>simp add: seg_of_def\<close>)
  then have "linked b E s ([] @ c # ys) (unat addr, unat len, i) s'"
    using wf as(1) b s'(2,3) lo len by (intro linkedI) auto
  then show thesis using that [OF s'(1)] as(1) by simp
qed

lemma mapat_link_after:
  assumes wf: "wf_at (insert b E) s as" and b: "b \<notin> E" "s_cells s b = Some (new_node addr len i)"
    and as: "as = xs @ c # ys" "s_cells s c = Some nc"
    and fr: "range_free (unat addr) (unat len) (segs_at (s_cells s) as)" and len: "0 < unat len"
    and above: "\<not> addr + len \<le> n_base nc"
    and hi: "unat addr + unat len \<le> unat (mm_base (s_mm s)) + unat (mm_len (s_mm s))"
  obtains s' d where "mapat_find (walk_fuel s) s addr len (Some c) = Inr (Some d)"
    "node_insert_after s (Some d) (Some b) = Inr s'" "linked b E s as (unat addr, unat len, i) s'"
proof -
  let ?lo = "unat (mm_base (s_mm s))" and ?hi = "unat (mm_base (s_mm s)) + unat (mm_len (s_mm s))"
  have dll: "dll (s_cells s) (mm_nodes (s_mm s)) (xs @ c # ys)"
    and sok: "segs_ok ?lo ?hi (segs_at (s_cells s) (xs @ c # ys))"
    using wf as(1) by (auto simp only: wf_at_def)
  obtain m where m: "segs_ok ?lo m (segs_at (s_cells s) xs)" "segs_ok m ?hi (segs_at (s_cells s) (c # ys))"
    using sok by (auto simp only: segs_at_simps segs_ok_append)
  have frc: "range_free (unat addr) (unat len) (segs_at (s_cells s) (c # ys))"
    using fr as(1) by (simp only: segs_at_simps range_free_simps)
  have "length ys < walk_fuel s" using wf_at_length [OF wf] as(1) by simp
  then obtain us d vs where R: "c # ys = us @ d # vs"
      "mapat_find (walk_fuel s) s addr len (Some c) = Inr (Some d)"
      "segs_ok m ?hi (segs_at (s_cells s) (us @ [d]) @ (unat addr, unat len, i) # segs_at (s_cells s) vs)"
    using mapat_find_ok [OF dll m(2) frc as(2) above len hi refl wf_at_limit [OF wf]] by metis
  have as': "as = (xs @ us) @ d # vs" using as(1) R(1) by simp
  obtain s' where s': "node_insert_after s (Some d) (Some b) = Inr s'"
      "links_only s s' (insert b (set ((xs @ us) @ d # vs)))"
      "dll (s_cells s') (mm_nodes (s_mm s')) ((xs @ us) @ d # b # vs)"
    by (rule node_insert_after_ok [of s "xs @ us" d vs b]) (use wf b(2) as' in \<open>auto simp: wf_at_def\<close>)
  have "segs_ok ?lo ?hi
      (segs_at (s_cells s) (xs @ us @ [d]) @ (unat addr, unat len, i) # segs_at (s_cells s) vs)"
    using m(1) R(3) by (auto simp: segs_ok_append)
  then have "linked b E s ((xs @ us @ [d]) @ vs) (unat addr, unat len, i) s'"
    using wf as' b s'(2,3) by (intro linkedI) auto
  then show thesis using that [OF R(2) s'(1)] as' by simp
qed

lemma mapat_link_ok:
  assumes wf: "wf_at (insert b E) s as" and b: "b \<notin> E" "s_cells s b = Some (new_node addr len i)"
    and fr: "range_free (unat addr) (unat len) (segs_at (s_cells s) as)" and len: "0 < unat len"
    and lo: "unat (mm_base (s_mm s)) \<le> unat addr"
    and hi: "unat addr + unat len \<le> unat (mm_base (s_mm s)) + unat (mm_len (s_mm s))"
  obtains s' where "mapat_link s addr len (Some b) = Inr s'" "linked b E s as (unat addr, unat len, i) s'"
proof (cases "as = []")
  case True
  have "mm_cursor (s_mm s) = None" "mm_nodes (s_mm s) = None"
    using wf True by (cases "mm_cursor (s_mm s)", auto simp: wf_at_def)
  moreover have "linked b E s ([] @ []) (unat addr, unat len, i) (set_nodes s (Some b))"
    using wf True b lo hi len
    by (intro linkedI) (auto simp: links_only_def dll_def new_node_def)
  ultimately show thesis using that True by (simp add: mapat_link_def)
next
  case False
  have nw: "unat (addr + len) = unat addr + unat len"
    using hi wf_at_limit [OF wf] by (simp add: unat_add_nowrap)
  obtain xs c ys nc where sel: "as = xs @ c # ys" "s_cells s c = Some nc" "xs = [] \<or> n_base nc \<le> addr"
      "(case mm_cursor (s_mm s) of None \<Rightarrow> Inr (mm_nodes (s_mm s))
        | Some c \<Rightarrow> rbind (get_cell s (Some c)) (\<lambda>cd.
            Inr (if n_base cd \<le> addr then Some c else mm_nodes (s_mm s)))) = Inr (Some c)"
    using wf False by (rule mapat_select)
  show thesis
  proof (cases "addr + len \<le> n_base nc")
    case True
    then have le: "unat addr + unat len \<le> unat (n_base nc)" by (simp only: u64_le_iff nw)
    then have xs: "as = c # ys" using sel(1,3) len by (auto simp: u64_le_iff)
    obtain s' where "node_insert_before s (Some c) (Some b) = Inr s'" "linked b E s as (unat addr, unat len, i) s'"
      using wf b xs sel(2) len lo le by (rule mapat_link_before)
    then show thesis using that sel True by (simp add: mapat_link_def cell_simps)
  next
    case above: False
    obtain s' d where "mapat_find (walk_fuel s) s addr len (Some c) = Inr (Some d)"
        "node_insert_after s (Some d) (Some b) = Inr s'" "linked b E s as (unat addr, unat len, i) s'"
      using wf b sel(1,2) fr len above hi by (rule mapat_link_after)
    then show thesis using that sel(2,4) above
      by (simp add: mapat_link_def cell_simps del: mapat_find.simps)
  qed
qed

lemma mapat_cb_ok:
  assumes wf: "wf_at {} s as" and req: "unmap_req (s_mm s) addr len"
    and mem: "\<not> h_oom (s_heap s) (h_next (s_heap s))" "\<not> h_oom (s_heap s) (Suc (h_next (s_heap s)))"
    and ufn: "run_ufn ufn (mm_p2pagesize (s_mm s))
      (hits (req_page (s_mm s) addr) (req_pages (s_mm s) len) (segs_at (s_cells s) as)) (s_ud s) = Inr u"
  obtains s' as' where "mm_mapat_cb s addr len prot flags fd offset ufn = Inr (addr, s')" "wf_at {} s' as'"
    "segs_at (s_cells s') as' =
      ins_seg (req_page (s_mm s) addr, req_pages (s_mm s) len, new_info prot flags fd offset)
        (unm (req_page (s_mm s) addr) (req_pages (s_mm s) len) (segs_at (s_cells s) as))"
    "s_ud s' = u" "mm_same (s_mm s) (s_mm s')" "h_oom (s_heap s') = h_oom (s_heap s)"
proof -
  let ?p = "mm_p2pagesize (s_mm s)" and ?b = "h_next (s_heap s)" and ?i = "new_info prot flags fd offset"
  let ?A = "req_page (s_mm s) addr" and ?N = "req_pages (s_mm s) len"
  define a n where "a = mmtrunc (s_mm s) addr" and "n = drop_bit ?p (ceilp len (2 ^ ?p))"
  have ok: "mm_ok (s_mm s)" using wf by (simp add: wf_at_def)
  note ck = unmap_req_checks [OF ok req, folded n_def a_def]
  note rp = repage_req [OF ok req, folded n_def a_def]
  obtain s1 where s1: "malloc_node s = (Some ?b, s1)" "wf_at {?b} s1 as"
      "segs_at (s_cells s1) as = segs_at (s_cells s) as" "h_next (s_heap s1) = Suc ?b"
      "h_oom (s_heap s1) = h_oom (s_heap s)" "s_ud s1 = s_ud s" "s_mm s1 = s_mm s"
    using malloc_ok [OF wf mem(1)] by metis
  obtain s2 as2 where s2: "mm_unmap_cb s1 addr (push_bit ?p n) ufn = Inr (0, s2)" "wf_at {?b} s2 as2"
      "segs_at (s_cells s2) as2 = unm ?A ?N (segs_at (s_cells s) as)" "s_ud s2 = u"
      "h_oom (s_heap s2) = h_oom (s_heap s)" "mm_same (s_mm s) (s_mm s2)"
    using unmap_cb_ok [OF s1(2), of addr "push_bit ?p n" ufn u] s1 rp mem(2) ufn by metis
  obtain s3 where s3: "upd_cell s2 (Some ?b) (\<lambda>_. new_node a n ?i) = Inr s3" "wf_at {?b} s3 as2"
      "s_cells s3 ?b = Some (new_node a n ?i)" "segs_at (s_cells s3) as2 = segs_at (s_cells s2) as2"
      "s_mm s3 = s_mm s2" "s_ud s3 = s_ud s2" "h_oom (s_heap s3) = h_oom (s_heap s2)"
    by (rule wf_at_fill [OF s2(2)]) auto
  have sok: "segs_ok (unat (mm_base (s_mm s))) (unat (mm_base (s_mm s)) + unat (mm_len (s_mm s)))
      (segs_at (s_cells s) as)" using wf by (simp add: wf_at_def)
  have free: "range_free (unat a) (unat n) (segs_at (s_cells s3) as2)"
    using unm_range_free [OF sok ck(7)] s2(3) s3(4) ck(5,6) by simp
  have bounds: "unat (mm_base (s_mm s3)) \<le> unat a"
      "unat a + unat n \<le> unat (mm_base (s_mm s3)) + unat (mm_len (s_mm s3))" "0 < unat n"
    using req ck(5-7) s2(6) s3(5) by (simp_all add: unmap_req_def mm_same_def)
  obtain s4 where s4: "mapat_link s3 a n (Some ?b) = Inr s4" "linked ?b {} s3 as2 (unat a, unat n, ?i) s4"
    by (rule mapat_link_ok [OF s3(2) _ s3(3) free bounds(3,1,2)]) simp_all
  then obtain as4 where as4: "wf_at {} s4 as4"
      "segs_at (s_cells s4) as4 = ins_seg (unat a, unat n, ?i) (segs_at (s_cells s3) as2)"
      "s_ud s4 = s_ud s3" "mm_same (s_mm s3) (s_mm s4)" "h_oom (s_heap s4) = h_oom (s_heap s3)"
    unfolding linked_def by blast
  have same: "mm_same (s_mm s) (s_mm s4)" using as4(4) s2(6) s3(5) mm_same_trans by metis
  then have "push_bit (mm_p2pagesize (s_mm s4)) a = addr" using rp(1) by (simp add: mm_same_def)
  then have "mm_mapat_cb s addr len prot flags fd offset ufn = Inr (addr, s4)"
    using ck(1-4) s1(1,7) rp(1) s2(1) s3(1) s4(1)
    by (simp add: mm_mapat_cb_def Let_def a_def [symmetric])
  then show thesis using that as4 same s3(4,6,7) s2(3,4,5) ck(5,6) by metis
qed

section \<open>Mapping anywhere\<close>

text \<open>First fit: the first gap of n pages at or after page m.\<close>

fun first_fit :: "nat \<Rightarrow> nat \<Rightarrow> nat \<Rightarrow> seg list \<Rightarrow> nat option" where
  "first_fit n m hi [] = (if n \<le> hi - m then Some m else None)"
| "first_fit n m hi ((b, l, i) # xs) = (if n \<le> b - m then Some m else first_fit n (b + l) hi xs)"

lemma mapany_scan_ok:
  assumes "dll (s_cells s) (mm_nodes (s_mm s)) (xs @ ys)"
    "segs_ok (unat start) hi (segs_at (s_cells s) ys)"
    "hi = unat (mm_base (s_mm s)) + unat (mm_len (s_mm s))" "hi < 2 ^ 64" "0 < unat len"
    "ys = [] \<Longrightarrow> endp = last_ptr xs" "gap < len" "length ys < fuel"
  shows "\<exists>us vs endp' start' gap'. ys = us @ vs \<and>
    mapany_scan fuel s len (first_ptr ys) endp start gap = Inr (first_ptr vs, endp', start', gap') \<and>
    (vs = [] \<longrightarrow> endp' = last_ptr (xs @ us)) \<and>
    (case first_fit (unat len) (unat start) hi (segs_at (s_cells s) ys) of
       None \<Rightarrow> gap' < len
     | Some m \<Rightarrow> len \<le> gap' \<and> m = unat start' \<and> segs_ok (unat start) m (segs_at (s_cells s) us) \<and>
         segs_ok (m + unat len) hi (segs_at (s_cells s) vs))"
  using assms
proof (induction ys arbitrary: xs start endp gap fuel)
  case Nil
  then obtain f where f: "fuel = Suc f" by (cases fuel) auto
  have lim: "unat (mm_base (s_mm s) + mm_len (s_mm s)) = hi" using Nil.prems(3,4) by (simp add: unat_add_nowrap)
  have le: "unat start \<le> hi" using Nil.prems(2) by simp
  have gap: "unat (mm_base (s_mm s) + mm_len (s_mm s) - start) = hi - unat start"
    using le lim by (simp add: unat_sub u64_le_iff)
  show ?case
  proof (cases "unat start < hi")
    case True
    then show ?thesis
      using f lim gap le Nil.prems(5,6) by (auto simp: u64_less_iff u64_le_iff)
  next
    case False
    then show ?thesis
      using f lim le Nil.prems(5-7) by (auto simp: u64_less_iff)
  qed
next
  case (Cons y ys)
  then obtain f where f: "fuel = Suc f" "length ys < f" by (cases fuel) auto
  have lim: "unat (mm_base (s_mm s) + mm_len (s_mm s)) = hi" using Cons.prems(3,4) by (simp add: unat_add_nowrap)
  have dll: "dll (s_cells s) (mm_nodes (s_mm s)) ((xs @ [y]) @ ys)" using Cons.prems(1) by simp
  obtain ny where ny: "s_cells s y = Some ny" "n_next ny = first_ptr ys"
    using Cons.prems(1) by (rule dll_node)
  note nb = node_bounds [OF Cons.prems(2) ny(1) Cons.prems(4)]
  have run: "start < mm_base (s_mm s) + mm_len (s_mm s)" using nb(1-3) lim by (simp add: u64_less_iff)
  have gap: "unat (n_base ny - start) = unat (n_base ny) - unat start"
    using nb(1) by (simp add: unat_sub u64_le_iff)
  show ?case
  proof (cases "len \<le> n_base ny - start")
    case True
    then have fit: "unat start + unat len \<le> unat (n_base ny)" using gap nb(1) Cons.prems(5) by (simp add: u64_le_iff)
    have "segs_ok (unat start + unat len) hi (segs_at (s_cells s) (y # ys))"
      by (rule segs_ok_raise [OF Cons.prems(2)]) (use ny fit in \<open>simp add: seg_of_def\<close>)
    moreover have "mapany_scan fuel s len (first_ptr (y # ys)) endp start gap =
        Inr (first_ptr (y # ys), endp, start, n_base ny - start)"
      using f(1) run ny(1) True by (simp add: cell_simps)
    moreover have "first_fit (unat len) (unat start) hi (segs_at (s_cells s) (y # ys)) = Some (unat start)"
      using True gap ny(1) by (simp add: seg_of_def u64_le_iff)
    ultimately show ?thesis
      using True by (intro exI [of _ "[]"] exI [of _ "y # ys"]) auto
  next
    case False
    let ?e = "if n_next ny = None then Some y else endp"
    have step: "mapany_scan fuel s len (first_ptr (y # ys)) endp start gap =
        mapany_scan f s len (first_ptr ys) ?e (n_base ny + n_len ny) (n_base ny - start)"
      using f(1) run ny False by (simp add: cell_simps)
    have sok: "segs_ok (unat (n_base ny + n_len ny)) hi (segs_at (s_cells s) ys)" using nb(4,5) by simp
    have fit: "first_fit (unat len) (unat start) hi (segs_at (s_cells s) (y # ys)) =
        first_fit (unat len) (unat (n_base ny + n_len ny)) hi (segs_at (s_cells s) ys)"
      using False gap ny(1) nb(5) by (simp add: seg_of_def u64_le_iff)
    have e: "ys = [] \<Longrightarrow> ?e = last_ptr (xs @ [y])" using ny(2) by simp
    have small: "n_base ny - start < len" using False by (simp add: not_le)
    obtain us vs endp' start' gap' where R: "ys = us @ vs"
        "mapany_scan f s len (first_ptr ys) ?e (n_base ny + n_len ny) (n_base ny - start) =
          Inr (first_ptr vs, endp', start', gap')"
        "vs = [] \<longrightarrow> endp' = last_ptr ((xs @ [y]) @ us)"
        "case first_fit (unat len) (unat (n_base ny + n_len ny)) hi (segs_at (s_cells s) ys) of
           None \<Rightarrow> gap' < len
         | Some m \<Rightarrow> len \<le> gap' \<and> m = unat start' \<and>
             segs_ok (unat (n_base ny + n_len ny)) m (segs_at (s_cells s) us) \<and>
             segs_ok (m + unat len) hi (segs_at (s_cells s) vs)"
      using Cons.IH [OF dll sok Cons.prems(3-5) e small f(2)] by blast
    have up: "segs_ok (unat start) m (segs_at (s_cells s) (y # us))"
      if "segs_ok (unat (n_base ny + n_len ny)) m (segs_at (s_cells s) us)" for m
      using that nb ny(1) by (simp add: seg_of_def)
    have "y # ys = (y # us) @ vs" using R(1) by simp
    moreover have "vs = [] \<longrightarrow> endp' = last_ptr (xs @ y # us)" using R(3) by simp
    ultimately show ?thesis
      unfolding step fit using R(2,4) up
      by (intro exI [of _ "y # us"] exI [of _ vs] exI [of _ endp'] exI [of _ start'] exI [of _ gap'])
        (auto split: option.splits)
  qed
qed

text \<open>The arguments of a request for a mapping anywhere.\<close>

definition any_req :: "MMAddrSpace \<Rightarrow> u64 \<Rightarrow> bool" where
  "any_req mm len \<longleftrightarrow> len \<noteq> 0 \<and> unat len + (2 ^ mm_p2pagesize mm - 1) < 2 ^ 64"

lemma any_req_checks:
  assumes ok: "mm_ok mm" and req: "any_req mm len"
  shows "mmceil mm len = Inr (drop_bit (mm_p2pagesize mm) (ceilp len (2 ^ mm_p2pagesize mm)))"
    "unat (drop_bit (mm_p2pagesize mm) (ceilp len (2 ^ mm_p2pagesize mm))) = req_pages mm len"
    "0 < req_pages mm len"
proof -
  have p: "mm_p2pagesize mm \<le> 30" using ok by (simp add: mm_ok_def)
  show "mmceil mm len = Inr (drop_bit (mm_p2pagesize mm) (ceilp len (2 ^ mm_p2pagesize mm)))"
    using p by (rule mmceil_ok)
  show "unat (drop_bit (mm_p2pagesize mm) (ceilp len (2 ^ mm_p2pagesize mm))) = req_pages mm len"
    using page_count_nowrap [OF p, of len] req by (simp add: page_count_def any_req_def)
  show "0 < req_pages mm len" using req by (simp add: any_req_def pages_up_pos unat_gt_0)
qed

lemma wf_at_set_cursor: "wf_at E s as \<Longrightarrow> cursor_in c as \<Longrightarrow> wf_at E (set_cursor s c) as"
  by (simp add: wf_at_def mm_ok_def)

lemma dll_prev_in: "dll c p as \<Longrightarrow> b \<in> set as \<Longrightarrow> c b = Some n \<Longrightarrow> cursor_in (n_prev n) as"
  by (metis dll_node cursor_in_last_ptr option.inject split_list)

lemma linked_cursor:
  assumes "linked b E s as x s'"
  obtains n where "s_cells s' b = Some n" "linked b E s as x (set_cursor s' (n_prev n))"
proof -
  obtain as' where as': "wf_at E s' as'" "b \<in> set as'"
      "segs_at (s_cells s') as' = ins_seg x (segs_at (s_cells s) as)"
    using assms by (auto simp: linked_def)
  have dll: "dll (s_cells s') (mm_nodes (s_mm s')) as'" using as'(1) by (simp add: wf_at_def)
  then obtain n where n: "s_cells s' b = Some n" using as'(2) dll_cells by blast
  have "wf_at E (set_cursor s' (n_prev n)) as'"
    using as'(1) dll_prev_in [OF dll as'(2) n] by (rule wf_at_set_cursor)
  then have "linked b E s as x (set_cursor s' (n_prev n))"
    using assms as'(2,3) by (auto simp: linked_def)
  then show thesis using that n by blast
qed

text \<open>The insertion at the end of \<open>mm_mapany_cursor\<close>.\<close>

lemma mapany_link_ok:
  assumes wf: "wf_at (insert b E) s (xs @ ys)" and b: "b \<notin> E" "s_cells s b = Some (new_node a n i)"
    and ok: "segs_ok (unat (mm_base (s_mm s))) (unat (mm_base (s_mm s)) + unat (mm_len (s_mm s)))
        (segs_at (s_cells s) xs @ (unat a, unat n, i) # segs_at (s_cells s) ys)"
    and e: "ys = [] \<longrightarrow> e = last_ptr xs"
  obtains s' where "(if first_ptr ys \<noteq> None then node_insert_before s (first_ptr ys) (Some b)
      else if e \<noteq> None then node_insert_after s e (Some b)
      else rbind (rassert (mm_nodes (s_mm s) = None)) (\<lambda>_. Inr (set_nodes s (Some b)))) = Inr s'"
    "linked b E s (xs @ ys) (unat a, unat n, i) s'"
proof -
  have dll: "dll (s_cells s) (mm_nodes (s_mm s)) (xs @ ys)" and dist: "distinct (xs @ ys)"
    and bn: "b \<notin> set (xs @ ys)" using wf by (auto simp: wf_at_def)
  show thesis
  proof (cases ys)
    case (Cons y ys')
    obtain s' where "node_insert_before s (Some y) (Some b) = Inr s'"
        "links_only s s' (insert b (set (xs @ y # ys')))" "dll (s_cells s') (mm_nodes (s_mm s')) (xs @ b # y # ys')"
      by (rule node_insert_before_ok [of s xs y ys' b]) (use dll dist bn b(2) Cons in auto)
    then show thesis using that Cons linkedI [OF wf b _ _ ok] by simp
  next
    case ys: Nil
    show thesis
    proof (cases xs rule: rev_cases)
      case Nil
      then have "mm_nodes (s_mm s) = None" using dll ys by simp
      moreover have "linked b E s (xs @ ys) (unat a, unat n, i) (set_nodes s (Some b))"
        by (rule linkedI [OF wf b _ _ ok]) (use Nil ys b(2) in \<open>auto simp: links_only_def dll_def new_node_def\<close>)
      ultimately show thesis using that e ys Nil by simp
    next
      case (snoc xs' x)
      obtain s' where "node_insert_after s (Some x) (Some b) = Inr s'"
          "links_only s s' (insert b (set (xs' @ x # [])))" "dll (s_cells s') (mm_nodes (s_mm s')) (xs' @ x # b # [])"
        by (rule node_insert_after_ok [of s xs' x "[]" b]) (use dll dist bn b(2) snoc ys in auto)
      then show thesis using that e ys snoc linkedI [OF wf b _ _ ok] by simp
    qed
  qed
qed

text \<open>Where a search that begins at the regions ys starts looking.\<close>

definition scan_from :: "MMAddrSpace \<Rightarrow> seg list \<Rightarrow> nat" where
  "scan_from mm ys = (case ys of [] \<Rightarrow> unat (mm_base mm) | (b, l, i) # _ \<Rightarrow> b)"

text \<open>A successful search: the result is the address of a free range of the right size, now mapped.\<close>

definition mapped_any ::
  "'u mstate \<Rightarrow> u64 \<Rightarrow> MMInfo \<Rightarrow> nat \<Rightarrow> u64 \<Rightarrow> 'u mstate \<Rightarrow> bool" where
  "mapped_any s len i m r s' \<longleftrightarrow>
     unat r = m * 2 ^ mm_p2pagesize (s_mm s) \<and> mm_wf s' \<and>
     mm_segs s' = ins_seg (m, req_pages (s_mm s) len, i) (mm_segs s) \<and>
     range_free m (req_pages (s_mm s) len) (mm_segs s) \<and>
     unat (mm_base (s_mm s)) \<le> m \<and>
     m + req_pages (s_mm s) len \<le> unat (mm_base (s_mm s)) + unat (mm_len (s_mm s)) \<and>
     s_ud s' = s_ud s \<and> mm_same (s_mm s) (s_mm s') \<and> h_oom (s_heap s') = h_oom (s_heap s)"

lemma segs_ok_between:
  assumes "segs_ok lo m xs" "segs_ok (m + n) hi ys" "0 < n"
  shows "segs_ok lo hi (xs @ (m, n, i) # ys)" "range_free m n (xs @ ys)" "lo \<le> m" "m + n \<le> hi"
  using assms segs_ok_le [OF assms(1)] segs_ok_le [OF assms(2)]
    range_free_below [OF assms(1) order_refl] range_free_above [OF assms(2) order_refl]
  by (auto simp: segs_ok_append)

lemma mapany_cursor_scan:
  assumes wf: "wf_at {} s (xs @ ys)" and start: "ys = [] \<longrightarrow> xs = []" and req: "any_req (s_mm s) len"
  defines "n \<equiv> drop_bit (mm_p2pagesize (s_mm s)) (ceilp len (2 ^ mm_p2pagesize (s_mm s)))"
  defines "fit \<equiv> first_fit (req_pages (s_mm s) len) (scan_from (s_mm s) (segs_at (s_cells s) ys))
      (unat (mm_base (s_mm s)) + unat (mm_len (s_mm s))) (segs_at (s_cells s) ys)"
  obtains us vs endp' start' gap' st where "ys = us @ vs"
    "(case first_ptr ys of None \<Rightarrow> Inr (mm_base (s_mm s))
      | Some _ \<Rightarrow> rbind (get_cell s (first_ptr ys)) (\<lambda>nd. Inr (n_base nd))) = Inr st"
    "mapany_scan (walk_fuel s) s n (first_ptr ys) (first_ptr ys) st 0 = Inr (first_ptr vs, endp', start', gap')"
    "vs = [] \<longrightarrow> endp' = last_ptr (xs @ us)"
    "case fit of None \<Rightarrow> gap' < n
     | Some m \<Rightarrow> n \<le> gap' \<and> m = unat start' \<and>
         segs_ok (unat (mm_base (s_mm s))) m (segs_at (s_cells s) (xs @ us)) \<and>
         segs_ok (m + unat n) (unat (mm_base (s_mm s)) + unat (mm_len (s_mm s))) (segs_at (s_cells s) vs)"
proof -
  let ?lo = "unat (mm_base (s_mm s))" and ?hi = "unat (mm_base (s_mm s)) + unat (mm_len (s_mm s))"
  have dll: "dll (s_cells s) (mm_nodes (s_mm s)) (xs @ ys)" and ok: "mm_ok (s_mm s)"
    and sok: "segs_ok ?lo ?hi (segs_at (s_cells s) xs @ segs_at (s_cells s) ys)"
    using wf by (auto simp: wf_at_def)
  have n: "unat n = req_pages (s_mm s) len" "0 < unat n"
    using any_req_checks [OF ok req, folded n_def] by simp_all
  obtain m where m: "segs_ok ?lo m (segs_at (s_cells s) xs)" "segs_ok m ?hi (segs_at (s_cells s) ys)"
    using sok by (auto simp: segs_ok_append)
  obtain st where st: "(case first_ptr ys of None \<Rightarrow> Inr (mm_base (s_mm s))
      | Some _ \<Rightarrow> rbind (get_cell s (first_ptr ys)) (\<lambda>nd. Inr (n_base nd))) = Inr st"
      "unat st = scan_from (s_mm s) (segs_at (s_cells s) ys)"
      "segs_ok ?lo (unat st) (segs_at (s_cells s) xs)" "segs_ok (unat st) ?hi (segs_at (s_cells s) ys)"
  proof (cases ys)
    case Nil
    then show thesis using that [of "mm_base (s_mm s)"] start by (simp add: scan_from_def)
  next
    case (Cons y ys')
    obtain ny where ny: "s_cells s y = Some ny" using dll_cells [OF dll] Cons by auto
    have "m \<le> unat (n_base ny)" using m(2) Cons ny by (simp add: seg_of_def)
    then show thesis
      using that [of "n_base ny"] Cons ny m by (auto simp: scan_from_def cell_simps seg_of_def intro: segs_ok_upper)
  qed
  have len: "length ys < walk_fuel s" using wf_at_length [OF wf] by simp
  have e: "ys = [] \<Longrightarrow> first_ptr ys = last_ptr xs" using start by simp
  have z: "0 < n" using n(2) by (simp add: u64_less_iff)
  obtain us vs endp' start' gap' where R: "ys = us @ vs"
      "mapany_scan (walk_fuel s) s n (first_ptr ys) (first_ptr ys) st 0 = Inr (first_ptr vs, endp', start', gap')"
      "vs = [] \<longrightarrow> endp' = last_ptr (xs @ us)"
      "case fit of None \<Rightarrow> gap' < n
       | Some m \<Rightarrow> n \<le> gap' \<and> m = unat start' \<and> segs_ok (unat st) m (segs_at (s_cells s) us) \<and>
           segs_ok (m + unat n) ?hi (segs_at (s_cells s) vs)"
    using mapany_scan_ok [OF dll st(4) refl wf_at_limit [OF wf] n(2) e z len]
    unfolding fit_def st(2) n(1) by blast
  show thesis
  proof (rule that [OF R(1) st(1) R(2,3)])
    show "case fit of None \<Rightarrow> gap' < n
      | Some m \<Rightarrow> n \<le> gap' \<and> m = unat start' \<and> segs_ok ?lo m (segs_at (s_cells s) (xs @ us)) \<and>
          segs_ok (m + unat n) ?hi (segs_at (s_cells s) vs)"
      using R(4) st(3) by (auto simp: segs_ok_append split: option.splits)
  qed
qed

lemma mapany_insert_ok:
  assumes wf: "wf_at {} s (xs @ ys)" and mem: "\<not> h_oom (s_heap s) (h_next (s_heap s))"
    and n: "unat n = req_pages (s_mm s) len" "0 < unat n"
    and below: "segs_ok (unat (mm_base (s_mm s))) (unat st) (segs_at (s_cells s) xs)"
    and above: "segs_ok (unat st + unat n) (unat (mm_base (s_mm s)) + unat (mm_len (s_mm s))) (segs_at (s_cells s) ys)"
    and e: "ys = [] \<longrightarrow> e = last_ptr xs"
  obtains r s' where "mapany_insert s st n i (first_ptr ys) e = Inr (r, s')" "mapped_any s len i (unat st) r s'"
proof -
  let ?p = "mm_p2pagesize (s_mm s)" and ?b = "h_next (s_heap s)"
  have ok: "mm_ok (s_mm s)" using wf by (simp add: wf_at_def)
  note bt = segs_ok_between [OF below above n(2)]
  obtain s1 where s1: "malloc_node s = (Some ?b, s1)" "wf_at {?b} s1 (xs @ ys)"
      "segs_at (s_cells s1) (xs @ ys) = segs_at (s_cells s) (xs @ ys)"
      "h_oom (s_heap s1) = h_oom (s_heap s)" "s_ud s1 = s_ud s" "s_mm s1 = s_mm s"
    using malloc_ok [OF wf mem] by metis
  obtain s2 where s2: "upd_cell s1 (Some ?b) (\<lambda>_. new_node st n i) = Inr s2" "wf_at {?b} s2 (xs @ ys)"
      "s_cells s2 ?b = Some (new_node st n i)"
      "segs_at (s_cells s2) (xs @ ys) = segs_at (s_cells s1) (xs @ ys)"
      "s_mm s2 = s_mm s1" "s_ud s2 = s_ud s1" "h_oom (s_heap s2) = h_oom (s_heap s1)"
    by (rule wf_at_fill [OF s1(2)]) auto
  have parts: "segs_at (s_cells s2) xs = segs_at (s_cells s) xs" "segs_at (s_cells s2) ys = segs_at (s_cells s) ys"
    using s2(4) s1(3) by (simp_all add: segs_at_def)
  have fits: "segs_ok (unat (mm_base (s_mm s2))) (unat (mm_base (s_mm s2)) + unat (mm_len (s_mm s2)))
      (segs_at (s_cells s2) xs @ (unat st, unat n, i) # segs_at (s_cells s2) ys)"
    using bt(1) parts s1(6) s2(5) by simp
  obtain s3 where s3: "(if first_ptr ys \<noteq> None then node_insert_before s2 (first_ptr ys) (Some ?b)
        else if e \<noteq> None then node_insert_after s2 e (Some ?b)
        else rbind (rassert (mm_nodes (s_mm s2) = None)) (\<lambda>_. Inr (set_nodes s2 (Some ?b)))) = Inr s3"
      "linked ?b {} s2 (xs @ ys) (unat st, unat n, i) s3"
    by (rule mapany_link_ok [OF s2(2) _ s2(3) fits e]) simp_all
  obtain nw where nw: "s_cells s3 ?b = Some nw"
      "linked ?b {} s2 (xs @ ys) (unat st, unat n, i) (set_cursor s3 (n_prev nw))"
    using s3(2) by (rule linked_cursor)
  let ?s4 = "set_cursor s3 (n_prev nw)"
  have same: "mm_same (s_mm s) (s_mm ?s4)" using nw(2) s1(6) s2(5) unfolding linked_def by simp
  obtain as4 where as4: "wf_at {} ?s4 as4"
      "segs_at (s_cells ?s4) as4 = ins_seg (unat st, unat n, i) (segs_at (s_cells s2) (xs @ ys))"
      "s_ud ?s4 = s_ud s2" "h_oom (s_heap ?s4) = h_oom (s_heap s2)"
    using nw(2) unfolding linked_def by blast
  have seg: "mm_segs ?s4 = ins_seg (unat st, req_pages (s_mm s) len, i) (mm_segs s)"
    using as4(2) wf_at_segs [OF as4(1)] wf_at_segs [OF wf] s1(3) s2(4) n(1) by simp
  have addr: "unat (push_bit ?p st) = unat st * 2 ^ ?p"
    using unat_push_page [OF ok, of st] bt(4) by simp
  have free: "range_free (unat st) (req_pages (s_mm s) len) (mm_segs s)"
    using bt(2) n(1) wf_at_segs [OF wf] by simp
  have "mapany_insert s st n i (first_ptr ys) e = Inr (push_bit ?p st, ?s4)"
    using s1(1) s2(1) s3(1) nw(1) same
    by (simp add: mapany_insert_def cell_simps Let_def mm_same_def)
  moreover have "mapped_any s len i (unat st) (push_bit ?p st) ?s4"
    unfolding mapped_any_def
    using seg addr free wf_at_mm_wf [OF as4(1)] as4(3,4) bt(3,4) n(1) same s1(4,5) s2(6,7) by metis
  ultimately show thesis by (rule that)
qed

text \<open>What one search returns, in terms of \<open>first_fit\<close>.\<close>

abbreviation fit_from :: "'u mstate \<Rightarrow> u64 \<Rightarrow> seg list \<Rightarrow> nat option" where
  "fit_from s len segs \<equiv> first_fit (req_pages (s_mm s) len) (scan_from (s_mm s) segs)
     (unat (mm_base (s_mm s)) + unat (mm_len (s_mm s))) segs"

lemma mapany_cursor_ok:
  assumes wf: "wf_at {} s (xs @ ys)" and start: "ys = [] \<longrightarrow> xs = []" and req: "any_req (s_mm s) len"
    and mem: "\<not> h_oom (s_heap s) (h_next (s_heap s))"
  shows "case fit_from s len (segs_at (s_cells s) ys) of
      None \<Rightarrow> mm_mapany_cursor s len prot flags fd offset (first_ptr ys) = Inr (-1, s)
    | Some m \<Rightarrow> \<exists>r s'. mm_mapany_cursor s len prot flags fd offset (first_ptr ys) = Inr (r, s') \<and>
        mapped_any s len (new_info prot flags fd offset) m r s'"
proof -
  let ?p = "mm_p2pagesize (s_mm s)" and ?i = "new_info prot flags fd offset"
  define n where "n = drop_bit ?p (ceilp len (2 ^ ?p))"
  have ok: "mm_ok (s_mm s)" using wf by (simp add: wf_at_def)
  note ck = any_req_checks [OF ok req, folded n_def]
  obtain us vs e st gap z where R: "ys = us @ vs"
      "(case first_ptr ys of None \<Rightarrow> Inr (mm_base (s_mm s))
        | Some _ \<Rightarrow> rbind (get_cell s (first_ptr ys)) (\<lambda>nd. Inr (n_base nd))) = Inr z"
      "mapany_scan (walk_fuel s) s n (first_ptr ys) (first_ptr ys) z 0 = Inr (first_ptr vs, e, st, gap)"
      "vs = [] \<longrightarrow> e = last_ptr (xs @ us)"
      "case fit_from s len (segs_at (s_cells s) ys) of None \<Rightarrow> gap < n
       | Some m \<Rightarrow> n \<le> gap \<and> m = unat st \<and>
           segs_ok (unat (mm_base (s_mm s))) m (segs_at (s_cells s) (xs @ us)) \<and>
           segs_ok (m + unat n) (unat (mm_base (s_mm s)) + unat (mm_len (s_mm s))) (segs_at (s_cells s) vs)"
    by (rule mapany_cursor_scan [OF wf start req, folded n_def])
  have head: "mm_mapany_cursor s len prot flags fd offset (first_ptr ys) =
      (if n \<le> gap then mapany_insert s st n ?i (first_ptr vs) e else Inr (-1, s))"
    unfolding mm_mapany_cursor_def ck(1) R(2) R(3) rbind_simps by simp
  show ?thesis
  proof (cases "fit_from s len (segs_at (s_cells s) ys)")
    case None
    then have "\<not> n \<le> gap" using R(5) by (simp add: not_le)
    then show ?thesis using None head by simp
  next
    case (Some m)
    then have R5: "n \<le> gap" "m = unat st" "segs_ok (unat (mm_base (s_mm s))) (unat st) (segs_at (s_cells s) (xs @ us))"
        "segs_ok (unat st + unat n) (unat (mm_base (s_mm s)) + unat (mm_len (s_mm s))) (segs_at (s_cells s) vs)"
      using R(5) by (auto simp del: segs_at_simps)
    have wf': "wf_at {} s ((xs @ us) @ vs)" and pos: "0 < unat n" using wf R(1) ck(2,3) by simp_all
    obtain r s' where "mapany_insert s st n ?i (first_ptr vs) e = Inr (r, s')" "mapped_any s len ?i (unat st) r s'"
      using wf' mem ck(2) pos R5(3,4) R(4) by (rule mapany_insert_ok)
    then show ?thesis using Some head R5(1,2) by auto
  qed
qed

text \<open>A page address is never the error value \<open>(uintptr_t) -1\<close>.\<close>

lemma page_not_minus_one:
  assumes "mm_ok mm" "unat (r :: u64) = m * 2 ^ mm_p2pagesize mm"
  shows "r \<noteq> -1"
proof
  assume "r = -1"
  moreover have "unat (-1 :: u64) = 2 ^ 64 - 1"
    by (simp add: unsigned_minus_1_eq_mask mask_eq_exp_minus_1)
  ultimately have "2 ^ 64 - 1 = m * 2 ^ mm_p2pagesize mm" using assms(2) by (simp only:)
  then have "2 ^ mm_p2pagesize mm dvd (2 ^ 64 - 1 :: nat)" by (simp only: dvd_triv_right)
  moreover have "2 dvd (2 :: nat) ^ mm_p2pagesize mm"
    using assms(1) by (simp add: mm_ok_def)
  ultimately have "2 dvd (2 ^ 64 - 1 :: nat)" by (rule dvd_trans [rotated])
  then show False by simp
qed

lemma mapany_ok:
  assumes wf: "wf_at {} s as" and req: "any_req (s_mm s) len"
    and mem: "\<not> h_oom (s_heap s) (h_next (s_heap s))"
  shows "\<exists>r s'. mm_mapany s len prot flags fd offset = Inr (r, s') \<and>
    ((r = -1 \<and> s' = s \<and> fit_from s len (mm_segs s) = None) \<or>
     (\<exists>m. mapped_any s len (new_info prot flags fd offset) m r s'))"
proof -
  have ok: "mm_ok (s_mm s)" using wf by (simp add: wf_at_def)
  have nodes: "mm_nodes (s_mm s) = first_ptr as" using wf by (auto simp: wf_at_def dest: dll_first)
  have sg: "segs_at (s_cells s) as = mm_segs s" using wf_at_segs [OF wf] by simp
  note full = mapany_cursor_ok [of s "[]" as len prot flags fd offset, simplified, OF wf req mem]
  let ?C = "\<lambda>c. mm_mapany_cursor s len prot flags fd offset c"
  have found: "?thesis" if "?C (mm_cursor (s_mm s)) = Inr (r, s')" "mm_cursor (s_mm s) \<noteq> None"
      "mapped_any s len (new_info prot flags fd offset) m r s'" for r s' m
    using that page_not_minus_one [OF ok, of r m]
    by (auto simp: mm_mapany_def mapped_any_def)
  have again: "?thesis" if "mm_cursor (s_mm s) = None \<or> ?C (mm_cursor (s_mm s)) = Inr (-1, s)"
    using that full nodes sg by (auto simp: mm_mapany_def split: option.splits)
  show ?thesis
  proof (cases "mm_cursor (s_mm s)")
    case (Some c)
    then have "c \<in> set as" using wf by (simp add: wf_at_def)
    then obtain xs ys where as: "as = xs @ c # ys" by (auto dest: split_list)
    have "wf_at {} s (xs @ c # ys)" using wf as by simp
    from mapany_cursor_ok [OF this _ req mem, of prot flags fd offset]
    show ?thesis using Some found again by (fastforce split: option.splits)
  qed (use again in simp)
qed

end
