(* ===== verification/Mmap_Spec.thy ===== *)
theory Mmap_Spec
  imports Mmap_Map
begin

text \<open>
  What the memory mapper promises to its clients, per operation and for whole sequences of
  requests: an address space is a partial map from page numbers to attributes, and the
  linked list of \<open>mmap.c\<close> implements it.
\<close>

section \<open>Operations on whole states\<close>

abbreviation mm_pages :: "'u mstate \<Rightarrow> nat \<Rightarrow> MMInfo option" where
  "mm_pages s \<equiv> pages_of (mm_segs s)"

lemma mm_wf_at: "mm_wf s \<Longrightarrow> wf_at {} s (mm_addrs s)"
  by (simp add: mm_wf_def)

lemma mm_wf_ok: "mm_wf s \<Longrightarrow> mm_ok (s_mm s)"
  by (simp add: mm_wf_def wf_at_def)

lemma mm_wf_segs:
  "mm_wf s \<Longrightarrow> segs_ok (unat (mm_base (s_mm s))) (unat (mm_base (s_mm s)) + unat (mm_len (s_mm s))) (mm_segs s)"
  by (simp add: mm_wf_def wf_at_def mm_segs_def)

lemma run_ufn_None [simp]: "run_ufn None p hs u = Inr u"
  by (induction hs) auto

text \<open>
  C17: unmapping. On a well-formed address space \<open>mm_unmap_cb\<close> accepts every aligned, non-empty
  range inside the space, returns 0, removes exactly the pages of the range from the page map
  (splitting regions at its ends), keeps the list well formed without leaking a node, and runs
  the callback exactly on the pieces it removed, in address order.
\<close>

theorem mm_unmap_cb_correct:
  assumes "mm_wf s" "unmap_req (s_mm s) addr len" "\<not> h_oom (s_heap s) (h_next (s_heap s))"
    "run_ufn ufn (mm_p2pagesize (s_mm s)) (hits (req_page (s_mm s) addr) (req_pages (s_mm s) len) (mm_segs s))
       (s_ud s) = Inr u"
  shows "\<exists>s'. mm_unmap_cb s addr len ufn = Inr (0, s') \<and> mm_wf s' \<and> s_ud s' = u \<and>
    mm_segs s' = unm (req_page (s_mm s) addr) (req_pages (s_mm s) len) (mm_segs s) \<and>
    mm_pages s' = (\<lambda>q. if req_page (s_mm s) addr \<le> q \<and> q < req_page (s_mm s) addr + req_pages (s_mm s) len
                       then None else mm_pages s q)"
proof -
  have sg: "segs_at (s_cells s) (mm_addrs s) = mm_segs s" by (simp add: mm_segs_def)
  obtain s' as' where s': "mm_unmap_cb s addr len ufn = Inr (0, s')" "wf_at {} s' as'" "s_ud s' = u"
      "segs_at (s_cells s') as' = unm (req_page (s_mm s) addr) (req_pages (s_mm s) len) (mm_segs s)"
    using unmap_cb_ok [OF mm_wf_at [OF assms(1)] assms(2,3), of ufn u] assms(4) unfolding sg by blast
  then have "mm_segs s' = unm (req_page (s_mm s) addr) (req_pages (s_mm s) len) (mm_segs s)"
    by (simp add: wf_at_segs)
  then show ?thesis
    using s'(1-3) wf_at_mm_wf pages_of_unm [OF mm_wf_segs [OF assms(1)]] by auto
qed

text \<open>The error returns of \<open>mm_unmap_cb\<close>.\<close>

lemma page_valid_iff:
  assumes ok: "mm_ok mm"
  shows "mmvalid mm (mmtrunc mm addr) (drop_bit (mm_p2pagesize mm) (ceilp len (2 ^ mm_p2pagesize mm))) \<longleftrightarrow>
    unat (mm_base mm) \<le> req_page mm addr \<and>
    req_page mm addr + page_count (mm_p2pagesize mm) len \<le> unat (mm_base mm) + unat (mm_len mm)"
  using mmvalid_iff [OF ok, of addr "ceilp len (2 ^ mm_p2pagesize mm)"]
  by (simp add: mmtrunc_def page_count_def)

text \<open>The two refusals: a bad request, and no memory for the spare node.\<close>

lemma unmap_cb_refused:
  assumes "mm_wf s" and bad: "\<not> 2 ^ mm_p2pagesize (s_mm s) dvd unat addr \<or> len = 0 \<or>
      unat (mm_base (s_mm s)) > req_page (s_mm s) addr \<or>
      req_page (s_mm s) addr + page_count (mm_p2pagesize (s_mm s)) len
        > unat (mm_base (s_mm s)) + unat (mm_len (s_mm s))"
  shows "mm_unmap_cb s addr len ufn = Inr (- LINUX_EINVAL, s)"
proof -
  let ?p = "mm_p2pagesize (s_mm s)"
  have ok: "mm_ok (s_mm s)" using assms(1) by (rule mm_wf_ok)
  then have p: "?p \<le> 30" by (simp add: mm_ok_def)
  show ?thesis
  proof (cases "addr mod 2 ^ ?p \<noteq> 0 \<or> len = 0")
    case True
    then show ?thesis using mmpagesize_ok [OF p] by (simp add: mm_unmap_cb_def)
  next
    case False
    then have "\<not> mmvalid (s_mm s) (mmtrunc (s_mm s) addr) (drop_bit ?p (ceilp len (2 ^ ?p)))"
      using bad page_valid_iff [OF ok, of addr len] u64_mod_pow2_eq_0 [OF p, of addr] by auto
    then show ?thesis using False mmpagesize_ok [OF p] mmceil_ok [OF p] by (simp add: mm_unmap_cb_def Let_def)
  qed
qed

lemma unmap_cb_oom:
  assumes "mm_wf s" "unmap_req (s_mm s) addr len" and oom: "h_oom (s_heap s) (h_next (s_heap s))"
  shows "\<exists>s'. mm_unmap_cb s addr len ufn = Inr (-1, s') \<and> mm_wf s' \<and> mm_segs s' = mm_segs s \<and> s_ud s' = s_ud s"
proof -
  let ?s = "s\<lparr>s_heap := (s_heap s)\<lparr>h_next := Suc (h_next (s_heap s))\<rparr>\<rparr>"
  note ck = unmap_req_checks [OF mm_wf_ok [OF assms(1)] assms(2)]
  have wf: "wf_at {} ?s (mm_addrs s)" by (rule wf_at_bump [OF mm_wf_at [OF assms(1)]])
  have "mm_unmap_cb s addr len ufn = Inr (-1, ?s)"
    using ck(1-4) assms(2) malloc_fail [OF oom] by (simp add: mm_unmap_cb_def Let_def unmap_req_def)
  then show ?thesis using wf_at_mm_wf [OF wf] wf_at_segs [OF wf] by (simp add: mm_segs_def)
qed


section \<open>Mapping\<close>

lemma range_free_split:
  "segs_ok lo hi xs \<Longrightarrow> range_free a n xs \<Longrightarrow> 0 < n \<Longrightarrow> lo \<le> a \<Longrightarrow> a + n \<le> hi \<Longrightarrow>
   \<exists>us vs. xs = us @ vs \<and> segs_ok lo hi (us @ (a, n, i) # vs)"
proof (induction xs arbitrary: lo)
  case Nil
  then show ?case by simp
next
  case (Cons x xs)
  obtain b l j where x: "x = (b, l, j)" by (cases x)
  show ?case
  proof (cases "b + l \<le> a")
    case True
    then obtain us vs where "xs = us @ vs" "segs_ok (b + l) hi (us @ (a, n, i) # vs)"
      using Cons.IH [of "b + l"] Cons.prems by (auto simp: x)
    then show ?thesis using Cons.prems(1) by (intro exI [of _ "x # us"] exI [of _ vs]) (simp add: x)
  next
    case False
    then show ?thesis using Cons.prems by (intro exI [of _ "[]"] exI [of _ "x # xs"]) (auto simp: x)
  qed
qed

lemma ins_free_pages:
  assumes "segs_ok lo hi xs" "range_free a n xs" "0 < n" "lo \<le> a" "a + n \<le> hi"
  shows "pages_of (ins_seg (a, n, i) xs) q = (if a \<le> q \<and> q < a + n then Some i else pages_of xs q)"
  using range_free_split [OF assms] pages_of_ins_seg by metis

text \<open>
  C18: mapping at an address. On a well-formed address space \<open>mm_mapat_cb\<close> accepts every aligned,
  non-empty range inside the space and returns its address; afterwards every page of the range
  carries the new attributes, every other page is as before, the list is well formed and leaks
  nothing, and the callback has seen exactly the pieces of older mappings that were replaced.
\<close>

theorem mm_mapat_cb_correct:
  assumes "mm_wf s" "unmap_req (s_mm s) addr len"
    "\<not> h_oom (s_heap s) (h_next (s_heap s))" "\<not> h_oom (s_heap s) (Suc (h_next (s_heap s)))"
    "run_ufn ufn (mm_p2pagesize (s_mm s)) (hits (req_page (s_mm s) addr) (req_pages (s_mm s) len) (mm_segs s))
       (s_ud s) = Inr u"
  shows "\<exists>s'. mm_mapat_cb s addr len prot flags fd offset ufn = Inr (addr, s') \<and> mm_wf s' \<and> s_ud s' = u \<and>
    mm_pages s' = (\<lambda>q. if req_page (s_mm s) addr \<le> q \<and> q < req_page (s_mm s) addr + req_pages (s_mm s) len
                       then Some (new_info prot flags fd offset) else mm_pages s q)"
proof -
  let ?A = "req_page (s_mm s) addr" and ?N = "req_pages (s_mm s) len" and ?i = "new_info prot flags fd offset"
  have sg: "segs_at (s_cells s) (mm_addrs s) = mm_segs s" by (simp add: mm_segs_def)
  obtain s' as' where s': "mm_mapat_cb s addr len prot flags fd offset ufn = Inr (addr, s')" "wf_at {} s' as'"
      "segs_at (s_cells s') as' = ins_seg (?A, ?N, ?i) (unm ?A ?N (mm_segs s))" "s_ud s' = u"
    using mapat_cb_ok [OF mm_wf_at [OF assms(1)] assms(2-4), of ufn u prot flags fd offset] assms(5)
    unfolding sg by blast
  note ck = unmap_req_checks [OF mm_wf_ok [OF assms(1)] assms(2)]
  have seg: "mm_segs s' = ins_seg (?A, ?N, ?i) (unm ?A ?N (mm_segs s))"
    using s'(3) wf_at_segs [OF s'(2)] by simp
  note ok = mm_wf_segs [OF assms(1)]
  have "mm_pages s' q = (if ?A \<le> q \<and> q < ?A + ?N then Some ?i else mm_pages s q)" for q
    using ins_free_pages [OF unm_ok [OF ok] unm_range_free [OF ok ck(7)] ck(7), of ?A ?i q]
      assms(2) pages_of_unm [OF ok, of ?A ?N q] seg by (simp add: unmap_req_def)
  then show ?thesis using s'(1,4) wf_at_mm_wf [OF s'(2)] by auto
qed

text \<open>
  C19: mapping anywhere. For a non-empty length \<open>mm_mapany\<close> either returns \<open>-1\<close>, leaves the state
  alone, and then no gap of the requested size exists at or after the first region; or it
  returns the address of a page range inside the space that was entirely free, whose pages now
  carry the new attributes while all others are unchanged.
\<close>

theorem mm_mapany_correct:
  assumes "mm_wf s" "any_req (s_mm s) len" "\<not> h_oom (s_heap s) (h_next (s_heap s))"
  shows "\<exists>r s'. mm_mapany s len prot flags fd offset = Inr (r, s') \<and> mm_wf s' \<and> s_ud s' = s_ud s \<and>
    (if r = -1 then s' = s \<and> fit_from s len (mm_segs s) = None
     else \<exists>m. unat r = m * 2 ^ mm_p2pagesize (s_mm s) \<and>
       unat (mm_base (s_mm s)) \<le> m \<and>
       m + req_pages (s_mm s) len \<le> unat (mm_base (s_mm s)) + unat (mm_len (s_mm s)) \<and>
       (\<forall>q. m \<le> q \<and> q < m + req_pages (s_mm s) len \<longrightarrow> mm_pages s q = None) \<and>
       mm_pages s' = (\<lambda>q. if m \<le> q \<and> q < m + req_pages (s_mm s) len
                          then Some (new_info prot flags fd offset) else mm_pages s q))"
proof -
  let ?N = "req_pages (s_mm s) len" and ?i = "new_info prot flags fd offset"
  note ok = mm_wf_segs [OF assms(1)]
  note ck = any_req_checks [OF mm_wf_ok [OF assms(1)] assms(2)]
  obtain r s' where R: "mm_mapany s len prot flags fd offset = Inr (r, s')"
      "(r = -1 \<and> s' = s \<and> fit_from s len (mm_segs s) = None) \<or> (\<exists>m. mapped_any s len ?i m r s')"
    using mapany_ok [OF mm_wf_at [OF assms(1)] assms(2,3), of prot flags fd offset]
    by (elim exE conjE) (rule that)
  from R(2) show ?thesis
  proof (elim disjE exE)
    assume "r = -1 \<and> s' = s \<and> fit_from s len (mm_segs s) = None"
    then show ?thesis using R(1) assms(1) by auto
  next
    fix m
    assume m: "mapped_any s len ?i m r s'"
    then have free: "range_free m ?N (mm_segs s)" and lo: "unat (mm_base (s_mm s)) \<le> m"
      and hi: "m + ?N \<le> unat (mm_base (s_mm s)) + unat (mm_len (s_mm s))"
      and r: "unat r = m * 2 ^ mm_p2pagesize (s_mm s)"
      and seg: "mm_segs s' = ins_seg (m, ?N, ?i) (mm_segs s)" and wf: "mm_wf s'" "s_ud s' = s_ud s"
      by (simp_all add: mapped_any_def)
    have "r \<noteq> -1" using mm_wf_ok [OF assms(1)] r by (rule page_not_minus_one)
    moreover have "mm_pages s' = (\<lambda>q. if m \<le> q \<and> q < m + ?N then Some ?i else mm_pages s q)"
      unfolding seg using ins_free_pages [OF ok free ck(3) lo hi] by auto
    moreover have "\<forall>q. m \<le> q \<and> q < m + ?N \<longrightarrow> mm_pages s q = None" using range_free_pages [OF free] by blast
    ultimately show ?thesis
      by (intro exI [of _ r] exI [of _ s'] conjI R(1) wf) (simp only: if_False, intro exI [of _ m] conjI r lo hi refl)
  qed
qed

section \<open>Creation, marking and destruction\<close>

lemma ispow2_power: "k < 64 \<Longrightarrow> ispow2 (2 ^ k)"
  unfolding ispow2_def mask_eq_exp_minus_1 [symmetric]
  by (rule bit_word_eqI) (auto simp: bit_simps)

lemma getpow_power: "k < 64 \<Longrightarrow> getpow (2 ^ k) = k"
proof (induction k)
  case 0
  then show ?case by (simp add: getpow.simps)
next
  case (Suc k)
  have half: "drop_bit 1 ((2 :: u64) ^ Suc k) = 2 ^ k"
    using Suc.prems by (intro bit_word_eqI) (auto simp: bit_simps)
  have "(2 :: u64) ^ k \<noteq> 0"
    using Suc.prems unat_power2 [of k] by (metis Suc_lessD power_not_zero unat_0 zero_neq_numeral)
  then show ?case
    using Suc half by (subst getpow.simps) (simp add: Let_def)
qed

lemma init_ok:
  assumes "1 \<le> k" "k \<le> 30" "2 ^ k dvd unat start" "unat start + unat len < 2 ^ 64"
  shows "\<exists>mm. mm_init start len (2 ^ k) = Inr (True, mm) \<and>
    unat (mm_base mm) * 2 ^ k = unat start \<and> unat (mm_len mm) = unat len div 2 ^ k \<and> mm_p2pagesize mm = k \<and>
    mm_wf \<lparr>s_heap = \<lparr>h_cells = Map.empty, h_next = 0, h_oom = oom\<rparr>, s_mm = mm, s_ud = u\<rparr> \<and>
    mm_pages \<lparr>s_heap = \<lparr>h_cells = Map.empty, h_next = 0, h_oom = oom\<rparr>, s_mm = mm, s_ud = u\<rparr> = Map.empty"
proof -
  define mm where "mm = \<lparr>mm_base = drop_bit k start, mm_len = drop_bit k len,
    mm_p2pagesize = k, mm_nodes = None, mm_cursor = None\<rparr>"
  let ?s = "\<lparr>s_heap = \<lparr>h_cells = Map.empty, h_next = 0, h_oom = oom\<rparr>, s_mm = mm, s_ud = u\<rparr>"
  have init: "mm_init start len (2 ^ k) = Inr (True, mm)"
    using assms(2) ispow2_power [of k] getpow_power [of k] by (simp add: mm_init_def mm_def)
  have base: "unat (mm_base mm) * 2 ^ k = unat start" and len: "unat (mm_len mm) = unat len div 2 ^ k"
    using assms(3) by (simp_all add: mm_def unat_drop_bit)
  have p2: "mm_p2pagesize mm = k" by (simp add: mm_def)
  have "unat (mm_len mm) * 2 ^ k \<le> unat len" by (simp add: len)
  then have "(unat (mm_base mm) + unat (mm_len mm)) * 2 ^ k < 2 ^ 64"
    using assms(4) base by (simp only: add_mult_distrib)
  then have ok: "mm_ok mm" using assms(1,2) by (simp add: mm_ok_def) (simp add: mm_def)
  have "wf_at {} ?s []" using ok by (simp add: wf_at_def) (simp add: mm_def)
  then show ?thesis
    using init base len p2 wf_at_mm_wf [of ?s "[]"] wf_at_segs [of "{}" ?s "[]"] by auto
qed

text \<open>
  Creation. For a power-of-two page size from 2 bytes to 1 GiB and a region that does not
  reach the top of the address space, \<open>mm_init\<close> succeeds and the address space it sets up is
  well formed, covers exactly the pages of the region and maps none of them.
\<close>

theorem mm_init_correct:
  assumes "1 \<le> k" "k \<le> 30" "2 ^ k dvd unat start" "unat start + unat len < 2 ^ 64"
  shows "\<exists>mm. mm_init start len (2 ^ k) = Inr (True, mm) \<and>
    unat (mm_base mm) * 2 ^ k = unat start \<and> unat (mm_len mm) = unat len div 2 ^ k \<and>
    mm_wf \<lparr>s_heap = \<lparr>h_cells = Map.empty, h_next = 0, h_oom = oom\<rparr>, s_mm = mm, s_ud = u\<rparr> \<and>
    mm_pages \<lparr>s_heap = \<lparr>h_cells = Map.empty, h_next = 0, h_oom = oom\<rparr>, s_mm = mm, s_ud = u\<rparr> = Map.empty"
  using init_ok [OF assms, of oom u] by blast

lemma mark_original_loop_ok:
  assumes "dll (s_cells s) (mm_nodes (s_mm s)) (xs @ ys)" "distinct (xs @ ys)" "length ys < fuel"
  shows "\<exists>s'. mark_original_loop fuel s (first_ptr ys) = Inr s' \<and> s_mm s' = s_mm s \<and> s_ud s' = s_ud s \<and>
    h_next (s_heap s') = h_next (s_heap s) \<and> h_oom (s_heap s') = h_oom (s_heap s) \<and>
    (\<forall>a. s_cells s' a = (if a \<in> set ys then map_option (\<lambda>n. n\<lparr>n_info := (n_info n)\<lparr>mi_original := True\<rparr>\<rparr>) (s_cells s a)
                         else s_cells s a))"
  using assms
proof (induction ys arbitrary: xs s fuel)
  case Nil
  then obtain f where "fuel = Suc f" by (cases fuel) auto
  then show ?case by auto
next
  case (Cons y ys)
  then obtain f where f: "fuel = Suc f" "length ys < f" by (cases fuel) auto
  obtain n where n: "s_cells s y = Some n" "n_next n = first_ptr ys" using Cons.prems(1) by (rule dll_node)
  let ?n = "n\<lparr>n_info := (n_info n)\<lparr>mi_original := True\<rparr>\<rparr>"
  let ?s = "set_cells s ((s_cells s)(y \<mapsto> ?n))"
  have "dll (s_cells ?s) (mm_nodes (s_mm ?s)) ((xs @ [y]) @ ys)"
    using Cons.prems(1) n(1) dll_upd_data [of "s_cells s" y n ?n] by simp
  from Cons.IH [OF this _ f(2)] Cons.prems(2) obtain s' where s': "mark_original_loop f ?s (first_ptr ys) = Inr s'"
      "s_mm s' = s_mm s" "s_ud s' = s_ud s" "h_next (s_heap s') = h_next (s_heap s)" "h_oom (s_heap s') = h_oom (s_heap s)"
      "\<forall>a. s_cells s' a = (if a \<in> set ys then map_option (\<lambda>n. n\<lparr>n_info := (n_info n)\<lparr>mi_original := True\<rparr>\<rparr>) (s_cells ?s a)
                         else s_cells ?s a)"
    by auto
  have "mark_original_loop fuel s (first_ptr (y # ys)) = Inr s'"
    using f(1) n s'(1) by (simp add: cell_simps)
  then show ?case using s' n(1) Cons.prems(2) by auto
qed

definition mark_seg :: "seg \<Rightarrow> seg" where
  "mark_seg x = (case x of (b, l, i) \<Rightarrow> (b, l, i\<lparr>mi_original := True\<rparr>))"

lemma segs_ok_mark: "segs_ok lo hi (map mark_seg xs) = segs_ok lo hi xs"
proof (induction xs arbitrary: lo)
  case (Cons x xs)
  then show ?case by (cases x) (simp add: mark_seg_def)
qed simp

lemma mark_original_ok:
  assumes "mm_wf s"
  shows "\<exists>s'. mm_mark_original s = Inr s' \<and> mm_wf s' \<and> s_mm s' = s_mm s \<and> s_ud s' = s_ud s \<and>
    mm_segs s' = map mark_seg (mm_segs s)"
proof -
  let ?as = "mm_addrs s"
  note wf = mm_wf_at [OF assms]
  have dll: "dll (s_cells s) (mm_nodes (s_mm s)) ([] @ ?as)" and dist: "distinct ([] @ ?as)"
    using wf by (simp_all add: wf_at_def)
  have len: "length ?as < walk_fuel s" using wf_at_length [OF wf] by simp
  have nodes: "mm_nodes (s_mm s) = first_ptr ?as" using dll dll_first by simp
  let ?mark = "\<lambda>n. n\<lparr>n_info := (n_info n)\<lparr>mi_original := True\<rparr>\<rparr>"
  obtain s' where s': "mark_original_loop (walk_fuel s) s (first_ptr ?as) = Inr s'" "s_mm s' = s_mm s"
      "s_ud s' = s_ud s" "h_next (s_heap s') = h_next (s_heap s)"
      "\<forall>a. s_cells s' a = (if a \<in> set ?as then map_option ?mark (s_cells s a) else s_cells s a)"
    using mark_original_loop_ok [OF dll dist len] by blast
  have "seg_of (the (s_cells s' a)) = mark_seg (seg_of (the (s_cells s a)))" if "a \<in> set ?as" for a
    using s'(5) that dll_cells [OF dll, of a] by (auto simp: seg_of_def mark_seg_def)
  then have seg: "segs_at (s_cells s') ?as = map mark_seg (segs_at (s_cells s) ?as)"
    by (simp add: segs_at_def)
  have lseg: "lseg (s_cells s') p pv bs q l = lseg (s_cells s) p pv bs q l" for p pv bs q l
  proof (induction bs arbitrary: p pv)
    case (Cons b bs)
    then show ?case using s'(5) by (cases "s_cells s b") (auto simp: map_option_case)
  qed simp
  have "dom (s_cells s') = dom (s_cells s)" using s'(5) by (auto simp: dom_def split: if_splits)
  then have "wf_at {} s' ?as"
    using wf s'(2,4) seg by (simp add: wf_at_def segs_ok_mark dll_def lseg)
  then show ?thesis
    using s'(1-3) seg wf_at_mm_wf wf_at_segs nodes unfolding mm_mark_original_def mm_segs_def by metis
qed

text \<open>
  Marking. \<open>mm_mark_original\<close> sets the \<open>original\<close> flag of every region and changes nothing else.
\<close>

theorem mm_mark_original_correct:
  assumes "mm_wf s"
  shows "\<exists>s'. mm_mark_original s = Inr s' \<and> mm_wf s' \<and> s_mm s' = s_mm s \<and> s_ud s' = s_ud s \<and>
    mm_segs s' = map mark_seg (mm_segs s)"
  using assms by (rule mark_original_ok)

lemma unm_all: "segs_ok lo hi xs \<Longrightarrow> a \<le> lo \<Longrightarrow> hi \<le> a + n \<Longrightarrow> unm a n xs = []"
proof (induction xs arbitrary: lo)
  case (Cons x xs)
  obtain b l i where x: "x = (b, l, i)" by (cases x)
  have xs: "segs_ok (b + l) hi xs" using Cons.prems by (simp add: x)
  have "a \<le> b + l" "a \<le> b" "b + l \<le> a + n" using Cons.prems segs_ok_le [OF xs] by (simp_all add: x)
  then show ?case using Cons.IH [OF xs _ Cons.prems(3)] by (simp add: x)
qed simp

lemma whole_space_req:
  assumes ok: "mm_ok mm" and len: "mm_len mm \<noteq> 0"
  shows "unmap_req mm (push_bit (mm_p2pagesize mm) (mm_base mm)) (push_bit (mm_p2pagesize mm) (mm_len mm))"
    "req_page mm (push_bit (mm_p2pagesize mm) (mm_base mm)) = unat (mm_base mm)"
    "req_pages mm (push_bit (mm_p2pagesize mm) (mm_len mm)) = unat (mm_len mm)"
proof -
  let ?p = "mm_p2pagesize mm" and ?b = "unat (mm_base mm)" and ?l = "unat (mm_len mm)"
  have ub: "unat (push_bit ?p (mm_base mm)) = ?b * 2 ^ ?p" using unat_push_page [OF ok] by simp
  have ul: "unat (push_bit ?p (mm_len mm)) = ?l * 2 ^ ?p" using unat_push_page [OF ok] by simp
  show b: "req_page mm (push_bit ?p (mm_base mm)) = ?b" by (simp add: ub)
  show l: "req_pages mm (push_bit ?p (mm_len mm)) = ?l" by (simp add: ul pages_up_mult)
  have "?l * 2 ^ ?p + 2 ^ ?p \<le> 2 ^ 64"
    using ok by (intro page_headroom) (simp_all add: mm_ok_def add_mult_distrib)
  moreover have "0 < (2 :: nat) ^ ?p" by simp
  ultimately have "?l * 2 ^ ?p + (2 ^ ?p - 1) < 2 ^ 64" by linarith
  moreover have "push_bit ?p (mm_len mm) \<noteq> 0"
  proof
    assume "push_bit ?p (mm_len mm) = 0"
    then have "?l * 2 ^ ?p = 0" using ul by simp
    then show False using len by (simp add: unat_0_iff)
  qed
  ultimately show "unmap_req mm (push_bit ?p (mm_base mm)) (push_bit ?p (mm_len mm))"
    using b l ub ul by (simp add: unmap_req_def)
qed

lemma unmap_ok:
  assumes "wf_at {} s as" "unmap_req (s_mm s) addr len" "\<not> h_oom (s_heap s) (h_next (s_heap s))"
  shows "\<exists>s' as'. mm_unmap s addr len = Inr (0, s') \<and> wf_at {} s' as' \<and> s_ud s' = s_ud s \<and>
    segs_at (s_cells s') as' = unm (req_page (s_mm s) addr) (req_pages (s_mm s) len) (segs_at (s_cells s) as) \<and>
    h_oom (s_heap s') = h_oom (s_heap s) \<and> mm_same (s_mm s) (s_mm s')"
  unfolding mm_unmap_def by (rule unmap_cb_ok [OF assms run_ufn_None]) blast

text \<open>
  C39: destruction. When the spare node can be allocated, \<open>mm_free\<close> unmaps every region and
  leaves no node allocated and no node on the list.
\<close>

theorem mm_free_correct:
  assumes "mm_wf s" "mm_len (s_mm s) \<noteq> 0" "\<not> h_oom (s_heap s) (h_next (s_heap s))"
  shows "\<exists>s'. mm_free s = Inr s' \<and> s_cells s' = Map.empty \<and> mm_nodes (s_mm s') = None \<and>
    mm_cursor (s_mm s') = None \<and> s_ud s' = s_ud s"
proof -
  let ?mm = "s_mm s"
  note wf = mm_wf_at [OF assms(1)]
  note req = whole_space_req [OF mm_wf_ok [OF assms(1)] assms(2)]
  obtain s' as' where s': "mm_unmap s (push_bit (mm_p2pagesize ?mm) (mm_base ?mm))
        (push_bit (mm_p2pagesize ?mm) (mm_len ?mm)) = Inr (0, s')" "wf_at {} s' as'" "s_ud s' = s_ud s"
      "segs_at (s_cells s') as' = unm (unat (mm_base ?mm)) (unat (mm_len ?mm)) (mm_segs s)"
    using unmap_ok [OF wf req(1) assms(3)] unfolding req(2,3) mm_segs_def by blast
  have "segs_at (s_cells s') as' = []"
    using s'(4) unm_all [OF mm_wf_segs [OF assms(1)] order_refl order_refl] by simp
  then have "as' = []" by (simp add: segs_at_def)
  then have "s_cells s' = Map.empty" "mm_nodes (s_mm s') = None" "mm_cursor (s_mm s') = None"
    using s'(2) by (auto simp: wf_at_def cursor_in_def split: option.splits)
  then show ?thesis using s'(1,3) by (simp add: mm_free_def Let_def free_node_def)
qed

lemma non_original_noop:
  assumes "dll (s_cells s) (mm_nodes (s_mm s)) (xs @ ys)" "length ys < fuel"
    "\<forall>a \<in> set ys. mi_original (n_info (the (s_cells s a)))"
  shows "unmap_non_original_loop fuel s (first_ptr ys) ufn = Inr s"
  using assms
proof (induction ys arbitrary: xs fuel)
  case Nil
  then obtain f where "fuel = Suc f" by (cases fuel) auto
  then show ?case by simp
next
  case (Cons y ys)
  then obtain f where f: "fuel = Suc f" "length ys < f" by (cases fuel) auto
  obtain n where n: "s_cells s y = Some n" "n_next n = first_ptr ys" using Cons.prems(1) by (rule dll_node)
  have "dll (s_cells s) (mm_nodes (s_mm s)) ((xs @ [y]) @ ys)" using Cons.prems(1) by simp
  from Cons.IH [OF this f(2)] Cons.prems(3) n f(1) show ?case by (simp add: cell_simps Let_def)
qed

text \<open>
  Dropping added mappings. When every region is marked original, \<open>mm_unmap_non_original\<close>
  visits the whole list and changes nothing.
\<close>

theorem mm_unmap_non_original_keeps:
  assumes "mm_wf s" "\<forall>(b, l, i) \<in> set (mm_segs s). mi_original i"
  shows "mm_unmap_non_original s ufn = Inr s"
proof -
  note wf = mm_wf_at [OF assms(1)]
  have dll: "dll (s_cells s) (mm_nodes (s_mm s)) ([] @ mm_addrs s)" using wf by (simp add: wf_at_def)
  have "\<forall>a \<in> set (mm_addrs s). mi_original (n_info (the (s_cells s a)))"
    using assms(2) by (auto simp: mm_segs_def segs_at_def seg_of_def)
  then have "unmap_non_original_loop (walk_fuel s) s (first_ptr (mm_addrs s)) ufn = Inr s"
    using non_original_noop [OF dll, of "walk_fuel s" ufn] wf_at_length [OF wf] by simp
  then show ?thesis using dll_first [OF dll] by (simp add: mm_unmap_non_original_def)
qed

section \<open>Sequences of requests\<close>

datatype mm_request =
    ReqUnmap u64 u64
  | ReqMapAt u64 u64 cint cint cint u64
  | ReqMapAny u64 cint cint cint u64

fun mm_serve :: "mm_request \<Rightarrow> 'u mstate \<Rightarrow> (u64 \<times> 'u mstate) res" where
  "mm_serve (ReqUnmap addr len) s = rbind (mm_unmap s addr len) (\<lambda>(r, s). Inr (int_to_u64 r, s))"
| "mm_serve (ReqMapAt addr len prot flags fd offset) s = mm_mapat s addr len prot flags fd offset"
| "mm_serve (ReqMapAny len prot flags fd offset) s = mm_mapany s len prot flags fd offset"

text \<open>The abstract address space: page size, first page, number of pages, page map.\<close>

record pmap =
  pm_shift :: nat
  pm_base :: nat
  pm_len :: nat
  pm_map :: "nat \<Rightarrow> MMInfo option"

definition mm_abs :: "'u mstate \<Rightarrow> pmap" where
  "mm_abs s = \<lparr>pm_shift = mm_p2pagesize (s_mm s), pm_base = unat (mm_base (s_mm s)),
     pm_len = unat (mm_len (s_mm s)), pm_map = mm_pages s\<rparr>"

definition pm_range :: "pmap \<Rightarrow> u64 \<Rightarrow> u64 \<Rightarrow> bool" where
  "pm_range a addr len \<longleftrightarrow> 2 ^ pm_shift a dvd unat addr \<and> len \<noteq> 0 \<and>
     unat len + (2 ^ pm_shift a - 1) < 2 ^ 64 \<and> pm_base a \<le> unat addr div 2 ^ pm_shift a \<and>
     unat addr div 2 ^ pm_shift a + pages_up (pm_shift a) (unat len) \<le> pm_base a + pm_len a"

definition pm_set :: "pmap \<Rightarrow> nat \<Rightarrow> nat \<Rightarrow> MMInfo option \<Rightarrow> pmap" where
  "pm_set a m n v = a\<lparr>pm_map := (\<lambda>q. if m \<le> q \<and> q < m + n then v else pm_map a q)\<rparr>"

fun pm_adm :: "mm_request \<Rightarrow> pmap \<Rightarrow> bool" where
  "pm_adm (ReqUnmap addr len) a \<longleftrightarrow> pm_range a addr len"
| "pm_adm (ReqMapAt addr len _ _ _ _) a \<longleftrightarrow> pm_range a addr len"
| "pm_adm (ReqMapAny len _ _ _ _) a \<longleftrightarrow> len \<noteq> 0 \<and> unat len + (2 ^ pm_shift a - 1) < 2 ^ 64"

fun pm_spec :: "mm_request \<Rightarrow> u64 \<Rightarrow> pmap \<Rightarrow> pmap \<Rightarrow> bool" where
  "pm_spec (ReqUnmap addr len) r a a' \<longleftrightarrow>
     r = 0 \<and> a' = pm_set a (unat addr div 2 ^ pm_shift a) (pages_up (pm_shift a) (unat len)) None"
| "pm_spec (ReqMapAt addr len prot flags fd offset) r a a' \<longleftrightarrow>
     r = addr \<and> a' = pm_set a (unat addr div 2 ^ pm_shift a) (pages_up (pm_shift a) (unat len))
                       (Some (new_info prot flags fd offset))"
| "pm_spec (ReqMapAny len prot flags fd offset) r a a' \<longleftrightarrow>
     r = -1 \<and> a' = a \<or>
     (\<exists>m. unat r = m * 2 ^ pm_shift a \<and> pm_base a \<le> m \<and>
        m + pages_up (pm_shift a) (unat len) \<le> pm_base a + pm_len a \<and>
        (\<forall>q. m \<le> q \<and> q < m + pages_up (pm_shift a) (unat len) \<longrightarrow> pm_map a q = None) \<and>
        a' = pm_set a m (pages_up (pm_shift a) (unat len)) (Some (new_info prot flags fd offset)))"

lemma pm_range_req: "pm_range (mm_abs s) addr len = unmap_req (s_mm s) addr len"
  by (simp add: pm_range_def unmap_req_def mm_abs_def)

lemma mm_abs_cong:
  "mm_same (s_mm s) (s_mm s') \<Longrightarrow>
   mm_pages s' = (\<lambda>q. if m \<le> q \<and> q < m + n then v else mm_pages s q) \<Longrightarrow> mm_abs s' = pm_set (mm_abs s) m n v"
  by (simp add: mm_abs_def pm_set_def mm_same_def cong: if_cong)

text \<open>Invariant of a run in which \<open>malloc\<close> never fails.\<close>

definition mm_inv :: "'u mstate \<Rightarrow> bool" where
  "mm_inv s \<longleftrightarrow> mm_wf s \<and> h_oom (s_heap s) = (\<lambda>_. False)"

lemma serve_unmap:
  assumes "mm_inv s" "pm_range (mm_abs s) addr len"
  shows "\<exists>v s'. mm_serve (ReqUnmap addr len) s = Inr (v, s') \<and> mm_inv s' \<and>
    pm_spec (ReqUnmap addr len) v (mm_abs s) (mm_abs s')"
proof -
  let ?A = "req_page (s_mm s) addr" and ?N = "req_pages (s_mm s) len"
  have wf: "mm_wf s" and oom: "h_oom (s_heap s) = (\<lambda>_. False)" using assms(1) by (simp_all add: mm_inv_def)
  have req: "unmap_req (s_mm s) addr len" using assms(2) by (simp add: pm_range_req)
  obtain s' as' where s': "mm_unmap s addr len = Inr (0, s')" "wf_at {} s' as'"
      "segs_at (s_cells s') as' = unm ?A ?N (mm_segs s)" "h_oom (s_heap s') = h_oom (s_heap s)"
      "mm_same (s_mm s) (s_mm s')"
    using unmap_ok [OF mm_wf_at [OF wf] req] oom unfolding mm_segs_def by auto
  have "mm_pages s' = (\<lambda>q. if ?A \<le> q \<and> q < ?A + ?N then None else mm_pages s q)"
    using s'(3) wf_at_segs [OF s'(2)] pages_of_unm [OF mm_wf_segs [OF wf], of ?A ?N] by auto
  then have "mm_abs s' = pm_set (mm_abs s) ?A ?N None" using s'(5) by (intro mm_abs_cong)
  moreover have "mm_inv s'" using wf_at_mm_wf [OF s'(2)] s'(4) oom by (simp add: mm_inv_def)
  ultimately show ?thesis using s'(1) by (simp add: int_to_u64_def mm_abs_def)
qed

lemma serve_mapat:
  assumes "mm_inv s" "pm_range (mm_abs s) addr len"
  shows "\<exists>v s'. mm_serve (ReqMapAt addr len prot flags fd offset) s = Inr (v, s') \<and> mm_inv s' \<and>
    pm_spec (ReqMapAt addr len prot flags fd offset) v (mm_abs s) (mm_abs s')"
proof -
  let ?A = "req_page (s_mm s) addr" and ?N = "req_pages (s_mm s) len" and ?i = "new_info prot flags fd offset"
  have wf: "mm_wf s" and oom: "h_oom (s_heap s) = (\<lambda>_. False)" using assms(1) by (simp_all add: mm_inv_def)
  have req: "unmap_req (s_mm s) addr len" using assms(2) by (simp add: pm_range_req)
  note ck = unmap_req_checks [OF mm_wf_ok [OF wf] req]
  note ok = mm_wf_segs [OF wf]
  obtain s' as' where s': "mm_mapat_cb s addr len prot flags fd offset None = Inr (addr, s')" "wf_at {} s' as'"
      "segs_at (s_cells s') as' = ins_seg (?A, ?N, ?i) (unm ?A ?N (segs_at (s_cells s) (mm_addrs s)))"
      "mm_same (s_mm s) (s_mm s')" "h_oom (s_heap s') = h_oom (s_heap s)"
    by (rule mapat_cb_ok [OF mm_wf_at [OF wf] req _ _ run_ufn_None]) (simp_all add: oom)
  have seg: "mm_segs s' = ins_seg (?A, ?N, ?i) (unm ?A ?N (mm_segs s))"
    using s'(3) wf_at_segs [OF s'(2)] by (simp add: mm_segs_def)
  have "mm_pages s' q = (if ?A \<le> q \<and> q < ?A + ?N then Some ?i else mm_pages s q)" for q
    using ins_free_pages [OF unm_ok [OF ok] unm_range_free [OF ok ck(7)] ck(7), of ?A ?i q]
      req pages_of_unm [OF ok, of ?A ?N q] seg by (simp add: unmap_req_def)
  then have "mm_abs s' = pm_set (mm_abs s) ?A ?N (Some ?i)" using s'(4) by (intro mm_abs_cong) auto
  moreover have "mm_inv s'" using wf_at_mm_wf [OF s'(2)] s'(5) oom by (simp add: mm_inv_def)
  ultimately show ?thesis using s'(1) by (simp add: mm_mapat_def mm_abs_def)
qed

lemma serve_mapany:
  assumes "mm_inv s" "pm_adm (ReqMapAny len prot flags fd offset) (mm_abs s)"
  shows "\<exists>v s'. mm_serve (ReqMapAny len prot flags fd offset) s = Inr (v, s') \<and> mm_inv s' \<and>
    pm_spec (ReqMapAny len prot flags fd offset) v (mm_abs s) (mm_abs s')"
proof -
  let ?N = "req_pages (s_mm s) len" and ?i = "new_info prot flags fd offset"
  have wf: "mm_wf s" and oom: "h_oom (s_heap s) = (\<lambda>_. False)" using assms(1) by (simp_all add: mm_inv_def)
  have req: "any_req (s_mm s) len" using assms(2) by (simp add: any_req_def mm_abs_def)
  note ck = any_req_checks [OF mm_wf_ok [OF wf] req]
  obtain r s' where R: "mm_mapany s len prot flags fd offset = Inr (r, s')"
      "(r = -1 \<and> s' = s \<and> fit_from s len (mm_segs s) = None) \<or> (\<exists>m. mapped_any s len ?i m r s')"
    using mapany_ok [OF mm_wf_at [OF wf] req, of prot flags fd offset] oom by auto
  have hit: "mm_inv s' \<and> pm_spec (ReqMapAny len prot flags fd offset) r (mm_abs s) (mm_abs s')"
    if m: "mapped_any s len ?i m r s'" for m
  proof -
    have free: "range_free m ?N (mm_segs s)" and lo: "unat (mm_base (s_mm s)) \<le> m"
      and hi: "m + ?N \<le> unat (mm_base (s_mm s)) + unat (mm_len (s_mm s))"
      and seg: "mm_segs s' = ins_seg (m, ?N, ?i) (mm_segs s)"
      using m by (simp_all add: mapped_any_def)
    have "mm_pages s' = (\<lambda>q. if m \<le> q \<and> q < m + ?N then Some ?i else mm_pages s q)"
      unfolding seg using ins_free_pages [OF mm_wf_segs [OF wf] free ck(3) lo hi] by auto
    then have "mm_abs s' = pm_set (mm_abs s) m ?N (Some ?i)" using m by (intro mm_abs_cong) (auto simp: mapped_any_def)
    then show ?thesis
      using m range_free_pages [OF free] oom by (auto simp: mapped_any_def mm_inv_def mm_abs_def)
  qed
  show ?thesis using R(2)
  proof (elim disjE exE)
    assume "r = -1 \<and> s' = s \<and> fit_from s len (mm_segs s) = None"
    then show ?thesis using R(1) assms(1) by auto
  qed (use R(1) hit in auto)
qed

interpretation mmap: server mm_inv mm_abs mm_serve pm_adm pm_spec
proof
  fix s :: "'u mstate" and r
  assume "mm_inv s" "pm_adm r (mm_abs s)"
  then show "\<exists>v s'. mm_serve r s = Inr (v, s') \<and> mm_inv s' \<and> pm_spec r v (mm_abs s) (mm_abs s')"
  proof (cases r)
    case ReqUnmap
    then show ?thesis using \<open>mm_inv s\<close> \<open>pm_adm r (mm_abs s)\<close> by (simp only: pm_adm.simps serve_unmap)
  next
    case ReqMapAt
    then show ?thesis using \<open>mm_inv s\<close> \<open>pm_adm r (mm_abs s)\<close> by (simp only: pm_adm.simps serve_mapat)
  next
    case ReqMapAny
    then show ?thesis using \<open>mm_inv s\<close> \<open>pm_adm r (mm_abs s)\<close> serve_mapany by (simp only:)
  qed
next
  fix r v a a' r'
  assume "pm_spec r v a a'" "pm_adm r' a"
  moreover have "pm_spec r v a a' \<Longrightarrow> pm_shift a' = pm_shift a \<and> pm_base a' = pm_base a \<and> pm_len a' = pm_len a"
    by (cases r) (auto simp: pm_set_def)
  ultimately show "pm_adm r' a'"
    by (cases r') (auto simp: pm_range_def)
qed

text \<open>
  C6: sequences of requests. While memory lasts, any sequence of admissible unmap, map-at and
  map-anywhere requests, in any order, is served without a fault and keeps the list well formed;
  the answers and the final page map are those of the abstract address space, in which each
  request changes exactly its own range and a map-anywhere never covers a mapped page.
\<close>

theorem mm_requests_refine:
  assumes "mm_inv s" "\<forall>r \<in> set rs. pm_adm r (mm_abs s)"
  shows "\<exists>vs s'. run_reqs mm_serve rs s = Inr (vs, s') \<and> mm_inv s' \<and> spec_run pm_spec rs vs (mm_abs s) (mm_abs s')"
  using assms by (rule mmap.serve_all)

section \<open>A concrete address space\<close>

text \<open>Sixteen pages of 4 KiB from page 16, with pages 18 to 21 mapped by one region.\<close>

definition demo_node :: MMNode where
  "demo_node = \<lparr>n_base = 18, n_len = 4, n_info = new_info 3 2 7 0, n_next = None, n_prev = None\<rparr>"

definition demo_space :: "(nat \<Rightarrow> bool) \<Rightarrow> unit mstate" where
  "demo_space oom = \<lparr>s_heap = \<lparr>h_cells = [0 \<mapsto> demo_node], h_next = 1, h_oom = oom\<rparr>,
     s_mm = \<lparr>mm_base = 16, mm_len = 16, mm_p2pagesize = 12, mm_nodes = Some 0, mm_cursor = Some 0\<rparr>,
     s_ud = ()\<rparr>"

lemma demo_wf: "mm_wf (demo_space oom)"
proof -
  have "wf_at {} (demo_space oom) [0]"
    by (auto simp: wf_at_def demo_space_def demo_node_def dll_def mm_ok_def seg_of_def)
  then show ?thesis by (rule wf_at_mm_wf)
qed

lemma demo_segs: "mm_segs (demo_space oom) = [(18, 4, new_info 3 2 7 0)]"
  by (simp add: mm_segs_def mm_addrs_def demo_space_def demo_node_def seg_of_def)

lemma demo_mm [simp]: "s_mm (demo_space oom) =
   \<lparr>mm_base = 16, mm_len = 16, mm_p2pagesize = 12, mm_nodes = Some 0, mm_cursor = Some 0\<rparr>"
  "h_oom (s_heap (demo_space oom)) = oom" "h_next (s_heap (demo_space oom)) = 1" "s_ud (demo_space oom) = ()"
  by (simp_all add: demo_space_def)

lemma demo_req: "unmap_req (s_mm (demo_space oom)) 0x13000 0x1001"
  by (simp add: unmap_req_def pages_up_def)


theorem mm_unmap_cb_correct_witness:
  "\<exists>s'. mm_unmap_cb (demo_space (\<lambda>_. False)) 0x13000 0x1001 None = Inr (0, s') \<and> mm_wf s' \<and>
    mm_segs s' = [(18, 1, new_info 3 2 7 0), (21, 1, new_info 3 2 7 0)]"
  using mm_unmap_cb_correct [OF demo_wf demo_req, of "\<lambda>_. False" None "()"]
  by (auto simp: demo_segs pages_up_def)


theorem mm_mapat_cb_correct_witness:
  "\<exists>s'. mm_mapat_cb (demo_space (\<lambda>_. False)) 0x13000 0x1001 1 2 9 0 None = Inr (0x13000, s') \<and> mm_wf s' \<and>
    mm_pages s' 20 = Some (new_info 1 2 9 0) \<and> mm_pages s' 21 = Some (new_info 3 2 7 0)"
  using mm_mapat_cb_correct [OF demo_wf demo_req, of "\<lambda>_. False" None "()" 1 2 9 0]
  by (auto simp: demo_segs pages_up_def)

theorem mm_mapany_correct_witness:
  "\<exists>r s'. mm_mapany (demo_space (\<lambda>_. False)) 0x3000 1 2 9 0 = Inr (r, s') \<and> mm_wf s' \<and> r \<noteq> -1"
  using mm_mapany_correct [OF demo_wf, of "\<lambda>_. False" "0x3000" 1 2 9 0]
  by (auto simp: any_req_def demo_segs pages_up_def scan_from_def)

theorem mm_init_correct_witness:
  "\<exists>mm. mm_init 0x10000 0x10000 (2 ^ 12) = Inr (True, mm) \<and>
    mm_wf \<lparr>s_heap = \<lparr>h_cells = Map.empty, h_next = 0, h_oom = (\<lambda>_. False)\<rparr>, s_mm = mm, s_ud = ()\<rparr>"
  using mm_init_correct [of 12 "0x10000" "0x10000" "\<lambda>_. False" "()"] by auto

theorem mm_mark_original_correct_witness:
  "\<exists>s'. mm_mark_original (demo_space (\<lambda>_. False)) = Inr s' \<and>
    mm_segs s' = [(18, 4, (new_info 3 2 7 0)\<lparr>mi_original := True\<rparr>)]"
  using mm_mark_original_correct [OF demo_wf, of "\<lambda>_. False"] by (auto simp: demo_segs mark_seg_def)

theorem mm_free_correct_witness:
  "\<exists>s'. mm_free (demo_space (\<lambda>_. False)) = Inr s' \<and> s_cells s' = Map.empty"
  using mm_free_correct [OF demo_wf, of "\<lambda>_. False"] by auto

theorem mm_unmap_non_original_keeps_witness:
  "\<exists>s :: unit mstate. mm_unmap_non_original s None = Inr s \<and> mm_segs s = [(18, 4, (new_info 3 2 7 0)\<lparr>mi_original := True\<rparr>)]"
proof -
  obtain s :: "unit mstate" where s: "mm_wf s" "mm_segs s = map mark_seg (mm_segs (demo_space (\<lambda>_. False)))"
    using mark_original_ok [OF demo_wf, of "\<lambda>_. False"] by blast
  have "mm_unmap_non_original s None = Inr s"
    by (rule mm_unmap_non_original_keeps [OF s(1)]) (simp add: s(2) demo_segs mark_seg_def)
  then show ?thesis using s(2) by (auto simp: demo_segs mark_seg_def)
qed

theorem mm_requests_refine_witness:
  "\<exists>vs s'. run_reqs mm_serve [ReqUnmap 0x13000 0x1001, ReqMapAny 0x3000 1 2 9 0] (demo_space (\<lambda>_. False)) = Inr (vs, s') \<and>
    mm_inv s' \<and> spec_run pm_spec [ReqUnmap 0x13000 0x1001, ReqMapAny 0x3000 1 2 9 0] vs
      (mm_abs (demo_space (\<lambda>_. False))) (mm_abs s')"
  by (rule mm_requests_refine)
    (simp_all add: mm_inv_def demo_wf pm_range_req demo_req del: demo_mm(1), simp add: mm_abs_def)

section \<open>What the clients must avoid\<close>

text \<open>
  A region that is not marked original is freed by \<open>mm_unmap_cb\<close> while
  \<open>mm_unmap_non_original\<close> still reads its \<open>next\<close> pointer; a zero length makes \<open>mm_mapat\<close> abort
  (the inner unmap refuses it) and makes \<open>mm_mapany\<close> put an empty region on the list.
\<close>

lemma mm_unmap_non_original_uaf:
  "fault_of (mm_unmap_non_original (demo_space (\<lambda>_. False)) None) = Some UseAfterFree"
  by code_simp

lemma mm_mapat_zero_length_aborts:
  "fault_of (mm_mapat (demo_space (\<lambda>_. False)) 0x10000 0 3 2 7 0) = Some AssertFail"
  by code_simp

lemma mm_mapany_zero_length:
  "map_sum id (\<lambda>(r, s'). (r, mm_segs s')) (mm_mapany (demo_space (\<lambda>_. False)) 0 3 2 7 0) =
   Inr (0x12000, [(18, 0, new_info 3 2 7 0), (18, 4, new_info 3 2 7 0)])"
  by code_simp

end
