(* ===== verification/Hostvm.thy ===== *)
theory Hostvm
  imports Prelude
begin

text \<open>
  The host's memory services that the sandbox engine calls: \<open>mmap\<close>, \<open>munmap\<close>, \<open>mprotect\<close> of the
  kernel and \<open>malloc\<close>. They are not part of the program, so they are parameters: a record of
  functions on a host state \<open>'h\<close>. What a property relies on is stated as a hypothesis about
  the record, and \<open>bump_host\<close> is an instance that meets these hypotheses.
\<close>

record 'h hostvm =
  hv_mmap :: "u64 \<Rightarrow> u64 \<Rightarrow> cint \<Rightarrow> cint \<Rightarrow> cint \<Rightarrow> u64 \<Rightarrow> 'h \<Rightarrow> u64 \<times> 'h"
  hv_munmap :: "u64 \<Rightarrow> u64 \<Rightarrow> 'h \<Rightarrow> cint \<times> 'h"
  hv_mprotect :: "u64 \<Rightarrow> u64 \<Rightarrow> cint \<Rightarrow> 'h \<Rightarrow> cint \<times> 'h"
  hv_malloc :: "u64 \<Rightarrow> 'h \<Rightarrow> bool \<times> 'h"

definition PROT_NONE :: cint where "PROT_NONE = 0"
definition MAP_SHARED :: cint where "MAP_SHARED = 0x01"
definition MAP_PRIVATE :: cint where "MAP_PRIVATE = 0x02"
definition MAP_FIXED :: cint where "MAP_FIXED = 0x10"
definition MAP_ANONYMOUS :: cint where "MAP_ANONYMOUS = 0x20"

text \<open>
  A request with \<open>MAP_FIXED\<close> at a page-aligned address either fails or is placed exactly there
  (mmap(2)).
\<close>

definition fixed_or_fail :: "'h hostvm \<Rightarrow> bool" where
  "fixed_or_fail hv \<longleftrightarrow>
     (\<forall>a n prot flags fd off h.
        fst (hv_mmap hv a n prot (flags OR MAP_FIXED) fd off h) \<in> {a, -1})"

text \<open>A host that hands out fresh addresses from a counter and refuses only empty mappings.\<close>

definition bump_host :: "u64 hostvm" where
  "bump_host = \<lparr>
     hv_mmap = (\<lambda>a n prot flags fd off h.
       if n = 0 then (-1, h) else if a \<noteq> 0 then (a, h) else (h, h + n)),
     hv_munmap = (\<lambda>a n h. (0, h)),
     hv_mprotect = (\<lambda>a n prot h. (0, h)),
     hv_malloc = (\<lambda>n h. (True, h))\<rparr>"

text \<open>A host that places every mapping where asked and keeps a log of the ranges.\<close>

definition log_host :: "(u64 \<times> u64) list hostvm" where
  "log_host = \<lparr>
     hv_mmap = (\<lambda>a n prot flags fd off h. if n = 0 then (-1, h) else (a, h @ [(a, n)])),
     hv_munmap = (\<lambda>a n h. (0, h)),
     hv_mprotect = (\<lambda>a n prot h. (0, h)),
     hv_malloc = (\<lambda>n h. (True, h))\<rparr>"

end
