(* ===== verification/Boxmap_Spec.thy ===== *)
theory Boxmap_Spec
  imports Boxmap
begin

text \<open>
  Correctness of the box allocator: a region's bit vector is the set of its taken chunks, the
  operations add and remove single chunks, and across regions the allocator hands out
  chunk-aligned addresses inside the reserved space that no live box has.
\<close>

section \<open>Bit vectors as sets\<close>

definition bv_get :: "u8 list \<Rightarrow> nat \<Rightarrow> bool" where
  "bv_get v i = bit (v ! (i div 8)) (7 - i mod 8)"

lemma bv_bit_ok: "unat i < 8 * length v \<Longrightarrow> bv_bit v i = Inr (bv_get v (unat i))"
  by (simp add: bv_bit_def bv_get_def Let_def less_mult_imp_div_less mult.commute)

lemma u8_set_bit:
  "k < 8 \<Longrightarrow> m < 8 \<Longrightarrow> bit ((x :: u8) OR 2 ^ k) m = (m = k \<or> bit x m)"
  "k < 8 \<Longrightarrow> m < 8 \<Longrightarrow> bit ((x :: u8) AND NOT (2 ^ k)) m = (m \<noteq> k \<and> bit x m)"
  by (auto simp: bit_simps)

lemma same_bit_index:
  fixes i j :: nat
  assumes "i div 8 = j div 8"
  shows "7 - i mod 8 = 7 - j mod 8 \<longleftrightarrow> i = j"
proof
  assume "7 - i mod 8 = 7 - j mod 8"
  moreover have "i mod 8 < 8" "j mod 8 < 8" by simp_all
  ultimately have "i mod 8 = j mod 8" by linarith
  then show "i = j" using assms by (metis div_mult_mod_eq)
qed simp

lemma bv_get_upd:
  assumes "i < 8 * length v"
  shows "bv_get (v[i div 8 := (if val then v ! (i div 8) OR push_bit (7 - i mod 8) 1
            else v ! (i div 8) AND NOT (push_bit (7 - i mod 8) 1))]) j =
    (if j = i then val else bv_get v j)"
proof (cases "j div 8 = i div 8")
  case True
  have "i div 8 < length v" using assms by (simp add: less_mult_imp_div_less mult.commute)
  moreover have "7 - i mod 8 < 8" "7 - j mod 8 < 8" by simp_all
  ultimately show ?thesis
    using True same_bit_index [OF True]
    by (simp add: bv_get_def u8_set_bit del: bit_or_iff bit_and_iff)
next
  case False
  then show ?thesis by (auto simp: bv_get_def)
qed

lemma bitvec_set_loop_ok:
  assumes "unat i + k \<le> 8 * length v" "8 * length v < 2 ^ 64"
  shows "\<exists>v'. bitvec_set_loop k v i val = Inr v' \<and> length v' = length v \<and>
    (\<forall>j. bv_get v' j = (if unat i \<le> j \<and> j < unat i + k then val else bv_get v j))"
  using assms
proof (induction k arbitrary: i v)
  case (Suc k)
  let ?i = "unat i"
  let ?v = "v[?i div 8 := (if val then v ! (?i div 8) OR push_bit (7 - ?i mod 8) 1
      else v ! (?i div 8) AND NOT (push_bit (7 - ?i mod 8) 1))]"
  have i: "?i < 8 * length v" using Suc.prems by simp
  then have byte: "?i div 8 < length v" by (simp add: less_mult_imp_div_less mult.commute)
  have next_i: "unat (i + 1) = ?i + 1" using Suc.prems by (intro unat_Suc_u64) simp
  have len: "length ?v = length v" by simp
  obtain v' where v': "bitvec_set_loop k ?v (i + 1) val = Inr v'" "length v' = length v"
      "\<forall>j. bv_get v' j = (if ?i + 1 \<le> j \<and> j < ?i + 1 + k then val else bv_get ?v j)"
    using Suc.IH [of "i + 1" ?v] Suc.prems next_i by auto
  have "bitvec_set_loop (Suc k) v i val = Inr v'" using byte v'(1) by (simp add: Let_def)
  moreover have "\<forall>j. bv_get v' j = (if ?i \<le> j \<and> j < ?i + Suc k then val else bv_get v j)"
    using v'(3) bv_get_upd [OF i, of val] by auto
  ultimately show ?case using v'(2) by blast
qed auto

lemma is_full_loop_ok:
  assumes "unat i + k \<le> 8 * length v" "8 * length v < 2 ^ 64"
  shows "is_full_loop k v i = Inr (\<forall>j. unat i \<le> j \<and> j < unat i + k \<longrightarrow> bv_get v j)"
  using assms
proof (induction k arbitrary: i)
  case (Suc k)
  have next_i: "unat (i + 1) = unat i + 1" using Suc.prems by (intro unat_Suc_u64) simp
  have b: "bv_bit v i = Inr (bv_get v (unat i))" using Suc.prems by (intro bv_bit_ok) simp
  have "is_full_loop k v (i + 1) = Inr (\<forall>j. unat i + 1 \<le> j \<and> j < unat i + 1 + k \<longrightarrow> bv_get v j)"
    using Suc.IH [of "i + 1"] Suc.prems next_i by simp
  moreover have "(\<forall>j. unat i \<le> j \<and> j < unat i + Suc k \<longrightarrow> bv_get v j) \<longleftrightarrow>
      bv_get v (unat i) \<and> (\<forall>j. unat i + 1 \<le> j \<and> j < unat i + 1 + k \<longrightarrow> bv_get v j)"
    by (auto simp: Suc_le_eq dest: le_neq_implies_less)
  ultimately show ?case using b by simp
qed auto

lemma find_one_ok:
  assumes "unat i \<le> z" "z < unat i + k" "z < 8 * length v" "8 * length v < 2 ^ 64"
    "\<forall>j. unat i \<le> j \<and> j < z \<longrightarrow> bv_get v j" "\<not> bv_get v z"
  shows "find_zeroes_loop v 1 k i 0 = Inr (of_nat z)"
  using assms
proof (induction k arbitrary: i)
  case (Suc k)
  have b: "bv_bit v i = Inr (bv_get v (unat i))" using Suc.prems by (intro bv_bit_ok) simp
  show ?case
  proof (cases "unat i = z")
    case True
    then show ?thesis using b Suc.prems(6) by (auto simp: Let_def)
  next
    case False
    have next_i: "unat (i + 1) = unat i + 1" using Suc.prems by (intro unat_Suc_u64) simp
    have "bv_get v (unat i)" using False Suc.prems by auto
    then show ?thesis using Suc.IH [of "i + 1"] Suc.prems next_i b False by simp
  qed
qed simp

section \<open>One region\<close>

definition ea_wf :: "ExtAlloc \<Rightarrow> bool" where
  "ea_wf a \<longleftrightarrow> length (ea_bitvec a) = unat (ea_size a) div 8 + 1 \<and> 8 \<le> unat (ea_chunksize a) \<and>
     (unat (ea_base a) + unat (ea_size a)) * unat (ea_chunksize a) < 2 ^ 64"

text \<open>The taken chunks of a region, and the address of a chunk.\<close>

definition slots :: "ExtAlloc \<Rightarrow> nat set" where
  "slots a = {i. i < unat (ea_size a) \<and> bv_get (ea_bitvec a) i}"

definition chunk_addr :: "ExtAlloc \<Rightarrow> nat \<Rightarrow> nat" where
  "chunk_addr a i = (unat (ea_base a) + i) * unat (ea_chunksize a)"

definition ea_same :: "ExtAlloc \<Rightarrow> ExtAlloc \<Rightarrow> bool" where
  "ea_same a a' \<longleftrightarrow> ea_base a' = ea_base a \<and> ea_size a' = ea_size a \<and> ea_chunksize a' = ea_chunksize a"

lemma ea_wf_small: "ea_wf a \<Longrightarrow> unat (ea_size a) * 8 < 2 ^ 64"
proof -
  assume wf: "ea_wf a"
  have "unat (ea_size a) * 8 \<le> unat (ea_size a) * unat (ea_chunksize a)"
    using wf by (intro mult_le_mono2) (simp add: ea_wf_def)
  also have "\<dots> \<le> (unat (ea_base a) + unat (ea_size a)) * unat (ea_chunksize a)"
    by (intro mult_le_mono1) simp
  also have "\<dots> < 2 ^ 64" using wf by (simp add: ea_wf_def)
  finally show ?thesis .
qed

lemma ea_wf_bits: "ea_wf a \<Longrightarrow> unat (ea_size a) < 8 * length (ea_bitvec a) \<and> 8 * length (ea_bitvec a) < 2 ^ 64"
proof -
  assume wf: "ea_wf a"
  have lim: "unat (ea_size a) * unat (ea_chunksize a) < 2 ^ 64" "8 \<le> unat (ea_chunksize a)"
    using wf by (auto simp: ea_wf_def add_mult_distrib)
  have "unat (ea_size a) < 2 ^ 61"
  proof (rule ccontr)
    assume "\<not> unat (ea_size a) < 2 ^ 61"
    then have "2 ^ 61 * 8 \<le> unat (ea_size a) * unat (ea_chunksize a)"
      using lim(2) by (intro mult_le_mono) simp_all
    then show False using lim(1) by simp
  qed
  moreover have "length (ea_bitvec a) = unat (ea_size a) div 8 + 1" using wf by (simp add: ea_wf_def)
  ultimately show ?thesis by simp arith
qed

lemma unat_chunk_addr:
  assumes "ea_wf a" "i < unat (ea_size a)"
  shows "unat ((ea_base a + of_nat i) * ea_chunksize a) = chunk_addr a i"
proof -
  have i: "unat (of_nat i :: u64) = i"
    by (rule unat_of_nat_u64 [OF less_trans [OF assms(2) unat_lt_2p64]])
  have lim: "(unat (ea_base a) + unat (ea_size a)) * unat (ea_chunksize a) < 2 ^ 64" "0 < unat (ea_chunksize a)"
    using assms(1) by (auto simp: ea_wf_def)
  have le: "(unat (ea_base a) + i) * unat (ea_chunksize a) < 2 ^ 64"
    by (rule le_less_trans [OF mult_le_mono1 lim(1)]) (use assms(2) in simp)
  have "unat (ea_base a) + i < 2 ^ 64" by (rule le_less_trans [OF _ le]) (use lim(2) in simp)
  then have "unat (ea_base a + of_nat i) = unat (ea_base a) + i"
    using i by (subst unat_add_nowrap) simp_all
  then show ?thesis
    using le by (simp add: chunk_addr_def unat_word_ariths)
qed

lemma is_full_iff: "ea_wf a \<Longrightarrow> extalloc_is_full a = Inr (slots a = {..<unat (ea_size a)})"
proof -
  assume wf: "ea_wf a"
  have "extalloc_is_full a = Inr (\<forall>j. 0 \<le> j \<and> j < 0 + unat (ea_size a) \<longrightarrow> bv_get (ea_bitvec a) j)"
    unfolding extalloc_is_full_def
    using is_full_loop_ok [of 0 "unat (ea_size a)" "ea_bitvec a"] ea_wf_bits [OF wf] by simp
  moreover have "(\<forall>j. 0 \<le> j \<and> j < 0 + unat (ea_size a) \<longrightarrow> bv_get (ea_bitvec a) j) \<longleftrightarrow>
      slots a = {..<unat (ea_size a)}"
    by (auto simp: slots_def)
  ultimately show ?thesis by simp
qed

lemma mark_chunk_ok:
  assumes wf: "ea_wf a" and i: "i < unat (ea_size a)"
  obtains v where "bitvec_set (ea_bitvec a) (of_nat i) 1 val = Inr v"
    "ea_wf (a\<lparr>ea_bitvec := v\<rparr>)" "ea_same a (a\<lparr>ea_bitvec := v\<rparr>)"
    "slots (a\<lparr>ea_bitvec := v\<rparr>) = (if val then insert i (slots a) else slots a - {i})"
proof -
  note bits = ea_wf_bits [OF wf]
  have ui: "unat (of_nat i :: u64) = i" by (rule unat_of_nat_u64 [OF less_trans [OF i unat_lt_2p64]])
  obtain v where v: "bitvec_set_loop 1 (ea_bitvec a) (of_nat i) val = Inr v" "length v = length (ea_bitvec a)"
      "\<forall>j. bv_get v j = (if i \<le> j \<and> j < i + 1 then val else bv_get (ea_bitvec a) j)"
    using bitvec_set_loop_ok [of "of_nat i" 1 "ea_bitvec a" val] bits i unfolding ui by auto
  have "bitvec_set (ea_bitvec a) (of_nat i) 1 val = Inr v"
    using v(1) by (simp add: bitvec_set_def)
  then show thesis
  proof (rule that)
    show "slots (a\<lparr>ea_bitvec := v\<rparr>) = (if val then insert i (slots a) else slots a - {i})"
      using v(3) i by (auto simp: slots_def)
  qed (use wf v(2) in \<open>auto simp: ea_wf_def ea_same_def\<close>)
qed

lemma chunk_word_facts:
  assumes "ea_wf a"
  shows "ea_chunksize a \<noteq> 0" "ea_chunksize a mod ea_chunksize a = 0" "ea_chunksize a div ea_chunksize a = 1"
proof -
  show nz: "ea_chunksize a \<noteq> 0" using assms by (auto simp: ea_wf_def)
  show "ea_chunksize a mod ea_chunksize a = 0" by simp
  have "unat (ea_chunksize a div ea_chunksize a) = 1"
    using assms by (simp add: unat_div ea_wf_def)
  then show "ea_chunksize a div ea_chunksize a = 1" by (simp add: u64_eq_iff)
qed

lemma extalloc_alloc_ok:
  assumes wf: "ea_wf a" and room: "slots a \<noteq> {..<unat (ea_size a)}"
  obtains i p a' where "extalloc_alloc a (ea_chunksize a) = Inr (p, a')" "unat p = chunk_addr a i"
    "i < unat (ea_size a)" "i \<notin> slots a" "\<forall>j < i. j \<in> slots a"
    "slots a' = insert i (slots a)" "ea_wf a'" "ea_same a a'"
proof -
  let ?n = "unat (ea_size a)" and ?v = "ea_bitvec a"
  define i where "i = (LEAST i. i < ?n \<and> \<not> bv_get ?v i)"
  have "\<exists>i. i < ?n \<and> \<not> bv_get ?v i" using room by (auto simp: slots_def)
  then have i: "i < ?n" "\<not> bv_get ?v i" unfolding i_def by (metis (mono_tags, lifting) LeastI_ex)+
  have before: "bv_get ?v j" if "j < i" for j
    using not_less_Least [OF that [unfolded i_def]] that i(1) by auto
  note bits = ea_wf_bits [OF wf] and cs = chunk_word_facts [OF wf]
  have tot: "unat (ea_size a * 8) = ?n * 8"
    using ea_wf_small [OF wf] by (simp add: unat_word_ariths)
  have "find_zeroes_loop ?v 1 (unat (ea_size a * 8)) 0 0 = Inr (of_nat i)"
    using i before bits tot by (intro find_one_ok) auto
  moreover have "ea_size a \<noteq> 0" using i(1) by auto
  ultimately have find: "bitvec_find_zeroes ?v (ea_size a) 1 = Inr (of_nat i)"
    by (simp add: bitvec_find_zeroes_def Let_def)
  have ui: "unat (of_nat i :: u64) = i" by (rule unat_of_nat_u64 [OF less_trans [OF i(1) unat_lt_2p64]])
  have "unat (-1 :: u64) = 2 ^ 64 - 1" by (simp add: unsigned_minus_1_eq_mask mask_eq_exp_minus_1)
  then have ne: "(of_nat i :: u64) \<noteq> -1" using ui i(1) bits by auto
  obtain v where v: "bitvec_set ?v (of_nat i) 1 True = Inr v" "ea_wf (a\<lparr>ea_bitvec := v\<rparr>)"
      "ea_same a (a\<lparr>ea_bitvec := v\<rparr>)" "slots (a\<lparr>ea_bitvec := v\<rparr>) = (if True then insert i (slots a) else slots a - {i})"
    using wf i(1) by (rule mark_chunk_ok)
  have "extalloc_alloc a (ea_chunksize a) = Inr ((ea_base a + of_nat i) * ea_chunksize a, a\<lparr>ea_bitvec := v\<rparr>)"
    using cs find ne v(1) by (simp add: extalloc_alloc_def Let_def)
  then show thesis
    by (rule that) (use v i before unat_chunk_addr [OF wf i(1)] in \<open>auto simp: slots_def\<close>)
qed

lemma extalloc_free_ok:
  assumes wf: "ea_wf a" and i: "i < unat (ea_size a)" and p: "unat p = chunk_addr a i"
  obtains a' where "extalloc_free a p (ea_chunksize a) = Inr a'" "slots a' = slots a - {i}"
    "ea_wf a'" "ea_same a a'"
proof -
  note cs = chunk_word_facts [OF wf]
  have nz: "0 < unat (ea_chunksize a)" using wf by (simp add: ea_wf_def)
  have md: "p mod ea_chunksize a = 0" using p by (simp add: u64_eq_iff unat_mod chunk_addr_def)
  have "unat (p div ea_chunksize a) = unat (ea_base a) + i"
    using p nz by (simp add: unat_div chunk_addr_def)
  then have dv: "p div ea_chunksize a - ea_base a = of_nat i"
    using unat_of_nat_u64 [OF less_trans [OF i unat_lt_2p64]]
    by (simp add: u64_eq_iff unat_sub u64_le_iff)
  obtain v where v: "bitvec_set (ea_bitvec a) (of_nat i) 1 False = Inr v" "ea_wf (a\<lparr>ea_bitvec := v\<rparr>)"
      "ea_same a (a\<lparr>ea_bitvec := v\<rparr>)" "slots (a\<lparr>ea_bitvec := v\<rparr>) = (if False then insert i (slots a) else slots a - {i})"
    using wf i by (rule mark_chunk_ok)
  have "extalloc_free a p (ea_chunksize a) = Inr (a\<lparr>ea_bitvec := v\<rparr>)"
    using cs md dv v(1) by (simp add: extalloc_free_def extalloc_mark_def Let_def)
  then show thesis by (rule that) (use v in simp_all)
qed

section \<open>All regions\<close>

definition ar_wf :: "u64 \<Rightarrow> AddrRegion \<Rightarrow> bool" where
  "ar_wf cs r \<longleftrightarrow> ea_wf (ar_alloc r) \<and> ea_chunksize (ar_alloc r) = cs \<and> 0 < unat (ea_base (ar_alloc r)) \<and>
     unat (ar_base r) = unat (ea_base (ar_alloc r)) * unat cs \<and>
     unat (ar_size r) = unat (ea_size (ar_alloc r)) * unat cs \<and>
     ar_active r = of_nat (card (slots (ar_alloc r)))"

text \<open>The addresses of a region, of its chunks and of its live boxes.\<close>

definition ar_ivl :: "AddrRegion \<Rightarrow> nat set" where
  "ar_ivl r = {unat (ar_base r) ..< unat (ar_base r) + unat (ar_size r)}"

definition ar_chunks :: "AddrRegion \<Rightarrow> nat set" where
  "ar_chunks r = chunk_addr (ar_alloc r) ` {..<unat (ea_size (ar_alloc r))}"

definition ar_live :: "AddrRegion \<Rightarrow> nat set" where
  "ar_live r = chunk_addr (ar_alloc r) ` slots (ar_alloc r)"

fun rs_wf :: "u64 \<Rightarrow> AddrRegion list \<Rightarrow> bool" where
  "rs_wf cs [] \<longleftrightarrow> True"
| "rs_wf cs (r # rs) \<longleftrightarrow> ar_wf cs r \<and> (\<forall>r' \<in> set rs. ar_ivl r \<inter> ar_ivl r' = {}) \<and> rs_wf cs rs"

definition rs_chunks :: "AddrRegion list \<Rightarrow> nat set" where
  "rs_chunks rs = \<Union> (ar_chunks ` set rs)"

definition rs_live :: "AddrRegion list \<Rightarrow> nat set" where
  "rs_live rs = \<Union> (ar_live ` set rs)"

lemma rs_simps [simp]:
  "rs_chunks [] = {}" "rs_chunks (r # rs) = ar_chunks r \<union> rs_chunks rs"
  "rs_live [] = {}" "rs_live (r # rs) = ar_live r \<union> rs_live rs"
  by (simp_all add: rs_chunks_def rs_live_def)

lemma slots_finite [simp]: "finite (slots a)" "card (slots a) \<le> unat (ea_size a)"
proof -
  have sub: "slots a \<subseteq> {..<unat (ea_size a)}" by (auto simp: slots_def)
  then show "finite (slots a)" by (rule finite_subset) simp
  show "card (slots a) \<le> unat (ea_size a)" using card_mono [OF _ sub] by simp
qed

lemma chunk_addr_inj: "ea_wf a \<Longrightarrow> chunk_addr a i = chunk_addr a j \<longleftrightarrow> i = j"
  by (auto simp: chunk_addr_def ea_wf_def)

lemma chunk_in_ivl: "ar_wf cs r \<Longrightarrow> i < unat (ea_size (ar_alloc r)) \<Longrightarrow> chunk_addr (ar_alloc r) i \<in> ar_ivl r"
proof -
  assume wf: "ar_wf cs r" and i: "i < unat (ea_size (ar_alloc r))"
  have "0 < unat cs" using wf by (auto simp: ar_wf_def ea_wf_def)
  then have "i * unat cs < unat (ea_size (ar_alloc r)) * unat cs" using i by simp
  then show ?thesis using wf by (auto simp: ar_wf_def ar_ivl_def chunk_addr_def add_mult_distrib)
qed

lemma live_chunk: "p \<in> ar_live r \<Longrightarrow> \<exists>i. p = chunk_addr (ar_alloc r) i \<and> i < unat (ea_size (ar_alloc r)) \<and> i \<in> slots (ar_alloc r)"
  by (auto simp: ar_live_def slots_def)

lemma live_sub_chunks: "ar_live r \<subseteq> ar_chunks r"
  by (auto simp: ar_live_def ar_chunks_def slots_def)

lemma chunks_in_ivl: "ar_wf cs r \<Longrightarrow> ar_chunks r \<subseteq> ar_ivl r"
  by (auto simp: ar_chunks_def intro: chunk_in_ivl)

lemma live_in_ivl: "ar_wf cs r \<Longrightarrow> ar_live r \<subseteq> ar_ivl r"
  using live_sub_chunks chunks_in_ivl by blast

lemma rs_wf_mem: "rs_wf cs rs \<Longrightarrow> r \<in> set rs \<Longrightarrow> ar_wf cs r"
  by (induction rs) auto

lemma other_region:
  "rs_wf cs (r # rs) \<Longrightarrow> p \<in> ar_ivl r \<Longrightarrow> p \<notin> rs_live rs"
  using live_in_ivl rs_wf_mem by (fastforce simp: rs_live_def)

lemma this_region:
  "rs_wf cs (r # rs) \<Longrightarrow> p \<in> rs_chunks rs \<Longrightarrow> p \<notin> ar_ivl r"
  using chunks_in_ivl rs_wf_mem by (fastforce simp: rs_chunks_def)

lemma rs_wf_cong:
  "rs_wf cs rs \<Longrightarrow> map ar_ivl rs' = map ar_ivl rs \<Longrightarrow> (\<forall>r \<in> set rs'. ar_wf cs r) \<Longrightarrow> rs_wf cs rs'"
proof (induction rs arbitrary: rs')
  case (Cons r rs)
  then obtain r' rs'' where eq: "rs' = r' # rs''" "ar_ivl r' = ar_ivl r" "map ar_ivl rs'' = map ar_ivl rs"
    by (cases rs') auto
  then have "ar_ivl ` set rs'' = ar_ivl ` set rs" by (metis list.set_map)
  then have "\<forall>q \<in> set rs''. ar_ivl r' \<inter> ar_ivl q = {}"
    using Cons.prems(1) eq(2) by (metis image_iff rs_wf.simps(2))
  then show ?case using Cons eq by auto
qed simp

text \<open>Replacing a region's allocator after one chunk was taken or released.\<close>

lemma ar_update:
  assumes wf: "ar_wf cs r" and a: "ea_wf a" "ea_same (ar_alloc r) a"
    and n: "n = of_nat (card (slots a))"
  defines "r' \<equiv> r\<lparr>ar_active := n, ar_alloc := a\<rparr>"
  shows "ar_wf cs r'" "ar_ivl r' = ar_ivl r" "ar_chunks r' = ar_chunks r"
    "ar_live r' = chunk_addr (ar_alloc r) ` slots a"
proof -
  have "chunk_addr a = chunk_addr (ar_alloc r)" using a(2) by (auto simp: chunk_addr_def ea_same_def fun_eq_iff)
  then show "ar_wf cs r'" "ar_ivl r' = ar_ivl r" "ar_chunks r' = ar_chunks r"
      "ar_live r' = chunk_addr (ar_alloc r) ` slots a"
    using wf a n by (auto simp: r'_def ar_wf_def ar_ivl_def ar_chunks_def ar_live_def ea_same_def)
qed

definition has_room :: "AddrRegion \<Rightarrow> bool" where
  "has_room r \<longleftrightarrow> slots (ar_alloc r) \<noteq> {..<unat (ea_size (ar_alloc r))}"

lemma region_full: "ar_wf cs r \<Longrightarrow> extalloc_is_full (ar_alloc r) = Inr (\<not> has_room r)"
  by (simp add: ar_wf_def is_full_iff has_room_def)

lemma isfull_loop_ok: "\<forall>r \<in> set rs. ar_wf cs r \<Longrightarrow> isfull_loop rs = Inr (\<forall>r \<in> set rs. \<not> has_room r)"
  by (induction rs) (auto simp: region_full)

lemma no_room_full: "ar_wf cs r \<Longrightarrow> \<not> has_room r \<Longrightarrow> ar_live r = ar_chunks r"
  by (simp add: has_room_def ar_live_def ar_chunks_def)

lemma allocslot_loop_ok:
  assumes "rs_wf cs rs" "\<exists>r \<in> set rs. has_room r"
  shows "\<exists>p rs'. allocslot_loop rs cs = Inr (p, rs') \<and> map ar_ivl rs' = map ar_ivl rs \<and>
    rs_chunks rs' = rs_chunks rs \<and> (\<forall>r \<in> set rs'. ar_wf cs r) \<and>
    unat p \<in> rs_chunks rs - rs_live rs \<and> rs_live rs' = insert (unat p) (rs_live rs)"
  using assms
proof (induction rs)
  case (Cons r rs)
  have wf: "ar_wf cs r" using Cons.prems by simp
  show ?case
  proof (cases "has_room r")
    case True
    let ?a = "ar_alloc r"
    have ea: "ea_wf ?a" and cs: "ea_chunksize ?a = cs" using wf by (simp_all add: ar_wf_def)
    obtain i p a' where R: "extalloc_alloc ?a (ea_chunksize ?a) = Inr (p, a')" "unat p = chunk_addr ?a i"
        "i < unat (ea_size ?a)" "i \<notin> slots ?a" "slots a' = insert i (slots ?a)" "ea_wf a'" "ea_same ?a a'"
      using ea True [unfolded has_room_def] by (rule extalloc_alloc_ok)
    have card: "ar_active r + 1 = of_nat (card (slots a'))"
      using wf R(4,5) by (simp add: ar_wf_def)
    note up = ar_update [OF wf R(6,7) card]
    have "unat p \<notin> rs_live rs"
      using other_region [OF Cons.prems(1)] chunk_in_ivl [OF wf R(3)] R(2) by simp
    moreover have "unat p \<notin> ar_live r" "unat p \<in> ar_chunks r"
      using R(2-4) chunk_addr_inj [OF ea] by (auto simp: ar_live_def ar_chunks_def)
    ultimately show ?thesis
      using R(1,2,5) cs True region_full [OF wf] up Cons.prems(1) rs_wf_mem
      by (auto simp: ar_live_def)
  next
    case False
    then obtain p rs' where R: "allocslot_loop rs cs = Inr (p, rs')" "map ar_ivl rs' = map ar_ivl rs"
        "rs_chunks rs' = rs_chunks rs" "\<forall>r \<in> set rs'. ar_wf cs r" "unat p \<in> rs_chunks rs - rs_live rs"
        "rs_live rs' = insert (unat p) (rs_live rs)"
      using Cons by auto
    have "unat p \<notin> ar_live r" using this_region [OF Cons.prems(1)] R(5) live_in_ivl [OF wf] by blast
    then show ?thesis using R False region_full [OF wf] wf by auto
  qed
qed simp

lemma in_region_iff:
  assumes "ar_wf cs r"
  shows "(p \<ge> ar_base r \<and> p < ar_base r + ar_size r) \<longleftrightarrow> unat p \<in> ar_ivl r"
proof -
  have "unat (ar_base r) + unat (ar_size r) < 2 ^ 64"
    using assms by (auto simp: ar_wf_def ea_wf_def add_mult_distrib)
  then show ?thesis by (simp add: u64_le_iff u64_less_iff unat_add_nowrap ar_ivl_def)
qed

lemma deleteslot_loop_out:
  "\<forall>r \<in> set rs. ar_wf cs r \<Longrightarrow> \<forall>r \<in> set rs. unat p \<notin> ar_ivl r \<Longrightarrow> deleteslot_loop rs p sz = Inr rs"
proof (induction rs)
  case (Cons r rs)
  then show ?case using in_region_iff [of cs r p] by (auto simp del: not_less)
qed simp

lemma deleteslot_loop_ok:
  assumes "rs_wf cs rs" "unat p \<in> rs_live rs"
  shows "\<exists>rs'. deleteslot_loop rs p cs = Inr rs' \<and> map ar_ivl rs' = map ar_ivl rs \<and>
    rs_chunks rs' = rs_chunks rs \<and> (\<forall>r \<in> set rs'. ar_wf cs r) \<and> rs_live rs' = rs_live rs - {unat p}"
  using assms
proof (induction rs)
  case (Cons r rs)
  have wf: "ar_wf cs r" and rs: "\<forall>r \<in> set rs. ar_wf cs r"
    using Cons.prems(1) rs_wf_mem by auto
  let ?a = "ar_alloc r"
  have ea: "ea_wf ?a" and cs: "ea_chunksize ?a = cs" using wf by (simp_all add: ar_wf_def)
  show ?case
  proof (cases "unat p \<in> ar_live r")
    case True
    then obtain i where i: "unat p = chunk_addr ?a i" "i < unat (ea_size ?a)" "i \<in> slots ?a"
      using live_chunk by blast
    obtain a' where R: "extalloc_free ?a p (ea_chunksize ?a) = Inr a'" "slots a' = slots ?a - {i}"
        "ea_wf a'" "ea_same ?a a'"
      using ea i(2,1) by (rule extalloc_free_ok)
    have "0 < card (slots ?a)" using i(3) by (auto simp: card_gt_0_iff)
    then have card: "ar_active r - 1 = of_nat (card (slots a'))"
      using wf R(2) i(3) by (simp add: ar_wf_def of_nat_diff Suc_le_eq)
    note up = ar_update [OF wf R(3,4) card]
    have ivl: "unat p \<in> ar_ivl r" using True live_in_ivl [OF wf] by blast
    have out: "\<forall>q \<in> set rs. unat p \<notin> ar_ivl q" using Cons.prems(1) ivl by auto
    have tail: "deleteslot_loop rs p cs = Inr rs" by (rule deleteslot_loop_out [OF rs out])
    have "deleteslot_loop (r # rs) p cs = Inr (r\<lparr>ar_active := ar_active r - 1, ar_alloc := a'\<rparr> # rs)"
      using R(1) cs ivl in_region_iff [OF wf, of p] tail by simp
    moreover have "unat p \<notin> rs_live rs" using other_region [OF Cons.prems(1) ivl] .
    moreover have "chunk_addr ?a ` slots a' = ar_live r - {unat p}"
      using R(2) i(1) chunk_addr_inj [OF ea] by (auto simp: ar_live_def)
    ultimately show ?thesis using up rs by auto
  next
    case False
    then have mem: "unat p \<in> rs_live rs" using Cons.prems(2) by simp
    then have "unat p \<in> rs_chunks rs" using live_sub_chunks by (auto simp: rs_live_def rs_chunks_def)
    then have out: "unat p \<notin> ar_ivl r" using this_region [OF Cons.prems(1)] by blast
    obtain rs' where R: "deleteslot_loop rs p cs = Inr rs'" "map ar_ivl rs' = map ar_ivl rs"
        "rs_chunks rs' = rs_chunks rs" "\<forall>r \<in> set rs'. ar_wf cs r" "rs_live rs' = rs_live rs - {unat p}"
      using Cons.IH Cons.prems(1) mem by auto
    have "deleteslot_loop (r # rs) p cs = Inr (r # rs')"
      using R(1) out in_region_iff [OF wf, of p] by auto
    then show ?thesis using R wf False by auto
  qed
qed simp

section \<open>The allocator's contract\<close>

definition bm_wf :: "BoxMap \<Rightarrow> bool" where
  "bm_wf bm \<longleftrightarrow> rs_wf (chunksize (bm_opts bm)) (bm_regions bm) \<and> length (bm_regions bm) \<le> ADDR_REGION_MAX"

text \<open>Abstractly: the chunk size, the addresses of all chunks, and those of the live boxes.\<close>

record boxset =
  bs_chunk :: u64
  bs_all :: "nat set"
  bs_live :: "nat set"

definition bm_abs :: "BoxMap \<Rightarrow> boxset" where
  "bm_abs bm = \<lparr>bs_chunk = chunksize (bm_opts bm), bs_all = rs_chunks (bm_regions bm), bs_live = rs_live (bm_regions bm)\<rparr>"

datatype bm_request = AddBox | RmBox u64

fun bm_serve :: "bm_request \<Rightarrow> BoxMap \<Rightarrow> (u64 \<times> BoxMap) res" where
  "bm_serve AddBox bm = boxmap_addspace bm (chunksize (bm_opts bm))"
| "bm_serve (RmBox p) bm =
     (if unat p \<in> rs_live (bm_regions bm)
      then rbind (boxmap_rmspace bm p (chunksize (bm_opts bm))) (\<lambda>bm. Inr (p, bm))
      else Inr (0, bm))"

fun bm_spec :: "bm_request \<Rightarrow> u64 \<Rightarrow> boxset \<Rightarrow> boxset \<Rightarrow> bool" where
  "bm_spec AddBox p a a' \<longleftrightarrow>
     (if bs_live a = bs_all a then p = 0 \<and> a' = a
      else p \<noteq> 0 \<and> unat p \<in> bs_all a - bs_live a \<and> a' = a\<lparr>bs_live := insert (unat p) (bs_live a)\<rparr>)"
| "bm_spec (RmBox q) p a a' \<longleftrightarrow>
     (if unat q \<in> bs_live a then p = q \<and> a' = a\<lparr>bs_live := bs_live a - {unat q}\<rparr> else p = 0 \<and> a' = a)"

lemma rs_full_iff:
  assumes "rs_wf cs rs"
  shows "(\<forall>r \<in> set rs. \<not> has_room r) \<longleftrightarrow> rs_live rs = rs_chunks rs"
  using assms
proof (induction rs)
  case (Cons r rs)
  have wf: "ar_wf cs r" using Cons.prems by simp
  have sub: "rs_live rs \<subseteq> rs_chunks rs" using live_sub_chunks by (auto simp: rs_live_def rs_chunks_def)
  have disj: "rs_chunks rs \<inter> ar_ivl r = {}" using this_region [OF Cons.prems] by blast
  have one: "\<not> has_room r \<longleftrightarrow> ar_live r = ar_chunks r"
  proof
    assume eq: "ar_live r = ar_chunks r"
    have "slots (ar_alloc r) = {..<unat (ea_size (ar_alloc r))}"
    proof (intro equalityI subsetI)
      fix i assume "i \<in> {..<unat (ea_size (ar_alloc r))}"
      then have "chunk_addr (ar_alloc r) i \<in> ar_live r" unfolding eq by (auto simp: ar_chunks_def)
      then show "i \<in> slots (ar_alloc r)" using wf chunk_addr_inj by (auto simp: ar_live_def ar_wf_def)
    qed (simp add: slots_def)
    then show "\<not> has_room r" by (simp add: has_room_def)
  qed (use no_room_full [OF wf] in blast)
  have "ar_live r \<union> rs_live rs = ar_chunks r \<union> rs_chunks rs \<longleftrightarrow> ar_live r = ar_chunks r \<and> rs_live rs = rs_chunks rs"
    using disj sub live_sub_chunks [of r] chunks_in_ivl [OF wf] by blast
  then show ?case using Cons one by simp
qed simp

lemma chunk_nonzero: "rs_wf cs rs \<Longrightarrow> q \<in> rs_chunks rs \<Longrightarrow> 0 < q"
  using rs_wf_mem by (fastforce simp: rs_chunks_def ar_chunks_def chunk_addr_def ar_wf_def ea_wf_def)

lemma addspace_ok:
  assumes "bm_wf bm"
  shows "\<exists>p bm'. boxmap_addspace bm (chunksize (bm_opts bm)) = Inr (p, bm') \<and> bm_wf bm' \<and>
    bm_spec AddBox p (bm_abs bm) (bm_abs bm')"
proof -
  let ?rs = "bm_regions bm" and ?cs = "chunksize (bm_opts bm)"
  have wf: "rs_wf ?cs ?rs" and len: "length ?rs \<le> ADDR_REGION_MAX" using assms by (simp_all add: bm_wf_def)
  have full: "isfull bm = Inr (rs_live ?rs = rs_chunks ?rs)"
    using isfull_loop_ok [of ?rs ?cs] rs_wf_mem [OF wf] rs_full_iff [OF wf] by (simp only: isfull_def) blast
  show ?thesis
  proof (cases "rs_live ?rs = rs_chunks ?rs")
    case True
    then show ?thesis using full assms by (auto simp: boxmap_addspace_def bm_abs_def)
  next
    case False
    then obtain p rs' where R: "allocslot_loop ?rs ?cs = Inr (p, rs')" "map ar_ivl rs' = map ar_ivl ?rs"
        "rs_chunks rs' = rs_chunks ?rs" "\<forall>r \<in> set rs'. ar_wf ?cs r" "unat p \<in> rs_chunks ?rs - rs_live ?rs"
        "rs_live rs' = insert (unat p) (rs_live ?rs)"
      using allocslot_loop_ok [OF wf] rs_full_iff [OF wf] by blast
    have "boxmap_addspace bm ?cs = Inr (p, bm\<lparr>bm_regions := rs'\<rparr>)"
      using full False R(1) by (simp add: boxmap_addspace_def allocslot_def)
    moreover have "length rs' = length ?rs" using R(2) by (metis length_map)
    then have "bm_wf (bm\<lparr>bm_regions := rs'\<rparr>)"
      using rs_wf_cong [OF wf R(2,4)] len by (simp add: bm_wf_def)
    moreover have "p \<noteq> 0" using R(5) chunk_nonzero [OF wf, of "unat p"] by auto
    ultimately show ?thesis using R(3,5,6) False by (simp add: bm_abs_def)
  qed
qed

lemma rmspace_ok:
  assumes "bm_wf bm" "unat p \<in> rs_live (bm_regions bm)"
  shows "\<exists>bm'. boxmap_rmspace bm p (chunksize (bm_opts bm)) = Inr bm' \<and> bm_wf bm' \<and>
    bm_abs bm' = (bm_abs bm)\<lparr>bs_live := rs_live (bm_regions bm) - {unat p}\<rparr>"
proof -
  let ?rs = "bm_regions bm" and ?cs = "chunksize (bm_opts bm)"
  have wf: "rs_wf ?cs ?rs" and len: "length ?rs \<le> ADDR_REGION_MAX" using assms(1) by (simp_all add: bm_wf_def)
  obtain rs' where R: "deleteslot_loop ?rs p ?cs = Inr rs'" "map ar_ivl rs' = map ar_ivl ?rs"
      "rs_chunks rs' = rs_chunks ?rs" "\<forall>r \<in> set rs'. ar_wf ?cs r" "rs_live rs' = rs_live ?rs - {unat p}"
    using deleteslot_loop_ok [OF wf assms(2)] by blast
  have "length rs' = length ?rs" using R(2) by (metis length_map)
  then have "bm_wf (bm\<lparr>bm_regions := rs'\<rparr>)" using rs_wf_cong [OF wf R(2,4)] len by (simp add: bm_wf_def)
  then show ?thesis using R(1,3,5) by (simp add: boxmap_rmspace_def deleteslot_def bm_abs_def)
qed

interpretation boxmap: server bm_wf bm_abs bm_serve "\<lambda>_ _. True" bm_spec
proof
  fix bm r
  assume wf: "bm_wf bm"
  show "\<exists>v bm'. bm_serve r bm = Inr (v, bm') \<and> bm_wf bm' \<and> bm_spec r v (bm_abs bm) (bm_abs bm')"
  proof (cases r)
    case AddBox
    then show ?thesis using addspace_ok [OF wf] by simp
  next
    case (RmBox p)
    then show ?thesis
      using rmspace_ok [OF wf, of p] wf by (cases "unat p \<in> rs_live (bm_regions bm)") (auto simp: bm_abs_def)
  qed
qed simp

text \<open>
  C14: the allocator. From a well-formed map, any sequence of box creations and removals runs
  without a fault, and each creation returns the address of a chunk that no live box has, or 0
  exactly when every chunk of every region is taken; each removal releases that chunk only.
\<close>

theorem boxmap_requests_refine:
  assumes "bm_wf bm"
  shows "\<exists>vs bm'. run_reqs bm_serve rs bm = Inr (vs, bm') \<and> bm_wf bm' \<and> spec_run bm_spec rs vs (bm_abs bm) (bm_abs bm')"
  using boxmap.serve_all [OF assms] by simp

section \<open>Reserving\<close>

lemma reserve_loop_ok:
  assumes "unat sz < 2 ^ n" "0 < threshold"
  shows "\<exists>got base h'. reserve_loop (Suc n) hv sz threshold h = Inr (got, base, h') \<and>
    (got = 0 \<or> threshold \<le> got \<and> got \<le> sz)"
  using assms(1)
proof (induction n arbitrary: sz h)
  case 0
  then have "sz = 0" by (simp add: unat_0_iff)
  then show ?case using assms(2) by (auto split: prod.splits simp: Let_def)
next
  case (Suc n)
  obtain p h1 where m: "hv_mmap hv 0 sz PROT_NONE (MAP_ANONYMOUS OR MAP_PRIVATE) (-1) 0 h = (p, h1)"
    by (rule prod.exhaust)
  have half: "unat (sz div 2) = unat sz div 2" by (simp add: unat_div)
  show ?case
  proof (cases "p = -1 \<and> \<not> sz div 2 < threshold")
    case True
    have "unat (sz div 2) < 2 ^ n" using Suc.prems half by simp
    from Suc.IH [OF this, of h1] obtain got base h' where
      R: "reserve_loop (Suc n) hv (sz div 2) threshold h1 = Inr (got, base, h')"
        "got = 0 \<or> threshold \<le> got \<and> got \<le> sz div 2" by blast
    have "sz div 2 \<le> sz" using half by (simp add: u64_le_iff)
    then have "got = 0 \<or> threshold \<le> got \<and> got \<le> sz" using R(2) by auto
    moreover have "reserve_loop (Suc (Suc n)) hv sz threshold h = Inr (got, base, h')"
      using m True R(1) by (subst reserve_loop.simps) (simp add: Let_def del: reserve_loop.simps)
    ultimately show ?thesis by blast
  next
    case False
    then show ?thesis using m by (auto simp: Let_def not_less)
  qed
qed

text \<open>
  C37: reservation ends. With a positive threshold, whatever the host answers, \<open>reserve\<close> stops
  and returns 0 or a size between the threshold and the requested size.
\<close>

theorem reserve_terminates:
  assumes "0 < threshold"
  shows "\<exists>got base h'. reserve hv sz threshold h = Inr (got, base, h') \<and>
    (got = 0 \<or> threshold \<le> got \<and> got \<le> sz)"
proof -
  have eq: "reserve hv sz threshold h = reserve_loop (Suc 64) hv sz threshold h"
    by (simp only: reserve_def) (simp only: numeral_eq_Suc pred_numeral_simps BitM.simps)
  show ?thesis
    unfolding eq using unat_lt_2p64 assms by (rule reserve_loop_ok)
qed

lemma bv_get_zero: "i < 8 * n \<Longrightarrow> \<not> bv_get (replicate n 0) i"
  by (simp add: bv_get_def less_mult_imp_div_less mult.commute)

lemma extalloc_new_ok:
  assumes "8 \<le> unat cs" "unat cs dvd unat base" "unat cs dvd unat sz" "unat base + unat sz < 2 ^ 64"
    "extalloc_new hv base sz cs h = Inr (Some a, h')"
  shows "ea_wf a" "slots a = {}" "ea_chunksize a = cs"
    "unat (ea_base a) * unat cs = unat base" "unat (ea_size a) * unat cs = unat sz"
proof -
  have nz: "cs \<noteq> 0" using assms(1) by auto
  obtain h1 h2 where a: "a = \<lparr>ea_base = base div cs, ea_size = sz div cs, ea_chunksize = cs,
      ea_bitvec = replicate (unat (sz div cs div 8 + 1)) 0\<rparr>"
    using assms(5) nz
    by (auto simp: extalloc_new_def rbind_Inr_iff Let_def split: prod.splits bool.splits)
  have b: "unat (ea_base a) * unat cs = unat base" and s: "unat (ea_size a) * unat cs = unat sz"
    using assms(2,3) by (simp_all add: a unat_div)
  then show "unat (ea_base a) * unat cs = unat base" "unat (ea_size a) * unat cs = unat sz" by simp_all
  show "ea_chunksize a = cs" by (simp add: a)
  have "unat (sz div cs div 8) + 1 < 2 ^ 64"
  proof -
    have "unat (sz div cs div 8) \<le> unat sz div 8" by (simp add: unat_div div_le_mono)
    also have "\<dots> < 2 ^ 61" using unat_lt_2p64 [of sz] by (simp add: less_mult_imp_div_less)
    finally show ?thesis by simp
  qed
  then have bytes: "unat (sz div cs div 8 + 1) = unat (ea_size a) div 8 + 1"
    by (simp add: unat_Suc_u64 a unat_div)
  then show "ea_wf a"
    using assms(1,4) b s by (simp add: ea_wf_def a add_mult_distrib)
  have "\<not> bv_get (ea_bitvec a) i" if "i < unat (ea_size a)" for i
  proof -
    have "i < 8 * (unat (ea_size a) div 8 + 1)" using that by simp
    then have "\<not> bv_get (replicate (unat (ea_size a) div 8 + 1) 0) i" by (rule bv_get_zero)
    moreover have "ea_bitvec a = replicate (unat (ea_size a) div 8 + 1) 0"
      unfolding bytes [symmetric] by (simp add: a)
    ultimately show ?thesis by metis
  qed
  then show "slots a = {}" by (auto simp: slots_def)
qed

lemma extalloc_new_total:
  assumes "cs \<noteq> 0" "base mod cs = 0" "sz mod cs = 0"
  obtains r h' where "extalloc_new hv base sz cs h = Inr (r, h')"
proof -
  have "\<exists>r h'. extalloc_new hv base sz cs h = Inr (r, h')"
    using assms by (simp add: extalloc_new_def Let_def split: prod.splits bool.splits)
  then show thesis using that by blast
qed

text \<open>The aligned part of a granted range.\<close>

lemma aligned_part:
  assumes cs: "8 \<le> unat cs" and nw: "unat base + unat sz + unat cs < 2 ^ 64"
    and fits: "round_up (unat cs) (unat base) \<le> unat base + unat sz"
  defines "ab \<equiv> boxmap_ceilp base cs"
  defines "as \<equiv> boxmap_truncp (ab + (sz - (ab - base))) cs - ab"
  shows "unat ab = round_up (unat cs) (unat base)"
    "unat ab + unat as = (unat base + unat sz) div unat cs * unat cs"
    "unat cs dvd unat as"
proof -
  let ?c = "unat cs" and ?b = "unat base" and ?s = "unat sz"
  have c0: "0 < ?c" using cs by simp
  show ab: "unat ab = round_up ?c ?b"
    unfolding ab_def using cs nw by (intro unat_boxmap_ceilp) auto
  have ge: "?b \<le> unat ab" using ab round_up_ge [OF c0] by simp
  have "ab + (sz - (ab - base)) = base + sz" by simp
  then have "unat (ab + (sz - (ab - base))) = ?b + ?s" using nw by (simp add: unat_add_nowrap)
  then have tr: "unat (boxmap_truncp (ab + (sz - (ab - base))) cs) = (?b + ?s) div ?c * ?c"
    by (simp only: unat_boxmap_truncp)
  have dvd: "?c dvd unat ab" using ab round_up_dvd by simp
  have le: "unat ab \<le> (?b + ?s) div ?c * ?c"
  proof -
    have "unat ab div ?c \<le> (?b + ?s) div ?c" using fits ab by (intro div_le_mono) simp
    then have "unat ab div ?c * ?c \<le> (?b + ?s) div ?c * ?c" by (intro mult_le_mono1)
    then show ?thesis using dvd by simp
  qed
  then have as: "unat as = (?b + ?s) div ?c * ?c - unat ab"
    unfolding as_def by (subst unat_sub) (simp_all only: u64_le_iff tr)
  show "unat ab + unat as = (?b + ?s) div ?c * ?c" using as le by simp
  show "?c dvd unat as" using as dvd by simp
qed

lemma rs_wf_snoc:
  "rs_wf cs rs \<Longrightarrow> ar_wf cs r \<Longrightarrow> \<forall>q \<in> set rs. ar_ivl q \<inter> ar_ivl r = {} \<Longrightarrow> rs_wf cs (rs @ [r])"
  by (induction rs) auto

text \<open>The steps of \<open>addregion\<close> once the range is cut to whole chunks, and the region they add.\<close>

lemma addregion_steps:
  assumes "length (bm_regions bm) < ADDR_REGION_MAX"
    "ab = boxmap_ceilp base (chunksize (bm_opts bm))"
    "as = boxmap_truncp (ab + (sz - (ab - base))) (chunksize (bm_opts bm)) - ab"
    "extalloc_new hv ab as (chunksize (bm_opts bm)) h = Inr (ea, h1)"
    "hv_mmap hv ab as PROT_NONE (MAP_ANONYMOUS OR MAP_PRIVATE OR MAP_FIXED) (-1) 0 h1 = (region, h2)"
  shows "addregion hv bm base sz h =
    (case ea of
       None \<Rightarrow> Inr (False, bm, h1)
     | Some alloc \<Rightarrow>
         if region \<noteq> ab then Inr (False, bm, h2)
         else Inr (True, bm\<lparr>bm_regions := bm_regions bm @
                [\<lparr>ar_base = ab, ar_size = as, ar_active = 0, ar_alloc = alloc\<rparr>]\<rparr>, h2))"
  using assms(1)
  unfolding addregion_def Let_def assms(2,3) [symmetric] assms(4,5) rbind_simps prod.case
  by simp

lemma added_region:
  assumes "bm_wf bm" "ar_wf (chunksize (bm_opts bm)) r" "ar_ivl r \<subseteq> {lo ..< hi}" "length (bm_regions bm) < ADDR_REGION_MAX"
    "\<forall>q \<in> set (bm_regions bm). ar_ivl q \<inter> {lo ..< hi} = {}" "ar_live r = {}"
  shows "bm_wf (bm\<lparr>bm_regions := bm_regions bm @ [r]\<rparr>)" "rs_live (bm_regions bm @ [r]) = rs_live (bm_regions bm)"
proof -
  have "\<forall>q \<in> set (bm_regions bm). ar_ivl q \<inter> ar_ivl r = {}" using assms(3,5) by blast
  then have "rs_wf (chunksize (bm_opts bm)) (bm_regions bm @ [r])"
    using assms(1,2) by (intro rs_wf_snoc) (simp_all add: bm_wf_def)
  then show "bm_wf (bm\<lparr>bm_regions := bm_regions bm @ [r]\<rparr>)" "rs_live (bm_regions bm @ [r]) = rs_live (bm_regions bm)"
    using assms(1,4,6) by (auto simp: bm_wf_def rs_live_def)
qed

text \<open>
  C36: adding a region. When the host has granted a range that no region meets, and the range
  holds its own rounding, \<open>addregion\<close> does not fault; on success the map is well formed, has
  one more region, chunk aligned and inside the granted range, all of whose chunks are free;
  otherwise the map is unchanged.
\<close>

theorem addregion_correct:
  assumes "bm_wf bm" "8 \<le> unat (chunksize (bm_opts bm))" "base \<noteq> 0"
    "unat base + unat sz + unat (chunksize (bm_opts bm)) < 2 ^ 64"
    "round_up (unat (chunksize (bm_opts bm))) (unat base) \<le> unat base + unat sz"
    "\<forall>r \<in> set (bm_regions bm). ar_ivl r \<inter> {unat base ..< unat base + unat sz} = {}"
  shows "\<exists>ok bm' h'. addregion hv bm base sz h = Inr (ok, bm', h') \<and>
    (if ok then bm_wf bm' \<and> rs_live (bm_regions bm') = rs_live (bm_regions bm) \<and>
       (\<exists>r. bm_regions bm' = bm_regions bm @ [r] \<and> ar_live r = {} \<and>
          ar_ivl r = {round_up (unat (chunksize (bm_opts bm))) (unat base) ..<
            (unat base + unat sz) div unat (chunksize (bm_opts bm)) * unat (chunksize (bm_opts bm))})
     else bm' = bm)"
proof (cases "length (bm_regions bm) \<ge> ADDR_REGION_MAX")
  case True
  then have "addregion hv bm base sz h = Inr (False, bm, h)" by (simp add: addregion_def)
  then show ?thesis by auto
next
  case False
  define cs where "cs = chunksize (bm_opts bm)"
  define ab where "ab = boxmap_ceilp base cs"
  define as where "as = boxmap_truncp (ab + (sz - (ab - base))) cs - ab"
  note al = aligned_part [OF assms(2,4,5), folded cs_def, folded ab_def, folded as_def]
  have cs: "cs \<noteq> 0" "8 \<le> unat cs" using assms(2) by (auto simp: cs_def)
  have dvd: "unat cs dvd unat ab" using al(1) round_up_dvd by simp
  have md: "ab mod cs = 0" "as mod cs = 0" using dvd al(3) by (simp_all add: u64_eq_iff unat_mod dvd_imp_mod_0)
  have upto: "unat ab + unat as \<le> unat base + unat sz" using al(2) by simp
  have lim: "unat ab + unat as < 2 ^ 64" using upto assms(4) by simp
  obtain ea h1 where new: "extalloc_new hv ab as cs h = Inr (ea, h1)" using cs(1) md by (rule extalloc_new_total)
  obtain region h2 where map: "hv_mmap hv ab as PROT_NONE (MAP_ANONYMOUS OR MAP_PRIVATE OR MAP_FIXED) (-1) 0 h1 = (region, h2)"
    by (rule prod.exhaust)
  note steps = addregion_steps [OF _ _ _ new [unfolded cs_def] map, where base = base and sz = sz, folded cs_def, OF _ ab_def as_def]
  show ?thesis
  proof (cases "ea = None \<or> region \<noteq> ab")
    case True
    then have "\<exists>h'. addregion hv bm base sz h = Inr (False, bm, h')" using steps False by (auto split: option.splits)
    then show ?thesis by auto
  next
    case ok: False
    then obtain a where a: "ea = Some a" "region = ab" by auto
    note E = extalloc_new_ok [OF cs(2) dvd al(3) lim new [unfolded a(1)]]
    let ?r = "\<lparr>ar_base = ab, ar_size = as, ar_active = 0, ar_alloc = a\<rparr>"
    have "0 < unat cs" "0 < unat base" using cs assms(3) by (simp_all add: unat_gt_0)
    then have "0 < unat ab" using al(1) round_up_ge [of "unat cs" "unat base"] by linarith
    then have "0 < unat (ea_base a)" using E(4) by (metis gr0I mult_0)
    then have r: "ar_wf cs ?r" using E by (auto simp: ar_wf_def)
    have ivl: "ar_ivl ?r = {round_up (unat cs) (unat base) ..< (unat base + unat sz) div unat cs * unat cs}"
      by (simp only: ar_ivl_def AddrRegion.simps al(2)) (simp only: al(1))
    have sub: "ar_ivl ?r \<subseteq> {unat base ..< unat base + unat sz}"
      unfolding ivl using round_up_ge [of "unat cs" "unat base"] cs(2) al(2) upto by auto
    have live: "ar_live ?r = {}" using E(2) by (simp add: ar_live_def)
    note add = added_region [OF assms(1) r [unfolded cs_def] sub _ assms(6) live]
    have "addregion hv bm base sz h = Inr (True, bm\<lparr>bm_regions := bm_regions bm @ [?r]\<rparr>, h2)"
      using steps False a by simp
    then show ?thesis using add live ivl False by (intro exI [of _ True]) (simp add: cs_def)
  qed
qed

section \<open>A concrete map\<close>

text \<open>One region of ten chunks of 16 KiB, the first chunk taken.\<close>

definition demo_map :: BoxMap where
  "demo_map = \<lparr>bm_regions = [\<lparr>ar_base = 0x40000, ar_size = 0x28000, ar_active = 1,
     ar_alloc = \<lparr>ea_base = 16, ea_size = 10, ea_chunksize = 0x4000, ea_bitvec = [0x80, 0]\<rparr>\<rparr>],
     bm_opts = \<lparr>chunksize = 0x4000\<rparr>\<rparr>"

lemma demo_slots: "slots \<lparr>ea_base = 16, ea_size = 10, ea_chunksize = 0x4000, ea_bitvec = [0x80, 0]\<rparr> = {0}"
proof -
  have "i = 0" if "i < 10" "bv_get [0x80, 0] i" for i :: nat
  proof -
    have "i \<in> {0, 1, 2, 3, 4, 5, 6, 7, 8, 9}" using that(1) by auto
    then show ?thesis using that(2) by (auto simp: bv_get_def bit_simps)
  qed
  moreover have "bv_get [0x80, 0] 0" by (simp add: bv_get_def)
  ultimately show ?thesis by (auto simp: slots_def)
qed

lemma demo_map_wf: "bm_wf demo_map"
  by (simp add: bm_wf_def demo_map_def ar_wf_def demo_slots ea_wf_def ADDR_REGION_MAX_def)

theorem boxmap_requests_refine_witness:
  "\<exists>vs bm'. run_reqs bm_serve [AddBox, RmBox 0x40000, AddBox] demo_map = Inr (vs, bm') \<and> bm_wf bm' \<and>
    spec_run bm_spec [AddBox, RmBox 0x40000, AddBox] vs (bm_abs demo_map) (bm_abs bm')"
  by (rule boxmap_requests_refine [OF demo_map_wf])

theorem reserve_terminates_witness:
  "\<exists>got base h'. reserve bump_host 0x100000 0x1000 0x7000 = Inr (got, base, h') \<and>
    (got = 0 \<or> 0x1000 \<le> got \<and> got \<le> 0x100000)"
  by (rule reserve_terminates) simp

theorem addregion_correct_witness:
  "\<exists>ok bm' h'. addregion bump_host \<lparr>bm_regions = [], bm_opts = \<lparr>chunksize = 0x4000\<rparr>\<rparr> 0x41000 0x20000 0 = Inr (ok, bm', h') \<and>
    (ok \<longrightarrow> bm_wf bm')"
  using addregion_correct [of "\<lparr>bm_regions = [], bm_opts = \<lparr>chunksize = 0x4000\<rparr>\<rparr>" "0x41000" "0x20000" bump_host 0]
  by (simp add: bm_wf_def round_up_def ADDR_REGION_MAX_def split: if_splits) metis

text \<open>
  \<open>extalloc_alloc\<close> passes the number of chunks where \<open>bitvec_find_zeroes\<close> expects a number of bytes.
  For requests of one chunk this is harmless, because the search stops at a free chunk; a larger
  request that does not fit walks past the end of the vector, and one that nearly fits is
  granted chunks beyond the end of the region.
\<close>

lemma extalloc_alloc_overrun:
  "fault_of (extalloc_alloc \<lparr>ea_base = 16, ea_size = 10, ea_chunksize = 0x4000, ea_bitvec = [0xFF, 0xFF]\<rparr> 0x8000)
     = Some OutOfBounds"
  by code_simp

lemma extalloc_alloc_beyond_region:
  "map_sum id fst (extalloc_alloc \<lparr>ea_base = 16, ea_size = 10, ea_chunksize = 0x4000, ea_bitvec = [0xFF, 0x80]\<rparr> 0x8000)
     = Inr ((16 + 9) * 0x4000)"
  by code_simp

end
