(* ===== verification/Regs.thy ===== *)
theory Regs
  imports Prelude
begin

text \<open>
  The saved register file of a sandbox (\<open>lps-core/include/lps_arch.h\<close>), its layout in memory, and
  the offsets the assembly uses for it (\<open>lps-core/arch_asm.h\<close>, checked in part by the static
  assertions of \<open>arch_asm.c\<close>).
\<close>

record LPSRegs =
  host_sp :: u64  host_gp :: u64  host_tp :: u64  pad :: u64
  r_zero :: u64  r_ra :: u64  r_sp :: u64  r_gp :: u64  r_tp :: u64
  r_t0 :: u64  r_t1 :: u64  r_t2 :: u64  r_s0 :: u64  r_s1 :: u64
  r_a0 :: u64  r_a1 :: u64  r_a2 :: u64  r_a3 :: u64
  r_a4 :: u64  r_a5 :: u64  r_a6 :: u64  r_a7 :: u64
  r_s2 :: u64  r_s3 :: u64  r_s4 :: u64  r_s5 :: u64  r_s6 :: u64
  r_s7 :: u64  r_s8 :: u64  r_s9 :: u64  r_s10 :: u64  r_s11 :: u64
  r_t3 :: u64  r_t4 :: u64  r_t5 :: u64  r_t6 :: u64
  r_f :: "u64 list"
  uepc :: u64  ucause :: u64  utval :: u64  dfreason :: u64
  memcfg :: u64  membound :: "(u64 \<times> u64) list"
  jmpcfg :: u64  jmpbound :: "(u64 \<times> u64) list"

record KRegs =
  k_ra :: u64  k_sp :: u64
  k_s0 :: u64  k_s1 :: u64  k_s2 :: u64  k_s3 :: u64  k_s4 :: u64  k_s5 :: u64
  k_s6 :: u64  k_s7 :: u64  k_s8 :: u64  k_s9 :: u64  k_s10 :: u64  k_s11 :: u64
  k_sp_base :: u64

definition LIBCFG_W :: cint where "LIBCFG_W = 1"
definition LIBCFG_R :: cint where "LIBCFG_R = 2"
definition LIBCFG_V :: cint where "LIBCFG_V = 8"
definition JMPCFG_V :: cint where "JMPCFG_V = 1"

section \<open>Layout\<close>

text \<open>
  A structure as a list of members with their size in bytes. Every member is an array of 64 bit
  integers, so the C layout has no padding and offsets are sums of sizes.
\<close>

type_synonym layout = "(string \<times> nat) list"

definition LPSRegs_layout :: layout where
  "LPSRegs_layout =
     [(''host_sp'', 8), (''host_gp'', 8), (''host_tp'', 8), (''_pad'', 8)] @
     map (\<lambda>r. (r, 8))
       [''zero'', ''ra'', ''sp'', ''gp'', ''tp'', ''t0'', ''t1'', ''t2'', ''s0'', ''s1'',
        ''a0'', ''a1'', ''a2'', ''a3'', ''a4'', ''a5'', ''a6'', ''a7'',
        ''s2'', ''s3'', ''s4'', ''s5'', ''s6'', ''s7'', ''s8'', ''s9'', ''s10'', ''s11'',
        ''t3'', ''t4'', ''t5'', ''t6''] @
     [(''f'', 8 * 32), (''uepc'', 8), (''ucause'', 8), (''utval'', 8), (''dfreason'', 8),
      (''memcfg'', 8), (''membound'', 8 * 16 * 2), (''jmpcfg'', 8), (''jmpbound'', 8 * 4 * 2)]"

definition KRegs_layout :: layout where
  "KRegs_layout = map (\<lambda>r. (r, 8))
     [''ra'', ''sp'', ''s0'', ''s1'', ''s2'', ''s3'', ''s4'', ''s5'', ''s6'', ''s7'', ''s8'', ''s9'',
      ''s10'', ''s11'', ''sp_base'']"

fun offsetof :: "layout \<Rightarrow> string \<Rightarrow> nat option" where
  "offsetof [] m = None"
| "offsetof ((n, s) # ms) m = (if n = m then Some 0 else map_option (\<lambda>k. s + k) (offsetof ms m))"

definition sizeof :: "layout \<Rightarrow> nat" where
  "sizeof ms = sum_list (map snd ms)"

text \<open>The numbers of \<open>arch_asm.h\<close>: the member each one stands for, and the offset.\<close>

definition OFFSET_table :: "(string \<times> nat) list" where
  "OFFSET_table =
     [(''host_sp'', 0), (''host_gp'', 8), (''host_tp'', 16),
      (''zero'', 32), (''ra'', 40), (''sp'', 48), (''gp'', 56), (''tp'', 64),
      (''t0'', 72), (''t1'', 80), (''t2'', 88), (''s0'', 96), (''s1'', 104),
      (''a0'', 112), (''a1'', 120), (''a2'', 128), (''a3'', 136),
      (''a4'', 144), (''a5'', 152), (''a6'', 160), (''a7'', 168),
      (''s2'', 176), (''s3'', 184), (''s4'', 192), (''s5'', 200), (''s6'', 208),
      (''s7'', 216), (''s8'', 224), (''s9'', 232), (''s10'', 240), (''s11'', 248),
      (''t3'', 256), (''t4'', 264), (''t5'', 272), (''t6'', 280), (''f'', 288),
      (''uepc'', 544), (''ucause'', 552), (''utval'', 560), (''dfreason'', 568),
      (''memcfg'', 576)]"

definition OFFSET_MEMCFG :: nat where "OFFSET_MEMCFG = 576"

text \<open>\<open>OFFSET_MEMBOUND<i>LO\<close> and \<open>HI\<close>, \<open>OFFSET_JMPCFG\<close>, \<open>OFFSET_JMPBOUND<i>LO\<close> and \<open>HI\<close>.\<close>

definition OFFSET_MEMBOUNDLO :: "nat \<Rightarrow> nat" where "OFFSET_MEMBOUNDLO i = OFFSET_MEMCFG + 8 * (2 * i + 1)"
definition OFFSET_MEMBOUNDHI :: "nat \<Rightarrow> nat" where "OFFSET_MEMBOUNDHI i = OFFSET_MEMCFG + 8 * (2 * i + 2)"
definition OFFSET_JMPCFG :: nat where "OFFSET_JMPCFG = OFFSET_MEMBOUNDHI 15 + 8"
definition OFFSET_JMPBOUNDLO :: "nat \<Rightarrow> nat" where "OFFSET_JMPBOUNDLO i = OFFSET_JMPCFG + 8 * (2 * i + 1)"
definition OFFSET_JMPBOUNDHI :: "nat \<Rightarrow> nat" where "OFFSET_JMPBOUNDHI i = OFFSET_JMPCFG + 8 * (2 * i + 2)"

definition CONTEXT_table :: "(string \<times> nat) list" where
  "CONTEXT_table =
     [(''ra'', 0), (''sp'', 8), (''s0'', 16), (''s1'', 24), (''s2'', 32), (''s3'', 40), (''s4'', 48),
      (''s5'', 56), (''s6'', 64), (''s7'', 72), (''s8'', 80), (''s9'', 88), (''s10'', 96), (''s11'', 104)]"

text \<open>The static assertions of \<open>arch_asm.c\<close>.\<close>

definition arch_asserts :: bool where
  "arch_asserts \<longleftrightarrow>
     (\<forall>m \<in> set [''host_sp'', ''host_gp'', ''host_tp'', ''zero'', ''f'', ''uepc'', ''utval'', ''dfreason'', ''memcfg''].
        offsetof LPSRegs_layout m = map_of OFFSET_table m) \<and>
     offsetof LPSRegs_layout ''membound'' = Some (OFFSET_MEMBOUNDLO 0) \<and>
     offsetof LPSRegs_layout ''jmpcfg'' = Some OFFSET_JMPCFG \<and>
     offsetof LPSRegs_layout ''jmpbound'' = Some (OFFSET_JMPBOUNDLO 0) \<and>
     (\<forall>m \<in> set [''ra'', ''sp'', ''s0'', ''s11'']. offsetof KRegs_layout m = map_of CONTEXT_table m)"

text \<open>The member and the word inside it that lies at a byte offset.\<close>

fun member_at :: "layout \<Rightarrow> nat \<Rightarrow> (string \<times> nat) option" where
  "member_at [] k = None"
| "member_at ((n, s) # ms) k = (if k < s then Some (n, k div 8) else member_at ms (k - s))"


end
