(* ===== verification/Bound.thy ===== *)
theory Bound
  imports Regs
begin

text \<open>
  The DASICS bound registers of a sandbox (\<open>lps-core/bound.c\<close>): sixteen memory bounds and four
  jump bounds, each with a 4 bit field in a configuration word. The code computes field masks
  with \<open>int\<close> shifts; the model keeps them, so the indices for which the shift is undefined are
  visible.
\<close>

section \<open>Operations\<close>

definition field_mask :: "cint \<Rightarrow> u64 res" where
  "field_mask idx =
     (let offset = nat (sint idx * 4) in rbind (int_shl 0xf offset) (\<lambda>m. Inr (int_to_u64 (NOT m))))"

definition lps_membound_set :: "LPSRegs \<Rightarrow> cint \<Rightarrow> cint \<Rightarrow> u64 \<Rightarrow> u64 \<Rightarrow> LPSRegs res" where
  "lps_membound_set regs idx prot low high =
     rbind (rassert (sint idx \<ge> 0 \<and> sint idx < 16)) (\<lambda>_.
     let regs = regs\<lparr>membound := (membound regs)[nat (sint idx) := (low, high)]\<rparr>;
         offset = nat (sint idx * 4) in
     rbind (field_mask idx) (\<lambda>mask.
     let cfg = memcfg regs AND mask in
     rbind (int_shl (prot OR LIBCFG_V) offset) (\<lambda>v.
     Inr (regs\<lparr>memcfg := cfg OR int_to_u64 v\<rparr>))))"

definition lps_membound_clear :: "LPSRegs \<Rightarrow> cint \<Rightarrow> LPSRegs res" where
  "lps_membound_clear regs idx =
     rbind (rassert (sint idx \<ge> 0 \<and> sint idx < 16)) (\<lambda>_.
     let regs = regs\<lparr>membound := (membound regs)[nat (sint idx) := (0, 0)]\<rparr> in
     rbind (field_mask idx) (\<lambda>mask. Inr (regs\<lparr>memcfg := memcfg regs AND mask\<rparr>)))"

definition lps_jmpbound_set :: "LPSRegs \<Rightarrow> cint \<Rightarrow> u64 \<Rightarrow> u64 \<Rightarrow> LPSRegs res" where
  "lps_jmpbound_set regs idx low high =
     rbind (rassert (sint idx \<ge> 0 \<and> sint idx < 4)) (\<lambda>_.
     let regs = regs\<lparr>jmpbound := (jmpbound regs)[nat (sint idx) := (low, high)]\<rparr>;
         offset = nat (sint idx * 4) in
     rbind (field_mask idx) (\<lambda>mask.
     let cfg = jmpcfg regs AND mask in
     rbind (int_shl JMPCFG_V offset) (\<lambda>v.
     Inr (regs\<lparr>jmpcfg := cfg OR int_to_u64 v\<rparr>))))"

definition lps_jmpbound_clear :: "LPSRegs \<Rightarrow> cint \<Rightarrow> LPSRegs res" where
  "lps_jmpbound_clear regs idx =
     rbind (rassert (sint idx \<ge> 0 \<and> sint idx < 4)) (\<lambda>_.
     let regs = regs\<lparr>jmpbound := (jmpbound regs)[nat (sint idx) := (0, 0)]\<rparr> in
     rbind (field_mask idx) (\<lambda>mask. Inr (regs\<lparr>jmpcfg := jmpcfg regs AND mask\<rparr>)))"

section \<open>Fields of a configuration word\<close>

text \<open>Field k of a configuration word: bits 4k to 4k+3.\<close>

definition cfg_field :: "u64 \<Rightarrow> nat \<Rightarrow> u64" where
  "cfg_field w k = take_bit 4 (drop_bit (4 * k) w)"

lemma bit_cfg_field: "bit (cfg_field w k) n \<longleftrightarrow> n < 4 \<and> bit w (4 * k + n)"
  by (auto simp: cfg_field_def bit_simps)

lemma bit_int_to_u64: "0 \<le> sint (x :: cint) \<Longrightarrow> bit (int_to_u64 x) n \<longleftrightarrow> bit x n"
proof -
  assume "0 \<le> sint x"
  then have top: "\<not> bit x 31" using bit_last_iff [of x] by simp
  show ?thesis
  proof (cases "n < 31")
    case True
    then show ?thesis by (simp add: int_to_u64_def bit_simps min_def)
  next
    case False
    then have "\<not> bit x n" using top bit_imp_le_length [of x n] by (cases "n = 31") auto
    then show ?thesis using False top by (simp add: int_to_u64_def bit_simps min_def)
  qed
qed

lemma bit_int_to_u64_neg: "n < 64 \<Longrightarrow> bit (int_to_u64 (NOT x)) n \<longleftrightarrow> \<not> bit (int_to_u64 (x :: cint)) n"
  by (auto simp: int_to_u64_def bit_simps min_def)

lemma sint_push_bit:
  assumes "0 \<le> sint (x :: cint)" "sint x * 2 ^ k < 2 ^ 31" "k < 31"
  shows "sint (push_bit k x) = sint x * 2 ^ k"
proof -
  have lt: "(2 :: int) ^ k < 2 ^ 31" using assms(3) by (intro power_strict_increasing) auto
  have "sint (word_of_int (2 ^ k) :: cint) = signed_take_bit 31 (2 ^ k)"
    by (simp only: sint_sbintrunc') simp
  also have "\<dots> = 2 ^ k" using lt by (intro signed_take_bit_int_eq_self) (auto intro: order_trans [of _ 0])
  finally have two: "sint ((2 :: cint) ^ k) = 2 ^ k" by simp
  have "sint (push_bit k x) = signed_take_bit 31 (sint x * 2 ^ k)"
    by (simp only: push_bit_eq_mult sint_word_mult two) simp
  also have "\<dots> = sint x * 2 ^ k"
    using assms(1,2) by (intro signed_take_bit_int_eq_self) (auto intro: order_trans [of _ 0])
  finally show ?thesis .
qed

lemma bit_small: "(x :: cint) < 16 \<Longrightarrow> bit x m \<Longrightarrow> m < 4"
proof -
  assume "x < 16" "bit x m"
  then have "unat x < 2 ^ 4" and "bit (unat x) m" by (simp_all add: word_less_nat_alt bit_unsigned_iff)
  then show ?thesis using take_bit_nat_eq_self [of "unat x" 4] by (metis bit_take_bit_iff)
qed

lemma small_sint: "(x :: cint) < 16 \<Longrightarrow> 0 \<le> sint x \<and> sint x < 16"
proof -
  assume x: "x < 16"
  have "uint x < 16" using x by (simp add: word_less_def)
  then have "sint x = uint x"
    unfolding sint_uint by (intro signed_take_bit_int_eq_self) (auto intro: order_trans [of _ 0])
  then show ?thesis using \<open>uint x < 16\<close> by simp
qed

text \<open>Shifting a field value into place, for the indices where the shift is defined.\<close>

lemma shl_field:
  assumes "(x :: cint) < 16" "k \<le> 6"
  shows "int_shl x (4 * k) = Inr (push_bit (4 * k) x)"
    "n < 64 \<Longrightarrow> bit (int_to_u64 (push_bit (4 * k) x)) n \<longleftrightarrow> 4 * k \<le> n \<and> bit x (n - 4 * k)"
proof -
  note sx = small_sint [OF assms(1)]
  have "(2 :: int) ^ (4 * k) \<le> 2 ^ 24" using assms(2) by (intro power_increasing) auto
  then have "sint x * 2 ^ (4 * k) \<le> 15 * 2 ^ 24" using sx by (intro mult_mono) auto
  then have b: "sint x * 2 ^ (4 * k) < 2 ^ 31" by simp
  then show "int_shl x (4 * k) = Inr (push_bit (4 * k) x)" using sx assms(2) by (simp add: int_shl_def)
  have "0 \<le> sint (push_bit (4 * k) x)" using sint_push_bit [of x "4 * k"] sx b assms(2) by simp
  then have "bit (int_to_u64 (push_bit (4 * k) x)) n \<longleftrightarrow> bit (push_bit (4 * k) x) n"
    by (rule bit_int_to_u64)
  then show "bit (int_to_u64 (push_bit (4 * k) x)) n \<longleftrightarrow> 4 * k \<le> n \<and> bit x (n - 4 * k)"
    using bit_small [OF assms(1), of "n - 4 * k"] assms(2) by (auto simp: bit_simps)
qed

text \<open>An index that the masks work for, as the number k.\<close>

lemma index_cases:
  assumes "0 \<le> sint (idx :: cint)" "sint idx \<le> 6"
  obtains k where "k \<le> 6" "nat (sint idx) = k" "nat (sint idx * 4) = 4 * k"
  using assms by (intro that [of "nat (sint idx)"]) auto

lemma field_mask_ok:
  assumes "0 \<le> sint (idx :: cint)" "sint idx \<le> 6"
  obtains m where "field_mask idx = Inr m"
    "\<forall>n < 64. bit m n \<longleftrightarrow> n < 4 * nat (sint idx) \<or> 4 * nat (sint idx) + 4 \<le> n"
proof -
  obtain k where k: "k \<le> 6" "nat (sint idx) = k" "nat (sint idx * 4) = 4 * k"
    using assms by (rule index_cases)
  note sh = shl_field [of "0xf" k]
  have mask: "field_mask idx = Inr (int_to_u64 (NOT (push_bit (4 * k) 0xf)))"
    using sh(1) k by (simp add: field_mask_def Let_def)
  have low: "bit (0xf :: cint) j \<longleftrightarrow> j < 4" for j
    using bit_mask_iff [of 4 j, where ?'a = "32 word"] by (simp add: mask_numeral mask_eq_exp_minus_1 possible_bit_def) auto
  show thesis
  proof (rule that [OF mask], intro allI impI)
    fix n :: nat assume n: "n < 64"
    show "bit (int_to_u64 (NOT (push_bit (4 * k) 0xf))) n \<longleftrightarrow> n < 4 * nat (sint idx) \<or> 4 * nat (sint idx) + 4 \<le> n"
      using bit_int_to_u64_neg [OF n] sh(2) [OF _ k(1) n] k(2) low by auto
  qed
qed

lemma cfg_put_field:
  assumes m: "\<forall>n < 64. bit m n \<longleftrightarrow> n < 4 * k \<or> 4 * k + 4 \<le> n" and v: "(v :: cint) < 16" "k \<le> 6"
  shows "cfg_field (w AND m OR int_to_u64 (push_bit (4 * k) v)) j = (if j = k then ucast v else cfg_field w j)"
    "cfg_field (w AND m) j = (if j = k then 0 else cfg_field w j)"
proof -
  have in_field: "4 * k \<le> 4 * j + n \<and> 4 * j + n < 4 * k + 4 \<longleftrightarrow> j = k" if "n < 4" for n using that by auto
  have w64: "4 * j + n < 64" if "bit w (4 * j + n)" for n using bit_imp_le_length [OF that] by simp
  have mm: "bit m (4 * j + n) \<longleftrightarrow> j \<noteq> k" if "n < 4" "4 * j + n < 64" for n
    using m that in_field [OF that(1)] by (metis linorder_not_less)
  have vv: "bit (int_to_u64 (push_bit (4 * k) v)) (4 * j + n) \<longleftrightarrow> j = k \<and> bit v n" if "n < 4" "4 * j + n < 64" for n
  proof -
    have "4 * k \<le> 4 * j + n \<and> bit v (4 * j + n - 4 * k) \<longleftrightarrow> j = k \<and> bit v n"
      using in_field [OF that(1)] bit_small [OF v(1), of "4 * j + n - 4 * k"] by auto
    then show ?thesis using shl_field(2) [OF v that(2)] by simp
  qed
  have v64: "4 * j + n < 64" if "bit (int_to_u64 (push_bit (4 * k) v)) (4 * j + n)" for n
    using bit_imp_le_length [OF that] by simp
  show "cfg_field (w AND m OR int_to_u64 (push_bit (4 * k) v)) j = (if j = k then ucast v else cfg_field w j)"
  proof (rule bit_word_eqI)
    fix n
    assume "n < LENGTH(64)"
    show "bit (cfg_field (w AND m OR int_to_u64 (push_bit (4 * k) v)) j) n \<longleftrightarrow>
        bit (if j = k then ucast v else cfg_field w j) n"
    proof (cases "n < 4")
      case True
      then show ?thesis
        using mm [OF True] vv [OF True] w64 v64 v(2) \<open>n < LENGTH(64)\<close>
        by (cases "4 * j + n < 64") (auto simp: bit_cfg_field bit_or_iff bit_and_iff bit_unsigned_iff)
    next
      case False
      then show ?thesis using bit_small [OF v(1), of n] by (auto simp: bit_cfg_field bit_unsigned_iff)
    qed
  qed
  show "cfg_field (w AND m) j = (if j = k then 0 else cfg_field w j)"
    using mm w64 by (intro bit_word_eqI) (auto simp: bit_cfg_field bit_and_iff)
qed

section \<open>Properties\<close>

lemma or_valid_small: "(prot :: cint) < 16 \<Longrightarrow> prot OR 8 < 16"
proof -
  assume "prot < 16"
  then have "unat prot < 2 ^ 4" by (simp add: word_less_nat_alt)
  then have "take_bit 4 (unat prot OR 8) = unat prot OR 8"
    by (simp add: take_bit_or take_bit_nat_eq_self)
  then have "unat prot OR 8 < 2 ^ 4" by (metis take_bit_nat_less_exp)
  then show ?thesis by (simp add: word_less_nat_alt unsigned_or_eq)
qed

lemma membound_set_ok:
  assumes "0 \<le> sint idx" "sint idx \<le> 6" "prot < 16"
  obtains regs' where "lps_membound_set regs idx prot low high = Inr regs'"
    "membound regs' = (membound regs)[nat (sint idx) := (low, high)]"
    "\<forall>j. cfg_field (memcfg regs') j = (if j = nat (sint idx) then ucast (prot OR LIBCFG_V) else cfg_field (memcfg regs) j)"
    "regs'\<lparr>memcfg := memcfg regs, membound := membound regs\<rparr> = regs"
proof -
  obtain k where k: "k \<le> 6" "nat (sint idx) = k" "nat (sint idx * 4) = 4 * k" using assms(1,2) by (rule index_cases)
  obtain m where m: "field_mask idx = Inr m" "\<forall>n < 64. bit m n \<longleftrightarrow> n < 4 * k \<or> 4 * k + 4 \<le> n"
    using field_mask_ok [OF assms(1,2)] k(2) by metis
  have v: "prot OR LIBCFG_V < 16" using or_valid_small [OF assms(3)] by (simp add: LIBCFG_V_def)
  let ?regs = "regs\<lparr>membound := (membound regs)[k := (low, high)],
    memcfg := memcfg regs AND m OR int_to_u64 (push_bit (4 * k) (prot OR LIBCFG_V))\<rparr>"
  have "lps_membound_set regs idx prot low high = Inr ?regs"
    using assms(1,2) k m(1) shl_field(1) [OF v k(1)] by (simp add: lps_membound_set_def Let_def)
  then show thesis
  proof (rule that)
    show "\<forall>j. cfg_field (memcfg ?regs) j = (if j = nat (sint idx) then ucast (prot OR LIBCFG_V) else cfg_field (memcfg regs) j)"
      using cfg_put_field(1) [OF m(2) v k(1), of "memcfg regs"] k(2) by simp
  qed (simp_all add: k(2))
qed

lemma shift_ub: "7 \<le> sint (idx :: cint) \<Longrightarrow> sint idx < 16 \<Longrightarrow> field_mask idx = Inl ShiftUB"
proof -
  assume i: "7 \<le> sint idx" "sint idx < 16"
  have "\<not> (nat (sint idx * 4) < 32 \<and> 0 \<le> sint (0xf :: cint) \<and> sint (0xf :: cint) * 2 ^ nat (sint idx * 4) < 2 ^ 31)"
  proof
    assume "nat (sint idx * 4) < 32 \<and> 0 \<le> sint (0xf :: cint) \<and> sint (0xf :: cint) * 2 ^ nat (sint idx * 4) < 2 ^ 31"
    moreover have "(2 :: int) ^ 28 \<le> 2 ^ nat (sint idx * 4)" using i by (intro power_increasing) auto
    ultimately show False by simp
  qed
  then show ?thesis by (simp add: field_mask_def int_shl_def Let_def)
qed

text \<open>
  C35: setting a memory bound. For indices 0 to 6 and a 4 bit protection, \<open>lps_membound_set\<close>
  stores the pair of bounds and puts the protection with the valid bit in the field of the
  index, leaving every other bound, every other field and every other register alone. An index
  outside 0 to 15 fails the assertion, and for 7 to 15, which the assertion admits, the mask is
  computed with an undefined shift.
\<close>

theorem lps_membound_set_correct:
  "(if sint idx < 0 \<or> 16 \<le> sint idx then lps_membound_set regs idx prot low high = Inl AssertFail
    else if 7 \<le> sint idx then lps_membound_set regs idx prot low high = Inl ShiftUB
    else if prot < 16 then
      \<exists>regs'. lps_membound_set regs idx prot low high = Inr regs' \<and>
        membound regs' = (membound regs)[nat (sint idx) := (low, high)] \<and>
        (\<forall>j. cfg_field (memcfg regs') j =
          (if j = nat (sint idx) then ucast (prot OR LIBCFG_V) else cfg_field (memcfg regs) j)) \<and>
        regs'\<lparr>memcfg := memcfg regs, membound := membound regs\<rparr> = regs
    else True)"
proof -
  consider "sint idx < 0 \<or> 16 \<le> sint idx" | "7 \<le> sint idx" "sint idx < 16"
    | "0 \<le> sint idx" "sint idx \<le> 6" by linarith
  then show ?thesis
  proof cases
    case 1
    then have "\<not> (sint idx \<ge> 0 \<and> sint idx < 16)" by auto
    then show ?thesis using 1 by (simp add: lps_membound_set_def)
  next
    case 2
    then show ?thesis using shift_ub [OF 2] by (simp add: lps_membound_set_def Let_def)
  next
    case 3
    show ?thesis
    proof (cases "prot < 16")
      case True
      show ?thesis by (rule membound_set_ok [OF 3 True, of regs low high]) (use 3 True in auto)
    qed (use 3 in auto)
  qed
qed

lemma jmp_valid_small: "JMPCFG_V < 16"
  by (simp add: JMPCFG_V_def)

lemma jmpbound_ok:
  assumes "0 \<le> sint idx" "sint idx < 4"
  shows "(\<exists>regs'. lps_jmpbound_set regs idx low high = Inr regs' \<and>
        jmpbound regs' = (jmpbound regs)[nat (sint idx) := (low, high)] \<and>
        (\<forall>j. cfg_field (jmpcfg regs') j =
          (if j = nat (sint idx) then ucast JMPCFG_V else cfg_field (jmpcfg regs) j)) \<and>
        regs'\<lparr>jmpcfg := jmpcfg regs, jmpbound := jmpbound regs\<rparr> = regs)" (is ?set)
    and "(\<exists>regs'. lps_jmpbound_clear regs idx = Inr regs' \<and>
        jmpbound regs' = (jmpbound regs)[nat (sint idx) := (0, 0)] \<and>
        (\<forall>j. cfg_field (jmpcfg regs') j = (if j = nat (sint idx) then 0 else cfg_field (jmpcfg regs) j)) \<and>
        regs'\<lparr>jmpcfg := jmpcfg regs, jmpbound := jmpbound regs\<rparr> = regs)" (is ?clear)
proof -
  have i: "0 \<le> sint idx" "sint idx \<le> 6" "sint idx < 4" using assms by auto
  obtain k where k: "k \<le> 6" "nat (sint idx) = k" "nat (sint idx * 4) = 4 * k" using i(1,2) by (rule index_cases)
  obtain m where m: "field_mask idx = Inr m" "\<forall>n < 64. bit m n \<longleftrightarrow> n < 4 * k \<or> 4 * k + 4 \<le> n"
    using field_mask_ok [OF i(1,2)] k(2) by metis
  note put = cfg_put_field [OF m(2) jmp_valid_small k(1), of "jmpcfg regs"]
  have "lps_jmpbound_set regs idx low high = Inr (regs\<lparr>jmpbound := (jmpbound regs)[k := (low, high)],
      jmpcfg := jmpcfg regs AND m OR int_to_u64 (push_bit (4 * k) JMPCFG_V)\<rparr>)"
    using i k m(1) shl_field(1) [OF jmp_valid_small k(1)] by (simp add: lps_jmpbound_set_def Let_def)
  moreover have "lps_jmpbound_clear regs idx = Inr (regs\<lparr>jmpbound := (jmpbound regs)[k := (0, 0)],
      jmpcfg := jmpcfg regs AND m\<rparr>)"
    using i k m(1) by (simp add: lps_jmpbound_clear_def Let_def)
  ultimately show ?set ?clear using k(2) put by auto
qed

text \<open>
  Jump bounds. For indices 0 to 3 \<open>lps_jmpbound_set\<close> stores the bounds and marks exactly
  that field valid, and \<open>lps_jmpbound_clear\<close> empties it; any other index fails the assertion.
\<close>

theorem lps_jmpbound_correct:
  "(if sint idx < 0 \<or> 4 \<le> sint idx
    then lps_jmpbound_set regs idx low high = Inl AssertFail \<and> lps_jmpbound_clear regs idx = Inl AssertFail
    else
      (\<exists>regs'. lps_jmpbound_set regs idx low high = Inr regs' \<and>
        jmpbound regs' = (jmpbound regs)[nat (sint idx) := (low, high)] \<and>
        (\<forall>j. cfg_field (jmpcfg regs') j =
          (if j = nat (sint idx) then ucast JMPCFG_V else cfg_field (jmpcfg regs) j)) \<and>
        regs'\<lparr>jmpcfg := jmpcfg regs, jmpbound := jmpbound regs\<rparr> = regs) \<and>
      (\<exists>regs'. lps_jmpbound_clear regs idx = Inr regs' \<and>
        jmpbound regs' = (jmpbound regs)[nat (sint idx) := (0, 0)] \<and>
        (\<forall>j. cfg_field (jmpcfg regs') j = (if j = nat (sint idx) then 0 else cfg_field (jmpcfg regs) j)) \<and>
        regs'\<lparr>jmpcfg := jmpcfg regs, jmpbound := jmpbound regs\<rparr> = regs))"
proof (cases "sint idx < 0 \<or> 4 \<le> sint idx")
  case True
  then have "\<not> (sint idx \<ge> 0 \<and> sint idx < 4)" by auto
  then show ?thesis using True by (simp add: lps_jmpbound_set_def lps_jmpbound_clear_def)
next
  case False
  then show ?thesis using jmpbound_ok [of idx regs] by auto
qed

end
