(* ===== verification/Box.thy ===== *)
theory Box
  imports Mmap_Spec Boxmap_Spec Bound
begin

text \<open>
  Engines, sandboxes and contexts: \<open>lps-core/core.c\<close>, \<open>box.c\<close> and \<open>ctx.c\<close>. A sandbox couples the
  bookkeeping of \<open>mmap.c\<close> with calls of the host's \<open>mmap\<close>; the host's state is the client state of
  the mapper, so that the callback \<open>cbunmap\<close> runs on it. Engine and box are separate values here:
  the model passes the engine where the code follows \<open>box->engine\<close>.
\<close>

section \<open>Engine\<close>

record LPSOptions =
  boxsize :: u64
  verbose :: bool

record LPSEngine =
  le_bm :: BoxMap
  le_opts :: LPSOptions
  le_sys_handler :: bool

definition lps_new :: "'h hostvm \<Rightarrow> LPSOptions \<Rightarrow> u64 \<Rightarrow> 'h \<Rightarrow> (LPSEngine option \<times> 'h) res" where
  "lps_new hv opts nsandboxes h =
     (case hv_malloc hv 40 h of
        (False, h) \<Rightarrow> Inr (None, h)
      | (True, h) \<Rightarrow>
          (case boxmap_new hv \<lparr>chunksize = boxsize opts\<rparr> h of
             (None, h) \<Rightarrow> Inr (None, h)
           | (Some bm, h) \<Rightarrow>
               (let res = nsandboxes * boxsize opts in
                rbind (boxmap_reserve hv bm res h) (\<lambda>(ok, bm, h).
                  if \<not> ok then Inr (None, boxmap_delete hv bm h)
                  else Inr (Some \<lparr>le_bm = bm, le_opts = opts, le_sys_handler = False\<rparr>, h)))))"

definition lps_free :: "'h hostvm \<Rightarrow> LPSEngine \<Rightarrow> 'h \<Rightarrow> 'h" where
  "lps_free hv engine h = boxmap_delete hv (le_bm engine) h"

definition lps_sys_handler :: "LPSEngine \<Rightarrow> bool \<Rightarrow> LPSEngine" where
  "lps_sys_handler engine handler = engine\<lparr>le_sys_handler := handler\<rparr>"

text \<open>
  The entry from the assembly: \<open>le_sys_handler\<close> says whether a handler is set, and sys is what the
  handler does.
\<close>

definition lps_syscall_handler :: "LPSEngine \<Rightarrow> ('c \<Rightarrow> 'c res) \<Rightarrow> 'c \<Rightarrow> 'c res" where
  "lps_syscall_handler engine sys ctx = rbind (rassert (le_sys_handler engine)) (\<lambda>_. sys ctx)"

text \<open>Control and status registers by number; \<open>csr_write\<close> is one instruction.\<close>

definition CSR_USTATUS :: u64 where "CSR_USTATUS = 0x000"
definition CSR_UIE :: u64 where "CSR_UIE = 0x004"

definition csr_write :: "u64 \<Rightarrow> u64 \<Rightarrow> (u64 \<Rightarrow> u64) \<Rightarrow> u64 \<Rightarrow> u64" where
  "csr_write csr val csrs = csrs(csr := val)"

definition lps_utimer_init :: "(u64 \<Rightarrow> u64) \<Rightarrow> u64 \<Rightarrow> u64" where
  "lps_utimer_init csrs = csr_write CSR_UIE 0x111 (csr_write CSR_USTATUS 0x10 csrs)"

section \<open>Sandboxes\<close>

record 'h LPSBox =
  bx_st :: "'h mstate"
  bx_base :: u64
  bx_size :: u64
  bx_userdata :: u64

text \<open>
  \<open>lps_box_new\<close>: the box gets a fresh chunk and an empty address space over it. The list nodes
  of the new address space are taken from a heap of their own.
\<close>

definition lps_box_new ::
  "'h hostvm \<Rightarrow> (nat \<Rightarrow> bool) \<Rightarrow> LPSEngine \<Rightarrow> 'h \<Rightarrow> ('h LPSBox option \<times> LPSEngine \<times> 'h) res" where
  "lps_box_new hv oom engine h =
     (case hv_malloc hv 96 h of
        (False, h) \<Rightarrow> Inr (None, engine, h)
      | (True, h) \<Rightarrow>
          (let sz = boxsize (le_opts engine) in
           rbind (boxmap_addspace (le_bm engine) sz) (\<lambda>(base, bm).
           let engine = engine\<lparr>le_bm := bm\<rparr> in
           if base = 0 then Inr (None, engine, h)
           else
             rbind (mm_init base sz 4096) (\<lambda>(ok, mm).
             if \<not> ok then
               rbind (boxmap_rmspace bm base sz) (\<lambda>bm. Inr (None, engine\<lparr>le_bm := bm\<rparr>, h))
             else
               Inr (Some \<lparr>bx_st = \<lparr>s_heap = \<lparr>h_cells = Map.empty, h_next = 0, h_oom = oom\<rparr>, s_mm = mm, s_ud = h\<rparr>,
                          bx_base = base, bx_size = sz, bx_userdata = 0\<rparr>, engine, h)))))"

definition cbunmap :: "'h hostvm \<Rightarrow> 'h ufn" where
  "cbunmap hv start len info h =
     (case hv_mmap hv start len PROT_NONE (MAP_ANONYMOUS OR MAP_PRIVATE OR MAP_FIXED) (-1) 0 h of
        (p, h) \<Rightarrow> rbind (rassert (p = start)) (\<lambda>_. Inr h))"

definition in_box :: "'h LPSBox \<Rightarrow> u64 \<Rightarrow> u64 \<Rightarrow> bool" where
  "in_box box addr sz \<longleftrightarrow> addr \<ge> bx_base box \<and> addr + sz \<le> bx_base box + bx_size box"

text \<open>The common tail of the two mapping calls: back the recorded range with host memory.\<close>

definition box_commit ::
  "'h hostvm \<Rightarrow> 'h LPSBox \<Rightarrow> u64 \<Rightarrow> u64 \<Rightarrow> cint \<Rightarrow> cint \<Rightarrow> cint \<Rightarrow> u64 \<Rightarrow> (u64 \<times> 'h LPSBox) res" where
  "box_commit hv box m_addr sz prot flags fd off =
     (case hv_mmap hv m_addr sz prot (flags OR MAP_FIXED) fd off (s_ud (bx_st box)) of
        (mem, h) \<Rightarrow>
          (let st = (bx_st box)\<lparr>s_ud := h\<rparr> in
           if mem = -1 then
             rbind (mm_unmap st m_addr sz) (\<lambda>(_, st). Inr (-1, box\<lparr>bx_st := st\<rparr>))
           else Inr (mem, box\<lparr>bx_st := st\<rparr>)))"

definition lps_box_mapat ::
  "'h hostvm \<Rightarrow> 'h LPSBox \<Rightarrow> u64 \<Rightarrow> u64 \<Rightarrow> cint \<Rightarrow> cint \<Rightarrow> cint \<Rightarrow> u64 \<Rightarrow> (u64 \<times> 'h LPSBox) res" where
  "lps_box_mapat hv box addr sz prot flags fd off =
     rbind (rassert (in_box box addr sz)) (\<lambda>_.
     rbind (mm_mapat_cb (bx_st box) addr sz prot flags fd off (Some (cbunmap hv))) (\<lambda>(m_addr, st).
     let box = box\<lparr>bx_st := st\<rparr> in
     if m_addr = -1 then Inr (-1, box)
     else box_commit hv box m_addr sz prot flags fd off))"

definition lps_box_mapany ::
  "'h hostvm \<Rightarrow> 'h LPSBox \<Rightarrow> u64 \<Rightarrow> cint \<Rightarrow> cint \<Rightarrow> cint \<Rightarrow> u64 \<Rightarrow> (u64 \<times> 'h LPSBox) res" where
  "lps_box_mapany hv box sz prot flags fd off =
     rbind (mm_mapany (bx_st box) sz prot flags fd off) (\<lambda>(m_addr, st).
     let box = box\<lparr>bx_st := st\<rparr> in
     if m_addr = -1 then Inr (-1, box)
     else box_commit hv box m_addr sz prot flags fd off)"

definition lps_box_munmap :: "'h hostvm \<Rightarrow> 'h LPSBox \<Rightarrow> u64 \<Rightarrow> u64 \<Rightarrow> (cint \<times> 'h LPSBox) res" where
  "lps_box_munmap hv box addr sz =
     (if in_box box addr sz then
        rbind (mm_unmap_cb (bx_st box) addr sz (Some (cbunmap hv))) (\<lambda>(r, st). Inr (r, box\<lparr>bx_st := st\<rparr>))
      else Inr (-1, box))"

definition lps_box_mprotect :: "'h hostvm \<Rightarrow> 'h LPSBox \<Rightarrow> u64 \<Rightarrow> u64 \<Rightarrow> cint \<Rightarrow> (cint \<times> 'h LPSBox) res" where
  "lps_box_mprotect hv box addr sz prot =
     rbind (rassert (in_box box addr sz)) (\<lambda>_.
     case hv_mprotect hv addr sz prot (s_ud (bx_st box)) of
       (r, h) \<Rightarrow> Inr (r, box\<lparr>bx_st := (bx_st box)\<lparr>s_ud := h\<rparr>\<rparr>))"

record LPSBoxInfo =
  bi_base :: u64
  bi_size :: u64

definition lps_box_info :: "'h LPSBox \<Rightarrow> LPSBoxInfo" where
  "lps_box_info box = \<lparr>bi_base = bx_base box, bi_size = bx_size box\<rparr>"

definition lps_box_ptrvalid :: "'h LPSBox \<Rightarrow> u64 \<Rightarrow> bool" where
  "lps_box_ptrvalid box addr \<longleftrightarrow> addr \<ge> bx_base box \<and> addr < bx_base box + bx_size box"

definition lps_box_setdata :: "'h LPSBox \<Rightarrow> u64 \<Rightarrow> 'h LPSBox" where
  "lps_box_setdata box userdata = box\<lparr>bx_userdata := userdata\<rparr>"

section \<open>Contexts\<close>

record LPSContext =
  cx_regs :: LPSRegs
  cx_kregs :: KRegs
  cx_userdata :: u64

definition zero_regs :: LPSRegs where
  "zero_regs = \<lparr>host_sp = 0, host_gp = 0, host_tp = 0, pad = 0,
     r_zero = 0, r_ra = 0, r_sp = 0, r_gp = 0, r_tp = 0, r_t0 = 0, r_t1 = 0, r_t2 = 0, r_s0 = 0, r_s1 = 0,
     r_a0 = 0, r_a1 = 0, r_a2 = 0, r_a3 = 0, r_a4 = 0, r_a5 = 0, r_a6 = 0, r_a7 = 0,
     r_s2 = 0, r_s3 = 0, r_s4 = 0, r_s5 = 0, r_s6 = 0, r_s7 = 0, r_s8 = 0, r_s9 = 0, r_s10 = 0, r_s11 = 0,
     r_t3 = 0, r_t4 = 0, r_t5 = 0, r_t6 = 0, r_f = replicate 32 0,
     uepc = 0, ucause = 0, utval = 0, dfreason = 0,
     memcfg = 0, membound = replicate 16 (0, 0), jmpcfg = 0, jmpbound = replicate 4 (0, 0)\<rparr>"

definition zero_kregs :: KRegs where
  "zero_kregs = \<lparr>k_ra = 0, k_sp = 0, k_s0 = 0, k_s1 = 0, k_s2 = 0, k_s3 = 0, k_s4 = 0, k_s5 = 0,
     k_s6 = 0, k_s7 = 0, k_s8 = 0, k_s9 = 0, k_s10 = 0, k_s11 = 0, k_sp_base = 0\<rparr>"

definition kregs_init :: "KRegs \<Rightarrow> u64 \<Rightarrow> u64 \<Rightarrow> u64 \<Rightarrow> KRegs" where
  "kregs_init kregs entry sp sp_base = kregs\<lparr>k_sp := sp, k_sp_base := sp_base, k_ra := entry\<rparr>"

text \<open>
  \<open>kstack\<close> is the address \<open>malloc\<close> returns for the kernel stack, None when one of the two
  allocations fails; \<open>entry\<close> is the address of \<open>lps_ctx_entry\<close>.
\<close>

definition lps_ctx_new ::
  "u64 \<Rightarrow> u64 option \<Rightarrow> 'h LPSBox \<Rightarrow> u64 \<Rightarrow> LPSContext option res" where
  "lps_ctx_new entry kstack box userdata =
     (case kstack of
        None \<Rightarrow> Inr None
      | Some ks \<Rightarrow>
          (let kstackp = ks + 2 * 1024 * 1024;
               kregs = kregs_init zero_kregs entry kstackp ks in
           rbind (lps_membound_set zero_regs 0 (LIBCFG_R OR LIBCFG_W) (bx_base box) (bx_base box + bx_size box)) (\<lambda>regs.
           rbind (lps_jmpbound_set regs 0 (bx_base box) (bx_base box + bx_size box)) (\<lambda>regs.
           Inr (Some \<lparr>cx_regs = regs, cx_kregs = kregs, cx_userdata = userdata\<rparr>)))))"

definition lps_ctx_data :: "LPSContext \<Rightarrow> u64" where
  "lps_ctx_data ctx = cx_userdata ctx"

definition lps_ctx_regs :: "LPSContext \<Rightarrow> LPSRegs" where
  "lps_ctx_regs ctx = cx_regs ctx"

text \<open>
  The thread-local state of \<open>ctx.c\<close> and the callee-saved registers of the processor. \<open>kswitch\<close>
  (\<open>runtime.S\<close>) stores the registers in the old context and loads the new one's; \<open>sp_base\<close> is
  not a register and stays. The two readings of the cycle counter around \<open>lps_load_dasics\<close> are
  arguments of \<open>lps_kswitch_to\<close>.
\<close>

record 'c kstate =
  ks_myctx :: "'c option"
  ks_kctx :: KRegs
  ks_csr_cycles :: u64
  ks_count :: u64
  ks_cpu :: KRegs

definition kswitch :: "KRegs \<Rightarrow> KRegs \<Rightarrow> KRegs \<Rightarrow> KRegs \<times> KRegs" where
  "kswitch cpu old new =
     (cpu\<lparr>k_sp_base := k_sp_base old\<rparr>, new\<lparr>k_sp_base := k_sp_base cpu\<rparr>)"

definition lps_cur_ctx :: "'c kstate \<Rightarrow> 'c option" where
  "lps_cur_ctx k = ks_myctx k"

definition lps_set_ctx :: "'c \<Rightarrow> 'c kstate \<Rightarrow> 'c kstate" where
  "lps_set_ctx ctx k = k\<lparr>ks_myctx := Some ctx\<rparr>"

definition lps_kswitch_to :: "u64 \<times> u64 \<Rightarrow> 'c \<Rightarrow> KRegs \<Rightarrow> 'c kstate \<Rightarrow> 'c kstate" where
  "lps_kswitch_to cycles ctx kregs k =
     (let (t0, t1) = cycles;
          k = k\<lparr>ks_myctx := Some ctx, ks_csr_cycles := ks_csr_cycles k + (t1 - t0), ks_count := ks_count k + 1\<rparr>;
          (old, cpu) = kswitch (ks_cpu k) (ks_kctx k) kregs
      in k\<lparr>ks_kctx := old, ks_cpu := cpu\<rparr>)"

definition lps_kswitch_from :: "KRegs \<Rightarrow> 'c kstate \<Rightarrow> KRegs \<times> 'c kstate" where
  "lps_kswitch_from kregs k =
     (let (old, cpu) = kswitch (ks_cpu k) kregs (ks_kctx k) in (old, k\<lparr>ks_cpu := cpu\<rparr>))"

section \<open>Statistics\<close>

definition lps_switch_stats_reset :: "'c kstate \<Rightarrow> 'c kstate" where
  "lps_switch_stats_reset k = k\<lparr>ks_csr_cycles := 0, ks_count := 0\<rparr>"

text \<open>The three numbers \<open>lps_switch_stats_print\<close> prints, None when there was no switch.\<close>

definition lps_switch_stats_print :: "'c kstate \<Rightarrow> (u64 \<times> u64 \<times> u64) option" where
  "lps_switch_stats_print k =
     (if ks_count k = 0 then None else Some (ks_count k, ks_csr_cycles k, ks_csr_cycles k div ks_count k))"

end
