(* ===== verification/Box_Spec.thy ===== *)
theory Box_Spec
  imports Box
begin

text \<open>
  What a sandbox guarantees: its bookkeeping stays well formed and within its own chunk, and no
  operation asks the host to map memory outside the sandbox.
\<close>

section \<open>Hypotheses about the host\<close>

text \<open>
  Replacing one or more pages by inaccessible ones succeeds and is placed where asked
  (mmap(2), anonymous private mapping with \<open>MAP_FIXED\<close> over an existing mapping).
\<close>

definition none_ok :: "'h hostvm \<Rightarrow> bool" where
  "none_ok hv \<longleftrightarrow> (\<forall>a n h. n \<noteq> 0 \<longrightarrow> fst (hv_mmap hv a n PROT_NONE (MAP_ANONYMOUS OR MAP_PRIVATE OR MAP_FIXED) (-1) 0 h) = a)"

text \<open>I is a property of the host's state that mappings inside a range of addresses cannot break.\<close>

definition host_keeps :: "'h hostvm \<Rightarrow> nat \<Rightarrow> nat \<Rightarrow> ('h \<Rightarrow> bool) \<Rightarrow> bool" where
  "host_keeps hv lo hi I \<longleftrightarrow>
     (\<forall>a n prot flags fd off h. lo \<le> unat a \<and> unat a + unat n \<le> hi \<and> I h \<longrightarrow>
        I (snd (hv_mmap hv a n prot flags fd off h)))"

section \<open>Well-formed boxes\<close>

definition box_ok :: "'h LPSBox \<Rightarrow> bool" where
  "box_ok box \<longleftrightarrow> mm_wf (bx_st box) \<and> mm_p2pagesize (s_mm (bx_st box)) = 12 \<and>
     unat (bx_base box) = unat (mm_base (s_mm (bx_st box))) * 2 ^ 12 \<and>
     unat (bx_size box) = unat (mm_len (s_mm (bx_st box))) * 2 ^ 12"

definition mem_ok :: "'h LPSBox \<Rightarrow> bool" where
  "mem_ok box \<longleftrightarrow> h_oom (s_heap (bx_st box)) = (\<lambda>_. False)"

abbreviation box_lo :: "'h LPSBox \<Rightarrow> nat" where "box_lo box \<equiv> unat (bx_base box)"
abbreviation box_hi :: "'h LPSBox \<Rightarrow> nat" where "box_hi box \<equiv> unat (bx_base box) + unat (bx_size box)"
abbreviation box_req :: "'h LPSBox \<Rightarrow> u64 \<Rightarrow> u64 \<Rightarrow> bool" where
  "box_req box addr sz \<equiv> unmap_req (s_mm (bx_st box)) addr sz"
abbreviation box_pages :: "'h LPSBox \<Rightarrow> nat \<Rightarrow> MMInfo option" where
  "box_pages box \<equiv> mm_pages (bx_st box)"
abbreviation box_host :: "'h LPSBox \<Rightarrow> 'h" where
  "box_host box \<equiv> s_ud (bx_st box)"

lemma box_ok_limit:
  assumes "box_ok box"
  shows "box_hi box = (unat (mm_base (s_mm (bx_st box))) + unat (mm_len (s_mm (bx_st box)))) * 2 ^ 12"
    "box_hi box < 2 ^ 64" "mm_ok (s_mm (bx_st box))"
proof -
  show hi: "box_hi box = (unat (mm_base (s_mm (bx_st box))) + unat (mm_len (s_mm (bx_st box)))) * 2 ^ 12"
    using assms by (simp add: box_ok_def add_mult_distrib)
  show ok: "mm_ok (s_mm (bx_st box))" using assms mm_wf_ok by (auto simp: box_ok_def)
  then show "box_hi box < 2 ^ 64"
    unfolding hi using assms by (simp add: mm_ok_def box_ok_def)
qed

lemma pages_up_bytes: "n \<le> pages_up p n * 2 ^ p"
proof -
  have "n \<le> round_up (2 ^ p) n" by (rule round_up_ge) simp
  then show ?thesis by (simp add: round_up_def pages_up_def)
qed

text \<open>A page range of the address space, as addresses, lies in the box.\<close>

lemma page_range_in_box:
  assumes "box_ok box" "unat (mm_base (s_mm (bx_st box))) \<le> m"
    "m + n \<le> unat (mm_base (s_mm (bx_st box))) + unat (mm_len (s_mm (bx_st box)))"
  shows "box_lo box \<le> m * 2 ^ 12" "m * 2 ^ 12 + n * 2 ^ 12 \<le> box_hi box"
proof -
  show "box_lo box \<le> m * 2 ^ 12" using assms(1,2) by (simp add: box_ok_def)
  have "(m + n) * 2 ^ 12 \<le> (unat (mm_base (s_mm (bx_st box))) + unat (mm_len (s_mm (bx_st box)))) * 2 ^ 12"
    using assms(3) by (intro mult_le_mono1)
  then show "m * 2 ^ 12 + n * 2 ^ 12 \<le> box_hi box"
    unfolding box_ok_limit(1) [OF assms(1)] by (simp add: add_mult_distrib)
qed

lemma box_req_range:
  assumes "box_ok box" "box_req box addr sz"
  shows "box_lo box \<le> unat addr" "unat addr + unat sz \<le> box_hi box" "in_box box addr sz"
proof -
  have p: "mm_p2pagesize (s_mm (bx_st box)) = 12" using assms(1) by (simp add: box_ok_def)
  let ?A = "unat addr div 2 ^ 12" and ?N = "pages_up 12 (unat sz)"
  have al: "unat addr = ?A * 2 ^ 12" using assms(2) p by (simp add: unmap_req_def)
  have rg: "unat (mm_base (s_mm (bx_st box))) \<le> ?A"
      "?A + ?N \<le> unat (mm_base (s_mm (bx_st box))) + unat (mm_len (s_mm (bx_st box)))"
    using assms(2) p by (simp_all add: unmap_req_def)
  note r = page_range_in_box [OF assms(1) rg]
  show lo: "box_lo box \<le> unat addr" using r(1) al by simp
  show hi: "unat addr + unat sz \<le> box_hi box" using r(2) al pages_up_bytes [of "unat sz" 12] by linarith
  have lim: "box_hi box < 2 ^ 64" using assms(1) by (rule box_ok_limit)
  then have "unat (addr + sz) = unat addr + unat sz" "unat (bx_base box + bx_size box) = box_hi box"
    using hi by (simp_all add: unat_add_nowrap)
  then show "in_box box addr sz" using lo hi by (simp add: in_box_def u64_le_iff)
qed

section \<open>The callback on the removed pieces\<close>

text \<open>Regions inside a page range.\<close>

definition segs_in :: "nat \<Rightarrow> nat \<Rightarrow> seg list \<Rightarrow> bool" where
  "segs_in lo hi xs \<longleftrightarrow> (\<forall>(b, l, i) \<in> set xs. lo \<le> b \<and> b + l \<le> hi \<and> 0 < l)"

lemma segs_in_simps [simp]:
  "segs_in lo hi []" "segs_in lo hi ((b, l, i) # xs) \<longleftrightarrow> lo \<le> b \<and> b + l \<le> hi \<and> 0 < l \<and> segs_in lo hi xs"
  by (auto simp: segs_in_def)

lemma hits_in: "segs_ok m hi xs \<Longrightarrow> 0 < n \<Longrightarrow> segs_in a (a + n) (hits a n xs)"
proof (induction xs arbitrary: m)
  case (Cons x xs)
  obtain b l i where x: "x = (b, l, i)" by (cases x)
  have "segs_ok (b + l) hi xs" using Cons.prems by (simp add: x)
  then have "segs_in a (a + n) (hits a n xs)" using Cons.prems(2) by (rule Cons.IH)
  then show ?case using Cons.prems by (auto simp: x)
qed simp

lemma unat_of_nat_push:
  assumes "b * 2 ^ 12 < 2 ^ 64"
  shows "unat (push_bit 12 (of_nat b :: u64)) = b * 2 ^ 12"
proof -
  have "b < 2 ^ 64" by (rule le_less_trans [OF _ assms]) simp
  then show ?thesis using unat_push_bit_nowrap [of "of_nat b" 12] assms by (simp add: unat_of_nat_u64)
qed

lemma run_cbunmap:
  assumes "segs_in lo hi hs" "hi * 2 ^ 12 < 2 ^ 64" "none_ok hv" "host_keeps hv (lo * 2 ^ 12) (hi * 2 ^ 12) I" "I h"
  shows "\<exists>h'. run_ufn (Some (cbunmap hv)) 12 hs h = Inr h' \<and> I h'"
  using assms(1,5)
proof (induction hs arbitrary: h)
  case (Cons x hs)
  obtain b l i where x: "x = (b, l, i)" by (cases x)
  have bl: "lo \<le> b" "b + l \<le> hi" "segs_in lo hi hs" "0 < l" using Cons.prems(1) by (simp_all add: x)
  have bytes: "b * 2 ^ 12 + l * 2 ^ 12 \<le> hi * 2 ^ 12"
    using mult_le_mono1 [OF bl(2), of "2 ^ 12"] by (simp add: add_mult_distrib)
  have ub: "unat (push_bit 12 (of_nat b :: u64)) = b * 2 ^ 12" "unat (push_bit 12 (of_nat l :: u64)) = l * 2 ^ 12"
    using bytes assms(2) by (simp_all add: unat_of_nat_push)
  obtain p h1 where m: "hv_mmap hv (push_bit 12 (of_nat b)) (push_bit 12 (of_nat l)) PROT_NONE
      (MAP_ANONYMOUS OR MAP_PRIVATE OR MAP_FIXED) (-1) 0 h = (p, h1)" by (rule prod.exhaust)
  have "push_bit 12 (of_nat l :: u64) \<noteq> 0" using ub(2) bl(4) by auto
  then have "fst (hv_mmap hv (push_bit 12 (of_nat b)) (push_bit 12 (of_nat l)) PROT_NONE
      (MAP_ANONYMOUS OR MAP_PRIVATE OR MAP_FIXED) (-1) 0 h) = push_bit 12 (of_nat b)"
    using assms(3) unfolding none_ok_def by blast
  then have p: "p = push_bit 12 (of_nat b)" using m by (simp only: fst_conv)
  have "lo * 2 ^ 12 \<le> unat (push_bit 12 (of_nat b :: u64)) \<and>
      unat (push_bit 12 (of_nat b :: u64)) + unat (push_bit 12 (of_nat l :: u64)) \<le> hi * 2 ^ 12"
    using ub bytes bl(1) by simp
  then have "I (snd (hv_mmap hv (push_bit 12 (of_nat b)) (push_bit 12 (of_nat l)) PROT_NONE
      (MAP_ANONYMOUS OR MAP_PRIVATE OR MAP_FIXED) (-1) 0 h))"
    using assms(4) Cons.prems(2) unfolding host_keeps_def by blast
  then have "I h1" using m by (simp only: snd_conv)
  then obtain h' where "run_ufn (Some (cbunmap hv)) 12 hs h1 = Inr h'" "I h'" using Cons.IH bl(3) by blast
  moreover have "run_ufn (Some (cbunmap hv)) 12 (x # hs) h = run_ufn (Some (cbunmap hv)) 12 hs h1"
    using m p by (simp add: x cbunmap_def)
  ultimately show ?case by simp
qed simp

lemma box_callback_ok:
  assumes "box_ok box" "box_req box addr sz" "none_ok hv" "host_keeps hv (box_lo box) (box_hi box) I" "I (box_host box)"
  obtains h' where "run_ufn (Some (cbunmap hv)) (mm_p2pagesize (s_mm (bx_st box)))
      (hits (req_page (s_mm (bx_st box)) addr) (req_pages (s_mm (bx_st box)) sz) (mm_segs (bx_st box)))
      (box_host box) = Inr h'" "I h'"
proof -
  let ?mm = "s_mm (bx_st box)"
  have p: "mm_p2pagesize ?mm = 12" and wf: "mm_wf (bx_st box)" using assms(1) by (simp_all add: box_ok_def)
  let ?hs = "hits (req_page ?mm addr) (req_pages ?mm sz) (mm_segs (bx_st box))"
  have "segs_in (req_page ?mm addr) (req_page ?mm addr + req_pages ?mm sz) ?hs"
    using mm_wf_segs [OF wf] unmap_req_checks(7) [OF mm_wf_ok [OF wf] assms(2)] by (rule hits_in)
  then have "segs_in (unat (mm_base ?mm)) (unat (mm_base ?mm) + unat (mm_len ?mm)) ?hs"
    using assms(2) unfolding segs_in_def unmap_req_def by fastforce
  moreover have lo: "unat (mm_base ?mm) * 2 ^ 12 = box_lo box" using assms(1) by (simp add: box_ok_def)
  moreover note hi = box_ok_limit(1,2) [OF assms(1)]
  moreover have "(unat (mm_base ?mm) + unat (mm_len ?mm)) * 2 ^ 12 < 2 ^ 64" using hi by (simp only:)
  moreover have "host_keeps hv (unat (mm_base ?mm) * 2 ^ 12) ((unat (mm_base ?mm) + unat (mm_len ?mm)) * 2 ^ 12) I"
    using assms(4) lo hi(1) by (simp only:)
  ultimately have "\<exists>h'. run_ufn (Some (cbunmap hv)) 12 ?hs (box_host box) = Inr h' \<and> I h'"
    using assms(3,5) by (intro run_cbunmap)
  then show thesis using that p by auto
qed

section \<open>Operations keep the box\<close>

lemma box_ok_update:
  assumes "box_ok box" "mm_wf st" "mm_same (s_mm (bx_st box)) (s_mm st)"
  shows "box_ok (box\<lparr>bx_st := st\<rparr>)"
  using assms by (simp add: box_ok_def mm_same_def)

lemma mm_wf_ud: "mm_wf (st\<lparr>s_ud := h\<rparr>) = mm_wf st" "mm_segs (st\<lparr>s_ud := h\<rparr>) = mm_segs st"
  by (simp_all add: mm_wf_def wf_at_def mm_segs_def mm_addrs_def)

lemma mapat_state:
  assumes "mm_wf st" "unmap_req (s_mm st) addr len" "h_oom (s_heap st) = (\<lambda>_. False)"
    "run_ufn ufn (mm_p2pagesize (s_mm st)) (hits (req_page (s_mm st) addr) (req_pages (s_mm st) len) (mm_segs st))
       (s_ud st) = Inr u"
  obtains st' where "mm_mapat_cb st addr len prot flags fd offset ufn = Inr (addr, st')" "mm_wf st'" "s_ud st' = u"
    "mm_pages st' = (\<lambda>q. if req_page (s_mm st) addr \<le> q \<and> q < req_page (s_mm st) addr + req_pages (s_mm st) len
                       then Some (new_info prot flags fd offset) else mm_pages st q)"
    "mm_same (s_mm st) (s_mm st')" "h_oom (s_heap st') = h_oom (s_heap st)"
proof -
  let ?A = "req_page (s_mm st) addr" and ?N = "req_pages (s_mm st) len" and ?i = "new_info prot flags fd offset"
  note ck = unmap_req_checks [OF mm_wf_ok [OF assms(1)] assms(2)] and ok = mm_wf_segs [OF assms(1)]
  obtain st' as' where s': "mm_mapat_cb st addr len prot flags fd offset ufn = Inr (addr, st')" "wf_at {} st' as'"
      "segs_at (s_cells st') as' = ins_seg (?A, ?N, ?i) (unm ?A ?N (segs_at (s_cells st) (mm_addrs st)))" "s_ud st' = u"
      "mm_same (s_mm st) (s_mm st')" "h_oom (s_heap st') = h_oom (s_heap st)"
    by (rule mapat_cb_ok [OF mm_wf_at [OF assms(1)] assms(2) _ _ assms(4) [unfolded mm_segs_def]]) (simp_all add: assms(3))
  have seg: "mm_segs st' = ins_seg (?A, ?N, ?i) (unm ?A ?N (mm_segs st))"
    using s'(3) wf_at_segs [OF s'(2)] by (simp add: mm_segs_def)
  have "mm_pages st' q = (if ?A \<le> q \<and> q < ?A + ?N then Some ?i else mm_pages st q)" for q
    using ins_free_pages [OF unm_ok [OF ok] unm_range_free [OF ok ck(7)] ck(7), of ?A ?i q]
      assms(2) pages_of_unm [OF ok, of ?A ?N q] seg by (simp add: unmap_req_def)
  then show thesis using that s'(1,4-6) wf_at_mm_wf [OF s'(2)] by blast
qed

text \<open>Without memory failures, unmapping without a callback.\<close>

lemma unmap_state:
  assumes "mm_wf st" "unmap_req (s_mm st) addr len" "h_oom (s_heap st) = (\<lambda>_. False)"
  obtains st' where "mm_unmap st addr len = Inr (0, st')" "mm_wf st'" "s_ud st' = s_ud st"
    "mm_pages st' = (\<lambda>q. if req_page (s_mm st) addr \<le> q \<and> q < req_page (s_mm st) addr + req_pages (s_mm st) len
                       then None else mm_pages st q)"
    "mm_same (s_mm st) (s_mm st')" "h_oom (s_heap st') = h_oom (s_heap st)"
proof -
  obtain st' as' where s': "mm_unmap st addr len = Inr (0, st')" "wf_at {} st' as'" "s_ud st' = s_ud st"
      "segs_at (s_cells st') as' = unm (req_page (s_mm st) addr) (req_pages (s_mm st) len) (segs_at (s_cells st) (mm_addrs st))"
      "h_oom (s_heap st') = h_oom (s_heap st)" "mm_same (s_mm st) (s_mm st')"
    using unmap_ok [OF mm_wf_at [OF assms(1)] assms(2)] assms(3) by auto
  have "mm_segs st' = unm (req_page (s_mm st) addr) (req_pages (s_mm st) len) (mm_segs st)"
    using s'(4) wf_at_segs [OF s'(2)] by (simp add: mm_segs_def)
  then have "mm_pages st' = (\<lambda>q. if req_page (s_mm st) addr \<le> q \<and> q < req_page (s_mm st) addr + req_pages (s_mm st) len
                       then None else mm_pages st q)"
    using pages_of_unm [OF mm_wf_segs [OF assms(1)]] by auto
  then show thesis using that s'(1,3,5,6) wf_at_mm_wf [OF s'(2)] by blast
qed

text \<open>
  What every operation keeps: the box stays well formed, keeps its place, and the host has only
  been asked for addresses of the box.
\<close>

definition box_kept :: "('h \<Rightarrow> bool) \<Rightarrow> 'h LPSBox \<Rightarrow> 'h LPSBox \<Rightarrow> bool" where
  "box_kept I box box' \<longleftrightarrow> box_ok box' \<and> mem_ok box' \<and> I (box_host box') \<and>
     bx_base box' = bx_base box \<and> bx_size box' = bx_size box"

lemma commit_ok:
  assumes ok: "box_ok box" "mem_ok box" and req: "box_req box addr sz"
    and hv: "fixed_or_fail hv" "host_keeps hv (box_lo box) (box_hi box) I" "I (box_host box)"
    and pages: "box_pages box = (\<lambda>q. if req_page (s_mm (bx_st box)) addr \<le> q \<and>
        q < req_page (s_mm (bx_st box)) addr + req_pages (s_mm (bx_st box)) sz then Some i else pg q)"
  shows "\<exists>r box'. box_commit hv box addr sz prot flags fd off = Inr (r, box') \<and>
    box_kept I box box' \<and> r \<in> {addr, -1} \<and>
    box_pages box' = (\<lambda>q. if req_page (s_mm (bx_st box)) addr \<le> q \<and>
        q < req_page (s_mm (bx_st box)) addr + req_pages (s_mm (bx_st box)) sz
        then (if r = -1 then None else Some i) else pg q)"
proof -
  obtain mem h where m: "hv_mmap hv addr sz prot (flags OR MAP_FIXED) fd off (box_host box) = (mem, h)"
    by (rule prod.exhaust)
  have "I (snd (hv_mmap hv addr sz prot (flags OR MAP_FIXED) fd off (box_host box)))"
    using hv(2,3) box_req_range(1,2) [OF ok(1) req] unfolding host_keeps_def by blast
  then have I: "I h" using m by (simp only: snd_conv)
  have "fst (hv_mmap hv addr sz prot (flags OR MAP_FIXED) fd off (box_host box)) \<in> {addr, -1}"
    using hv(1) unfolding fixed_or_fail_def by blast
  then have mem: "mem \<in> {addr, -1}" using m by (simp only: fst_conv)
  let ?st = "(bx_st box)\<lparr>s_ud := h\<rparr>"
  have wf: "mm_wf ?st" using ok(1) by (simp add: mm_wf_ud box_ok_def)
  show ?thesis
  proof (cases "mem = -1")
    case True
    have req': "unmap_req (s_mm ?st) addr sz" "h_oom (s_heap ?st) = (\<lambda>_. False)"
      using req ok(2) by (simp_all add: mem_ok_def)
    obtain st' where s': "mm_unmap ?st addr sz = Inr (0, st')" "mm_wf st'" "s_ud st' = s_ud ?st"
        "mm_pages st' = (\<lambda>q. if req_page (s_mm ?st) addr \<le> q \<and> q < req_page (s_mm ?st) addr + req_pages (s_mm ?st) sz
                         then None else mm_pages ?st q)"
        "mm_same (s_mm ?st) (s_mm st')" "h_oom (s_heap st') = h_oom (s_heap ?st)"
      using wf req' by (rule unmap_state)
    have "box_commit hv box addr sz prot flags fd off = Inr (-1, box\<lparr>bx_st := st'\<rparr>)"
      using m True s'(1) by (simp add: box_commit_def Let_def)
    moreover have "box_ok (box\<lparr>bx_st := st'\<rparr>)" using ok(1) s'(2,5) by (intro box_ok_update) simp_all
    moreover have "box_pages (box\<lparr>bx_st := st'\<rparr>) = (\<lambda>q. if req_page (s_mm (bx_st box)) addr \<le> q \<and>
        q < req_page (s_mm (bx_st box)) addr + req_pages (s_mm (bx_st box)) sz then None else pg q)"
      using s'(4) pages by (auto simp: mm_wf_ud)
    ultimately show ?thesis using s'(3,6) ok(2) I by (auto simp: mem_ok_def box_kept_def)
  next
    case False
    then have "box_commit hv box addr sz prot flags fd off = Inr (addr, box\<lparr>bx_st := ?st\<rparr>)"
      using m mem by (simp add: box_commit_def Let_def)
    moreover have "box_ok (box\<lparr>bx_st := ?st\<rparr>)" using ok(1) wf by (intro box_ok_update) simp_all
    moreover have "addr \<noteq> -1" using False mem by auto
    ultimately show ?thesis using ok(2) I pages by (auto simp: mem_ok_def mm_wf_ud box_kept_def)
  qed
qed

lemma box_mapat_ok:
  assumes "box_ok box" "mem_ok box" "box_req box addr sz" "none_ok hv" "fixed_or_fail hv"
    "host_keeps hv (box_lo box) (box_hi box) I" "I (box_host box)"
  shows "\<exists>r box'. lps_box_mapat hv box addr sz prot flags fd off = Inr (r, box') \<and> box_kept I box box' \<and>
    r \<in> {addr, -1} \<and>
    box_pages box' = (\<lambda>q. if req_page (s_mm (bx_st box)) addr \<le> q \<and>
        q < req_page (s_mm (bx_st box)) addr + req_pages (s_mm (bx_st box)) sz
        then (if r = -1 then None else Some (new_info prot flags fd off)) else box_pages box q)"
proof -
  let ?st = "bx_st box"
  obtain h' where cb: "run_ufn (Some (cbunmap hv)) (mm_p2pagesize (s_mm ?st))
      (hits (req_page (s_mm ?st) addr) (req_pages (s_mm ?st) sz) (mm_segs ?st)) (box_host box) = Inr h'" "I h'"
    using assms(1,3,4,6,7) by (rule box_callback_ok)
  have wf: "mm_wf ?st" "h_oom (s_heap ?st) = (\<lambda>_. False)" using assms(1,2) by (simp_all add: box_ok_def mem_ok_def)
  obtain st' where s': "mm_mapat_cb ?st addr sz prot flags fd off (Some (cbunmap hv)) = Inr (addr, st')" "mm_wf st'"
      "s_ud st' = h'"
      "mm_pages st' = (\<lambda>q. if req_page (s_mm ?st) addr \<le> q \<and> q < req_page (s_mm ?st) addr + req_pages (s_mm ?st) sz
                       then Some (new_info prot flags fd off) else mm_pages ?st q)"
      "mm_same (s_mm ?st) (s_mm st')" "h_oom (s_heap st') = h_oom (s_heap ?st)"
    using wf(1) assms(3) wf(2) cb(1) by (rule mapat_state)
  let ?box = "box\<lparr>bx_st := st'\<rparr>"
  have geo: "mm_base (s_mm st') = mm_base (s_mm ?st)" "mm_len (s_mm st') = mm_len (s_mm ?st)"
      "mm_p2pagesize (s_mm st') = mm_p2pagesize (s_mm ?st)" using s'(5) by (simp_all add: mm_same_def)
  have ok: "box_ok ?box" "mem_ok ?box" "box_req ?box addr sz"
    using assms(1-3) s'(2,5,6) geo box_ok_update by (auto simp: mem_ok_def unmap_req_def)
  have pg: "box_pages ?box = (\<lambda>q. if req_page (s_mm (bx_st ?box)) addr \<le> q \<and>
        q < req_page (s_mm (bx_st ?box)) addr + req_pages (s_mm (bx_st ?box)) sz
        then Some (new_info prot flags fd off) else box_pages box q)"
    using s'(4) geo by simp
  have "addr \<noteq> -1"
    using page_not_minus_one [OF mm_wf_ok [OF wf(1)], of addr "req_page (s_mm ?st) addr"] assms(3)
    by (simp add: unmap_req_def)
  then have "lps_box_mapat hv box addr sz prot flags fd off = box_commit hv ?box addr sz prot flags fd off"
    using box_req_range(3) [OF assms(1,3)] s'(1) by (simp add: lps_box_mapat_def Let_def)
  then show ?thesis
    using commit_ok [OF ok assms(5), of I "new_info prot flags fd off" "box_pages box" prot flags fd off] pg assms(6) cb(2) s'(3) geo
    by (simp add: box_kept_def)
qed


lemma box_mapany_ok:
  assumes "box_ok box" "mem_ok box" "any_req (s_mm (bx_st box)) sz" "fixed_or_fail hv"
    "host_keeps hv (box_lo box) (box_hi box) I" "I (box_host box)"
  shows "\<exists>r box'. lps_box_mapany hv box sz prot flags fd off = Inr (r, box') \<and> box_kept I box box' \<and>
    (if r = -1 then box_pages box' = box_pages box
     else \<exists>m. unat r = m * 2 ^ 12 \<and> box_lo box \<le> unat r \<and> unat r + unat sz \<le> box_hi box \<and>
       (\<forall>q. m \<le> q \<and> q < m + req_pages (s_mm (bx_st box)) sz \<longrightarrow> box_pages box q = None) \<and>
       box_pages box' = (\<lambda>q. if m \<le> q \<and> q < m + req_pages (s_mm (bx_st box)) sz
                             then Some (new_info prot flags fd off) else box_pages box q))"
proof -
  let ?st = "bx_st box" and ?i = "new_info prot flags fd off" and ?N = "req_pages (s_mm (bx_st box)) sz"
  have wf: "mm_wf ?st" "h_oom (s_heap ?st) = (\<lambda>_. False)" "mm_p2pagesize (s_mm ?st) = 12"
    using assms(1,2) by (simp_all add: box_ok_def mem_ok_def)
  obtain r st' where R: "mm_mapany ?st sz prot flags fd off = Inr (r, st')"
      "(r = -1 \<and> st' = ?st \<and> fit_from ?st sz (mm_segs ?st) = None) \<or> (\<exists>m. mapped_any ?st sz ?i m r st')"
    using mapany_ok [OF mm_wf_at [OF wf(1)] assms(3), of prot flags fd off] wf(2) by auto
  from R(2) show ?thesis
  proof (elim disjE exE)
    assume "r = -1 \<and> st' = ?st \<and> fit_from ?st sz (mm_segs ?st) = None"
    then have "lps_box_mapany hv box sz prot flags fd off = Inr (-1, box)" using R(1) by (simp add: lps_box_mapany_def)
    then show ?thesis using assms(1,2,6) by (auto simp: box_kept_def)
  next
    fix m
    assume m: "mapped_any ?st sz ?i m r st'"
    then have free: "range_free m ?N (mm_segs ?st)" and lo: "unat (mm_base (s_mm ?st)) \<le> m"
      and hi: "m + ?N \<le> unat (mm_base (s_mm ?st)) + unat (mm_len (s_mm ?st))"
      and r: "unat r = m * 2 ^ mm_p2pagesize (s_mm ?st)"
      and seg: "mm_segs st' = ins_seg (m, ?N, ?i) (mm_segs ?st)" and wf': "mm_wf st'" "s_ud st' = s_ud ?st"
      and same: "mm_same (s_mm ?st) (s_mm st')" "h_oom (s_heap st') = h_oom (s_heap ?st)"
      by (simp_all add: mapped_any_def)
    have geo: "mm_base (s_mm st') = mm_base (s_mm ?st)" "mm_len (s_mm st') = mm_len (s_mm ?st)"
        "mm_p2pagesize (s_mm st') = mm_p2pagesize (s_mm ?st)" using same(1) by (simp_all add: mm_same_def)
    note ck = any_req_checks [OF mm_wf_ok [OF wf(1)] assms(3)]
    let ?box = "box\<lparr>bx_st := st'\<rparr>"
    have m_page: "req_page (s_mm ?st) r = m" by (simp add: r)
    have req: "box_req box r sz"
      using assms(3) lo hi r unfolding unmap_req_def any_req_def m_page by simp
    have ok: "box_ok ?box" "mem_ok ?box" "box_req ?box r sz"
      using assms(1,2) wf' same geo req box_ok_update by (auto simp: mem_ok_def unmap_req_def)
    have pg: "box_pages ?box = (\<lambda>q. if req_page (s_mm (bx_st ?box)) r \<le> q \<and>
        q < req_page (s_mm (bx_st ?box)) r + req_pages (s_mm (bx_st ?box)) sz then Some ?i else box_pages box q)"
      using ins_free_pages [OF mm_wf_segs [OF wf(1)] free ck(3) lo hi, of ?i] seg geo m_page by auto
    have ne: "r \<noteq> -1" using mm_wf_ok [OF wf(1)] r by (rule page_not_minus_one)
    have eq: "lps_box_mapany hv box sz prot flags fd off = box_commit hv ?box r sz prot flags fd off"
      using R(1) ne by (simp add: lps_box_mapany_def Let_def)
    obtain r' box' where C: "box_commit hv ?box r sz prot flags fd off = Inr (r', box')" "box_kept I ?box box'"
        "r' \<in> {r, -1}"
        "box_pages box' = (\<lambda>q. if m \<le> q \<and> q < m + ?N then (if r' = -1 then None else Some ?i) else box_pages box q)"
      using commit_ok [OF ok assms(4), of I ?i "box_pages box" prot flags fd off] pg assms(5,6) wf'(2) geo m_page by auto
    have old: "box_pages box q = None" if "m \<le> q" "q < m + ?N" for q using range_free_pages [OF free that] .
    have kept: "box_kept I box box'" using C(2) by (simp add: box_kept_def)
    show ?thesis
    proof (cases "r' = -1")
      case True
      then have "box_pages box' = box_pages box" using C(4) old by auto
      then show ?thesis using eq C(1) kept True by auto
    next
      case False
      then have "r' = r" using C(3) by auto
      then show ?thesis
        using eq C(1,4) kept ne r wf(3) box_req_range(1,2) [OF assms(1) req] old
        by (intro exI [of _ r'] exI [of _ box'] conjI) (auto intro!: exI [of _ m])
    qed
  qed
qed

text \<open>
  C20: mapping anywhere in a sandbox. For a non-empty length \<open>lps_box_mapany\<close> returns \<open>-1\<close> and
  leaves the pages as they were, or the address of a range inside the box that was entirely
  unmapped and now carries the new attributes; the host is only asked for addresses of the box.
\<close>

theorem lps_box_mapany_correct:
  assumes "box_ok box" "mem_ok box" "any_req (s_mm (bx_st box)) sz" "fixed_or_fail hv"
    "host_keeps hv (box_lo box) (box_hi box) I" "I (box_host box)"
  shows "\<exists>r box'. lps_box_mapany hv box sz prot flags fd off = Inr (r, box') \<and> box_kept I box box' \<and>
    (if r = -1 then box_pages box' = box_pages box
     else \<exists>m. unat r = m * 2 ^ 12 \<and> box_lo box \<le> unat r \<and> unat r + unat sz \<le> box_hi box \<and>
       (\<forall>q. m \<le> q \<and> q < m + req_pages (s_mm (bx_st box)) sz \<longrightarrow> box_pages box q = None) \<and>
       box_pages box' = (\<lambda>q. if m \<le> q \<and> q < m + req_pages (s_mm (bx_st box)) sz
                             then Some (new_info prot flags fd off) else box_pages box q))"
  using assms by (rule box_mapany_ok)

lemma box_munmap_ok:
  assumes "box_ok box" "mem_ok box" "box_req box addr sz" "none_ok hv"
    "host_keeps hv (box_lo box) (box_hi box) I" "I (box_host box)"
  shows "\<exists>box'. lps_box_munmap hv box addr sz = Inr (0, box') \<and> box_kept I box box' \<and>
    box_pages box' = (\<lambda>q. if req_page (s_mm (bx_st box)) addr \<le> q \<and>
        q < req_page (s_mm (bx_st box)) addr + req_pages (s_mm (bx_st box)) sz then None else box_pages box q)"
proof -
  let ?st = "bx_st box"
  obtain h' where cb: "run_ufn (Some (cbunmap hv)) (mm_p2pagesize (s_mm ?st))
      (hits (req_page (s_mm ?st) addr) (req_pages (s_mm ?st) sz) (mm_segs ?st)) (box_host box) = Inr h'" "I h'"
    using assms(1,3,4,5,6) by (rule box_callback_ok)
  have wf: "mm_wf ?st" "h_oom (s_heap ?st) = (\<lambda>_. False)" using assms(1,2) by (simp_all add: box_ok_def mem_ok_def)
  obtain st' as' where s': "mm_unmap_cb ?st addr sz (Some (cbunmap hv)) = Inr (0, st')" "wf_at {} st' as'"
      "segs_at (s_cells st') as' = unm (req_page (s_mm ?st) addr) (req_pages (s_mm ?st) sz) (segs_at (s_cells ?st) (mm_addrs ?st))"
      "s_ud st' = h'" "h_oom (s_heap st') = h_oom (s_heap ?st)" "mm_same (s_mm ?st) (s_mm st')"
    by (rule unmap_cb_ok [OF mm_wf_at [OF wf(1)] assms(3) _ cb(1) [unfolded mm_segs_def]]) (simp_all add: wf(2))
  have "mm_pages st' q = (if req_page (s_mm ?st) addr \<le> q \<and> q < req_page (s_mm ?st) addr + req_pages (s_mm ?st) sz
      then None else mm_pages ?st q)" for q
    using s'(3) wf_at_segs [OF s'(2)] pages_of_unm [OF mm_wf_segs [OF wf(1)]] by (simp add: mm_segs_def)
  moreover have "box_ok (box\<lparr>bx_st := st'\<rparr>)" using assms(1) wf_at_mm_wf [OF s'(2)] s'(6) by (rule box_ok_update)
  ultimately show ?thesis
    using s'(1,4,5) cb(2) wf(2) box_req_range(3) [OF assms(1,3)]
    by (auto simp: lps_box_munmap_def box_kept_def mem_ok_def)
qed


section \<open>Creating sandboxes\<close>

definition engine_ok :: "LPSEngine \<Rightarrow> bool" where
  "engine_ok e \<longleftrightarrow> bm_wf (le_bm e) \<and> chunksize (bm_opts (le_bm e)) = boxsize (le_opts e) \<and>
     2 ^ 12 dvd unat (boxsize (le_opts e))"

abbreviation live_boxes :: "LPSEngine \<Rightarrow> nat set" where
  "live_boxes e \<equiv> rs_live (bm_regions (le_bm e))"

abbreviation all_boxes :: "LPSEngine \<Rightarrow> nat set" where
  "all_boxes e \<equiv> rs_chunks (bm_regions (le_bm e))"

lemma chunk_shape:
  assumes "rs_wf cs rs" "q \<in> rs_chunks rs"
  shows "unat cs dvd q" "q + unat cs < 2 ^ 64"
proof -
  obtain r i where r: "r \<in> set rs" "i < unat (ea_size (ar_alloc r))" "q = chunk_addr (ar_alloc r) i"
    using assms(2) by (auto simp: rs_chunks_def ar_chunks_def)
  have wf: "ar_wf cs r" using assms(1) r(1) by (rule rs_wf_mem)
  let ?a = "ar_alloc r"
  have cs: "ea_chunksize ?a = cs" and lim: "(unat (ea_base ?a) + unat (ea_size ?a)) * unat cs < 2 ^ 64"
    using wf by (auto simp: ar_wf_def ea_wf_def)
  show "unat cs dvd q" by (simp add: r(3) chunk_addr_def cs)
  have "q + unat cs = (unat (ea_base ?a) + (i + 1)) * unat cs" by (simp add: r(3) chunk_addr_def cs add_mult_distrib)
  also have "\<dots> \<le> (unat (ea_base ?a) + unat (ea_size ?a)) * unat cs" using r(2) by (intro mult_le_mono1) simp
  finally show "q + unat cs < 2 ^ 64" using lim by simp
qed

lemma multiples_disjoint:
  fixes c :: nat
  assumes "c dvd p" "c dvd q" "p \<noteq> q"
  shows "{p ..< p + c} \<inter> {q ..< q + c} = {}"
proof -
  obtain m n where mn: "p = c * m" "q = c * n" using assms(1,2) by (auto elim!: dvdE)
  then have "m < n \<or> n < m" using assms(3) by (auto simp: nat_neq_iff)
  then have "p + c \<le> q \<or> q + c \<le> p"
  proof
    assume "m < n"
    then have "c * Suc m \<le> c * n" by (intro mult_le_mono2) simp
    then show ?thesis using mn by simp
  next
    assume "n < m"
    then have "c * Suc n \<le> c * m" by (intro mult_le_mono2) simp
    then show ?thesis using mn by simp
  qed
  then show ?thesis by auto
qed

lemma new_space_ok:
  assumes "2 ^ 12 dvd unat base" "2 ^ 12 dvd unat sz" "unat base + unat sz < 2 ^ 64"
  obtains mm where "mm_init base sz 4096 = Inr (True, mm)"
    "box_ok \<lparr>bx_st = \<lparr>s_heap = \<lparr>h_cells = Map.empty, h_next = 0, h_oom = oom\<rparr>, s_mm = mm, s_ud = h\<rparr>,
       bx_base = base, bx_size = sz, bx_userdata = u\<rparr>"
    "mm_pages \<lparr>s_heap = \<lparr>h_cells = Map.empty, h_next = 0, h_oom = oom\<rparr>, s_mm = mm, s_ud = h\<rparr> = Map.empty"
proof -
  obtain mm where mm: "mm_init base sz (2 ^ 12) = Inr (True, mm)"
      "unat (mm_base mm) * 2 ^ 12 = unat base" "unat (mm_len mm) = unat sz div 2 ^ 12" "mm_p2pagesize mm = 12"
      "mm_wf \<lparr>s_heap = \<lparr>h_cells = Map.empty, h_next = 0, h_oom = oom\<rparr>, s_mm = mm, s_ud = h\<rparr>"
      "mm_pages \<lparr>s_heap = \<lparr>h_cells = Map.empty, h_next = 0, h_oom = oom\<rparr>, s_mm = mm, s_ud = h\<rparr> = Map.empty"
    using init_ok [of 12 base sz oom h] assms(1,3) by auto
  show thesis
  proof (rule that)
    show "mm_init base sz 4096 = Inr (True, mm)" using mm(1) by simp
  qed (use mm assms(2) in \<open>simp_all add: box_ok_def\<close>)
qed

lemma box_new_ok:
  assumes "engine_ok e"
  shows "\<exists>b e' h'. lps_box_new hv oom e h = Inr (b, e', h') \<and> engine_ok e' \<and>
    (case b of
       None \<Rightarrow> live_boxes e' = live_boxes e \<and> (live_boxes e = all_boxes e \<or> \<not> fst (hv_malloc hv 96 h))
     | Some box \<Rightarrow> box_ok box \<and> h_oom (s_heap (bx_st box)) = oom \<and> s_ud (bx_st box) = snd (hv_malloc hv 96 h) \<and> box_pages box = Map.empty \<and> bx_size box = boxsize (le_opts e) \<and>
         unat (bx_base box) \<in> all_boxes e - live_boxes e \<and> live_boxes e' = insert (unat (bx_base box)) (live_boxes e) \<and>
         (\<forall>q \<in> live_boxes e. {q ..< q + unat (boxsize (le_opts e))} \<inter> {box_lo box ..< box_hi box} = {}))"
proof -
  let ?bm = "le_bm e" and ?cs = "boxsize (le_opts e)"
  have wf: "bm_wf ?bm" and cs: "chunksize (bm_opts ?bm) = ?cs" and dvd: "2 ^ 12 dvd unat ?cs"
    using assms by (simp_all add: engine_ok_def)
  have rs: "rs_wf ?cs (bm_regions ?bm)" using wf cs by (simp add: bm_wf_def)
  obtain got h1 where m: "hv_malloc hv 96 h = (got, h1)" by (rule prod.exhaust)
  obtain p bm' where A: "boxmap_addspace ?bm ?cs = Inr (p, bm')" "bm_wf bm'" "bm_spec AddBox p (bm_abs ?bm) (bm_abs bm')"
    using addspace_ok [OF wf] cs by auto
  show ?thesis
  proof (cases "got \<and> p \<noteq> 0")
    case False
    then have "\<exists>e' h'. lps_box_new hv oom e h = Inr (None, e', h') \<and> (e' = e \<and> \<not> got \<or> e' = e\<lparr>le_bm := bm'\<rparr> \<and> p = 0)"
      using m A(1) by (cases got) (auto simp: lps_box_new_def Let_def)
    then show ?thesis
      using assms A(2,3) m by (auto simp: engine_ok_def bm_abs_def split: if_splits)
  next
    case True
    then have new: "unat p \<in> all_boxes e - live_boxes e" "live_boxes (e\<lparr>le_bm := bm'\<rparr>) = insert (unat p) (live_boxes e)"
        "chunksize (bm_opts bm') = ?cs"
      using A(3) cs by (auto simp: bm_abs_def split: if_splits)
    have pc: "unat p \<in> rs_chunks (bm_regions ?bm)" using new(1) by simp
    note sh = chunk_shape [OF rs pc]
    have al: "2 ^ 12 dvd unat p" using dvd sh(1) by (rule dvd_trans)
    obtain mm where M: "mm_init p ?cs 4096 = Inr (True, mm)"
        "box_ok \<lparr>bx_st = \<lparr>s_heap = \<lparr>h_cells = Map.empty, h_next = 0, h_oom = oom\<rparr>, s_mm = mm, s_ud = h1\<rparr>,
           bx_base = p, bx_size = ?cs, bx_userdata = 0\<rparr>"
        "mm_pages \<lparr>s_heap = \<lparr>h_cells = Map.empty, h_next = 0, h_oom = oom\<rparr>, s_mm = mm, s_ud = h1\<rparr> = Map.empty"
      using al dvd sh(2) by (rule new_space_ok)
    have "{q ..< q + unat ?cs} \<inter> {unat p ..< unat p + unat ?cs} = {}" if q: "q \<in> live_boxes e" for q
    proof (rule multiples_disjoint)
      have "q \<in> rs_chunks (bm_regions ?bm)" using q live_sub_chunks by (auto simp: rs_live_def rs_chunks_def)
      then show "unat ?cs dvd q" using chunk_shape(1) [OF rs] by blast
      show "q \<noteq> unat p" using q new(1) by auto
    qed (rule sh(1))
    then show ?thesis
      using m True A(1,2) M new dvd by (auto simp: lps_box_new_def Let_def engine_ok_def)
  qed
qed

text \<open>
  C22: creating a sandbox. From a well-formed engine \<open>lps_box_new\<close> never faults. It returns NULL
  with the set of live boxes unchanged, or a well-formed sandbox with nothing mapped whose
  address range is disjoint from that of every live sandbox; in both cases the engine stays well
  formed. NULL for lack of space happens only when every chunk is taken.
\<close>

theorem lps_box_new_correct:
  assumes "engine_ok e"
  shows "\<exists>b e' h'. lps_box_new hv oom e h = Inr (b, e', h') \<and> engine_ok e' \<and>
    (case b of
       None \<Rightarrow> live_boxes e' = live_boxes e \<and> (live_boxes e = all_boxes e \<or> \<not> fst (hv_malloc hv 96 h))
     | Some box \<Rightarrow> box_ok box \<and> box_pages box = Map.empty \<and> bx_size box = boxsize (le_opts e) \<and>
         unat (bx_base box) \<notin> live_boxes e \<and> live_boxes e' = insert (unat (bx_base box)) (live_boxes e) \<and>
         (\<forall>q \<in> live_boxes e. {q ..< q + unat (boxsize (le_opts e))} \<inter> {box_lo box ..< box_hi box} = {}))"
proof -
  obtain b e' h' where r: "lps_box_new hv oom e h = Inr (b, e', h')" "engine_ok e'"
    and b: "case b of
       None \<Rightarrow> live_boxes e' = live_boxes e \<and> (live_boxes e = all_boxes e \<or> \<not> fst (hv_malloc hv 96 h))
     | Some box \<Rightarrow> box_ok box \<and> h_oom (s_heap (bx_st box)) = oom \<and> s_ud (bx_st box) = snd (hv_malloc hv 96 h) \<and> box_pages box = Map.empty \<and>
         bx_size box = boxsize (le_opts e) \<and>
         unat (bx_base box) \<in> all_boxes e - live_boxes e \<and> live_boxes e' = insert (unat (bx_base box)) (live_boxes e) \<and>
         (\<forall>q \<in> live_boxes e. {q ..< q + unat (boxsize (le_opts e))} \<inter> {box_lo box ..< box_hi box} = {})"
    using box_new_ok [OF assms, of hv oom h] by blast
  show ?thesis
    by (rule exI [of _ b], rule exI [of _ e'], rule exI [of _ h'], intro conjI r) (use b in \<open>cases b; simp\<close>)
qed

section \<open>Contexts\<close>

lemma field_of_zero [simp]: "cfg_field 0 j = 0"
  by (simp add: cfg_field_def)

text \<open>
  C28: creating a context. The context \<open>lps_ctx_new\<close> builds gives the sandbox one memory bound and
  one jump bound, both exactly the box, with read and write permission for the first; every
  other bound is invalid, and the kernel stack pointer is the end of the allocated stack.
\<close>

theorem lps_ctx_new_correct:
  "\<exists>ctx. lps_ctx_new entry (Some ks) box userdata = Inr (Some ctx) \<and>
     membound (cx_regs ctx) = (bx_base box, bx_base box + bx_size box) # replicate 15 (0, 0) \<and>
     jmpbound (cx_regs ctx) = (bx_base box, bx_base box + bx_size box) # replicate 3 (0, 0) \<and>
     (\<forall>j. cfg_field (memcfg (cx_regs ctx)) j = (if j = 0 then ucast (LIBCFG_R OR LIBCFG_W OR LIBCFG_V) else 0)) \<and>
     (\<forall>j. cfg_field (jmpcfg (cx_regs ctx)) j = (if j = 0 then ucast JMPCFG_V else 0)) \<and>
     k_ra (cx_kregs ctx) = entry \<and> k_sp (cx_kregs ctx) = ks + 0x200000 \<and> cx_userdata ctx = userdata"
proof -
  let ?lo = "bx_base box" and ?hi = "bx_base box + bx_size box"
  have rw: "LIBCFG_R OR LIBCFG_W < 16" by (simp add: LIBCFG_R_def LIBCFG_W_def)
  obtain r1 where r1: "lps_membound_set zero_regs 0 (LIBCFG_R OR LIBCFG_W) ?lo ?hi = Inr r1"
      "membound r1 = (membound zero_regs)[nat (sint (0 :: cint)) := (?lo, ?hi)]"
      "\<forall>j. cfg_field (memcfg r1) j = (if j = nat (sint (0 :: cint)) then ucast ((LIBCFG_R OR LIBCFG_W) OR LIBCFG_V) else cfg_field (memcfg zero_regs) j)"
      "r1\<lparr>memcfg := memcfg zero_regs, membound := membound zero_regs\<rparr> = zero_regs"
    by (rule membound_set_ok [of 0 "LIBCFG_R OR LIBCFG_W" zero_regs ?lo ?hi]) (use rw in simp_all)
  have j1: "jmpcfg r1 = 0" "jmpbound r1 = replicate 4 (0, 0)"
    using arg_cong [OF r1(4), of jmpcfg] arg_cong [OF r1(4), of jmpbound] by (simp_all add: zero_regs_def)
  obtain r2 where r2: "lps_jmpbound_set r1 0 ?lo ?hi = Inr r2" "jmpbound r2 = (jmpbound r1)[0 := (?lo, ?hi)]"
      "\<forall>j. cfg_field (jmpcfg r2) j = (if j = 0 then ucast JMPCFG_V else cfg_field (jmpcfg r1) j)"
      "r2\<lparr>jmpcfg := jmpcfg r1, jmpbound := jmpbound r1\<rparr> = r1"
    using jmpbound_ok(1) [of 0 r1 ?lo ?hi] by auto
  have m2: "memcfg r2 = memcfg r1" "membound r2 = membound r1"
    using arg_cong [OF r2(4), of memcfg] arg_cong [OF r2(4), of membound] by simp_all
  have "membound zero_regs = (0, 0) # replicate 15 (0, 0)" "memcfg zero_regs = 0"
    by (simp_all add: zero_regs_def numeral_eq_Suc)
  moreover have "replicate 4 (0 :: u64, 0 :: u64) = (0, 0) # replicate 3 (0, 0)" by (simp add: numeral_eq_Suc)
  ultimately show ?thesis
    using r1 r2 m2 j1
    by (simp add: lps_ctx_new_def Let_def kregs_init_def or.assoc)
qed

text \<open>
  Context switches. Entering a context and leaving it again restores the host's callee-saved
  registers and hands back, as the context's saved registers, those the context was using.
\<close>

theorem kswitch_roundtrip:
  "(let k1 = lps_kswitch_to cycles ctx kregs k; (saved, k2) = lps_kswitch_from kregs (k1\<lparr>ks_cpu := cpu\<rparr>)
    in ks_cpu k2 = (ks_cpu k)\<lparr>k_sp_base := k_sp_base cpu\<rparr> \<and>
       saved = cpu\<lparr>k_sp_base := k_sp_base kregs\<rparr> \<and>
       ks_myctx k2 = Some ctx \<and> ks_count k2 = ks_count k + 1 \<and>
       ks_cpu k1 = kregs\<lparr>k_sp_base := k_sp_base (ks_cpu k)\<rparr>)"
  by (simp add: lps_kswitch_to_def lps_kswitch_from_def kswitch_def Let_def split: prod.split)

text \<open>The statistics: after a reset and a number of switches they count the switches and sum up their cycles.\<close>

lemma switch_stats_sum:
  "ks_count (fold (\<lambda>(cycles, ctx, kregs). lps_kswitch_to cycles ctx kregs) xs k) = ks_count k + of_nat (length xs) \<and>
   ks_csr_cycles (fold (\<lambda>(cycles, ctx, kregs). lps_kswitch_to cycles ctx kregs) xs k) =
     ks_csr_cycles k + (\<Sum>((t0, t1), _) \<leftarrow> xs. t1 - t0)"
  by (induction xs arbitrary: k) (auto simp: lps_kswitch_to_def kswitch_def Let_def)

lemma switch_stats_print:
  assumes "xs \<noteq> []" "length xs < 2 ^ 64"
  defines "n \<equiv> of_nat (length xs) :: u64" and "c \<equiv> \<Sum>((t0, t1), _) \<leftarrow> xs. t1 - t0"
  shows "lps_switch_stats_print (fold (\<lambda>(cycles, ctx, kregs). lps_kswitch_to cycles ctx kregs) xs (lps_switch_stats_reset k)) =
    Some (n, c, c div n)"
proof -
  have "n \<noteq> 0" using assms(1,2) unat_of_nat_u64 [of "length xs"] by (auto simp: n_def)
  then show ?thesis by (simp add: lps_switch_stats_print_def switch_stats_sum lps_switch_stats_reset_def n_def c_def)
qed

section \<open>A concrete sandbox\<close>

definition demo_box :: "(u64 \<times> u64) list LPSBox" where
  "demo_box = \<lparr>bx_st = \<lparr>s_heap = s_heap (demo_space (\<lambda>_. False)), s_mm = s_mm (demo_space (\<lambda>_. False)), s_ud = []\<rparr>,
     bx_base = 0x10000, bx_size = 0x10000, bx_userdata = 0\<rparr>"

lemma mm_wf_other_client:
  "mm_wf \<lparr>s_heap = s_heap s, s_mm = s_mm s, s_ud = u\<rparr> = mm_wf s"
  "mm_segs \<lparr>s_heap = s_heap s, s_mm = s_mm s, s_ud = u\<rparr> = mm_segs s"
  by (simp_all add: mm_wf_def wf_at_def mm_segs_def mm_addrs_def)

lemma demo_box_ok: "box_ok demo_box" "mem_ok demo_box" "box_req demo_box 0x13000 0x1001"
  using demo_wf mm_wf_other_client(1) [of "demo_space (\<lambda>_. False)" "[] :: (u64 \<times> u64) list"]
  by (simp_all add: box_ok_def mem_ok_def demo_box_def unmap_req_def pages_up_def)

definition log_inside :: "nat \<Rightarrow> nat \<Rightarrow> (u64 \<times> u64) list \<Rightarrow> bool" where
  "log_inside lo hi ranges \<longleftrightarrow> list_all (\<lambda>(a, n). lo \<le> unat a \<and> unat a + unat n \<le> hi) ranges"

lemma log_host_ok: "none_ok log_host" "fixed_or_fail log_host" "host_keeps log_host lo hi (log_inside lo hi)"
  by (simp_all add: none_ok_def fixed_or_fail_def host_keeps_def log_host_def log_inside_def)

lemma demo_log: "log_inside lo hi (box_host demo_box)"
  by (simp add: demo_box_def log_inside_def)


theorem lps_box_mapany_correct_witness:
  "\<exists>r box'. lps_box_mapany log_host demo_box 0x1001 3 2 9 0 = Inr (r, box') \<and>
    box_kept (log_inside (box_lo demo_box) (box_hi demo_box)) demo_box box'"
proof -
  have "any_req (s_mm (bx_st demo_box)) 0x1001" by (simp add: any_req_def demo_box_def)
  from lps_box_mapany_correct [OF demo_box_ok(1,2) this log_host_ok(2,3) demo_log, of 3 2 9 0]
  show ?thesis by blast
qed


definition demo_engine :: LPSEngine where
  "demo_engine = \<lparr>le_bm = demo_map, le_opts = \<lparr>boxsize = 0x4000, verbose = False\<rparr>, le_sys_handler = False\<rparr>"

lemma demo_engine_ok: "engine_ok demo_engine"
  using demo_map_wf by (simp add: engine_ok_def demo_engine_def) (simp add: demo_map_def)

theorem lps_box_new_correct_witness:
  "\<exists>b e' h'. lps_box_new log_host (\<lambda>_. False) demo_engine [] = Inr (b, e', h') \<and> engine_ok e' \<and>
    (case b of None \<Rightarrow> True | Some box \<Rightarrow> box_ok box \<and> unat (bx_base box) \<notin> live_boxes demo_engine)"
  using lps_box_new_correct [OF demo_engine_ok, of log_host "\<lambda>_. False" "[]"]
  by (elim exE conjE) (auto split: option.splits)

text \<open>
  A length within one page of \<open>2 ^ 64\<close> passes the range check of \<open>lps_box_munmap\<close>, because the sum
  wraps, and rounds up to no pages at all; the callback is then run on an empty range, the host
  refuses to map nothing, and the assertion in \<open>cbunmap\<close> stops the whole process.
\<close>

lemma lps_box_munmap_huge_length_aborts:
  "fault_of (lps_box_munmap log_host demo_box 0x12000 (-1)) = Some AssertFail"
  by code_simp

end
