(* ===== verification/Queue.thy ===== *)
theory Queue
  imports Prelude
begin

text \<open>
  The intrusive lists and queues of \<open>lps-linux/list.h\<close>, \<open>list.c\<close> and \<open>queue.h\<close>. List elements
  are cells of an explicit store, addressed by numbers; a queue is addressed by its dummy
  element, and its tail pointer is kept in the store under that address. Reading through NULL
  or through an address that holds no cell is a fault.
\<close>

section \<open>Store\<close>

record ListElem =
  l_next :: "nat option"
  l_prev :: "nat option"

record qheap =
  qh_cells :: "nat \<Rightarrow> ListElem option"
  qh_tail :: "nat \<Rightarrow> nat option"

definition get_elem :: "qheap \<Rightarrow> nat option \<Rightarrow> ListElem res" where
  "get_elem s p =
     (case p of None \<Rightarrow> Inl NullDeref
      | Some a \<Rightarrow> (case qh_cells s a of None \<Rightarrow> Inl UseAfterFree | Some c \<Rightarrow> Inr c))"

definition put_next :: "qheap \<Rightarrow> nat \<Rightarrow> nat option \<Rightarrow> qheap" where
  "put_next s a v = s\<lparr>qh_cells := (qh_cells s)(a := map_option (l_next_update (\<lambda>_. v)) (qh_cells s a))\<rparr>"

definition put_prev :: "qheap \<Rightarrow> nat \<Rightarrow> nat option \<Rightarrow> qheap" where
  "put_prev s a v = s\<lparr>qh_cells := (qh_cells s)(a := map_option (l_prev_update (\<lambda>_. v)) (qh_cells s a))\<rparr>"

definition set_next :: "qheap \<Rightarrow> nat option \<Rightarrow> nat option \<Rightarrow> qheap res" where
  "set_next s p v = rbind (get_elem s p) (\<lambda>_. Inr (put_next s (the p) v))"

definition set_prev :: "qheap \<Rightarrow> nat option \<Rightarrow> nat option \<Rightarrow> qheap res" where
  "set_prev s p v = rbind (get_elem s p) (\<lambda>_. Inr (put_prev s (the p) v))"

section \<open>Lists (list.h, list.c)\<close>

definition list_init :: "qheap \<Rightarrow> nat \<Rightarrow> qheap res" where
  "list_init s l =
     rbind (set_next s (Some l) (Some l)) (\<lambda>s.
     set_prev s (Some l) (Some l))"

definition list_first :: "qheap \<Rightarrow> nat option \<Rightarrow> nat option res" where
  "list_first s l =
     (if l \<noteq> None then rbind (get_elem s l) (\<lambda>c. Inr (l_next c)) else Inr None)"

definition list_next :: "qheap \<Rightarrow> nat option \<Rightarrow> nat option \<Rightarrow> nat option res" where
  "list_next s l e =
     (if e \<noteq> l then rbind (get_elem s e) (\<lambda>c. Inr (l_next c)) else Inr None)"

definition splice_after :: "qheap \<Rightarrow> nat option \<Rightarrow> nat option \<Rightarrow> qheap res" where
  "splice_after s elem succ =
     rbind (get_elem s elem) (\<lambda>ce.
     rbind (get_elem s succ) (\<lambda>cs.
     let tmp1 = l_next ce; tmp2 = l_prev cs in
     rbind (set_next s elem succ) (\<lambda>s.
     rbind (set_prev s succ elem) (\<lambda>s.
     rbind (set_next s tmp2 tmp1) (\<lambda>s.
     set_prev s tmp1 tmp2)))))"

definition list_remove :: "qheap \<Rightarrow> nat option \<Rightarrow> nat option \<Rightarrow> (qheap \<times> nat option) res" where
  "list_remove s l elem =
     rbind (if l = elem then
              rbind (get_elem s l) (\<lambda>c. Inr (if l_prev c = l then None else l_prev c))
            else Inr l) (\<lambda>l.
     rbind (get_elem s elem) (\<lambda>c.
     rbind (set_prev s (l_next c) (l_prev c)) (\<lambda>s.
     rbind (get_elem s elem) (\<lambda>c.
     rbind (set_next s (l_prev c) (l_next c)) (\<lambda>s.
     rbind (set_next s elem elem) (\<lambda>s.
     rbind (set_prev s elem elem) (\<lambda>s.
     Inr (s, l))))))))"

definition list_make_first :: "qheap \<Rightarrow> nat option \<Rightarrow> nat option \<Rightarrow> (qheap \<times> nat option) res" where
  "list_make_first s l elem =
     (if elem \<noteq> None then
        (if l = None then rbind (get_elem s elem) (\<lambda>c. Inr (s, l_prev c))
         else rbind (splice_after s l elem) (\<lambda>s. Inr (s, l)))
      else Inr (s, l))"

section \<open>Queues (queue.h)\<close>

definition set_tail :: "qheap \<Rightarrow> nat \<Rightarrow> nat \<Rightarrow> qheap" where
  "set_tail s q t = s\<lparr>qh_tail := (qh_tail s)(q \<mapsto> t)\<rparr>"

definition queue_init :: "qheap \<Rightarrow> nat \<Rightarrow> qheap res" where
  "queue_init s q = rbind (list_init s q) (\<lambda>s. Inr (set_tail s q q))"

definition queue_enqueue :: "qheap \<Rightarrow> nat \<Rightarrow> nat \<Rightarrow> qheap res" where
  "queue_enqueue s q elem =
     rbind (set_next s (qh_tail s q) (Some elem)) (\<lambda>s.
     rbind (set_prev s (Some elem) (qh_tail s q)) (\<lambda>s.
     rbind (set_next s (Some elem) (Some q)) (\<lambda>s.
     rbind (set_prev s (Some q) (Some elem)) (\<lambda>s.
     Inr (set_tail s q elem)))))"

definition queue_is_empty :: "qheap \<Rightarrow> nat \<Rightarrow> bool" where
  "queue_is_empty s q \<longleftrightarrow> qh_tail s q = Some q"

definition queue_dequeue :: "qheap \<Rightarrow> nat \<Rightarrow> (nat option \<times> qheap) res" where
  "queue_dequeue s q =
     (if queue_is_empty s q then Inr (None, s)
      else
        rbind (get_elem s (Some q)) (\<lambda>d.
        let elem = l_next d in
        rbind (get_elem s elem) (\<lambda>c.
        rbind (set_next s (Some q) (l_next c)) (\<lambda>s.
        rbind (get_elem s elem) (\<lambda>c.
        rbind (set_prev s (l_next c) (Some q)) (\<lambda>s.
        let s = (if qh_tail s q = elem then set_tail s q q else s) in
        Inr (elem, s)))))))"

text \<open>The initialiser \<open>QUEUE_INIT\<close>: NULL links, the tail at the dummy.\<close>

definition QUEUE_INIT :: "qheap \<Rightarrow> nat \<Rightarrow> qheap" where
  "QUEUE_INIT s q =
     set_tail (s\<lparr>qh_cells := (qh_cells s)(q \<mapsto> \<lparr>l_next = None, l_prev = None\<rparr>)\<rparr>) q q"

section \<open>Observers\<close>

definition nxt :: "qheap \<Rightarrow> nat \<Rightarrow> nat option" where
  "nxt s a = (case qh_cells s a of None \<Rightarrow> None | Some c \<Rightarrow> l_next c)"

definition prv :: "qheap \<Rightarrow> nat \<Rightarrow> nat option" where
  "prv s a = (case qh_cells s a of None \<Rightarrow> None | Some c \<Rightarrow> l_prev c)"

definition qdom :: "qheap \<Rightarrow> nat set" where
  "qdom s = dom (qh_cells s)"

lemma get_elem_ok [simp]: "a \<in> qdom s \<Longrightarrow> get_elem s (Some a) = Inr \<lparr>l_next = nxt s a, l_prev = prv s a\<rparr>"
  by (auto simp: get_elem_def qdom_def nxt_def prv_def)

lemma observe_put [simp]:
  "a \<in> qdom s \<Longrightarrow> nxt (put_next s a v) = (nxt s)(a := v)" "prv (put_next s a v) = prv s"
  "a \<in> qdom s \<Longrightarrow> prv (put_prev s a v) = (prv s)(a := v)" "nxt (put_prev s a v) = nxt s"
  "qdom (put_next s a v) = qdom s" "qdom (put_prev s a v) = qdom s"
  "qh_tail (put_next s a v) = qh_tail s" "qh_tail (put_prev s a v) = qh_tail s"
  by (auto simp: fun_eq_iff nxt_def prv_def qdom_def dom_def put_next_def put_prev_def split: option.splits)

lemma observe_tail [simp]:
  "nxt (set_tail s q t) = nxt s" "prv (set_tail s q t) = prv s" "qdom (set_tail s q t) = qdom s"
  "qh_tail (set_tail s q t) = (qh_tail s)(q \<mapsto> t)"
  by (auto simp: fun_eq_iff nxt_def prv_def qdom_def set_tail_def)

lemma set_next_ok [simp]: "a \<in> qdom s \<Longrightarrow> set_next s (Some a) v = Inr (put_next s a v)"
  and set_prev_ok [simp]: "a \<in> qdom s \<Longrightarrow> set_prev s (Some a) v = Inr (put_prev s a v)"
  by (simp_all add: set_next_def set_prev_def)

section \<open>Chains\<close>

text \<open>Consecutive elements point at each other.\<close>

fun chain :: "(nat \<Rightarrow> nat option) \<Rightarrow> (nat \<Rightarrow> nat option) \<Rightarrow> nat list \<Rightarrow> bool" where
  "chain n p (a # b # r) \<longleftrightarrow> n a = Some b \<and> p b = Some a \<and> chain n p (b # r)"
| "chain n p _ \<longleftrightarrow> True"

lemma chain_append: "chain n p (xs @ a # ys) \<longleftrightarrow> chain n p (xs @ [a]) \<and> chain n p (a # ys)"
proof (induction xs)
  case (Cons x xs)
  then show ?case by (cases xs) auto
qed simp

lemma chain_cong:
  "(\<And>a. a \<in> set (butlast xs) \<Longrightarrow> n' a = n a) \<Longrightarrow> (\<And>a. a \<in> set (tl xs) \<Longrightarrow> p' a = p a) \<Longrightarrow>
   chain n' p' xs = chain n p xs"
  by (induction n p xs rule: chain.induct) (auto split: if_splits)

lemma chain_snocD: "chain n p (xs @ [a]) \<Longrightarrow> chain n p xs"
  by (induction n p xs rule: chain.induct) auto

text \<open>A queue with dummy element q holds the elements xs, in order.\<close>

definition queue_repr :: "qheap \<Rightarrow> nat \<Rightarrow> nat list \<Rightarrow> bool" where
  "queue_repr s q xs \<longleftrightarrow> qh_tail s q = Some (last (q # xs)) \<and> distinct (q # xs) \<and>
     set (q # xs) \<subseteq> qdom s \<and> (xs \<noteq> [] \<longrightarrow> chain (nxt s) (prv s) (q # xs @ [q]))"

lemma queue_repr_cong:
  assumes "queue_repr s q xs" "qh_tail s' q = qh_tail s q" "qdom s' = qdom s"
    "\<And>a. a \<in> set (q # xs) \<Longrightarrow> nxt s' a = nxt s a \<and> prv s' a = prv s a"
  shows "queue_repr s' q xs"
proof -
  have "chain (nxt s') (prv s') (q # xs @ [q]) = chain (nxt s) (prv s) (q # xs @ [q])"
  proof (rule chain_cong)
    fix a assume "a \<in> set (butlast (q # xs @ [q]))"
    then have "a \<in> set (q # xs)" by (simp add: butlast_append)
    then show "nxt s' a = nxt s a" using assms(4) by blast
  next
    fix a assume "a \<in> set (tl (q # xs @ [q]))"
    then have "a \<in> set (q # xs)" by auto
    then show "prv s' a = prv s a" using assms(4) by blast
  qed
  then show ?thesis using assms(1-3) by (simp add: queue_repr_def)
qed

lemma queue_repr_tail: "queue_repr s q xs \<Longrightarrow> queue_is_empty s q \<longleftrightarrow> xs = []"
  by (auto simp: queue_repr_def queue_is_empty_def dest: last_in_set)

text \<open>What an operation on queue q with elements xs may touch.\<close>

definition same_outside :: "nat set \<Rightarrow> nat \<Rightarrow> qheap \<Rightarrow> qheap \<Rightarrow> bool" where
  "same_outside A q s s' \<longleftrightarrow> qdom s' = qdom s \<and> (\<forall>q'. q' \<noteq> q \<longrightarrow> qh_tail s' q' = qh_tail s q') \<and>
     (\<forall>a. a \<notin> A \<longrightarrow> nxt s' a = nxt s a \<and> prv s' a = prv s a)"

lemma enqueue_repr:
  assumes "queue_repr s q xs" "e \<in> qdom s" "e \<notin> set (q # xs)"
  obtains s' where "queue_enqueue s q e = Inr s'" "queue_repr s' q (xs @ [e])"
    "same_outside (insert e (set (q # xs))) q s s'"
proof -
  let ?t = "last (q # xs)"
  have tail: "qh_tail s q = Some ?t" and dom: "q \<in> qdom s" "?t \<in> qdom s"
    using assms(1) by (auto simp: queue_repr_def)
  have te: "?t \<noteq> e" using assms(3) last_in_set [of "q # xs"] by force
  let ?s = "set_tail (put_prev (put_next (put_prev (put_next s ?t (Some e)) e (Some ?t)) e (Some q)) q (Some e)) q e"
  have run: "queue_enqueue s q e = Inr ?s"
    using tail dom assms(2) by (simp add: queue_enqueue_def)
  let ?n = "(nxt s)(?t := Some e, e := Some q)" and ?p = "(prv s)(e := Some ?t, q := Some e)"
  have obs: "nxt ?s = ?n" "prv ?s = ?p" "qdom ?s = qdom s" "qh_tail ?s = (qh_tail s)(q \<mapsto> e)"
    using dom assms(2) by simp_all
  have old: "chain (nxt s) (prv s) (q # xs)"
    using assms(1) chain_snocD [of "nxt s" "prv s" "q # xs" q]
    by (cases "xs = []") (simp_all add: queue_repr_def)
  have tb: "?t \<notin> set (butlast (q # xs))"
    using assms(1) append_butlast_last_id [of "q # xs"] distinct_append [of "butlast (q # xs)" "[?t]"]
    by (auto simp: queue_repr_def)
  have eb: "e \<notin> set (butlast (q # xs))" using assms(3) in_set_butlastD by fastforce
  have "chain ?n ?p (q # xs) = chain (nxt s) (prv s) (q # xs)"
    by (rule chain_cong) (use tb eb assms(1,3) in \<open>auto simp: queue_repr_def\<close>)
  with old have "chain ?n ?p (q # xs)" by simp
  then have "chain ?n ?p (butlast (q # xs) @ [?t])" by (subst append_butlast_last_id) simp_all
  moreover have "chain ?n ?p [?t, e, q]" using te assms(3) by auto
  ultimately have "chain ?n ?p (butlast (q # xs) @ [?t, e, q])"
    using chain_append [of ?n ?p "butlast (q # xs)" ?t "[e, q]"] by simp
  moreover have "butlast (q # xs) @ [?t, e, q] = q # (xs @ [e]) @ [q]"
    using append_butlast_last_id [of "q # xs"] by (metis append.assoc append_Cons append_Nil list.distinct(1))
  ultimately have "chain ?n ?p (q # (xs @ [e]) @ [q])" by (simp only:)
  then have "queue_repr ?s q (xs @ [e])"
    unfolding queue_repr_def obs using assms by (simp add: queue_repr_def)
  moreover have "same_outside (insert e (set (q # xs))) q s ?s"
    unfolding same_outside_def obs using last_in_set [of "q # xs"] by auto
  ultimately show thesis using run that by blast
qed

lemma dequeue_repr:
  assumes "queue_repr s q (e # es)"
  obtains s' where "queue_dequeue s q = Inr (Some e, s')" "queue_repr s' q es"
    "same_outside (set (q # e # es)) q s s'"
proof -
  let ?f = "hd (es @ [q])"
  have dist: "distinct (q # e # es)" and dom: "q \<in> qdom s" "e \<in> qdom s" "?f \<in> qdom s"
    and tail: "qh_tail s q = Some (last (e # es))"
    and ch: "chain (nxt s) (prv s) (q # e # es @ [q])"
    using assms by (auto simp: queue_repr_def hd_append)
  have nx: "nxt s q = Some e" "nxt s e = Some ?f"
    using ch by (cases es; simp)+
  have ne: "\<not> queue_is_empty s q" using queue_repr_tail [OF assms] by simp
  let ?s1 = "put_prev (put_next s q (Some ?f)) ?f (Some q)"
  let ?s = "if es = [] then set_tail ?s1 q q else ?s1"
  have last_e: "last (e # es) = e \<longleftrightarrow> es = []" using dist by (auto dest: last_in_set)
  have run: "queue_dequeue s q = Inr (Some e, ?s)"
    using ne dom nx dist tail last_e by (auto simp: queue_dequeue_def Let_def)
  have obs: "nxt ?s = (nxt s)(q := Some ?f)" "prv ?s = (prv s)(?f := Some q)" "qdom ?s = qdom s"
    "qh_tail ?s q = Some (last (q # es))"
    using dom tail by auto
  have "chain (nxt ?s) (prv ?s) (q # es @ [q])" if "es \<noteq> []"
  proof -
    obtain f r where es: "es = f # r" using \<open>es \<noteq> []\<close> by (cases es) auto
    have "chain ((nxt s)(q := Some f)) ((prv s)(f := Some q)) (f # r @ [q]) = chain (nxt s) (prv s) (f # r @ [q])"
      by (rule chain_cong) (use dist in \<open>auto simp: es butlast_append\<close>)
    then show ?thesis using ch dist unfolding obs by (auto simp: es)
  qed
  then have "queue_repr ?s q es"
    unfolding queue_repr_def using dist assms obs(3,4) by (auto simp: queue_repr_def)
  moreover have "same_outside (set (q # e # es)) q s ?s"
    unfolding same_outside_def obs(1-3) by (auto simp: hd_append)
  ultimately show thesis using run that by blast
qed

section \<open>Several queues in one store\<close>

text \<open>
  The queues Q share a store; c gives the elements each of them holds. An element is in at most one
  queue, and all elements come from a set E of cells that are not queue heads.
\<close>

definition bank :: "nat set \<Rightarrow> nat set \<Rightarrow> qheap \<Rightarrow> (nat \<Rightarrow> nat list) \<Rightarrow> bool" where
  "bank Q E s c \<longleftrightarrow> E \<subseteq> qdom s \<and> E \<inter> Q = {} \<and>
     (\<forall>q \<in> Q. queue_repr s q (c q) \<and> set (c q) \<subseteq> E) \<and>
     (\<forall>q \<in> Q. \<forall>q' \<in> Q. q \<noteq> q' \<longrightarrow> set (c q) \<inter> set (c q') = {})"

lemma bank_update:
  assumes "bank Q E s c" "q \<in> Q" "queue_repr s' q xs" "same_outside (insert e (set (q # c q))) q s s'"
    "set xs \<subseteq> insert e (set (c q))" "e \<in> E" "\<forall>q' \<in> Q. q' \<noteq> q \<longrightarrow> e \<notin> set (c q')"
  shows "bank Q E s' (c(q := xs))"
proof -
  have other: "queue_repr s' q' (c q')" if "q' \<in> Q" "q' \<noteq> q" for q'
  proof (rule queue_repr_cong)
    show "queue_repr s q' (c q')" using assms(1) that(1) by (simp add: bank_def)
    fix a assume "a \<in> set (q' # c q')"
    moreover have "set (c q) \<inter> set (c q') = {}" "set (c q) \<subseteq> E" "set (c q') \<subseteq> E" "q \<notin> E" "q' \<notin> E"
      using assms(1,2) that by (auto simp: bank_def)
    ultimately have "a \<notin> insert e (set (q # c q))" using assms(6,7) that assms(2) by auto
    then show "nxt s' a = nxt s a \<and> prv s' a = prv s a" using assms(4) by (simp add: same_outside_def)
  qed (use assms(4) that in \<open>simp_all add: same_outside_def\<close>)
  have dom: "qdom s' = qdom s" using assms(4) by (simp add: same_outside_def)
  have "set (c q) \<subseteq> E" using assms(1,2) by (auto simp: bank_def)
  then have new: "set xs \<subseteq> E" using assms(5,6) by auto
  have disj: "set xs \<inter> set (c q') = {}" if "q' \<in> Q" "q' \<noteq> q" for q'
  proof -
    have "set (c q) \<inter> set (c q') = {}" using assms(1,2) that by (auto simp: bank_def)
    then show ?thesis using assms(5,7) that by auto
  qed
  show ?thesis
    unfolding bank_def dom using assms(1,3) other new disj by (auto simp: bank_def)
qed

text \<open>
  The contract of a bank of first-in first-out queues: \<open>enq\<close> appends an element that is in no
  queue, \<open>deq\<close> takes the first one and answers None exactly for an empty queue; other queues
  keep their elements.
\<close>

locale fifo_bank =
  fixes Q :: "'q set" and E :: "'e set"
    and repr :: "'s \<Rightarrow> ('q \<Rightarrow> 'e list) \<Rightarrow> bool"
    and enq :: "'s \<Rightarrow> 'q \<Rightarrow> 'e \<Rightarrow> 's res"
    and deq :: "'s \<Rightarrow> 'q \<Rightarrow> ('e option \<times> 's) res"
  assumes enq: "repr s c \<Longrightarrow> q \<in> Q \<Longrightarrow> e \<in> E \<Longrightarrow> \<forall>q' \<in> Q. e \<notin> set (c q') \<Longrightarrow>
      \<exists>s'. enq s q e = Inr s' \<and> repr s' (c(q := c q @ [e]))"
    and deq: "repr s c \<Longrightarrow> q \<in> Q \<Longrightarrow> c q = e # es \<Longrightarrow>
      \<exists>s'. deq s q = Inr (Some e, s') \<and> repr s' (c(q := es))"
    and deq_empty: "repr s c \<Longrightarrow> q \<in> Q \<Longrightarrow> c q = [] \<Longrightarrow> deq s q = Inr (None, s)"
    and apart: "repr s c \<Longrightarrow> q \<in> Q \<Longrightarrow> q' \<in> Q \<Longrightarrow> q \<noteq> q' \<Longrightarrow> set (c q) \<inter> set (c q') = {}"
    and inside: "repr s c \<Longrightarrow> q \<in> Q \<Longrightarrow> set (c q) \<subseteq> E"
    and once: "repr s c \<Longrightarrow> q \<in> Q \<Longrightarrow> distinct (c q)"
begin

lemma deq_free:
  assumes "repr s c" "q \<in> Q" "c q = e # es"
  obtains s' where "deq s q = Inr (Some e, s')" "repr s' (c(q := es))" "e \<in> E"
    "\<forall>q' \<in> Q. e \<notin> set ((c(q := es)) q')"
proof -
  have "e \<notin> set es" using once [OF assms(1,2)] assms(3) by simp
  moreover have "e \<notin> set (c q')" if "q' \<in> Q" "q' \<noteq> q" for q'
    using apart [OF assms(1,2) that(1)] that(2) assms(3) by auto
  ultimately have "\<forall>q' \<in> Q. e \<notin> set ((c(q := es)) q')" by simp
  moreover have "e \<in> E" using inside [OF assms(1,2)] assms(3) by auto
  ultimately show thesis using deq [OF assms] that by blast
qed

text \<open>Moving the first element of one queue to the end of another, or of the same one.\<close>

lemma move_one:
  assumes "repr s c" "q \<in> Q" "r \<in> Q" "c q = e # es"
  obtains s1 s2 where "deq s q = Inr (Some e, s1)" "enq s1 r e = Inr s2"
    "repr s2 (c(q := es, r := (c(q := es)) r @ [e]))"
proof -
  obtain s1 where 1: "deq s q = Inr (Some e, s1)" "repr s1 (c(q := es))" "e \<in> E"
      "\<forall>q' \<in> Q. e \<notin> set ((c(q := es)) q')"
    using deq_free [OF assms(1,2,4)] by blast
  obtain s2 where "enq s1 r e = Inr s2" "repr s2 (c(q := es, r := (c(q := es)) r @ [e]))"
    using enq [OF 1(2) assms(3) 1(3,4)] by blast
  then show thesis using 1(1) that by blast
qed

end

interpretation ptrq: fifo_bank Q E "bank Q E" queue_enqueue queue_dequeue for Q E
proof
  fix s c q e
  assume *: "bank Q E s c" "q \<in> Q" "e \<in> E" "\<forall>q' \<in> Q. e \<notin> set (c q')"
  have r: "queue_repr s q (c q)" "e \<in> qdom s" "e \<notin> set (q # c q)" using * by (auto simp: bank_def)
  obtain s' where "queue_enqueue s q e = Inr s'" "queue_repr s' q (c q @ [e])"
      "same_outside (insert e (set (q # c q))) q s s'"
    by (rule enqueue_repr [OF r])
  then show "\<exists>s'. queue_enqueue s q e = Inr s' \<and> bank Q E s' (c(q := c q @ [e]))"
    using bank_update [OF *(1,2), of s' "c q @ [e]" e] * by auto
next
  fix s c q e es
  assume *: "bank Q E s c" "q \<in> Q" "c q = e # es"
  have r: "queue_repr s q (e # es)" using * by (auto simp: bank_def)
  obtain s' where d: "queue_dequeue s q = Inr (Some e, s')" "queue_repr s' q es"
      "same_outside (set (q # e # es)) q s s'"
    by (rule dequeue_repr [OF r])
  have "e \<in> E" "\<forall>q' \<in> Q. q' \<noteq> q \<longrightarrow> e \<notin> set (c q')" using * by (auto simp: bank_def)
  moreover have "same_outside (insert e (set (q # c q))) q s s'" using d(3) *(3) by (simp add: insert_absorb)
  ultimately show "\<exists>s'. queue_dequeue s q = Inr (Some e, s') \<and> bank Q E s' (c(q := es))"
    using bank_update [OF *(1,2) d(2)] d(1) *(3) by auto
next
  fix s c q
  assume "bank Q E s c" "q \<in> Q" "c q = []"
  then show "queue_dequeue s q = Inr (None, s)"
    using queue_repr_tail [of s q "[]"] by (auto simp: bank_def queue_dequeue_def dest: bspec [of Q _ q])
qed (auto simp: bank_def queue_repr_def)

section \<open>Circular lists\<close>

lemma chain_append2:
  "xs \<noteq> [] \<Longrightarrow> ys \<noteq> [] \<Longrightarrow>
   chain n p (xs @ ys) \<longleftrightarrow> chain n p xs \<and> chain n p ys \<and> n (last xs) = Some (hd ys) \<and> p (hd ys) = Some (last xs)"
  by (cases ys; simp; induction n p xs rule: chain.induct; auto)

text \<open>
  A list variable points at the last element of a ring whose first element follows it; NULL is the
  empty list.
\<close>

definition list_repr :: "qheap \<Rightarrow> nat option \<Rightarrow> nat list \<Rightarrow> bool" where
  "list_repr s l xs \<longleftrightarrow> l = (if xs = [] then None else Some (last xs)) \<and> distinct xs \<and> set xs \<subseteq> qdom s \<and>
     (xs \<noteq> [] \<longrightarrow> chain (nxt s) (prv s) xs \<and> nxt s (last xs) = Some (hd xs) \<and> prv s (hd xs) = Some (last xs))"

text \<open>An element that is in no list points at itself, as \<open>list_init\<close> and \<open>list_remove\<close> leave it.\<close>

definition detached :: "qheap \<Rightarrow> nat \<Rightarrow> bool" where
  "detached s e \<longleftrightarrow> e \<in> qdom s \<and> nxt s e = Some e \<and> prv s e = Some e"

lemma last_notin_butlast: "distinct xs \<Longrightarrow> xs \<noteq> [] \<Longrightarrow> last xs \<notin> set (butlast xs)"
  using distinct_append [of "butlast xs" "[last xs]"] by simp

lemma hd_notin_tl: "distinct xs \<Longrightarrow> xs \<noteq> [] \<Longrightarrow> hd xs \<notin> set (tl xs)"
  by (cases xs) auto

lemma list_init_detached: "e \<in> qdom s \<Longrightarrow> \<exists>s'. list_init s e = Inr s' \<and> detached s' e"
  by (simp add: list_init_def detached_def)

lemma make_first_repr:
  assumes "list_repr s l xs" "detached s e" "e \<notin> set xs"
  shows "\<exists>s' l'. list_make_first s l (Some e) = Inr (s', l') \<and> list_repr s' l' (e # xs)"
proof (cases "xs = []")
  case True
  then show ?thesis using assms by (auto simp: list_make_first_def list_repr_def detached_def)
next
  case False
  let ?t = "last xs" and ?h = "hd xs"
  have dom: "e \<in> qdom s" "?t \<in> qdom s" "?h \<in> qdom s" "?t \<noteq> e" "?h \<noteq> e" and l: "l = Some ?t"
    using assms False by (auto simp: list_repr_def detached_def)
  have nx: "nxt s ?t = Some ?h" "prv s e = Some e" using assms False by (auto simp: list_repr_def detached_def)
  let ?s = "put_prev (put_next (put_prev (put_next s ?t (Some e)) e (Some ?t)) e (Some ?h)) ?h (Some e)"
  have run: "list_make_first s l (Some e) = Inr (?s, Some ?t)"
    using dom nx by (simp add: list_make_first_def splice_after_def l Let_def)
  let ?n = "(nxt s)(?t := Some e, e := Some ?h)" and ?p = "(prv s)(e := Some ?t, ?h := Some e)"
  have obs: "nxt ?s = ?n" "prv ?s = ?p" "qdom ?s = qdom s" using dom by simp_all
  have "chain ?n ?p xs = chain (nxt s) (prv s) xs"
  proof (rule chain_cong)
    fix a assume "a \<in> set (butlast xs)"
    then have "a \<noteq> ?t" "a \<noteq> e" using assms last_notin_butlast [of xs] False in_set_butlastD [of a xs]
      by (auto simp: list_repr_def)
    then show "?n a = nxt s a" by simp
  next
    fix a assume "a \<in> set (tl xs)"
    then have "a \<noteq> ?h" "a \<noteq> e" using assms hd_notin_tl [of xs] False list.set_sel(2) [of xs a]
      by (auto simp: list_repr_def)
    then show "?p a = prv s a" by simp
  qed
  then have "chain ?n ?p xs" using assms(1) False by (simp add: list_repr_def)
  then have "chain ?n ?p (e # xs)"
    using chain_append2 [of "[e]" xs ?n ?p] False dom by simp
  then have "list_repr ?s (Some ?t) (e # xs)"
    unfolding list_repr_def obs using assms False dom by (auto simp: list_repr_def)
  then show ?thesis using run by blast
qed

definition ring :: "(nat \<Rightarrow> nat option) \<Rightarrow> (nat \<Rightarrow> nat option) \<Rightarrow> nat list \<Rightarrow> bool" where
  "ring n p xs \<longleftrightarrow> xs = [] \<or> (chain n p xs \<and> n (last xs) = Some (hd xs) \<and> p (hd xs) = Some (last xs))"

text \<open>A ring may be read from any of its elements on.\<close>

lemma ring_swap: "ring n p (xs @ ys) \<Longrightarrow> ring n p (ys @ xs)"
  by (cases "xs = []"; cases "ys = []") (auto simp: ring_def chain_append2)

lemma ring_unlink:
  assumes "ring n p (e # ws)" "distinct (e # ws)" "ws \<noteq> []"
  shows "n e = Some (hd ws)" "p e = Some (last ws)"
    "ring (n(last ws := Some (hd ws), e := v)) (p(hd ws := Some (last ws), e := v')) ws"
proof -
  have old: "chain n p ws" "n e = Some (hd ws)" "p e = Some (last ws)"
    using assms(1,3) chain_append2 [of "[e]" ws n p] by (auto simp: ring_def)
  then show "n e = Some (hd ws)" "p e = Some (last ws)" by simp_all
  have "chain (n(last ws := Some (hd ws), e := v)) (p(hd ws := Some (last ws), e := v')) ws = chain n p ws"
  proof (rule chain_cong)
    fix a assume "a \<in> set (butlast ws)"
    then have "a \<noteq> last ws" "a \<noteq> e"
      using assms(2,3) last_notin_butlast [of ws] in_set_butlastD [of a ws] by auto
    then show "(n(last ws := Some (hd ws), e := v)) a = n a" by simp
  next
    fix a assume "a \<in> set (tl ws)"
    then have "a \<noteq> hd ws" "a \<noteq> e" using assms(2,3) hd_notin_tl [of ws] list.set_sel(2) [of ws a] by auto
    then show "(p(hd ws := Some (last ws), e := v')) a = p a" by simp
  qed
  then show "ring (n(last ws := Some (hd ws), e := v)) (p(hd ws := Some (last ws), e := v')) ws"
    using old assms(2,3) by (auto simp: ring_def)
qed

lemma list_repr_ring:
  "list_repr s l xs \<longleftrightarrow> l = (if xs = [] then None else Some (last xs)) \<and> distinct xs \<and> set xs \<subseteq> qdom s \<and>
     ring (nxt s) (prv s) xs"
  by (auto simp: list_repr_def ring_def)

lemma remove_repr:
  assumes "list_repr s l (ys @ e # zs)"
  shows "\<exists>s' l'. list_remove s l (Some e) = Inr (s', l') \<and> list_repr s' l' (ys @ zs) \<and> detached s' e"
proof (cases "ys @ zs = []")
  case True
  then show ?thesis using assms by (auto simp: list_remove_def list_repr_def detached_def)
next
  case False
  let ?ws = "zs @ ys"
  have ne: "?ws \<noteq> []" using False by auto
  have dist: "distinct (e # ?ws)" and dom: "e \<in> qdom s" "set ?ws \<subseteq> qdom s" and l: "l = Some (last (ys @ e # zs))"
    using assms by (auto simp: list_repr_def)
  let ?a = "last ?ws" and ?b = "hd ?ws"
  have ab: "?a \<in> qdom s" "?b \<in> qdom s" "?a \<noteq> e" "?b \<noteq> e"
    using dom dist last_in_set [OF ne] hd_in_set [OF ne] by auto
  have rg: "ring (nxt s) (prv s) (e # ?ws)"
    using assms ring_swap [of "nxt s" "prv s" ys "e # zs"] by (simp add: list_repr_ring)
  note un = ring_unlink [OF rg dist ne]
  let ?s = "put_prev (put_next (put_next (put_prev s ?b (Some ?a)) ?a (Some ?b)) e (Some e)) e (Some e)"
  let ?l = "if zs = [] then Some ?a else l"
  have le: "l = Some e \<longleftrightarrow> zs = []" using dist by (auto simp: l)
  have run: "list_remove s l (Some e) = Inr (?s, ?l)"
    using dom(1) ab un(1,2) le by (cases "zs = []") (auto simp: list_remove_def)
  have obs: "nxt ?s = (nxt s)(?a := Some ?b, e := Some e)" "prv ?s = (prv s)(?b := Some ?a, e := Some e)"
    "qdom ?s = qdom s"
    using dom(1) ab by simp_all
  have "ring (nxt ?s) (prv ?s) (ys @ zs)" unfolding obs by (rule ring_swap) (rule un(3))
  moreover have "?l = Some (last (ys @ zs))" using False by (auto simp: l)
  ultimately have "list_repr ?s ?l (ys @ zs)"
    unfolding list_repr_ring obs(3) using False dist dom by auto
  moreover have "detached ?s e" unfolding detached_def obs using dom by simp
  ultimately show ?thesis using run by blast
qed

lemma make_first_then_remove:
  assumes "list_repr s l xs" "detached s e" "e \<notin> set xs"
  shows "\<exists>s' l' s''. list_make_first s l (Some e) = Inr (s', l') \<and> list_repr s' l' (e # xs) \<and>
     list_first s' l' = Inr (Some e) \<and> list_remove s' l' (Some e) = Inr (s'', l) \<and> list_repr s'' l xs"
proof -
  obtain s' l' where 1: "list_make_first s l (Some e) = Inr (s', l')" "list_repr s' l' (e # xs)"
    using make_first_repr [OF assms] by blast
  have "last (e # xs) \<in> qdom s'" using 1(2) last_in_set [of "e # xs"] by (auto simp: list_repr_def)
  then have "list_first s' l' = Inr (Some e)" using 1(2) by (simp add: list_first_def list_repr_def)
  moreover obtain s'' l'' where 2: "list_remove s' l' (Some e) = Inr (s'', l'')" "list_repr s'' l'' xs"
    using remove_repr [of s' l' "[]" e xs] 1(2) by auto
  moreover have "l'' = l" using 2(2) assms(1) by (simp add: list_repr_def)
  ultimately show ?thesis using 1 by blast
qed

section \<open>Properties\<close>

text \<open>
  Intrusive lists. \<open>list_make_first\<close> puts a detached element in front of a list, and
  \<open>list_first\<close> then returns it; \<open>list_remove\<close> takes any element out of a list, keeps the order of the
  others and leaves the element detached, so that the two are inverse.
\<close>

theorem list_ops_correct:
  assumes "list_repr s l xs"
  shows "(detached s e \<and> e \<notin> set xs \<longrightarrow>
      (\<exists>s' l' s''. list_make_first s l (Some e) = Inr (s', l') \<and> list_repr s' l' (e # xs) \<and>
         list_first s' l' = Inr (Some e) \<and> list_remove s' l' (Some e) = Inr (s'', l) \<and> list_repr s'' l xs)) \<and>
    (xs = ys @ e # zs \<longrightarrow>
      (\<exists>s' l'. list_remove s l (Some e) = Inr (s', l') \<and> list_repr s' l' (ys @ zs) \<and> detached s' e))"
  using make_first_then_remove [OF assms] remove_repr assms by blast

fun enqueue_all :: "qheap \<Rightarrow> nat \<Rightarrow> nat list \<Rightarrow> qheap res" where
  "enqueue_all s q [] = Inr s"
| "enqueue_all s q (e # es) = rbind (queue_enqueue s q e) (\<lambda>s. enqueue_all s q es)"

fun dequeue_n :: "qheap \<Rightarrow> nat \<Rightarrow> nat \<Rightarrow> (nat option list \<times> qheap) res" where
  "dequeue_n s q 0 = Inr ([], s)"
| "dequeue_n s q (Suc k) =
     rbind (queue_dequeue s q) (\<lambda>(e, s). rbind (dequeue_n s q k) (\<lambda>(es, s). Inr (e # es, s)))"

lemma enqueue_all_repr:
  "queue_repr s q xs \<Longrightarrow> distinct es \<Longrightarrow> set es \<subseteq> qdom s \<Longrightarrow> set es \<inter> set (q # xs) = {} \<Longrightarrow>
   \<exists>s'. enqueue_all s q es = Inr s' \<and> queue_repr s' q (xs @ es)"
proof (induction es arbitrary: s xs)
  case (Cons e es)
  have e: "e \<in> qdom s" "e \<notin> set (q # xs)" using Cons.prems by auto
  obtain s' where s': "queue_enqueue s q e = Inr s'" "queue_repr s' q (xs @ [e])"
      "same_outside (insert e (set (q # xs))) q s s'"
    by (rule enqueue_repr [OF Cons.prems(1) e])
  have "set es \<subseteq> qdom s'" "set es \<inter> set (q # xs @ [e]) = {}"
    using s'(3) Cons.prems by (auto simp: same_outside_def)
  then show ?case using Cons.IH [OF s'(2)] Cons.prems(2) s'(1) by simp
qed simp

lemma dequeue_n_repr:
  "queue_repr s q (xs @ ys) \<Longrightarrow> \<exists>s'. dequeue_n s q (length xs) = Inr (map Some xs, s') \<and> queue_repr s' q ys"
proof (induction xs arbitrary: s)
  case (Cons e es)
  have r: "queue_repr s q (e # es @ ys)" using Cons.prems by simp
  obtain s' where s': "queue_dequeue s q = Inr (Some e, s')" "queue_repr s' q (es @ ys)"
    by (rule dequeue_repr [OF r])
  show ?case using Cons.IH [OF s'(2)] s'(1) by auto
qed simp

text \<open>
  C31: queues are first-in first-out. From an initialised queue, enqueueing distinct elements one
  after another and dequeueing as often returns the elements in the order they were put in; the
  queue is empty again afterwards and answers NULL.
\<close>

theorem queue_fifo:
  assumes "q \<in> qdom s" "set es \<subseteq> qdom s" "distinct (q # es)"
  shows "\<exists>s0 s1 s2. queue_init s q = Inr s0 \<and> queue_is_empty s0 q \<and> enqueue_all s0 q es = Inr s1 \<and>
     dequeue_n s1 q (length es) = Inr (map Some es, s2) \<and> queue_is_empty s2 q \<and>
     queue_dequeue s2 q = Inr (None, s2)"
proof -
  obtain s0 where s0: "queue_init s q = Inr s0" "queue_repr s0 q []" "qdom s0 = qdom s"
    using assms(1) by (simp add: queue_init_def list_init_def queue_repr_def)
  obtain s1 where s1: "enqueue_all s0 q es = Inr s1" "queue_repr s1 q es"
    using enqueue_all_repr [OF s0(2), of es] assms s0(3) by auto
  obtain s2 where s2: "dequeue_n s1 q (length es) = Inr (map Some es, s2)" "queue_repr s2 q []"
    using dequeue_n_repr [of s1 q es "[]"] s1(2) by auto
  have "queue_is_empty s0 q" "queue_is_empty s2 q" using s0(2) s2(2) queue_repr_tail by blast+
  then show ?thesis using s0(1) s1(1) s2(1) by (auto simp: queue_dequeue_def)
qed

definition demo_store :: qheap where
  "demo_store = \<lparr>qh_cells = (\<lambda>a. if a < 10 then Some \<lparr>l_next = Some a, l_prev = Some a\<rparr> else None), qh_tail = Map.empty\<rparr>"

lemma demo_store_dom: "a < 10 \<Longrightarrow> a \<in> qdom demo_store"
  by (auto simp: qdom_def demo_store_def)

theorem queue_fifo_witness:
  "\<exists>s0 s1 s2. queue_init demo_store 0 = Inr s0 \<and> enqueue_all s0 0 [3, 1, 2] = Inr s1 \<and>
     dequeue_n s1 0 3 = Inr ([Some 3, Some 1, Some 2], s2) \<and> queue_dequeue s2 0 = Inr (None, s2)"
  using queue_fifo [of 0 demo_store "[3, 1, 2]"] demo_store_dom by (auto simp: eval_nat_numeral)

theorem list_ops_correct_witness:
  "list_repr demo_store None [] \<and> detached demo_store 4 \<and>
   (\<exists>s' l' s''. list_make_first demo_store None (Some 4) = Inr (s', l') \<and> list_first s' l' = Inr (Some 4) \<and>
      list_remove s' l' (Some 4) = Inr (s'', None))"
proof -
  have 1: "list_repr demo_store None []" "detached demo_store 4"
    using demo_store_dom [of 4] by (simp_all add: list_repr_def detached_def nxt_def prv_def) (simp_all add: demo_store_def)
  then show ?thesis using list_ops_correct [OF 1(1), of 4] by auto
qed

end
