(* ===== verification/Ring.thy ===== *)
theory Ring
  imports Prelude
begin

text \<open>
  The ring buffer with two mutexes of \<open>lps-linux/queue.c\<close>, as one thread runs it. Elements are
  numbers (the code's \<open>void *\<close>, 0 is NULL). A mutex is a flag; locking a locked mutex never
  returns (fault \<open>Deadlock\<close>), and unlocking a mutex that is not locked, which POSIX leaves undefined,
  leaves it unlocked and sets \<open>rq_misuse\<close>, so that the data flow of such a run can still be
  followed. Indices and counters are 64 bit, \<open>current_count\<close> is an \<open>int\<close>.
\<close>

record RingQueue =
  rq_buf :: "nat list"
  rq_head :: u64
  rq_tail :: u64
  rq_cap :: u64
  rq_count :: u64
  rq_hlock :: bool
  rq_tlock :: bool
  rq_misuse :: bool

section \<open>Mutexes\<close>

definition lock_h :: "RingQueue \<Rightarrow> RingQueue res" where
  "lock_h q = (if rq_hlock q then Inl Deadlock else Inr (q\<lparr>rq_hlock := True\<rparr>))"

definition lock_t :: "RingQueue \<Rightarrow> RingQueue res" where
  "lock_t q = (if rq_tlock q then Inl Deadlock else Inr (q\<lparr>rq_tlock := True\<rparr>))"

definition unlock_h :: "RingQueue \<Rightarrow> RingQueue" where
  "unlock_h q = q\<lparr>rq_hlock := False, rq_misuse := (rq_misuse q \<or> \<not> rq_hlock q)\<rparr>"

definition unlock_t :: "RingQueue \<Rightarrow> RingQueue" where
  "unlock_t q = q\<lparr>rq_tlock := False, rq_misuse := (rq_misuse q \<or> \<not> rq_tlock q)\<rparr>"

definition lock_both :: "RingQueue \<Rightarrow> RingQueue res" where
  "lock_both q = rbind (lock_h q) lock_t"

definition unlock_both :: "RingQueue \<Rightarrow> RingQueue" where
  "unlock_both q = unlock_h (unlock_t q)"

section \<open>Buffer access\<close>

definition buf_get :: "RingQueue \<Rightarrow> u64 \<Rightarrow> nat res" where
  "buf_get q i = (if unat i < length (rq_buf q) then Inr (rq_buf q ! unat i) else Inl OutOfBounds)"

definition buf_set :: "RingQueue \<Rightarrow> u64 \<Rightarrow> nat \<Rightarrow> RingQueue res" where
  "buf_set q i v =
     (if unat i < length (rq_buf q) then Inr (q\<lparr>rq_buf := (rq_buf q)[unat i := v]\<rparr>) else Inl OutOfBounds)"

definition umod :: "u64 \<Rightarrow> u64 \<Rightarrow> u64 res" where
  "umod a b = (if b = 0 then Inl DivByZero else Inr (a mod b))"

section \<open>Operations\<close>

text \<open>The two flags say whether \<open>malloc\<close> and \<open>calloc\<close> succeed.\<close>

definition ring_create :: "bool \<Rightarrow> bool \<Rightarrow> u64 \<Rightarrow> RingQueue option" where
  "ring_create malloc_ok calloc_ok cap =
     (if \<not> malloc_ok then None
      else if \<not> calloc_ok then None
      else Some \<lparr>rq_buf = replicate (unat cap) 0, rq_head = 0, rq_tail = 0, rq_cap = cap, rq_count = 0,
                 rq_hlock = False, rq_tlock = False, rq_misuse = False\<rparr>)"

text \<open>
  \<open>ring_free\<close>: the queue is gone; the flag says whether a locked mutex was destroyed, which POSIX leaves
  undefined.
\<close>

definition ring_free :: "RingQueue option \<Rightarrow> RingQueue option \<times> bool" where
  "ring_free q = (case q of None \<Rightarrow> (None, False) | Some q \<Rightarrow> (None, rq_hlock q \<or> rq_tlock q))"

definition ring_count :: "RingQueue \<Rightarrow> cint" where
  "ring_count q = ucast (rq_count q)"

definition ring_push_one :: "RingQueue \<Rightarrow> nat \<Rightarrow> (cint \<times> RingQueue) res" where
  "ring_push_one q val =
     (let current_count = ring_count q in
      if int_to_u64 current_count \<ge> rq_cap q then Inr (0, q)
      else
        let locked_both = int_to_u64 current_count \<ge> rq_cap q - 1 in
        rbind (if locked_both then lock_both q else lock_t q) (\<lambda>q.
        if rq_count q \<ge> rq_cap q then Inr (0, if locked_both then unlock_both q else unlock_t q)
        else
          rbind (buf_set q (rq_tail q) val) (\<lambda>q.
          rbind (umod (rq_tail q + 1) (rq_cap q)) (\<lambda>tail.
          let q = q\<lparr>rq_tail := tail, rq_count := rq_count q + 1\<rparr> in
          Inr (1, if locked_both then unlock_both q else unlock_t q)))))"

text \<open>
  The do-while loop of \<open>ring_push\<close>. It consumes the given elements; the code's \<open>elems\<close> has
  \<open>count\<close> of them, and \<open>i\<close> counts the ones written.
\<close>

fun ring_push_loop :: "nat list \<Rightarrow> nat \<Rightarrow> RingQueue \<Rightarrow> (nat \<times> RingQueue) res" where
  "ring_push_loop [] i q = Inl OutOfBounds"
| "ring_push_loop (e # es) i q =
     rbind (buf_set q (rq_tail q) e) (\<lambda>q.
     rbind (umod (rq_tail q + 1) (rq_cap q)) (\<lambda>tail.
     let q = q\<lparr>rq_tail := tail\<rparr>; i = Suc i in
     if es \<noteq> [] \<and> rq_tail q \<noteq> rq_head q then ring_push_loop es i q else Inr (i, q)))"

definition ring_push :: "RingQueue \<Rightarrow> nat list \<Rightarrow> (nat \<times> RingQueue) res" where
  "ring_push q elems =
     (if elems = [] then Inr (0, q)
      else
        rbind (lock_both q) (\<lambda>q.
        rbind (ring_push_loop elems 0 q) (\<lambda>(i, q).
        Inr (i, unlock_both (q\<lparr>rq_count := rq_count q + of_nat i\<rparr>)))))"

text \<open>\<open>locked_both\<close> starts as 1 in \<open>ring_pop_one\<close>, so both branches unlock both mutexes.\<close>

definition ring_pop_one :: "RingQueue \<Rightarrow> (nat \<times> RingQueue) res" where
  "ring_pop_one q =
     (let current_count = ring_count q in
      if sint current_count \<le> 0 then Inr (0, q)
      else
        rbind (if sint current_count \<le> 1 then lock_both q else lock_h q) (\<lambda>q.
        let locked_both = True in
        if rq_count q \<le> 0 then Inr (0, if locked_both then unlock_both q else unlock_h q)
        else
          rbind (buf_get q (rq_head q)) (\<lambda>val.
          rbind (umod (rq_head q + 1) (rq_cap q)) (\<lambda>head.
          let q = q\<lparr>rq_head := head, rq_count := rq_count q - 1\<rparr> in
          Inr (val, if locked_both then unlock_both q else unlock_h q)))))"

text \<open>\<open>locked_both\<close> is 0 in \<open>ring_pop_back\<close> also after both mutexes were locked.\<close>

definition ring_pop_back :: "RingQueue \<Rightarrow> (nat \<times> RingQueue) res" where
  "ring_pop_back q =
     (let current_count = ring_count q in
      if sint current_count \<le> 0 then Inr (0, q)
      else
        rbind (if sint current_count \<le> 1 then lock_both q else lock_t q) (\<lambda>q.
        let locked_both = False in
        if rq_count q \<le> 0 then Inr (0, if locked_both then unlock_both q else unlock_t q)
        else
          rbind (umod (rq_tail q - 1 + rq_cap q) (rq_cap q)) (\<lambda>tail.
          let q = q\<lparr>rq_tail := tail\<rparr> in
          rbind (buf_get q (rq_tail q)) (\<lambda>val.
          let q = q\<lparr>rq_count := rq_count q - 1\<rparr> in
          Inr (val, if locked_both then unlock_both q else unlock_t q)))))"

text \<open>The elements \<open>ring_pop\<close> stores in \<open>elems\<close> are returned as a list.\<close>

fun ring_pop_loop :: "nat \<Rightarrow> RingQueue \<Rightarrow> (nat list \<times> RingQueue) res" where
  "ring_pop_loop 0 q = Inr ([], q)"
| "ring_pop_loop (Suc k) q =
     (if rq_head q \<noteq> rq_tail q then
        rbind (buf_get q (rq_head q)) (\<lambda>e.
        rbind (umod (rq_head q + 1) (rq_cap q)) (\<lambda>head.
        rbind (ring_pop_loop k (q\<lparr>rq_head := head\<rparr>)) (\<lambda>(es, q).
        Inr (e # es, q))))
      else Inr ([], q))"

definition ring_pop :: "RingQueue \<Rightarrow> cint \<Rightarrow> (nat list \<times> RingQueue) res" where
  "ring_pop q count =
     rbind (lock_both q) (\<lambda>q.
     rbind (ring_pop_loop (nat (sint count)) q) (\<lambda>(elems, q).
     Inr (elems, unlock_both (q\<lparr>rq_count := rq_count q - of_nat (length elems)\<rparr>))))"

section \<open>Contents\<close>

text \<open>
  The buffer as the list of its elements, from head on. \<open>rotated\<close> reads k elements from position h
  with wrap-around.
\<close>

definition rotated :: "'a list \<Rightarrow> nat \<Rightarrow> nat \<Rightarrow> 'a list" where
  "rotated buf h k = map (\<lambda>i. buf ! ((h + i) mod length buf)) [0 ..< k]"

definition ring_ok :: "RingQueue \<Rightarrow> nat list \<Rightarrow> bool" where
  "ring_ok q xs \<longleftrightarrow> 0 < length (rq_buf q) \<and> length (rq_buf q) < 2 ^ 31 \<and>
     unat (rq_cap q) = length (rq_buf q) \<and> unat (rq_head q) < length (rq_buf q) \<and>
     unat (rq_tail q) = (unat (rq_head q) + length xs) mod length (rq_buf q) \<and>
     unat (rq_count q) = length xs \<and> length xs \<le> length (rq_buf q) \<and>
     xs = rotated (rq_buf q) (unat (rq_head q)) (length xs)"

abbreviation unlocked :: "RingQueue \<Rightarrow> bool" where
  "unlocked q \<equiv> \<not> rq_hlock q \<and> \<not> rq_tlock q"

lemma length_rotated [simp]: "length (rotated buf h k) = k"
  by (simp add: rotated_def)

lemma rotated_0 [simp]: "rotated buf h 0 = []"
  by (simp add: rotated_def)

lemma rotated_snoc: "rotated buf h (Suc k) = rotated buf h k @ [buf ! ((h + k) mod length buf)]"
  by (simp add: rotated_def)

lemma rotated_Cons:
  "h < length buf \<Longrightarrow> rotated buf h (Suc k) = buf ! h # rotated buf (Suc h mod length buf) k"
  unfolding rotated_def
  by (subst upt_conv_Cons) (simp_all add: map_Suc_upt [symmetric] mod_simps del: upt_Suc)

lemma shift_mod_inj:
  fixes m :: nat
  assumes "i < k" "k < m"
  shows "(h + i) mod m \<noteq> (h + k) mod m"
proof
  assume "(h + i) mod m = (h + k) mod m"
  then have "m dvd (h + k) - (h + i)"
    using assms(1) mod_eq_dvd_iff_nat [of "h + i" "h + k" m] by simp
  then have "m dvd k - i" by simp
  then show False using assms by (auto dest: dvd_imp_le)
qed

lemma rotated_update:
  assumes "k < length buf"
  shows "rotated (buf[(h + k) mod length buf := v]) h (Suc k) = rotated buf h k @ [v]"
proof -
  have "(buf[(h + k) mod length buf := v]) ! ((h + i) mod length buf) = buf ! ((h + i) mod length buf)" if "i < k" for i
    using shift_mod_inj [OF that assms, of h] by simp
  moreover have "(h + k) mod length buf < length buf" by (rule mod_less_divisor) (use assms in linarith)
  ultimately show ?thesis by (simp add: rotated_def)
qed

section \<open>Word facts\<close>

lemma unat_umod: "0 < b \<Longrightarrow> umod a b = Inr (a mod b)" "unat (a mod b) = unat a mod unat b"
  by (auto simp: umod_def unat_mod)

section \<open>Correctness\<close>

lemma ring_ok_words:
  assumes "ring_ok q xs"
  shows "rq_cap q \<noteq> 0" "int_to_u64 (ring_count q) = rq_count q" "sint (ring_count q) = int (length xs)"
    "unat (rq_tail q) < length (rq_buf q)"
    "unat ((rq_tail q + 1) mod rq_cap q) = (unat (rq_tail q) + 1) mod length (rq_buf q)"
    "unat ((rq_head q + 1) mod rq_cap q) = (unat (rq_head q) + 1) mod length (rq_buf q)"
    "rq_count q < rq_cap q \<longleftrightarrow> length xs < length (rq_buf q)"
proof -
  have c: "unat (rq_count q) < 2 ^ 31" using assms by (auto simp: ring_ok_def)
  show "int_to_u64 (ring_count q) = rq_count q" "sint (ring_count q) = int (length xs)"
    using count_as_int [OF c] assms by (simp_all add: ring_count_def ring_ok_def del: of_nat_unat)
  show "rq_cap q \<noteq> 0" using assms by (auto simp: ring_ok_def)
  show tl: "unat (rq_tail q) < length (rq_buf q)" using assms by (simp add: ring_ok_def)
  have m: "length (rq_buf q) < 2 ^ 31" "unat (rq_head q) < length (rq_buf q)" using assms by (simp_all add: ring_ok_def)
  have s1: "unat (rq_tail q + 1) = unat (rq_tail q) + 1" by (rule unat_Suc_u64) (use m(1) tl in simp)
  have s2: "unat (rq_head q + 1) = unat (rq_head q) + 1" by (rule unat_Suc_u64) (use m in simp)
  show "unat ((rq_tail q + 1) mod rq_cap q) = (unat (rq_tail q) + 1) mod length (rq_buf q)"
    "unat ((rq_head q + 1) mod rq_cap q) = (unat (rq_head q) + 1) mod length (rq_buf q)"
    using s1 s2 assms by (simp_all add: unat_mod ring_ok_def)
  show "rq_count q < rq_cap q \<longleftrightarrow> length xs < length (rq_buf q)"
    using assms by (simp add: u64_less_iff ring_ok_def)
qed

lemma ring_ok_cong:
  "rq_buf q' = rq_buf q \<Longrightarrow> rq_head q' = rq_head q \<Longrightarrow> rq_tail q' = rq_tail q \<Longrightarrow> rq_cap q' = rq_cap q \<Longrightarrow>
   rq_count q' = rq_count q \<Longrightarrow> ring_ok q' xs = ring_ok q xs"
  by (simp add: ring_ok_def)

lemma ring_ok_push:
  assumes "ring_ok q xs" "length xs < length (rq_buf q)"
    "rq_buf q' = (rq_buf q)[unat (rq_tail q) := v]" "rq_head q' = rq_head q" "rq_cap q' = rq_cap q"
    "rq_tail q' = (rq_tail q + 1) mod rq_cap q" "rq_count q' = rq_count q + 1"
  shows "ring_ok q' (xs @ [v])"
proof -
  have t: "unat (rq_tail q) = (unat (rq_head q) + length xs) mod length (rq_buf q)"
    and x: "xs = rotated (rq_buf q) (unat (rq_head q)) (length xs)" and m: "length (rq_buf q) < 2 ^ 31"
    using assms(1) by (simp_all add: ring_ok_def)
  have "rotated (rq_buf q') (unat (rq_head q')) (Suc (length xs)) = xs @ [v]"
    unfolding assms(3,4) t using rotated_update [OF assms(2), of "unat (rq_head q)" v] x by simp
  moreover have "unat (rq_count q') = Suc (length xs)"
    using assms(1,2,7) m by (simp add: unat_Suc_u64 ring_ok_def)
  moreover have "unat (rq_tail q') = (unat (rq_head q) + Suc (length xs)) mod length (rq_buf q)"
    using ring_ok_words(5) [OF assms(1)] t assms(6) by (simp add: mod_simps)
  ultimately show ?thesis using assms by (simp add: ring_ok_def)
qed

lemma ring_ok_pop:
  assumes "ring_ok q (x # xs)" "rq_buf q' = rq_buf q" "rq_cap q' = rq_cap q" "rq_tail q' = rq_tail q"
    "rq_head q' = (rq_head q + 1) mod rq_cap q" "rq_count q' = rq_count q - 1"
  shows "ring_ok q' xs" "rq_buf q ! unat (rq_head q) = x"
proof -
  let ?m = "length (rq_buf q)" and ?h = "unat (rq_head q)"
  have h: "?h < ?m" and x: "x # xs = rotated (rq_buf q) ?h (Suc (length xs))"
    using assms(1) by (simp_all add: ring_ok_def)
  have h': "unat (rq_head q') = Suc ?h mod ?m" using ring_ok_words(6) [OF assms(1)] assms(5) by simp
  show "rq_buf q ! ?h = x" and xs: "ring_ok q' xs"
  proof -
    have "x # xs = rq_buf q ! ?h # rotated (rq_buf q) (Suc ?h mod ?m) (length xs)"
      using x rotated_Cons [OF h] by simp
    then have eqs: "rq_buf q ! ?h = x" "xs = rotated (rq_buf q) (Suc ?h mod ?m) (length xs)" by simp_all
    then show "rq_buf q ! ?h = x" by simp
    have "unat (rq_count q') = length xs"
      using assms(1,6) by (simp add: ring_ok_def unat_sub u64_le_iff)
    moreover have "unat (rq_tail q') = (Suc ?h mod ?m + length xs) mod ?m"
      using assms(1,4) by (simp add: ring_ok_def mod_simps)
    moreover have "Suc ?h mod ?m < ?m" using h by (intro mod_less_divisor) linarith
    ultimately show "ring_ok q' xs"
      using assms(1-3) eqs(2) h' by (simp add: ring_ok_def)
  qed
qed

lemma ring_ok_pop_back:
  assumes "ring_ok q (xs @ [x])" "rq_buf q' = rq_buf q" "rq_cap q' = rq_cap q" "rq_head q' = rq_head q"
    "rq_tail q' = (rq_tail q - 1 + rq_cap q) mod rq_cap q" "rq_count q' = rq_count q - 1"
  shows "ring_ok q' xs" "rq_buf q ! unat (rq_tail q') = x" "unat (rq_tail q') < length (rq_buf q)"
proof -
  let ?m = "length (rq_buf q)" and ?h = "unat (rq_head q)" and ?k = "length xs"
  have m: "0 < ?m" "?m < 2 ^ 31" "unat (rq_cap q) = ?m" and t: "unat (rq_tail q) = (?h + Suc ?k) mod ?m"
    and x: "xs @ [x] = rotated (rq_buf q) ?h (Suc ?k)"
    using assms(1) by (simp_all add: ring_ok_def)
  have tm: "unat (rq_tail q) < ?m" using ring_ok_words(4) [OF assms(1)] .
  have "1 \<le> rq_cap q" using m(1,3) by (simp add: u64_le_iff Suc_le_eq)
  then have "unat (rq_cap q - 1) = ?m - 1" using m(3) by (simp add: unat_sub)
  then have "unat (rq_tail q + (rq_cap q - 1)) = unat (rq_tail q) + (?m - 1)"
    using m tm by (subst unat_add_nowrap) simp_all
  then have "unat (rq_tail q') = (unat (rq_tail q) + (?m - 1)) mod ?m"
    using assms(5) m(3) by (simp add: unat_mod algebra_simps)
  also have "\<dots> = (?h + Suc ?k + (?m - 1)) mod ?m" unfolding t by (rule mod_add_left_eq)
  also have "?h + Suc ?k + (?m - 1) = ?h + ?k + ?m" using m(1) by simp
  finally have t': "unat (rq_tail q') = (?h + ?k) mod ?m" by simp
  have "xs @ [x] = rotated (rq_buf q) ?h ?k @ [rq_buf q ! ((?h + ?k) mod ?m)]" using x by (simp add: rotated_snoc)
  then have "xs = rotated (rq_buf q) ?h ?k" "x = rq_buf q ! ((?h + ?k) mod ?m)" by simp_all
  moreover have "unat (rq_count q') = ?k" using assms(1,6) by (simp add: ring_ok_def unat_sub u64_le_iff)
  ultimately show "ring_ok q' xs" "rq_buf q ! unat (rq_tail q') = x" "unat (rq_tail q') < ?m"
    using assms(1-4) t' m(1) by (simp_all add: ring_ok_def)
qed

lemma head_tail_eq:
  assumes "ring_ok q xs"
  shows "rq_head q = rq_tail q \<longleftrightarrow> xs = [] \<or> length xs = length (rq_buf q)"
proof -
  let ?m = "length (rq_buf q)" and ?h = "unat (rq_head q)"
  have h: "?h < ?m" "length xs \<le> ?m" and t: "unat (rq_tail q) = (?h + length xs) mod ?m"
    using assms by (simp_all add: ring_ok_def)
  have "?h = (?h + length xs) mod ?m \<longleftrightarrow> xs = [] \<or> length xs = ?m"
    using shift_mod_inj [of 0 "length xs" ?m ?h] h by (cases "length xs = 0"; cases "length xs = ?m") auto
  then show ?thesis using t by (simp add: u64_eq_iff)
qed

text \<open>During the bulk operations the counter lags behind; \<open>counted\<close> is the queue with it set right.\<close>

abbreviation counted :: "RingQueue \<Rightarrow> nat \<Rightarrow> RingQueue" where
  "counted q k \<equiv> q\<lparr>rq_count := of_nat k\<rparr>"

definition same_locks :: "RingQueue \<Rightarrow> RingQueue \<Rightarrow> bool" where
  "same_locks q q' \<longleftrightarrow> rq_hlock q' = rq_hlock q \<and> rq_tlock q' = rq_tlock q \<and> rq_misuse q' = rq_misuse q \<and>
     rq_count q' = rq_count q \<and> length (rq_buf q') = length (rq_buf q)"

lemma push_loop_ok:
  assumes "ring_ok (counted q (length xs)) xs" "length xs < length (rq_buf q)" "es \<noteq> []"
  shows "\<exists>q' k. ring_push_loop es i q = Inr (i + k, q') \<and> k = min (length es) (length (rq_buf q) - length xs) \<and>
    ring_ok (counted q' (length xs + k)) (xs @ take k es) \<and> same_locks q q'"
  using assms
proof (induction es arbitrary: xs i q)
  case (Cons e es)
  let ?q = "q\<lparr>rq_buf := (rq_buf q)[unat (rq_tail q) := e], rq_tail := (rq_tail q + 1) mod rq_cap q\<rparr>"
  let ?m = "length (rq_buf q)"
  have w: "unat (rq_tail q) < ?m" "rq_cap q \<noteq> 0"
    using ring_ok_words(1,4) [OF Cons.prems(1)] by simp_all
  have "ring_ok (counted ?q (length (xs @ [e]))) (xs @ [e])"
    by (rule ring_ok_push [OF Cons.prems(1)]) (use Cons.prems(2) in simp_all)
  then have ok: "ring_ok (counted ?q (length (xs @ [e]))) (xs @ [e])" .
  have full: "rq_head ?q = rq_tail ?q \<longleftrightarrow> Suc (length xs) = ?m" using head_tail_eq [OF ok] by simp
  have step: "ring_push_loop (e # es) i q =
      (if es \<noteq> [] \<and> Suc (length xs) \<noteq> ?m then ring_push_loop es (Suc i) ?q else Inr (Suc i, ?q))"
    using w full by (auto simp: buf_set_def umod_def Let_def)
  show ?case
  proof (cases "es \<noteq> [] \<and> Suc (length xs) \<noteq> ?m")
    case True
    obtain q' k where IH: "ring_push_loop es (Suc i) ?q = Inr (Suc i + k, q')"
        "k = min (length es) (length (rq_buf ?q) - length (xs @ [e]))"
        "ring_ok (counted q' (length (xs @ [e]) + k)) ((xs @ [e]) @ take k es)" "same_locks ?q q'"
      using Cons.IH [OF ok, of "Suc i"] True Cons.prems(2) by auto
    show ?thesis
      by (rule exI [of _ q'], rule exI [of _ "Suc k"])
        (use IH step True Cons.prems(2) in \<open>auto simp: same_locks_def\<close>)
  next
    case False
    then have "min (length (e # es)) (?m - length xs) = 1" using Cons.prems(2) by auto
    then show ?thesis
      by (intro exI [of _ ?q] exI [of _ 1]) (use step False ok in \<open>auto simp: same_locks_def\<close>)
  qed
qed simp

lemma pop_loop_ok:
  assumes "ring_ok (counted q (length xs)) xs" "length xs < length (rq_buf q)"
  shows "\<exists>q'. ring_pop_loop k q = Inr (take k xs, q') \<and>
    ring_ok (counted q' (length xs - k)) (drop k xs) \<and> same_locks q q'"
  using assms
proof (induction k arbitrary: xs q)
  case 0
  then show ?case by (simp add: same_locks_def)
next
  case (Suc k)
  show ?case
  proof (cases xs)
    case Nil
    then have "rq_head q = rq_tail q" using head_tail_eq [OF Suc.prems(1)] by simp
    then show ?thesis using Suc.prems Nil by (simp add: same_locks_def)
  next
    case (Cons x ys)
    let ?q = "q\<lparr>rq_head := (rq_head q + 1) mod rq_cap q\<rparr>"
    have ne: "rq_head q \<noteq> rq_tail q" using head_tail_eq [OF Suc.prems(1)] Suc.prems(2) Cons by simp
    have w: "rq_cap q \<noteq> 0" "unat (rq_head q) < length (rq_buf q)"
      using ring_ok_words(1) [OF Suc.prems(1)] Suc.prems(1) by (simp_all add: ring_ok_def)
    have p: "ring_ok (counted ?q (length ys)) ys" "rq_buf q ! unat (rq_head q) = x"
      using ring_ok_pop [of "counted q (length xs)" x ys "counted ?q (length ys)"] Suc.prems(1) Cons by simp_all
    obtain q' where "ring_pop_loop k ?q = Inr (take k ys, q')" "ring_ok (counted q' (length ys - k)) (drop k ys)"
        "same_locks ?q q'"
      using Suc.IH [OF p(1)] Suc.prems(2) Cons by auto
    then show ?thesis
      using ne w p(2) Cons by (auto simp: buf_get_def umod_def same_locks_def)
  qed
qed

lemma ring_ok_counted:
  assumes "ring_ok q xs"
  shows "rq_count q = of_nat (length xs)" "counted q (length xs) = q"
proof -
  have "unat (rq_count q) = length xs" "length xs < 2 ^ 64" using assms by (auto simp: ring_ok_def)
  then show c: "rq_count q = of_nat (length xs)" by (simp only: u64_eq_iff unat_of_nat_u64)
  show "counted q (length xs) = q" by (simp flip: c)
qed

lemma push_one_ok:
  assumes "ring_ok q xs" "unlocked q"
  shows "\<exists>q'. ring_push_one q v = Inr (if length xs < length (rq_buf q) then 1 else 0, q') \<and>
    ring_ok q' (if length xs < length (rq_buf q) then xs @ [v] else xs) \<and> unlocked q' \<and>
    rq_misuse q' = rq_misuse q \<and> length (rq_buf q') = length (rq_buf q)"
proof (cases "length xs < length (rq_buf q)")
  case False
  then show ?thesis using assms ring_ok_words(2,7) [OF assms(1)] by (auto simp: ring_push_one_def not_less)
next
  case True
  note w = ring_ok_words [OF assms(1)]
  let ?q = "q\<lparr>rq_buf := (rq_buf q)[unat (rq_tail q) := v], rq_tail := (rq_tail q + 1) mod rq_cap q, rq_count := rq_count q + 1\<rparr>"
  have lt: "\<not> rq_count q \<ge> rq_cap q" using w(7) True by simp
  have "ring_push_one q v = Inr (1, ?q)"
    using lt w(1,2,4) assms(2)
    by (cases "rq_count q \<ge> rq_cap q - 1")
      (simp_all add: ring_push_one_def Let_def lock_both_def lock_h_def lock_t_def unlock_both_def unlock_h_def
        unlock_t_def buf_set_def umod_def)
  moreover have "ring_ok ?q (xs @ [v])" by (rule ring_ok_push [OF assms(1) True]) simp_all
  ultimately show ?thesis using True assms(2) by (intro exI [of _ ?q]) simp
qed

lemma unlock_both_simps [simp]:
  "ring_ok (unlock_both q) xs = ring_ok q xs" "unlocked (unlock_both q)"
  "rq_misuse (unlock_both q) = (rq_misuse q \<or> \<not> rq_hlock q \<or> \<not> rq_tlock q)"
  "rq_buf (unlock_both q) = rq_buf q"
  by (auto simp: ring_ok_def unlock_both_def unlock_h_def unlock_t_def)

lemma push_ok:
  assumes "ring_ok q xs" "unlocked q" "length xs < length (rq_buf q)" "es \<noteq> []"
  shows "\<exists>q' k. ring_push q es = Inr (k, q') \<and> k = min (length es) (length (rq_buf q) - length xs) \<and>
    ring_ok q' (xs @ take k es) \<and> unlocked q' \<and> rq_misuse q' = rq_misuse q \<and>
    length (rq_buf q') = length (rq_buf q)"
proof -
  let ?q = "q\<lparr>rq_hlock := True, rq_tlock := True\<rparr>"
  have ok: "ring_ok (counted ?q (length xs)) xs"
    using assms(1) ring_ok_counted(1) [OF assms(1)] by (simp add: ring_ok_def)
  obtain q' k where l: "ring_push_loop es 0 ?q = Inr (k, q')" "k = min (length es) (length (rq_buf q) - length xs)"
      "ring_ok (counted q' (length xs + k)) (xs @ take k es)" "same_locks ?q q'"
    using push_loop_ok [OF ok, of es 0] assms(3,4) by auto
  let ?r = "unlock_both (counted q' (length xs + k))"
  have "ring_push q es = Inr (k, ?r)"
    using assms(2,4) l(1,4) ring_ok_counted(1) [OF assms(1)]
    by (simp add: ring_push_def lock_both_def lock_h_def lock_t_def same_locks_def)
  moreover have "ring_ok ?r (xs @ take k es)" "unlocked ?r" "rq_misuse ?r = rq_misuse q"
      "length (rq_buf ?r) = length (rq_buf q)"
    using l(3,4) by (simp_all add: same_locks_def)
  ultimately show ?thesis using l(2) by blast
qed

lemma pop_ok:
  assumes "ring_ok q xs" "unlocked q"
  shows "\<exists>q'. ring_pop q n = Inr (if length xs < length (rq_buf q) then take (nat (sint n)) xs else [], q') \<and>
    ring_ok q' (if length xs < length (rq_buf q) then drop (nat (sint n)) xs else xs) \<and>
    unlocked q' \<and> rq_misuse q' = rq_misuse q \<and> length (rq_buf q') = length (rq_buf q)"
proof -
  let ?q = "q\<lparr>rq_hlock := True, rq_tlock := True\<rparr>" and ?k = "nat (sint n)"
  have c: "rq_count q = of_nat (length xs)" using ring_ok_counted(1) [OF assms(1)] .
  have ok: "ring_ok (counted ?q (length xs)) xs" using assms(1) c by (simp add: ring_ok_def)
  let ?ys = "if length xs < length (rq_buf q) then take ?k xs else []"
  let ?zs = "if length xs < length (rq_buf q) then drop ?k xs else xs"
  have "\<exists>q'. ring_pop_loop ?k ?q = Inr (?ys, q') \<and> ring_ok (counted q' (length ?zs)) ?zs \<and> same_locks ?q q'"
  proof (cases "length xs < length (rq_buf q)")
    case True
    then show ?thesis using pop_loop_ok [OF ok, of ?k] by auto
  next
    case False
    then have "length xs = length (rq_buf q)" using assms(1) by (simp add: ring_ok_def)
    then have "rq_head ?q = rq_tail ?q" using head_tail_eq [OF assms(1)] by simp
    then have "ring_pop_loop ?k ?q = Inr ([], ?q)" by (cases ?k) simp_all
    then show ?thesis using False ok by (auto simp: same_locks_def)
  qed
  then obtain q' where l: "ring_pop_loop ?k ?q = Inr (?ys, q')" "ring_ok (counted q' (length ?zs)) ?zs" "same_locks ?q q'"
    by blast
  have len: "length ?ys \<le> length xs" "length xs - length ?ys = length ?zs" by auto
  have "rq_count q - of_nat (length ?ys) = of_nat (length ?zs)"
    using c len(1) len(2) [symmetric] by (simp only: of_nat_diff)
  then have "ring_pop q n = Inr (?ys, unlock_both (counted q' (length ?zs)))"
    using assms(2) l(1,3) by (simp add: ring_pop_def lock_both_def lock_h_def lock_t_def same_locks_def)
  moreover have "ring_ok (unlock_both (counted q' (length ?zs))) ?zs" "unlocked (unlock_both (counted q' (length ?zs)))"
    "rq_misuse (unlock_both (counted q' (length ?zs))) = rq_misuse q"
    "length (rq_buf (unlock_both (counted q' (length ?zs)))) = length (rq_buf q)"
    using l(2,3) by (simp_all only: unlock_both_simps) (simp_all add: same_locks_def)
  ultimately show ?thesis by blast
qed

lemma pop_one_ok:
  assumes "ring_ok q (x # xs)" "unlocked q"
  shows "\<exists>q'. ring_pop_one q = Inr (x, q') \<and> ring_ok q' xs \<and> unlocked q' \<and>
    rq_misuse q' = (rq_misuse q \<or> xs \<noteq> []) \<and> length (rq_buf q') = length (rq_buf q)"
proof -
  note w = ring_ok_words [OF assms(1)]
  let ?q = "q\<lparr>rq_head := (rq_head q + 1) mod rq_cap q, rq_count := rq_count q - 1\<rparr>"
  have p: "ring_ok ?q xs" "rq_buf q ! unat (rq_head q) = x"
    using ring_ok_pop [OF assms(1), of ?q] by simp_all
  have h: "unat (rq_head q) < length (rq_buf q)" "rq_count q \<noteq> 0" using assms(1) by (auto simp: ring_ok_def)
  have "ring_pop_one q = Inr (x, ?q\<lparr>rq_misuse := (rq_misuse q \<or> xs \<noteq> [])\<rparr>)"
    using w(1,3) p(2) h assms(2)
    by (cases "xs = []")
      (simp_all add: ring_pop_one_def Let_def lock_both_def lock_h_def lock_t_def unlock_both_def unlock_h_def
        unlock_t_def buf_get_def umod_def)
  then show ?thesis using p(1) assms(2) by (simp add: ring_ok_def)
qed

lemma pop_back_ok:
  assumes "ring_ok q (xs @ [x])" "unlocked q"
  shows "\<exists>q'. ring_pop_back q = Inr (x, q') \<and> ring_ok q' xs \<and> \<not> rq_tlock q' \<and> rq_hlock q' = (xs = []) \<and>
    rq_misuse q' = rq_misuse q \<and> length (rq_buf q') = length (rq_buf q)"
proof -
  note w = ring_ok_words [OF assms(1)]
  let ?q = "q\<lparr>rq_tail := (rq_tail q - 1 + rq_cap q) mod rq_cap q, rq_count := rq_count q - 1\<rparr>"
  have p: "ring_ok ?q xs" "rq_buf q ! unat (rq_tail ?q) = x" "unat (rq_tail ?q) < length (rq_buf q)"
    using ring_ok_pop_back [OF assms(1), of ?q] by simp_all
  have h: "rq_count q \<noteq> 0" using assms(1) by (auto simp: ring_ok_def)
  have "ring_pop_back q = Inr (x, ?q\<lparr>rq_hlock := (xs = [])\<rparr>)"
    using w(1,3) p(2,3) h assms(2)
    by (cases "xs = []")
      (simp_all add: ring_pop_back_def Let_def lock_both_def lock_h_def lock_t_def unlock_t_def buf_get_def umod_def)
  then show ?thesis using p(1) assms(2) by (simp add: ring_ok_def)
qed

lemma pop_empty:
  assumes "ring_ok q []"
  shows "ring_pop_one q = Inr (0, q)" "ring_pop_back q = Inr (0, q)"
  using ring_ok_words(3) [OF assms] by (simp_all add: ring_pop_one_def ring_pop_back_def)

section \<open>Properties\<close>

text \<open>
  C32: putting elements into a ring. On a ring that holds xs and whose mutexes are free,
  \<open>ring_push_one\<close> appends its element and returns 1, or returns 0 when the ring is full; \<open>ring_push\<close>
  on a ring that is not full appends as many of the given elements as fit and returns their number.
  Both leave the mutexes free and never unlock one they do not hold.
\<close>

theorem ring_push_correct:
  assumes "ring_ok q xs" "unlocked q"
  shows "(\<exists>q'. ring_push_one q v = Inr (if length xs < length (rq_buf q) then 1 else 0, q') \<and>
      ring_ok q' (if length xs < length (rq_buf q) then xs @ [v] else xs) \<and> unlocked q' \<and>
      rq_misuse q' = rq_misuse q) \<and>
    (length xs < length (rq_buf q) \<and> es \<noteq> [] \<longrightarrow>
      (\<exists>q' k. ring_push q es = Inr (k, q') \<and> k = min (length es) (length (rq_buf q) - length xs) \<and>
        ring_ok q' (xs @ take k es) \<and> unlocked q' \<and> rq_misuse q' = rq_misuse q))"
  using push_one_ok [OF assms, of v] push_ok [OF assms, of es] by blast

text \<open>
  C33: taking elements out of a ring. \<open>ring_pop\<close> takes the first elements, except that it takes nothing
  from a full ring; \<open>ring_pop_one\<close> takes the first element and \<open>ring_pop_back\<close> the last one, and both
  return NULL exactly for an empty ring. The mutexes are used wrongly in two cases: \<open>ring_pop_one\<close>
  unlocks the tail mutex without holding it when there are two or more elements, and \<open>ring_pop_back\<close>
  keeps the head mutex locked when it takes the only element.
\<close>

theorem ring_pop_correct:
  assumes "ring_ok q xs" "unlocked q"
  shows "(\<exists>q'. ring_pop q n = Inr (if length xs < length (rq_buf q) then take (nat (sint n)) xs else [], q') \<and>
      ring_ok q' (if length xs < length (rq_buf q) then drop (nat (sint n)) xs else xs) \<and>
      unlocked q' \<and> rq_misuse q' = rq_misuse q) \<and>
    (\<exists>q'. ring_pop_one q = Inr (if xs = [] then 0 else hd xs, q') \<and> ring_ok q' (tl xs) \<and> unlocked q' \<and>
      rq_misuse q' = (rq_misuse q \<or> 2 \<le> length xs)) \<and>
    (\<exists>q'. ring_pop_back q = Inr (if xs = [] then 0 else last xs, q') \<and> ring_ok q' (butlast xs) \<and>
      \<not> rq_tlock q' \<and> rq_hlock q' = (length xs = 1) \<and> rq_misuse q' = rq_misuse q)"
proof -
  have one: "\<exists>q'. ring_pop_one q = Inr (if xs = [] then 0 else hd xs, q') \<and> ring_ok q' (tl xs) \<and> unlocked q' \<and>
      rq_misuse q' = (rq_misuse q \<or> 2 \<le> length xs)"
  proof (cases xs)
    case Nil
    then show ?thesis using assms pop_empty(1) [of q] by auto
  next
    case (Cons y ys)
    moreover have "2 \<le> length xs \<longleftrightarrow> ys \<noteq> []" using Cons by (cases ys) auto
    ultimately show ?thesis using pop_one_ok [of q y ys] assms by fastforce
  qed
  have from_back: "\<exists>q'. ring_pop_back q = Inr (if xs = [] then 0 else last xs, q') \<and> ring_ok q' (butlast xs) \<and>
      \<not> rq_tlock q' \<and> rq_hlock q' = (length xs = 1) \<and> rq_misuse q' = rq_misuse q"
  proof (cases xs rule: rev_cases)
    case Nil
    then show ?thesis using assms pop_empty(2) [of q] by auto
  next
    case (snoc ys y)
    then show ?thesis using pop_back_ok [of q ys y] assms by fastforce
  qed
  show ?thesis using pop_ok [OF assms, of n] one from_back by blast
qed

section \<open>Concrete runs\<close>

definition demo_ring :: "nat list \<Rightarrow> RingQueue" where
  "demo_ring xs = \<lparr>rq_buf = xs @ replicate (4 - length xs) 0, rq_head = 0, rq_tail = of_nat (length xs mod 4), rq_cap = 4,
     rq_count = of_nat (length xs), rq_hlock = False, rq_tlock = False, rq_misuse = False\<rparr>"

lemma demo_ring_ok: "ring_ok (demo_ring [7, 8, 9]) [7, 8, 9]" "unlocked (demo_ring [7, 8, 9])"
  by (simp_all add: ring_ok_def demo_ring_def rotated_def upt_rec)

theorem ring_push_correct_witness:
  "ring_ok (demo_ring [7, 8, 9]) [7, 8, 9] \<and>
   (\<exists>q'. ring_push_one (demo_ring [7, 8, 9]) 5 = Inr (1, q') \<and> ring_ok q' [7, 8, 9, 5]) \<and>
   (\<exists>q'. ring_push (demo_ring [7, 8, 9]) [5, 6] = Inr (1, q') \<and> ring_ok q' [7, 8, 9, 5])"
  using ring_push_correct [OF demo_ring_ok, of 5 "[5, 6]"] demo_ring_ok by (auto simp: demo_ring_def)

theorem ring_pop_correct_witness:
  "ring_ok (demo_ring [7, 8, 9]) [7, 8, 9] \<and>
   (\<exists>q'. ring_pop (demo_ring [7, 8, 9]) 2 = Inr ([7, 8], q') \<and> ring_ok q' [9]) \<and>
   (\<exists>q'. ring_pop_one (demo_ring [7, 8, 9]) = Inr (7, q') \<and> ring_ok q' [8, 9] \<and> rq_misuse q') \<and>
   (\<exists>q'. ring_pop_back (demo_ring [7, 8, 9]) = Inr (9, q') \<and> ring_ok q' [7, 8])"
  using ring_pop_correct [OF demo_ring_ok, of 2] demo_ring_ok by (auto simp: demo_ring_def)

text \<open>A full ring: \<open>ring_pop\<close> takes nothing, and \<open>ring_push\<close> overwrites the oldest elements and counts past the capacity.\<close>

lemma ring_full_pop_takes_nothing:
  "ring_pop (demo_ring [1, 2, 3, 4]) 2 = Inr ([], demo_ring [1, 2, 3, 4])"
  by (simp add: ring_pop_def demo_ring_def lock_both_def lock_h_def lock_t_def unlock_both_def unlock_h_def unlock_t_def
      eval_nat_numeral)

lemma ring_full_push_overwrites:
  "map_sum id (\<lambda>(k, q). (k, rq_buf q, rq_count q)) (ring_push (demo_ring [1, 2, 3, 4]) [9]) = Inr (1, [9, 2, 3, 4], 5)"
  by code_simp

text \<open>After \<open>ring_pop_back\<close> took the only element, the head mutex stays locked and the next bulk operation hangs.\<close>

lemma ring_pop_back_then_push_hangs:
  "fault_of (rbind (ring_pop_back (demo_ring [1])) (\<lambda>(_, q). ring_push q [2])) = Some Deadlock"
  by code_simp

end
