(* ===== verification/Sched.thy ===== *)
theory Sched
  imports Queue Ring
begin

text \<open>
  The two schedulers of \<open>lps-linux/sched.c\<close>. A thread is named by the address of its list element
  (\<open>LIST_CONTAINER\<close> goes from one to the other). Running a thread until it gives the processor back
  (\<open>lps_thread_run\<close>) executes sandboxed code, so it is a parameter \<open>run\<close> of the model. The loops may
  run forever and are partial functions whose value None means that they do not return.
\<close>

datatype LPSThreadState = THREAD_RUNNABLE | THREAD_BOLCKED | THREAD_EXITED

section \<open>Round robin\<close>

record 'w sched =
  sc_heap :: qheap
  sc_state :: "nat \<Rightarrow> LPSThreadState"
  sc_world :: 'w

text \<open>The address of the static queue \<open>runq\<close>.\<close>

definition runq :: nat where "runq = 0"

definition sched_init :: "'w sched \<Rightarrow> 'w sched" where
  "sched_init s = s\<lparr>sc_heap := QUEUE_INIT (sc_heap s) runq\<rparr>"

definition get_next_runable :: "'w sched \<Rightarrow> (nat option \<times> 'w sched) res" where
  "get_next_runable s = rbind (queue_dequeue (sc_heap s) runq) (\<lambda>(e, h). Inr (e, s\<lparr>sc_heap := h\<rparr>))"

definition sched_enqueue :: "nat \<Rightarrow> nat \<Rightarrow> 'w sched \<Rightarrow> 'w sched res" where
  "sched_enqueue q t s = rbind (queue_enqueue (sc_heap s) q t) (\<lambda>h. Inr (s\<lparr>sc_heap := h\<rparr>))"

definition rrschedadd :: "nat \<Rightarrow> 'w sched \<Rightarrow> 'w sched res" where
  "rrschedadd t s = sched_enqueue runq t s"

partial_function (option) rr_loop ::
  "(nat \<Rightarrow> 'w sched \<Rightarrow> 'w sched res) \<Rightarrow> 'w sched \<Rightarrow> 'w sched res option" where
  "rr_loop run s =
     (case get_next_runable s of
        Inl e \<Rightarrow> Some (Inl e)
      | Inr (next, s) \<Rightarrow>
          (case next of
             None \<Rightarrow> Some (Inr s)
           | Some t \<Rightarrow>
               (case run t s of
                  Inl e \<Rightarrow> Some (Inl e)
                | Inr s \<Rightarrow>
                    (if sc_state s t = THREAD_RUNNABLE then
                       (case sched_enqueue runq t s of
                          Inl e \<Rightarrow> Some (Inl e)
                        | Inr s \<Rightarrow> rr_loop run s)
                     else rr_loop run s))))"

text \<open>\<open>timer\<close> is \<open>lps_utimer_init\<close>, which programs the processor's timer.\<close>

definition rrschedstart ::
  "('w sched \<Rightarrow> 'w sched) \<Rightarrow> (nat \<Rightarrow> 'w sched \<Rightarrow> 'w sched res) \<Rightarrow> bool \<Rightarrow> 'w sched \<Rightarrow> 'w sched res option" where
  "rrschedstart timer run utimer s = rr_loop run (if utimer then timer s else s)"

text \<open>
  \<open>rrschedblock\<close> up to the point where it leaves the thread: t is the current thread, and the
  switch to the scheduler follows.
\<close>

definition rrschedblock :: "nat \<Rightarrow> nat \<Rightarrow> 'w sched \<Rightarrow> 'w sched res" where
  "rrschedblock q t s = sched_enqueue q t (s\<lparr>sc_state := (sc_state s)(t := THREAD_BOLCKED)\<rparr>)"

partial_function (option) rrschedwake :: "nat \<Rightarrow> 'w sched \<Rightarrow> 'w sched res option" where
  "rrschedwake q s =
     (case queue_dequeue (sc_heap s) q of
        Inl e \<Rightarrow> Some (Inl e)
      | Inr (e, h) \<Rightarrow>
          (case e of
             None \<Rightarrow> Some (Inr (s\<lparr>sc_heap := h\<rparr>))
           | Some t \<Rightarrow>
               (case sched_enqueue runq t (s\<lparr>sc_heap := h, sc_state := (sc_state s)(t := THREAD_RUNNABLE)\<rparr>) of
                  Inl e \<Rightarrow> Some (Inl e)
                | Inr s \<Rightarrow> rrschedwake q s)))"

section \<open>Several cores\<close>

text \<open>
  Worker i has the ring \<open>mc_runq ! i\<close>; thread 0 stands for NULL. One worker is followed at a time:
  the model gives what a worker does while no other worker runs.
\<close>

record 'w mcs =
  mc_runq :: "RingQueue list"
  mc_grunq :: RingQueue
  mc_ncore :: nat
  mc_state :: "nat \<Rightarrow> LPSThreadState"
  mc_world :: 'w

definition QUEUESIZE :: u64 where "QUEUESIZE = 1024"
definition MAX_CORES :: nat where "MAX_CORES = 16"

definition set_runq :: "nat \<Rightarrow> RingQueue \<Rightarrow> 'w mcs \<Rightarrow> 'w mcs" where
  "set_runq i q s = s\<lparr>mc_runq := (mc_runq s)[i := q]\<rparr>"

definition get_runq :: "nat \<Rightarrow> 'w mcs \<Rightarrow> RingQueue res" where
  "get_runq i s = (if i < length (mc_runq s) then Inr (mc_runq s ! i) else Inl OutOfBounds)"

definition mcsched_init :: "int \<Rightarrow> (nat \<Rightarrow> LPSThreadState) \<Rightarrow> 'w \<Rightarrow> 'w mcs" where
  "mcsched_init ncore st w =
     (let n = (if ncore > 0 \<and> ncore \<le> int MAX_CORES then nat ncore else 2);
          q = the (ring_create True True QUEUESIZE)
      in \<lparr>mc_runq = replicate n q, mc_grunq = q, mc_ncore = n, mc_state = st, mc_world = w\<rparr>)"

text \<open>
  \<open>mcshed_start\<close> (so spelt in the code) creates one thread per worker, which runs \<open>mcsched_loop\<close>, and
  pins it to a processor: the list of workers with their processors. online is the answer of
  \<open>sysconf\<close>. \<open>mcsched_join\<close> returns when every worker's thread has ended.
\<close>

definition mcshed_start :: "int \<Rightarrow> nat \<Rightarrow> (nat \<times> nat) list" where
  "mcshed_start online ncore =
     (let nproc = (if online \<le> 0 then ncore else nat online) in map (\<lambda>i. (i, i mod nproc)) [0 ..< ncore])"

definition mcsched_join :: "nat \<Rightarrow> (nat \<Rightarrow> bool) \<Rightarrow> bool" where
  "mcsched_join ncore ended \<longleftrightarrow> list_all ended [0 ..< ncore]"

text \<open>Every worker gets a thread; with enough processors no two share one, otherwise the last ones wrap around.\<close>

lemma mcshed_start_pins:
  "map fst (mcshed_start online n) = [0 ..< n]"
  "int n \<le> online \<or> online \<le> 0 \<Longrightarrow> mcshed_start online n = map (\<lambda>i. (i, i)) [0 ..< n]"
  "0 < online \<Longrightarrow> (i, cpu) \<in> set (mcshed_start online n) \<Longrightarrow> cpu < nat online"
  by (auto simp: mcshed_start_def Let_def comp_def)

definition mcsched_add :: "nat \<Rightarrow> 'w mcs \<Rightarrow> (cint \<times> 'w mcs) res" where
  "mcsched_add t s = rbind (ring_push_one (mc_grunq s) t) (\<lambda>(r, q). Inr (r, s\<lparr>mc_grunq := q\<rparr>))"

text \<open>The loop that steals from the other cores; the \<open>break\<close> is commented out in the code.\<close>

fun steal_loop :: "nat \<Rightarrow> nat list \<Rightarrow> nat \<Rightarrow> 'w mcs \<Rightarrow> (nat \<times> 'w mcs) res" where
  "steal_loop core [] e s = Inr (e, s)"
| "steal_loop core (i # is) e s =
     (if i = core then steal_loop core is e s
      else
        rbind (get_runq i s) (\<lambda>q.
        rbind (ring_pop_back q) (\<lambda>(e, q).
        steal_loop core is e (set_runq i q s))))"

definition local_pop :: "nat \<Rightarrow> 'w mcs \<Rightarrow> (nat \<times> 'w mcs) res" where
  "local_pop core s =
     rbind (get_runq core s) (\<lambda>q.
     rbind (ring_pop_one q) (\<lambda>(e, q).
     Inr (e, set_runq core q s)))"

definition mcsched_pick :: "nat \<Rightarrow> 'w mcs \<Rightarrow> (nat \<times> 'w mcs) res" where
  "mcsched_pick core s =
     rbind (local_pop core s) (\<lambda>(e, s).
     if e = 0 then
       (let count = sint (ring_count (mc_grunq s)) div int (mc_ncore s) + 1 in
        rbind (ring_pop (mc_grunq s) (of_int count)) (\<lambda>(buf, g).
        let s = s\<lparr>mc_grunq := g\<rparr> in
        if buf \<noteq> [] then
          rbind (get_runq core s) (\<lambda>q.
          rbind (ring_push q buf) (\<lambda>(k, q).
          rbind (rassert (k = length buf)) (\<lambda>_.
          local_pop core (set_runq core q s))))
        else steal_loop core [0 ..< mc_ncore s] e s))
     else Inr (e, s))"

partial_function (option) mcsched_loop ::
  "(nat \<Rightarrow> 'w mcs \<Rightarrow> 'w mcs res) \<Rightarrow> nat \<Rightarrow> 'w mcs \<Rightarrow> 'w mcs res option" where
  "mcsched_loop run core s =
     (case mcsched_pick core s of
        Inl f \<Rightarrow> Some (Inl f)
      | Inr (e, s) \<Rightarrow>
          (if e \<noteq> 0 then
             (case run e s of
                Inl f \<Rightarrow> Some (Inl f)
              | Inr s \<Rightarrow>
                  (if mc_state s e = THREAD_RUNNABLE then
                     (case rbind (get_runq core s) (\<lambda>q. ring_push_one q e) of
                        Inl f \<Rightarrow> Some (Inl f)
                      | Inr (_, q) \<Rightarrow> mcsched_loop run core (set_runq core q s))
                   else mcsched_loop run core s))
           else Some (Inr s)))"

section \<open>Waking a queue\<close>

lemma wake_all:
  assumes "bank Q E (sc_heap s) c" "q \<in> Q" "runq \<in> Q" "q \<noteq> runq"
  shows "\<exists>s'. rrschedwake q s = Some (Inr s') \<and> bank Q E (sc_heap s') (c(q := [], runq := c runq @ c q)) \<and>
    sc_state s' = (\<lambda>t. if t \<in> set (c q) then THREAD_RUNNABLE else sc_state s t) \<and> sc_world s' = sc_world s"
  using assms(1)
proof (induction "c q" arbitrary: s c)
  case Nil
  have "queue_dequeue (sc_heap s) q = Inr (None, sc_heap s)"
    by (rule ptrq.deq_empty [OF Nil.prems assms(2)]) (simp add: Nil.hyps)
  moreover have "c(q := [], runq := c runq @ c q) = c" using Nil.hyps by (auto simp: fun_eq_iff)
  ultimately show ?case using Nil by (subst rrschedwake.simps) (simp flip: Nil.hyps)
next
  case (Cons t ts)
  obtain h1 h2 where 1: "queue_dequeue (sc_heap s) q = Inr (Some t, h1)" "queue_enqueue h1 runq t = Inr h2"
      "bank Q E h2 (c(q := ts, runq := (c(q := ts)) runq @ [t]))"
    using ptrq.move_one [OF Cons.prems assms(2,3) Cons.hyps(2) [symmetric]] by blast
  let ?c = "c(q := ts, runq := c runq @ [t])"
  let ?s = "s\<lparr>sc_state := (sc_state s)(t := THREAD_RUNNABLE), sc_heap := h2\<rparr>"
  have "rrschedwake q s = rrschedwake q ?s"
    by (subst rrschedwake.simps) (simp add: 1 sched_enqueue_def)
  moreover obtain s' where "rrschedwake q ?s = Some (Inr s')"
      "bank Q E (sc_heap s') (?c(q := [], runq := ?c runq @ ?c q))"
      "sc_state s' = (\<lambda>u. if u \<in> set (?c q) then THREAD_RUNNABLE else sc_state ?s u)" "sc_world s' = sc_world ?s"
    using Cons.hyps(1) [of ?c ?s] 1(3) assms(4) by auto
  moreover have "?c(q := [], runq := ?c runq @ ?c q) = c(q := [], runq := c runq @ c q)"
    using assms(4) by (auto simp: fun_eq_iff simp flip: Cons.hyps(2))
  moreover have "(\<lambda>u. if u \<in> set (?c q) then THREAD_RUNNABLE else sc_state ?s u) =
      (\<lambda>u. if u \<in> set (c q) then THREAD_RUNNABLE else sc_state s u)"
    using assms(4) by (auto simp: fun_eq_iff simp flip: Cons.hyps(2))
  ultimately show ?case by auto
qed

text \<open>
  Waking the threads that wait on a queue. \<open>rrschedwake\<close> returns, moves all threads of the queue
  to the end of the run queue in their order, makes exactly them runnable and leaves the queue
  empty; \<open>rrschedblock\<close> followed by \<open>rrschedwake\<close> therefore always makes the thread runnable again.
\<close>

theorem rrschedwake_correct:
  assumes "bank Q E (sc_heap s) c" "q \<in> Q" "runq \<in> Q" "q \<noteq> runq"
  shows "(\<exists>s'. rrschedwake q s = Some (Inr s') \<and> bank Q E (sc_heap s') (c(q := [], runq := c runq @ c q)) \<and>
      sc_state s' = (\<lambda>t. if t \<in> set (c q) then THREAD_RUNNABLE else sc_state s t)) \<and>
    (t \<in> E \<and> (\<forall>q' \<in> Q. t \<notin> set (c q')) \<longrightarrow>
      (\<exists>s1 s2. rrschedblock q t s = Inr s1 \<and> sc_state s1 t = THREAD_BOLCKED \<and>
        rrschedwake q s1 = Some (Inr s2) \<and> sc_state s2 t = THREAD_RUNNABLE \<and>
        bank Q E (sc_heap s2) (c(q := [], runq := c runq @ c q @ [t]))))"
proof -
  have "\<exists>s1 s2. rrschedblock q t s = Inr s1 \<and> sc_state s1 t = THREAD_BOLCKED \<and>
        rrschedwake q s1 = Some (Inr s2) \<and> sc_state s2 t = THREAD_RUNNABLE \<and>
        bank Q E (sc_heap s2) (c(q := [], runq := c runq @ c q @ [t]))"
    if t: "t \<in> E" "\<forall>q' \<in> Q. t \<notin> set (c q')"
  proof -
    obtain h where h: "queue_enqueue (sc_heap s) q t = Inr h" "bank Q E h (c(q := c q @ [t]))"
      using ptrq.enq [OF assms(1,2) t] by blast
    let ?s = "s\<lparr>sc_heap := h, sc_state := (sc_state s)(t := THREAD_BOLCKED)\<rparr>"
    have "rrschedblock q t s = Inr ?s" by (simp add: rrschedblock_def sched_enqueue_def h)
    moreover obtain s2 where "rrschedwake q ?s = Some (Inr s2)" "sc_state s2 t = THREAD_RUNNABLE"
        "bank Q E (sc_heap s2) (c(q := c q @ [t], q := [], runq := c runq @ c q @ [t]))"
      using wake_all [of Q E ?s "c(q := c q @ [t])" q] h(2) assms(2-4) by auto
    ultimately show ?thesis by auto
  qed
  then show ?thesis using wake_all [OF assms] by blast
qed

section \<open>Round robin order\<close>

text \<open>
  The order in which a queue of threads gets the processor, when thread t needs \<open>k t\<close> turns.
\<close>

function rr_order :: "(nat \<Rightarrow> nat) \<Rightarrow> nat list \<Rightarrow> nat list" where
  "rr_order k [] = []"
| "rr_order k (t # ts) =
     t # (if 1 < k t then rr_order (k(t := k t - 1)) (ts @ [t]) else rr_order (k(t := 0)) ts)"
  by pat_completeness auto
termination
proof (relation "measure (\<lambda>(k, ts). sum_list (map k ts) + length ts)")
  fix k :: "nat \<Rightarrow> nat" and t ts
  assume "1 < k t"
  moreover have "sum_list (map (k(t := k t - 1)) ts) \<le> sum_list (map k ts)"
    by (rule sum_list_mono) simp
  ultimately show "((k(t := k t - 1), ts @ [t]), (k, t # ts)) \<in> measure (\<lambda>(k, ts). sum_list (map k ts) + length ts)"
    by simp
next
  fix k :: "nat \<Rightarrow> nat" and t ts
  have "sum_list (map (k(t := 0)) ts) \<le> sum_list (map k ts)" by (rule sum_list_mono) simp
  then show "((k(t := 0), ts), (k, t # ts)) \<in> measure (\<lambda>(k, ts). sum_list (map k ts) + length ts)" by simp
qed simp

text \<open>Every thread gets exactly the turns it needs.\<close>

lemma count_rr_order:
  "distinct ts \<Longrightarrow> \<forall>t \<in> set ts. 0 < k t \<Longrightarrow>
   count_list (rr_order k ts) u = (if u \<in> set ts then k u else 0)"
proof (induction k ts rule: rr_order.induct)
  case (2 k t ts)
  show ?case
  proof (cases "1 < k t")
    case True
    have "distinct (ts @ [t])" "\<forall>u \<in> set (ts @ [t]). 0 < (k(t := k t - 1)) u" using "2.prems" True by auto
    then have "count_list (rr_order (k(t := k t - 1)) (ts @ [t])) u = (if u \<in> set (ts @ [t]) then (k(t := k t - 1)) u else 0)"
      by (rule "2.IH"(1) [OF True])
    then show ?thesis using True "2.prems"(1) by (cases "u = t") simp_all
  next
    case False
    then have "k t = 1" using "2.prems"(2) by auto
    moreover have "distinct ts" "\<forall>u \<in> set ts. 0 < (k(t := 0)) u" using "2.prems" by auto
    moreover from this have "count_list (rr_order (k(t := 0)) ts) u = (if u \<in> set ts then (k(t := 0)) u else 0)"
      by (intro "2.IH"(2) [OF False])
    ultimately show ?thesis using "2.prems"(1) False by (cases "u = t") simp_all
  qed
qed simp

text \<open>
  What the scheduler needs to know of the threads: thread t gives the processor back after each
  turn, is runnable then as long as it has turns left and has exited otherwise, and leaves the queues
  and the other threads alone. \<open>left\<close> tells the turns left and \<open>hist\<close> the threads that ran.
\<close>

definition takes_turns ::
  "('w \<Rightarrow> nat \<Rightarrow> nat) \<Rightarrow> ('w \<Rightarrow> nat list) \<Rightarrow> (nat \<Rightarrow> 'w sched \<Rightarrow> 'w sched res) \<Rightarrow> bool" where
  "takes_turns left hist run \<longleftrightarrow>
     (\<forall>t s. 0 < left (sc_world s) t \<longrightarrow>
        (\<exists>w. run t s = Inr (s\<lparr>sc_state := (sc_state s)(t := if 1 < left (sc_world s) t then THREAD_RUNNABLE else THREAD_EXITED),
                          sc_world := w\<rparr>) \<and>
             left w = (left (sc_world s))(t := left (sc_world s) t - 1) \<and> hist w = hist (sc_world s) @ [t]))"

definition rr_done ::
  "nat set \<Rightarrow> nat set \<Rightarrow> ('w \<Rightarrow> nat list) \<Rightarrow> (nat \<Rightarrow> nat list) \<Rightarrow> (nat \<Rightarrow> nat) \<Rightarrow> nat list \<Rightarrow> 'w sched \<Rightarrow> 'w sched \<Rightarrow> bool" where
  "rr_done Q E hist c k ts s s' \<longleftrightarrow> bank Q E (sc_heap s') (c(runq := [])) \<and>
     hist (sc_world s') = hist (sc_world s) @ rr_order k ts \<and>
     sc_state s' = (\<lambda>t. if t \<in> set ts then THREAD_EXITED else sc_state s t)"

lemma rr_loop_turns:
  assumes "takes_turns left hist run" "runq \<in> Q"
  shows "bank Q E (sc_heap s) c \<Longrightarrow> c runq = ts \<Longrightarrow> k = left (sc_world s) \<Longrightarrow> \<forall>t \<in> set ts. 0 < k t \<Longrightarrow>
    \<exists>s'. rr_loop run s = Some (Inr s') \<and> rr_done Q E hist c k ts s s'"
proof (induction k ts arbitrary: s c rule: rr_order.induct)
  case (1 k)
  have d: "queue_dequeue (sc_heap s) runq = Inr (None, sc_heap s)" using ptrq.deq_empty [OF 1(1) assms(2)] 1(2) by simp
  have "c(runq := []) = c" using 1(2) by auto
  then show ?case using 1(1) d by (subst rr_loop.simps) (simp add: get_next_runable_def rr_done_def)
next
  case (2 k t ts)
  have ct: "c runq = t # ts" and k: "k = left (sc_world s)" and pos: "0 < left (sc_world s) t"
    using "2.prems" by auto
  have dist: "t \<notin> set ts" using ptrq.once [OF "2.prems"(1) assms(2)] ct by simp
  obtain h where h: "queue_dequeue (sc_heap s) runq = Inr (Some t, h)" "bank Q E h (c(runq := ts))" "t \<in> E"
      "\<forall>q' \<in> Q. t \<notin> set ((c(runq := ts)) q')"
    using ptrq.deq_free [OF "2.prems"(1) assms(2) ct] by blast
  let ?st = "if 1 < k t then THREAD_RUNNABLE else THREAD_EXITED"
  obtain w where w: "run t (s\<lparr>sc_heap := h\<rparr>) = Inr (s\<lparr>sc_heap := h, sc_state := (sc_state s)(t := ?st), sc_world := w\<rparr>)"
      "left w = k(t := k t - 1)" "hist w = hist (sc_world s) @ [t]"
    using assms(1) [unfolded takes_turns_def, rule_format, where t = t and s = "s\<lparr>sc_heap := h\<rparr>"] pos k by auto
  show ?case
  proof (cases "1 < k t")
    case True
    obtain h' where h': "queue_enqueue h runq t = Inr h'" "bank Q E h' (c(runq := ts @ [t]))"
      using ptrq.enq [OF h(2) assms(2) h(3,4)] by (auto simp only: fun_upd_upd fun_upd_same)
    let ?s = "s\<lparr>sc_state := (sc_state s)(t := THREAD_RUNNABLE), sc_world := w, sc_heap := h'\<rparr>"
    have run: "rr_loop run s = rr_loop run ?s"
      by (subst rr_loop.simps) (use h w(1) True h' in \<open>simp add: get_next_runable_def sched_enqueue_def\<close>)
    have "\<forall>u \<in> set (ts @ [t]). 0 < (k(t := k t - 1)) u" using "2.prems"(4) True by auto
    then have "\<exists>s'. rr_loop run ?s = Some (Inr s') \<and>
        rr_done Q E hist (c(runq := ts @ [t])) (k(t := k t - 1)) (ts @ [t]) ?s s'"
      using h'(2) w(2) by (intro "2.IH"(1) [OF True]) (simp_all add: fun_upd_def)
    then show ?thesis unfolding run using w(3) True by (auto simp: rr_done_def fun_eq_iff)
  next
    case False
    let ?s = "s\<lparr>sc_heap := h, sc_state := (sc_state s)(t := THREAD_EXITED), sc_world := w\<rparr>"
    have run: "rr_loop run s = rr_loop run ?s"
      by (subst rr_loop.simps) (use h w(1) False in \<open>simp add: get_next_runable_def\<close>)
    have "k t - 1 = 0" "\<forall>u \<in> set ts. 0 < (k(t := 0)) u" using False "2.prems"(4) dist by auto
    then have "\<exists>s'. rr_loop run ?s = Some (Inr s') \<and> rr_done Q E hist (c(runq := ts)) (k(t := 0)) ts ?s s'"
      using h(2) w(2) by (intro "2.IH"(2) [OF False]) (simp_all add: fun_upd_def)
    then show ?thesis unfolding run using w(3) False dist by (auto simp: rr_done_def fun_eq_iff)
  qed
qed

fun add_all :: "nat list \<Rightarrow> 'w sched \<Rightarrow> 'w sched res" where
  "add_all [] s = Inr s"
| "add_all (t # ts) s = rbind (rrschedadd t s) (add_all ts)"

lemma add_all_bank:
  "bank Q E (sc_heap s) c \<Longrightarrow> runq \<in> Q \<Longrightarrow> distinct ts \<Longrightarrow> set ts \<subseteq> E \<Longrightarrow> \<forall>q \<in> Q. set ts \<inter> set (c q) = {} \<Longrightarrow>
   \<exists>h. add_all ts s = Inr (s\<lparr>sc_heap := h\<rparr>) \<and> bank Q E h (c(runq := c runq @ ts))"
proof (induction ts arbitrary: s c)
  case Nil
  then show ?case by (intro exI [of _ "sc_heap s"]) simp
next
  case (Cons t ts)
  have t: "t \<in> E" "\<forall>q \<in> Q. t \<notin> set (c q)" using Cons.prems by auto
  obtain h where h: "queue_enqueue (sc_heap s) runq t = Inr h" "bank Q E h (c(runq := c runq @ [t]))"
    using ptrq.enq [OF Cons.prems(1,2) t] by blast
  let ?c = "c(runq := c runq @ [t])"
  have "\<forall>q \<in> Q. set ts \<inter> set (?c q) = {}" using Cons.prems(3,5) by auto
  then have "\<exists>h'. add_all ts (s\<lparr>sc_heap := h\<rparr>) = Inr (s\<lparr>sc_heap := h, sc_heap := h'\<rparr>) \<and> bank Q E h' (?c(runq := ?c runq @ ts))"
    using h(2) Cons.prems(2-4) by (intro Cons.IH) (simp_all add: fun_upd_def)
  then obtain h' where "add_all ts (s\<lparr>sc_heap := h\<rparr>) = Inr (s\<lparr>sc_heap := h'\<rparr>)" "bank Q E h' (c(runq := c runq @ t # ts))"
    by auto
  then show ?case using h(1) by (intro exI [of _ h']) (simp add: rrschedadd_def sched_enqueue_def fun_upd_def)
qed

lemma sched_init_bank:
  assumes "set ts \<subseteq> qdom (sc_heap s)" "runq \<notin> set ts"
  shows "bank {runq} (set ts) (sc_heap (sched_init s)) (\<lambda>_. [])" "sc_world (sched_init s) = sc_world s"
    "sc_state (sched_init s) = sc_state s"
  using assms by (auto simp: bank_def queue_repr_def sched_init_def QUEUE_INIT_def set_tail_def qdom_def)

text \<open>
  C24: the round robin scheduler. When every thread needs finitely many turns, adding threads and
  starting the scheduler returns; the threads ran in round robin order, every one exactly as often as
  it needed, all of them have exited and the run queue is empty.
\<close>

theorem rrschedstart_correct:
  assumes "takes_turns left hist run" "distinct ts" "set ts \<subseteq> qdom (sc_heap s)" "runq \<notin> set ts"
    "\<forall>t \<in> set ts. 0 < left (sc_world s) t" "hist (sc_world s) = []"
  shows "\<exists>s1 s2. add_all ts (sched_init s) = Inr s1 \<and> rrschedstart timer run False s1 = Some (Inr s2) \<and>
    hist (sc_world s2) = rr_order (left (sc_world s)) ts \<and>
    (\<forall>t \<in> set ts. sc_state s2 t = THREAD_EXITED \<and> count_list (hist (sc_world s2)) t = left (sc_world s) t) \<and>
    queue_is_empty (sc_heap s2) runq"
proof -
  obtain h where h: "add_all ts (sched_init s) = Inr ((sched_init s)\<lparr>sc_heap := h\<rparr>)"
      "bank {runq} (set ts) h ((\<lambda>_. [])(runq := ts))"
    using add_all_bank [OF sched_init_bank(1) [OF assms(3,4)], of ts] assms(2) by auto
  obtain s2 where s2: "rr_loop run ((sched_init s)\<lparr>sc_heap := h\<rparr>) = Some (Inr s2)"
      "rr_done {runq} (set ts) hist ((\<lambda>_. [])(runq := ts)) (left (sc_world s)) ts ((sched_init s)\<lparr>sc_heap := h\<rparr>) s2"
    using rr_loop_turns [OF assms(1), of "{runq}" "set ts" "(sched_init s)\<lparr>sc_heap := h\<rparr>" "(\<lambda>_. [])(runq := ts)" ts]
      h(2) assms(5) sched_init_bank(2) [OF assms(3,4)] by auto
  have hist: "hist (sc_world s2) = rr_order (left (sc_world s)) ts"
    and st: "\<forall>t \<in> set ts. sc_state s2 t = THREAD_EXITED" and b: "bank {runq} (set ts) (sc_heap s2) ((\<lambda>_. [])(runq := ts, runq := []))"
    using s2(2) sched_init_bank(2) [OF assms(3,4)] assms(6) by (simp_all add: rr_done_def)
  have "queue_is_empty (sc_heap s2) runq" using b queue_repr_tail [of _ runq "[]"] by (simp add: bank_def)
  then show ?thesis
    using h(1) s2(1) hist st count_rr_order [OF assms(2,5)] by (auto simp: rrschedstart_def)
qed

text \<open>Threads that count their turns down and log them.\<close>

definition demo_run :: "nat \<Rightarrow> ((nat \<Rightarrow> nat) \<times> nat list) sched \<Rightarrow> ((nat \<Rightarrow> nat) \<times> nat list) sched res" where
  "demo_run t s = (case sc_world s of (k, l) \<Rightarrow>
     Inr (s\<lparr>sc_state := (sc_state s)(t := if 1 < k t then THREAD_RUNNABLE else THREAD_EXITED),
            sc_world := (k(t := k t - 1), l @ [t])\<rparr>))"

definition demo_sched :: "((nat \<Rightarrow> nat) \<times> nat list) sched" where
  "demo_sched = \<lparr>sc_heap = demo_store, sc_state = (\<lambda>_. THREAD_RUNNABLE), sc_world = (\<lambda>t. if t = 3 then 2 else 1, [])\<rparr>"

lemma demo_run_turns: "takes_turns fst snd demo_run"
  by (auto simp: takes_turns_def demo_run_def split: prod.splits)

theorem rrschedstart_correct_witness:
  "\<exists>s1 s2. add_all [3, 5] (sched_init demo_sched) = Inr s1 \<and> rrschedstart id demo_run False s1 = Some (Inr s2) \<and>
     snd (sc_world s2) = [3, 5, 3] \<and> sc_state s2 3 = THREAD_EXITED"
proof -
  have order: "rr_order (\<lambda>t. if t = 3 then 2 else 1) [3, 5] = [3, 5, 3]" by (simp add: numeral_2_eq_2)
  have "set [3, 5] \<subseteq> qdom (sc_heap demo_sched)" using demo_store_dom by (simp add: demo_sched_def)
  then show ?thesis
    using rrschedstart_correct [OF demo_run_turns, of "[3, 5]" demo_sched id] order
    by (auto simp: demo_sched_def runq_def)
qed

definition demo_wait :: "((nat \<Rightarrow> nat) \<times> nat list) sched" where
  "demo_wait = demo_sched\<lparr>sc_heap := QUEUE_INIT (QUEUE_INIT demo_store runq) 7\<rparr>"

theorem rrschedwake_correct_witness:
  "\<exists>s1 s2. rrschedblock 7 3 demo_wait = Inr s1 \<and> rrschedwake 7 s1 = Some (Inr s2) \<and> sc_state s2 3 = THREAD_RUNNABLE"
proof -
  have "bank {runq, 7} {3} (sc_heap demo_wait) (\<lambda>_. [])"
    by (auto simp: bank_def queue_repr_def QUEUE_INIT_def set_tail_def qdom_def runq_def demo_store_def demo_wait_def)
  then show ?thesis
    using rrschedwake_correct [of "{runq, 7}" "{3}" demo_wait "\<lambda>_. []" 7 3] by (auto simp: runq_def)
qed

section \<open>One worker\<close>

text \<open>
  The state of a worker 0 that is alone: its ring holds xs, the global ring holds ys, the mutexes are
  free.
\<close>

definition alone :: "'w mcs \<Rightarrow> nat list \<Rightarrow> nat list \<Rightarrow> bool" where
  "alone s xs ys \<longleftrightarrow> mc_ncore s = 1 \<and>
     (\<exists>q. mc_runq s = [q] \<and> ring_ok q xs \<and> unlocked q \<and> length (rq_buf q) = 1024) \<and>
     ring_ok (mc_grunq s) ys \<and> unlocked (mc_grunq s) \<and> length (rq_buf (mc_grunq s)) = 1024"

definition same_rest :: "'w mcs \<Rightarrow> 'w mcs \<Rightarrow> bool" where
  "same_rest s s' \<longleftrightarrow> mc_state s' = mc_state s \<and> mc_world s' = mc_world s"

lemma local_pop_alone:
  assumes "alone s (x # xs) ys"
  shows "\<exists>s'. local_pop 0 s = Inr (x, s') \<and> alone s' xs ys \<and> same_rest s s'"
proof -
  obtain q where q: "mc_runq s = [q]" "ring_ok q (x # xs)" "unlocked q" "length (rq_buf q) = 1024"
    using assms by (auto simp: alone_def)
  obtain q' where q': "ring_pop_one q = Inr (x, q')" "ring_ok q' xs" "unlocked q'" "length (rq_buf q') = length (rq_buf q)"
    using pop_one_ok [OF q(2,3)] by blast
  show ?thesis
    by (intro exI [of _ "set_runq 0 q' s"])
      (use assms q q' in \<open>simp add: local_pop_def get_runq_def set_runq_def alone_def same_rest_def\<close>)
qed

lemma local_pop_none:
  assumes "alone s [] ys"
  shows "local_pop 0 s = Inr (0, s)"
proof -
  obtain q where q: "mc_runq s = [q]" "ring_ok q []" using assms by (auto simp: alone_def)
  then show ?thesis using pop_empty(1) [OF q(2)] by (simp add: local_pop_def get_runq_def set_runq_def)
qed

lemma pick_local:
  assumes "alone s (x # xs) ys" "x \<noteq> 0"
  shows "\<exists>s'. mcsched_pick 0 s = Inr (x, s') \<and> alone s' xs ys \<and> same_rest s s'"
  using local_pop_alone [OF assms(1)] assms(2) by (auto simp: mcsched_pick_def)

lemma share_of_one:
  assumes "ring_ok g ys" "length ys < 1024"
  shows "nat (sint (of_int (sint (ring_count g) div int 1 + 1) :: cint)) = Suc (length ys)"
proof -
  have "unat (of_nat (Suc (length ys)) :: cint) = Suc (length ys)"
    using assms(2) by (simp only: unsigned_of_nat) (simp add: take_bit_nat_eq_self)
  then have "sint (of_nat (Suc (length ys)) :: cint) = int (Suc (length ys))"
    using assms(2) sint_small [of "of_nat (Suc (length ys))"] by simp
  moreover have "(of_int (sint (ring_count g) div int 1 + 1) :: cint) = of_nat (Suc (length ys))"
    using ring_ok_words(3) [OF assms(1)] by simp
  ultimately show ?thesis by (simp only: nat_int)
qed

text \<open>With an empty ring of its own, a worker that is alone takes over all threads of the global ring.\<close>

lemma pick_global:
  assumes "alone s [] ys" "length ys < 1024"
  obtains s' where "if ys = [] then mcsched_pick 0 s = Inr (0, s') else local_pop 0 s' = mcsched_pick 0 s"
    "alone s' ys []" "same_rest s s'"
proof -
  let ?g = "mc_grunq s"
  have g: "ring_ok ?g ys" "unlocked ?g" "length (rq_buf ?g) = 1024" and n: "mc_ncore s = 1"
    using assms by (auto simp: alone_def)
  obtain q where q: "mc_runq s = [q]" "ring_ok q []" "unlocked q" "length (rq_buf q) = 1024"
    using assms by (auto simp: alone_def)
  let ?n = "of_int (sint (ring_count ?g) div int 1 + 1) :: cint"
  obtain g' where g': "ring_pop ?g ?n = Inr (ys, g')" "ring_ok g' []" "unlocked g'" "length (rq_buf g') = 1024"
    using pop_ok [OF g(1,2), of ?n] g(3) assms(2) share_of_one [OF g(1) assms(2)] by auto
  show thesis
  proof (cases "ys = []")
    case True
    have "mcsched_pick 0 s = Inr (0, s\<lparr>mc_grunq := g'\<rparr>)"
      using local_pop_none [OF assms(1)] g'(1) n True by (simp add: mcsched_pick_def Let_def upt_rec)
    then show thesis using that [of "s\<lparr>mc_grunq := g'\<rparr>"] True g' n q by (simp add: alone_def same_rest_def)
  next
    case False
    obtain q' k where q': "ring_push q ys = Inr (k, q')" "k = min (length ys) (length (rq_buf q) - length ([] :: nat list))"
        "ring_ok q' ([] @ take k ys)" "unlocked q'" "length (rq_buf q') = 1024"
      using push_ok [OF q(2,3), of ys] False q(4) assms(2) by auto
    have k: "k = length ys" using q'(2) q(4) assms(2) by simp
    have "mcsched_pick 0 s = local_pop 0 (set_runq 0 q' (s\<lparr>mc_grunq := g'\<rparr>))"
      using local_pop_none [OF assms(1)] g'(1) n False q(1) q'(1) k by (simp add: mcsched_pick_def Let_def get_runq_def)
    then show thesis
      using that [of "set_runq 0 q' (s\<lparr>mc_grunq := g'\<rparr>)"] False g' q' n q(1) k
      by (simp add: alone_def same_rest_def set_runq_def)
  qed
qed

definition takes_turns_mc ::
  "('w \<Rightarrow> nat \<Rightarrow> nat) \<Rightarrow> ('w \<Rightarrow> nat list) \<Rightarrow> (nat \<Rightarrow> 'w mcs \<Rightarrow> 'w mcs res) \<Rightarrow> bool" where
  "takes_turns_mc left hist run \<longleftrightarrow>
     (\<forall>t s. 0 < left (mc_world s) t \<longrightarrow>
        (\<exists>w. run t s = Inr (s\<lparr>mc_state := (mc_state s)(t := if 1 < left (mc_world s) t then THREAD_RUNNABLE else THREAD_EXITED),
                          mc_world := w\<rparr>) \<and>
             left w = (left (mc_world s))(t := left (mc_world s) t - 1) \<and> hist w = hist (mc_world s) @ [t]))"

definition mc_done :: "('w \<Rightarrow> nat \<Rightarrow> nat) \<Rightarrow> ('w \<Rightarrow> nat list) \<Rightarrow> (nat \<Rightarrow> nat) \<Rightarrow> nat list \<Rightarrow> 'w mcs \<Rightarrow> 'w mcs \<Rightarrow> bool" where
  "mc_done left hist k xs s s' \<longleftrightarrow> hist (mc_world s') = hist (mc_world s) @ rr_order k xs \<and>
     left (mc_world s') = (\<lambda>t. if t \<in> set xs then 0 else k t) \<and>
     mc_state s' = (\<lambda>t. if t \<in> set xs then THREAD_EXITED else mc_state s t)"

lemma mc_phase:
  assumes "takes_turns_mc left hist run"
  shows "alone s xs ys \<Longrightarrow> distinct xs \<Longrightarrow> 0 \<notin> set xs \<Longrightarrow> k = left (mc_world s) \<Longrightarrow> \<forall>t \<in> set xs. 0 < k t \<Longrightarrow>
    \<exists>s'. mcsched_loop run 0 s = mcsched_loop run 0 s' \<and> alone s' [] ys \<and> mc_done left hist k xs s s'"
proof (induction k xs arbitrary: s rule: rr_order.induct)
  case (1 k)
  then show ?case by (auto simp: mc_done_def)
next
  case (2 k t xs)
  have t0: "t \<noteq> 0" and k: "k = left (mc_world s)" and pos: "0 < k t" and dist: "t \<notin> set xs" "distinct xs"
    using "2.prems" by auto
  have len: "length xs < 1024" using "2.prems"(1) by (auto simp: alone_def ring_ok_def)
  obtain s1 where s1: "mcsched_pick 0 s = Inr (t, s1)" "alone s1 xs ys" "same_rest s s1"
    using pick_local [OF "2.prems"(1) t0] by blast
  let ?st = "if 1 < k t then THREAD_RUNNABLE else THREAD_EXITED"
  obtain w where w: "run t s1 = Inr (s1\<lparr>mc_state := (mc_state s)(t := ?st), mc_world := w\<rparr>)"
      "left w = k(t := k t - 1)" "hist w = hist (mc_world s) @ [t]"
    using assms [unfolded takes_turns_mc_def, rule_format, where t = t and s = s1] pos k s1(3)
    by (auto simp: same_rest_def)
  let ?s2 = "s1\<lparr>mc_state := (mc_state s)(t := ?st), mc_world := w\<rparr>"
  have a2: "alone ?s2 xs ys" using s1(2) by (simp add: alone_def)
  show ?case
  proof (cases "1 < k t")
    case True
    obtain q where q: "mc_runq s1 = [q]" "ring_ok q xs" "unlocked q" "length (rq_buf q) = 1024"
      using s1(2) by (auto simp: alone_def)
    obtain q' where q': "ring_push_one q t = Inr (1, q')" "ring_ok q' (xs @ [t])" "unlocked q'" "length (rq_buf q') = 1024"
      using push_one_ok [OF q(2,3), of t] len q(4) by auto
    let ?s3 = "set_runq 0 q' ?s2"
    have run: "mcsched_loop run 0 s = mcsched_loop run 0 ?s3"
      by (subst mcsched_loop.simps) (use s1(1) t0 w(1) True q(1) q'(1) in \<open>simp add: get_runq_def\<close>)
    have "\<exists>s'. mcsched_loop run 0 ?s3 = mcsched_loop run 0 s' \<and> alone s' [] ys \<and>
        mc_done left hist (k(t := k t - 1)) (xs @ [t]) ?s3 s'"
      by (rule "2.IH"(1) [OF True])
        (use a2 q(1) q' dist "2.prems" True w(2) in \<open>auto simp: alone_def set_runq_def\<close>)
    then show ?thesis unfolding run using w(3) True dist
      by (auto simp: mc_done_def fun_eq_iff set_runq_def)
  next
    case False
    have run: "mcsched_loop run 0 s = mcsched_loop run 0 ?s2"
      by (subst mcsched_loop.simps) (use s1(1) t0 w(1) False in simp)
    have k0: "k t - 1 = 0" using False by simp
    have "\<exists>s'. mcsched_loop run 0 ?s2 = mcsched_loop run 0 s' \<and> alone s' [] ys \<and>
        mc_done left hist (k(t := 0)) xs ?s2 s'"
      by (rule "2.IH"(2) [OF False])
        (use a2 dist "2.prems" w(2) k0 in auto)
    then show ?thesis unfolding run using w(3) False dist
      by (auto simp: mc_done_def fun_eq_iff)
  qed
qed

lemma rr_order_cong: "(\<And>t. t \<in> set ts \<Longrightarrow> k t = k' t) \<Longrightarrow> rr_order k ts = rr_order k' ts"
proof (induction k ts arbitrary: k' rule: rr_order.induct)
  case (2 k t ts)
  have t: "k t = k' t" using "2.prems" by simp
  have "rr_order (k(t := k t - 1)) (ts @ [t]) = rr_order (k'(t := k' t - 1)) (ts @ [t])" if "1 < k t"
    by (rule "2.IH"(1) [OF that]) (use "2.prems" in auto)
  moreover have "rr_order (k(t := 0)) ts = rr_order (k'(t := 0)) ts" if "\<not> 1 < k t"
    by (rule "2.IH"(2) [OF that]) (use "2.prems" in auto)
  ultimately show ?case using t by auto
qed simp

lemma mc_stop:
  assumes "alone s [] []"
  shows "\<exists>s'. mcsched_loop run 0 s = Some (Inr s') \<and> alone s' [] [] \<and> same_rest s s'"
proof -
  obtain s' where "mcsched_pick 0 s = Inr (0, s')" "alone s' [] []" "same_rest s s'"
    using pick_global [OF assms] by auto
  then show ?thesis by (subst mcsched_loop.simps) simp
qed

lemma mc_take_over:
  assumes "takes_turns_mc left hist run" "alone s [] ys" "length ys < 1024" "distinct ys" "0 \<notin> set ys"
    "\<forall>t \<in> set ys. 0 < left (mc_world s) t"
  shows "\<exists>s'. mcsched_loop run 0 s = Some (Inr s') \<and> alone s' [] [] \<and> mc_done left hist (left (mc_world s)) ys s s'"
proof (cases ys)
  case Nil
  then show ?thesis using mc_stop [of s run] assms(2) by (auto simp: mc_done_def same_rest_def)
next
  case (Cons y zs)
  obtain s2 where s2: "if ys = [] then mcsched_pick 0 s = Inr (0, s2) else local_pop 0 s2 = mcsched_pick 0 s"
      "alone s2 ys []" "same_rest s s2"
    by (rule pick_global [OF assms(2,3)])
  have "mcsched_pick 0 s2 = local_pop 0 s2"
    using local_pop_alone [of s2 y zs "[]"] s2(2) Cons assms(5) by (auto simp: mcsched_pick_def)
  then have pick: "mcsched_pick 0 s = mcsched_pick 0 s2" using s2(1) Cons by simp
  have loop: "mcsched_loop run 0 s = mcsched_loop run 0 s2"
    by (subst (1 2) mcsched_loop.simps) (simp add: pick)
  have w: "left (mc_world s2) = left (mc_world s)" using s2(3) by (simp add: same_rest_def)
  obtain s3 where s3: "mcsched_loop run 0 s2 = mcsched_loop run 0 s3" "alone s3 [] []"
      "mc_done left hist (left (mc_world s)) ys s2 s3"
    using mc_phase [OF assms(1) s2(2) assms(4,5) w [symmetric]] assms(6) by blast
  obtain s4 where "mcsched_loop run 0 s3 = Some (Inr s4)" "alone s4 [] []" "same_rest s3 s4"
    using mc_stop [OF s3(2)] by blast
  then show ?thesis using loop s3 s2(3) by (auto simp: mc_done_def same_rest_def)
qed


definition demo_mc_run :: "nat \<Rightarrow> ((nat \<Rightarrow> nat) \<times> nat list) mcs \<Rightarrow> ((nat \<Rightarrow> nat) \<times> nat list) mcs res" where
  "demo_mc_run t s = (case mc_world s of (k, l) \<Rightarrow>
     Inr (s\<lparr>mc_state := (mc_state s)(t := if 1 < k t then THREAD_RUNNABLE else THREAD_EXITED),
            mc_world := (k(t := k t - 1), l @ [t])\<rparr>))"

lemma demo_mc_run_turns: "takes_turns_mc fst snd demo_mc_run"
  by (auto simp: takes_turns_mc_def demo_mc_run_def split: prod.splits)

lemma ring_create_ok: "ring_ok (the (ring_create True True QUEUESIZE)) []"
  "unlocked (the (ring_create True True QUEUESIZE))" "length (rq_buf (the (ring_create True True QUEUESIZE))) = 1024"
  by (simp_all add: ring_create_def ring_ok_def QUEUESIZE_def)

lemma mcsched_init_alone: "alone (mcsched_init 1 st w) [] []"
  using ring_create_ok by (simp add: alone_def mcsched_init_def MAX_CORES_def Let_def)

lemma mcsched_add_alone:
  assumes "alone s xs ys" "length ys < 1024"
  shows "\<exists>s'. mcsched_add t s = Inr (1, s') \<and> alone s' xs (ys @ [t]) \<and> same_rest s s'"
proof -
  obtain g where "ring_push_one (mc_grunq s) t = Inr (1, g)" "ring_ok g (ys @ [t])" "unlocked g" "length (rq_buf g) = 1024"
    using push_one_ok [of "mc_grunq s" ys t] assms by (auto simp: alone_def)
  then show ?thesis
    using assms by (intro exI [of _ "s\<lparr>mc_grunq := g\<rparr>"]) (simp add: mcsched_add_def alone_def same_rest_def)
qed


text \<open>
  Stealing loses threads: the loop goes on after it took a thread, so worker 0 takes thread 1 from
  worker 1 and thread 2 from worker 2, runs thread 2, and thread 1 is in no ring any more.
\<close>

definition demo_steal :: "unit mcs" where
  "demo_steal = \<lparr>mc_runq = [demo_ring [], demo_ring [5, 1], demo_ring [6, 2]], mc_grunq = demo_ring [], mc_ncore = 3,
     mc_state = (\<lambda>_. THREAD_RUNNABLE), mc_world = ()\<rparr>"

lemma mcsched_steal_loses_thread:
  "map_sum id (\<lambda>(e, s). (e, map rq_count (mc_runq s), rq_count (mc_grunq s))) (mcsched_pick 0 demo_steal) =
     Inr (2, [0, 1, 1], 0)"
  by code_simp

end
