(* ===== verification/Linux_Abi.thy ===== *)
theory Linux_Abi
  imports Mmap
begin

text \<open>
  The numbers of the Linux interface the runtime uses: error numbers, flags and auxiliary vector
  types of \<open>lps-linux/linux.h\<close>, system call numbers of \<open>arch_sys.h\<close> and the trap causes the
  system call entry distinguishes. \<open>LINUX_EINVAL\<close> is the one of the memory mapper.
\<close>

section \<open>linux.h\<close>

abbreviation (input) LINUX_EPERM :: "'a::len word" where "LINUX_EPERM \<equiv> 1"
abbreviation (input) LINUX_ENOENT :: "'a::len word" where "LINUX_ENOENT \<equiv> 2"
abbreviation (input) LINUX_EBADF :: "'a::len word" where "LINUX_EBADF \<equiv> 9"
abbreviation (input) LINUX_EAGAIN :: "'a::len word" where "LINUX_EAGAIN \<equiv> 11"
abbreviation (input) LINUX_ENOMEM :: "'a::len word" where "LINUX_ENOMEM \<equiv> 12"
abbreviation (input) LINUX_EACCES :: "'a::len word" where "LINUX_EACCES \<equiv> 13"
abbreviation (input) LINUX_EFAULT :: "'a::len word" where "LINUX_EFAULT \<equiv> 14"
abbreviation (input) LINUX_ENOTDIR :: "'a::len word" where "LINUX_ENOTDIR \<equiv> 20"
abbreviation (input) LINUX_EMFILE :: "'a::len word" where "LINUX_EMFILE \<equiv> 24"
abbreviation (input) LINUX_ENOSYS :: "'a::len word" where "LINUX_ENOSYS \<equiv> 38"
abbreviation (input) LINUX_MAP_PRIVATE :: "'a::len word" where "LINUX_MAP_PRIVATE \<equiv> 2"
abbreviation (input) LINUX_MAP_FIXED :: "'a::len word" where "LINUX_MAP_FIXED \<equiv> 16"
abbreviation (input) LINUX_MAP_ANONYMOUS :: "'a::len word" where "LINUX_MAP_ANONYMOUS \<equiv> 32"
abbreviation (input) LINUX_MAP_DENYWRITE :: "'a::len word" where "LINUX_MAP_DENYWRITE \<equiv> 2048"
abbreviation (input) LINUX_MAP_NORESERVE :: "'a::len word" where "LINUX_MAP_NORESERVE \<equiv> 16384"
abbreviation (input) LINUX_O_RDONLY :: "'a::len word" where "LINUX_O_RDONLY \<equiv> 0x0"
abbreviation (input) LINUX_O_WRONLY :: "'a::len word" where "LINUX_O_WRONLY \<equiv> 0x1"
abbreviation (input) LINUX_O_RDWR :: "'a::len word" where "LINUX_O_RDWR \<equiv> 0x2"
abbreviation (input) LINUX_O_CREAT :: "'a::len word" where "LINUX_O_CREAT \<equiv> 0x40"
abbreviation (input) LINUX_O_TRUNC :: "'a::len word" where "LINUX_O_TRUNC \<equiv> 0x200"
abbreviation (input) LINUX_O_APPEND :: "'a::len word" where "LINUX_O_APPEND \<equiv> 0x400"
abbreviation (input) LINUX_O_NONBLOCK :: "'a::len word" where "LINUX_O_NONBLOCK \<equiv> 0x800"
abbreviation (input) LINUX_O_DIRECTORY :: "'a::len word" where "LINUX_O_DIRECTORY \<equiv> 0x10000"
abbreviation (input) LINUX_AT_FDCWD :: "'a::len word" where "LINUX_AT_FDCWD \<equiv> - 100"
abbreviation (input) LINUX_AT_EMPTY_PATH :: "'a::len word" where "LINUX_AT_EMPTY_PATH \<equiv> 0x1000"
abbreviation (input) LINUX_GRND_NONBLOCK :: "'a::len word" where "LINUX_GRND_NONBLOCK \<equiv> 1"
abbreviation (input) LINUX_GRND_RANDOM :: "'a::len word" where "LINUX_GRND_RANDOM \<equiv> 2"
abbreviation (input) LINUX_PR_SET_NAME :: "'a::len word" where "LINUX_PR_SET_NAME \<equiv> 15"
abbreviation (input) LINUX_F_OK :: "'a::len word" where "LINUX_F_OK \<equiv> 0"
abbreviation (input) LINUX_R_OK :: "'a::len word" where "LINUX_R_OK \<equiv> 4"
abbreviation (input) LINUX_W_OK :: "'a::len word" where "LINUX_W_OK \<equiv> 2"
abbreviation (input) LINUX_X_OK :: "'a::len word" where "LINUX_X_OK \<equiv> 1"
abbreviation (input) LINUX_AT_NULL :: "'a::len word" where "LINUX_AT_NULL \<equiv> 0"
abbreviation (input) LINUX_AT_PHDR :: "'a::len word" where "LINUX_AT_PHDR \<equiv> 3"
abbreviation (input) LINUX_AT_PHENT :: "'a::len word" where "LINUX_AT_PHENT \<equiv> 4"
abbreviation (input) LINUX_AT_PHNUM :: "'a::len word" where "LINUX_AT_PHNUM \<equiv> 5"
abbreviation (input) LINUX_AT_PAGESZ :: "'a::len word" where "LINUX_AT_PAGESZ \<equiv> 6"
abbreviation (input) LINUX_AT_BASE :: "'a::len word" where "LINUX_AT_BASE \<equiv> 7"
abbreviation (input) LINUX_AT_FLAGS :: "'a::len word" where "LINUX_AT_FLAGS \<equiv> 8"
abbreviation (input) LINUX_AT_ENTRY :: "'a::len word" where "LINUX_AT_ENTRY \<equiv> 9"
abbreviation (input) LINUX_AT_UID :: "'a::len word" where "LINUX_AT_UID \<equiv> 11"
abbreviation (input) LINUX_AT_EUID :: "'a::len word" where "LINUX_AT_EUID \<equiv> 12"
abbreviation (input) LINUX_AT_GID :: "'a::len word" where "LINUX_AT_GID \<equiv> 13"
abbreviation (input) LINUX_AT_EGID :: "'a::len word" where "LINUX_AT_EGID \<equiv> 14"
abbreviation (input) LINUX_AT_HWCAP :: "'a::len word" where "LINUX_AT_HWCAP \<equiv> 16"
abbreviation (input) LINUX_AT_SECURE :: "'a::len word" where "LINUX_AT_SECURE \<equiv> 23"
abbreviation (input) LINUX_AT_RANDOM :: "'a::len word" where "LINUX_AT_RANDOM \<equiv> 25"
abbreviation (input) LINUX_AT_HWCAP2 :: "'a::len word" where "LINUX_AT_HWCAP2 \<equiv> 26"
abbreviation (input) LINUX_AT_EXECFN :: "'a::len word" where "LINUX_AT_EXECFN \<equiv> 31"
abbreviation (input) LINUX_AT_SYSINFO :: "'a::len word" where "LINUX_AT_SYSINFO \<equiv> 32"
abbreviation (input) LINUX_AT_SYSINFO_EHDR :: "'a::len word" where "LINUX_AT_SYSINFO_EHDR \<equiv> 33"

section \<open>System call numbers (arch_sys.h)\<close>

definition LINUX_SYS_table1 :: "(string \<times> nat) list" where
  "LINUX_SYS_table1 =
    [(''io_setup'', 0), (''io_destroy'', 1), (''io_submit'', 2), (''io_cancel'', 3),
     (''io_getevents'', 4), (''setxattr'', 5), (''lsetxattr'', 6), (''fsetxattr'', 7),
     (''getxattr'', 8), (''lgetxattr'', 9), (''fgetxattr'', 10), (''listxattr'', 11),
     (''llistxattr'', 12), (''flistxattr'', 13), (''removexattr'', 14), (''lremovexattr'', 15),
     (''fremovexattr'', 16), (''getcwd'', 17), (''lookup_dcookie'', 18), (''eventfd2'', 19),
     (''epoll_create1'', 20), (''epoll_ctl'', 21), (''epoll_pwait'', 22), (''dup'', 23), (''dup3'', 24),
     (''fcntl'', 25), (''inotify_init1'', 26), (''inotify_add_watch'', 27), (''inotify_rm_watch'', 28),
     (''ioctl'', 29), (''ioprio_set'', 30), (''ioprio_get'', 31), (''flock'', 32), (''mknodat'', 33),
     (''mkdirat'', 34), (''unlinkat'', 35), (''symlinkat'', 36), (''linkat'', 37), (''umount2'', 39),
     (''mount'', 40), (''pivot_root'', 41), (''nfsservctl'', 42), (''statfs'', 43), (''fstatfs'', 44),
     (''truncate'', 45), (''ftruncate'', 46), (''fallocate'', 47), (''faccessat'', 48), (''chdir'', 49),
     (''fchdir'', 50), (''chroot'', 51), (''fchmod'', 52), (''fchmodat'', 53), (''fchownat'', 54),
     (''fchown'', 55), (''openat'', 56), (''close'', 57), (''vhangup'', 58), (''pipe2'', 59),
     (''quotactl'', 60), (''getdents64'', 61), (''lseek'', 62), (''read'', 63), (''write'', 64),
     (''readv'', 65), (''writev'', 66), (''pread64'', 67), (''pwrite64'', 68), (''preadv'', 69),
     (''pwritev'', 70), (''sendfile'', 71), (''pselect6'', 72), (''ppoll'', 73), (''signalfd4'', 74),
     (''vmsplice'', 75), (''splice'', 76), (''tee'', 77), (''readlinkat'', 78), (''newfstatat'', 79),
     (''fstat'', 80), (''sync'', 81), (''fsync'', 82), (''fdatasync'', 83), (''sync_file_range'', 84),
     (''timerfd_create'', 85), (''timerfd_settime'', 86), (''timerfd_gettime'', 87),
     (''utimensat'', 88), (''acct'', 89), (''capget'', 90), (''capset'', 91), (''personality'', 92),
     (''exit'', 93), (''exit_group'', 94), (''waitid'', 95), (''set_tid_address'', 96),
     (''unshare'', 97), (''futex'', 98), (''set_robust_list'', 99), (''get_robust_list'', 100),
     (''nanosleep'', 101), (''getitimer'', 102), (''setitimer'', 103), (''kexec_load'', 104),
     (''init_module'', 105)]"

definition LINUX_SYS_table2 :: "(string \<times> nat) list" where
  "LINUX_SYS_table2 =
    [(''delete_module'', 106), (''timer_create'', 107), (''timer_gettime'', 108),
     (''timer_getoverrun'', 109), (''timer_settime'', 110), (''timer_delete'', 111),
     (''clock_settime'', 112), (''clock_gettime'', 113), (''clock_getres'', 114),
     (''clock_nanosleep'', 115), (''syslog'', 116), (''ptrace'', 117), (''sched_setparam'', 118),
     (''sched_setscheduler'', 119), (''sched_getscheduler'', 120), (''sched_getparam'', 121),
     (''sched_setaffinity'', 122), (''sched_getaffinity'', 123), (''sched_yield'', 124),
     (''sched_get_priority_max'', 125), (''sched_get_priority_min'', 126),
     (''sched_rr_get_interval'', 127), (''restart_syscall'', 128), (''kill'', 129), (''tkill'', 130),
     (''tgkill'', 131), (''sigaltstack'', 132), (''rt_sigsuspend'', 133), (''rt_sigaction'', 134),
     (''rt_sigprocmask'', 135), (''rt_sigpending'', 136), (''rt_sigtimedwait'', 137),
     (''rt_sigqueueinfo'', 138), (''rt_sigreturn'', 139), (''setpriority'', 140),
     (''getpriority'', 141), (''reboot'', 142), (''setregid'', 143), (''setgid'', 144),
     (''setreuid'', 145), (''setuid'', 146), (''setresuid'', 147), (''getresuid'', 148),
     (''setresgid'', 149), (''getresgid'', 150), (''setfsuid'', 151), (''setfsgid'', 152),
     (''times'', 153), (''setpgid'', 154), (''getpgid'', 155), (''getsid'', 156), (''setsid'', 157),
     (''getgroups'', 158), (''setgroups'', 159), (''uname'', 160), (''sethostname'', 161),
     (''setdomainname'', 162), (''getrlimit'', 163), (''setrlimit'', 164), (''getrusage'', 165),
     (''umask'', 166), (''prctl'', 167), (''getcpu'', 168), (''gettimeofday'', 169),
     (''settimeofday'', 170), (''adjtimex'', 171), (''getpid'', 172), (''getppid'', 173),
     (''getuid'', 174), (''geteuid'', 175), (''getgid'', 176), (''getegid'', 177), (''gettid'', 178),
     (''sysinfo'', 179), (''mq_open'', 180), (''mq_unlink'', 181), (''mq_timedsend'', 182),
     (''mq_timedreceive'', 183), (''mq_notify'', 184), (''mq_getsetattr'', 185), (''msgget'', 186),
     (''msgctl'', 187), (''msgrcv'', 188), (''msgsnd'', 189), (''semget'', 190), (''semctl'', 191),
     (''semtimedop'', 192), (''semop'', 193), (''shmget'', 194), (''shmctl'', 195), (''shmat'', 196),
     (''shmdt'', 197), (''socket'', 198), (''socketpair'', 199), (''bind'', 200), (''listen'', 201),
     (''accept'', 202), (''connect'', 203), (''getsockname'', 204), (''getpeername'', 205),
     (''sendto'', 206), (''recvfrom'', 207), (''setsockopt'', 208), (''getsockopt'', 209),
     (''shutdown'', 210)]"

definition LINUX_SYS_table3 :: "(string \<times> nat) list" where
  "LINUX_SYS_table3 =
    [(''sendmsg'', 211), (''recvmsg'', 212), (''readahead'', 213), (''brk'', 214), (''munmap'', 215),
     (''mremap'', 216), (''add_key'', 217), (''request_key'', 218), (''keyctl'', 219), (''clone'', 220),
     (''execve'', 221), (''mmap'', 222), (''fadvise64'', 223), (''swapon'', 224), (''swapoff'', 225),
     (''mprotect'', 226), (''msync'', 227), (''mlock'', 228), (''munlock'', 229), (''mlockall'', 230),
     (''munlockall'', 231), (''mincore'', 232), (''madvise'', 233), (''remap_file_pages'', 234),
     (''mbind'', 235), (''get_mempolicy'', 236), (''set_mempolicy'', 237), (''migrate_pages'', 238),
     (''move_pages'', 239), (''rt_tgsigqueueinfo'', 240), (''perf_event_open'', 241),
     (''accept4'', 242), (''recvmmsg'', 243), (''arch_specific_syscall'', 244), (''wait4'', 260),
     (''prlimit64'', 261), (''fanotify_init'', 262), (''fanotify_mark'', 263),
     (''name_to_handle_at'', 264), (''open_by_handle_at'', 265), (''clock_adjtime'', 266),
     (''syncfs'', 267), (''setns'', 268), (''sendmmsg'', 269), (''process_vm_readv'', 270),
     (''process_vm_writev'', 271), (''kcmp'', 272), (''finit_module'', 273), (''sched_setattr'', 274),
     (''sched_getattr'', 275), (''renameat2'', 276), (''seccomp'', 277), (''getrandom'', 278),
     (''memfd_create'', 279), (''bpf'', 280), (''execveat'', 281), (''userfaultfd'', 282),
     (''membarrier'', 283), (''mlock2'', 284), (''copy_file_range'', 285), (''preadv2'', 286),
     (''pwritev2'', 287), (''pkey_mprotect'', 288), (''pkey_alloc'', 289), (''pkey_free'', 290),
     (''statx'', 291), (''io_pgetevents'', 292), (''rseq'', 293), (''kexec_file_load'', 294),
     (''pidfd_send_signal'', 424), (''io_uring_setup'', 425), (''io_uring_enter'', 426),
     (''io_uring_register'', 427), (''open_tree'', 428), (''move_mount'', 429), (''fsopen'', 430),
     (''fsconfig'', 431), (''fsmount'', 432), (''fspick'', 433), (''pidfd_open'', 434),
     (''clone3'', 435), (''close_range'', 436), (''openat2'', 437), (''pidfd_getfd'', 438),
     (''faccessat2'', 439), (''process_madvise'', 440), (''epoll_pwait2'', 441),
     (''mount_setattr'', 442), (''landlock_create_ruleset'', 444), (''landlock_add_rule'', 445),
     (''landlock_restrict_self'', 446), (''process_mrelease'', 448), (''futex_waitv'', 449),
     (''set_mempolicy_home_node'', 450), (''cachestat'', 451), (''fchmodat2'', 452),
     (''sysriscv'', 244), (''riscv_flush_icache'', 259)]"

definition LINUX_SYS_table :: "(string \<times> nat) list" where
  "LINUX_SYS_table = LINUX_SYS_table1 @ LINUX_SYS_table2 @ LINUX_SYS_table3"

abbreviation (input) LINUX_SYS_LAST :: u64 where "LINUX_SYS_LAST \<equiv> 452"
abbreviation (input) LPS_SYS_runtime_call :: u64 where "LPS_SYS_runtime_call \<equiv> 500"

text \<open>The numbers \<open>syshandle\<close> dispatches on.\<close>

abbreviation (input) SYS_brk :: u64 where "SYS_brk \<equiv> 214"
abbreviation (input) SYS_mmap :: u64 where "SYS_mmap \<equiv> 222"
abbreviation (input) SYS_mprotect :: u64 where "SYS_mprotect \<equiv> 226"
abbreviation (input) SYS_munmap :: u64 where "SYS_munmap \<equiv> 215"
abbreviation (input) SYS_clone :: u64 where "SYS_clone \<equiv> 220"
abbreviation (input) SYS_exit_group :: u64 where "SYS_exit_group \<equiv> 94"
abbreviation (input) SYS_exit :: u64 where "SYS_exit \<equiv> 93"
abbreviation (input) SYS_getpid :: u64 where "SYS_getpid \<equiv> 172"
abbreviation (input) SYS_write :: u64 where "SYS_write \<equiv> 64"
abbreviation (input) SYS_writev :: u64 where "SYS_writev \<equiv> 66"
abbreviation (input) SYS_read :: u64 where "SYS_read \<equiv> 63"
abbreviation (input) SYS_readv :: u64 where "SYS_readv \<equiv> 65"
abbreviation (input) SYS_openat :: u64 where "SYS_openat \<equiv> 56"
abbreviation (input) SYS_close :: u64 where "SYS_close \<equiv> 57"
abbreviation (input) SYS_gettid :: u64 where "SYS_gettid \<equiv> 178"
abbreviation (input) SYS_futex :: u64 where "SYS_futex \<equiv> 98"
abbreviation (input) SYS_set_tid_address :: u64 where "SYS_set_tid_address \<equiv> 96"
abbreviation (input) SYS_sched_getaffinity :: u64 where "SYS_sched_getaffinity \<equiv> 123"
abbreviation (input) SYS_sched_setaffinity :: u64 where "SYS_sched_setaffinity \<equiv> 122"
abbreviation (input) SYS_sched_yield :: u64 where "SYS_sched_yield \<equiv> 124"
abbreviation (input) SYS_rt_sigaction :: u64 where "SYS_rt_sigaction \<equiv> 134"
abbreviation (input) SYS_rt_sigprocmask :: u64 where "SYS_rt_sigprocmask \<equiv> 135"
abbreviation (input) SYS_rt_sigreturn :: u64 where "SYS_rt_sigreturn \<equiv> 139"
abbreviation (input) SYS_sigaltstack :: u64 where "SYS_sigaltstack \<equiv> 132"
abbreviation (input) SYS_lseek :: u64 where "SYS_lseek \<equiv> 62"
abbreviation (input) SYS_pread64 :: u64 where "SYS_pread64 \<equiv> 67"
abbreviation (input) SYS_getdents64 :: u64 where "SYS_getdents64 \<equiv> 61"
abbreviation (input) SYS_newfstatat :: u64 where "SYS_newfstatat \<equiv> 79"
abbreviation (input) SYS_fstat :: u64 where "SYS_fstat \<equiv> 80"
abbreviation (input) SYS_fchmod :: u64 where "SYS_fchmod \<equiv> 52"
abbreviation (input) SYS_truncate :: u64 where "SYS_truncate \<equiv> 45"
abbreviation (input) SYS_ftruncate :: u64 where "SYS_ftruncate \<equiv> 46"
abbreviation (input) SYS_fchown :: u64 where "SYS_fchown \<equiv> 55"
abbreviation (input) SYS_fsync :: u64 where "SYS_fsync \<equiv> 82"
abbreviation (input) SYS_mkdirat :: u64 where "SYS_mkdirat \<equiv> 34"
abbreviation (input) SYS_unlinkat :: u64 where "SYS_unlinkat \<equiv> 35"
abbreviation (input) SYS_renameat2 :: u64 where "SYS_renameat2 \<equiv> 276"
abbreviation (input) SYS_faccessat :: u64 where "SYS_faccessat \<equiv> 48"
abbreviation (input) SYS_readlinkat :: u64 where "SYS_readlinkat \<equiv> 78"
abbreviation (input) SYS_dup :: u64 where "SYS_dup \<equiv> 23"
abbreviation (input) SYS_dup3 :: u64 where "SYS_dup3 \<equiv> 24"
abbreviation (input) SYS_chdir :: u64 where "SYS_chdir \<equiv> 49"
abbreviation (input) SYS_fchdir :: u64 where "SYS_fchdir \<equiv> 50"
abbreviation (input) SYS_getcwd :: u64 where "SYS_getcwd \<equiv> 17"
abbreviation (input) SYS_nanosleep :: u64 where "SYS_nanosleep \<equiv> 101"
abbreviation (input) SYS_clock_gettime :: u64 where "SYS_clock_gettime \<equiv> 113"
abbreviation (input) SYS_getrandom :: u64 where "SYS_getrandom \<equiv> 278"
abbreviation (input) SYS_ioctl :: u64 where "SYS_ioctl \<equiv> 29"
abbreviation (input) SYS_fcntl :: u64 where "SYS_fcntl \<equiv> 25"
abbreviation (input) SYS_prctl :: u64 where "SYS_prctl \<equiv> 167"
abbreviation (input) SYS_uname :: u64 where "SYS_uname \<equiv> 160"
abbreviation (input) SYS_sysinfo :: u64 where "SYS_sysinfo \<equiv> 179"
abbreviation (input) SYS_getrlimit :: u64 where "SYS_getrlimit \<equiv> 163"
abbreviation (input) SYS_set_robust_list :: u64 where "SYS_set_robust_list \<equiv> 99"
abbreviation (input) SYS_membarrier :: u64 where "SYS_membarrier \<equiv> 283"
abbreviation (input) SYS_madvise :: u64 where "SYS_madvise \<equiv> 233"
abbreviation (input) SYS_getrusage :: u64 where "SYS_getrusage \<equiv> 165"
abbreviation (input) SYS_statx :: u64 where "SYS_statx \<equiv> 291"
abbreviation (input) SYS_rseq :: u64 where "SYS_rseq \<equiv> 293"
abbreviation (input) SYS_prlimit64 :: u64 where "SYS_prlimit64 \<equiv> 261"
abbreviation (input) SYS_statfs :: u64 where "SYS_statfs \<equiv> 43"
abbreviation (input) SYS_getxattr :: u64 where "SYS_getxattr \<equiv> 8"
abbreviation (input) SYS_lgetxattr :: u64 where "SYS_lgetxattr \<equiv> 9"
abbreviation (input) SYS_socket :: u64 where "SYS_socket \<equiv> 198"
abbreviation (input) SYS_mremap :: u64 where "SYS_mremap \<equiv> 216"
abbreviation (input) SYS_utimensat :: u64 where "SYS_utimensat \<equiv> 88"
abbreviation (input) SYS_memfd_create :: u64 where "SYS_memfd_create \<equiv> 279"

definition dispatched :: "u64 list" where
  "dispatched =
    [SYS_brk, SYS_mmap, SYS_mprotect, SYS_munmap, SYS_clone, SYS_exit_group, SYS_exit, SYS_getpid,
     SYS_write, SYS_writev, SYS_read, SYS_readv, SYS_openat, SYS_close, SYS_gettid, SYS_futex,
     SYS_set_tid_address, SYS_sched_getaffinity, SYS_sched_setaffinity, SYS_sched_yield,
     SYS_rt_sigaction, SYS_rt_sigprocmask, SYS_rt_sigreturn, SYS_sigaltstack, SYS_lseek, SYS_pread64,
     SYS_getdents64, SYS_newfstatat, SYS_fstat, SYS_fchmod, SYS_truncate, SYS_ftruncate, SYS_fchown,
     SYS_fsync, SYS_mkdirat, SYS_unlinkat, SYS_renameat2, SYS_faccessat, SYS_readlinkat, SYS_dup,
     SYS_dup3, SYS_chdir, SYS_fchdir, SYS_getcwd, SYS_nanosleep, SYS_clock_gettime, SYS_getrandom,
     SYS_ioctl, SYS_fcntl, SYS_prctl, SYS_uname, SYS_sysinfo, SYS_getrlimit, SYS_set_robust_list,
     SYS_membarrier, SYS_madvise, SYS_getrusage, SYS_statx, SYS_rseq, SYS_prlimit64, SYS_statfs,
     SYS_getxattr, SYS_lgetxattr, SYS_socket, SYS_mremap, SYS_utimensat, SYS_memfd_create]"

section \<open>Trap causes (arch_sys.h)\<close>

abbreviation (input) CAUSE_IRQ_U_TIME :: u64 where "CAUSE_IRQ_U_TIME \<equiv> 0x8000000000000004"
abbreviation (input) CAUSE_DASICS_U_CHECK_FAULT :: u64 where "CAUSE_DASICS_U_CHECK_FAULT \<equiv> 0x18"
abbreviation (input) DFR_EF :: u64 where "DFR_EF \<equiv> 1"

section \<open>Consistency\<close>

text \<open>
  No number exceeds \<open>LINUX_SYS_LAST\<close>, which is the number of a system call; the runtime call lies above
  it (the static assertion of \<open>sys.h\<close>); and the numbers \<open>syshandle\<close> dispatches on are distinct.
\<close>

lemma LINUX_SYS_LAST_ok:
  "list_all (\<lambda>(n, v). v \<le> unat LINUX_SYS_LAST) LINUX_SYS_table" "(''fchmodat2'', unat LINUX_SYS_LAST) \<in> set LINUX_SYS_table"
  "LINUX_SYS_LAST < LPS_SYS_runtime_call"
  by (simp_all add: LINUX_SYS_table_def LINUX_SYS_table1_def LINUX_SYS_table2_def LINUX_SYS_table3_def)

lemma dispatched_distinct: "distinct dispatched"
  by (simp add: dispatched_def)

end
