(* ===== verification/Host.thy ===== *)
theory Host
  imports Linux_Abi
begin

text \<open>
  The host interface of the Linux layer (\<open>lps-linux/host.c\<close>, \<open>host.h\<close>). The kernel is not part of the
  program: a call of it is a value of \<open>hostcall\<close>, and what it does is a parameter, a function that
  answers a call and may change the memory and the kernel's own state. Sandboxes and runtime share one
  address space, so there is one memory, a function from addresses to bytes. The theory holds the error
  translation and the wrappers; \<open>getdents64\<close> is the one of the C library.
\<close>

section \<open>Memory\<close>

type_synonym memory = "u64 \<Rightarrow> u8"

definition store_bytes :: "u64 \<Rightarrow> u8 list \<Rightarrow> memory \<Rightarrow> memory" where
  "store_bytes a bs m = (\<lambda>x. if unat (x - a) < length bs then bs ! unat (x - a) else m x)"

definition load_bytes :: "u64 \<Rightarrow> nat \<Rightarrow> memory \<Rightarrow> u8 list" where
  "load_bytes a n m = map (\<lambda>i. m (a + of_nat i)) [0 ..< n]"

text \<open>The n low bytes of a word, little-endian, and back.\<close>

definition le_bytes :: "nat \<Rightarrow> u64 \<Rightarrow> u8 list" where
  "le_bytes n v = map (\<lambda>i. ucast (drop_bit (8 * i) v)) [0 ..< n]"

fun le_word :: "u8 list \<Rightarrow> u64" where
  "le_word [] = 0"
| "le_word (b # bs) = ucast b OR push_bit 8 (le_word bs)"

text \<open>Members of a structure at address a, each with its offset, its size and its value.\<close>

fun store_fields :: "u64 \<Rightarrow> (nat \<times> nat \<times> u64) list \<Rightarrow> memory \<Rightarrow> memory" where
  "store_fields a [] m = m"
| "store_fields a ((off, n, v) # fs) m = store_fields a fs (store_bytes (a + of_nat off) (le_bytes n v) m)"

section \<open>Kernel calls\<close>

record 'k world =
  w_mem :: memory
  w_kern :: 'k

datatype hostcall =
    H_read cint u64 u64
  | H_write cint u64 u64
  | H_lseek cint u64 cint
  | H_ftruncate cint u64
  | H_fchown cint u32 u32
  | H_fchmod cint u32
  | H_close cint
  | H_fsync cint
  | H_fstat cint
  | H_fstatat cint string cint
  | H_stat string
  | H_getdents64 cint u64 u64
  | H_ioctl cint u64
  | H_dup cint
  | H_open string cint cint
  | H_truncate string u64
  | H_mkdir string u32
  | H_unlink string
  | H_rename string string
  | H_access string cint
  | H_readlink string u64 u64
  | H_getrandom u64 u64 u32
  | H_sysinfo
  | H_nanosleep u64 u64
  | H_clock_gettime cint
  | H_syscall u64 "u64 list"

text \<open>The kernel's \<open>struct stat\<close>, \<open>struct sysinfo\<close> and \<open>struct winsize\<close>, as far as they are used.\<close>

record kstat =
  ks_dev :: u64  ks_ino :: u64  ks_nlink :: u64  ks_mode :: u32  ks_uid :: u32  ks_gid :: u32
  ks_rdev :: u64  ks_size :: u64  ks_blksize :: u64  ks_blocks :: u64
  ks_atim :: "u64 \<times> u64"  ks_mtim :: "u64 \<times> u64"  ks_ctim :: "u64 \<times> u64"

record ksysinfo =
  ki_uptime :: u64  ki_loads :: "u64 \<times> u64 \<times> u64"  ki_totalram :: u64  ki_freeram :: u64
  ki_sharedram :: u64  ki_bufferram :: u64  ki_totalswap :: u64  ki_freeswap :: u64  ki_procs :: u16
  ki_totalhigh :: u64  ki_freehigh :: u64  ki_mem_unit :: u32

record kwinsize =
  kw_row :: u16  kw_col :: u16  kw_xpixel :: u16  kw_ypixel :: u16

text \<open>The answer of a call: its return value, \<open>errno\<close> and the structure it fills in, where it has one.\<close>

record hostres =
  hr_ret :: u64
  hr_errno :: cint
  hr_stat :: kstat
  hr_sysinfo :: ksysinfo
  hr_winsize :: kwinsize
  hr_time :: "u64 \<times> u64"

type_synonym 'k hostos = "hostcall \<Rightarrow> 'k world \<Rightarrow> hostres \<times> 'k world"

section \<open>host.h and host.c\<close>

definition host_err :: "cint \<Rightarrow> cint" where
  "host_err err =
     (if err = 38 then - LINUX_ENOSYS
      else if err = 22 then - LINUX_EINVAL
      else if err = 2 then - LINUX_ENOENT
      else if err = 9 then - LINUX_EBADF
      else if err = 11 then - LINUX_EAGAIN
      else if err = 1 then - LINUX_EPERM
      else if err = 12 then - LINUX_ENOMEM
      else if err = 13 then - LINUX_EACCES
      else if err = 20 then - LINUX_ENOTDIR
      else if err = 24 then - LINUX_EMFILE
      else if err = 14 then - LINUX_EFAULT
      else - LINUX_EINVAL)"

text \<open>\<open>HOST_ERR(ssize_t, expr)\<close> and \<open>HOST_ERR(int, expr)\<close>.\<close>

definition HOST_ERR_ssize :: "hostres \<Rightarrow> u64" where
  "HOST_ERR_ssize r = (if hr_ret r = - 1 then int_to_u64 (host_err (hr_errno r)) else hr_ret r)"

definition HOST_ERR_int :: "hostres \<Rightarrow> cint" where
  "HOST_ERR_int r =
     (let ret = ucast (hr_ret r) :: cint in if ret = - 1 then host_err (hr_errno r) else ret)"

text \<open>A call whose answer is translated and returned.\<close>

definition call_ssize :: "'k hostos \<Rightarrow> hostcall \<Rightarrow> 'k world \<Rightarrow> u64 \<times> 'k world" where
  "call_ssize ho c w = (case ho c w of (r, w) \<Rightarrow> (HOST_ERR_ssize r, w))"

definition call_int :: "'k hostos \<Rightarrow> hostcall \<Rightarrow> 'k world \<Rightarrow> cint \<times> 'k world" where
  "call_int ho c w = (case ho c w of (r, w) \<Rightarrow> (HOST_ERR_int r, w))"

text \<open>The host's \<open>GRND_RANDOM\<close> is 2 and \<open>GRND_NONBLOCK\<close> is 1.\<close>

definition randomflags :: "u32 \<Rightarrow> u32" where
  "randomflags flags =
     (if flags AND LINUX_GRND_RANDOM \<noteq> 0 then 2 else 0) OR
     (if flags AND LINUX_GRND_NONBLOCK \<noteq> 0 then 1 else 0)"

definition host_getrandom :: "'k hostos \<Rightarrow> u64 \<Rightarrow> u64 \<Rightarrow> u32 \<Rightarrow> 'k world \<Rightarrow> u64 \<times> 'k world" where
  "host_getrandom ho buf sz flags w =
     (case ho (H_getrandom buf sz (randomflags flags)) w of (r, w) \<Rightarrow>
        if sint (hr_ret r) < 0 then (int_to_u64 (host_err (hr_errno r)), w) else (hr_ret r, w))"

text \<open>
  \<open>copystat\<close> into a \<open>struct Stat\<close> at the given address. The offsets are those of \<open>types.h\<close>; the
  padding is left alone.
\<close>

abbreviation sizeof_Stat :: u64 where "sizeof_Stat \<equiv> 128"

definition copystat :: "u64 \<Rightarrow> kstat \<Rightarrow> memory \<Rightarrow> memory" where
  "copystat statp k =
     store_fields statp
       [(0, 8, ks_dev k), (8, 8, ks_ino k), (20, 4, ks_nlink k), (16, 4, ucast (ks_mode k)),
        (24, 4, ucast (ks_uid k)), (28, 4, ucast (ks_gid k)), (32, 8, ks_rdev k), (48, 8, ks_size k),
        (56, 4, ks_blksize k), (64, 8, ks_blocks k),
        (72, 8, fst (ks_atim k)), (80, 8, snd (ks_atim k)), (88, 8, fst (ks_mtim k)), (96, 8, snd (ks_mtim k)),
        (104, 8, fst (ks_ctim k)), (112, 8, snd (ks_ctim k))]"

definition host_fstatat ::
  "'k hostos \<Rightarrow> cint \<Rightarrow> string \<Rightarrow> u64 \<Rightarrow> cint \<Rightarrow> 'k world \<Rightarrow> (cint \<times> 'k world) res" where
  "host_fstatat ho fd path statp flags w =
     rbind (if flags = LINUX_AT_EMPTY_PATH then Inr (ho (H_fstat fd) w)
            else rbind (rassert (flags = 0)) (\<lambda>_. Inr (ho (H_fstatat fd path 0) w))) (\<lambda>(r, w).
     if sint (ucast (hr_ret r) :: cint) < 0 then Inr (host_err (hr_errno r), w)
     else Inr (0, w\<lparr>w_mem := copystat statp (hr_stat r) (w_mem w)\<rparr>))"

definition host_getdents64 :: "'k hostos \<Rightarrow> cint \<Rightarrow> u64 \<Rightarrow> u64 \<Rightarrow> 'k world \<Rightarrow> u64 \<times> 'k world" where
  "host_getdents64 ho fd dirp count w = call_ssize ho (H_getdents64 fd dirp count) w"

definition S_ISDIR :: "u32 \<Rightarrow> bool" where
  "S_ISDIR mode \<longleftrightarrow> mode AND 0xF000 = 0x4000"

definition host_isdir :: "'k hostos \<Rightarrow> string \<Rightarrow> 'k world \<Rightarrow> cint \<times> 'k world" where
  "host_isdir ho path w =
     (case ho (H_stat path) w of (r, w) \<Rightarrow>
        if (ucast (hr_ret r) :: cint) \<noteq> 0 then (- LINUX_ENOENT, w)
        else if \<not> S_ISDIR (ks_mode (hr_stat r)) then (- LINUX_ENOTDIR, w)
        else (0, w))"

section \<open>Memory lemmas\<close>

lemma store_bytes_other: "length bs \<le> unat (x - a) \<Longrightarrow> store_bytes a bs m x = m x"
  by (simp add: store_bytes_def)

lemma length_le_bytes [simp]: "length (le_bytes n v) = n"
  by (simp add: le_bytes_def)

lemma length_load_bytes [simp]: "length (load_bytes a n m) = n"
  by (simp add: load_bytes_def)

text \<open>A byte range as a set of addresses.\<close>

definition byte_range :: "u64 \<Rightarrow> nat \<Rightarrow> u64 set" where
  "byte_range a n = {x. unat (x - a) < n}"

lemma store_bytes_outside: "x \<notin> byte_range a (length bs) \<Longrightarrow> store_bytes a bs m x = m x"
  by (simp add: store_bytes_def byte_range_def)

lemma load_store_bytes: "length bs < 2 ^ 64 \<Longrightarrow> load_bytes a (length bs) (store_bytes a bs m) = bs"
  by (rule nth_equalityI) (simp_all add: load_bytes_def store_bytes_def unat_of_nat_u64)

lemma load_bytes_cong:
  "(\<And>x. x \<in> byte_range a n \<Longrightarrow> m x = m' x) \<Longrightarrow> n < 2 ^ 64 \<Longrightarrow> load_bytes a n m = load_bytes a n m'"
  by (auto simp: load_bytes_def byte_range_def unat_of_nat_u64)

lemma byte_range_inner:
  assumes "x \<notin> byte_range a n" "off + k \<le> n" "n < 2 ^ 64"
  shows "x \<notin> byte_range (a + of_nat off) k"
proof
  assume "x \<in> byte_range (a + of_nat off) k"
  then have lt: "unat (x - a - of_nat off) < k" by (simp add: byte_range_def algebra_simps)
  have off: "unat (of_nat off :: u64) = off" by (rule unat_of_nat_u64) (use assms(2,3) lt in linarith)
  have "x - a = (x - a - of_nat off) + of_nat off" by simp
  then have "unat (x - a) = unat (x - a - of_nat off) + off"
    using lt assms(2,3) off unat_add_nowrap [of "x - a - of_nat off" "of_nat off"] by simp
  then show False using assms(1,2) lt by (simp add: byte_range_def)
qed

text \<open>Storing the members of a structure changes only its bytes.\<close>

lemma store_fields_outside:
  assumes "x \<notin> byte_range a n" "\<forall>(off, k, v) \<in> set fs. off + k \<le> n" "n < 2 ^ 64"
  shows "store_fields a fs m x = m x"
  using assms(2)
proof (induction fs arbitrary: m)
  case (Cons f fs)
  obtain off k v where f: "f = (off, k, v)" by (cases f)
  then have "x \<notin> byte_range (a + of_nat off) k" using Cons.prems assms(1,3) by (intro byte_range_inner) auto
  then show ?case using Cons by (simp add: f store_bytes_outside)
qed simp

section \<open>Errors are negative\<close>

lemma host_err_range: "- 38 \<le> sint (host_err e) \<and> sint (host_err e) < 0"
  by (simp add: host_err_def)

end
