(* ===== verification/Fd.thy ===== *)
theory Fd
  imports Host
begin

text \<open>
  Open files and descriptor tables: \<open>lps-linux/kfile.c\<close>, \<open>kfile.h\<close>, \<open>fd.c\<close> and \<open>fd.h\<close>. Files live in a
  heap; a descriptor table is a list of \<open>LINUX_NOFILE\<close> pointers. The function pointers of a file are
  values of \<open>fnptr\<close>: NULL, never initialised, the functions of \<open>kfile.c\<close>, or those of a pipe. What the
  functions of a pipe do is a parameter here (\<open>devops\<close>).

  \<open>filefree\<close> unlocks \<open>lk_refs\<close> when it returns, also after it has freed the file the mutex lies in; the
  flag \<open>fh_misuse\<close> records that such a write to freed memory happened.
\<close>

section \<open>Files\<close>

datatype fnptr = Uninit | Null | KFile | PipeFn

record FDFile =
  f_dev :: "nat option"
  f_refs :: "u64 option"
  f_read :: fnptr
  f_write :: fnptr
  f_lseek :: fnptr
  f_close :: fnptr
  f_stat :: fnptr
  f_getdents :: fnptr
  f_chown :: fnptr
  f_chmod :: fnptr
  f_truncate :: fnptr
  f_sync :: fnptr
  f_ioctl :: fnptr
  f_kfd :: "cint option"
  f_path :: "string option option"

text \<open>In \<open>f_refs\<close>, \<open>f_kfd\<close> and \<open>f_path\<close> the outer None is a member that was never initialised.\<close>

record fheap =
  fh_files :: "nat \<Rightarrow> FDFile option"
  fh_next :: nat
  fh_oom :: "nat \<Rightarrow> bool"
  fh_misuse :: bool

definition get_file :: "fheap \<Rightarrow> nat option \<Rightarrow> FDFile res" where
  "get_file fh p =
     (case p of None \<Rightarrow> Inl NullDeref
      | Some a \<Rightarrow> (case fh_files fh a of None \<Rightarrow> Inl UseAfterFree | Some f \<Rightarrow> Inr f))"

definition set_file :: "fheap \<Rightarrow> nat \<Rightarrow> FDFile option \<Rightarrow> fheap" where
  "set_file fh a f = fh\<lparr>fh_files := (fh_files fh)(a := f)\<rparr>"

definition initialised :: "'a option \<Rightarrow> 'a res" where
  "initialised x = (case x of None \<Rightarrow> Inl Uninitialised | Some v \<Rightarrow> Inr v)"

text \<open>\<open>f->refs++\<close> and \<open>f->refs--\<close>.\<close>

definition add_refs :: "fheap \<Rightarrow> nat \<Rightarrow> u64 \<Rightarrow> fheap res" where
  "add_refs fh a d =
     rbind (get_file fh (Some a)) (\<lambda>f.
     rbind (initialised (f_refs f)) (\<lambda>r.
     Inr (set_file fh a (Some (f\<lparr>f_refs := Some (r + d)\<rparr>)))))"

section \<open>kfile.c\<close>

definition getkfd :: "fheap \<Rightarrow> nat option \<Rightarrow> cint res" where
  "getkfd fh dev = rbind (get_file fh dev) (\<lambda>f. initialised (f_kfd f))"

definition kread :: "'k hostos \<Rightarrow> fheap \<Rightarrow> nat option \<Rightarrow> u64 \<Rightarrow> u64 \<Rightarrow> 'k world \<Rightarrow> (u64 \<times> 'k world) res" where
  "kread ho fh dev buf sz w = rbind (getkfd fh dev) (\<lambda>kfd. Inr (call_ssize ho (H_read kfd buf sz) w))"

definition kwrite :: "'k hostos \<Rightarrow> fheap \<Rightarrow> nat option \<Rightarrow> u64 \<Rightarrow> u64 \<Rightarrow> 'k world \<Rightarrow> (u64 \<times> 'k world) res" where
  "kwrite ho fh dev buf sz w = rbind (getkfd fh dev) (\<lambda>kfd. Inr (call_ssize ho (H_write kfd buf sz) w))"

definition klseek :: "'k hostos \<Rightarrow> fheap \<Rightarrow> nat option \<Rightarrow> u64 \<Rightarrow> cint \<Rightarrow> 'k world \<Rightarrow> (u64 \<times> 'k world) res" where
  "klseek ho fh dev off whence w = rbind (getkfd fh dev) (\<lambda>kfd. Inr (call_ssize ho (H_lseek kfd off whence) w))"

definition kftruncate :: "'k hostos \<Rightarrow> fheap \<Rightarrow> nat option \<Rightarrow> u64 \<Rightarrow> 'k world \<Rightarrow> (cint \<times> 'k world) res" where
  "kftruncate ho fh dev len w = rbind (getkfd fh dev) (\<lambda>kfd. Inr (call_int ho (H_ftruncate kfd len) w))"

definition kfchown :: "'k hostos \<Rightarrow> fheap \<Rightarrow> nat option \<Rightarrow> u32 \<Rightarrow> u32 \<Rightarrow> 'k world \<Rightarrow> (cint \<times> 'k world) res" where
  "kfchown ho fh dev owner grp w = rbind (getkfd fh dev) (\<lambda>kfd. Inr (call_int ho (H_fchown kfd owner grp) w))"

definition kchmod :: "'k hostos \<Rightarrow> fheap \<Rightarrow> nat option \<Rightarrow> u32 \<Rightarrow> 'k world \<Rightarrow> (cint \<times> 'k world) res" where
  "kchmod ho fh dev mode w = rbind (getkfd fh dev) (\<lambda>kfd. Inr (call_int ho (H_fchmod kfd mode) w))"

definition kclose :: "'k hostos \<Rightarrow> fheap \<Rightarrow> nat option \<Rightarrow> 'k world \<Rightarrow> (cint \<times> 'k world) res" where
  "kclose ho fh dev w = rbind (getkfd fh dev) (\<lambda>kfd. Inr (call_int ho (H_close kfd) w))"

definition kstat_op :: "'k hostos \<Rightarrow> fheap \<Rightarrow> nat option \<Rightarrow> u64 \<Rightarrow> 'k world \<Rightarrow> (cint \<times> 'k world) res" where
  "kstat_op ho fh dev statp w =
     rbind (getkfd fh dev) (\<lambda>kfd. host_fstatat ho kfd '''' statp LINUX_AT_EMPTY_PATH w)"

definition ksync :: "'k hostos \<Rightarrow> fheap \<Rightarrow> nat option \<Rightarrow> 'k world \<Rightarrow> (cint \<times> 'k world) res" where
  "ksync ho fh dev w = rbind (getkfd fh dev) (\<lambda>kfd. Inr (call_int ho (H_fsync kfd) w))"

definition kgetdents :: "'k hostos \<Rightarrow> fheap \<Rightarrow> nat option \<Rightarrow> u64 \<Rightarrow> u64 \<Rightarrow> 'k world \<Rightarrow> (u64 \<times> 'k world) res" where
  "kgetdents ho fh dev dirp count w = rbind (getkfd fh dev) (\<lambda>kfd. Inr (host_getdents64 ho kfd dirp count w))"

text \<open>\<open>kioctl\<close> returns also the structure the kernel fills in.\<close>

definition kioctl ::
  "'k hostos \<Rightarrow> fheap \<Rightarrow> nat option \<Rightarrow> u64 \<Rightarrow> 'k world \<Rightarrow> (cint \<times> hostres \<times> 'k world) res" where
  "kioctl ho fh dev request w =
     rbind (getkfd fh dev) (\<lambda>kfd. case ho (H_ioctl kfd request) w of (r, w) \<Rightarrow> Inr (HOST_ERR_int r, r, w))"

definition filenew :: "cint \<Rightarrow> string option \<Rightarrow> fheap \<Rightarrow> nat option \<times> fheap" where
  "filenew kfd path fh =
     (let a = fh_next fh; fh = fh\<lparr>fh_next := Suc a\<rparr> in
      if fh_oom fh a then (None, fh)
      else (Some a, set_file fh a (Some \<lparr>f_dev = Some a, f_refs = Some 0, f_read = KFile, f_write = KFile,
              f_lseek = KFile, f_close = KFile, f_stat = KFile, f_getdents = KFile, f_chown = KFile,
              f_chmod = KFile, f_truncate = KFile, f_sync = KFile, f_ioctl = KFile, f_kfd = Some kfd,
              f_path = Some path\<rparr>)))"

text \<open>
  \<open>filefree\<close> returns early when no reference is left, and otherwise frees the file; it calls \<open>close\<close>
  only when the pointer is NULL.
\<close>

definition filefree :: "nat option \<Rightarrow> fheap \<Rightarrow> fheap res" where
  "filefree p fh =
     (case p of
        None \<Rightarrow> Inr fh
      | Some a \<Rightarrow>
          rbind (add_refs fh a (- 1)) (\<lambda>fh.
          rbind (get_file fh (Some a)) (\<lambda>f.
          if f_refs f = Some 0 then Inr fh
          else
            rbind (initialised (f_path f)) (\<lambda>_.
            if f_close f = Null then Inl NullDeref
            else if f_close f = Uninit then Inl Uninitialised
            else Inr ((set_file fh a None)\<lparr>fh_misuse := True\<rparr>)))))"

section \<open>fd.c\<close>

definition LINUX_NOFILE :: nat where "LINUX_NOFILE = 1024"

type_synonym FDTable = "nat option list"

text \<open>The first free slot, \<open>LINUX_NOFILE\<close> when there is none.\<close>

fun first_free :: "FDTable \<Rightarrow> nat" where
  "first_free [] = 0"
| "first_free (x # xs) = (if x = None then 0 else Suc (first_free xs))"

definition fdfassign :: "fheap \<Rightarrow> FDTable \<Rightarrow> nat \<Rightarrow> (cint \<times> fheap \<times> FDTable) res" where
  "fdfassign fh t f =
     (let i = first_free t in
      if i < LINUX_NOFILE then
        rbind (add_refs fh f 1) (\<lambda>fh. Inr (of_nat i, fh, t[i := Some f]))
      else Inr (- 1, fh, t))"

definition table_get :: "FDTable \<Rightarrow> cint \<Rightarrow> nat option res" where
  "table_get t fd = (if 0 \<le> sint fd \<and> nat (sint fd) < length t then Inr (t ! nat (sint fd)) else Inl OutOfBounds)"

definition fdassign :: "FDTable \<Rightarrow> cint \<Rightarrow> nat \<Rightarrow> (cint \<times> FDTable) res" where
  "fdassign t fd f =
     rbind (table_get t fd) (\<lambda>old.
     if old \<noteq> None then Inr (- 1, t) else Inr (fd, t[nat (sint fd) := Some f]))"

definition fd_in_range :: "cint \<Rightarrow> bool" where
  "fd_in_range fd \<longleftrightarrow> \<not> (sint fd < 0 \<or> sint fd \<ge> int LINUX_NOFILE)"

definition fdfget :: "FDTable \<Rightarrow> cint \<Rightarrow> nat option res" where
  "fdfget t fd = (if \<not> fd_in_range fd then Inr None else table_get t fd)"

definition fdfdup2 :: "fheap \<Rightarrow> FDTable \<Rightarrow> cint \<Rightarrow> cint \<Rightarrow> (cint \<times> fheap \<times> FDTable) res" where
  "fdfdup2 fh t oldfd newfd =
     (if sint oldfd < 0 \<or> sint oldfd \<ge> int LINUX_NOFILE \<or> sint newfd < - 1 \<or> sint newfd \<ge> int LINUX_NOFILE then
        Inr (- LINUX_EBADF, fh, t)
      else
        rbind (table_get t oldfd) (\<lambda>f.
        case f of
          None \<Rightarrow> Inr (- LINUX_EBADF, fh, t)
        | Some f \<Rightarrow>
            (if newfd = - 1 then
               (let i = first_free t in
                if i = LINUX_NOFILE then Inr (- LINUX_EMFILE, fh, t)
                else rbind (add_refs fh f 1) (\<lambda>fh. Inr (of_nat i, fh, t[i := Some f])))
             else
               rbind (table_get t newfd) (\<lambda>g.
               if g \<noteq> None then Inr (- LINUX_EBADF, fh, t)
               else rbind (add_refs fh f 1) (\<lambda>fh. Inr (newfd, fh, t[nat (sint newfd) := Some f]))))))"

definition fdfclose :: "fheap \<Rightarrow> FDTable \<Rightarrow> cint \<Rightarrow> (bool \<times> fheap \<times> FDTable) res" where
  "fdfclose fh t fd =
     (if \<not> fd_in_range fd then Inr (False, fh, t)
      else
        rbind (table_get t fd) (\<lambda>f.
        if f = None then Inr (False, fh, t)
        else rbind (filefree f fh) (\<lambda>fh. Inr (True, fh, t[nat (sint fd) := None]))))"

text \<open>\<open>dup\<close> of the three standard streams, then \<open>filenew\<close>.\<close>

definition fdinit_one :: "'k hostos \<Rightarrow> cint \<Rightarrow> fheap \<times> 'k world \<Rightarrow> nat option \<times> fheap \<times> 'k world" where
  "fdinit_one ho fd = (\<lambda>(fh, w).
     case ho (H_dup fd) w of (r, w) \<Rightarrow>
       (case filenew (ucast (hr_ret r)) None fh of (p, fh) \<Rightarrow> (p, fh, w)))"

definition fdinit :: "'k hostos \<Rightarrow> fheap \<Rightarrow> 'k world \<Rightarrow> FDTable \<times> fheap \<times> 'k world" where
  "fdinit ho fh w =
     (case fdinit_one ho 0 (fh, w) of (p0, fh, w) \<Rightarrow>
      case fdinit_one ho 1 (fh, w) of (p1, fh, w) \<Rightarrow>
      case fdinit_one ho 2 (fh, w) of (p2, fh, w) \<Rightarrow>
        ((replicate LINUX_NOFILE None)[0 := p0, 1 := p1, 2 := p2], fh, w))"

text \<open>What the functions of a pipe do with the pipe end they are handed.\<close>

record 'k devops =
  dv_read :: "nat option \<Rightarrow> u64 \<Rightarrow> u64 \<Rightarrow> 'k world \<Rightarrow> (u64 \<times> 'k world) res"
  dv_write :: "nat option \<Rightarrow> u64 \<Rightarrow> u64 \<Rightarrow> 'k world \<Rightarrow> (u64 \<times> 'k world) res"
  dv_close :: "nat option \<Rightarrow> 'k world \<Rightarrow> (cint \<times> 'k world) res"

definition call_close :: "'k hostos \<Rightarrow> 'k devops \<Rightarrow> fheap \<Rightarrow> fnptr \<Rightarrow> nat option \<Rightarrow> 'k world \<Rightarrow> (cint \<times> 'k world) res" where
  "call_close ho dv fh fp dev w =
     (case fp of Uninit \<Rightarrow> Inl Uninitialised | Null \<Rightarrow> Inl NullDeref
      | KFile \<Rightarrow> kclose ho fh dev w | PipeFn \<Rightarrow> dv_close dv dev w)"

fun fdfree_loop ::
  "'k hostos \<Rightarrow> 'k devops \<Rightarrow> FDTable \<Rightarrow> fheap \<Rightarrow> 'k world \<Rightarrow> (FDTable \<times> fheap \<times> 'k world) res" where
  "fdfree_loop ho dv [] fh w = Inr ([], fh, w)"
| "fdfree_loop ho dv (p # t) fh w =
     (case p of
        None \<Rightarrow> rbind (fdfree_loop ho dv t fh w) (\<lambda>(t, fh, w). Inr (None # t, fh, w))
      | Some a \<Rightarrow>
          rbind (get_file fh (Some a)) (\<lambda>f.
          rbind (call_close ho dv fh (f_close f) (f_dev f) w) (\<lambda>(_, w).
          rbind (initialised (f_path f)) (\<lambda>_.
          rbind (fdfree_loop ho dv t (set_file fh a None) w) (\<lambda>(t, fh, w). Inr (None # t, fh, w))))))"

definition fdfree :: "'k hostos \<Rightarrow> 'k devops \<Rightarrow> FDTable \<Rightarrow> fheap \<Rightarrow> 'k world \<Rightarrow> (FDTable \<times> fheap \<times> 'k world) res" where
  "fdfree ho dv t fh w = fdfree_loop ho dv t fh w"

section \<open>Lemmas\<close>

lemma first_free_le: "first_free t \<le> length t"
  by (induction t) auto

lemma first_free_least: "j < first_free t \<Longrightarrow> t ! j \<noteq> None"
proof (induction t arbitrary: j)
  case (Cons x t)
  then show ?case by (cases j) (auto split: if_splits)
qed simp

lemma first_free_none: "first_free t < length t \<Longrightarrow> t ! first_free t = None"
  by (induction t) auto

lemma first_free_full: "first_free t = length t \<longleftrightarrow> None \<notin> set t"
  by (induction t) (auto intro: first_free_le)

lemma of_nat_fd:
  assumes "i < LINUX_NOFILE"
  shows "sint (of_nat i :: cint) = int i" "fd_in_range (of_nat i)"
proof -
  have "unat (of_nat i :: cint) = i"
    using assms by (simp only: unsigned_of_nat) (simp add: take_bit_nat_eq_self LINUX_NOFILE_def)
  then show "sint (of_nat i :: cint) = int i"
    using sint_small [of "of_nat i"] assms by (simp add: LINUX_NOFILE_def)
  then show "fd_in_range (of_nat i)" using assms by (simp add: fd_in_range_def)
qed

lemma add_refs_ok:
  "fh_files fh a = Some f \<Longrightarrow> f_refs f = Some r \<Longrightarrow>
   add_refs fh a d = Inr (set_file fh a (Some (f\<lparr>f_refs := Some (r + d)\<rparr>)))"
  by (simp add: add_refs_def get_file_def initialised_def)

lemma fdfget_open: "length t = LINUX_NOFILE \<Longrightarrow> i < LINUX_NOFILE \<Longrightarrow> fdfget t (of_nat i) = Inr (t ! i)"
  by (simp add: fdfget_def table_get_def of_nat_fd)

section \<open>Properties\<close>

text \<open>
  C34: handing out descriptors. \<open>fdfassign\<close> and \<open>dup\<close> (\<open>fdfdup2\<close> with \<open>-1\<close>) give the lowest free
  descriptor, count one more reference of the file and change nothing else, so that a lookup of the
  new descriptor finds the file; when the table is full they return \<open>-1\<close> and \<open>-EMFILE\<close> and change nothing.
\<close>

theorem fd_alloc_correct:
  assumes "length t = LINUX_NOFILE" "fh_files fh a = Some f" "f_refs f = Some r"
  shows "(None \<notin> set t \<longrightarrow> fdfassign fh t a = Inr (- 1, fh, t) \<and>
      (fd_in_range oldfd \<longrightarrow> fdfdup2 fh t oldfd (- 1) = Inr (- LINUX_EMFILE, fh, t))) \<and>
    (None \<in> set t \<longrightarrow> (\<exists>i fh' t'. i < LINUX_NOFILE \<and> t ! i = None \<and> (\<forall>j. j < i \<longrightarrow> t ! j \<noteq> None) \<and>
      fh' = set_file fh a (Some (f\<lparr>f_refs := Some (r + 1)\<rparr>)) \<and> t' = t[i := Some a] \<and>
      fdfassign fh t a = Inr (of_nat i, fh', t') \<and> fdfget t' (of_nat i) = Inr (Some a) \<and>
      (fd_in_range oldfd \<and> fdfget t oldfd = Inr (Some a) \<longrightarrow> fdfdup2 fh t oldfd (- 1) = Inr (of_nat i, fh', t'))))"
proof -
  let ?i = "first_free t"
  have m1: "sint (- 1 :: cint) = - 1" by simp
  have old: "\<exists>g. table_get t oldfd = Inr g \<and> (None \<notin> set t \<longrightarrow> g \<noteq> None)" if "fd_in_range oldfd"
  proof -
    have "nat (sint oldfd) < length t" "0 \<le> sint oldfd" using that assms(1) by (auto simp: fd_in_range_def)
    then show ?thesis using nth_mem [of "nat (sint oldfd)" t]
      by (cases "t ! nat (sint oldfd)") (auto simp: table_get_def)
  qed
  show ?thesis
  proof (cases "None \<in> set t")
    case False
    then have i: "?i = LINUX_NOFILE" using first_free_full [of t] assms(1) by simp
    have "fdfdup2 fh t oldfd (- 1) = Inr (- LINUX_EMFILE, fh, t)" if r: "fd_in_range oldfd"
      using old [OF r] False i r by (auto simp: fdfdup2_def fd_in_range_def)
    then show ?thesis using False i by (simp add: fdfassign_def)
  next
    case True
    then have i: "?i < LINUX_NOFILE" using first_free_full [of t] first_free_le [of t] assms(1) by linarith
    have "t ! ?i = None" "\<forall>j. j < ?i \<longrightarrow> t ! j \<noteq> None"
      using first_free_none [of t] first_free_least [of _ t] i assms(1) by auto
    moreover have "fdfdup2 fh t oldfd (- 1) = Inr (of_nat ?i, set_file fh a (Some (f\<lparr>f_refs := Some (r + 1)\<rparr>)), t[?i := Some a])"
      if "fd_in_range oldfd" "fdfget t oldfd = Inr (Some a)"
      using that i add_refs_ok [OF assms(2,3), of 1] by (simp add: fdfdup2_def fd_in_range_def fdfget_def Let_def)
    moreover have "fdfget (t[?i := Some a]) (of_nat ?i) = Inr (Some a)"
      using fdfget_open [of "t[?i := Some a]" ?i] i assms(1) by simp
    moreover have "fdfassign fh t a = Inr (of_nat ?i, set_file fh a (Some (f\<lparr>f_refs := Some (r + 1)\<rparr>)), t[?i := Some a])"
      using i add_refs_ok [OF assms(2,3), of 1] by (simp add: fdfassign_def Let_def)
    ultimately show ?thesis using True i by blast
  qed
qed

text \<open>
  \<open>dup2\<close>. For an open descriptor and a free target in range, \<open>fdfdup2\<close> makes the target refer to
  the same file and counts the reference; a descriptor that is out of range or not open, or a target
  that is in use, gives \<open>-EBADF\<close> and changes nothing.
\<close>

theorem fdfdup2_correct:
  assumes "length t = LINUX_NOFILE" "fh_files fh a = Some f" "f_refs f = Some r"
  shows "(fd_in_range oldfd \<and> fd_in_range newfd \<and> fdfget t oldfd = Inr (Some a) \<and> fdfget t newfd = Inr None \<longrightarrow>
      fdfdup2 fh t oldfd newfd =
        Inr (newfd, set_file fh a (Some (f\<lparr>f_refs := Some (r + 1)\<rparr>)), t[nat (sint newfd) := Some a])) \<and>
    (fdfget t oldfd = Inr None \<or> (fd_in_range newfd \<and> fdfget t newfd \<noteq> Inr None) \<or> (\<not> fd_in_range newfd \<and> newfd \<noteq> - 1) \<longrightarrow>
      fdfdup2 fh t oldfd newfd = Inr (- LINUX_EBADF, fh, t))"
proof -
  have get: "\<exists>g. table_get t fd = Inr g \<and> fdfget t fd = Inr g" if "fd_in_range fd" for fd
    using that assms(1) by (auto simp: table_get_def fd_in_range_def fdfget_def)
  have m1: "fd_in_range fd \<Longrightarrow> fd \<noteq> - 1" for fd by (auto simp: fd_in_range_def)
  have "fdfdup2 fh t oldfd newfd =
        Inr (newfd, set_file fh a (Some (f\<lparr>f_refs := Some (r + 1)\<rparr>)), t[nat (sint newfd) := Some a])"
    if "fd_in_range oldfd" "fd_in_range newfd" "fdfget t oldfd = Inr (Some a)" "fdfget t newfd = Inr None"
    using that m1 [OF that(2)] add_refs_ok [OF assms(2,3), of 1] by (simp add: fdfdup2_def fd_in_range_def fdfget_def)
  moreover have "fdfdup2 fh t oldfd newfd = Inr (- LINUX_EBADF, fh, t)"
    if bad: "fdfget t oldfd = Inr None \<or> (fd_in_range newfd \<and> fdfget t newfd \<noteq> Inr None) \<or> (\<not> fd_in_range newfd \<and> newfd \<noteq> - 1)"
  proof (cases "fd_in_range oldfd \<and> (newfd = - 1 \<or> fd_in_range newfd)")
    case False
    have "newfd = - 1" if "sint newfd = - 1"
    proof (rule signed_word_eqI)
      show "sint newfd = sint (- 1 :: cint)" using that by simp
    qed
    then have "newfd = - 1 \<or> sint newfd < - 1 \<or> sint newfd > - 1" by linarith
    with False have "sint oldfd < 0 \<or> sint oldfd \<ge> int LINUX_NOFILE \<or> sint newfd < - 1 \<or> sint newfd \<ge> int LINUX_NOFILE"
      by (auto simp: fd_in_range_def)
    then show ?thesis unfolding fdfdup2_def by (rule if_P)
  next
    case True
    then show ?thesis using bad get [of oldfd] get [of newfd] m1
      by (auto simp: fdfdup2_def fd_in_range_def split: option.splits)
  qed
  ultimately show ?thesis by blast
qed

text \<open>
  Closing a descriptor. \<open>fdfclose\<close> refuses a descriptor that is out of range or not open; otherwise
  it frees exactly that descriptor. The file itself is kept, with no reference left, when the
  descriptor was the last one, and freed when other references remain: every other descriptor of the
  file then refers to freed memory.
\<close>

theorem fdfclose_correct:
  assumes "length t = LINUX_NOFILE"
  shows "(fdfget t fd = Inr None \<longrightarrow> fdfclose fh t fd = Inr (False, fh, t)) \<and>
    (fdfget t fd = Inr (Some a) \<and> fh_files fh a = Some f \<and> f_refs f = Some r \<and> f_path f \<noteq> None \<and> f_close f \<in> {KFile, PipeFn} \<longrightarrow>
      (\<exists>fh' t'. fdfclose fh t fd = Inr (True, fh', t') \<and> t' = t[nat (sint fd) := None] \<and>
        (\<forall>b. b \<noteq> a \<longrightarrow> fh_files fh' b = fh_files fh b) \<and>
        fh_files fh' a = (if r = 1 then Some (f\<lparr>f_refs := Some 0\<rparr>) else None) \<and>
        (\<forall>fd2. fdfget t fd2 = Inr (Some a) \<and> fd2 \<noteq> fd \<longrightarrow> fdfget t' fd2 = Inr (Some a) \<and>
           (r \<noteq> 1 \<longrightarrow> get_file fh' (Some a) = Inl UseAfterFree))))"
proof -
  have "fdfclose fh t fd = Inr (False, fh, t)" if "fdfget t fd = Inr None"
    using that by (auto simp: fdfclose_def fdfget_def split: if_splits)
  moreover have "\<exists>fh' t'. fdfclose fh t fd = Inr (True, fh', t') \<and> t' = t[nat (sint fd) := None] \<and>
        (\<forall>b. b \<noteq> a \<longrightarrow> fh_files fh' b = fh_files fh b) \<and>
        fh_files fh' a = (if r = 1 then Some (f\<lparr>f_refs := Some 0\<rparr>) else None) \<and>
        (\<forall>fd2. fdfget t fd2 = Inr (Some a) \<and> fd2 \<noteq> fd \<longrightarrow> fdfget t' fd2 = Inr (Some a) \<and>
           (r \<noteq> 1 \<longrightarrow> get_file fh' (Some a) = Inl UseAfterFree))"
    if p: "fdfget t fd = Inr (Some a)" "fh_files fh a = Some f" "f_refs f = Some r" "f_path f \<noteq> None" "f_close f \<in> {KFile, PipeFn}"
  proof -
    let ?f = "f\<lparr>f_refs := Some (r + (- 1))\<rparr>"
    let ?h = "set_file fh a (Some ?f)"
    let ?fh = "if r = 1 then ?h else (set_file ?h a None)\<lparr>fh_misuse := True\<rparr>"
    have r0: "f_refs ?f = Some 0 \<longleftrightarrow> r = 1" by auto
    have "filefree (Some a) fh = Inr ?fh"
      using add_refs_ok [OF p(2,3), of "- 1"] r0 p(4,5)
      by (auto simp: filefree_def get_file_def set_file_def initialised_def)
    moreover have fd: "fd_in_range fd" "table_get t fd = Inr (Some a)"
      using p(1) by (auto simp: fdfget_def split: if_splits)
    ultimately have "fdfclose fh t fd = Inr (True, ?fh, t[nat (sint fd) := None])"
      by (simp add: fdfclose_def)
    moreover have "fdfget (t[nat (sint fd) := None]) fd2 = Inr (Some a)" if "fdfget t fd2 = Inr (Some a)" "fd2 \<noteq> fd" for fd2
    proof -
      have r2: "fd_in_range fd2" "table_get t fd2 = Inr (Some a)" using that(1) by (auto simp: fdfget_def split: if_splits)
      have "sint fd2 \<noteq> sint fd" using that(2) signed_word_eqI [of fd2 fd] by blast
      then have "nat (sint fd2) \<noteq> nat (sint fd)" using r2(1) fd(1) by (simp add: fd_in_range_def eq_nat_nat_iff)
      then show ?thesis using r2 by (auto simp: fdfget_def table_get_def split: if_splits)
    qed
    ultimately show ?thesis by (intro exI [of _ ?fh] exI [of _ "t[nat (sint fd) := None]"]) (simp add: set_file_def get_file_def)
  qed
  ultimately show ?thesis by blast
qed

text \<open>
  A fresh descriptor table. After \<open>fdinit\<close> the three standard streams are open with reference count 0,
  and the other descriptors are free.
\<close>

lemma fdinit_table:
  assumes "fh_oom fh = (\<lambda>_. False)"
  shows "\<exists>t fh' w'. fdinit ho fh w = (t, fh', w') \<and> length t = LINUX_NOFILE \<and> first_free t = 3 \<and>
    t ! 0 = Some (fh_next fh) \<and> t ! 1 = Some (Suc (fh_next fh)) \<and> t ! 2 = Some (Suc (Suc (fh_next fh)))"
proof -
  have table: "(replicate LINUX_NOFILE None)[0 := a, 1 := b, 2 := c] = a # b # c # replicate 1021 None" for a b c :: "nat option"
    by (simp add: LINUX_NOFILE_def eval_nat_numeral)
  obtain r0 w0 where 0: "ho (H_dup 0) w = (r0, w0)" by (cases "ho (H_dup 0) w")
  obtain r1 w1 where 1: "ho (H_dup 1) w0 = (r1, w1)" by (cases "ho (H_dup 1) w0")
  obtain r2 w2 where 2: "ho (H_dup 2) w1 = (r2, w2)" by (cases "ho (H_dup 2) w1")
  show ?thesis
    unfolding fdinit_def fdinit_one_def
    using assms by (simp add: 0 1 2 filenew_def Let_def set_file_def table) (simp add: LINUX_NOFILE_def eval_nat_numeral)
qed

section \<open>Concrete runs\<close>

definition demo_file :: "u64 \<Rightarrow> FDFile" where
  "demo_file r = \<lparr>f_dev = Some 0, f_refs = Some r, f_read = KFile, f_write = KFile, f_lseek = KFile, f_close = KFile,
     f_stat = KFile, f_getdents = KFile, f_chown = KFile, f_chmod = KFile, f_truncate = KFile, f_sync = KFile,
     f_ioctl = KFile, f_kfd = Some 7, f_path = Some None\<rparr>"

definition demo_fheap :: fheap where
  "demo_fheap = \<lparr>fh_files = [0 \<mapsto> demo_file 2], fh_next = 1, fh_oom = (\<lambda>_. False), fh_misuse = False\<rparr>"

definition demo_table :: FDTable where
  "demo_table = Some 0 # Some 0 # replicate 1022 None"

lemma demo_table_facts:
  "length demo_table = LINUX_NOFILE" "None \<in> set demo_table" "fh_files demo_fheap 0 = Some (demo_file 2)" "f_refs (demo_file 2) = Some 2"
  "fdfget demo_table 0 = Inr (Some 0)" "fdfget demo_table 1 = Inr (Some 0)" "fdfget demo_table 5 = Inr None"
  "fd_in_range 0" "fd_in_range 5"
  by (simp_all add: demo_table_def LINUX_NOFILE_def demo_fheap_def demo_file_def fdfget_def table_get_def fd_in_range_def)

theorem fd_alloc_correct_witness:
  "\<exists>i fh' t'. demo_table ! i = None \<and> fdfassign demo_fheap demo_table 0 = Inr (of_nat i, fh', t') \<and>
     fdfget t' (of_nat i) = Inr (Some 0) \<and> fdfdup2 demo_fheap demo_table 0 (- 1) = Inr (of_nat i, fh', t')"
  using fd_alloc_correct [OF demo_table_facts(1,3,4), of 0] demo_table_facts by blast

theorem fdfdup2_correct_witness:
  "fdfdup2 demo_fheap demo_table 0 5 =
     Inr (5, set_file demo_fheap 0 (Some ((demo_file 2)\<lparr>f_refs := Some 3\<rparr>)), demo_table[5 := Some 0]) \<and>
   fdfdup2 demo_fheap demo_table 5 0 = Inr (- LINUX_EBADF, demo_fheap, demo_table)"
  using fdfdup2_correct [OF demo_table_facts(1,3,4), of 0 5] fdfdup2_correct [OF demo_table_facts(1,3,4), of 5 0] demo_table_facts
  by simp

theorem fdfclose_correct_witness:
  "\<exists>fh' t'. fdfclose demo_fheap demo_table 0 = Inr (True, fh', t') \<and> fdfget t' 1 = Inr (Some 0) \<and>
     get_file fh' (Some 0) = Inl UseAfterFree"
  using fdfclose_correct [OF demo_table_facts(1), of 0 demo_fheap 0 "demo_file 2" 2] demo_table_facts
  by (auto simp: demo_file_def)

end
