(* ===== verification/Pipe.thy ===== *)
theory Pipe
  imports Sched Fd
begin

text \<open>
  Pipes between sandboxes: \<open>lps-linux/sys/sys_pipe.c\<close>. A pipe is a ring of \<open>PIPESZ\<close> bytes with two running
  64 bit counters and two wait queues. Threads are scheduled cooperatively: a pipe operation runs until
  it returns or blocks in \<open>rrschedblock\<close>. The model of an operation is this stretch; a blocked operation
  starts again at the head of its loop, which for a writer means with the bytes it has not yet
  written. The bytes an operation copies from or to the caller's buffer are given as lists.
\<close>

section \<open>Pipes\<close>

abbreviation PIPESZ :: u64 where "PIPESZ \<equiv> 65536"
abbreviation NPIPE :: nat where "NPIPE \<equiv> 64"

record Pipe =
  p_data :: "u8 list option"
  p_writeopen :: bool
  p_readopen :: bool
  p_allocated :: bool
  p_nread :: u64
  p_nwrite :: u64
  p_readq :: nat
  p_writeq :: nat

text \<open>The static array \<open>pipes\<close>, and the allocated \<open>PipeEnd\<close>s: the number of the pipe and \<open>is_read\<close>.\<close>

record pworld =
  pw_pipes :: "Pipe list"
  pw_ends :: "nat \<Rightarrow> (nat \<times> bool) option"

type_synonym pstate = "pworld sched"

definition get_pipe :: "nat \<Rightarrow> pstate \<Rightarrow> Pipe" where
  "get_pipe i s = pw_pipes (sc_world s) ! i"

definition set_pipe :: "nat \<Rightarrow> Pipe \<Rightarrow> pstate \<Rightarrow> pstate" where
  "set_pipe i p s = s\<lparr>sc_world := (sc_world s)\<lparr>pw_pipes := (pw_pipes (sc_world s))[i := p]\<rparr>\<rparr>"

definition get_end :: "nat \<Rightarrow> pstate \<Rightarrow> (nat \<times> bool) res" where
  "get_end dev s =
     (case pw_ends (sc_world s) dev of
        None \<Rightarrow> Inl UseAfterFree
      | Some (i, b) \<Rightarrow> if i < length (pw_pipes (sc_world s)) then Inr (i, b) else Inl OutOfBounds)"

section \<open>Copying\<close>

text \<open>The part of a request that does not cross the end of the ring.\<close>

definition chunk_len :: "u64 \<Rightarrow> u64 \<Rightarrow> u64" where
  "chunk_len pos len = (if pos + len > PIPESZ then PIPESZ - pos else len)"

lemma unat_mod_PIPESZ: "unat (c mod PIPESZ) = unat c mod 65536" "unat (c mod PIPESZ) < 65536"
  by (simp_all add: unat_mod)

lemma chunk_len_bounds:
  assumes "0 < len"
  shows "0 < unat (chunk_len (c mod PIPESZ) len)" "unat (chunk_len (c mod PIPESZ) len) \<le> unat len"
proof -
  let ?pos = "c mod PIPESZ"
  have pos: "unat ?pos < 65536" by (rule unat_mod_PIPESZ)
  have len: "0 < unat len" using assms by (simp add: u64_less_iff)
  have d: "unat (PIPESZ - ?pos) = 65536 - unat ?pos" using pos by (subst unat_sub) (simp_all add: u64_le_iff)
  have "unat (?pos + len) \<le> unat ?pos + unat len" by (simp add: unat_add_wrap)
  then show "0 < unat (chunk_len ?pos len)" "unat (chunk_len ?pos len) \<le> unat len"
    using pos len d by (auto simp: chunk_len_def u64_less_iff)
qed

text \<open>
  The copy loop of \<open>pipe_read\<close>; left is \<open>to_read - copied\<close>. It yields the bytes copied, in order, and
  the new counter. Copying from beyond the buffer is a fault.
\<close>

function read_loop :: "u8 list \<Rightarrow> u64 \<Rightarrow> u64 \<Rightarrow> (u8 list \<times> u64) res" where
  "read_loop d nread left =
     (if 0 < left then
        (let read_pos = nread mod PIPESZ; chunk = chunk_len read_pos left in
         if unat read_pos + unat chunk > length d then Inl OutOfBounds
         else
           rbind (read_loop d (nread + chunk) (left - chunk)) (\<lambda>(bs, nread).
           Inr (take (unat chunk) (drop (unat read_pos) d) @ bs, nread)))
      else Inr ([], nread))"
  by pat_completeness auto
termination
proof (relation "measure (\<lambda>(d, r, l). unat l)")
  fix d :: "u8 list" and nread left x xa :: u64
  assume a: "0 < left" and x: "x = nread mod PIPESZ" "xa = chunk_len x left"
  have b: "0 < unat xa" "unat xa \<le> unat left" using chunk_len_bounds [OF a, of nread] x by simp_all
  then have "unat (left - xa) = unat left - unat xa" by (simp add: unat_sub u64_le_iff)
  then show "((d, nread + xa, left - xa), (d, nread, left)) \<in> measure (\<lambda>(d, r, l). unat l)" using b by simp
qed simp

declare read_loop.simps [simp del]

text \<open>
  The loop of \<open>pipe_write\<close> on the pipe itself: it stops when all bytes are written, when the reading end
  is closed, or when the ring is full, with the bytes that are left.
\<close>

definition to_write :: "nat \<Rightarrow> u64 \<Rightarrow> u64" where
  "to_write n avail_space = (if n > unat avail_space then avail_space else of_nat n)"

lemma unat_to_write: "unat (to_write n avail_space) = min n (unat avail_space)"
proof (cases "n > unat avail_space")
  case False
  moreover have "unat avail_space < 2 ^ 64" by simp
  ultimately have "n < 2 ^ 64" by linarith
  then show ?thesis using False by (simp add: to_write_def unat_of_nat_u64)
qed (simp add: to_write_def)

datatype put_res = Put_done | Put_closed | Put_full "u8 list"

function write_loop :: "u8 list \<Rightarrow> Pipe \<Rightarrow> (put_res \<times> Pipe) res" where
  "write_loop src p =
     (if src = [] then Inr (Put_done, p)
      else if \<not> p_readopen p then Inr (Put_closed, p)
      else
        (let avail_space = PIPESZ - (p_nwrite p - p_nread p) in
         if avail_space = 0 then Inr (Put_full src, p)
         else
           (let write_pos = p_nwrite p mod PIPESZ;
                chunk = chunk_len write_pos (to_write (length src) avail_space) in
            (case p_data p of
               None \<Rightarrow> Inl NullDeref
             | Some d \<Rightarrow>
                 (if unat write_pos + unat chunk > length d then Inl OutOfBounds
                  else
                    (let d = take (unat write_pos) d @ take (unat chunk) src @ drop (unat write_pos + unat chunk) d
                     in write_loop (drop (unat chunk) src) (p\<lparr>p_data := Some d, p_nwrite := p_nwrite p + chunk\<rparr>)))))))"
  by pat_completeness auto
termination
proof (relation "measure (\<lambda>(src, p). length src)", goal_cases)
  case (2 src p x xa xb d xd)
  have "0 < unat x" using 2(4) by (simp only: unat_gt_0 not_False_eq_True)
  then have "0 < unat (to_write (length src) x)" using 2(1) by (simp add: unat_to_write)
  then have "0 < unat xb" using chunk_len_bounds(1) [of "to_write (length src) x" "p_nwrite p"] 2 by (simp add: u64_less_iff)
  then show ?case using 2 by simp
qed simp

declare write_loop.simps [simp del]

section \<open>Operations\<close>

datatype read_out = R_blocked | R_returned "u8 list"
datatype write_out = W_blocked "u8 list" | W_returned u64

text \<open>\<open>rrschedwake\<close> with a continuation; None is a loop that does not end.\<close>

definition wake_then :: "nat \<Rightarrow> pstate \<Rightarrow> (pstate \<Rightarrow> 'a res option) \<Rightarrow> 'a res option" where
  "wake_then q s f =
     (case rrschedwake q s of None \<Rightarrow> None | Some (Inl e) \<Rightarrow> Some (Inl e) | Some (Inr s) \<Rightarrow> f s)"

text \<open>How many of the n requested bytes a read returns.\<close>

definition read_amount :: "u64 \<Rightarrow> Pipe \<Rightarrow> u64" where
  "read_amount n pipe = (let avail = p_nwrite pipe - p_nread pipe in if n < avail then n else avail)"

definition pipe_read :: "nat \<Rightarrow> nat \<Rightarrow> u64 \<Rightarrow> pstate \<Rightarrow> (read_out \<times> pstate) res option" where
  "pipe_read t dev n s =
     (case get_end dev s of
        Inl e \<Rightarrow> Some (Inl e)
      | Inr (i, _) \<Rightarrow>
          (let pipe = get_pipe i s in
           if p_nread pipe = p_nwrite pipe \<and> p_writeopen pipe then
             Some (rbind (rrschedblock (p_readq pipe) t s) (\<lambda>s. Inr (R_blocked, s)))
           else
             (let to_read = read_amount n pipe in
              case (case p_data pipe of
                      None \<Rightarrow> if 0 < to_read then Inl NullDeref else Inr ([], p_nread pipe)
                    | Some d \<Rightarrow> read_loop d (p_nread pipe) to_read) of
                Inl e \<Rightarrow> Some (Inl e)
              | Inr (bs, nread) \<Rightarrow>
                  wake_then (p_writeq pipe) (set_pipe i (pipe\<lparr>p_nread := nread\<rparr>) s) (\<lambda>s.
                  Some (Inr (R_returned bs, s))))))"

text \<open>src holds the bytes still to be written, n is the size of the whole request.\<close>

definition pipe_write :: "nat \<Rightarrow> nat \<Rightarrow> u8 list \<Rightarrow> u64 \<Rightarrow> pstate \<Rightarrow> (write_out \<times> pstate) res option" where
  "pipe_write t dev src n s =
     (case get_end dev s of
        Inl e \<Rightarrow> Some (Inl e)
      | Inr (i, _) \<Rightarrow>
          (case write_loop src (get_pipe i s) of
             Inl e \<Rightarrow> Some (Inl e)
           | Inr (r, pipe) \<Rightarrow>
               (let s = set_pipe i pipe s in
                case r of
                  Put_closed \<Rightarrow> Some (Inr (W_returned (- 1), s))
                | Put_full rest \<Rightarrow>
                    wake_then (p_readq pipe) s (\<lambda>s.
                    Some (rbind (rrschedblock (p_writeq pipe) t s) (\<lambda>s. Inr (W_blocked rest, s))))
                | Put_done \<Rightarrow> wake_then (p_readq pipe) s (\<lambda>s. Some (Inr (W_returned n, s))))))"

definition pipe_close :: "nat \<Rightarrow> pstate \<Rightarrow> (cint \<times> pstate) res option" where
  "pipe_close dev s =
     (case get_end dev s of
        Inl e \<Rightarrow> Some (Inl e)
      | Inr (i, is_read) \<Rightarrow>
          (let pipe = get_pipe i s;
               pipe = (if is_read then pipe\<lparr>p_readopen := False\<rparr> else pipe\<lparr>p_writeopen := False\<rparr>);
               q = (if is_read then p_writeq pipe else p_readq pipe) in
           wake_then q (set_pipe i pipe s) (\<lambda>s.
           let pipe = get_pipe i s;
               pipe = (if \<not> p_readopen pipe \<and> \<not> p_writeopen pipe
                       then pipe\<lparr>p_data := None, p_allocated := False\<rparr> else pipe);
               s = set_pipe i pipe s;
               s = s\<lparr>sc_world := (sc_world s)\<lparr>pw_ends := (pw_ends (sc_world s))(dev := None)\<rparr>\<rparr> in
           Some (Inr (0, s)))))"

section \<open>Creation\<close>

text \<open>A file structure as \<open>pipe_new\<close> leaves it: most members keep what \<open>malloc\<close> returned.\<close>

definition pipe_file :: "nat \<Rightarrow> fnptr \<Rightarrow> fnptr \<Rightarrow> FDFile" where
  "pipe_file dev rd wr = \<lparr>f_dev = Some dev, f_refs = None, f_read = rd, f_write = wr, f_lseek = Uninit, f_close = PipeFn,
     f_stat = Uninit, f_getdents = Uninit, f_chown = Uninit, f_chmod = Uninit, f_truncate = Uninit, f_sync = Uninit,
     f_ioctl = Uninit, f_kfd = None, f_path = None\<rparr>"

fun find_pipe :: "Pipe list \<Rightarrow> nat option" where
  "find_pipe [] = None"
| "find_pipe (p # ps) = (if \<not> p_allocated p then Some 0 else map_option Suc (find_pipe ps))"

text \<open>
  The flags tell which of the five allocations fail: the buffer, the two files, the two ends. e0, e1, f0
  and f1 are the addresses of the new ends and files.
\<close>

record pipe_mem =
  pm_data :: bool
  pm_f0 :: bool
  pm_f1 :: bool
  pm_e0 :: bool
  pm_e1 :: bool

definition pipe_new ::
  "pipe_mem \<Rightarrow> nat \<Rightarrow> nat \<Rightarrow> nat \<Rightarrow> nat \<Rightarrow> fheap \<Rightarrow> pstate \<Rightarrow> (bool \<times> fheap \<times> pstate) res" where
  "pipe_new ok e0 e1 f0 f1 fh s =
     (case find_pipe (pw_pipes (sc_world s)) of
        None \<Rightarrow> Inr (False, fh, s)
      | Some i \<Rightarrow>
          (let pipe = (get_pipe i s)\<lparr>p_allocated := True, p_readopen := True, p_writeopen := True, p_nread := 0, p_nwrite := 0\<rparr> in
           rbind (queue_init (sc_heap s) (p_readq pipe)) (\<lambda>h.
           rbind (queue_init h (p_writeq pipe)) (\<lambda>h.
           let s = s\<lparr>sc_heap := h\<rparr> in
           if \<not> pm_data ok then
             Inr (False, fh, set_pipe i (pipe\<lparr>p_data := None, p_allocated := False\<rparr>) s)
           else
             (let d = replicate (unat PIPESZ) 0; pipe = pipe\<lparr>p_data := Some d\<rparr> in
              if \<not> pm_f0 ok \<or> \<not> pm_f1 ok then
                Inr (False, fh, set_pipe i (pipe\<lparr>p_allocated := False\<rparr>) s)
              else if \<not> pm_e0 ok \<or> \<not> pm_e1 ok then
                Inr (False, fh, set_pipe i (pipe\<lparr>p_allocated := False\<rparr>) s)
              else
                (let s = set_pipe i pipe s;
                     s = s\<lparr>sc_world := (sc_world s)\<lparr>pw_ends := (pw_ends (sc_world s))(e0 \<mapsto> (i, True), e1 \<mapsto> (i, False))\<rparr>\<rparr>;
                     fh = set_file (set_file fh f0 (Some (pipe_file e0 PipeFn Null))) f1 (Some (pipe_file e1 Null PipeFn))
                 in Inr (True, fh, s)))))))"

definition free_files :: "nat \<Rightarrow> nat \<Rightarrow> fheap \<Rightarrow> fheap" where
  "free_files f0 f1 fh = set_file (set_file fh f0 None) f1 None"

definition sys_pipe2 ::
  "pipe_mem \<Rightarrow> nat \<Rightarrow> nat \<Rightarrow> nat \<Rightarrow> nat \<Rightarrow> u64 \<Rightarrow> FDTable \<Rightarrow> fheap \<Rightarrow> memory \<Rightarrow> pstate \<Rightarrow>
   (cint \<times> FDTable \<times> fheap \<times> memory \<times> pstate) res" where
  "sys_pipe2 ok e0 e1 f0 f1 pipefd t fh m s =
     rbind (pipe_new ok e0 e1 f0 f1 fh s) (\<lambda>(created, fh, s).
     if \<not> created then Inr (- 1, t, fh, m, s)
     else
       rbind (fdfassign fh t f0) (\<lambda>(fd0, fh, t).
       if sint fd0 < 0 then Inr (- 1, t, free_files f0 f1 fh, m, s)
       else
         rbind (fdfassign fh t f1) (\<lambda>(fd1, fh, t).
         if sint fd1 < 0 then Inr (- 1, t, free_files f0 f1 fh, m, s)
         else
           Inr (0, t, fh, store_fields pipefd [(0, 4, ucast fd0), (4, 4, ucast fd1)] m, s))))"

text \<open>The table of the reading process is first, the one of the writing process second.\<close>

definition lps_pipe_new ::
  "pipe_mem \<Rightarrow> nat \<Rightarrow> nat \<Rightarrow> nat \<Rightarrow> nat \<Rightarrow> FDTable \<Rightarrow> cint \<Rightarrow> FDTable \<Rightarrow> cint \<Rightarrow> fheap \<Rightarrow> pstate \<Rightarrow>
   (bool \<times> FDTable \<times> FDTable \<times> fheap \<times> pstate) res" where
  "lps_pipe_new ok e0 e1 f0 f1 to_t tofd from_t fromfd fh s =
     rbind (pipe_new ok e0 e1 f0 f1 fh s) (\<lambda>(created, fh, s).
     if \<not> created then Inr (False, to_t, from_t, fh, s)
     else
       rbind (fdassign to_t tofd f0) (\<lambda>(r, to_t).
       if sint r < 0 then Inr (False, to_t, from_t, free_files f0 f1 fh, s)
       else
         rbind (fdassign from_t fromfd f1) (\<lambda>(r, from_t).
         if sint r < 0 then Inr (False, to_t, from_t, free_files f0 f1 fh, s)
         else Inr (True, to_t, from_t, fh, s))))"

end
