(* ===== verification/Pipe_Spec.thy ===== *)
theory Pipe_Spec
  imports Pipe
begin

text \<open>
  Correctness of pipes: the copy loops against the list of bytes in the ring, the operations with their
  scheduling, and the interleavings of a reader and a writer.
\<close>

section \<open>The ring of bytes\<close>

lemma rotated_mod: "rotated d (h mod length d) k = rotated d h k"
  by (simp add: rotated_def mod_simps)

lemma rotated_append: "rotated d h (a + b) = rotated d h a @ rotated d (h + a) b"
proof (rule nth_equalityI)
  fix i assume "i < length (rotated d h (a + b))"
  then have i: "i < a + b" by simp
  show "rotated d h (a + b) ! i = (rotated d h a @ rotated d (h + a) b) ! i"
  proof (cases "i < a")
    case False
    then have "[0 ..< b] ! (i - a) = i - a" using i by (subst nth_upt) simp_all
    then show ?thesis using i False by (simp add: rotated_def nth_append add.assoc)
  qed (simp add: rotated_def nth_append)
qed simp

lemma rotated_flat: "h + k \<le> length d \<Longrightarrow> rotated d h k = take k (drop h d)"
  by (rule nth_equalityI) (auto simp: rotated_def)

lemma rotated_wrap:
  assumes "length d = 65536"
  shows "rotated d (unat (a + b :: u64)) k = rotated d (unat a + unat b) k"
proof -
  have "unat (a + b) mod 65536 = (unat a + unat b) mod 65536"
    by (simp add: unat_add_wrap mod_mod_cancel)
  then show ?thesis
    using rotated_mod [of d "unat (a + b)" k] rotated_mod [of d "unat a + unat b" k] assms by simp
qed

lemma chunk_len_flat:
  assumes "unat len \<le> 65536"
  shows "unat (c mod PIPESZ) + unat (chunk_len (c mod PIPESZ) len) \<le> 65536"
proof -
  have pos: "unat (c mod PIPESZ) < 65536" by (rule unat_mod_PIPESZ)
  have "unat (PIPESZ - c mod PIPESZ) = 65536 - unat (c mod PIPESZ)"
    using pos by (subst unat_sub) (simp_all add: u64_le_iff)
  moreover have "unat (c mod PIPESZ + len) = unat (c mod PIPESZ) + unat len"
    using pos assms by (intro unat_add_nowrap) simp
  ultimately show ?thesis using pos by (simp add: chunk_len_def u64_less_iff)
qed

lemma read_loop_ok:
  assumes "length d = 65536"
  shows "unat left \<le> 65536 \<Longrightarrow> read_loop d nread left = Inr (rotated d (unat nread) (unat left), nread + left)"
proof (induction "unat left" arbitrary: nread left rule: less_induct)
  case less
  show ?case
  proof (cases "left = 0")
    case True
    then show ?thesis by (subst read_loop.simps) simp
  next
    case False
    then have pos: "0 < left" by (simp add: word_neq_0_conv)
    let ?p = "nread mod PIPESZ" and ?c = "chunk_len (nread mod PIPESZ) left"
    have c: "0 < unat ?c" "unat ?c \<le> unat left" using chunk_len_bounds [OF pos] by simp_all
    have flat: "unat ?p + unat ?c \<le> length d" using chunk_len_flat [OF less.prems] assms by simp
    have l: "unat (left - ?c) = unat left - unat ?c" using c(2) by (simp add: unat_sub u64_le_iff)
    have IH: "read_loop d (nread + ?c) (left - ?c) =
        Inr (rotated d (unat (nread + ?c)) (unat (left - ?c)), nread + ?c + (left - ?c))"
      using less.hyps [of "left - ?c"] less.prems l c by simp
    have "take (unat ?c) (drop (unat ?p) d) = rotated d (unat nread) (unat ?c)"
      using rotated_flat [OF flat] rotated_mod [of d "unat nread"] assms by (simp add: unat_mod)
    moreover have "rotated d (unat nread) (unat left) =
        rotated d (unat nread) (unat ?c) @ rotated d (unat (nread + ?c)) (unat (left - ?c))"
      using rotated_append [of d "unat nread" "unat ?c" "unat left - unat ?c"] c(2) l rotated_wrap [OF assms] by simp
    ultimately show ?thesis
      using pos flat IH by (subst read_loop.simps) (simp add: Let_def)
  qed
qed

text \<open>The bytes in a pipe.\<close>

definition pipe_ok :: "Pipe \<Rightarrow> u8 list \<Rightarrow> bool" where
  "pipe_ok p xs \<longleftrightarrow> (\<exists>d. p_data p = Some d \<and> length d = 65536 \<and> length xs \<le> 65536 \<and>
     unat (p_nwrite p - p_nread p) = length xs \<and> xs = rotated d (unat (p_nread p)) (length xs))"

lemma rotated_take: "k \<le> n \<Longrightarrow> take k (rotated d h n) = rotated d h k"
  and rotated_drop: "k \<le> n \<Longrightarrow> drop k (rotated d h n) = rotated d (h + k) (n - k)"
  using rotated_append [of d h k "n - k"] by simp_all

lemma pipe_take:
  assumes "pipe_ok p xs" "p_data p = Some d" "unat k \<le> length xs"
  shows "read_loop d (p_nread p) k = Inr (take (unat k) xs, p_nread p + k)"
    "pipe_ok (p\<lparr>p_nread := p_nread p + k\<rparr>) (drop (unat k) xs)"
proof -
  have d: "length d = 65536" "length xs \<le> 65536" "unat (p_nwrite p - p_nread p) = length xs"
      "xs = rotated d (unat (p_nread p)) (length xs)"
    using assms(1,2) by (auto simp: pipe_ok_def)
  show "read_loop d (p_nread p) k = Inr (take (unat k) xs, p_nread p + k)"
    using read_loop_ok [OF d(1), of k "p_nread p"] assms(3) d(2) arg_cong [OF d(4), of "take (unat k)"]
      rotated_take [OF assms(3), of d "unat (p_nread p)"] by simp
  have "k \<le> p_nwrite p - p_nread p" using assms(3) d(3) by (simp add: u64_le_iff)
  then have "unat (p_nwrite p - (p_nread p + k)) = length xs - unat k"
    using unat_sub [of k "p_nwrite p - p_nread p"] d(3) by (simp add: algebra_simps)
  moreover have "drop (unat k) xs = rotated d (unat (p_nread p + k)) (length xs - unat k)"
    using arg_cong [OF d(4), of "drop (unat k)"] rotated_drop [OF assms(3), of d "unat (p_nread p)"]
      rotated_wrap [OF d(1), of "p_nread p" k] by simp
  ultimately show "pipe_ok (p\<lparr>p_nread := p_nread p + k\<rparr>) (drop (unat k) xs)"
    using assms(2) d(1,2) by (simp add: pipe_ok_def)
qed

lemma nth_splice:
  assumes "pos + length ys \<le> length d" "x < length d"
  shows "(take pos d @ ys @ drop (pos + length ys) d) ! x = (if pos \<le> x \<and> x < pos + length ys then ys ! (x - pos) else d ! x)"
  using assms by (auto simp: nth_append min_def)

lemma rotated_splice:
  assumes "length d = m" "k + length ys \<le> m" "pos = (h + k) mod m" "pos + length ys \<le> m" "0 < m"
  shows "rotated (take pos d @ ys @ drop (pos + length ys) d) h (k + length ys) = rotated d h k @ ys"
proof (rule nth_equalityI)
  let ?d = "take pos d @ ys @ drop (pos + length ys) d"
  have len: "length ?d = m" using assms by simp
  fix i assume "i < length (rotated ?d h (k + length ys))"
  then have i: "i < k + length ys" by simp
  let ?x = "(h + i) mod m"
  have x: "?x < m" using assms(5) by simp
  have L: "rotated ?d h (k + length ys) ! i = ?d ! ?x" using i len by (simp add: rotated_def)
  show "rotated ?d h (k + length ys) ! i = (rotated d h k @ ys) ! i"
  proof (cases "i < k")
    case True
    have no: "\<not> (pos \<le> ?x \<and> ?x < pos + length ys)"
    proof
      assume a: "pos \<le> ?x \<and> ?x < pos + length ys"
      let ?j = "?x - pos"
      have "?x = ((h + k) mod m + ?j) mod m" using a x assms(3) by simp
      then have "(h + i) mod m = (h + (k + ?j)) mod m" by (simp add: mod_simps add.assoc)
      moreover have "i < k + ?j" "k + ?j < m" using True a assms(2) by auto
      ultimately show False using shift_mod_inj [of i "k + ?j" m h] by simp
    qed
    have "?d ! ?x = d ! ?x" using nth_splice [of pos ys d ?x] no assms(1,4) x by (simp only: if_False)
    then show ?thesis using L assms(1) True by (simp add: nth_append rotated_def)
  next
    case False
    have "h + i = h + k + (i - k)" using False by simp
    then have "?x = (pos + (i - k)) mod m" unfolding assms(3) by (simp only: mod_add_left_eq)
    also have "\<dots> = pos + (i - k)" using i False assms(4) by simp
    finally have xe: "?x = pos + (i - k)" .
    have "pos \<le> ?x \<and> ?x < pos + length ys" unfolding xe using i False by linarith
    then have "?d ! ?x = ys ! (?x - pos)" using nth_splice [of pos ys d ?x] assms(1,4) x by (simp only: simp_thms if_True)
    then show ?thesis using L xe False by (simp add: nth_append)
  qed
qed (use assms in simp)

text \<open>One round of the write loop.\<close>

lemma pipe_put:
  assumes "pipe_ok p xs" "p_data p = Some d" "unat c \<le> length src" "length xs + unat c \<le> 65536"
    "unat (p_nwrite p mod PIPESZ) + unat c \<le> 65536"
  shows "pipe_ok (p\<lparr>p_data := Some (take (unat (p_nwrite p mod PIPESZ)) d @ take (unat c) src @
            drop (unat (p_nwrite p mod PIPESZ) + unat c) d), p_nwrite := p_nwrite p + c\<rparr>) (xs @ take (unat c) src)"
proof -
  have d: "length d = 65536" "length xs \<le> 65536" "unat (p_nwrite p - p_nread p) = length xs"
      "xs = rotated d (unat (p_nread p)) (length xs)"
    using assms(1,2) by (auto simp: pipe_ok_def)
  let ?ys = "take (unat c) src"
  have ys: "length ?ys = unat c" using assms(3) by simp
  have "unat (p_nread p + (p_nwrite p - p_nread p)) mod 65536 = (unat (p_nread p) + length xs) mod 65536"
    using d(3) by (simp only: unat_add_wrap) (simp add: mod_mod_cancel)
  then have pos: "unat (p_nwrite p mod PIPESZ) = (unat (p_nread p) + length xs) mod 65536"
    by (simp add: unat_mod)
  have "rotated (take (unat (p_nwrite p mod PIPESZ)) d @ ?ys @ drop (unat (p_nwrite p mod PIPESZ) + length ?ys) d)
      (unat (p_nread p)) (length xs + length ?ys) = xs @ ?ys"
    using rotated_splice [OF d(1), of "length xs" ?ys "unat (p_nwrite p mod PIPESZ)" "unat (p_nread p)"]
      assms(4,5) ys pos d(4) by simp
  moreover have "unat (p_nwrite p + c - p_nread p) = length xs + unat c"
    using d(3) assms(4) unat_add_nowrap [of "p_nwrite p - p_nread p" c] by (simp add: algebra_simps)
  ultimately show ?thesis using d(1) assms(4,5) ys by (simp add: pipe_ok_def)
qed

definition same_ends :: "Pipe \<Rightarrow> Pipe \<Rightarrow> bool" where
  "same_ends p p' \<longleftrightarrow> p_readopen p' = p_readopen p \<and> p_writeopen p' = p_writeopen p \<and> p_readq p' = p_readq p \<and>
     p_writeq p' = p_writeq p \<and> p_allocated p' = p_allocated p"

text \<open>The write loop puts as many bytes as fit behind the ones in the pipe and is full with the rest.\<close>

lemma write_loop_ok:
  "pipe_ok p xs \<Longrightarrow> p_readopen p \<Longrightarrow>
   \<exists>p'. write_loop src p = Inr (if length xs + length src \<le> 65536 then Put_done else Put_full (drop (65536 - length xs) src), p') \<and>
     pipe_ok p' (xs @ take (65536 - length xs) src) \<and> same_ends p p'"
proof (induction src p arbitrary: xs rule: write_loop.induct)
  case (1 src p)
  obtain d where d: "p_data p = Some d" "length d = 65536" "length xs \<le> 65536" "unat (p_nwrite p - p_nread p) = length xs"
    using "1.prems"(1) by (auto simp: pipe_ok_def)
  let ?a = "PIPESZ - (p_nwrite p - p_nread p)"
  have a: "unat ?a = 65536 - length xs" using d(3,4) by (subst unat_sub) (simp_all add: u64_le_iff)
  show ?case
  proof (cases "src = [] \<or> ?a = 0")
    case True
    then consider "src = []" | "src \<noteq> []" "length xs = 65536" using a d(3) by fastforce
    then show ?thesis
    proof cases
      case 1
      then show ?thesis using "1.prems" d(3) by (subst write_loop.simps) (simp add: same_ends_def)
    next
      case 2
      then have "?a = 0" using a by (simp add: u64_eq_iff)
      then show ?thesis using 2 "1.prems" d(3) by (subst write_loop.simps) (simp add: same_ends_def Let_def)
    qed
  next
    case False
    let ?w = "to_write (length src) ?a" and ?pos = "p_nwrite p mod PIPESZ"
    let ?c = "chunk_len ?pos ?w"
    have w: "unat ?w = min (length src) (65536 - length xs)" by (simp only: unat_to_write a)
    have "0 < unat ?a" using False by (simp only: unat_gt_0) simp
    then have wpos: "0 < ?w" using False a w by (simp add: u64_less_iff)
    have c: "0 < unat ?c" "unat ?c \<le> unat ?w" using chunk_len_bounds [OF wpos] by simp_all
    have flat: "unat ?pos + unat ?c \<le> 65536" using chunk_len_flat [of ?w "p_nwrite p"] w by simp
    let ?p = "p\<lparr>p_data := Some (take (unat ?pos) d @ take (unat ?c) src @ drop (unat ?pos + unat ?c) d), p_nwrite := p_nwrite p + ?c\<rparr>"
    have ok: "pipe_ok ?p (xs @ take (unat ?c) src)"
      by (rule pipe_put [OF "1.prems"(1) d(1)]) (use c w flat in auto)
    have step: "write_loop src p = write_loop (drop (unat ?c) src) ?p"
      using False "1.prems"(2) d(1,2) flat by (subst write_loop.simps) (simp add: Let_def)
    have len: "length (take (unat ?c) src) = unat ?c" using c w by simp
    have cle: "unat ?c \<le> length src" "length xs + unat ?c \<le> 65536" using c w d(3) by auto
    have "\<exists>p'. write_loop (drop (unat ?c) src) ?p =
        Inr (if length (xs @ take (unat ?c) src) + length (drop (unat ?c) src) \<le> 65536 then Put_done
             else Put_full (drop (65536 - length (xs @ take (unat ?c) src)) (drop (unat ?c) src)), p') \<and>
        pipe_ok p' ((xs @ take (unat ?c) src) @ take (65536 - length (xs @ take (unat ?c) src)) (drop (unat ?c) src)) \<and> same_ends ?p p'"
      by (rule "1.IH") (use False "1.prems"(2) d flat ok in \<open>auto simp: not_less\<close>)
    moreover have "take (unat ?c) src @ take (65536 - (length xs + unat ?c)) (drop (unat ?c) src) = take (65536 - length xs) src"
      using cle take_add [of "unat ?c" "65536 - (length xs + unat ?c)" src] by simp
    ultimately show ?thesis unfolding step
      using len cle by (auto simp: same_ends_def)
  qed
qed

section \<open>A reader and a writer\<close>

text \<open>
  A pipe i with a reading thread r and a writing thread w, which hold the pipe ends dr and dw. \<open>cf_run\<close> is
  the thread that has the processor, None while the scheduler has it; \<open>cf_offered\<close> collects the bytes
  of all write requests, \<open>cf_rcvd\<close> the bytes all read requests returned, and \<open>cf_pend\<close> holds the bytes
  that a blocked write request has still to write.
\<close>

record config =
  cf_s :: pstate
  cf_run :: "nat option"
  cf_offered :: "u8 list"
  cf_rcvd :: "u8 list"
  cf_pend :: "u8 list"

record wiring =
  wi_pipe :: nat
  wi_r :: nat
  wi_w :: nat
  wi_dr :: nat
  wi_dw :: nat

inductive pipe_step :: "wiring \<Rightarrow> config \<Rightarrow> config \<Rightarrow> bool" for W where
  dispatch: "cf_run g = None \<Longrightarrow> get_next_runable (cf_s g) = Inr (Some t, s) \<Longrightarrow>
     pipe_step W g (g\<lparr>cf_s := s, cf_run := Some t\<rparr>)"
| yield: "cf_run g = Some t \<Longrightarrow> sched_enqueue runq t (cf_s g) = Inr s \<Longrightarrow>
     pipe_step W g (g\<lparr>cf_s := s, cf_run := None\<rparr>)"
| read_returns: "cf_run g = Some (wi_r W) \<Longrightarrow> pipe_read (wi_r W) (wi_dr W) n (cf_s g) = Some (Inr (R_returned bs, s)) \<Longrightarrow>
     pipe_step W g (g\<lparr>cf_s := s, cf_rcvd := cf_rcvd g @ bs\<rparr>)"
| read_blocks: "cf_run g = Some (wi_r W) \<Longrightarrow> pipe_read (wi_r W) (wi_dr W) n (cf_s g) = Some (Inr (R_blocked, s)) \<Longrightarrow>
     pipe_step W g (g\<lparr>cf_s := s, cf_run := None\<rparr>)"
| write_starts: "cf_run g = Some (wi_w W) \<Longrightarrow> cf_pend g = [] \<Longrightarrow>
     pipe_step W g (g\<lparr>cf_offered := cf_offered g @ src, cf_pend := src\<rparr>)"
| write_returns: "cf_run g = Some (wi_w W) \<Longrightarrow>
     pipe_write (wi_w W) (wi_dw W) (cf_pend g) n (cf_s g) = Some (Inr (W_returned k, s)) \<Longrightarrow>
     pipe_step W g (g\<lparr>cf_s := s, cf_pend := []\<rparr>)"
| write_blocks: "cf_run g = Some (wi_w W) \<Longrightarrow>
     pipe_write (wi_w W) (wi_dw W) (cf_pend g) n (cf_s g) = Some (Inr (W_blocked rest, s)) \<Longrightarrow>
     pipe_step W g (g\<lparr>cf_s := s, cf_run := None, cf_pend := rest\<rparr>)"

inductive_cases pipe_stepE: "pipe_step W g g'"

text \<open>The invariant, with the queues' contents c and the bytes xs in the pipe.\<close>

definition wired :: "wiring \<Rightarrow> pstate \<Rightarrow> bool" where
  "wired W s \<longleftrightarrow> wi_r W \<noteq> wi_w W \<and>
     get_end (wi_dr W) s = Inr (wi_pipe W, True) \<and> get_end (wi_dw W) s = Inr (wi_pipe W, False) \<and>
     (let p = get_pipe (wi_pipe W) s in p_readopen p \<and> p_writeopen p \<and> p_readq p \<noteq> p_writeq p \<and>
        p_readq p \<noteq> runq \<and> p_writeq p \<noteq> runq)"

abbreviation the_pipe :: "wiring \<Rightarrow> pstate \<Rightarrow> Pipe" where "the_pipe W s \<equiv> get_pipe (wi_pipe W) s"
abbreviation rq_of :: "wiring \<Rightarrow> pstate \<Rightarrow> nat" where "rq_of W s \<equiv> p_readq (the_pipe W s)"
abbreviation wq_of :: "wiring \<Rightarrow> pstate \<Rightarrow> nat" where "wq_of W s \<equiv> p_writeq (the_pipe W s)"
abbreviation queues_of :: "wiring \<Rightarrow> pstate \<Rightarrow> nat set" where "queues_of W s \<equiv> {runq, rq_of W s, wq_of W s}"

definition pipe_inv :: "wiring \<Rightarrow> config \<Rightarrow> (nat \<Rightarrow> nat list) \<Rightarrow> u8 list \<Rightarrow> bool" where
  "pipe_inv W g c xs \<longleftrightarrow> (let s = cf_s g in wired W s \<and> bank (queues_of W s) {wi_r W, wi_w W} (sc_heap s) c \<and>
     pipe_ok (the_pipe W s) xs \<and> cf_offered g = cf_rcvd g @ xs @ cf_pend g \<and>
     (c (rq_of W s) = [] \<or> c (rq_of W s) = [wi_r W] \<and> xs = []) \<and>
     (c (wq_of W s) = [] \<or> c (wq_of W s) = [wi_w W] \<and> length xs = 65536) \<and>
     set (c runq) \<union> set (c (rq_of W s)) \<union> set (c (wq_of W s)) = {wi_r W, wi_w W} - set_option (cf_run g) \<and>
     set_option (cf_run g) \<subseteq> {wi_r W, wi_w W})"

lemma get_set_pipe [simp]:
  "i < length (pw_pipes (sc_world s)) \<Longrightarrow> get_pipe i (set_pipe i p s) = p"
  "sc_heap (set_pipe i p s) = sc_heap s" "sc_state (set_pipe i p s) = sc_state s"
  "get_end d (set_pipe i p s) = get_end d s"
  by (auto simp: get_pipe_def set_pipe_def get_end_def split: option.splits)

lemma same_world:
  assumes "sc_world s' = sc_world s"
  shows "get_pipe i s' = get_pipe i s" "get_end d s' = get_end d s"
  by (simp_all add: get_pipe_def get_end_def assms cong: option.case_cong)

lemma pipe_ok_empty: "pipe_ok p xs \<Longrightarrow> p_nread p = p_nwrite p \<longleftrightarrow> xs = []"
proof -
  assume "pipe_ok p xs"
  then have "unat (p_nwrite p - p_nread p) = length xs" by (auto simp: pipe_ok_def)
  then have "p_nwrite p - p_nread p = 0 \<longleftrightarrow> xs = []" by (auto simp: u64_eq_iff)
  then show ?thesis by auto
qed

text \<open>Blocking on a queue.\<close>

lemma block_ok:
  assumes "bank Q E (sc_heap s) c" "q \<in> Q" "t \<in> E" "\<forall>q' \<in> Q. t \<notin> set (c q')"
  obtains s' where "rrschedblock q t s = Inr s'" "bank Q E (sc_heap s') (c(q := c q @ [t]))" "sc_world s' = sc_world s"
proof -
  obtain h where "queue_enqueue (sc_heap s) q t = Inr h" "bank Q E h (c(q := c q @ [t]))"
    using ptrq.enq [OF assms] by blast
  then show thesis using that by (simp add: rrschedblock_def sched_enqueue_def)
qed

lemma wired_pipe:
  assumes "wired W s"
  shows "wi_pipe W < length (pw_pipes (sc_world s))"
  using assms by (auto simp: wired_def get_end_def split: option.splits if_splits prod.splits)

text \<open>Changing the counters and the buffer of the pipe, and then the queues, keeps it wired.\<close>

lemma wired_update:
  assumes "wired W s" "same_ends (the_pipe W s) p" "sc_world s' = sc_world (set_pipe (wi_pipe W) p s)"
  shows "wired W s'" "the_pipe W s' = p" "rq_of W s' = rq_of W s" "wq_of W s' = wq_of W s"
proof -
  show p: "the_pipe W s' = p" using same_world(1) [OF assms(3)] wired_pipe [OF assms(1)] by simp
  show "wired W s'"
    using assms(1,2) same_world(2) [OF assms(3)] unfolding wired_def Let_def p same_ends_def by simp
  show "rq_of W s' = rq_of W s" "wq_of W s' = wq_of W s" using assms(2) p by (simp_all add: same_ends_def)
qed

lemma read_step:
  assumes "pipe_inv W g c xs" "cf_run g = Some (wi_r W)"
  shows "if xs = [] then \<exists>s' c'. pipe_read (wi_r W) (wi_dr W) n (cf_s g) = Some (Inr (R_blocked, s')) \<and>
        pipe_inv W (g\<lparr>cf_s := s', cf_run := None\<rparr>) c' []
      else \<exists>s' c' bs. pipe_read (wi_r W) (wi_dr W) n (cf_s g) = Some (Inr (R_returned bs, s')) \<and>
        bs = take (unat n) xs \<and> pipe_inv W (g\<lparr>cf_s := s', cf_rcvd := cf_rcvd g @ bs\<rparr>) c' (drop (length bs) xs)"
proof -
  let ?s = "cf_s g" and ?i = "wi_pipe W" and ?Q = "queues_of W (cf_s g)" and ?E = "{wi_r W, wi_w W}"
  let ?p = "the_pipe W (cf_s g)"
  have wi: "wired W ?s" and b: "bank ?Q ?E (sc_heap ?s) c" and ok: "pipe_ok ?p xs"
    and off: "cf_offered g = cf_rcvd g @ xs @ cf_pend g"
    and rq: "c (rq_of W ?s) = [] \<or> c (rq_of W ?s) = [wi_r W] \<and> xs = []"
    and wq: "c (wq_of W ?s) = [] \<or> c (wq_of W ?s) = [wi_w W] \<and> length xs = 65536"
    and all: "set (c runq) \<union> set (c (rq_of W ?s)) \<union> set (c (wq_of W ?s)) = ?E - {wi_r W}"
    using assms by (simp_all add: pipe_inv_def Let_def)
  have en: "get_end (wi_dr W) ?s = Inr (?i, True)" and op: "p_writeopen ?p" and
    ne: "rq_of W ?s \<noteq> runq" "wq_of W ?s \<noteq> runq" "rq_of W ?s \<noteq> wq_of W ?s" "wi_r W \<noteq> wi_w W"
    using wi by (simp_all add: wired_def Let_def)
  have rfree: "\<forall>q \<in> ?Q. wi_r W \<notin> set (c q)" using all by auto
  have rq0: "c (rq_of W ?s) = []" using rq rfree by auto
  show ?thesis
  proof (cases "xs = []")
    case True
    obtain s' where s': "rrschedblock (rq_of W ?s) (wi_r W) ?s = Inr s'"
        "bank ?Q ?E (sc_heap s') (c(rq_of W ?s := c (rq_of W ?s) @ [wi_r W]))" "sc_world s' = sc_world ?s"
      using block_ok [OF b _ _ rfree, of "rq_of W ?s"] by auto
    have "pipe_read (wi_r W) (wi_dr W) n ?s = Some (Inr (R_blocked, s'))"
      using en pipe_ok_empty [OF ok] True op s'(1) by (simp add: pipe_read_def)
    moreover have same: "the_pipe W s' = ?p" "wired W s'"
      using wired_update [OF wi, of ?p s'] s'(3) wired_pipe [OF wi] by (simp_all add: same_ends_def set_pipe_def get_pipe_def)
    moreover have "pipe_inv W (g\<lparr>cf_s := s', cf_run := None\<rparr>) (c(rq_of W ?s := [wi_r W])) []"
      unfolding pipe_inv_def Let_def using same s'(2) rq0 ok off wq all ne True
      by (auto simp: insert_commute)
    ultimately show ?thesis using True by auto
  next
    case False
    obtain d where d: "p_data ?p = Some d" "length xs \<le> 65536" "unat (p_nwrite ?p - p_nread ?p) = length xs"
      using ok by (auto simp: pipe_ok_def)
    let ?k = "read_amount n ?p"
    have k: "unat ?k = min (unat n) (length xs)" using d(3) by (simp add: read_amount_def u64_less_iff Let_def)
    have kle: "unat ?k \<le> length xs" using k by simp
    note take = pipe_take [OF ok d(1) kle]
    let ?p' = "?p\<lparr>p_nread := p_nread ?p + ?k\<rparr>"
    let ?bs = "take (unat ?k) xs"
    have b': "bank ?Q ?E (sc_heap (set_pipe ?i ?p' ?s)) c" using b by simp
    obtain s' where s': "rrschedwake (wq_of W ?s) (set_pipe ?i ?p' ?s) = Some (Inr s')"
        "bank ?Q ?E (sc_heap s') (c(wq_of W ?s := [], runq := c runq @ c (wq_of W ?s)))"
        "sc_world s' = sc_world (set_pipe ?i ?p' ?s)"
      using wake_all [OF b', of "wq_of W ?s"] ne by auto
    have run: "pipe_read (wi_r W) (wi_dr W) n ?s = Some (Inr (R_returned ?bs, s'))"
      using en pipe_ok_empty [OF ok] False d(1) take(1) s'(1) by (simp add: pipe_read_def Let_def wake_then_def)
    have bs: "?bs = take (unat n) xs" "drop (length ?bs) xs = drop (unat ?k) xs" unfolding k by (auto simp: min_def)
    note wu = wired_update [OF wi _ s'(3)]
    have same: "the_pipe W s' = ?p'" "wired W s'" "rq_of W s' = rq_of W ?s" "wq_of W s' = wq_of W ?s"
      using wu by (simp_all add: same_ends_def)
    have "pipe_inv W (g\<lparr>cf_s := s', cf_rcvd := cf_rcvd g @ ?bs\<rparr>)
        (c(wq_of W ?s := [], runq := c runq @ c (wq_of W ?s))) (drop (unat ?k) xs)"
      unfolding pipe_inv_def Let_def config.simps same(1) same(3,4)
      using same(2) s'(2) take(2) off rq0 all ne assms(2) by (auto simp: same(1))
    then have "pipe_inv W (g\<lparr>cf_s := s', cf_rcvd := cf_rcvd g @ ?bs\<rparr>)
        (c(wq_of W ?s := [], runq := c runq @ c (wq_of W ?s))) (drop (length ?bs) xs)" by (simp only: bs(2))
    then show ?thesis using False run bs(1) by (simp only: if_False) blast
  qed
qed

lemma pipe_invI:
  assumes "cf_s g = s" "wired W s" "rq_of W s = a" "wq_of W s = b" "the_pipe W s = p"
    "bank {runq, a, b} {wi_r W, wi_w W} (sc_heap s) c" "pipe_ok p xs" "cf_offered g = cf_rcvd g @ xs @ cf_pend g"
    "c a = [] \<or> c a = [wi_r W] \<and> xs = []" "c b = [] \<or> c b = [wi_w W] \<and> length xs = 65536"
    "set (c runq) \<union> set (c a) \<union> set (c b) = {wi_r W, wi_w W} - set_option (cf_run g)"
    "set_option (cf_run g) \<subseteq> {wi_r W, wi_w W}"
  shows "pipe_inv W g c xs"
  unfolding pipe_inv_def Let_def assms(1,3,4,5) using assms by simp

lemma write_step:
  assumes "pipe_inv W g c xs" "cf_run g = Some (wi_w W)"
  shows "if length xs + length (cf_pend g) \<le> 65536 then
        \<exists>s' c'. pipe_write (wi_w W) (wi_dw W) (cf_pend g) n (cf_s g) = Some (Inr (W_returned n, s')) \<and>
          pipe_inv W (g\<lparr>cf_s := s', cf_pend := []\<rparr>) c' (xs @ cf_pend g)
      else \<exists>s' c' rest. pipe_write (wi_w W) (wi_dw W) (cf_pend g) n (cf_s g) = Some (Inr (W_blocked rest, s')) \<and>
          rest = drop (65536 - length xs) (cf_pend g) \<and>
          pipe_inv W (g\<lparr>cf_s := s', cf_run := None, cf_pend := rest\<rparr>) c' (xs @ take (65536 - length xs) (cf_pend g))"
proof -
  let ?s = "cf_s g" and ?i = "wi_pipe W" and ?Q = "queues_of W (cf_s g)" and ?E = "{wi_r W, wi_w W}"
  let ?p = "the_pipe W (cf_s g)" and ?src = "cf_pend g"
  have wi: "wired W ?s" and b: "bank ?Q ?E (sc_heap ?s) c" and ok: "pipe_ok ?p xs"
    and off: "cf_offered g = cf_rcvd g @ xs @ ?src"
    and rq: "c (rq_of W ?s) = [] \<or> c (rq_of W ?s) = [wi_r W] \<and> xs = []"
    and wq: "c (wq_of W ?s) = [] \<or> c (wq_of W ?s) = [wi_w W] \<and> length xs = 65536"
    and all: "set (c runq) \<union> set (c (rq_of W ?s)) \<union> set (c (wq_of W ?s)) = ?E - {wi_w W}"
    using assms by (simp_all add: pipe_inv_def Let_def)
  have en: "get_end (wi_dw W) ?s = Inr (?i, False)" and op: "p_readopen ?p" and
    ne: "rq_of W ?s \<noteq> runq" "wq_of W ?s \<noteq> runq" "rq_of W ?s \<noteq> wq_of W ?s" "wi_r W \<noteq> wi_w W"
    using wi by (simp_all add: wired_def Let_def)
  have wfree: "\<forall>q \<in> ?Q. wi_w W \<notin> set (c q)" using all by auto
  have wq0: "c (wq_of W ?s) = []" using wq wfree by auto
  obtain p' where p': "write_loop ?src ?p = Inr (if length xs + length ?src \<le> 65536 then Put_done else Put_full (drop (65536 - length xs) ?src), p')"
      "pipe_ok p' (xs @ take (65536 - length xs) ?src)" "same_ends ?p p'"
    using write_loop_ok [OF ok op, of ?src] by blast
  have b': "bank ?Q ?E (sc_heap (set_pipe ?i p' ?s)) c" using b by simp
  let ?c = "c(rq_of W ?s := [], runq := c runq @ c (rq_of W ?s))"
  obtain s1 where s1: "rrschedwake (rq_of W ?s) (set_pipe ?i p' ?s) = Some (Inr s1)" "bank ?Q ?E (sc_heap s1) ?c"
      "sc_world s1 = sc_world (set_pipe ?i p' ?s)"
    using wake_all [OF b', of "rq_of W ?s"] ne by auto
  have q: "p_readq p' = rq_of W ?s" "p_writeq p' = wq_of W ?s" using p'(3) by (simp_all add: same_ends_def)
  note same = wired_update [OF wi p'(3) s1(3)]
  show ?thesis
  proof (cases "length xs + length ?src \<le> 65536")
    case True
    have "pipe_write (wi_w W) (wi_dw W) ?src n ?s = Some (Inr (W_returned n, s1))"
      using en p'(1) True s1(1) q by (simp add: pipe_write_def Let_def wake_then_def)
    moreover have "set (?c runq) \<union> set (?c (rq_of W ?s)) \<union> set (?c (wq_of W ?s)) = ?E - {wi_w W}"
      using all ne by (simp add: Un_commute Un_left_commute)
    moreover have "pipe_ok p' (xs @ ?src)" using p'(2) True by simp
    ultimately have "pipe_inv W (g\<lparr>cf_s := s1, cf_pend := []\<rparr>) ?c (xs @ ?src)"
      by (intro pipe_invI [OF _ same(1,3,4,2)]) (use s1(2) off wq0 ne assms(2) in simp_all)
    moreover note \<open>pipe_write (wi_w W) (wi_dw W) ?src n ?s = Some (Inr (W_returned n, s1))\<close>
    ultimately show ?thesis using True by auto
  next
    case False
    have wfree1: "\<forall>q' \<in> ?Q. wi_w W \<notin> set (?c q')" using wfree by auto
    have mem: "wq_of W ?s \<in> ?Q" "wi_w W \<in> ?E" by simp_all
    obtain s2 where s2: "rrschedblock (wq_of W ?s) (wi_w W) s1 = Inr s2"
        "bank ?Q ?E (sc_heap s2) (?c(wq_of W ?s := ?c (wq_of W ?s) @ [wi_w W]))" "sc_world s2 = sc_world s1"
      by (rule block_ok [OF s1(2) mem wfree1])
    have run: "pipe_write (wi_w W) (wi_dw W) ?src n ?s = Some (Inr (W_blocked (drop (65536 - length xs) ?src), s2))"
      using en p'(1) False s1(1) s2(1) q by (simp add: pipe_write_def Let_def wake_then_def)
    have w2: "sc_world s2 = sc_world (set_pipe ?i p' ?s)" using s2(3) s1(3) by simp
    note same2 = wired_update [OF wi p'(3) w2]
    have "length (xs @ take (65536 - length xs) ?src) = 65536" using False ok by (auto simp: pipe_ok_def)
    moreover let ?c' = "?c(wq_of W ?s := [wi_w W])"
    have "set (?c' runq) \<union> set (?c' (rq_of W ?s)) \<union> set (?c' (wq_of W ?s)) = ?E"
      using all ne wq0 by (simp add: Un_commute Un_left_commute)
    ultimately have "pipe_inv W (g\<lparr>cf_s := s2, cf_run := None, cf_pend := drop (65536 - length xs) ?src\<rparr>)
        ?c' (xs @ take (65536 - length xs) ?src)"
      by (intro pipe_invI [OF _ same2(1,3,4,2)]) (use s2(2) p'(2) off wq0 ne in simp_all)
    then show ?thesis using False run by auto
  qed
qed

lemma dispatch_step:
  assumes "pipe_inv W g c xs" "cf_run g = None"
  shows "\<exists>t s c'. get_next_runable (cf_s g) = Inr (Some t, s) \<and> pipe_inv W (g\<lparr>cf_s := s, cf_run := Some t\<rparr>) c' xs"
proof -
  let ?s = "cf_s g" and ?Q = "queues_of W (cf_s g)" and ?E = "{wi_r W, wi_w W}"
  have wi: "wired W ?s" and b: "bank ?Q ?E (sc_heap ?s) c"
    and rq: "c (rq_of W ?s) = [] \<or> c (rq_of W ?s) = [wi_r W] \<and> xs = []"
    and wq: "c (wq_of W ?s) = [] \<or> c (wq_of W ?s) = [wi_w W] \<and> length xs = 65536"
    and all: "set (c runq) \<union> set (c (rq_of W ?s)) \<union> set (c (wq_of W ?s)) = ?E"
    using assms by (simp_all add: pipe_inv_def Let_def)
  have ne: "rq_of W ?s \<noteq> runq" "wq_of W ?s \<noteq> runq" "wi_r W \<noteq> wi_w W"
    using wi by (simp_all add: wired_def Let_def)
  have "c runq \<noteq> []"
  proof
    assume "c runq = []"
    then have "c (rq_of W ?s) \<noteq> []" "c (wq_of W ?s) \<noteq> []" using all rq wq ne(3) by auto
    then show False using rq wq by auto
  qed
  then obtain t ts where c: "c runq = t # ts" by (cases "c runq") auto
  have rQ: "runq \<in> ?Q" by simp
  obtain h where h: "queue_dequeue (sc_heap ?s) runq = Inr (Some t, h)" "bank ?Q ?E h (c(runq := ts))" "t \<in> ?E"
      "\<forall>q' \<in> ?Q. t \<notin> set ((c(runq := ts)) q')"
    by (rule ptrq.deq_free [OF b rQ c])
  let ?s' = "?s\<lparr>sc_heap := h\<rparr>"
  have same: "the_pipe W ?s' = the_pipe W ?s" "wired W ?s'"
    using wi same_world [of ?s' ?s] by (simp_all add: wired_def)
  have "set ((c(runq := ts)) runq) \<union> set ((c(runq := ts)) (rq_of W ?s)) \<union> set ((c(runq := ts)) (wq_of W ?s)) = ?E - {t}"
    using all c h(4) ne by auto
  then have "pipe_inv W (g\<lparr>cf_s := ?s', cf_run := Some t\<rparr>) (c(runq := ts)) xs"
    using same h(2,3) assms(1) ne by (simp add: pipe_inv_def Let_def)
  then show ?thesis using h(1) by (auto simp: get_next_runable_def)
qed

lemma yield_step:
  assumes "pipe_inv W g c xs" "cf_run g = Some t"
  shows "\<exists>s c'. sched_enqueue runq t (cf_s g) = Inr s \<and> pipe_inv W (g\<lparr>cf_s := s, cf_run := None\<rparr>) c' xs"
proof -
  let ?s = "cf_s g" and ?Q = "queues_of W (cf_s g)" and ?E = "{wi_r W, wi_w W}"
  have wi: "wired W ?s" and b: "bank ?Q ?E (sc_heap ?s) c" and t: "t \<in> ?E"
    and all: "set (c runq) \<union> set (c (rq_of W ?s)) \<union> set (c (wq_of W ?s)) = ?E - {t}"
    using assms by (simp_all add: pipe_inv_def Let_def)
  have ne: "rq_of W ?s \<noteq> runq" "wq_of W ?s \<noteq> runq"
    using wi by (simp_all add: wired_def Let_def)
  have free: "\<forall>q' \<in> ?Q. t \<notin> set (c q')" using all by auto
  obtain h where h: "queue_enqueue (sc_heap ?s) runq t = Inr h" "bank ?Q ?E h (c(runq := c runq @ [t]))"
    using ptrq.enq [OF b _ t free, of runq] by auto
  let ?s' = "?s\<lparr>sc_heap := h\<rparr>" and ?c = "c(runq := c runq @ [t])"
  have same: "the_pipe W ?s' = the_pipe W ?s" "wired W ?s'"
    using wi same_world [of ?s' ?s] by (simp_all add: wired_def)
  have "set (?c runq) \<union> set (?c (rq_of W ?s)) \<union> set (?c (wq_of W ?s)) = ?E"
    using all t ne by auto
  then have "pipe_inv W (g\<lparr>cf_s := ?s', cf_run := None\<rparr>) ?c xs"
    using same h(2) assms(1) ne by (simp add: pipe_inv_def Let_def)
  then show ?thesis using h(1) by (auto simp: sched_enqueue_def)
qed

lemma pipe_step_inv:
  assumes "pipe_step W g g'" "pipe_inv W g c xs"
  shows "\<exists>c' xs'. pipe_inv W g' c' xs'"
  using assms(1)
proof cases
  case (dispatch t s)
  then show ?thesis using dispatch_step [OF assms(2)] by auto
next
  case (yield t s)
  then show ?thesis using yield_step [OF assms(2)] by auto
next
  case (read_returns n bs s)
  then show ?thesis using read_step [OF assms(2), of n] by (cases "xs = []") auto
next
  case (read_blocks n s)
  then show ?thesis using read_step [OF assms(2), of n] by (cases "xs = []") auto
next
  case (write_starts src)
  then show ?thesis using assms(2) by (auto simp: pipe_inv_def Let_def)
next
  case (write_returns n k s)
  then show ?thesis using write_step [OF assms(2), of n] by (cases "length xs + length (cf_pend g) \<le> 65536") auto
next
  case (write_blocks n rest s)
  then show ?thesis using write_step [OF assms(2), of n] by (cases "length xs + length (cf_pend g) \<le> 65536") auto
qed

lemma pipe_steps_inv:
  "(pipe_step W)\<^sup>*\<^sup>* g g' \<Longrightarrow> pipe_inv W g c xs \<Longrightarrow> \<exists>c' xs'. pipe_inv W g' c' xs'"
  by (induction rule: rtranclp_induct) (auto dest: pipe_step_inv)

text \<open>
  C9: a pipe delivers its bytes once and in order, and never blocks both sides. In every state that
  reader and writer can reach, the bytes received are the first ones of the bytes offered, and the ones
  in between are in the pipe (at most \<open>PIPESZ\<close>) or with the blocked writer. There is always a thread to
  run when the scheduler has the processor, and a running reader or writer always returns or blocks
  without a fault.
\<close>

theorem pipe_stream_correct:
  assumes "pipe_inv W g0 c xs" "(pipe_step W)\<^sup>*\<^sup>* g0 g"
  shows "(\<exists>ys. cf_offered g = cf_rcvd g @ ys @ cf_pend g \<and> length ys \<le> 65536) \<and>
    (cf_run g = None \<longrightarrow> (\<exists>t s. get_next_runable (cf_s g) = Inr (Some t, s))) \<and>
    (cf_run g = Some (wi_r W) \<longrightarrow> (\<exists>out s. pipe_read (wi_r W) (wi_dr W) n (cf_s g) = Some (Inr (out, s)))) \<and>
    (cf_run g = Some (wi_w W) \<longrightarrow> (\<exists>out s. pipe_write (wi_w W) (wi_dw W) (cf_pend g) n (cf_s g) = Some (Inr (out, s))))"
proof -
  obtain c' ys where inv: "pipe_inv W g c' ys" using pipe_steps_inv [OF assms(2,1)] by blast
  then have "cf_offered g = cf_rcvd g @ ys @ cf_pend g" "length ys \<le> 65536"
    by (auto simp: pipe_inv_def Let_def pipe_ok_def)
  moreover have "\<exists>t s. get_next_runable (cf_s g) = Inr (Some t, s)" if "cf_run g = None"
    using dispatch_step [OF inv that] by blast
  moreover have "\<exists>out s. pipe_read (wi_r W) (wi_dr W) n (cf_s g) = Some (Inr (out, s))" if "cf_run g = Some (wi_r W)"
    using read_step [OF inv that, of n] by (cases "ys = []") auto
  moreover have "\<exists>out s. pipe_write (wi_w W) (wi_dw W) (cf_pend g) n (cf_s g) = Some (Inr (out, s))" if "cf_run g = Some (wi_w W)"
    using write_step [OF inv that, of n] by (cases "length ys + length (cf_pend g) \<le> 65536") auto
  ultimately show ?thesis by blast
qed

section \<open>Closed ends\<close>

text \<open>
  C29: closed pipe ends. When the writing end is closed, a read never blocks: it returns the bytes
  that are left, at most as many as requested, and end-of-file (no bytes) from an empty pipe. When the
  reading end is closed, a write of at least one byte returns \<open>-1\<close> and leaves the pipe as it is.
\<close>

theorem pipe_closed_ends:
  assumes "get_end dev s = Inr (i, b)" "pipe_ok (get_pipe i s) xs"
    "bank {runq, p_readq (get_pipe i s), p_writeq (get_pipe i s)} E (sc_heap s) c" "p_writeq (get_pipe i s) \<noteq> runq"
  shows "(\<not> p_writeopen (get_pipe i s) \<longrightarrow>
      (\<exists>s'. pipe_read t dev n s = Some (Inr (R_returned (take (unat n) xs), s')) \<and> pipe_ok (get_pipe i s') (drop (unat n) xs))) \<and>
    (\<not> p_readopen (get_pipe i s) \<and> src \<noteq> [] \<longrightarrow>
      (\<exists>s'. pipe_write t dev src n s = Some (Inr (W_returned (- 1), s')) \<and> get_pipe i s' = get_pipe i s))"
proof -
  let ?p = "get_pipe i s"
  have i: "i < length (pw_pipes (sc_world s))" using assms(1) by (auto simp: get_end_def split: option.splits if_splits prod.splits)
  obtain d where d: "p_data ?p = Some d" "unat (p_nwrite ?p - p_nread ?p) = length xs"
    using assms(2) by (auto simp: pipe_ok_def)
  let ?k = "read_amount n ?p"
  have k: "unat ?k = min (unat n) (length xs)" using d(2) by (simp add: read_amount_def u64_less_iff Let_def)
  then have kle: "unat ?k \<le> length xs" by simp
  note tk = pipe_take [OF assms(2) d(1) kle]
  have "\<exists>s'. pipe_read t dev n s = Some (Inr (R_returned (take (unat n) xs), s')) \<and> pipe_ok (get_pipe i s') (drop (unat n) xs)"
    if "\<not> p_writeopen ?p"
  proof -
    let ?s = "set_pipe i (?p\<lparr>p_nread := p_nread ?p + ?k\<rparr>) s"
    obtain s' where s': "rrschedwake (p_writeq ?p) ?s = Some (Inr s')" "sc_world s' = sc_world ?s"
      using wake_all [of _ E ?s c "p_writeq ?p"] assms(3,4) by auto
    have "take (unat ?k) xs = take (unat n) xs" "drop (unat ?k) xs = drop (unat n) xs" unfolding k by (auto simp: min_def)
    then show ?thesis
      using that assms(1) d(1) tk s'(1) same_world(1) [OF s'(2), of i] i by (auto simp: pipe_read_def Let_def wake_then_def)
  qed
  moreover have "\<exists>s'. pipe_write t dev src n s = Some (Inr (W_returned (- 1), s')) \<and> get_pipe i s' = ?p"
    if "\<not> p_readopen ?p" "src \<noteq> []"
    using that assms(1) i write_loop.simps [of src ?p] by (auto simp: pipe_write_def Let_def)
  ultimately show ?thesis by blast
qed

section \<open>A new pipe\<close>

lemma find_pipe_bound: "find_pipe ps = Some i \<Longrightarrow> i < length ps \<and> \<not> p_allocated (ps ! i)"
  by (induction ps arbitrary: i) (auto split: if_splits)

definition all_mem :: pipe_mem where
  "all_mem = \<lparr>pm_data = True, pm_f0 = True, pm_f1 = True, pm_e0 = True, pm_e1 = True\<rparr>"

text \<open>A pipe that \<open>pipe_new\<close> creates is empty, open at both ends and reachable through both of them.\<close>

lemma pipe_new_ok:
  assumes "find_pipe (pw_pipes (sc_world s)) = Some i" "e0 \<noteq> e1" "p_readq (get_pipe i s) \<in> qdom (sc_heap s)"
    "p_writeq (get_pipe i s) \<in> qdom (sc_heap s)"
  shows "\<exists>fh' s'. pipe_new all_mem e0 e1 f0 f1 fh s = Inr (True, fh', s') \<and> pipe_ok (get_pipe i s') [] \<and>
    get_end e0 s' = Inr (i, True) \<and> get_end e1 s' = Inr (i, False) \<and>
    p_readopen (get_pipe i s') \<and> p_writeopen (get_pipe i s') \<and> p_allocated (get_pipe i s') \<and>
    p_readq (get_pipe i s') = p_readq (get_pipe i s) \<and> p_writeq (get_pipe i s') = p_writeq (get_pipe i s)"
  using assms find_pipe_bound [OF assms(1)]
  by (simp add: pipe_new_def Let_def queue_init_def list_init_def all_mem_def pipe_ok_def get_end_def)
    (simp add: get_pipe_def set_pipe_def)

section \<open>A concrete pipe\<close>

definition demo_pipe :: Pipe where
  "demo_pipe = \<lparr>p_data = Some (replicate 65536 0), p_writeopen = True, p_readopen = True, p_allocated = True,
     p_nread = 0, p_nwrite = 0, p_readq = 8, p_writeq = 9\<rparr>"

definition demo_pstate :: "qheap \<Rightarrow> pstate" where
  "demo_pstate h = \<lparr>sc_heap = h, sc_state = (\<lambda>_. THREAD_RUNNABLE),
     sc_world = \<lparr>pw_pipes = [demo_pipe], pw_ends = [11 \<mapsto> (0, True), 12 \<mapsto> (0, False)]\<rparr>\<rparr>"

definition demo_wiring :: wiring where
  "demo_wiring = \<lparr>wi_pipe = 0, wi_r = 3, wi_w = 5, wi_dr = 11, wi_dw = 12\<rparr>"

definition demo_config :: "qheap \<Rightarrow> config" where
  "demo_config h = \<lparr>cf_s = demo_pstate h, cf_run = Some 3, cf_offered = [], cf_rcvd = [], cf_pend = []\<rparr>"

definition demo_queues :: qheap where
  "demo_queues = QUEUE_INIT (QUEUE_INIT (QUEUE_INIT demo_store 0) 8) 9"

lemma demo_queues_bank: "bank {0, 8, 9} {3, 5} demo_queues (\<lambda>_. [])"
  by (auto simp: bank_def queue_repr_def QUEUE_INIT_def set_tail_def qdom_def demo_store_def demo_queues_def)

lemma demo_pipe_ok: "pipe_ok demo_pipe []"
  by (simp add: pipe_ok_def demo_pipe_def)

lemma demo_get: "get_pipe 0 (demo_pstate h) = demo_pipe" "get_end 11 (demo_pstate h) = Inr (0, True)"
  "get_end 12 (demo_pstate h) = Inr (0, False)" "sc_heap (demo_pstate h) = h"
  by (simp_all add: get_pipe_def demo_pstate_def get_end_def)

lemma demo_pipe_inv: "\<exists>h c. pipe_inv demo_wiring (demo_config h) c []"
proof -
  obtain h where h: "queue_enqueue demo_queues 0 5 = Inr h" "bank {0, 8, 9} {3, 5} h ((\<lambda>_. [])(0 := [5]))"
    using ptrq.enq [OF demo_queues_bank, of 0 5] by auto
  have "pipe_inv demo_wiring (demo_config h) ((\<lambda>_. [])(0 := [5])) []"
    using h(2) demo_pipe_ok
    by (auto simp: pipe_inv_def Let_def wired_def demo_config_def demo_wiring_def demo_get runq_def demo_pipe_def)
  then show ?thesis by blast
qed

theorem pipe_stream_correct_witness:
  "\<exists>h. cf_run (demo_config h) = Some 3 \<and> (\<exists>out s. pipe_read 3 11 10 (demo_pstate h) = Some (Inr (out, s)))"
proof -
  obtain h c where inv: "pipe_inv demo_wiring (demo_config h) c []" using demo_pipe_inv by blast
  show ?thesis
    using pipe_stream_correct [OF inv rtranclp.rtrancl_refl, of 10]
    by (intro exI [of _ h]) (simp add: demo_config_def demo_wiring_def)
qed

theorem pipe_closed_ends_witness:
  "\<exists>s. \<not> p_writeopen (get_pipe 0 s) \<and> (\<exists>s'. pipe_read 3 11 10 s = Some (Inr (R_returned [], s')))"
proof -
  let ?p = "demo_pipe\<lparr>p_writeopen := False\<rparr>"
  let ?s = "set_pipe 0 ?p (demo_pstate demo_queues)"
  have g: "get_pipe 0 ?s = ?p" by (simp add: get_pipe_def set_pipe_def demo_pstate_def)
  have "get_end 11 ?s = Inr (0, True)" "pipe_ok (get_pipe 0 ?s) []"
      "bank {runq, p_readq (get_pipe 0 ?s), p_writeq (get_pipe 0 ?s)} {3, 5} (sc_heap ?s) (\<lambda>_. [])"
      "p_writeq (get_pipe 0 ?s) \<noteq> runq"
    using demo_queues_bank demo_pipe_ok by (simp_all add: g demo_get) (simp_all add: demo_pipe_def runq_def pipe_ok_def)
  from pipe_closed_ends [OF this, of 3 10] show ?thesis
    by (intro exI [of _ ?s]) (auto simp: g)
qed

text \<open>
  A pipe created by \<open>sys_pipe2\<close> cannot be given a descriptor: \<open>fdfassign\<close> counts a reference in a member
  that \<open>pipe_new\<close> never initialised.
\<close>

lemma sys_pipe2_uninitialised:
  assumes "find_pipe (pw_pipes (sc_world s)) = Some i" "e0 \<noteq> e1" "f0 \<noteq> f1"
    "p_readq (get_pipe i s) \<in> qdom (sc_heap s)" "p_writeq (get_pipe i s) \<in> qdom (sc_heap s)" "first_free t < LINUX_NOFILE"
  shows "sys_pipe2 all_mem e0 e1 f0 f1 pipefd t fh m s = Inl Uninitialised"
proof -
  have "fdfassign (set_file (set_file fh f0 (Some (pipe_file e0 PipeFn Null))) f1 (Some (pipe_file e1 Null PipeFn))) t f0 = Inl Uninitialised"
    using assms(3,6) by (simp add: fdfassign_def Let_def add_refs_def get_file_def set_file_def initialised_def pipe_file_def)
  then show ?thesis
    using assms find_pipe_bound [OF assms(1)]
    by (simp add: sys_pipe2_def pipe_new_def Let_def queue_init_def list_init_def all_mem_def)
qed

end
