(* ===== verification/Proc.thy ===== *)
theory Proc
  imports Box_Spec Fd
begin

text \<open>
  Processes: \<open>lps-linux/linux.c\<close>, \<open>proc.h\<close> and the memory operations of \<open>proc.c\<close>. A process owns a
  sandbox whose host state is the world of kernel and memory, a descriptor table with its files, and
  the break. The engine is a separate value, as for sandboxes.
\<close>

section \<open>Data\<close>

record LPSLinuxOpts =
  lo_verbose :: bool
  lo_passthrough :: bool
  lo_brksize :: u64
  lo_stacksize :: u64

record LPSLinuxEngine =
  ll_engine :: LPSEngine
  ll_opts :: LPSLinuxOpts

record ELFLoadInfo =
  ei_lastva :: u64
  ei_elfentry :: u64
  ei_ldentry :: u64
  ei_elfbase :: u64
  ei_ldbase :: u64
  ei_elfphoff :: u64
  ei_elfphnum :: u16
  ei_elfphentsize :: u16

record ElfSeg =
  es_start :: u64
  es_end :: u64
  es_prot :: cint

definition ELFSEGMAXN :: nat where "ELFSEGMAXN = 4"

text \<open>\<open>pr_segs\<close> holds the first \<open>seginfo.len\<close> entries of \<open>seginfo.elfsegs\<close>.\<close>

record 'k LPSProc =
  pr_box :: "'k world LPSBox"
  pr_boxinfo :: LPSBoxInfo
  pr_brkbase :: u64
  pr_brksize :: u64
  pr_entry :: u64
  pr_elfinfo :: ELFLoadInfo
  pr_segs :: "ElfSeg list"
  pr_thread_count :: cint
  pr_fds :: FDTable
  pr_fheap :: fheap
  pr_cwd :: string
  pr_opts :: LPSLinuxOpts

definition BRKMAXSIZE :: u64 where "BRKMAXSIZE = 512 * 1024 * 1024"
definition STACKSIZE :: u64 where "STACKSIZE = 2 * 1024 * 1024"

definition PROT_READ :: cint where "PROT_READ = 1"
definition PROT_WRITE :: cint where "PROT_WRITE = 2"
definition PROT_EXEC :: cint where "PROT_EXEC = 4"

section \<open>Engine\<close>

definition lps_linux_new :: "bool \<Rightarrow> LPSEngine \<Rightarrow> LPSLinuxOpts \<Rightarrow> LPSLinuxEngine option" where
  "lps_linux_new malloc_ok lps_engine opts =
     (if \<not> malloc_ok then None
      else
        (let lps_engine = lps_sys_handler lps_engine True;
             opts = (if lo_brksize opts = 0 then opts\<lparr>lo_brksize := BRKMAXSIZE\<rparr> else opts);
             opts = (if lo_stacksize opts = 0 then opts\<lparr>lo_stacksize := STACKSIZE\<rparr> else opts)
         in Some \<lparr>ll_engine = lps_engine, ll_opts = opts\<rparr>))"

section \<open>The world of a process\<close>

definition pr_world :: "'k LPSProc \<Rightarrow> 'k world" where
  "pr_world p = s_ud (bx_st (pr_box p))"

definition box_set_world :: "'k world LPSBox \<Rightarrow> 'k world \<Rightarrow> 'k world LPSBox" where
  "box_set_world box w = box\<lparr>bx_st := (bx_st box)\<lparr>s_ud := w\<rparr>\<rparr>"

definition pr_set_world :: "'k LPSProc \<Rightarrow> 'k world \<Rightarrow> 'k LPSProc" where
  "pr_set_world p w = p\<lparr>pr_box := box_set_world (pr_box p) w\<rparr>"

definition pr_set_mem :: "'k LPSProc \<Rightarrow> (memory \<Rightarrow> memory) \<Rightarrow> 'k LPSProc" where
  "pr_set_mem p f = pr_set_world p ((pr_world p)\<lparr>w_mem := f (w_mem (pr_world p))\<rparr>)"

section \<open>Operations\<close>

definition blank_elfinfo :: ELFLoadInfo where
  "blank_elfinfo = \<lparr>ei_lastva = 0, ei_elfentry = 0, ei_ldentry = 0, ei_elfbase = 0, ei_ldbase = 0, ei_elfphoff = 0,
     ei_elfphnum = 0, ei_elfphentsize = 0\<rparr>"

text \<open>
  \<open>lps_proc_new\<close> uses the sandbox without looking whether it got one. \<open>calloc_ok\<close> tells whether the
  allocation of the structure succeeds, oom and fh are the allocators of the sandbox and the files, and
  handle is the address of the new structure.
\<close>

definition lps_proc_new ::
  "'k world hostvm \<Rightarrow> 'k hostos \<Rightarrow> (nat \<Rightarrow> bool) \<Rightarrow> bool \<Rightarrow> fheap \<Rightarrow> u64 \<Rightarrow> LPSLinuxEngine \<Rightarrow> 'k world \<Rightarrow>
   ('k LPSProc option \<times> LPSLinuxEngine \<times> 'k world) res" where
  "lps_proc_new hv ho oom calloc_ok fh handle engine w =
     rbind (lps_box_new hv oom (ll_engine engine) w) (\<lambda>(box, e, w).
     let engine = engine\<lparr>ll_engine := e\<rparr> in
     if \<not> calloc_ok then Inr (None, engine, w)
     else
       (case box of
          None \<Rightarrow> Inl NullDeref
        | Some box \<Rightarrow>
            (let info = lps_box_info box; box = lps_box_setdata box handle;
                 (fds, fh, w) = fdinit ho fh (s_ud (bx_st box)) in
             Inr (Some \<lparr>pr_box = box_set_world box w, pr_boxinfo = info, pr_brkbase = 0, pr_brksize = 0, pr_entry = 0,
                        pr_elfinfo = blank_elfinfo, pr_segs = [], pr_thread_count = 0, pr_fds = fds, pr_fheap = fh,
                        pr_cwd = '''', pr_opts = ll_opts engine\<rparr>, engine, w))))"

text \<open>The kernel descriptor behind fd, \<open>-1\<close> for a negative fd: \<open>fdfget(...)->kfd\<close>.\<close>

definition proc_kfd :: "'k LPSProc \<Rightarrow> cint \<Rightarrow> cint res" where
  "proc_kfd p fd =
     (if sint fd \<ge> 0 then rbind (fdfget (pr_fds p) fd) (\<lambda>f. getkfd (pr_fheap p) f) else Inr (- 1))"

text \<open>\<open>proc_mapany\<close> returns 0 and the address, or an error.\<close>

definition proc_mapany ::
  "'k world hostvm \<Rightarrow> 'k LPSProc \<Rightarrow> u64 \<Rightarrow> cint \<Rightarrow> cint \<Rightarrow> cint \<Rightarrow> u64 \<Rightarrow> (cint \<times> u64 \<times> 'k LPSProc) res" where
  "proc_mapany hv p sz prot flags fd offset =
     rbind (proc_kfd p fd) (\<lambda>kfd.
     if sint fd \<ge> 0 \<and> kfd = - 1 then Inr (- LINUX_EBADF, 0, p)
     else
       rbind (lps_box_mapany hv (pr_box p) sz prot flags kfd offset) (\<lambda>(addr, box).
       let p = p\<lparr>pr_box := box\<rparr> in
       if addr = - 1 then Inr (- LINUX_EINVAL, 0, p) else Inr (0, addr, p)))"

text \<open>\<open>proc_mapat\<close> returns a positive \<open>EBADF\<close>.\<close>

definition proc_mapat ::
  "'k world hostvm \<Rightarrow> 'k LPSProc \<Rightarrow> u64 \<Rightarrow> u64 \<Rightarrow> cint \<Rightarrow> cint \<Rightarrow> cint \<Rightarrow> u64 \<Rightarrow> (cint \<times> 'k LPSProc) res" where
  "proc_mapat hv p start sz prot flags fd offset =
     rbind (proc_kfd p fd) (\<lambda>kfd.
     if sint fd \<ge> 0 \<and> kfd = - 1 then Inr (LINUX_EBADF, p)
     else
       rbind (lps_box_mapat hv (pr_box p) start sz prot flags kfd offset) (\<lambda>(addr, box).
       let p = p\<lparr>pr_box := box\<rparr> in
       if addr = - 1 then Inr (- LINUX_EINVAL, p) else Inr (0, p)))"

definition proc_unmap :: "'k world hostvm \<Rightarrow> 'k LPSProc \<Rightarrow> u64 \<Rightarrow> u64 \<Rightarrow> (cint \<times> 'k LPSProc) res" where
  "proc_unmap hv p start sz =
     rbind (lps_box_munmap hv (pr_box p) start sz) (\<lambda>(r, box). Inr (r, p\<lparr>pr_box := box\<rparr>))"

end
