(* ===== verification/Elf.thy ===== *)
theory Elf
  imports Proc
begin

text \<open>
  Loading a program: \<open>lps-linux/buf.h\<close>, \<open>elfload.c\<close> and \<open>proc_load\<close> of \<open>proc.c\<close>. The program is a list of
  bytes; reading beyond it is a fault, as is a failed assertion. The headers have the layout of the
  64 bit ELF format.
\<close>

section \<open>Buffers\<close>

record Buf =
  bf_fd :: cint
  bf_data :: "u8 list"
  bf_size :: u64

definition buf_read :: "Buf \<Rightarrow> u64 \<Rightarrow> u64 \<Rightarrow> u8 list res" where
  "buf_read buf count offset =
     (let count = (if offset + count > bf_size buf then bf_size buf - offset else count) in
      if unat offset + unat count > length (bf_data buf) then Inl OutOfBounds
      else Inr (take (unat count) (drop (unat offset) (bf_data buf))))"

section \<open>Headers\<close>

definition field :: "u8 list \<Rightarrow> nat \<Rightarrow> nat \<Rightarrow> u64" where
  "field bs off n = le_word (take n (drop off bs))"

record Elf64_Ehdr =
  eh_ident :: "u8 list"
  eh_type :: u64
  eh_version :: u64
  eh_entry :: u64
  eh_phoff :: u64
  eh_phentsize :: u64
  eh_phnum :: u64

record Elf64_Phdr =
  ph_type :: u64
  ph_flags :: u64
  ph_offset :: u64
  ph_vaddr :: u64
  ph_filesz :: u64
  ph_memsz :: u64
  ph_align :: u64

abbreviation (input) sizeof_Ehdr :: u64 where "sizeof_Ehdr \<equiv> 64"
abbreviation (input) sizeof_Phdr :: u64 where "sizeof_Phdr \<equiv> 56"

definition read_ehdr :: "u8 list \<Rightarrow> Elf64_Ehdr" where
  "read_ehdr bs = \<lparr>eh_ident = take 16 bs, eh_type = field bs 16 2, eh_version = field bs 20 4, eh_entry = field bs 24 8,
     eh_phoff = field bs 32 8, eh_phentsize = field bs 54 2, eh_phnum = field bs 56 2\<rparr>"

definition read_phdr :: "u8 list \<Rightarrow> nat \<Rightarrow> Elf64_Phdr" where
  "read_phdr bs i =
     (let b = drop (56 * i) bs in
      \<lparr>ph_type = field b 0 4, ph_flags = field b 4 4, ph_offset = field b 8 8, ph_vaddr = field b 16 8,
       ph_filesz = field b 32 8, ph_memsz = field b 40 8, ph_align = field b 48 8\<rparr>)"

text \<open>\<open>PF_R\<close>, \<open>PF_W\<close> and \<open>PF_X\<close> are 4, 2 and 1.\<close>

definition pflags :: "cint \<Rightarrow> cint" where
  "pflags prot =
     (if prot AND 4 \<noteq> 0 then PROT_READ else 0) OR
     (if prot AND 2 \<noteq> 0 then PROT_WRITE else 0) OR
     (if prot AND 1 \<noteq> 0 then PROT_EXEC else 0)"

definition elf_check :: "Elf64_Ehdr \<Rightarrow> bool" where
  "elf_check ehdr \<longleftrightarrow> take 4 (eh_ident ehdr) = [0x7f, 0x45, 0x4c, 0x46] \<and> eh_ident ehdr ! 4 = 2 \<and> eh_version ehdr = 1"

section \<open>Segments\<close>

abbreviation (input) ET_DYN :: u64 where "ET_DYN \<equiv> 3"
abbreviation (input) PT_LOAD :: u64 where "PT_LOAD \<equiv> 1"
abbreviation (input) PHNUM_MAX :: u64 where "PHNUM_MAX \<equiv> 64"
abbreviation (input) CODE_MAX :: u64 where "CODE_MAX \<equiv> 0x40000000"

definition add_seg :: "'k LPSProc \<Rightarrow> ElfSeg \<Rightarrow> (bool \<times> 'k LPSProc) res" where
  "add_seg p seg =
     rbind (rassert (length (pr_segs p) < ELFSEGMAXN)) (\<lambda>_. Inr (True, p\<lparr>pr_segs := pr_segs p @ [seg]\<rparr>))"

text \<open>The two ways to fill a segment: mapping the file, or copying from memory.\<close>

definition seg_from_file ::
  "'k world hostvm \<Rightarrow> 'k LPSProc \<Rightarrow> u64 \<Rightarrow> u64 \<Rightarrow> u64 \<Rightarrow> u64 \<Rightarrow> u64 \<Rightarrow> u64 \<Rightarrow> cint \<Rightarrow> Buf \<Rightarrow> u64 \<Rightarrow> u64 \<Rightarrow>
   (bool \<times> 'k LPSProc) res" where
  "seg_from_file hv proc start offset endp p_offset filesz memsz prot buf pagesize p_align =
     rbind (lps_box_mapat hv (pr_box proc) start (endp - start) prot MAP_PRIVATE (bf_fd buf) (truncp p_offset p_align)) (\<lambda>(p, box).
     let proc = proc\<lparr>pr_box := box\<rparr> in
     if p = - 1 then Inr (False, proc)
     else if memsz > filesz then
       (if prot AND PROT_WRITE = 0 then Inr (False, proc)
        else
          (let bss_start = start + offset + filesz; bss_rest = ceilp bss_start pagesize;
               proc = pr_set_mem proc (store_bytes bss_start (replicate (unat (bss_rest - bss_start)) 0)) in
           if bss_rest < endp then
             rbind (lps_box_mapat hv (pr_box proc) bss_rest (endp - bss_rest) prot (MAP_PRIVATE OR MAP_ANONYMOUS) (- 1) 0)
               (\<lambda>(p, box). Inr (True, proc\<lparr>pr_box := box\<rparr>))
           else Inr (True, proc)))
     else Inr (True, proc))"

definition seg_from_memory ::
  "'k world hostvm \<Rightarrow> 'k LPSProc \<Rightarrow> u64 \<Rightarrow> u64 \<Rightarrow> u64 \<Rightarrow> u64 \<Rightarrow> u64 \<Rightarrow> cint \<Rightarrow> Buf \<Rightarrow> (bool \<times> 'k LPSProc) res" where
  "seg_from_memory hv proc start offset endp p_offset filesz prot buf =
     rbind (lps_box_mapat hv (pr_box proc) start (endp - start) (PROT_READ OR PROT_WRITE) (MAP_PRIVATE OR MAP_ANONYMOUS) (- 1) 0) (\<lambda>(p, box).
     let proc = proc\<lparr>pr_box := box\<rparr> in
     if p = - 1 then Inr (False, proc)
     else
       rbind (buf_read buf filesz p_offset) (\<lambda>bs.
       let proc = pr_set_mem proc (store_bytes (start + offset) bs) in
       if of_nat (length bs) \<noteq> filesz then Inr (False, proc)
       else
         rbind (lps_box_mprotect hv (pr_box proc) start (endp - start) prot) (\<lambda>(r, box).
         Inr (\<not> sint r < 0, proc\<lparr>pr_box := box\<rparr>))))"

definition buf_read_elfseg ::
  "'k world hostvm \<Rightarrow> 'k LPSProc \<Rightarrow> u64 \<Rightarrow> u64 \<Rightarrow> u64 \<Rightarrow> u64 \<Rightarrow> u64 \<Rightarrow> u64 \<Rightarrow> cint \<Rightarrow> Buf \<Rightarrow> u64 \<Rightarrow> u64 \<Rightarrow>
   (bool \<times> 'k LPSProc) res" where
  "buf_read_elfseg hv proc start offset endp p_offset filesz memsz prot buf pagesize p_align =
     rbind (if bf_fd buf \<noteq> - 1
            then seg_from_file hv proc start offset endp p_offset filesz memsz prot buf pagesize p_align
            else seg_from_memory hv proc start offset endp p_offset filesz prot buf) (\<lambda>(ok, proc).
     if \<not> ok then Inr (False, proc)
     else add_seg proc \<lparr>es_start = start, es_end = endp, es_prot = prot\<rparr>)"

section \<open>Images\<close>

text \<open>The variables of the loop over the program headers.\<close>

record 'k elf_loop =
  el_proc :: "'k LPSProc"
  el_base :: u64
  el_first :: u64
  el_last :: u64

definition PAGESIZE :: u64 where "PAGESIZE = 4 * 1024"

text \<open>One program header; False is the error exit.\<close>

definition load_phdr :: "'k world hostvm \<Rightarrow> Buf \<Rightarrow> u64 \<Rightarrow> Elf64_Phdr \<Rightarrow> 'k elf_loop \<Rightarrow> (bool \<times> 'k elf_loop) res" where
  "load_phdr hv elf elfbase p l =
     (if ph_type p \<noteq> PT_LOAD then Inr (True, l)
      else if ph_memsz p = 0 then Inr (True, l)
      else if ph_align p mod PAGESIZE \<noteq> 0 then Inr (False, l)
      else
        (let start = truncp (ph_vaddr p) (ph_align p);
             endp = ceilp (ph_vaddr p + ph_memsz p) (ph_align p);
             offset = ph_vaddr p - start in
         if ph_memsz p < ph_filesz p then Inr (False, l)
         else if endp \<le> start \<or> start \<ge> CODE_MAX \<or> endp \<ge> CODE_MAX then Inr (False, l)
         else
           (let base = el_base l;
                l = (if el_first l = 0 \<or> elfbase + start < el_first l then l\<lparr>el_first := elfbase + start\<rparr> else l);
                prot = pflags (ucast (ph_flags p)) in
            rbind (buf_read_elfseg hv (el_proc l) (base + start) offset (base + endp) (ph_offset p) (ph_filesz p) (ph_memsz p)
                     prot elf PAGESIZE (ph_align p)) (\<lambda>(ok, proc).
            let l = l\<lparr>el_proc := proc\<rparr> in
            if \<not> ok then Inr (False, l)
            else
              (let base = (if base = 0 then base + start else base) in
               Inr (True, l\<lparr>el_base := base,
                            el_last := (if base + endp > el_last l then base + endp else el_last l)\<rparr>))))))"

fun load_phdrs ::
  "'k world hostvm \<Rightarrow> Buf \<Rightarrow> u64 \<Rightarrow> Elf64_Phdr list \<Rightarrow> 'k elf_loop \<Rightarrow> (bool \<times> 'k elf_loop) res" where
  "load_phdrs hv elf elfbase [] l = Inr (True, l)"
| "load_phdrs hv elf elfbase (p # ps) l =
     rbind (load_phdr hv elf elfbase p l) (\<lambda>(ok, l).
     if \<not> ok then Inr (False, l) else load_phdrs hv elf elfbase ps l)"

text \<open>What \<open>elf_load_one\<close> reports: first, last and entry address and the header.\<close>

type_synonym elf_image = "u64 \<times> u64 \<times> u64 \<times> Elf64_Ehdr"

definition elf_load_one ::
  "'k world hostvm \<Rightarrow> bool \<Rightarrow> 'k LPSProc \<Rightarrow> Buf \<Rightarrow> u64 \<Rightarrow> (elf_image option \<times> 'k LPSProc) res" where
  "elf_load_one hv malloc_ok proc elf base =
     rbind (buf_read elf sizeof_Ehdr 0) (\<lambda>hb.
     if length hb \<noteq> unat sizeof_Ehdr then Inr (None, proc)
     else
       (let ehdr = read_ehdr hb in
        if \<not> elf_check ehdr then Inr (None, proc)
        else if eh_type ehdr \<noteq> ET_DYN then Inr (None, proc)
        else if eh_phnum ehdr > PHNUM_MAX then Inr (None, proc)
        else if \<not> malloc_ok then Inr (None, proc)
        else if eh_phoff ehdr \<ge> bf_size elf then Inr (None, proc)
        else
          rbind (buf_read elf (sizeof_Phdr * eh_phnum ehdr) (eh_phoff ehdr)) (\<lambda>pb.
          if length pb \<noteq> unat (sizeof_Phdr * eh_phnum ehdr) then Inr (None, proc)
          else if eh_entry ehdr \<ge> CODE_MAX then Inr (None, proc)
          else
            rbind (load_phdrs hv elf base (map (read_phdr pb) [0 ..< unat (eh_phnum ehdr)])
                     \<lparr>el_proc = proc, el_base = base, el_first = 0, el_last = 0\<rparr>) (\<lambda>(ok, l).
            if \<not> ok then Inr (None, el_proc l)
            else Inr (Some (el_first l, el_last l, el_base l + eh_entry ehdr, ehdr), el_proc l)))))"

text \<open>The interpreter is None where the code has a NULL pointer.\<close>

definition elf_load ::
  "'k world hostvm \<Rightarrow> bool \<Rightarrow> 'k LPSProc \<Rightarrow> Buf \<Rightarrow> Buf option \<Rightarrow> (ELFLoadInfo option \<times> 'k LPSProc) res" where
  "elf_load hv malloc_ok proc prog interp =
     rbind (elf_load_one hv malloc_ok proc prog (bi_base (pr_boxinfo proc))) (\<lambda>(img, proc).
     case img of
       None \<Rightarrow> Inr (None, proc)
     | Some (p_first, p_last, p_entry, p_ehdr) \<Rightarrow>
         rbind (case interp of
                  None \<Rightarrow> Inr (Some None, proc)
                | Some b \<Rightarrow> rbind (elf_load_one hv malloc_ok proc b p_last) (\<lambda>(i, proc). Inr (map_option Some i, proc)))
           (\<lambda>(i, proc).
         case i of
           None \<Rightarrow> Inr (None, proc)
         | Some i \<Rightarrow>
             (let (i_first, i_last, i_entry) = (case i of None \<Rightarrow> (p_first, p_last, 0) | Some (f, l, e, _) \<Rightarrow> (f, l, e)) in
              Inr (Some \<lparr>ei_lastva = i_last, ei_elfentry = p_entry, ei_ldentry = i_entry, ei_elfbase = p_first,
                         ei_ldbase = i_first, ei_elfphoff = eh_phoff p_ehdr, ei_elfphnum = ucast (eh_phnum p_ehdr),
                         ei_elfphentsize = ucast (eh_phentsize p_ehdr)\<rparr>, proc))))"

section \<open>Processes\<close>

definition proc_load :: "'k world hostvm \<Rightarrow> bool \<Rightarrow> 'k LPSProc \<Rightarrow> cint \<Rightarrow> u8 list \<Rightarrow> (bool \<times> 'k LPSProc) res" where
  "proc_load hv malloc_ok proc prog_fd prog =
     rbind (elf_load hv malloc_ok proc \<lparr>bf_fd = prog_fd, bf_data = prog, bf_size = of_nat (length prog)\<rparr> None) (\<lambda>(info, proc).
     case info of
       None \<Rightarrow> Inr (False, proc)
     | Some info \<Rightarrow>
         (let proc = proc\<lparr>pr_entry := ei_elfentry info, pr_elfinfo := info, pr_brkbase := ei_lastva info, pr_brksize := 0\<rparr> in
          rbind (lps_box_mapat hv (pr_box proc) (pr_brkbase proc) (lo_brksize (pr_opts proc)) PROT_NONE
                   (MAP_PRIVATE OR MAP_ANONYMOUS) (- 1) 0) (\<lambda>(r, box).
          Inr (r \<noteq> - 1, proc\<lparr>pr_box := box\<rparr>))))"

definition lps_proc_load :: "'k world hostvm \<Rightarrow> bool \<Rightarrow> 'k LPSProc \<Rightarrow> u8 list \<Rightarrow> (bool \<times> 'k LPSProc) res" where
  "lps_proc_load hv malloc_ok proc prog = proc_load hv malloc_ok proc (- 1) prog"

end
