(* ===== verification/Confine.thy ===== *)
theory Confine
  imports Proc
begin

text \<open>
  What it means for a process to stay inside its sandbox. I is a property of the world of kernel and
  memory that nothing inside a range of addresses can break; an operation of the runtime is confined
  when it keeps every such property for the range of the sandbox. The hypotheses about the host say
  so for its memory services, and the lemmas carry the property through the operations of a process.
\<close>

section \<open>Hypotheses\<close>

definition mem_keeps :: "nat \<Rightarrow> nat \<Rightarrow> ('k world \<Rightarrow> bool) \<Rightarrow> bool" where
  "mem_keeps lo hi I \<longleftrightarrow>
     (\<forall>w a bs. lo \<le> unat a \<and> unat a + length bs \<le> hi \<and> I w \<longrightarrow> I (w\<lparr>w_mem := store_bytes a bs (w_mem w)\<rparr>))"

definition prot_keeps :: "'h hostvm \<Rightarrow> nat \<Rightarrow> nat \<Rightarrow> ('h \<Rightarrow> bool) \<Rightarrow> bool" where
  "prot_keeps hv lo hi I \<longleftrightarrow>
     (\<forall>a n prot h. lo \<le> unat a \<and> unat a + unat n \<le> hi \<and> I h \<longrightarrow> I (snd (hv_mprotect hv a n prot h)))"

definition host_confined :: "'k world hostvm \<Rightarrow> nat \<Rightarrow> nat \<Rightarrow> ('k world \<Rightarrow> bool) \<Rightarrow> bool" where
  "host_confined hv lo hi I \<longleftrightarrow>
     none_ok hv \<and> fixed_or_fail hv \<and> host_keeps hv lo hi I \<and> prot_keeps hv lo hi I \<and> mem_keeps lo hi I"

section \<open>Requests given by bytes\<close>

lemma pages_up_le: "2 ^ p dvd b \<Longrightarrow> n \<le> b \<Longrightarrow> pages_up p n \<le> b div 2 ^ p"
proof -
  assume "2 ^ p dvd b" and n: "n \<le> b"
  then obtain k where b: "b = k * 2 ^ p" by (auto elim: dvdE)
  have "0 < (2 :: nat) ^ p" by simp
  then have "n + (2 ^ p - 1) < Suc k * 2 ^ p" using n unfolding b mult_Suc by linarith
  then have "pages_up p n < Suc k" unfolding pages_up_def by (rule less_mult_imp_div_less)
  then show ?thesis by (simp add: b)
qed

lemma box_reqI:
  assumes "box_ok box" "2 ^ 12 dvd unat addr" "sz \<noteq> 0" "box_lo box \<le> unat addr" "unat addr + unat sz \<le> box_hi box"
  shows "box_req box addr sz"
proof -
  let ?mm = "s_mm (bx_st box)"
  have p: "mm_p2pagesize ?mm = 12" using assms(1) by (simp add: box_ok_def)
  note lim = box_ok_limit [OF assms(1)]
  obtain q where q: "unat addr = 2 ^ 12 * q" using assms(2) by (rule dvdE)
  have lo: "unat (mm_base ?mm) \<le> q" using assms(1,4) q by (simp add: box_ok_def)
  let ?B = "unat (mm_base ?mm) + unat (mm_len ?mm)"
  have hi: "box_hi box = 2 ^ 12 * ?B" unfolding lim(1) by (simp only: mult.commute)
  have "unat sz \<le> 2 ^ 12 * ?B - 2 ^ 12 * q" using assms(5) hi q by linarith
  then have le: "unat sz \<le> 2 ^ 12 * (?B - q)" by (simp only: diff_mult_distrib2)
  have "pages_up 12 (unat sz) \<le> 2 ^ 12 * (?B - q) div 2 ^ 12" by (rule pages_up_le [OF dvd_triv_left le])
  then have pg: "pages_up 12 (unat sz) \<le> ?B - q" by simp
  have "q < ?B"
  proof -
    have "0 < unat sz" using assms(3) by (simp add: unat_gt_0)
    then have "2 ^ 12 * q < 2 ^ 12 * ?B" using assms(5) hi q by linarith
    then show ?thesis by simp
  qed
  then have "q + pages_up 12 (unat sz) \<le> ?B" using pg by linarith
  moreover have "unat sz + (2 ^ 12 - 1) < 2 ^ 64"
  proof -
    have "?B * 2 ^ 12 < 2 ^ 64" using lim(1,2) by (simp only:)
    then have "?B < 2 ^ 52" by simp
    then have "2 ^ 12 * (?B - q) \<le> 2 ^ 12 * (2 ^ 52 - 1)" by (intro mult_le_mono2) linarith
    then show ?thesis using le by simp
  qed
  ultimately show ?thesis using p lo q assms(3) by (simp add: unmap_req_def)
qed

section \<open>Processes\<close>

text \<open>The sandbox of a process is well formed and its place is recorded in the process.\<close>

definition proc_ok :: "'k LPSProc \<Rightarrow> bool" where
  "proc_ok p \<longleftrightarrow> box_ok (pr_box p) \<and> mem_ok (pr_box p) \<and> pr_boxinfo p = lps_box_info (pr_box p)"

text \<open>An operation took the process from p to p' and kept the property I of the world.\<close>

definition proc_kept :: "('k world \<Rightarrow> bool) \<Rightarrow> 'k LPSProc \<Rightarrow> 'k LPSProc \<Rightarrow> bool" where
  "proc_kept I p p' \<longleftrightarrow> proc_ok p' \<and> I (pr_world p') \<and> bx_base (pr_box p') = bx_base (pr_box p) \<and>
     bx_size (pr_box p') = bx_size (pr_box p)"

definition proc_confined :: "'k world hostvm \<Rightarrow> ('k world \<Rightarrow> bool) \<Rightarrow> 'k LPSProc \<Rightarrow> bool" where
  "proc_confined hv I p \<longleftrightarrow> proc_ok p \<and> I (pr_world p) \<and> host_confined hv (box_lo (pr_box p)) (box_hi (pr_box p)) I"

lemma proc_kept_refl: "proc_confined hv I p \<Longrightarrow> proc_kept I p p"
  by (simp add: proc_confined_def proc_kept_def)

lemma proc_kept_trans: "proc_kept I p p' \<Longrightarrow> proc_kept I p' p'' \<Longrightarrow> proc_kept I p p''"
  by (simp add: proc_kept_def)

lemma proc_kept_confined: "proc_kept I p p' \<Longrightarrow> proc_confined hv I p \<Longrightarrow> proc_confined hv I p'"
  by (simp add: proc_confined_def proc_kept_def)

lemma proc_kept_box:
  assumes "proc_confined hv I p" "box_kept I (pr_box p) box'"
  shows "proc_kept I p (p\<lparr>pr_box := box'\<rparr>)"
  using assms by (simp add: proc_confined_def proc_kept_def proc_ok_def box_kept_def lps_box_info_def pr_world_def)

lemma proc_kept_world:
  assumes "proc_confined hv I p" "I w"
  shows "proc_kept I p (pr_set_world p w)"
  using assms
  by (simp add: proc_confined_def proc_kept_def proc_ok_def lps_box_info_def pr_world_def pr_set_world_def
      box_set_world_def box_ok_def mem_ok_def mm_wf_ud)

lemma proc_kept_mem:
  assumes "proc_confined hv I p" "box_lo (pr_box p) \<le> unat a" "unat a + length bs \<le> box_hi (pr_box p)"
  shows "proc_kept I p (pr_set_mem p (store_bytes a bs))"
  unfolding pr_set_mem_def using assms(1)
  by (rule proc_kept_world) (use assms in \<open>simp add: proc_confined_def host_confined_def mem_keeps_def\<close>)

text \<open>Other fields of a process do not matter.\<close>

lemma proc_kept_fields [simp]:
  "proc_kept I p (p'\<lparr>pr_segs := x\<rparr>) = proc_kept I p p'" "proc_kept I p (p'\<lparr>pr_entry := e\<rparr>) = proc_kept I p p'"
  "proc_kept I p (p'\<lparr>pr_elfinfo := i\<rparr>) = proc_kept I p p'" "proc_kept I p (p'\<lparr>pr_brkbase := b\<rparr>) = proc_kept I p p'"
  "proc_kept I p (p'\<lparr>pr_brksize := n\<rparr>) = proc_kept I p p'" "proc_kept I p (p'\<lparr>pr_thread_count := c\<rparr>) = proc_kept I p p'"
  "proc_kept I p (p'\<lparr>pr_fds := t\<rparr>) = proc_kept I p p'" "proc_kept I p (p'\<lparr>pr_fheap := h\<rparr>) = proc_kept I p p'"
  "proc_kept I p (p'\<lparr>pr_cwd := s\<rparr>) = proc_kept I p p'"
  by (simp_all add: proc_kept_def proc_ok_def pr_world_def)

section \<open>Memory operations\<close>

lemma mapat_kept:
  assumes "proc_confined hv I p" "2 ^ 12 dvd unat addr" "sz \<noteq> 0" "box_lo (pr_box p) \<le> unat addr"
    "unat addr + unat sz \<le> box_hi (pr_box p)"
  obtains r box' where "lps_box_mapat hv (pr_box p) addr sz prot flags fd off = Inr (r, box')"
    "proc_kept I p (p\<lparr>pr_box := box'\<rparr>)" "r \<in> {addr, -1}"
proof -
  have ok: "box_ok (pr_box p)" "mem_ok (pr_box p)" "none_ok hv" "fixed_or_fail hv"
      "host_keeps hv (box_lo (pr_box p)) (box_hi (pr_box p)) I" "I (box_host (pr_box p))"
    using assms(1) by (simp_all add: proc_confined_def proc_ok_def host_confined_def pr_world_def)
  have req: "box_req (pr_box p) addr sz" using ok(1) assms(2-5) by (rule box_reqI)
  show thesis
    using box_mapat_ok [OF ok(1,2) req ok(3-6), of prot flags fd off] proc_kept_box [OF assms(1)] that by blast
qed

lemma mprotect_kept:
  assumes "proc_confined hv I p" "box_lo (pr_box p) \<le> unat addr" "unat addr + unat sz \<le> box_hi (pr_box p)"
  obtains r box' where "lps_box_mprotect hv (pr_box p) addr sz prot = Inr (r, box')" "proc_kept I p (p\<lparr>pr_box := box'\<rparr>)"
proof -
  obtain r h where h: "hv_mprotect hv addr sz prot (box_host (pr_box p)) = (r, h)" by (rule prod.exhaust)
  have "I (snd (hv_mprotect hv addr sz prot (box_host (pr_box p))))"
    using assms unfolding proc_confined_def host_confined_def prot_keeps_def pr_world_def by blast
  then have "I h" using h by simp
  then have "proc_kept I p (pr_set_world p h)" by (rule proc_kept_world [OF assms(1)])
  moreover have "in_box (pr_box p) addr sz"
  proof -
    have "box_hi (pr_box p) < 2 ^ 64" using assms(1) box_ok_limit(2) by (auto simp: proc_confined_def proc_ok_def)
    then show ?thesis using assms(2,3) by (simp add: in_box_def u64_le_iff unat_add_nowrap)
  qed
  ultimately show thesis using that h by (simp add: lps_box_mprotect_def pr_set_world_def box_set_world_def)
qed

section \<open>A concrete host\<close>

text \<open>Mappings are placed where asked and read as zeros; descriptors and protection are ignored.\<close>

definition zero_host :: "'k world hostvm" where
  "zero_host = \<lparr>
     hv_mmap = (\<lambda>a n prot flags fd off w. if n = 0 then (-1, w)
                 else (a, w\<lparr>w_mem := (\<lambda>x. if unat (x - a) < unat n then 0 else w_mem w x)\<rparr>)),
     hv_munmap = (\<lambda>a n w. (0, w)),
     hv_mprotect = (\<lambda>a n prot w. (0, w)),
     hv_malloc = (\<lambda>n w. (True, w))\<rparr>"

text \<open>Memory outside a range is as in m.\<close>

definition same_outside_range :: "memory \<Rightarrow> nat \<Rightarrow> nat \<Rightarrow> 'k world \<Rightarrow> bool" where
  "same_outside_range m lo hi w \<longleftrightarrow> (\<forall>a. unat a < lo \<or> hi \<le> unat a \<longrightarrow> w_mem w a = m a)"

lemma outside_offset:
  assumes "unat x < lo \<or> hi \<le> unat x" "lo \<le> unat a" "unat a + n \<le> hi" "hi < 2 ^ 64"
  shows "\<not> unat (x - a :: u64) < n"
proof (cases "a \<le> x")
  case True
  then have "unat (x - a) = unat x - unat a" by (rule unat_sub)
  then show ?thesis using True assms by (simp add: word_le_nat_alt)
next
  case False
  then have "unat (x - a) = unat x + 2 ^ 64 - unat a"
    using unat_sub_if_size [of x a] by (simp add: word_le_nat_alt word_size)
  then show ?thesis using assms unat_lt_2p64 [of a] by linarith
qed

lemma zero_host_confined:
  assumes "hi < 2 ^ 64"
  shows "host_confined zero_host lo hi (same_outside_range m lo hi)"
proof -
  have "none_ok zero_host" "fixed_or_fail zero_host" by (simp_all add: none_ok_def fixed_or_fail_def zero_host_def)
  moreover have "host_keeps zero_host lo hi (same_outside_range m lo hi)"
    using outside_offset [OF _ _ _ assms] by (auto simp: host_keeps_def zero_host_def same_outside_range_def)
  moreover have "prot_keeps zero_host lo hi (same_outside_range m lo hi)" by (simp add: prot_keeps_def zero_host_def)
  moreover have "mem_keeps lo hi (same_outside_range m lo hi)"
    using outside_offset [OF _ _ _ assms] by (auto simp: mem_keeps_def same_outside_range_def store_bytes_def)
  ultimately show ?thesis by (simp add: host_confined_def)
qed

section \<open>A concrete process\<close>

definition demo_proc_box :: "unit world LPSBox" where
  "demo_proc_box = \<lparr>bx_st = \<lparr>s_heap = \<lparr>h_cells = Map.empty, h_next = 0, h_oom = (\<lambda>_. False)\<rparr>,
       s_mm = \<lparr>mm_base = 0x40000, mm_len = 0x80000, mm_p2pagesize = 12, mm_nodes = None, mm_cursor = None\<rparr>,
       s_ud = \<lparr>w_mem = (\<lambda>_. 0), w_kern = ()\<rparr>\<rparr>,
     bx_base = 0x40000000, bx_size = 0x80000000, bx_userdata = 0\<rparr>"

definition demo_proc :: "unit LPSProc" where
  "demo_proc = \<lparr>pr_box = demo_proc_box, pr_boxinfo = \<lparr>bi_base = 0x40000000, bi_size = 0x80000000\<rparr>, pr_brkbase = 0,
     pr_brksize = 0, pr_entry = 0, pr_elfinfo = blank_elfinfo, pr_segs = [], pr_thread_count = 0,
     pr_fds = demo_table, pr_fheap = demo_fheap, pr_cwd = [],
     pr_opts = \<lparr>lo_verbose = False, lo_passthrough = False, lo_brksize = BRKMAXSIZE, lo_stacksize = STACKSIZE\<rparr>\<rparr>"

lemma demo_proc_confined:
  "proc_confined zero_host (same_outside_range (\<lambda>_. 0) 0x40000000 0xc0000000) demo_proc"
proof -
  have "mm_wf (bx_st demo_proc_box)"
    using init_ok [of 12 "0x40000000" "0x80000000" "\<lambda>_. False" "\<lparr>w_mem = (\<lambda>_. 0 :: u8), w_kern = ()\<rparr>"]
      ispow2_power [of 12] getpow_power [of 12]
    by (auto simp: demo_proc_box_def mm_init_def)
  then have "proc_ok demo_proc"
    by (simp add: proc_ok_def box_ok_def mem_ok_def demo_proc_def demo_proc_box_def lps_box_info_def)
  then show ?thesis
    using zero_host_confined [of "0xc0000000" "0x40000000" "\<lambda>_. 0"]
    by (simp add: proc_confined_def demo_proc_def demo_proc_box_def pr_world_def same_outside_range_def)
qed

end
