(* ===== verification/Elf_Spec.thy ===== *)
theory Elf_Spec
  imports Elf Confine
begin

text \<open>
  The loader is confined: whatever the bytes of an image are, as long as the address arithmetic of its
  program headers does not wrap, loading writes and maps only memory of the sandbox, and the entry point
  is inside it. An image whose alignment makes the arithmetic wrap does escape.
\<close>

section \<open>Masks that are not powers of two\<close>

lemma and_not_sub: "(x :: u64) AND NOT m = x - (x AND m)"
proof -
  have "x = (x AND NOT m) + (x AND m)"
    by (subst disjunctive_add_eq_or) (auto intro!: bit_eqI simp: bit_simps)
  then show ?thesis by (simp add: algebra_simps)
qed

lemma unat_and_not: "unat ((x :: u64) AND NOT m) = unat x - unat (x AND m)"
  unfolding and_not_sub by (rule unat_sub) (rule word_and_le2)

lemma truncp_le: "unat (truncp a n) \<le> unat a"
  by (simp add: truncp_def unat_and_not)

lemma ceilp_ge:
  assumes "unat a + unat (n - 1) < 2 ^ 64"
  shows "unat a \<le> unat (ceilp a n)"
proof -
  have "unat ((a + (n - 1)) AND (n - 1)) \<le> unat (n - 1)"
    using word_and_le1 [of "a + (n - 1)" "n - 1"] by (simp only: word_le_nat_alt)
  moreover have "unat (a + (n - 1)) = unat a + unat (n - 1)" using assms by (rule unat_add_nowrap)
  ultimately show ?thesis by (simp add: ceilp_def Let_def unat_and_not)
qed

lemma page_mask:
  assumes "(n :: u64) mod PAGESIZE = 0"
  shows "take_bit 12 (n - 1) = mask 12"
proof (cases "n = 0")
  case False
  have "2 ^ 12 dvd unat n" using assms u64_mod_pow2_eq_0 [of 12 n] by (simp add: PAGESIZE_def)
  then obtain k where k: "unat n = 2 ^ 12 * k" by (rule dvdE)
  have "k \<noteq> 0" using k unat_gt_0 [of n] False by (intro notI) simp
  then obtain j where j: "k = Suc j" by (cases k) auto
  have "unat (n - 1) = 4096 * j + 4095" using k j False by (simp add: unat_minus_one)
  then have "unat (take_bit 12 (n - 1)) = 4095" by (simp add: take_bit_eq_mod unat_mod)
  then show ?thesis by (simp add: u64_eq_iff mask_eq_exp_minus_1)
qed simp

lemma page_aligned:
  assumes "(n :: u64) mod PAGESIZE = 0"
  shows "2 ^ 12 dvd unat (x AND NOT (n - 1))"
proof -
  have b: "bit (n - 1) i" if "i < 12" for i
    using page_mask [OF assms] that by (auto dest!: arg_cong [where f = "\<lambda>w. bit w i"] simp: bit_simps)
  have "take_bit 12 (x AND NOT (n - 1)) = 0"
    by (rule bit_eqI) (auto simp: bit_simps b)
  then have "(x AND NOT (n - 1)) mod 2 ^ 12 = 0" by (simp add: take_bit_eq_mod)
  then show ?thesis by (simp only: u64_mod_pow2_eq_0)
qed

section \<open>Segments\<close>

definition buf_ok :: "Buf \<Rightarrow> bool" where
  "buf_ok buf \<longleftrightarrow> unat (bf_size buf) = length (bf_data buf)"

lemma buf_read_ok:
  assumes "buf_ok buf" "unat off \<le> length (bf_data buf)" "unat off + unat count < 2 ^ 64"
  obtains bs where "buf_read buf count off = Inr bs" "length bs \<le> unat count"
proof -
  let ?c = "if off + count > bf_size buf then bf_size buf - off else count"
  have le: "off \<le> bf_size buf" using assms(1,2) by (simp add: buf_ok_def word_le_nat_alt)
  have s: "unat (off + count) = unat off + unat count" using assms(3) by (rule unat_add_nowrap)
  have "unat off + unat ?c \<le> length (bf_data buf) \<and> unat ?c \<le> unat count"
    using assms(1) s unat_sub [OF le] le by (auto simp: buf_ok_def word_less_nat_alt word_le_nat_alt)
  then show thesis using that by (auto simp: buf_read_def Let_def)
qed

text \<open>A segment that lies in the sandbox with its file contents inside it.\<close>

definition seg_fits :: "'k LPSProc \<Rightarrow> u64 \<Rightarrow> u64 \<Rightarrow> u64 \<Rightarrow> u64 \<Rightarrow> bool" where
  "seg_fits p start offset endp filesz \<longleftrightarrow>
     2 ^ 12 dvd unat start \<and> 2 ^ 12 dvd unat endp \<and> start < endp \<and> box_lo (pr_box p) \<le> unat start \<and>
     unat endp \<le> box_hi (pr_box p) \<and> unat start + unat offset + unat filesz \<le> unat endp"

lemma seg_size: "(start :: u64) < endp \<Longrightarrow> endp - start \<noteq> 0 \<and> unat start + unat (endp - start) = unat endp"
  using unat_sub [of start endp] by (auto simp: word_less_nat_alt word_le_nat_alt)

lemma seg_fits_kept:
  "seg_fits p start offset endp filesz \<Longrightarrow> proc_kept I p p' \<Longrightarrow> seg_fits p' start offset endp filesz"
  by (simp add: seg_fits_def proc_kept_def)

lemma fill_kept:
  assumes "proc_confined hv I p" "seg_fits p start offset endp filesz" "length bs \<le> unat filesz"
  shows "proc_kept I p (pr_set_mem p (store_bytes (start + offset) bs))"
proof (rule proc_kept_mem [OF assms(1)])
  have f: "box_lo (pr_box p) \<le> unat start" "unat start + unat offset + unat filesz \<le> unat endp"
      "unat endp \<le> box_hi (pr_box p)"
    using assms(2) by (simp_all add: seg_fits_def)
  have "unat (start + offset) = unat start + unat offset"
    using f unat_lt_2p64 [of endp] by (intro unat_add_nowrap) linarith
  then show "box_lo (pr_box p) \<le> unat (start + offset)" "unat (start + offset) + length bs \<le> box_hi (pr_box p)"
    using f assms(3) by linarith+
qed

text \<open>The page after the file contents ends inside the segment.\<close>

lemma bss_end:
  assumes "unat b \<le> unat (endp :: u64)" "2 ^ 12 dvd unat endp"
  shows "unat b \<le> unat (ceilp b PAGESIZE)" "unat (ceilp b PAGESIZE) \<le> unat endp" "2 ^ 12 dvd unat (ceilp b PAGESIZE)"
proof -
  have page: "PAGESIZE = 2 ^ 12" by (simp add: PAGESIZE_def)
  have up: "round_up (2 ^ 12) (unat b) \<le> unat endp" using assms by (intro round_up_least) simp_all
  obtain k where k: "unat endp = 2 ^ 12 * k" using assms(2) by (rule dvdE)
  then have "unat endp \<le> 2 ^ 64 - 2 ^ 12" using unat_lt_2p64 [of endp] by simp
  then have "unat b + (2 ^ 12 - 1) < 2 ^ 64" using assms(1) by simp
  then have "unat (ceilp b PAGESIZE) = round_up (2 ^ 12) (unat b)" unfolding page by (intro unat_ceilp) simp_all
  then show "unat b \<le> unat (ceilp b PAGESIZE)" "unat (ceilp b PAGESIZE) \<le> unat endp" "2 ^ 12 dvd unat (ceilp b PAGESIZE)"
    using up round_up_ge [of "2 ^ 12" "unat b"] round_up_dvd by simp_all
qed

lemma seg_from_memory_kept:
  assumes "proc_confined hv I p" "seg_fits p start offset endp filesz" "buf_ok buf"
    "unat p_offset \<le> length (bf_data buf)" "unat p_offset + unat filesz < 2 ^ 64"
  obtains ok p' where "seg_from_memory hv p start offset endp p_offset filesz prot buf = Inr (ok, p')"
    "proc_kept I p p'" "pr_segs p' = pr_segs p"
proof -
  have f: "2 ^ 12 dvd unat start" "box_lo (pr_box p) \<le> unat start" "start < endp" "unat endp \<le> box_hi (pr_box p)"
    using assms(2) by (simp_all add: seg_fits_def)
  note sz = seg_size [OF f(3)]
  obtain r b1 where m: "lps_box_mapat hv (pr_box p) start (endp - start) (PROT_READ OR PROT_WRITE)
      (MAP_PRIVATE OR MAP_ANONYMOUS) (- 1) 0 = Inr (r, b1)" and k1: "proc_kept I p (p\<lparr>pr_box := b1\<rparr>)"
    by (rule mapat_kept [OF assms(1) f(1), of "endp - start"]) (use sz f(2,4) in auto)
  obtain bs where bs: "buf_read buf filesz p_offset = Inr bs" "length bs \<le> unat filesz"
    using assms(3-5) by (rule buf_read_ok)
  let ?p1 = "p\<lparr>pr_box := b1\<rparr>" let ?p2 = "pr_set_mem ?p1 (store_bytes (start + offset) bs)"
  note c1 = proc_kept_confined [OF k1 assms(1)]
  have k12: "proc_kept I ?p1 ?p2" using c1 seg_fits_kept [OF assms(2) k1] bs(2) by (rule fill_kept)
  note c2 = proc_kept_confined [OF k12 c1] and k2 = proc_kept_trans [OF k1 k12]
  have f2: "box_lo (pr_box ?p2) \<le> unat start" "unat start + unat (endp - start) \<le> box_hi (pr_box ?p2)"
    using seg_fits_kept [OF assms(2) k2] sz by (simp_all add: seg_fits_def)
  obtain r3 b3 where m3: "lps_box_mprotect hv (pr_box ?p2) start (endp - start) prot = Inr (r3, b3)"
      and k23: "proc_kept I ?p2 (?p2\<lparr>pr_box := b3\<rparr>)"
    by (rule mprotect_kept [OF c2 f2])
  have segs: "pr_segs ?p2 = pr_segs p" by (simp add: pr_set_mem_def pr_set_world_def)
  show thesis
  proof (cases "r = - 1 \<or> of_nat (length bs) \<noteq> filesz")
    case True
    then show ?thesis using that [OF _ k1, of False] that [OF _ k2, of False] m bs(1) segs
      by (cases "r = - 1") (simp_all add: seg_from_memory_def Let_def)
  next
    case False
    then show ?thesis using that [OF _ proc_kept_trans [OF k2 k23]] m bs(1) m3 segs
      by (simp add: seg_from_memory_def Let_def)
  qed
qed

lemma seg_from_file_kept:
  assumes "proc_confined hv I p" "seg_fits p start offset endp filesz"
  obtains ok p' where "seg_from_file hv p start offset endp p_offset filesz memsz prot buf PAGESIZE p_align = Inr (ok, p')"
    "proc_kept I p p'" "pr_segs p' = pr_segs p"
proof -
  have f: "2 ^ 12 dvd unat start" "box_lo (pr_box p) \<le> unat start" "start < endp" "unat endp \<le> box_hi (pr_box p)"
      "unat start + unat offset + unat filesz \<le> unat endp" "2 ^ 12 dvd unat endp"
    using assms(2) by (simp_all add: seg_fits_def)
  note sz = seg_size [OF f(3)] and top = unat_lt_2p64 [of endp]
  obtain r b1 where m: "lps_box_mapat hv (pr_box p) start (endp - start) prot MAP_PRIVATE (bf_fd buf)
      (truncp p_offset p_align) = Inr (r, b1)" and k1: "proc_kept I p (p\<lparr>pr_box := b1\<rparr>)"
    by (rule mapat_kept [OF assms(1) f(1), of "endp - start"]) (use sz f(2,4) in auto)
  let ?p1 = "p\<lparr>pr_box := b1\<rparr>" let ?b = "start + offset + filesz" let ?c = "ceilp ?b PAGESIZE"
  let ?p2 = "pr_set_mem ?p1 (store_bytes ?b (replicate (unat (?c - ?b)) 0))"
  note c1 = proc_kept_confined [OF k1 assms(1)]
  have b: "unat ?b = unat start + unat offset + unat filesz"
  proof -
    have "unat (start + offset) = unat start + unat offset" by (rule unat_add_nowrap) (use f(5) top in linarith)
    then show ?thesis using unat_add_nowrap [of "start + offset" filesz] f(5) top by linarith
  qed
  have c: "unat ?b \<le> unat ?c" "unat ?c \<le> unat endp" "2 ^ 12 dvd unat ?c"
    using bss_end [of ?b endp] f(5,6) b by auto
  have "unat ?b + length (replicate (unat (?c - ?b)) (0 :: u8)) = unat ?c"
    using c(1) unat_sub [of ?b ?c] by (simp add: word_le_nat_alt)
  then have k12: "proc_kept I ?p1 ?p2"
    using f(2,4) b c k1 by (intro proc_kept_mem [OF c1]) (simp_all add: proc_kept_def)
  note c2 = proc_kept_confined [OF k12 c1] and k2 = proc_kept_trans [OF k1 k12]
  have segs: "pr_segs ?p2 = pr_segs p" by (simp add: pr_set_mem_def pr_set_world_def)
  consider "r = - 1 \<or> \<not> memsz > filesz" | "r \<noteq> - 1" "memsz > filesz" "prot AND PROT_WRITE = 0"
    | "r \<noteq> - 1" "memsz > filesz" "prot AND PROT_WRITE \<noteq> 0" "\<not> ?c < endp"
    | "r \<noteq> - 1" "memsz > filesz" "prot AND PROT_WRITE \<noteq> 0" "?c < endp" by blast
  then show thesis
  proof cases
    case 1
    then show ?thesis using that [OF _ k1, of "r \<noteq> - 1"] m
      by (cases "r = - 1") (simp_all add: seg_from_file_def Let_def)
  next
    case 2
    then show ?thesis using that [OF _ k1, of False] m by (simp add: seg_from_file_def Let_def)
  next
    case 3
    then show ?thesis using that [OF _ k2, of True] m segs by (simp add: seg_from_file_def Let_def)
  next
    case 4
    have lo: "box_lo (pr_box ?p2) \<le> unat ?c" "unat endp \<le> box_hi (pr_box ?p2)"
      using k2 f(2,4) b c(1) by (simp_all add: proc_kept_def)
    obtain r3 b3 where m3: "lps_box_mapat hv (pr_box ?p2) ?c (endp - ?c) prot (MAP_PRIVATE OR MAP_ANONYMOUS) (- 1) 0
        = Inr (r3, b3)" and k23: "proc_kept I ?p2 (?p2\<lparr>pr_box := b3\<rparr>)"
      by (rule mapat_kept [OF c2 c(3), of "endp - ?c"]) (use seg_size [OF 4(4)] lo in auto)
    show ?thesis using that [OF _ proc_kept_trans [OF k2 k23], of True] m m3 segs 4 by (simp add: seg_from_file_def Let_def)
  qed
qed

text \<open>Segments recorded in a process lie in its sandbox.\<close>

definition segs_inside :: "'k LPSProc \<Rightarrow> bool" where
  "segs_inside p \<longleftrightarrow> (\<forall>s \<in> set (pr_segs p). box_lo (pr_box p) \<le> unat (es_start s) \<and> es_start s < es_end s \<and>
     unat (es_end s) \<le> box_hi (pr_box p))"

lemma elfseg_kept:
  assumes "proc_confined hv I p" "seg_fits p start offset endp filesz" "buf_ok buf"
    "unat p_offset \<le> length (bf_data buf)" "unat p_offset + unat filesz < 2 ^ 64"
    "length (pr_segs p) < ELFSEGMAXN" "segs_inside p"
  obtains ok p' where
    "buf_read_elfseg hv p start offset endp p_offset filesz memsz prot buf PAGESIZE p_align = Inr (ok, p')"
    "proc_kept I p p'" "segs_inside p'" "length (pr_segs p') \<le> Suc (length (pr_segs p))"
proof -
  let ?r = "if bf_fd buf \<noteq> - 1
      then seg_from_file hv p start offset endp p_offset filesz memsz prot buf PAGESIZE p_align
      else seg_from_memory hv p start offset endp p_offset filesz prot buf"
  obtain ok p' where r: "?r = Inr (ok, p')" and k: "proc_kept I p p'" and s: "pr_segs p' = pr_segs p"
  proof (cases "bf_fd buf \<noteq> - 1")
    case True
    then show ?thesis using that seg_from_file_kept [OF assms(1,2), of p_offset memsz prot buf p_align thesis] by simp
  next
    case False
    then show ?thesis using that seg_from_memory_kept [OF assms(1-5), of prot thesis] by simp
  qed
  let ?s = "\<lparr>es_start = start, es_end = endp, es_prot = prot\<rparr>"
  have in': "segs_inside p'" using assms(7) k s by (simp add: segs_inside_def proc_kept_def)
  have "segs_inside (p'\<lparr>pr_segs := pr_segs p' @ [?s]\<rparr>)"
    using in' seg_fits_kept [OF assms(2) k] by (simp add: segs_inside_def seg_fits_def)
  moreover have "add_seg p' ?s = Inr (True, p'\<lparr>pr_segs := pr_segs p' @ [?s]\<rparr>)"
    using assms(6) s by (simp add: add_seg_def)
  ultimately show thesis
    using that [of ok "if ok then p'\<lparr>pr_segs := pr_segs p' @ [?s]\<rparr> else p'"] r k s in'
    by (cases ok) (simp_all add: buf_read_elfseg_def)
qed

section \<open>Program headers\<close>

text \<open>
  A header whose address arithmetic does not wrap, whose contents start inside the file, and whose segment,
  where the loader accepts it, ends within M bytes. The loader checks none of it; for M of a gigabyte the last part
  says nothing, since the loader accepts no segment beyond the first gigabyte.
\<close>

definition phdr_sane :: "nat \<Rightarrow> Buf \<Rightarrow> Elf64_Phdr \<Rightarrow> bool" where
  "phdr_sane M buf p \<longleftrightarrow>
     unat (ph_vaddr p) + unat (ph_memsz p) + unat (ph_align p - 1) < 2 ^ 64 \<and>
     unat (ph_offset p) \<le> length (bf_data buf) \<and> unat (ph_offset p) + unat (ph_filesz p) < 2 ^ 64 \<and>
     (let e = ceilp (ph_vaddr p + ph_memsz p) (ph_align p) in e < CODE_MAX \<longrightarrow> unat e \<le> M)"

abbreviation loadable :: "Elf64_Phdr \<Rightarrow> bool" where
  "loadable p \<equiv> ph_type p = PT_LOAD \<and> ph_memsz p \<noteq> 0"

text \<open>The state of the loop while it loads at the base of the sandbox of a process.\<close>

definition loop_ok :: "nat \<Rightarrow> ('k world \<Rightarrow> bool) \<Rightarrow> 'k LPSProc \<Rightarrow> 'k elf_loop \<Rightarrow> bool" where
  "loop_ok M I p l \<longleftrightarrow> proc_kept I p (el_proc l) \<and> segs_inside (el_proc l) \<and> el_base l = bx_base (pr_box p) \<and>
     2 ^ 12 dvd unat (el_last l) \<and> (el_last l \<noteq> 0 \<longrightarrow> box_lo (pr_box p) \<le> unat (el_last l)) \<and>
     unat (el_last l) \<le> box_lo (pr_box p) + M"

lemma phdr_geometry:
  assumes "phdr_sane M buf h" "ph_align h mod PAGESIZE = 0" "\<not> ph_memsz h < ph_filesz h"
  defines "start \<equiv> truncp (ph_vaddr h) (ph_align h)" and "endp \<equiv> ceilp (ph_vaddr h + ph_memsz h) (ph_align h)"
  shows "2 ^ 12 dvd unat start" "2 ^ 12 dvd unat endp"
    "unat start + unat (ph_vaddr h - start) + unat (ph_filesz h) \<le> unat endp"
proof -
  show "2 ^ 12 dvd unat start" "2 ^ 12 dvd unat endp"
    using page_aligned [OF assms(2)] by (simp_all add: start_def endp_def truncp_def ceilp_def Let_def)
  have s: "unat (ph_vaddr h + ph_memsz h) = unat (ph_vaddr h) + unat (ph_memsz h)"
    using assms(1) by (intro unat_add_nowrap) (simp add: phdr_sane_def)
  then have "unat (ph_vaddr h) + unat (ph_memsz h) \<le> unat endp"
    using ceilp_ge [of "ph_vaddr h + ph_memsz h" "ph_align h"] assms(1) by (simp add: endp_def phdr_sane_def)
  moreover have "unat (ph_vaddr h - start) = unat (ph_vaddr h) - unat start"
    by (rule unat_sub) (simp add: word_le_nat_alt start_def truncp_le)
  ultimately show "unat start + unat (ph_vaddr h - start) + unat (ph_filesz h) \<le> unat endp"
    using truncp_le [of "ph_vaddr h" "ph_align h"] assms(3) by (simp add: start_def word_less_nat_alt)
qed

lemma shifted_fits:
  assumes "proc_kept I p q" "box_ok (pr_box p)" "M \<le> unat (bx_size (pr_box p))"
    "2 ^ 12 dvd unat start" "2 ^ 12 dvd unat endp" "start < endp" "unat endp \<le> M"
    "unat start + unat offset + unat filesz \<le> unat endp"
  defines "base \<equiv> bx_base (pr_box p)"
  shows "seg_fits q (base + start) offset (base + endp) filesz" "unat (base + endp) \<le> unat base + M"
proof -
  have hi: "box_hi (pr_box p) < 2 ^ 64" using assms(2) by (rule box_ok_limit)
  have lt: "unat start < unat endp" "unat endp \<le> M" using assms(6,7) by (simp_all only: word_less_nat_alt)
  then have u: "unat (base + start) = unat base + unat start" "unat (base + endp) = unat base + unat endp"
    using hi assms(3) by (auto intro!: unat_add_nowrap simp: base_def)
  have "2 ^ 12 dvd unat base" using assms(2) by (simp add: box_ok_def base_def)
  then show "seg_fits q (base + start) offset (base + endp) filesz" "unat (base + endp) \<le> unat base + M"
    using u lt assms(1,3-5,8) by (auto simp: seg_fits_def proc_kept_def base_def word_less_nat_alt)
qed

lemma load_phdr_ok:
  assumes "proc_confined hv I p" "0 < box_lo (pr_box p)" "M \<le> unat (bx_size (pr_box p))" "buf_ok buf"
    "phdr_sane M buf h" "loop_ok M I p l" "loadable h \<Longrightarrow> length (pr_segs (el_proc l)) < ELFSEGMAXN"
  obtains ok l' where "load_phdr hv buf base h l = Inr (ok, l')" "loop_ok M I p l'"
    "length (pr_segs (el_proc l')) \<le> length (pr_segs (el_proc l)) + (if loadable h then 1 else 0)"
    "ok \<and> (loadable h \<or> el_last l \<noteq> 0) \<Longrightarrow> el_last l' \<noteq> 0"
proof -
  let ?s = "truncp (ph_vaddr h) (ph_align h)" and ?e = "ceilp (ph_vaddr h + ph_memsz h) (ph_align h)"
  let ?b = "bx_base (pr_box p)"
  let ?l = "if el_first l = 0 \<or> base + ?s < el_first l then l\<lparr>el_first := base + ?s\<rparr> else l"
  consider "\<not> loadable h" | "loadable h" "ph_align h mod PAGESIZE \<noteq> 0 \<or> ph_memsz h < ph_filesz h \<or>
      ?e \<le> ?s \<or> ?s \<ge> CODE_MAX \<or> ?e \<ge> CODE_MAX"
    | "loadable h" "ph_align h mod PAGESIZE = 0" "\<not> ph_memsz h < ph_filesz h" "?s < ?e" "?e < CODE_MAX"
    by fastforce
  then show thesis
  proof cases
    case 1
    then show ?thesis using that [of True l] assms(6) by (auto simp: load_phdr_def)
  next
    case 2
    then show ?thesis using that [of False l] assms(6) by (auto simp: load_phdr_def Let_def)
  next
    case 3
    have l: "proc_kept I p (el_proc l)" "segs_inside (el_proc l)" "el_base l = ?b" using assms(6) by (simp_all add: loop_ok_def)
    have ok: "box_ok (pr_box p)" "?b \<noteq> 0" using assms(1,2) by (auto simp: proc_confined_def proc_ok_def)
    note g = phdr_geometry [OF assms(5) 3(2,3)]
    have le: "unat ?e \<le> M" using assms(5) 3(5) by (simp add: phdr_sane_def Let_def)
    note f = shifted_fits [OF l(1) ok(1) assms(3) g(1,2) 3(4) le g(3)]
    have sane: "unat (ph_offset h) \<le> length (bf_data buf)" "unat (ph_offset h) + unat (ph_filesz h) < 2 ^ 64"
      using assms(5) by (simp_all add: phdr_sane_def)
    obtain ok' q where r: "buf_read_elfseg hv (el_proc l) (?b + ?s) (ph_vaddr h - ?s) (?b + ?e) (ph_offset h)
        (ph_filesz h) (ph_memsz h) (pflags (ucast (ph_flags h))) buf PAGESIZE (ph_align h) = Inr (ok', q)"
        "proc_kept I (el_proc l) q" "segs_inside q" "length (pr_segs q) \<le> Suc (length (pr_segs (el_proc l)))"
      by (rule elfseg_kept [OF proc_kept_confined [OF l(1) assms(1)] f(1) assms(4) sane assms(7) [OF 3(1)] l(2)])
    have k: "proc_kept I p q" using l(1) r(2) by (rule proc_kept_trans)
    let ?l' = "?l\<lparr>el_proc := q\<rparr>"
    let ?l'' = "?l'\<lparr>el_base := ?b, el_last := (if ?b + ?e > el_last l then ?b + ?e else el_last l)\<rparr>"
    have same: "el_proc ?l = el_proc l" "el_base ?l = ?b" "el_last ?l = el_last l" using l(3) by simp_all
    have eq: "load_phdr hv buf base h l = Inr (ok', if ok' then ?l'' else ?l')"
      using less_trans [OF 3(4,5)] 3 r(1) ok(2) same l(3) by (simp add: load_phdr_def Let_def not_le)
    have e: "2 ^ 12 dvd unat (?b + ?e)" "box_lo (pr_box p) < unat (?b + ?e)"
      using f(1) l(1) by (auto simp: seg_fits_def proc_kept_def word_less_nat_alt)
    have e0: "0 < ?b + ?e" using e(2) by (simp add: word_less_nat_alt)
    have "loop_ok M I p ?l''" "loop_ok M I p ?l'" "el_last ?l'' \<noteq> 0"
      using assms(6) f(2) k r(3) same e e0 by (auto simp: loop_ok_def)
    then show ?thesis using that [OF eq] r(4) 3(1) by (cases ok') simp_all
  qed
qed

lemma load_phdrs_ok:
  assumes "proc_confined hv I p" "0 < box_lo (pr_box p)" "M \<le> unat (bx_size (pr_box p))" "buf_ok buf"
    "list_all (phdr_sane M buf) hs" "loop_ok M I p l"
    "length (pr_segs (el_proc l)) + length (filter loadable hs) \<le> ELFSEGMAXN"
  shows "\<exists>ok l'. load_phdrs hv buf base hs l = Inr (ok, l') \<and> loop_ok M I p l' \<and>
    (ok \<and> ((\<exists>h \<in> set hs. loadable h) \<or> el_last l \<noteq> 0) \<longrightarrow> el_last l' \<noteq> 0)"
  using assms(5-7)
proof (induction hs arbitrary: l)
  case (Cons h hs)
  have "loadable h \<Longrightarrow> length (pr_segs (el_proc l)) < ELFSEGMAXN" using Cons.prems(3) by simp
  then obtain ok l' where r: "load_phdr hv buf base h l = Inr (ok, l')" "loop_ok M I p l'"
      "length (pr_segs (el_proc l')) \<le> length (pr_segs (el_proc l)) + (if loadable h then 1 else 0)"
      "ok \<and> (loadable h \<or> el_last l \<noteq> 0) \<Longrightarrow> el_last l' \<noteq> 0"
    using load_phdr_ok [OF assms(1-4) _ Cons.prems(2), of h base thesis] Cons.prems(1) by auto
  have "length (pr_segs (el_proc l')) + length (filter loadable hs) \<le> ELFSEGMAXN"
    using r(3) Cons.prems(3) by (auto split: if_splits)
  then obtain ok2 l2 where r2: "load_phdrs hv buf base hs l' = Inr (ok2, l2)" "loop_ok M I p l2"
      "ok2 \<and> ((\<exists>h \<in> set hs. loadable h) \<or> el_last l' \<noteq> 0) \<longrightarrow> el_last l2 \<noteq> 0"
    using Cons.IH [OF _ r(2)] Cons.prems(1) by auto
  show ?case
    using r(1,2,4) r2 by (intro exI [of _ "ok \<and> ok2"] exI [of _ "if ok then l2 else l'"]) auto
qed auto

section \<open>Images\<close>

text \<open>Loading keeps the options, the files and the working directory of the process.\<close>

definition rest_kept :: "'k LPSProc \<Rightarrow> 'k LPSProc \<Rightarrow> bool" where
  "rest_kept p p' \<longleftrightarrow> pr_opts p' = pr_opts p \<and> pr_fds p' = pr_fds p \<and> pr_fheap p' = pr_fheap p \<and> pr_cwd p' = pr_cwd p"

lemma rest_kept_refl [simp]: "rest_kept p p"
  by (simp add: rest_kept_def)

lemma rest_kept_trans: "rest_kept p p' \<Longrightarrow> rest_kept p' p'' \<Longrightarrow> rest_kept p p''"
  by (simp add: rest_kept_def)

lemma rest_kept_update [simp]:
  "rest_kept p (pr_set_mem q f) = rest_kept p q" "rest_kept p (pr_set_world q w) = rest_kept p q"
  "rest_kept p (q\<lparr>pr_box := b\<rparr>) = rest_kept p q" "rest_kept p (q\<lparr>pr_segs := l\<rparr>) = rest_kept p q"
  "rest_kept p (q\<lparr>pr_thread_count := c\<rparr>) = rest_kept p q" "rest_kept p (q\<lparr>pr_entry := e\<rparr>) = rest_kept p q"
  "rest_kept p (q\<lparr>pr_elfinfo := i\<rparr>) = rest_kept p q" "rest_kept p (q\<lparr>pr_brkbase := x\<rparr>) = rest_kept p q"
  "rest_kept p (q\<lparr>pr_brksize := y\<rparr>) = rest_kept p q"
  by (simp_all add: rest_kept_def pr_set_mem_def pr_set_world_def)

lemma seg_rest:
  "seg_from_file hv p start offset endp p_offset filesz memsz prot buf pagesize p_align = Inr (ok, p') \<Longrightarrow> rest_kept p p'"
  "seg_from_memory hv p start offset endp p_offset filesz prot buf = Inr (ok, p') \<Longrightarrow> rest_kept p p'"
  by (auto simp: seg_from_file_def seg_from_memory_def Let_def rbind_Inr_iff split: if_splits)

lemma load_phdr_rest: "load_phdr hv elf base h l = Inr (ok, l') \<Longrightarrow> rest_kept (el_proc l) (el_proc l')"
  by (auto simp: load_phdr_def buf_read_elfseg_def add_seg_def Let_def rbind_Inr_iff split: if_splits dest!: seg_rest)

lemma load_phdrs_rest: "load_phdrs hv elf base hs l = Inr (ok, l') \<Longrightarrow> rest_kept (el_proc l) (el_proc l')"
proof (induction hs arbitrary: l)
  case (Cons h hs)
  then obtain ok1 l1 where "load_phdr hv elf base h l = Inr (ok1, l1)" "l' = l1 \<or> load_phdrs hv elf base hs l1 = Inr (ok, l')"
    by (auto simp: rbind_Inr_iff split: if_splits)
  then show ?case using load_phdr_rest [of hv elf base h l ok1 l1] Cons.IH [of l1] rest_kept_trans by blast
qed simp

lemma elf_load_one_rest: "elf_load_one hv m p elf base = Inr (img, p') \<Longrightarrow> rest_kept p p'"
  by (auto simp: elf_load_one_def Let_def rbind_Inr_iff split: if_splits dest!: load_phdrs_rest)

text \<open>The program headers of an image, as the loader reads them.\<close>

definition elf_headers :: "Buf \<Rightarrow> Elf64_Phdr list" where
  "elf_headers elf =
     (case buf_read elf sizeof_Ehdr 0 of
        Inl _ \<Rightarrow> []
      | Inr hb \<Rightarrow>
          (let ehdr = read_ehdr hb in
           case buf_read elf (sizeof_Phdr * eh_phnum ehdr) (eh_phoff ehdr) of
             Inl _ \<Rightarrow> []
           | Inr pb \<Rightarrow> map (read_phdr pb) [0 ..< unat (eh_phnum ehdr)]))"

lemma elf_load_one_ok:
  assumes "proc_confined hv I p" "0 < box_lo (pr_box p)" "M \<le> unat (bx_size (pr_box p))"
    "buf_ok elf" "length (bf_data elf) < 2 ^ 63" "list_all (phdr_sane M elf) (elf_headers elf)" "segs_inside p"
    "length (pr_segs p) + length (filter loadable (elf_headers elf)) \<le> ELFSEGMAXN" "list_ex loadable (elf_headers elf)"
    "box_lo (pr_box p) + unat CODE_MAX < 2 ^ 64"
  shows "\<exists>img p'. elf_load_one hv malloc_ok p elf (bx_base (pr_box p)) = Inr (img, p') \<and> proc_kept I p p' \<and> segs_inside p' \<and>
    (\<forall>first last entry ehdr. img = Some (first, last, entry, ehdr) \<longrightarrow>
       2 ^ 12 dvd unat last \<and> box_lo (pr_box p) \<le> unat last \<and> unat last \<le> box_lo (pr_box p) + M \<and>
       box_lo (pr_box p) \<le> unat entry \<and> unat entry < box_lo (pr_box p) + unat CODE_MAX)"
proof -
  let ?b = "bx_base (pr_box p)"
  let ?P = "\<lambda>r. \<exists>img p'. r = Inr (img, p') \<and> proc_kept I p p' \<and> segs_inside p' \<and>
    (\<forall>first last entry ehdr. img = Some (first, last, entry, ehdr) \<longrightarrow>
       2 ^ 12 dvd unat last \<and> box_lo (pr_box p) \<le> unat last \<and> unat last \<le> box_lo (pr_box p) + M \<and>
       box_lo (pr_box p) \<le> unat entry \<and> unat entry < box_lo (pr_box p) + unat CODE_MAX)"
  have none: "?P (Inr (None, p))" using proc_kept_refl [OF assms(1)] assms(7) by simp
  obtain hb where hb: "buf_read elf sizeof_Ehdr 0 = Inr hb"
    by (rule buf_read_ok [OF assms(4), of 0 sizeof_Ehdr]) simp_all
  let ?e = "read_ehdr hb"
  let ?n = "eh_phnum ?e"
  let ?bad = "length hb \<noteq> unat sizeof_Ehdr \<or> \<not> elf_check ?e \<or> eh_type ?e \<noteq> ET_DYN \<or> ?n > PHNUM_MAX \<or> \<not> malloc_ok \<or>
      eh_phoff ?e \<ge> bf_size elf"
  show ?thesis
  proof (cases ?bad)
    case True
    then have "elf_load_one hv malloc_ok p elf ?b = Inr (None, p)"
      using hb by (auto simp: elf_load_one_def Let_def)
    then show ?thesis using none by simp
  next
    case False
    then have n: "unat ?n \<le> 64" and off: "unat (eh_phoff ?e) < length (bf_data elf)"
      using assms(4) by (simp_all add: word_less_nat_alt word_le_nat_alt buf_ok_def)
    have "unat (sizeof_Phdr * ?n) = 56 * unat ?n" using n by (simp add: unat_word_ariths)
    then obtain pb where pb: "buf_read elf (sizeof_Phdr * ?n) (eh_phoff ?e) = Inr pb"
      using buf_read_ok [OF assms(4), of "eh_phoff ?e" "sizeof_Phdr * ?n" thesis] off n assms(5) by fastforce
    let ?hs = "map (read_phdr pb) [0 ..< unat ?n]"
    have hs: "elf_headers elf = ?hs" using hb pb by (simp add: elf_headers_def Let_def)
    let ?l = "\<lparr>el_proc = p, el_base = ?b, el_first = 0, el_last = 0\<rparr>"
    have "loop_ok M I p ?l" using proc_kept_refl [OF assms(1)] assms(7) by (simp add: loop_ok_def)
    then obtain ok l' where l: "load_phdrs hv elf ?b ?hs ?l = Inr (ok, l')" "loop_ok M I p l'" "ok \<Longrightarrow> el_last l' \<noteq> 0"
      using load_phdrs_ok [OF assms(1-4), of ?hs ?l ?b] assms(6,8,9) by (auto simp: hs list_ex_iff)
    let ?short = "length pb \<noteq> unat (sizeof_Phdr * ?n) \<or> eh_entry ?e \<ge> CODE_MAX"
    have eq: "elf_load_one hv malloc_ok p elf ?b = (if ?short then Inr (None, p)
        else Inr (if ok then Some (el_first l', el_last l', el_base l' + eh_entry ?e, ?e) else None, el_proc l'))"
      using False hb pb l(1) by (simp add: elf_load_one_def Let_def)
    have "unat (?b + eh_entry ?e) = unat ?b + unat (eh_entry ?e)" if "eh_entry ?e < CODE_MAX"
      using that assms(10) by (intro unat_add_nowrap) (simp add: word_less_nat_alt)
    then show ?thesis using eq l(2,3) none by (auto simp: loop_ok_def not_le word_less_nat_alt)
  qed
qed

section \<open>Processes\<close>

abbreviation image :: "cint \<Rightarrow> u8 list \<Rightarrow> Buf" where
  "image fd prog \<equiv> \<lparr>bf_fd = fd, bf_data = prog, bf_size = of_nat (length prog)\<rparr>"

text \<open>The images for which loading is proved confined; the loader itself checks none of these conditions.\<close>

definition image_sane :: "nat \<Rightarrow> cint \<Rightarrow> u8 list \<Rightarrow> bool" where
  "image_sane M fd prog \<longleftrightarrow> length prog < 2 ^ 63 \<and> list_all (phdr_sane M (image fd prog)) (elf_headers (image fd prog)) \<and>
     list_ex loadable (elf_headers (image fd prog)) \<and>
     length (filter loadable (elf_headers (image fd prog))) \<le> ELFSEGMAXN"

lemma proc_load_ok:
  assumes "proc_confined hv I p" "0 < box_lo (pr_box p)" "pr_segs p = []" "lo_brksize (pr_opts p) \<noteq> 0"
    "M + unat (lo_brksize (pr_opts p)) \<le> unat (bx_size (pr_box p))" "image_sane M fd prog"
    "box_lo (pr_box p) + unat CODE_MAX < 2 ^ 64"
  shows "\<exists>ok p'. proc_load hv malloc_ok p fd prog = Inr (ok, p') \<and> proc_kept I p p' \<and> segs_inside p' \<and> rest_kept p p' \<and>
    (ok \<longrightarrow> box_lo (pr_box p) \<le> unat (pr_entry p') \<and> unat (pr_entry p') < box_lo (pr_box p) + unat CODE_MAX \<and>
       box_lo (pr_box p) \<le> unat (pr_brkbase p') \<and>
       unat (pr_brkbase p') + unat (lo_brksize (pr_opts p)) \<le> box_hi (pr_box p) \<and>
       2 ^ 12 dvd unat (pr_brkbase p') \<and> pr_brksize p' = 0)"
proof -
  let ?elf = "image fd prog" and ?b = "bx_base (pr_box p)"
  have e: "buf_ok ?elf" "length (bf_data ?elf) < 2 ^ 63" "list_all (phdr_sane M ?elf) (elf_headers ?elf)"
      "list_ex loadable (elf_headers ?elf)" "length (pr_segs p) + length (filter loadable (elf_headers ?elf)) \<le> ELFSEGMAXN"
    using assms(3,6) by (simp_all add: image_sane_def buf_ok_def unat_of_nat_u64)
  have big: "M \<le> unat (bx_size (pr_box p))" using assms(5) by linarith
  have segs: "segs_inside p" using assms(3) by (simp add: segs_inside_def)
  obtain img q where r: "elf_load_one hv malloc_ok p ?elf ?b = Inr (img, q)" "proc_kept I p q" "segs_inside q"
      "\<forall>first last entry ehdr. img = Some (first, last, entry, ehdr) \<longrightarrow>
       2 ^ 12 dvd unat last \<and> box_lo (pr_box p) \<le> unat last \<and> unat last \<le> box_lo (pr_box p) + M \<and>
       box_lo (pr_box p) \<le> unat entry \<and> unat entry < box_lo (pr_box p) + unat CODE_MAX"
    using elf_load_one_ok [OF assms(1,2) big e(1-3) segs e(5,4) assms(7), of malloc_ok] by blast
  have base: "bi_base (pr_boxinfo p) = ?b"
    using assms(1) by (simp add: proc_confined_def proc_ok_def lps_box_info_def)
  show ?thesis
  proof (cases img)
    case None
    then show ?thesis using r(1-3) elf_load_one_rest [OF r(1)] by (intro exI [of _ False] exI [of _ q]) (simp add: proc_load_def elf_load_def base)
  next
    case (Some i)
    obtain first last entry ehdr where i: "i = (first, last, entry, ehdr)" by (cases i)
    have g: "2 ^ 12 dvd unat last" "box_lo (pr_box p) \<le> unat last" "unat last \<le> box_lo (pr_box p) + M"
        "box_lo (pr_box p) \<le> unat entry" "unat entry < box_lo (pr_box p) + unat CODE_MAX"
      using r(4) Some i by blast+
    obtain info where info: "elf_load hv malloc_ok p ?elf None = Inr (Some info, q)" "ei_elfentry info = entry" "ei_lastva info = last"
      using r(1) Some i by (simp add: elf_load_def base)
    let ?q = "q\<lparr>pr_entry := entry, pr_elfinfo := info, pr_brkbase := last, pr_brksize := 0\<rparr>"
    have k: "proc_kept I p ?q" using r(2) by simp
    have rest: "rest_kept p q" using r(1) by (rule elf_load_one_rest)
    then have opts: "pr_opts q = pr_opts p" by (simp add: rest_kept_def)
    have pl: "box_lo (pr_box ?q) \<le> unat last" "unat last + unat (lo_brksize (pr_opts p)) \<le> box_hi (pr_box ?q)"
      using g k assms(5) by (simp_all add: proc_kept_def)
    obtain r' b' where m: "lps_box_mapat hv (pr_box ?q) last (lo_brksize (pr_opts p)) PROT_NONE
        (MAP_PRIVATE OR MAP_ANONYMOUS) (- 1) 0 = Inr (r', b')" "proc_kept I ?q (?q\<lparr>pr_box := b'\<rparr>)"
      by (rule mapat_kept [OF proc_kept_confined [OF k assms(1)] g(1) assms(4) pl])
    have "proc_load hv malloc_ok p fd prog = Inr (r' \<noteq> - 1, ?q\<lparr>pr_box := b'\<rparr>)"
      using info m(1) opts by (simp add: proc_load_def Let_def)
    moreover have "segs_inside (?q\<lparr>pr_box := b'\<rparr>)"
      using r(3) m(2) k r(2) by (simp add: segs_inside_def proc_kept_def)
    moreover have "rest_kept p (?q\<lparr>pr_box := b'\<rparr>)" using rest by simp
    ultimately show ?thesis using proc_kept_trans [OF k m(2)] g pl k by (simp add: proc_kept_def)
  qed
qed


section \<open>A concrete image\<close>

text \<open>A header with entry 0 and one program header, and two program headers of a readable and executable segment.\<close>

definition demo_ehdr :: "u8 list" where
  "demo_ehdr =
   [127, 69, 76, 70, 2, 1, 1, 0, 0, 0, 0, 0, 0, 0, 0, 0,
    3, 0, 243, 0, 1, 0, 0, 0, 0, 0, 0, 0, 0, 0, 0, 0,
    64, 0, 0, 0, 0, 0, 0, 0, 0, 0, 0, 0, 0, 0, 0, 0,
    0, 0, 0, 0, 64, 0, 56, 0, 1, 0, 0, 0, 0, 0, 0, 0]"

definition demo_phdr :: "u8 list" where
  "demo_phdr =
   [1, 0, 0, 0, 5, 0, 0, 0, 0, 0, 0, 0, 0, 0, 0, 0,
    0, 16, 0, 0, 0, 0, 0, 0, 0, 16, 0, 0, 0, 0, 0, 0,
    64, 0, 0, 0, 0, 0, 0, 0, 128, 0, 0, 0, 0, 0, 0, 0,
    0, 16, 0, 0, 0, 0, 0, 0]"

definition wrapping_phdr :: "u8 list" where
  "wrapping_phdr =
   [1, 0, 0, 0, 5, 0, 0, 0, 0, 0, 0, 0, 0, 0, 0, 0,
    0, 16, 0, 0, 0, 3, 0, 0, 0, 16, 0, 0, 0, 3, 0, 0,
    64, 0, 0, 0, 0, 0, 0, 0, 128, 0, 0, 0, 0, 0, 0, 0,
    0, 16, 0, 0, 0, 255, 255, 255]"

lemma demo_headers:
  "elf_headers (image (- 1) (demo_ehdr @ demo_phdr)) =
     [\<lparr>ph_type = 1, ph_flags = 5, ph_offset = 0, ph_vaddr = 0x1000, ph_filesz = 64, ph_memsz = 0x80, ph_align = 0x1000\<rparr>]"
  by code_simp


lemma demo_image_sane: "image_sane 0x2000 (- 1) (demo_ehdr @ demo_phdr)"
proof -
  have "ceilp 0x1080 0x1000 = 0x2000" by code_simp
  then show ?thesis
    unfolding image_sane_def demo_headers
    by (simp add: phdr_sane_def ELFSEGMAXN_def Let_def) (simp add: demo_ehdr_def demo_phdr_def)
qed


text \<open>
  The alignment of a segment only has to be a multiple of the page size. With one that is not a power of
  two and whose mask reaches the top of the address, a segment at 3 TiB passes every check as one of 4
  KiB, and its contents are copied to an address far outside the sandbox.
\<close>

definition wrapping_header :: Elf64_Phdr where
  "wrapping_header = \<lparr>ph_type = 1, ph_flags = 5, ph_offset = 0, ph_vaddr = 0x30000001000, ph_filesz = 64, ph_memsz = 0x80,
     ph_align = 0xFFFFFF0000001000\<rparr>"

lemma wrapping_headers: "elf_headers (image (- 1) (demo_ehdr @ wrapping_phdr)) = [wrapping_header]"
  by code_simp

lemma wrapping_mapped:
  "case lps_box_mapat zero_host (pr_box demo_proc) 0x40001000 0x1000 (PROT_READ OR PROT_WRITE) (MAP_PRIVATE OR MAP_ANONYMOUS) (- 1) 0
   of Inl _ \<Rightarrow> False | Inr (r, box) \<Rightarrow> r = 0x40001000 \<and> bx_base box = 0x40000000 \<and> bx_size box = 0x80000000"
  by code_simp

lemma elf_segment_escapes:
  "\<exists>l'. load_phdr zero_host (image (- 1) (demo_ehdr @ wrapping_phdr)) 0x40000000 wrapping_header
       \<lparr>el_proc = demo_proc, el_base = 0x40000000, el_first = 0, el_last = 0\<rparr> = Inr (True, l') \<and>
     w_mem (pr_world (el_proc l')) 0x30040001000 = 0x7f \<and> \<not> lps_box_ptrvalid (pr_box (el_proc l')) 0x30040001000"
proof -
  obtain box where m: "lps_box_mapat zero_host (pr_box demo_proc) 0x40001000 0x1000 (PROT_READ OR PROT_WRITE)
      (MAP_PRIVATE OR MAP_ANONYMOUS) (- 1) 0 = Inr (0x40001000, box)" "bx_base box = 0x40000000" "bx_size box = 0x80000000"
    using wrapping_mapped by (auto split: sum.splits)
  have b: "buf_read (image (- 1) (demo_ehdr @ wrapping_phdr)) 64 0 = Inr demo_ehdr" by code_simp
  have h: "length demo_ehdr = 64" "demo_ehdr ! 0 = 0x7f" by code_simp+
  have n: "pr_segs demo_proc = []" by (simp add: demo_proc_def)
  have "truncp 0x30000001000 0xFFFFFF0000001000 = 0x1000" "ceilp 0x30000001080 0xFFFFFF0000001000 = 0x2000"
    "0xFFFFFF0000001000 mod PAGESIZE = 0" by code_simp+
  then show ?thesis
    using m b h n by (simp add: load_phdr_def buf_read_elfseg_def seg_from_memory_def wrapping_header_def
        Let_def lps_box_mprotect_def in_box_def add_seg_def ELFSEGMAXN_def zero_host_def pr_set_mem_def pr_set_world_def
        box_set_world_def pr_world_def store_bytes_def lps_box_ptrvalid_def)
qed

end
