(* ===== verification/Thread.thy ===== *)
theory Thread
  imports Elf Sched
begin

text \<open>
  Threads: \<open>lps-linux/thread.c\<close> and \<open>struct LPSThread\<close> of \<open>proc.h\<close>. The strings a thread is started with
  belong to the host program; a C string is the list of its bytes before the terminating zero, and a NULL
  pointer is None. The list element of a thread lives in the store of the scheduler (theory \<open>Sched\<close>),
  where \<open>rrschedadd\<close> and \<open>mcsched_add\<close> enter it.
\<close>

section \<open>Data\<close>

record 'k LPSThread =
  th_ctx :: LPSContext
  th_stack :: u64
  th_stack_size :: u64
  th_ctidp :: u64
  th_tid :: cint
  th_state :: LPSThreadState
  th_proc :: "'k LPSProc"

definition BASE_TID :: cint where "BASE_TID = 10000"
definition ARGV_MAX :: cint where "ARGV_MAX = 1024"
definition ENVP_MAX :: nat where "ENVP_MAX = 1024"
definition ARGV_MAXLEN :: nat where "ARGV_MAXLEN = 1024"
definition ENVP_MAXLEN :: nat where "ENVP_MAXLEN = 1024"

text \<open>The C library's \<open>getauxval\<close> is a parameter; \<open>AT_HWCAP\<close> and \<open>AT_HWCAP2\<close> have the same numbers on the host.\<close>

definition host_getauxval :: "(u64 \<Rightarrow> u64) \<Rightarrow> u64 \<Rightarrow> u64" where
  "host_getauxval getauxval typ =
     (if typ = LINUX_AT_HWCAP then getauxval LINUX_AT_HWCAP
      else if typ = LINUX_AT_HWCAP2 then getauxval LINUX_AT_HWCAP2
      else 0)"

definition next_tid :: "'k LPSProc \<Rightarrow> cint \<times> 'k LPSProc" where
  "next_tid p = (BASE_TID + pr_thread_count p, p\<lparr>pr_thread_count := pr_thread_count p + 1\<rparr>)"

section \<open>The initial stack\<close>

text \<open>
  The loops that measure the strings: they stop at NULL or after n pointers, and assert that each string
  ends within the maximal length. They return the strings.
\<close>

fun scan_strs :: "nat \<Rightarrow> nat \<Rightarrow> u8 list option list \<Rightarrow> u8 list list res" where
  "scan_strs maxlen 0 ss = Inr []"
| "scan_strs maxlen (Suc n) [] = Inl OutOfBounds"
| "scan_strs maxlen (Suc n) (None # ss) = Inr []"
| "scan_strs maxlen (Suc n) (Some s # ss) =
     rbind (rassert (length s \<le> maxlen)) (\<lambda>_.
     rbind (scan_strs maxlen n ss) (\<lambda>r. Inr (s # r)))"

definition strs_size :: "u8 list list \<Rightarrow> nat" where
  "strs_size ss = sum_list (map (\<lambda>s. length s + 1) ss)"

text \<open>The loops that copy the strings from address a on and collect their addresses.\<close>

fun copy_strs :: "u64 \<Rightarrow> u8 list list \<Rightarrow> memory \<Rightarrow> u64 list \<times> memory" where
  "copy_strs a [] m = ([], m)"
| "copy_strs a (s # ss) m =
     (case copy_strs (a + of_nat (length s + 1)) ss (store_bytes a (s @ [0]) m) of (ps, m) \<Rightarrow> (a # ps, m))"

text \<open>Words in memory, and \<open>struct AuxvList\<close> as a list of pairs.\<close>

definition words_bytes :: "u64 list \<Rightarrow> u8 list" where
  "words_bytes ws = concat (map (le_bytes 8) ws)"

definition auxv_list :: "(u64 \<Rightarrow> u64) \<Rightarrow> ELFLoadInfo \<Rightarrow> u64 \<Rightarrow> u64 \<Rightarrow> (u64 \<times> u64) list" where
  "auxv_list getauxval info execfn rand_start =
     [(LINUX_AT_SECURE, 0),
      (LINUX_AT_BASE, ei_ldbase info),
      (LINUX_AT_PHDR, ei_elfbase info + ei_elfphoff info),
      (LINUX_AT_PHNUM, ucast (ei_elfphnum info)),
      (LINUX_AT_PHENT, ucast (ei_elfphentsize info)),
      (LINUX_AT_ENTRY, ei_elfentry info),
      (LINUX_AT_EXECFN, execfn),
      (LINUX_AT_PAGESZ, 4 * 1024),
      (LINUX_AT_HWCAP, host_getauxval getauxval LINUX_AT_HWCAP),
      (LINUX_AT_HWCAP2, host_getauxval getauxval LINUX_AT_HWCAP2),
      (LINUX_AT_RANDOM, rand_start),
      (LINUX_AT_FLAGS, 0),
      (LINUX_AT_UID, 1000),
      (LINUX_AT_EUID, 1000),
      (LINUX_AT_GID, 1000),
      (LINUX_AT_EGID, 1000),
      (LINUX_AT_SYSINFO, 0),
      (LINUX_AT_SYSINFO_EHDR, 0),
      (LINUX_AT_NULL, 0)]"

definition auxv_words :: "(u64 \<times> u64) list \<Rightarrow> u64 list" where
  "auxv_words av = concat (map (\<lambda>(t, v). [t, v]) av)"

text \<open>
  \<open>stack_init\<close> returns the stack pointer and the new memory. \<open>random\<close> holds the 16 bytes of the local
  buffer after \<open>getrandom\<close>. With no argument the code reads \<open>box_argv[0]\<close>, which is the terminating 0.
\<close>

definition stack_init ::
  "(u64 \<Rightarrow> u64) \<Rightarrow> u8 list \<Rightarrow> u64 \<Rightarrow> u64 \<Rightarrow> ELFLoadInfo \<Rightarrow> cint \<Rightarrow> u8 list option list \<Rightarrow> u8 list option list \<Rightarrow> memory \<Rightarrow>
   (u64 \<times> memory) res" where
  "stack_init getauxval random stack stack_size info argc argv envp m =
     (let argc = c_MIN argc ARGV_MAX in
      rbind (scan_strs ARGV_MAXLEN (nat (sint argc)) argv) (\<lambda>args.
      rbind (scan_strs ENVP_MAXLEN ENVP_MAX envp) (\<lambda>envs.
      let strs_len = of_nat (strs_size args + strs_size envs);
          strs_start = truncp (stack + stack_size - strs_len) 16;
          (box_argv, m) = copy_strs strs_start args m;
          (box_envp, m) = copy_strs (strs_start + of_nat (strs_size args)) envs m;
          box_argv = box_argv @ [0];
          box_envp = box_envp @ [0];
          rand_start = strs_start - 16;
          m = store_bytes rand_start random m;
          auxv = auxv_words (auxv_list getauxval info (hd box_argv) rand_start);
          stack_start = rand_start - 8 - of_nat (8 * length box_argv) - of_nat (8 * length box_envp) - of_nat (8 * length auxv);
          m = store_bytes stack_start (le_bytes 8 (int_to_u64 argc)) m;
          next = stack_start + 8;
          m = store_bytes next (words_bytes box_argv) m;
          next = next + of_nat (8 * length box_argv);
          m = store_bytes next (words_bytes box_envp) m;
          next = next + of_nat (8 * length box_envp);
          m = store_bytes next (words_bytes auxv) m
      in Inr (stack_start, m))))"

section \<open>Threads\<close>

definition sp_init :: "LPSContext \<Rightarrow> u64 \<Rightarrow> LPSContext" where
  "sp_init ctx sp = ctx\<lparr>cx_regs := (cx_regs ctx)\<lparr>r_sp := sp\<rparr>\<rparr>"

definition uepc_init :: "LPSContext \<Rightarrow> u64 \<Rightarrow> LPSContext" where
  "uepc_init ctx pc = ctx\<lparr>cx_regs := (cx_regs ctx)\<lparr>uepc := pc\<rparr>\<rparr>"

definition dasics_flags :: "cint \<Rightarrow> cint" where
  "dasics_flags prot =
     (if prot AND PROT_READ \<noteq> 0 then LIBCFG_R else 0) OR (if prot AND PROT_WRITE \<noteq> 0 then LIBCFG_W else 0)"

text \<open>
  \<open>calloc_ok\<close> tells whether the thread structure could be allocated, entry and kstack are those of
  \<open>lps_ctx_new\<close>, handle is the address of the new structure. None is NULL.
\<close>

definition lps_thread_new ::
  "'k world hostvm \<Rightarrow> (u64 \<Rightarrow> u64) \<Rightarrow> u8 list \<Rightarrow> bool \<Rightarrow> u64 \<Rightarrow> u64 option \<Rightarrow> u64 \<Rightarrow> 'k LPSProc \<Rightarrow>
   cint \<Rightarrow> u8 list option list \<Rightarrow> u8 list option list \<Rightarrow> ('k LPSThread option \<times> 'k LPSProc) res" where
  "lps_thread_new hv getauxval random calloc_ok entry kstack handle proc argc argv envp =
     (if \<not> calloc_ok then Inr (None, proc)
      else
        rbind (lps_ctx_new entry kstack (pr_box proc) handle) (\<lambda>ctx.
        case ctx of
          None \<Rightarrow> Inr (None, proc)
        | Some ctx \<Rightarrow>
            (let (tid, proc) = next_tid proc;
                 stacksize = lo_stacksize (pr_opts proc);
                 endp = bi_base (pr_boxinfo proc) + bi_size (pr_boxinfo proc) in
             rbind (lps_box_mapat hv (pr_box proc) (endp - stacksize) stacksize (PROT_READ OR PROT_WRITE)
                      (MAP_PRIVATE OR MAP_ANONYMOUS) (- 1) 0) (\<lambda>(stack, box).
             let proc = proc\<lparr>pr_box := box\<rparr> in
             if stack = - 1 then Inr (None, proc)
             else
               rbind (stack_init getauxval random stack stacksize (pr_elfinfo proc) argc argv envp (w_mem (pr_world proc))) (\<lambda>(sp, m).
               let proc = pr_set_mem proc (\<lambda>_. m);
                   ctx = uepc_init (sp_init ctx sp) (pr_entry proc);
                   start = bi_base (pr_boxinfo proc) in
               rbind (lps_membound_set (cx_regs ctx) 0 (LIBCFG_R OR LIBCFG_W) start endp) (\<lambda>regs.
               rbind (lps_jmpbound_set regs 0 start endp) (\<lambda>regs.
               Inr (Some \<lparr>th_ctx = ctx\<lparr>cx_regs := regs\<rparr>, th_stack = stack, th_stack_size = stacksize, th_ctidp = 0, th_tid = tid,
                          th_state = THREAD_RUNNABLE, th_proc = proc\<rparr>, proc))))))))"

text \<open>\<open>lps_thread_run\<close> and \<open>lps_thread_exit\<close> switch to and from the context of the thread.\<close>

definition lps_thread_run :: "u64 \<times> u64 \<Rightarrow> 'k LPSThread \<Rightarrow> 'k LPSThread kstate \<Rightarrow> 'k LPSThread kstate" where
  "lps_thread_run cycles t k = lps_kswitch_to cycles t (cx_kregs (th_ctx t)) k"

definition lps_thread_exit :: "'k LPSThread \<Rightarrow> 'k LPSThread kstate \<Rightarrow> 'k LPSThread \<times> 'k LPSThread kstate" where
  "lps_thread_exit t k =
     (case lps_kswitch_from (cx_kregs (th_ctx t)) k of (kregs, k) \<Rightarrow> (t\<lparr>th_ctx := (th_ctx t)\<lparr>cx_kregs := kregs\<rparr>\<rparr>, k))"

end
