(* ===== verification/Thread_Spec.thy ===== *)
theory Thread_Spec
  imports Thread Elf_Spec
begin

text \<open>
  What a new thread finds: the initial stack, as one block of bytes with the layout of the Linux process
  start, and registers that confine it to the sandbox.
\<close>

section \<open>Memory blocks\<close>

lemma unat_sub_add: "n < 2 ^ 64 \<Longrightarrow> unat (x - (a + of_nat n) :: u64) = (if n \<le> unat (x - a) then unat (x - a) - n else unat (x - a) + 2 ^ 64 - n)"
proof -
  assume n: "n < 2 ^ 64"
  have e: "x - (a + of_nat n) = (x - a) - of_nat n" by simp
  have u: "unat (of_nat n :: u64) = n" using n by (rule unat_of_nat_u64)
  show ?thesis unfolding e using unat_sub_if_size [of "x - a" "of_nat n"] u by (simp add: word_size)
qed

lemma store_bytes_append:
  assumes "length xs + length ys < 2 ^ 64"
  shows "store_bytes a (xs @ ys) m = store_bytes a xs (store_bytes (a + of_nat (length xs)) ys m)"
    and "store_bytes a (xs @ ys) m = store_bytes (a + of_nat (length xs)) ys (store_bytes a xs m)"
proof -
  have l: "length xs < 2 ^ 64" using assms by linarith
  have "store_bytes a (xs @ ys) m x = store_bytes a xs (store_bytes (a + of_nat (length xs)) ys m) x \<and>
    store_bytes a (xs @ ys) m x = store_bytes (a + of_nat (length xs)) ys (store_bytes a xs m) x" for x
    using unat_sub_add [OF l, of x a] assms unat_lt_2p64 [of "x - a"]
    by (auto simp: store_bytes_def nth_append)
  then show "store_bytes a (xs @ ys) m = store_bytes a xs (store_bytes (a + of_nat (length xs)) ys m)"
    "store_bytes a (xs @ ys) m = store_bytes (a + of_nat (length xs)) ys (store_bytes a xs m)" by auto
qed

lemma load_store_middle:
  assumes "length xs + length ys + length zs < 2 ^ 64"
  shows "load_bytes (a + of_nat (length xs)) (length ys) (store_bytes a (xs @ ys @ zs) m) = ys"
proof (rule nth_equalityI)
  fix i assume "i < length (load_bytes (a + of_nat (length xs)) (length ys) (store_bytes a (xs @ ys @ zs) m))"
  then have i: "i < length ys" by simp
  have "a + of_nat (length xs) + of_nat i - a = (of_nat (length xs + i) :: u64)" by simp
  moreover have "unat (of_nat (length xs + i) :: u64) = length xs + i"
    using i assms by (intro unat_of_nat_u64) linarith
  ultimately have "unat (a + of_nat (length xs) + of_nat i - a) = length xs + i" by (simp only:)
  then show "load_bytes (a + of_nat (length xs)) (length ys) (store_bytes a (xs @ ys @ zs) m) ! i = ys ! i"
    using i by (simp add: load_bytes_def store_bytes_def nth_append)
qed simp

lemma length_words_bytes [simp]: "length (words_bytes ws) = 8 * length ws"
  by (induction ws) (simp_all add: words_bytes_def)

lemma words_bytes_append: "words_bytes (xs @ ys) = words_bytes xs @ words_bytes ys"
  by (simp add: words_bytes_def)

section \<open>Strings\<close>

definition cstrs :: "u8 list list \<Rightarrow> u8 list" where
  "cstrs ss = concat (map (\<lambda>s. s @ [0]) ss)"

fun str_addrs :: "u64 \<Rightarrow> u8 list list \<Rightarrow> u64 list" where
  "str_addrs a [] = []"
| "str_addrs a (s # ss) = a # str_addrs (a + of_nat (length s + 1)) ss"

lemma cstrs_simps [simp]:
  "cstrs [] = []" "cstrs (s # ss) = (s @ [0]) @ cstrs ss" "cstrs (ss @ ts) = cstrs ss @ cstrs ts"
  by (simp_all add: cstrs_def)

lemma length_cstrs: "length (cstrs ss) = strs_size ss"
  by (induction ss) (simp_all add: strs_size_def)

lemma length_str_addrs [simp]: "length (str_addrs a ss) = length ss"
  by (induction ss arbitrary: a) simp_all

lemma copy_strs_ok:
  "strs_size ss < 2 ^ 64 \<Longrightarrow> copy_strs a ss m = (str_addrs a ss, store_bytes a (cstrs ss) m)"
proof (induction ss arbitrary: a m)
  case (Cons s ss)
  have l: "length (s @ [0]) + length (cstrs ss) < 2 ^ 64" using Cons.prems by (simp add: length_cstrs strs_size_def)
  have "strs_size ss < 2 ^ 64" using Cons.prems by (simp add: strs_size_def)
  then show ?case using Cons.IH store_bytes_append(2) [OF l, of a m] by simp
qed (simp add: store_bytes_def)

lemma str_addrs_nth:
  "i < length ss \<Longrightarrow> str_addrs a ss ! i = a + of_nat (strs_size (take i ss))"
proof (induction ss arbitrary: a i)
  case (Cons s ss)
  then show ?case by (cases i) (simp_all add: strs_size_def)
qed simp

lemma scan_strs_ok:
  assumes "list_all (\<lambda>s. length s \<le> maxlen) ss" "length ss \<le> n" "length ss < n \<Longrightarrow> rest \<noteq> [] \<and> hd rest = None"
  shows "scan_strs maxlen n (map Some ss @ rest) = Inr ss"
  using assms
proof (induction ss arbitrary: n)
  case Nil
  then show ?case by (cases n; cases rest) auto
next
  case (Cons s ss)
  then show ?case by (cases n) auto
qed

section \<open>The initial stack\<close>

text \<open>The number of bytes below the strings: argc, the two pointer tables, the auxiliary vector and the random bytes.\<close>

definition below_strs :: "nat \<Rightarrow> nat \<Rightarrow> nat" where
  "below_strs nargv nenvp = 8 + 8 * (nargv + 1) + 8 * (nenvp + 1) + 304 + 16"

text \<open>The block a new thread finds at its stack pointer.\<close>

definition stack_image :: "(u64 \<Rightarrow> u64) \<Rightarrow> u8 list \<Rightarrow> ELFLoadInfo \<Rightarrow> u64 \<Rightarrow> u8 list list \<Rightarrow> u8 list list \<Rightarrow> u8 list" where
  "stack_image getauxval random info sp args envs =
     (let strs = sp + of_nat (below_strs (length args) (length envs));
          argv = str_addrs strs args @ [0];
          envp = str_addrs (strs + of_nat (strs_size args)) envs @ [0] in
      le_bytes 8 (of_nat (length args)) @ words_bytes argv @ words_bytes envp @
      words_bytes (auxv_words (auxv_list getauxval info (hd argv) (strs - 16))) @ random @ cstrs (args @ envs))"

lemma length_auxv [simp]: "length (auxv_words (auxv_list getauxval info execfn r)) = 38"
  by (simp add: auxv_words_def auxv_list_def)

lemma length_stack_image:
  "length random = 16 \<Longrightarrow>
   length (stack_image getauxval random info sp args envs) = below_strs (length args) (length envs) + strs_size args + strs_size envs"
  by (simp add: stack_image_def Let_def below_strs_def length_cstrs)

text \<open>The pieces are written in another order than they lie in memory.\<close>

lemma stack_writes:
  fixes sp :: u64
  assumes "length A + length B + length C + length D + length R + length S + length T < 2 ^ 64"
  defines "b \<equiv> sp + of_nat (length A)"
  defines "c \<equiv> b + of_nat (length B)"
  defines "d \<equiv> c + of_nat (length C)"
  defines "r \<equiv> d + of_nat (length D)"
  defines "s \<equiv> r + of_nat (length R)"
  defines "t \<equiv> s + of_nat (length S)"
  shows "store_bytes d D (store_bytes c C (store_bytes b B (store_bytes sp A
           (store_bytes r R (store_bytes t T (store_bytes s S m)))))) =
         store_bytes sp (A @ B @ C @ D @ R @ S @ T) m"
proof -
  have "store_bytes r R (store_bytes t T (store_bytes s S m)) = store_bytes r (R @ S @ T) m"
    using store_bytes_append(1) [of R "S @ T" r m] store_bytes_append(2) [of S T s m] assms(1)
    by (simp add: s_def t_def)
  moreover have "store_bytes d D (store_bytes c C (store_bytes b B (store_bytes sp A n))) = store_bytes sp (A @ B @ C @ D) n" for n
    using store_bytes_append(2) [of A "B @ C @ D" sp n] store_bytes_append(2) [of B "C @ D" b "store_bytes sp A n"]
      store_bytes_append(2) [of C D c "store_bytes b B (store_bytes sp A n)"] assms(1)
    by (simp add: b_def c_def d_def)
  moreover have "sp + of_nat (length (A @ B @ C @ D)) = r" by (simp add: b_def c_def d_def r_def)
  ultimately show ?thesis
    using store_bytes_append(1) [of "A @ B @ C @ D" "R @ S @ T" sp m] assms(1) by simp
qed

definition fits_stack :: "u64 \<Rightarrow> u64 \<Rightarrow> u8 list list \<Rightarrow> u8 list list \<Rightarrow> bool" where
  "fits_stack stack stack_size args envs \<longleftrightarrow> unat stack + unat stack_size < 2 ^ 64 \<and>
     strs_size args + strs_size envs + below_strs (length args) (length envs) + 15 \<le> unat stack_size"

lemma stack_place:
  assumes "fits_stack stack stack_size args envs"
  defines "n \<equiv> strs_size args + strs_size envs"
  defines "k \<equiv> below_strs (length args) (length envs)"
  defines "strs \<equiv> truncp (stack + stack_size - of_nat n) 16"
  shows "unat stack \<le> unat (strs - of_nat k)" "unat (strs - of_nat k) + k + n \<le> unat stack + unat stack_size"
    "8 dvd unat (strs - of_nat k)" "16 dvd unat (strs - of_nat k) \<longleftrightarrow> odd (length args + length envs)"
proof -
  have f: "unat stack + unat stack_size < 2 ^ 64" "n + k + 15 \<le> unat stack_size"
    using assms(1) by (simp_all add: fits_stack_def n_def k_def)
  have n: "unat (of_nat n :: u64) = n" and k: "unat (of_nat k :: u64) = k"
    using f unat_lt_2p64 [of stack_size] by (auto intro!: unat_of_nat_u64)
  have T: "unat (stack + stack_size) = unat stack + unat stack_size" using f(1) by (rule unat_add_nowrap)
  have v: "unat (stack + stack_size - of_nat n) = unat stack + unat stack_size - n"
    using f n T by (subst unat_sub) (simp_all add: word_le_nat_alt)
  have "(16 :: u64) = 2 ^ 4" by simp
  then have s: "unat strs = (unat stack + unat stack_size - n) div 16 * 16"
    unfolding strs_def v [symmetric] using unat_truncp [of _ 4] by simp
  let ?v = "unat stack + unat stack_size - n"
  have "?v < unat strs + 16" "unat strs \<le> ?v" unfolding s using div_mult_mod_eq [of ?v 16] mod_less_divisor [of 16 ?v] by linarith+
  then have u: "unat (strs - of_nat k) = unat strs - k" "k + unat stack \<le> unat strs" "unat strs + n \<le> unat stack + unat stack_size"
    using f k by (auto simp: unat_sub word_le_nat_alt)
  show "unat stack \<le> unat (strs - of_nat k)" "unat (strs - of_nat k) + k + n \<le> unat stack + unat stack_size"
    using u by linarith+
  have k8: "k = 8 * (length args + length envs + 43)" by (simp add: k_def below_strs_def)
  obtain q where q: "unat strs = 16 * q" unfolding s by simp
  have "unat (strs - of_nat k) = 8 * (2 * q - (length args + length envs + 43))"
    using u(1) q k8 by (simp add: diff_mult_distrib2)
  moreover have "length args + length envs + 43 \<le> 2 * q" using u(2) q k8 by simp
  ultimately show "8 dvd unat (strs - of_nat k)" "16 dvd unat (strs - of_nat k) \<longleftrightarrow> odd (length args + length envs)"
    by simp_all
qed

definition strs_ok :: "u8 list list \<Rightarrow> bool" where
  "strs_ok ss \<longleftrightarrow> length ss \<le> 1024 \<and> list_all (\<lambda>s. length s \<le> 1024) ss"

lemma stack_init_image:
  assumes "strs_ok args" "strs_ok envs" "sint argc = int (length args)" "length envs < 1024" "length random = 16"
    "fits_stack stack stack_size args envs"
    "below_strs (length args) (length envs) + (strs_size args + strs_size envs) < 2 ^ 64"
  defines "sp \<equiv> truncp (stack + stack_size - of_nat (strs_size args + strs_size envs)) 16 - of_nat (below_strs (length args) (length envs))"
  shows "stack_init getauxval random stack stack_size info argc (map Some args @ [None]) (map Some envs @ [None]) m =
    Inr (sp, store_bytes sp (stack_image getauxval random info sp args envs) m)"
proof -
  define strs where "strs = truncp (stack + stack_size - of_nat (strs_size args + strs_size envs)) 16"
  have argc: "c_MIN argc ARGV_MAX = argc" "nat (sint argc) = length args"
  proof -
    have "argc = 1024" if "sint argc = 1024"
    proof -
      have "sint argc = sint (1024 :: cint)" using that by simp
      then show ?thesis by (rule signed_word_eqI)
    qed
    then show "c_MIN argc ARGV_MAX = argc" using assms(1,3) by (auto simp: c_MIN_def ARGV_MAX_def strs_ok_def)
    show "nat (sint argc) = length args" using assms(3) by simp
  qed
  have i2u: "int_to_u64 argc = of_nat (length args)"
    using assms(1,3) by (simp add: strs_ok_def int_to_u64_def scast_eq)
  have scan: "scan_strs ARGV_MAXLEN (nat (sint argc)) (map Some args @ [None]) = Inr args"
      "scan_strs ENVP_MAXLEN ENVP_MAX (map Some envs @ [None]) = Inr envs"
    using assms(1,2,4) argc(2) by (auto intro!: scan_strs_ok simp: strs_ok_def ARGV_MAXLEN_def ENVP_MAXLEN_def ENVP_MAX_def)
  have sz: "strs_size args < 2 ^ 64" "strs_size envs < 2 ^ 64" using assms(7) by linarith+
  let ?A = "le_bytes 8 (of_nat (length args))" let ?av = "str_addrs strs args @ [0]"
  let ?ev = "str_addrs (strs + of_nat (strs_size args)) envs @ [0]"
  let ?D = "words_bytes (auxv_words (auxv_list getauxval info (hd ?av) (strs - 16)))"
  have sp: "sp = strs - of_nat (below_strs (length args) (length envs))" by (simp add: sp_def strs_def)
  have adr: "strs - 16 - 8 - of_nat (8 * (length args + 1)) - of_nat (8 * (length envs + 1)) - of_nat (8 * 38) = sp"
      "sp + of_nat 8 + of_nat (8 * (length args + 1)) + of_nat (8 * (length envs + 1)) + of_nat (8 * 38) = strs - 16"
      "strs - 16 + of_nat 16 = strs" "sp + of_nat (below_strs (length args) (length envs)) = strs"
    unfolding sp by (simp_all add: below_strs_def algebra_simps)
  have len: "length ?A = 8" "length (words_bytes ?av) = 8 * (length args + 1)" "length (words_bytes ?ev) = 8 * (length envs + 1)"
      "length ?D = 8 * 38" "length (cstrs args) = strs_size args" "length (cstrs envs) = strs_size envs"
      "length ?av = length args + 1" "length ?ev = length envs + 1"
    by (simp_all add: length_cstrs)
  have "length ?A + length (words_bytes ?av) + length (words_bytes ?ev) + length ?D + length random + length (cstrs args) +
      length (cstrs envs) < 2 ^ 64"
    unfolding len using assms(5,7) by (simp add: below_strs_def)
  note W = stack_writes [OF this, of sp m, unfolded len assms(5), unfolded adr]
  have img: "stack_image getauxval random info sp args envs = ?A @ words_bytes ?av @ words_bytes ?ev @ ?D @ random @ cstrs args @ cstrs envs"
    unfolding stack_image_def adr(4) Let_def by simp
  have eight: "(8 :: u64) = of_nat 8" by simp
  show ?thesis
    unfolding stack_init_def Let_def argc(1) scan rbind_simps prod.case strs_def [symmetric]
      copy_strs_ok [OF sz(1)] copy_strs_ok [OF sz(2)] len length_auxv adr(1) img i2u W [symmetric]
    unfolding eight ..
qed

text \<open>Reading back argument number i through the pointer table.\<close>

lemma cstrs_split: "i < length ss \<Longrightarrow> cstrs ss = cstrs (take i ss) @ (ss ! i @ [0]) @ cstrs (drop (Suc i) ss)"
  by (subst id_take_nth_drop [of i ss]) simp_all

lemma words_split:
  "i < length ws \<Longrightarrow> words_bytes ws = words_bytes (take i ws) @ le_bytes 8 (ws ! i) @ words_bytes (drop (Suc i) ws)"
  by (subst id_take_nth_drop [of i ws]) (simp_all add: words_bytes_def)

lemma read_argument:
  fixes sp :: u64 and info :: ELFLoadInfo and getauxval :: "u64 \<Rightarrow> u64"
  assumes "i < length args" "length random = 16"
    "below_strs (length args) (length envs) + (strs_size args + strs_size envs) < 2 ^ 64"
  defines "img \<equiv> stack_image getauxval random info sp args envs"
  shows "load_bytes (sp + of_nat (8 + 8 * i)) 8 (store_bytes sp img m) =
      le_bytes 8 (sp + of_nat (below_strs (length args) (length envs) + strs_size (take i args)))"
    and "load_bytes (sp + of_nat (below_strs (length args) (length envs) + strs_size (take i args))) (length (args ! i) + 1)
      (store_bytes sp img m) = args ! i @ [0]"
proof -
  let ?k = "below_strs (length args) (length envs)"
  let ?strs = "sp + of_nat ?k"
  let ?av = "str_addrs ?strs args @ [0]" let ?ev = "str_addrs (?strs + of_nat (strs_size args)) envs @ [0]"
  let ?C = "words_bytes ?ev" let ?D = "words_bytes (auxv_words (auxv_list getauxval info (hd ?av) (?strs - 16)))"
  let ?A = "le_bytes 8 (of_nat (length args))"
  have img: "img = ?A @ words_bytes ?av @ ?C @ ?D @ random @ cstrs args @ cstrs envs"
    by (simp add: img_def stack_image_def Let_def)
  have len: "length img = ?k + (strs_size args + strs_size envs)"
    using assms(2) by (simp add: img_def length_stack_image)
  have ptr: "?av ! i = sp + of_nat (?k + strs_size (take i args))"
    using assms(1) by (simp add: nth_append str_addrs_nth add.assoc)
  let ?X = "?A @ words_bytes (take i ?av)" and ?Y = "le_bytes 8 (?av ! i)"
  let ?Z = "words_bytes (drop (Suc i) ?av) @ ?C @ ?D @ random @ cstrs args @ cstrs envs"
  have 1: "img = ?X @ ?Y @ ?Z" unfolding img using words_split [of i ?av] assms(1) by simp
  have X: "length ?X = 8 + 8 * i" using assms(1) by simp
  have "length ?X + length ?Y + length ?Z < 2 ^ 64"
    using arg_cong [OF 1, of length] len assms(3) by (simp only: length_append)
  from load_store_middle [OF this, of sp m]
  show "load_bytes (sp + of_nat (8 + 8 * i)) 8 (store_bytes sp img m) = le_bytes 8 (sp + of_nat (?k + strs_size (take i args)))"
    unfolding 1 [symmetric] unfolding X ptr length_le_bytes .
  let ?P = "?A @ words_bytes ?av @ ?C @ ?D @ random @ cstrs (take i args)"
  let ?R = "cstrs (drop (Suc i) args) @ cstrs envs"
  have 2: "img = ?P @ (args ! i @ [0]) @ ?R" unfolding img using cstrs_split [OF assms(1)] by simp
  have P: "length ?P = ?k + strs_size (take i args)" using assms(2) by (simp add: below_strs_def length_cstrs)
  have "length ?P + length (args ! i @ [0]) + length ?R < 2 ^ 64"
    using arg_cong [OF 2, of length] len assms(3) by (simp only: length_append)
  from load_store_middle [OF this, of sp m]
  show "load_bytes (sp + of_nat (?k + strs_size (take i args))) (length (args ! i) + 1) (store_bytes sp img m) = args ! i @ [0]"
    unfolding 2 [symmetric] unfolding P by simp
qed

text \<open>
  C15: the initial stack. For at most 1024 arguments and environment strings of at most 1024 bytes that fit
  the stack together with the tables, \<open>stack_init\<close> returns a stack pointer inside the stack and the memory
  differs from before by exactly one block at that address: argc, the argument pointers and NULL, the
  environment pointers and NULL, the auxiliary vector, the random bytes and the strings. Following pointer
  number i of the argument table in the new memory gives argument number i. The stack pointer is a multiple of 8, but of 16 only when the
  numbers of arguments and environment strings add up to an odd number.
\<close>

theorem stack_init_correct:
  assumes "strs_ok args" "strs_ok envs" "sint argc = int (length args)" "length envs < 1024" "length random = 16"
    "fits_stack stack stack_size args envs"
  shows "\<exists>sp m'. stack_init getauxval random stack stack_size info argc (map Some args @ [None]) (map Some envs @ [None]) m = Inr (sp, m') \<and>
    m' = store_bytes sp (stack_image getauxval random info sp args envs) m \<and>
    unat stack \<le> unat sp \<and>
    unat sp + length (stack_image getauxval random info sp args envs) \<le> unat stack + unat stack_size \<and>
    8 dvd unat sp \<and> (16 dvd unat sp \<longleftrightarrow> odd (length args + length envs)) \<and>
    load_bytes sp 8 m' = le_bytes 8 (of_nat (length args)) \<and>
    (\<forall>i < length args. \<exists>p. load_bytes (sp + of_nat (8 + 8 * i)) 8 m' = le_bytes 8 p \<and>
       load_bytes p (length (args ! i) + 1) m' = args ! i @ [0])"
proof -
  let ?n = "strs_size args + strs_size envs" and ?k = "below_strs (length args) (length envs)"
  let ?strs = "truncp (stack + stack_size - of_nat ?n) 16"
  let ?sp = "?strs - of_nat ?k"
  let ?img = "stack_image getauxval random info ?sp args envs" let ?m = "store_bytes ?sp ?img m"
  note pl = stack_place [OF assms(6)]
  have len: "length ?img = ?k + ?n" using assms(5) by (simp add: length_stack_image)
  have small: "?k + ?n < 2 ^ 64" using pl(2) unat_lt_2p64 [of stack_size] assms(6) by (simp add: fits_stack_def)
  have eq: "stack_init getauxval random stack stack_size info argc (map Some args @ [None]) (map Some envs @ [None]) m = Inr (?sp, ?m)"
    using assms small by (rule stack_init_image)
  have "load_bytes ?sp 8 ?m = le_bytes 8 (of_nat (length args))"
    using load_store_middle [of "[]" "le_bytes 8 (of_nat (length args))" "drop 8 ?img" ?sp m] len small
    by (simp add: stack_image_def Let_def)
  moreover have "\<exists>p. load_bytes (?sp + of_nat (8 + 8 * i)) 8 ?m = le_bytes 8 p \<and>
       load_bytes p (length (args ! i) + 1) ?m = args ! i @ [0]" if i: "i < length args" for i
    using read_argument [OF i assms(5) small, of ?sp getauxval info m] by blast
  ultimately show ?thesis using eq pl len by (intro exI [of _ ?sp] exI [of _ ?m]) (simp add: add.assoc)
qed

theorem stack_init_correct_witness:
  "\<exists>sp m'. stack_init (\<lambda>_. 0) (replicate 16 7) 0x7fe00000 0x200000 blank_elfinfo 2 [Some [99], Some [100, 101], None] [Some [102], None] (\<lambda>_. 0)
       = Inr (sp, m') \<and> 16 dvd unat sp \<and> load_bytes sp 8 m' = le_bytes 8 2"
proof -
  have "strs_ok [[99], [100, 101 :: u8]]" "strs_ok [[102 :: u8]]" "sint (2 :: cint) = int (length [[99], [100, 101 :: u8]])"
    "length [[102 :: u8]] < 1024" "length (replicate 16 (7 :: u8)) = 16"
    "fits_stack 0x7fe00000 0x200000 [[99], [100, 101]] [[102]]"
    by (simp_all add: strs_ok_def fits_stack_def strs_size_def below_strs_def)
  from stack_init_correct [OF this, of "\<lambda>_. 0" blank_elfinfo "\<lambda>_. 0"] show ?thesis by auto
qed

section \<open>New threads\<close>

text \<open>Registers that allow memory accesses and jumps in one range only.\<close>

definition confining :: "LPSRegs \<Rightarrow> u64 \<Rightarrow> u64 \<Rightarrow> bool" where
  "confining regs lo hi \<longleftrightarrow>
     membound regs = (lo, hi) # replicate 15 (0, 0) \<and> jmpbound regs = (lo, hi) # replicate 3 (0, 0) \<and>
     (\<forall>j. cfg_field (memcfg regs) j = (if j = 0 then ucast (LIBCFG_R OR LIBCFG_W OR LIBCFG_V) else 0)) \<and>
     (\<forall>j. cfg_field (jmpcfg regs) j = (if j = 0 then ucast JMPCFG_V else 0))"

text \<open>Registers whose bounds other than the first are unused.\<close>

definition one_bound :: "LPSRegs \<Rightarrow> bool" where
  "one_bound regs \<longleftrightarrow> (\<exists>x. membound regs = x # replicate 15 (0, 0)) \<and> (\<exists>x. jmpbound regs = x # replicate 3 (0, 0)) \<and>
     (\<forall>j > 0. cfg_field (memcfg regs) j = 0 \<and> cfg_field (jmpcfg regs) j = 0)"

lemma confining_one_bound: "confining regs lo hi \<Longrightarrow> one_bound regs"
  by (auto simp: confining_def one_bound_def)

lemma zero_one_bound: "one_bound zero_regs"
proof -
  have "replicate 16 (0 :: u64, 0 :: u64) = (0, 0) # replicate 15 (0, 0)" "replicate 4 (0 :: u64, 0 :: u64) = (0, 0) # replicate 3 (0, 0)"
    by (simp_all add: numeral_eq_Suc)
  then show ?thesis by (simp add: one_bound_def zero_regs_def)
qed

lemma set_bounds_ok:
  assumes "one_bound regs"
  obtains r1 r2 where "lps_membound_set regs 0 (LIBCFG_R OR LIBCFG_W) lo hi = Inr r1" "lps_jmpbound_set r1 0 lo hi = Inr r2"
    "confining r2 lo hi" "r_sp r2 = r_sp regs" "uepc r2 = uepc regs"
proof -
  have rw: "LIBCFG_R OR LIBCFG_W < 16" by (simp add: LIBCFG_R_def LIBCFG_W_def)
  obtain r1 where r1: "lps_membound_set regs 0 (LIBCFG_R OR LIBCFG_W) lo hi = Inr r1"
      "membound r1 = (membound regs)[nat (sint (0 :: cint)) := (lo, hi)]"
      "\<forall>j. cfg_field (memcfg r1) j = (if j = nat (sint (0 :: cint)) then ucast ((LIBCFG_R OR LIBCFG_W) OR LIBCFG_V) else cfg_field (memcfg regs) j)"
      "r1\<lparr>memcfg := memcfg regs, membound := membound regs\<rparr> = regs"
    by (rule membound_set_ok [of 0 "LIBCFG_R OR LIBCFG_W" regs lo hi]) (use rw in simp_all)
  have j1: "jmpcfg r1 = jmpcfg regs" "jmpbound r1 = jmpbound regs" "r_sp r1 = r_sp regs" "uepc r1 = uepc regs"
    using arg_cong [OF r1(4), of jmpcfg] arg_cong [OF r1(4), of jmpbound] arg_cong [OF r1(4), of r_sp]
      arg_cong [OF r1(4), of uepc] by simp_all
  obtain r2 where r2: "lps_jmpbound_set r1 0 lo hi = Inr r2" "jmpbound r2 = (jmpbound r1)[0 := (lo, hi)]"
      "\<forall>j. cfg_field (jmpcfg r2) j = (if j = 0 then ucast JMPCFG_V else cfg_field (jmpcfg r1) j)"
      "r2\<lparr>jmpcfg := jmpcfg r1, jmpbound := jmpbound r1\<rparr> = r1"
    using jmpbound_ok(1) [of 0 r1 lo hi] by auto
  have m2: "memcfg r2 = memcfg r1" "membound r2 = membound r1" "r_sp r2 = r_sp r1" "uepc r2 = uepc r1"
    using arg_cong [OF r2(4), of memcfg] arg_cong [OF r2(4), of membound] arg_cong [OF r2(4), of r_sp]
      arg_cong [OF r2(4), of uepc] by simp_all
  have "confining r2 lo hi"
    using assms r1(2,3) r2(2,3) m2(1,2) j1(1,2) by (auto simp: confining_def one_bound_def or.assoc)
  then show thesis using that r1(1) r2(1) m2(3,4) j1(3,4) by simp
qed

text \<open>The initial stack at the top of a sandbox.\<close>

lemma thread_stack:
  assumes "proc_confined hv I q" "unat st + unat sz = box_hi (pr_box q)" "unat sz \<le> unat (bx_size (pr_box q))"
    "strs_ok args" "strs_ok envs" "sint argc = int (length args)" "length envs < 1024" "length random = 16"
    "strs_size args + strs_size envs + below_strs (length args) (length envs) + 15 \<le> unat sz"
  obtains sp img where "img = stack_image getauxval random info sp args envs"
    "stack_init getauxval random st sz info argc (map Some args @ [None]) (map Some envs @ [None]) (w_mem (pr_world q))
      = Inr (sp, store_bytes sp img (w_mem (pr_world q)))"
    "unat st \<le> unat sp" "unat sp + length img \<le> box_hi (pr_box q)" "proc_kept I q (pr_set_mem q (store_bytes sp img))"
    "load_bytes sp (length img) (w_mem (pr_world (pr_set_mem q (store_bytes sp img)))) = img"
proof -
  have "box_ok (pr_box q)" using assms(1) by (simp add: proc_confined_def proc_ok_def)
  note hi = box_ok_limit(2) [OF this]
  have fits: "fits_stack st sz args envs" using assms(2,3,9) hi by (simp add: fits_stack_def)
  note pl = stack_place [OF fits]
  let ?sp = "truncp (st + sz - of_nat (strs_size args + strs_size envs)) 16 - of_nat (below_strs (length args) (length envs))"
  let ?img = "stack_image getauxval random info ?sp args envs"
  have len: "length ?img = below_strs (length args) (length envs) + (strs_size args + strs_size envs)"
    using assms(8) by (simp add: length_stack_image)
  have small: "below_strs (length args) (length envs) + (strs_size args + strs_size envs) < 2 ^ 64"
    using assms(9) unat_lt_2p64 [of sz] by linarith
  have init: "stack_init getauxval random st sz info argc (map Some args @ [None]) (map Some envs @ [None]) (w_mem (pr_world q))
      = Inr (?sp, store_bytes ?sp ?img (w_mem (pr_world q)))"
    using assms(4-8) fits small by (rule stack_init_image)
  have in_box: "box_lo (pr_box q) \<le> unat ?sp" "unat ?sp + length ?img \<le> box_hi (pr_box q)"
    using pl(1,2) len assms(2,3) by linarith+
  have k: "proc_kept I q (pr_set_mem q (store_bytes ?sp ?img))"
    by (rule proc_kept_mem [OF assms(1)]) (use in_box in simp_all)
  have rb: "load_bytes ?sp (length ?img) (w_mem (pr_world (pr_set_mem q (store_bytes ?sp ?img)))) = ?img"
    using load_store_bytes [of ?img ?sp "w_mem (pr_world q)"] small len
    by (simp add: pr_set_mem_def pr_set_world_def box_set_world_def pr_world_def)
  show ?thesis using that [OF HOL.refl init pl(1) in_box(2) k rb] .
qed

lemma ctx_new_confining:
  obtains ctx where "lps_ctx_new entry (Some ks) box handle = Inr (Some ctx)"
    "confining (cx_regs ctx) (bx_base box) (bx_base box + bx_size box)"
proof -
  obtain r1 r2 where "lps_membound_set zero_regs 0 (LIBCFG_R OR LIBCFG_W) (bx_base box) (bx_base box + bx_size box) = Inr r1"
      "lps_jmpbound_set r1 0 (bx_base box) (bx_base box + bx_size box) = Inr r2"
      "confining r2 (bx_base box) (bx_base box + bx_size box)" "r_sp r2 = r_sp zero_regs" "uepc r2 = uepc zero_regs"
    using zero_one_bound by (rule set_bounds_ok)
  then show thesis using that by (simp add: lps_ctx_new_def Let_def)
qed

lemma thread_new_ok:
  assumes "proc_confined hv I p" "lo_stacksize (pr_opts p) \<noteq> 0" "2 ^ 12 dvd unat (lo_stacksize (pr_opts p))"
    "unat (lo_stacksize (pr_opts p)) \<le> unat (bx_size (pr_box p))"
    "strs_ok args" "strs_ok envs" "sint argc = int (length args)" "length envs < 1024" "length random = 16"
    "strs_size args + strs_size envs + below_strs (length args) (length envs) + 15 \<le> unat (lo_stacksize (pr_opts p))"
  shows "\<exists>th q. lps_thread_new hv getauxval random calloc_ok entry kstack handle p argc (map Some args @ [None]) (map Some envs @ [None])
      = Inr (th, q) \<and> proc_kept I p q \<and> rest_kept p q \<and> pr_brkbase q = pr_brkbase p \<and> pr_brksize q = pr_brksize p \<and> (\<not> calloc_ok \<or> kstack = None \<longrightarrow> th = None) \<and>
    (\<forall>t. th = Some t \<longrightarrow> th_proc t = q \<and> th_tid t = 10000 + pr_thread_count p \<and> th_state t = THREAD_RUNNABLE \<and>
       th_stack t = bx_base (pr_box p) + bx_size (pr_box p) - lo_stacksize (pr_opts p) \<and>
       confining (cx_regs (th_ctx t)) (bx_base (pr_box p)) (bx_base (pr_box p) + bx_size (pr_box p)) \<and>
       uepc (cx_regs (th_ctx t)) = pr_entry p \<and>
       unat (th_stack t) \<le> unat (r_sp (cx_regs (th_ctx t))) \<and>
       (let sp = r_sp (cx_regs (th_ctx t)); img = stack_image getauxval random (pr_elfinfo p) sp args envs in
        unat sp + length img \<le> box_hi (pr_box p) \<and> load_bytes sp (length img) (w_mem (pr_world q)) = img))"
proof (cases "calloc_ok \<and> kstack \<noteq> None")
  case False
  then have "lps_thread_new hv getauxval random calloc_ok entry kstack handle p argc (map Some args @ [None]) (map Some envs @ [None])
      = Inr (None, p)"
    by (cases kstack) (auto simp: lps_thread_new_def lps_ctx_new_def)
  then show ?thesis using proc_kept_refl [OF assms(1)] False by simp
next
  case True
  then obtain ks where ks: "kstack = Some ks" "calloc_ok" by auto
  let ?b = "bx_base (pr_box p)" and ?sz = "lo_stacksize (pr_opts p)"
  let ?hi = "?b + bx_size (pr_box p)"
  let ?st = "?hi - ?sz"
  have ok: "box_ok (pr_box p)" using assms(1) by (simp add: proc_confined_def proc_ok_def)
  note hi = box_ok_limit(2) [OF ok]
  have info: "bi_base (pr_boxinfo p) = ?b" "bi_size (pr_boxinfo p) = bx_size (pr_box p)"
    using assms(1) by (simp_all add: proc_confined_def proc_ok_def lps_box_info_def)
  have ue: "unat ?hi = box_hi (pr_box p)" using hi by (rule unat_add_nowrap)
  have us: "unat ?st = box_hi (pr_box p) - unat ?sz"
    using assms(4) ue by (subst unat_sub) (simp_all add: word_le_nat_alt)
  have al: "2 ^ 12 dvd unat ?st" unfolding us using ok assms(3) by (simp add: box_ok_def)
  obtain ctx where ctx: "lps_ctx_new entry (Some ks) (pr_box p) handle = Inr (Some ctx)" "confining (cx_regs ctx) ?b ?hi"
    by (rule ctx_new_confining)
  let ?p1 = "p\<lparr>pr_thread_count := pr_thread_count p + 1\<rparr>"
  have k1: "proc_kept I p ?p1" using proc_kept_refl [OF assms(1)] by simp
  obtain r box where m: "lps_box_mapat hv (pr_box ?p1) ?st ?sz (PROT_READ OR PROT_WRITE) (MAP_PRIVATE OR MAP_ANONYMOUS) (- 1) 0
      = Inr (r, box)" and k12: "proc_kept I ?p1 (?p1\<lparr>pr_box := box\<rparr>)" and r: "r \<in> {?st, -1}"
    by (rule mapat_kept [OF proc_kept_confined [OF k1 assms(1)] al assms(2)]) (use us assms(4) in auto)
  let ?p2 = "?p1\<lparr>pr_box := box\<rparr>"
  note k2 = proc_kept_trans [OF k1 k12]
  note c2 = proc_kept_confined [OF k2 assms(1)]
  have un: "lps_thread_new hv getauxval random calloc_ok entry kstack handle p argc (map Some args @ [None]) (map Some envs @ [None]) =
      (if r = - 1 then Inr (None, ?p2)
       else rbind (stack_init getauxval random r ?sz (pr_elfinfo p) argc (map Some args @ [None]) (map Some envs @ [None])
              (w_mem (pr_world ?p2))) (\<lambda>(sp, m).
            let proc = pr_set_mem ?p2 (\<lambda>_. m); ctx = uepc_init (sp_init ctx sp) (pr_entry p) in
            rbind (lps_membound_set (cx_regs ctx) 0 (LIBCFG_R OR LIBCFG_W) ?b ?hi) (\<lambda>regs.
            rbind (lps_jmpbound_set regs 0 ?b ?hi) (\<lambda>regs.
            Inr (Some \<lparr>th_ctx = ctx\<lparr>cx_regs := regs\<rparr>, th_stack = r, th_stack_size = ?sz, th_ctidp = 0, th_tid = 10000 + pr_thread_count p,
                       th_state = THREAD_RUNNABLE, th_proc = proc\<rparr>, proc)))))"
    using True ks ctx(1) m info by (simp add: lps_thread_new_def next_tid_def BASE_TID_def Let_def pr_set_mem_def pr_set_world_def)
  show ?thesis
  proof (cases "r = - 1")
    case True
    then show ?thesis using un k2 ks by simp
  next
    case False
    then have r': "r = ?st" using r by simp
    have geo: "bx_base (pr_box ?p2) = ?b" "bx_size (pr_box ?p2) = bx_size (pr_box p)" using k2 by (simp_all add: proc_kept_def)
    obtain sp img where sp: "img = stack_image getauxval random (pr_elfinfo p) sp args envs"
      "stack_init getauxval random ?st ?sz (pr_elfinfo p) argc (map Some args @ [None]) (map Some envs @ [None]) (w_mem (pr_world ?p2))
        = Inr (sp, store_bytes sp img (w_mem (pr_world ?p2)))"
      "unat ?st \<le> unat sp" "unat sp + length img \<le> box_hi (pr_box p)" "proc_kept I ?p2 (pr_set_mem ?p2 (store_bytes sp img))"
      "load_bytes sp (length img) (w_mem (pr_world (pr_set_mem ?p2 (store_bytes sp img)))) = img"
      by (rule thread_stack [OF c2 _ _ assms(5-10), of ?st, unfolded geo]) (use us assms(4) in auto)
    note k3 = proc_kept_trans [OF k2 sp(5)]
    let ?ctx = "uepc_init (sp_init ctx sp) (pr_entry p)"
    have "one_bound (cx_regs ?ctx)"
      using confining_one_bound [OF ctx(2)] by (simp add: one_bound_def uepc_init_def sp_init_def)
    then obtain r1 r2 where rs: "lps_membound_set (cx_regs ?ctx) 0 (LIBCFG_R OR LIBCFG_W) ?b ?hi = Inr r1"
        "lps_jmpbound_set r1 0 ?b ?hi = Inr r2" "confining r2 ?b ?hi" "r_sp r2 = r_sp (cx_regs ?ctx)" "uepc r2 = uepc (cx_regs ?ctx)"
      by (rule set_bounds_ok)
    have mem: "pr_set_mem ?p2 (\<lambda>_. store_bytes sp img (w_mem (pr_world ?p2))) = pr_set_mem ?p2 (store_bytes sp img)"
      by (simp add: pr_set_mem_def)
    show ?thesis
      using un ks False r' sp(2-4,6) rs mem k3 unfolding sp(1)
      by (simp add: Let_def uepc_init_def sp_init_def) (simp add: pr_set_mem_def pr_set_world_def)
  qed
qed

text \<open>
  C23: new threads are confined. For a process whose sandbox is well formed and large enough for the
  stack, \<open>lps_thread_new\<close> never faults and keeps the process inside its sandbox. A thread it returns
  starts at the entry point of the program, its stack pointer lies in a freshly mapped stack at the top of the
  sandbox and points to the initial block, and its registers permit accesses and jumps in the sandbox only.
  Thread identifiers count up from 10000.
\<close>

theorem lps_thread_new_correct:
  assumes "proc_confined hv I p" "lo_stacksize (pr_opts p) \<noteq> 0" "2 ^ 12 dvd unat (lo_stacksize (pr_opts p))"
    "unat (lo_stacksize (pr_opts p)) \<le> unat (bx_size (pr_box p))"
    "strs_ok args" "strs_ok envs" "sint argc = int (length args)" "length envs < 1024" "length random = 16"
    "strs_size args + strs_size envs + below_strs (length args) (length envs) + 15 \<le> unat (lo_stacksize (pr_opts p))"
  shows "\<exists>th q. lps_thread_new hv getauxval random calloc_ok entry kstack handle p argc (map Some args @ [None]) (map Some envs @ [None])
      = Inr (th, q) \<and> proc_kept I p q \<and> (\<not> calloc_ok \<or> kstack = None \<longrightarrow> th = None) \<and>
    (\<forall>t. th = Some t \<longrightarrow> th_proc t = q \<and> th_tid t = 10000 + pr_thread_count p \<and> th_state t = THREAD_RUNNABLE \<and>
       th_stack t = bx_base (pr_box p) + bx_size (pr_box p) - lo_stacksize (pr_opts p) \<and>
       confining (cx_regs (th_ctx t)) (bx_base (pr_box p)) (bx_base (pr_box p) + bx_size (pr_box p)) \<and>
       uepc (cx_regs (th_ctx t)) = pr_entry p \<and>
       unat (th_stack t) \<le> unat (r_sp (cx_regs (th_ctx t))) \<and>
       (let sp = r_sp (cx_regs (th_ctx t)); img = stack_image getauxval random (pr_elfinfo p) sp args envs in
        unat sp + length img \<le> box_hi (pr_box p) \<and> load_bytes sp (length img) (w_mem (pr_world q)) = img))"
  using thread_new_ok [OF assms, of getauxval calloc_ok entry kstack handle] by blast

theorem lps_thread_new_correct_witness:
  "\<exists>th q. lps_thread_new zero_host (\<lambda>_. 0) (replicate 16 7) True 0x1234 (Some 0x5000) 0x99 demo_proc 1 [Some [97], None] [None] = Inr (th, q) \<and>
     proc_kept (same_outside_range (\<lambda>_. 0) 0x40000000 0xc0000000) demo_proc q"
proof -
  have "lo_stacksize (pr_opts demo_proc) \<noteq> 0" "2 ^ 12 dvd unat (lo_stacksize (pr_opts demo_proc))"
    "unat (lo_stacksize (pr_opts demo_proc)) \<le> unat (bx_size (pr_box demo_proc))"
    "strs_ok [[97 :: u8]]" "strs_ok ([] :: u8 list list)" "sint (1 :: cint) = int (length [[97 :: u8]])" "length ([] :: u8 list list) < 1024"
    "length (replicate 16 (7 :: u8)) = 16"
    "strs_size [[97 :: u8]] + strs_size [] + below_strs (length [[97 :: u8]]) (length ([] :: u8 list list)) + 15
       \<le> unat (lo_stacksize (pr_opts demo_proc))"
    by (simp_all add: demo_proc_def demo_proc_box_def STACKSIZE_def strs_ok_def strs_size_def below_strs_def)
  from lps_thread_new_correct [OF demo_proc_confined this, of "\<lambda>_. 0" True "0x1234" "Some 0x5000" "0x99"] show ?thesis
    by (elim exE conjE) auto
qed

end
