(* ===== verification/Cwalk.thy ===== *)
theory Cwalk
  imports Prelude
begin

text \<open>
  The path library \<open>lps-linux/cwalk.c\<close>, \<open>cwalk.h\<close>. A path is the list of its characters without the
  terminating zero, a pointer into it an index, and a buffer the list of all its characters, whose length
  is the buffer's size. Sizes are natural numbers: no object is large enough for a sum of two lengths to
  wrap. Source and buffer are separate. The path style, a global variable of the library, is the first
  argument of every function that reads it.
\<close>

section \<open>Characters\<close>

datatype cwk_segment_type = CWK_NORMAL | CWK_CURRENT | CWK_BACK
datatype cwk_path_style = CWK_STYLE_WINDOWS | CWK_STYLE_UNIX

record cwk_segment =
  sg_path :: string
  sg_segments :: nat
  sg_begin :: nat
  sg_end :: nat
  sg_size :: nat

definition NUL :: char where "NUL = CHR 0x00"

text \<open>The character p points to, the terminating zero at and behind the end.\<close>

definition cwk_char :: "string \<Rightarrow> nat \<Rightarrow> char" where
  "cwk_char p i = (if i < length p then p ! i else NUL)"

definition separators :: "cwk_path_style \<Rightarrow> string" where
  "separators st = (case st of CWK_STYLE_WINDOWS \<Rightarrow> [CHR 0x5C, CHR 0x2F] | CWK_STYLE_UNIX \<Rightarrow> [CHR 0x2F])"

definition cwk_path_is_separator :: "cwk_path_style \<Rightarrow> string \<Rightarrow> nat \<Rightarrow> bool" where
  "cwk_path_is_separator st p i = list_ex (\<lambda>c. c = cwk_char p i) (separators st)"

lemma not_separator_NUL: "cwk_path_is_separator st p i \<Longrightarrow> cwk_char p i \<noteq> NUL"
  by (auto simp: cwk_path_is_separator_def separators_def NUL_def split: cwk_path_style.splits)

lemma char_in_path: "cwk_char p i \<noteq> NUL \<Longrightarrow> i < length p"
  by (auto simp: cwk_char_def split: if_splits)

lemma separator_in_path: "cwk_path_is_separator st p i \<Longrightarrow> i < length p"
  using not_separator_NUL char_in_path by blast

section \<open>Output\<close>

definition cwk_path_output_sized :: "string \<Rightarrow> nat \<Rightarrow> string \<Rightarrow> nat \<Rightarrow> nat \<times> string" where
  "cwk_path_output_sized buffer position str len =
     (let amount = (if length buffer > position + len then len
                    else if length buffer > position then length buffer - position
                    else 0)
      in (len, if amount > 0 then take position buffer @ take amount str @ drop (position + amount) buffer else buffer))"

definition cwk_path_output_current :: "string \<Rightarrow> nat \<Rightarrow> nat \<times> string" where
  "cwk_path_output_current buffer position = cwk_path_output_sized buffer position ''.'' 1"

definition cwk_path_output_back :: "string \<Rightarrow> nat \<Rightarrow> nat \<times> string" where
  "cwk_path_output_back buffer position = cwk_path_output_sized buffer position ''..'' 2"

definition cwk_path_output_separator :: "cwk_path_style \<Rightarrow> string \<Rightarrow> nat \<Rightarrow> nat \<times> string" where
  "cwk_path_output_separator st buffer position = cwk_path_output_sized buffer position (separators st) 1"

definition cwk_path_output_dot :: "string \<Rightarrow> nat \<Rightarrow> nat \<times> string" where
  "cwk_path_output_dot buffer position = cwk_path_output_sized buffer position ''.'' 1"

definition cwk_path_output :: "string \<Rightarrow> nat \<Rightarrow> string \<Rightarrow> nat \<times> string" where
  "cwk_path_output buffer position str = cwk_path_output_sized buffer position str (length str)"

definition cwk_path_terminate_output :: "string \<Rightarrow> nat \<Rightarrow> string" where
  "cwk_path_terminate_output buffer pos =
     (if length buffer > 0 then
        (if pos \<ge> length buffer then buffer[length buffer - 1 := NUL] else buffer[pos := NUL])
      else buffer)"

section \<open>Comparison\<close>

text \<open>\<open>strncmp(first, second, n) == 0\<close>, with first and second the strings from the two pointers on.\<close>

fun strncmp_eq :: "string \<Rightarrow> string \<Rightarrow> nat \<Rightarrow> bool" where
  "strncmp_eq a b 0 = True"
| "strncmp_eq a b (Suc n) =
     (case (a, b) of
        ([], []) \<Rightarrow> True
      | (x # a, y # b) \<Rightarrow> x = y \<and> strncmp_eq a b n
      | _ \<Rightarrow> False)"

definition to_lower :: "char \<Rightarrow> char" where
  "to_lower c = (if 65 \<le> (of_char c :: nat) \<and> (of_char c :: nat) \<le> 90 then char_of ((of_char c :: nat) + 32) else c)"

text \<open>The loop of the case-insensitive comparison: \<open>strchr\<close> finds the separators.\<close>

fun windows_equal_loop :: "string \<Rightarrow> string \<Rightarrow> nat \<Rightarrow> bool" where
  "windows_equal_loop (x # a) (y # b) (Suc n) =
     (let are_both_separators = x \<in> set (separators CWK_STYLE_WINDOWS) \<and> y \<in> set (separators CWK_STYLE_WINDOWS) in
      if to_lower x \<noteq> to_lower y \<and> \<not> are_both_separators then False else windows_equal_loop a b n)"
| "windows_equal_loop a b n = True"

definition cwk_path_is_string_equal :: "cwk_path_style \<Rightarrow> string \<Rightarrow> string \<Rightarrow> nat \<Rightarrow> nat \<Rightarrow> bool" where
  "cwk_path_is_string_equal st first second first_size second_size =
     (if first_size \<noteq> second_size then False
      else if st = CWK_STYLE_UNIX then strncmp_eq first second first_size
      else windows_equal_loop first second first_size)"

section \<open>Segments of one path\<close>

function cwk_path_find_next_stop :: "cwk_path_style \<Rightarrow> string \<Rightarrow> nat \<Rightarrow> nat" where
  "cwk_path_find_next_stop st p c =
     (if cwk_char p c \<noteq> NUL \<and> \<not> cwk_path_is_separator st p c then cwk_path_find_next_stop st p (c + 1) else c)"
  by pat_completeness auto
termination
  by (relation "measure (\<lambda>(st, p, c). length p - c)") (auto dest: char_in_path)

declare cwk_path_find_next_stop.simps [simp del]

text \<open>The loop of \<open>cwk_path_find_previous_stop\<close>.\<close>

fun previous_stop_loop :: "cwk_path_style \<Rightarrow> string \<Rightarrow> nat \<Rightarrow> nat \<Rightarrow> nat" where
  "previous_stop_loop st p begin c =
     (if c > begin \<and> \<not> cwk_path_is_separator st p c then previous_stop_loop st p begin (c - 1) else c)"

declare previous_stop_loop.simps [simp del]

definition cwk_path_find_previous_stop :: "cwk_path_style \<Rightarrow> string \<Rightarrow> nat \<Rightarrow> nat \<Rightarrow> nat" where
  "cwk_path_find_previous_stop st p begin c =
     (let c = previous_stop_loop st p begin c in if cwk_path_is_separator st p c then c + 1 else c)"

text \<open>Skipping separators.\<close>

function skip_separators :: "cwk_path_style \<Rightarrow> string \<Rightarrow> nat \<Rightarrow> nat" where
  "skip_separators st p c = (if cwk_path_is_separator st p c then skip_separators st p (c + 1) else c)"
  by pat_completeness auto
termination
  by (relation "measure (\<lambda>(st, p, c). length p - c)") (auto dest: separator_in_path)

declare skip_separators.simps [simp del]

text \<open>
  The segment is changed also when the result is False. The code leaves the loop over the separators at
  the terminating zero, which is not a separator.
\<close>

definition cwk_path_get_first_segment_without_root ::
  "cwk_path_style \<Rightarrow> string \<Rightarrow> nat \<Rightarrow> bool \<times> cwk_segment" where
  "cwk_path_get_first_segment_without_root st path segments =
     (let seg = \<lparr>sg_path = path, sg_segments = segments, sg_begin = segments, sg_end = segments, sg_size = 0\<rparr> in
      if cwk_char path segments = NUL then (False, seg)
      else
        (let b = skip_separators st path segments in
         if cwk_char path b = NUL then (False, seg)
         else
           (let e = cwk_path_find_next_stop st path b in
            (True, seg\<lparr>sg_begin := b, sg_size := e - b, sg_end := e\<rparr>))))"

definition cwk_path_get_next_segment :: "cwk_path_style \<Rightarrow> cwk_segment \<Rightarrow> (bool \<times> cwk_segment) res" where
  "cwk_path_get_next_segment st seg =
     (let p = sg_path seg; c = sg_begin seg + sg_size seg in
      if cwk_char p c = NUL then Inr (False, seg)
      else
        rbind (rassert (cwk_path_is_separator st p c)) (\<lambda>_.
        let c = skip_separators st p (c + 1) in
        if cwk_char p c = NUL then Inr (False, seg)
        else
          (let e = cwk_path_find_next_stop st p c in
           Inr (True, seg\<lparr>sg_begin := c, sg_end := e, sg_size := e - c\<rparr>))))"

text \<open>The loop that moves back over separators; None when it passes the beginning.\<close>

fun back_over_separators :: "cwk_path_style \<Rightarrow> string \<Rightarrow> nat \<Rightarrow> nat \<Rightarrow> nat option" where
  "back_over_separators st p segments 0 = None"
| "back_over_separators st p segments (Suc c) =
     (if c < segments then None
      else if cwk_path_is_separator st p c then back_over_separators st p segments c
      else Some c)"

definition cwk_path_get_previous_segment :: "cwk_path_style \<Rightarrow> cwk_segment \<Rightarrow> bool \<times> cwk_segment" where
  "cwk_path_get_previous_segment st seg =
     (if sg_begin seg \<le> sg_segments seg then (False, seg)
      else
        (case back_over_separators st (sg_path seg) (sg_segments seg) (sg_begin seg) of
           None \<Rightarrow> (False, seg)
         | Some c \<Rightarrow>
             (let b = cwk_path_find_previous_stop st (sg_path seg) (sg_segments seg) c in
              (True, seg\<lparr>sg_end := c + 1, sg_begin := b, sg_size := c + 1 - b\<rparr>))))"

definition cwk_path_get_segment_type :: "cwk_segment \<Rightarrow> cwk_segment_type" where
  "cwk_path_get_segment_type seg =
     (let s = drop (sg_begin seg) (sg_path seg) in
      if strncmp_eq s ''.'' (sg_size seg) then CWK_CURRENT
      else if strncmp_eq s ''..'' (sg_size seg) then CWK_BACK
      else CWK_NORMAL)"

section \<open>Roots\<close>

definition cwk_path_get_root_windows :: "cwk_path_style \<Rightarrow> string \<Rightarrow> nat" where
  "cwk_path_get_root_windows st path =
     (if cwk_char path 0 = NUL then 0
      else if cwk_path_is_separator st path 0 then
        (if \<not> cwk_path_is_separator st path 1 then 1
         else
           (let dot = cwk_char path 2 = CHR 0x3F \<or> cwk_char path 2 = CHR 0x2E;
                is_device_path = dot \<and> cwk_path_is_separator st path 3 in
            if is_device_path then 4
            else
              (let c = cwk_path_find_next_stop st path (if dot then 3 else 2);
                   c = skip_separators st path c;
                   c = cwk_path_find_next_stop st path c
               in if cwk_path_is_separator st path c then c + 1 else c)))
      else if cwk_char path 1 = CHR 0x3A then (if cwk_path_is_separator st path 2 then 3 else 2)
      else 0)"

definition cwk_path_get_root_unix :: "cwk_path_style \<Rightarrow> string \<Rightarrow> nat" where
  "cwk_path_get_root_unix st path = (if cwk_path_is_separator st path 0 then 1 else 0)"

definition cwk_path_get_root :: "cwk_path_style \<Rightarrow> string \<Rightarrow> nat" where
  "cwk_path_get_root st path =
     (if st = CWK_STYLE_WINDOWS then cwk_path_get_root_windows st path else cwk_path_get_root_unix st path)"

definition cwk_path_is_root_absolute :: "cwk_path_style \<Rightarrow> string \<Rightarrow> nat \<Rightarrow> bool" where
  "cwk_path_is_root_absolute st path len = (if len = 0 then False else cwk_path_is_separator st path (len - 1))"

text \<open>The loop runs over the first characters of the buffer.\<close>

definition cwk_path_fix_root :: "cwk_path_style \<Rightarrow> string \<Rightarrow> nat \<Rightarrow> string" where
  "cwk_path_fix_root st buffer len =
     (if st \<noteq> CWK_STYLE_WINDOWS then buffer
      else
        (let len = (if len > length buffer then length buffer else len) in
         map (\<lambda>i. if i < len \<and> cwk_path_is_separator st buffer i then hd (separators CWK_STYLE_WINDOWS) else buffer ! i)
           [0 ..< length buffer]))"

definition cwk_path_is_absolute :: "cwk_path_style \<Rightarrow> string \<Rightarrow> bool" where
  "cwk_path_is_absolute st path = cwk_path_is_root_absolute st path (cwk_path_get_root st path)"

definition cwk_path_is_relative :: "cwk_path_style \<Rightarrow> string \<Rightarrow> bool" where
  "cwk_path_is_relative st path = (\<not> cwk_path_is_absolute st path)"

section \<open>First and last segments\<close>

definition cwk_path_get_first_segment :: "cwk_path_style \<Rightarrow> string \<Rightarrow> bool \<times> cwk_segment" where
  "cwk_path_get_first_segment st path =
     cwk_path_get_first_segment_without_root st path (cwk_path_get_root st path)"

lemma skip_separators_ge: "c \<le> skip_separators st p c"
proof (induction st p c rule: skip_separators.induct)
  case (1 st p c)
  then show ?case by (subst skip_separators.simps) auto
qed

lemma next_segment_forward:
  assumes "cwk_path_get_next_segment st seg = Inr (True, seg')"
  shows "sg_begin seg < sg_begin seg'" "sg_begin seg' < length (sg_path seg)" "sg_path seg' = sg_path seg"
proof -
  let ?c = "sg_begin seg + sg_size seg" let ?d = "skip_separators st (sg_path seg) (?c + 1)"
  have s: "sg_begin seg' = ?d \<and> cwk_char (sg_path seg) ?d \<noteq> NUL \<and> sg_path seg' = sg_path seg"
    using assms by (auto simp: cwk_path_get_next_segment_def Let_def rassert_def split: if_splits)
  then show "sg_begin seg < sg_begin seg'" using skip_separators_ge [of "?c + 1" st "sg_path seg"] by simp
  show "sg_begin seg' < length (sg_path seg)" "sg_path seg' = sg_path seg" using s char_in_path by auto
qed

lemma next_segment_measure:
  "cwk_path_get_next_segment st seg = Inr (True, seg') \<Longrightarrow>
   length (sg_path seg') - sg_begin seg' < length (sg_path seg) - sg_begin seg"
  using next_segment_forward [of st seg seg'] by auto

text \<open>The loop that moves to the last segment.\<close>

function last_segment_loop :: "cwk_path_style \<Rightarrow> cwk_segment \<Rightarrow> cwk_segment res" where
  "last_segment_loop st seg =
     (case cwk_path_get_next_segment st seg of
        Inl e \<Rightarrow> Inl e
      | Inr (True, seg) \<Rightarrow> last_segment_loop st seg
      | Inr (False, seg) \<Rightarrow> Inr seg)"
  by pat_completeness auto
termination
  by (relation "measure (\<lambda>(st, seg). length (sg_path seg) - sg_begin seg)")
     (auto dest: next_segment_measure)

declare last_segment_loop.simps [simp del]

definition cwk_path_get_last_segment_without_root :: "cwk_path_style \<Rightarrow> string \<Rightarrow> (bool \<times> cwk_segment) res" where
  "cwk_path_get_last_segment_without_root st path =
     (case cwk_path_get_first_segment_without_root st path 0 of
        (False, seg) \<Rightarrow> Inr (False, seg)
      | (True, seg) \<Rightarrow> rbind (last_segment_loop st seg) (\<lambda>seg. Inr (True, seg)))"

definition cwk_path_get_last_segment :: "cwk_path_style \<Rightarrow> string \<Rightarrow> (bool \<times> cwk_segment) res" where
  "cwk_path_get_last_segment st path =
     (case cwk_path_get_first_segment st path of
        (False, seg) \<Rightarrow> Inr (False, seg)
      | (True, seg) \<Rightarrow> rbind (last_segment_loop st seg) (\<lambda>seg. Inr (True, seg)))"

section \<open>Joined paths\<close>

text \<open>The array of paths ends with a NULL; the list holds the paths before it.\<close>

record cwk_segment_joined =
  sj_segment :: cwk_segment
  sj_paths :: "string list"
  sj_path_index :: nat

fun first_joined_loop :: "cwk_path_style \<Rightarrow> string list \<Rightarrow> nat \<Rightarrow> cwk_segment \<Rightarrow> bool \<times> cwk_segment \<times> nat" where
  "first_joined_loop st [] i seg = (False, seg, i)"
| "first_joined_loop st (p # ps) i seg =
     (case cwk_path_get_first_segment st p of
        (True, seg) \<Rightarrow> (True, seg, i)
      | (False, seg) \<Rightarrow> first_joined_loop st ps (i + 1) seg)"

text \<open>seg0 is the uninitialised segment of the structure.\<close>

definition cwk_path_get_first_segment_joined ::
  "cwk_path_style \<Rightarrow> string list \<Rightarrow> cwk_segment \<Rightarrow> bool \<times> cwk_segment_joined" where
  "cwk_path_get_first_segment_joined st paths seg0 =
     (case first_joined_loop st paths 0 seg0 of
        (r, seg, i) \<Rightarrow> (r, \<lparr>sj_segment = seg, sj_paths = paths, sj_path_index = i\<rparr>))"

text \<open>The loop over the following paths, from index i on.\<close>

function next_joined_loop :: "cwk_path_style \<Rightarrow> string list \<Rightarrow> nat \<Rightarrow> cwk_segment \<Rightarrow> bool \<times> cwk_segment \<times> nat" where
  "next_joined_loop st paths i seg =
     (if i \<ge> length paths then (False, seg, i)
      else
        (case cwk_path_get_first_segment_without_root st (paths ! i) 0 of
           (True, seg) \<Rightarrow> (True, seg, i)
         | (False, seg) \<Rightarrow> next_joined_loop st paths (i + 1) seg))"
  by pat_completeness auto
termination by (relation "measure (\<lambda>(st, paths, i, seg). length paths - i)") auto

declare next_joined_loop.simps [simp del]

definition cwk_path_get_next_segment_joined ::
  "cwk_path_style \<Rightarrow> cwk_segment_joined \<Rightarrow> (bool \<times> cwk_segment_joined) res" where
  "cwk_path_get_next_segment_joined st sj =
     (if sj_path_index sj \<ge> length (sj_paths sj) then Inr (False, sj)
      else
        (case cwk_path_get_next_segment st (sj_segment sj) of
           Inl e \<Rightarrow> Inl e
         | Inr (True, seg) \<Rightarrow> Inr (True, sj\<lparr>sj_segment := seg\<rparr>)
         | Inr (False, seg) \<Rightarrow>
             (case next_joined_loop st (sj_paths sj) (sj_path_index sj + 1) seg of
                (r, seg, i) \<Rightarrow> Inr (r, sj\<lparr>sj_segment := seg, sj_path_index := i\<rparr>))))"

text \<open>The loop over the preceding paths, down from index i.\<close>

fun previous_joined_loop ::
  "cwk_path_style \<Rightarrow> string list \<Rightarrow> nat \<Rightarrow> cwk_segment \<Rightarrow> (bool \<times> cwk_segment \<times> nat) res" where
  "previous_joined_loop st paths 0 seg = Inr (False, seg, 0)"
| "previous_joined_loop st paths (Suc i) seg =
     (case (if i = 0 then cwk_path_get_last_segment st (paths ! i)
            else cwk_path_get_last_segment_without_root st (paths ! i)) of
        Inl e \<Rightarrow> Inl e
      | Inr (True, seg) \<Rightarrow> Inr (True, seg, i)
      | Inr (False, seg) \<Rightarrow> previous_joined_loop st paths i seg)"

definition cwk_path_get_previous_segment_joined ::
  "cwk_path_style \<Rightarrow> cwk_segment_joined \<Rightarrow> (bool \<times> cwk_segment_joined) res" where
  "cwk_path_get_previous_segment_joined st sj =
     (if sj_paths sj = [] then Inr (False, sj)
      else
        (case cwk_path_get_previous_segment st (sj_segment sj) of
           (True, seg) \<Rightarrow> Inr (True, sj\<lparr>sj_segment := seg\<rparr>)
         | (False, seg) \<Rightarrow>
             rbind (previous_joined_loop st (sj_paths sj) (sj_path_index sj) seg) (\<lambda>(r, seg, i).
             Inr (r, sj\<lparr>sj_segment := seg, sj_path_index := i\<rparr>))))"

section \<open>Which segments are dropped\<close>

lemma next_joined_loop_index: "next_joined_loop st paths i seg = (True, seg', i') \<Longrightarrow> i \<le> i' \<and> i' < length paths"
proof (induction st paths i seg rule: next_joined_loop.induct)
  case (1 st paths i seg)
  then show ?case
    by (subst (asm) next_joined_loop.simps) (fastforce split: if_splits prod.splits bool.splits)
qed

lemma next_joined_forward:
  assumes "cwk_path_get_next_segment_joined st sj = Inr (True, sj')"
  shows "sj_paths sj' = sj_paths sj"
    "sj_path_index sj < sj_path_index sj' \<and> sj_path_index sj' < length (sj_paths sj) \<or>
     sj_path_index sj' = sj_path_index sj \<and>
     length (sg_path (sj_segment sj')) - sg_begin (sj_segment sj') < length (sg_path (sj_segment sj)) - sg_begin (sj_segment sj)"
  using assms next_segment_measure
  by (auto simp: cwk_path_get_next_segment_joined_def split: if_splits sum.splits prod.splits bool.splits
      dest!: next_joined_loop_index)

abbreviation forward_measure :: "((cwk_path_style \<times> cwk_segment_joined) \<times> (cwk_path_style \<times> cwk_segment_joined)) set" where
  "forward_measure \<equiv> measures [\<lambda>(st, sj). length (sj_paths sj) - sj_path_index sj,
     \<lambda>(st, sj). length (sg_path (sj_segment sj)) - sg_begin (sj_segment sj)]"

lemma forward_measure:
  "cwk_path_get_next_segment_joined st sj = Inr (True, sj') \<Longrightarrow> ((st, sj'), (st, sj)) \<in> forward_measure"
  using next_joined_forward [of st sj sj'] by auto

lemma previous_stop_le: "previous_stop_loop st p b c \<le> c"
proof (induction st p b c rule: previous_stop_loop.induct)
  case (1 st p b c)
  then show ?case by (subst previous_stop_loop.simps) auto
qed

lemma back_over_some: "back_over_separators st p b c = Some d \<Longrightarrow> d < c \<and> \<not> cwk_path_is_separator st p d"
  by (induction c) (auto split: if_splits)

lemma previous_segment_back:
  assumes "cwk_path_get_previous_segment st seg = (True, seg')"
  shows "sg_begin seg' < sg_begin seg" "sg_path seg' = sg_path seg"
proof -
  obtain c where c: "back_over_separators st (sg_path seg) (sg_segments seg) (sg_begin seg) = Some c"
      "sg_begin seg' = cwk_path_find_previous_stop st (sg_path seg) (sg_segments seg) c"
    and p: "sg_path seg' = sg_path seg"
    using assms by (auto simp: cwk_path_get_previous_segment_def Let_def split: if_splits option.splits)
  let ?d = "previous_stop_loop st (sg_path seg) (sg_segments seg) c"
  have "?d = c \<or> ?d < c" using previous_stop_le [of st "sg_path seg" "sg_segments seg" c] by auto
  then show "sg_begin seg' < sg_begin seg" "sg_path seg' = sg_path seg"
    using back_over_some [OF c(1)] c(2) p by (auto simp: cwk_path_find_previous_stop_def Let_def)
qed

lemma previous_joined_loop_index: "previous_joined_loop st paths i seg = Inr (True, seg', i') \<Longrightarrow> i' < i"
  by (induction i arbitrary: seg) (auto split: sum.splits prod.splits bool.splits if_splits intro: less_SucI)

abbreviation backward_measure :: "((cwk_path_style \<times> cwk_segment_joined \<times> int) \<times> (cwk_path_style \<times> cwk_segment_joined \<times> int)) set" where
  "backward_measure \<equiv> measures [\<lambda>(st, sj, _). sj_path_index sj, \<lambda>(st, sj, _). sg_begin (sj_segment sj)]"

lemma backward_measure:
  "cwk_path_get_previous_segment_joined st sj = Inr (True, sj') \<Longrightarrow> ((st, sj', k), (st, sj, n)) \<in> backward_measure"
  using previous_segment_back previous_joined_loop_index
  by (fastforce simp: cwk_path_get_previous_segment_joined_def rbind_Inr_iff split: if_splits prod.splits bool.splits)

text \<open>The two loops that decide by counting segments and back segments; the counter is a C \<open>int\<close> that stays small.\<close>

function back_removed_loop :: "cwk_path_style \<Rightarrow> cwk_segment_joined \<Rightarrow> int \<Rightarrow> bool res" where
  "back_removed_loop st sj counter =
     (case cwk_path_get_previous_segment_joined st sj of
        Inl e \<Rightarrow> Inl e
      | Inr (False, _) \<Rightarrow> Inr False
      | Inr (True, sj) \<Rightarrow>
          (case cwk_path_get_segment_type (sj_segment sj) of
             CWK_NORMAL \<Rightarrow> if counter + 1 > 0 then Inr True else back_removed_loop st sj (counter + 1)
           | CWK_BACK \<Rightarrow> back_removed_loop st sj (counter - 1)
           | CWK_CURRENT \<Rightarrow> back_removed_loop st sj counter))"
  by pat_completeness auto
termination
  by (relation backward_measure) (use backward_measure in \<open>auto simp del: in_measures\<close>)

declare back_removed_loop.simps [simp del]

definition cwk_path_segment_back_will_be_removed :: "cwk_path_style \<Rightarrow> cwk_segment_joined \<Rightarrow> bool res" where
  "cwk_path_segment_back_will_be_removed st sj = back_removed_loop st sj 0"

function normal_removed_loop :: "cwk_path_style \<Rightarrow> cwk_segment_joined \<Rightarrow> int \<Rightarrow> bool res" where
  "normal_removed_loop st sj counter =
     (case cwk_path_get_next_segment_joined st sj of
        Inl e \<Rightarrow> Inl e
      | Inr (False, _) \<Rightarrow> Inr False
      | Inr (True, sj) \<Rightarrow>
          (case cwk_path_get_segment_type (sj_segment sj) of
             CWK_NORMAL \<Rightarrow> normal_removed_loop st sj (counter + 1)
           | CWK_BACK \<Rightarrow> if counter - 1 < 0 then Inr True else normal_removed_loop st sj (counter - 1)
           | CWK_CURRENT \<Rightarrow> normal_removed_loop st sj counter))"
  by pat_completeness auto
termination
  by (relation "inv_image forward_measure (\<lambda>(st, sj, n). (st, sj))") (use forward_measure in \<open>auto simp del: in_measures\<close>)

declare normal_removed_loop.simps [simp del]

definition cwk_path_segment_normal_will_be_removed :: "cwk_path_style \<Rightarrow> cwk_segment_joined \<Rightarrow> bool res" where
  "cwk_path_segment_normal_will_be_removed st sj = normal_removed_loop st sj 0"

definition cwk_path_segment_will_be_removed :: "cwk_path_style \<Rightarrow> cwk_segment_joined \<Rightarrow> bool \<Rightarrow> bool res" where
  "cwk_path_segment_will_be_removed st sj absolute =
     (let typ = cwk_path_get_segment_type (sj_segment sj) in
      if typ = CWK_CURRENT \<or> (typ = CWK_BACK \<and> absolute) then Inr True
      else if typ = CWK_BACK then cwk_path_segment_back_will_be_removed st sj
      else cwk_path_segment_normal_will_be_removed st sj)"

function cwk_path_segment_joined_skip_invisible ::
  "cwk_path_style \<Rightarrow> cwk_segment_joined \<Rightarrow> bool \<Rightarrow> (bool \<times> cwk_segment_joined) res" where
  "cwk_path_segment_joined_skip_invisible st sj absolute =
     (case cwk_path_segment_will_be_removed st sj absolute of
        Inl e \<Rightarrow> Inl e
      | Inr False \<Rightarrow> Inr (True, sj)
      | Inr True \<Rightarrow>
          (case cwk_path_get_next_segment_joined st sj of
             Inl e \<Rightarrow> Inl e
           | Inr (False, sj) \<Rightarrow> Inr (False, sj)
           | Inr (True, sj) \<Rightarrow> cwk_path_segment_joined_skip_invisible st sj absolute))"
  by pat_completeness auto
termination
  by (relation "inv_image forward_measure (\<lambda>(st, sj, n). (st, sj))") (use forward_measure in \<open>auto simp del: in_measures\<close>)

declare cwk_path_segment_joined_skip_invisible.simps [simp del]

section \<open>Joining and normalising\<close>

text \<open>
  A segment structure nobody has written to. The first of the paths initialises it before it is read.
\<close>

definition no_segment :: cwk_segment where
  "no_segment = \<lparr>sg_path = '''', sg_segments = 0, sg_begin = 0, sg_end = 0, sg_size = 0\<rparr>"

text \<open>\<open>output_sized(buffer, pos, segment.begin, segment.size)\<close>.\<close>

definition output_segment :: "string \<Rightarrow> nat \<Rightarrow> cwk_segment \<Rightarrow> nat \<times> string" where
  "output_segment buffer pos seg = cwk_path_output_sized buffer pos (drop (sg_begin seg) (sg_path seg)) (sg_size seg)"

text \<open>The loop over the segments: the position, whether a segment has been written, and the buffer.\<close>

function normalize_loop ::
  "cwk_path_style \<Rightarrow> cwk_segment_joined \<Rightarrow> bool \<Rightarrow> nat \<times> bool \<times> string \<Rightarrow> (nat \<times> bool \<times> string) res" where
  "normalize_loop st sj absolute out =
     (case cwk_path_segment_will_be_removed st sj absolute of
        Inl e \<Rightarrow> Inl e
      | Inr removed \<Rightarrow>
          (let out =
             (if removed then out
              else
                (let (pos, has_segment_output, buffer) = out;
                     (n, buffer) = (if has_segment_output then cwk_path_output_separator st buffer pos else (0, buffer));
                     pos = pos + n;
                     (n, buffer) = output_segment buffer pos (sj_segment sj)
                 in (pos + n, True, buffer)))
           in
           case cwk_path_get_next_segment_joined st sj of
             Inl e \<Rightarrow> Inl e
           | Inr (False, _) \<Rightarrow> Inr out
           | Inr (True, sj) \<Rightarrow> normalize_loop st sj absolute out))"
  by pat_completeness auto
termination
  by (relation "inv_image forward_measure (\<lambda>(st, sj, n). (st, sj))") (use forward_measure in \<open>auto simp del: in_measures\<close>)

declare normalize_loop.simps [simp del]

definition cwk_path_join_and_normalize_multiple :: "cwk_path_style \<Rightarrow> string list \<Rightarrow> string \<Rightarrow> (nat \<times> string) res" where
  "cwk_path_join_and_normalize_multiple st paths buffer =
     (case paths of
        [] \<Rightarrow> Inl NullDeref
      | first # _ \<Rightarrow>
          (let pos = cwk_path_get_root st first;
               absolute = cwk_path_is_root_absolute st first pos;
               buffer = snd (cwk_path_output_sized buffer 0 first pos);
               buffer = cwk_path_fix_root st buffer pos in
           case cwk_path_get_first_segment_joined st paths no_segment of
             (False, _) \<Rightarrow> Inr (pos, cwk_path_terminate_output buffer pos)
           | (True, sj) \<Rightarrow>
               rbind (normalize_loop st sj absolute (pos, False, buffer)) (\<lambda>(pos, has_segment_output, buffer).
               if \<not> has_segment_output \<and> pos = 0 then
                 rbind (rassert (absolute = False)) (\<lambda>_.
                 let (n, buffer) = cwk_path_output_current buffer pos; pos = pos + n in
                 Inr (pos, cwk_path_terminate_output buffer pos))
               else Inr (pos, cwk_path_terminate_output buffer pos))))"

definition cwk_path_get_absolute :: "cwk_path_style \<Rightarrow> string \<Rightarrow> string \<Rightarrow> string \<Rightarrow> (nat \<times> string) res" where
  "cwk_path_get_absolute st base path buffer =
     (let paths = (if cwk_path_is_absolute st base then []
                   else if st = CWK_STYLE_WINDOWS then [[CHR 0x5C]]
                   else [[CHR 0x2F]]);
          paths = (if cwk_path_is_absolute st path then paths @ [path] else paths @ [base, path])
      in cwk_path_join_and_normalize_multiple st paths buffer)"

definition cwk_path_join :: "cwk_path_style \<Rightarrow> string \<Rightarrow> string \<Rightarrow> string \<Rightarrow> (nat \<times> string) res" where
  "cwk_path_join st path_a path_b buffer = cwk_path_join_and_normalize_multiple st [path_a, path_b] buffer"

definition cwk_path_join_multiple :: "cwk_path_style \<Rightarrow> string list \<Rightarrow> string \<Rightarrow> (nat \<times> string) res" where
  "cwk_path_join_multiple st paths buffer = cwk_path_join_and_normalize_multiple st paths buffer"

definition cwk_path_normalize :: "cwk_path_style \<Rightarrow> string \<Rightarrow> string \<Rightarrow> (nat \<times> string) res" where
  "cwk_path_normalize st path buffer = cwk_path_join_and_normalize_multiple st [path] buffer"

section \<open>Relative paths and intersections\<close>

lemma forward_trans: "(a, b) \<in> forward_measure \<Longrightarrow> (b, c) \<in> forward_measure \<Longrightarrow> (a, c) \<in> forward_measure"
  by (cases a; cases b; cases c) auto

lemma skip_invisible_forward:
  "cwk_path_segment_joined_skip_invisible st sj a = Inr (True, sj') \<Longrightarrow> sj' = sj \<or> ((st, sj'), (st, sj)) \<in> forward_measure"
proof (induction st sj a rule: cwk_path_segment_joined_skip_invisible.induct)
  case (1 st sj a)
  show ?case
  proof (cases "cwk_path_segment_will_be_removed st sj a = Inr True")
    case False
    then show ?thesis using 1(2)
      by (subst (asm) cwk_path_segment_joined_skip_invisible.simps) (auto split: sum.splits bool.splits)
  next
    case True
    then obtain sj1 where n: "cwk_path_get_next_segment_joined st sj = Inr (True, sj1)"
      "cwk_path_segment_joined_skip_invisible st sj1 a = Inr (True, sj')"
      using 1(2) by (subst (asm) cwk_path_segment_joined_skip_invisible.simps) (auto split: sum.splits bool.splits prod.splits)
    have "sj' = sj1 \<or> ((st, sj'), (st, sj1)) \<in> forward_measure"
      by (rule 1(1) [OF True refl n(1) refl refl n(2)])
    then show ?thesis using forward_measure [OF n(1)] forward_trans by blast
  qed
qed

lemma skip_then_next:
  assumes "cwk_path_segment_joined_skip_invisible st sj a = Inr (True, sj')"
    "cwk_path_get_next_segment_joined st sj' = Inr (True, sj2)"
  shows "((st, sj2), (st, sj)) \<in> forward_measure"
  using skip_invisible_forward [OF assms(1)] forward_measure [OF assms(2)] forward_trans by blast

text \<open>The segment's characters, from where the segment begins.\<close>

definition segment_str :: "cwk_segment \<Rightarrow> string" where
  "segment_str seg = drop (sg_begin seg) (sg_path seg)"

definition segments_equal :: "cwk_path_style \<Rightarrow> cwk_segment_joined \<Rightarrow> cwk_segment_joined \<Rightarrow> bool" where
  "segments_equal st a b =
     cwk_path_is_string_equal st (segment_str (sj_segment a)) (segment_str (sj_segment b))
       (sg_size (sj_segment a)) (sg_size (sj_segment b))"

function cwk_path_skip_segments_until_diverge ::
  "cwk_path_style \<Rightarrow> cwk_segment_joined \<Rightarrow> cwk_segment_joined \<Rightarrow> bool \<Rightarrow>
   (bool \<times> bool \<times> cwk_segment_joined \<times> cwk_segment_joined) res" where
  "cwk_path_skip_segments_until_diverge st bsj osj absolute =
     (case cwk_path_segment_joined_skip_invisible st bsj absolute of
        Inl e \<Rightarrow> Inl e
      | Inr (base_available, bsj) \<Rightarrow>
          (case cwk_path_segment_joined_skip_invisible st osj absolute of
             Inl e \<Rightarrow> Inl e
           | Inr (other_available, osj) \<Rightarrow>
               (if \<not> base_available \<or> \<not> other_available then Inr (base_available, other_available, bsj, osj)
                else if \<not> segments_equal st bsj osj then Inr (base_available, other_available, bsj, osj)
                else
                  (case cwk_path_get_next_segment_joined st bsj of
                     Inl e \<Rightarrow> Inl e
                   | Inr (base_available, bsj) \<Rightarrow>
                       (case cwk_path_get_next_segment_joined st osj of
                          Inl e \<Rightarrow> Inl e
                        | Inr (other_available, osj) \<Rightarrow>
                            (if base_available \<and> other_available
                             then cwk_path_skip_segments_until_diverge st bsj osj absolute
                             else Inr (base_available, other_available, bsj, osj)))))))"
  by pat_completeness auto
termination
  by (relation "inv_image forward_measure (\<lambda>(st, bsj, n). (st, bsj))") (use skip_then_next in \<open>auto simp del: in_measures\<close>)

declare cwk_path_skip_segments_until_diverge.simps [simp del]

text \<open>The loop that writes a back segment for each segment left, and the one that writes the segments.\<close>

function back_output_loop ::
  "cwk_path_style \<Rightarrow> cwk_segment_joined \<Rightarrow> bool \<Rightarrow> nat \<times> bool \<times> string \<Rightarrow> (nat \<times> bool \<times> string) res" where
  "back_output_loop st bsj absolute out =
     (case cwk_path_segment_joined_skip_invisible st bsj absolute of
        Inl e \<Rightarrow> Inl e
      | Inr (False, _) \<Rightarrow> Inr out
      | Inr (True, bsj) \<Rightarrow>
          (let (pos, has_output, buffer) = out;
               (n, buffer) = cwk_path_output_back buffer pos;
               pos = pos + n;
               (n, buffer) = cwk_path_output_separator st buffer pos;
               out = (pos + n, True, buffer) in
           case cwk_path_get_next_segment_joined st bsj of
             Inl e \<Rightarrow> Inl e
           | Inr (False, _) \<Rightarrow> Inr out
           | Inr (True, bsj) \<Rightarrow> back_output_loop st bsj absolute out))"
  by pat_completeness auto
termination
  by (relation "inv_image forward_measure (\<lambda>(st, bsj, n). (st, bsj))") (use skip_then_next in \<open>auto simp del: in_measures\<close>)

declare back_output_loop.simps [simp del]

function other_output_loop ::
  "cwk_path_style \<Rightarrow> cwk_segment_joined \<Rightarrow> bool \<Rightarrow> nat \<times> bool \<times> string \<Rightarrow> (nat \<times> bool \<times> string) res" where
  "other_output_loop st osj absolute out =
     (case cwk_path_segment_joined_skip_invisible st osj absolute of
        Inl e \<Rightarrow> Inl e
      | Inr (False, _) \<Rightarrow> Inr out
      | Inr (True, osj) \<Rightarrow>
          (let (pos, has_output, buffer) = out;
               (n, buffer) = output_segment buffer pos (sj_segment osj);
               pos = pos + n;
               (n, buffer) = cwk_path_output_separator st buffer pos;
               out = (pos + n, True, buffer) in
           case cwk_path_get_next_segment_joined st osj of
             Inl e \<Rightarrow> Inl e
           | Inr (False, _) \<Rightarrow> Inr out
           | Inr (True, osj) \<Rightarrow> other_output_loop st osj absolute out))"
  by pat_completeness auto
termination
  by (relation "inv_image forward_measure (\<lambda>(st, osj, n). (st, osj))") (use skip_then_next in \<open>auto simp del: in_measures\<close>)

declare other_output_loop.simps [simp del]

definition cwk_path_get_relative :: "cwk_path_style \<Rightarrow> string \<Rightarrow> string \<Rightarrow> string \<Rightarrow> (nat \<times> string) res" where
  "cwk_path_get_relative st base_directory path buffer =
     (let base_root_length = cwk_path_get_root st base_directory;
          path_root_length = cwk_path_get_root st path in
      if base_root_length \<noteq> path_root_length \<or>
         \<not> cwk_path_is_string_equal st base_directory path base_root_length path_root_length
      then Inr (0, cwk_path_terminate_output buffer 0)
      else
        (let absolute = cwk_path_is_root_absolute st base_directory base_root_length;
             bsj = snd (cwk_path_get_first_segment_joined st [base_directory] no_segment);
             osj = snd (cwk_path_get_first_segment_joined st [path] no_segment) in
         rbind (cwk_path_skip_segments_until_diverge st bsj osj absolute) (\<lambda>(base_available, other_available, bsj, osj).
         rbind (if base_available then back_output_loop st bsj absolute (0, False, buffer) else Inr (0, False, buffer)) (\<lambda>out.
         rbind (if other_available then other_output_loop st osj absolute out else Inr out) (\<lambda>(pos, has_output, buffer).
         let (pos, buffer) =
           (if has_output then (pos - 1, buffer)
            else (let (n, buffer) = cwk_path_output_current buffer pos in (pos + n, buffer)))
         in Inr (pos, cwk_path_terminate_output buffer pos))))))"

text \<open>The loop of \<open>cwk_path_get_intersection\<close>; e is the end of the last segment both paths have.\<close>

function intersection_loop ::
  "cwk_path_style \<Rightarrow> cwk_segment_joined \<Rightarrow> cwk_segment_joined \<Rightarrow> bool \<Rightarrow> nat \<Rightarrow> nat res" where
  "intersection_loop st base other absolute e =
     (case cwk_path_segment_joined_skip_invisible st base absolute of
        Inl f \<Rightarrow> Inl f
      | Inr (False, _) \<Rightarrow> Inr e
      | Inr (True, base) \<Rightarrow>
          (case cwk_path_segment_joined_skip_invisible st other absolute of
             Inl f \<Rightarrow> Inl f
           | Inr (False, _) \<Rightarrow> Inr e
           | Inr (True, other) \<Rightarrow>
               (if \<not> segments_equal st base other then Inr e
                else
                  (let e = sg_end (sj_segment base) in
                   case cwk_path_get_next_segment_joined st base of
                     Inl f \<Rightarrow> Inl f
                   | Inr (False, _) \<Rightarrow> Inr e
                   | Inr (True, base) \<Rightarrow>
                       (case cwk_path_get_next_segment_joined st other of
                          Inl f \<Rightarrow> Inl f
                        | Inr (False, _) \<Rightarrow> Inr e
                        | Inr (True, other) \<Rightarrow> intersection_loop st base other absolute e)))))"
  by pat_completeness auto
termination
  by (relation "inv_image forward_measure (\<lambda>(st, base, n). (st, base))") (use skip_then_next in \<open>auto simp del: in_measures\<close>)

declare intersection_loop.simps [simp del]

definition cwk_path_get_intersection :: "cwk_path_style \<Rightarrow> string \<Rightarrow> string \<Rightarrow> nat res" where
  "cwk_path_get_intersection st path_base path_other =
     (let base_root_length = cwk_path_get_root st path_base;
          other_root_length = cwk_path_get_root st path_other in
      if \<not> cwk_path_is_string_equal st path_base path_other base_root_length other_root_length then Inr 0
      else
        (case cwk_path_get_first_segment_joined st [path_base] no_segment of
           (False, _) \<Rightarrow> Inr base_root_length
         | (True, base) \<Rightarrow>
             (case cwk_path_get_first_segment_joined st [path_other] no_segment of
                (False, _) \<Rightarrow> Inr base_root_length
              | (True, other) \<Rightarrow>
                  intersection_loop st base other (cwk_path_is_root_absolute st path_base base_root_length) base_root_length)))"

section \<open>Changing parts of a path\<close>

definition cwk_path_change_root :: "cwk_path_style \<Rightarrow> string \<Rightarrow> string \<Rightarrow> string \<Rightarrow> nat \<times> string" where
  "cwk_path_change_root st path new_root buffer =
     (let root_length = cwk_path_get_root st path;
          new_root_length = length new_root;
          path_length = length path;
          tail = drop root_length path;
          tail_length = path_length - root_length;
          buffer = snd (cwk_path_output_sized buffer new_root_length tail tail_length);
          buffer = snd (cwk_path_output_sized buffer 0 new_root new_root_length);
          new_path_size = tail_length + new_root_length
      in (new_path_size, cwk_path_terminate_output buffer new_path_size))"

text \<open>The basename as index and length, None for NULL.\<close>

definition cwk_path_get_basename :: "cwk_path_style \<Rightarrow> string \<Rightarrow> (nat option \<times> nat) res" where
  "cwk_path_get_basename st path =
     rbind (cwk_path_get_last_segment st path) (\<lambda>(r, segment).
     if \<not> r then Inr (None, 0) else Inr (Some (sg_begin segment), sg_size segment))"

text \<open>The loops that measure a value without the separators at its end.\<close>

fun trim_separators :: "cwk_path_style \<Rightarrow> string \<Rightarrow> nat \<Rightarrow> nat" where
  "trim_separators st v 0 = 0"
| "trim_separators st v (Suc n) = (if cwk_path_is_separator st v n then trim_separators st v n else Suc n)"

definition cwk_path_change_segment :: "cwk_path_style \<Rightarrow> cwk_segment \<Rightarrow> string \<Rightarrow> string \<Rightarrow> nat \<times> string" where
  "cwk_path_change_segment st segment v buffer =
     (let (pos, buffer) = cwk_path_output_sized buffer 0 (sg_path segment) (sg_begin segment);
          v = drop (skip_separators st v 0) v;
          value_size = trim_separators st v (length v);
          tail = drop (sg_end segment) (sg_path segment);
          tail_size = length tail;
          buffer = snd (cwk_path_output_sized buffer (pos + value_size) tail tail_size);
          (n, buffer) = cwk_path_output_sized buffer pos v value_size;
          pos = pos + n + tail_size
      in (pos, cwk_path_terminate_output buffer pos))"

definition cwk_path_change_basename :: "cwk_path_style \<Rightarrow> string \<Rightarrow> string \<Rightarrow> string \<Rightarrow> (nat \<times> string) res" where
  "cwk_path_change_basename st path new_basename buffer =
     rbind (cwk_path_get_last_segment st path) (\<lambda>(r, segment).
     if \<not> r then
       (let root_size = cwk_path_get_root st path;
            (pos, buffer) = cwk_path_output_sized buffer 0 path root_size;
            new_basename = drop (skip_separators st new_basename 0) new_basename;
            new_basename_size = trim_separators st new_basename (length new_basename);
            (n, buffer) = cwk_path_output_sized buffer pos new_basename new_basename_size;
            pos = pos + n
        in Inr (pos, cwk_path_terminate_output buffer pos))
     else Inr (cwk_path_change_segment st segment new_basename buffer))"

definition cwk_path_get_dirname :: "cwk_path_style \<Rightarrow> string \<Rightarrow> nat res" where
  "cwk_path_get_dirname st path =
     rbind (cwk_path_get_last_segment st path) (\<lambda>(r, segment).
     if \<not> r then Inr 0 else Inr (sg_begin segment))"

text \<open>The search for a dot, down from the end of the segment.\<close>

fun last_dot_loop :: "string \<Rightarrow> nat \<Rightarrow> nat \<Rightarrow> nat option" where
  "last_dot_loop p b 0 = (if cwk_char p 0 = CHR 0x2E then Some 0 else None)"
| "last_dot_loop p b (Suc c) =
     (if cwk_char p (Suc c) = CHR 0x2E then Some (Suc c) else if c \<ge> b then last_dot_loop p b c else None)"

definition cwk_path_get_extension :: "cwk_path_style \<Rightarrow> string \<Rightarrow> (nat \<times> nat) option res" where
  "cwk_path_get_extension st path =
     rbind (cwk_path_get_last_segment st path) (\<lambda>(r, segment).
     if \<not> r then Inr None
     else
       Inr (case last_dot_loop path (sg_begin segment) (sg_end segment) of
              None \<Rightarrow> None
            | Some c \<Rightarrow> Some (c, sg_end segment - c)))"

definition cwk_path_has_extension :: "cwk_path_style \<Rightarrow> string \<Rightarrow> bool res" where
  "cwk_path_has_extension st path = rbind (cwk_path_get_extension st path) (\<lambda>r. Inr (r \<noteq> None))"

definition cwk_path_change_extension :: "cwk_path_style \<Rightarrow> string \<Rightarrow> string \<Rightarrow> string \<Rightarrow> (nat \<times> string) res" where
  "cwk_path_change_extension st path new_extension buffer =
     rbind (cwk_path_get_last_segment st path) (\<lambda>(r, segment).
     if \<not> r then
       (let root_size = cwk_path_get_root st path;
            (pos, buffer) = cwk_path_output_sized buffer 0 path root_size;
            (n, buffer) = (if cwk_char new_extension 0 \<noteq> CHR 0x2E then cwk_path_output_dot buffer pos else (0, buffer));
            pos = pos + n;
            (n, buffer) = cwk_path_output buffer pos new_extension;
            pos = pos + n
        in Inr (pos, cwk_path_terminate_output buffer pos))
     else
       (let old_extension =
              foldl (\<lambda>old c. if cwk_char path c = CHR 0x2E then c else old) (sg_end segment) [sg_begin segment ..< sg_end segment];
            (pos, buffer) = cwk_path_output_sized buffer 0 (sg_path segment) old_extension;
            new_extension = (if cwk_char new_extension 0 = CHR 0x2E then drop 1 new_extension else new_extension);
            new_extension_size = length new_extension + 1;
            (trail_size, buffer) = cwk_path_output buffer (pos + new_extension_size) (drop (sg_end segment) (sg_path segment));
            (n, buffer) = cwk_path_output_dot buffer pos;
            pos = pos + n;
            (n, buffer) = cwk_path_output buffer pos new_extension;
            pos = pos + n + trail_size
        in Inr (pos, cwk_path_terminate_output buffer pos)))"

section \<open>Style\<close>

text \<open>The first slash or backslash decides.\<close>

fun guess_by_slash :: "string \<Rightarrow> cwk_path_style option" where
  "guess_by_slash [] = None"
| "guess_by_slash (c # p) =
     (if c = CHR 0x2F then Some CWK_STYLE_UNIX else if c = CHR 0x5C then Some CWK_STYLE_WINDOWS else guess_by_slash p)"

definition cwk_path_guess_style :: "cwk_path_style \<Rightarrow> string \<Rightarrow> cwk_path_style res" where
  "cwk_path_guess_style st path =
     (if cwk_path_get_root_windows st path > 1 then Inr CWK_STYLE_WINDOWS
      else
        (case guess_by_slash path of
           Some s \<Rightarrow> Inr s
         | None \<Rightarrow>
             rbind (cwk_path_get_last_segment st path) (\<lambda>(r, segment).
             if \<not> r then Inr CWK_STYLE_UNIX
             else if cwk_char path (sg_begin segment) = CHR 0x2E then Inr CWK_STYLE_UNIX
             else if list_ex (\<lambda>c. c = CHR 0x2E) (segment_str segment) then Inr CWK_STYLE_WINDOWS
             else Inr CWK_STYLE_UNIX)))"

end
