(* ===== verification/Cwalk_Spec.thy ===== *)
theory Cwalk_Spec
  imports Cwalk
begin

text \<open>
  What joining and normalising a path means, for the style of the system (\<open>CWK_STYLE_UNIX\<close>, the default):
  the segments of all paths are put on a stack, \<open>..\<close> takes the last directory off it, and the result is
  the root and the stack. The code never builds such a stack: it decides for each segment, by scanning
  forwards or backwards over all paths, whether a later or earlier segment cancels it. The theory shows
  that both give the same path.
\<close>

section \<open>The reference\<close>

fun split_slash :: "string \<Rightarrow> string list" where
  "split_slash [] = [[]]"
| "split_slash (c # p) =
     (if c = CHR 0x2F then [] # split_slash p
      else (case split_slash p of [] \<Rightarrow> [[c]] | n # ns \<Rightarrow> (c # n) # ns))"

definition path_names :: "string \<Rightarrow> string list" where
  "path_names p = filter (\<lambda>n. n \<noteq> []) (split_slash p)"

text \<open>The stack holds the last name first.\<close>

fun resolve :: "bool \<Rightarrow> string list \<Rightarrow> string list \<Rightarrow> string list" where
  "resolve absolute stack [] = rev stack"
| "resolve absolute stack (n # ns) =
     (if n = ''.'' then resolve absolute stack ns
      else if n = ''..'' then
        (case stack of
           [] \<Rightarrow> resolve absolute (if absolute then [] else [''..'']) ns
         | t # s \<Rightarrow> if t = ''..'' then resolve absolute (''..'' # stack) ns else resolve absolute s ns)
      else resolve absolute (n # stack) ns)"

fun slash_join :: "string list \<Rightarrow> string" where
  "slash_join [] = []"
| "slash_join [n] = n"
| "slash_join (n # m # ns) = n @ CHR 0x2F # slash_join (m # ns)"

text \<open>A relative path whose segments all cancel is \<open>.\<close>, one without segments is empty.\<close>

definition normal_path :: "string list \<Rightarrow> string" where
  "normal_path paths =
     (let absolute = cwk_char (hd paths) 0 = CHR 0x2F;
          given = concat (map path_names paths);
          ns = resolve absolute [] given
      in if absolute then CHR 0x2F # slash_join ns else if given \<noteq> [] \<and> ns = [] then ''.'' else slash_join ns)"

text \<open>A buffer holds a string as far as it fits, with a terminating zero.\<close>

definition buffer_holds :: "string \<Rightarrow> string \<Rightarrow> bool" where
  "buffer_holds buffer str \<longleftrightarrow>
     (buffer \<noteq> [] \<longrightarrow>
       (let n = min (length str) (length buffer - 1) in take n buffer = take n str \<and> buffer ! n = NUL))"

section \<open>Cancelled segments\<close>

text \<open>The two scans of the code, on names.\<close>

fun fwd :: "string list \<Rightarrow> int \<Rightarrow> bool" where
  "fwd [] c = False"
| "fwd (n # ns) c =
     (if n = ''.'' then fwd ns c
      else if n = ''..'' then (if c - 1 < 0 then True else fwd ns (c - 1))
      else fwd ns (c + 1))"

fun bwd :: "string list \<Rightarrow> int \<Rightarrow> bool" where
  "bwd [] c = False"
| "bwd (n # ns) c =
     (if n = ''.'' then bwd ns c
      else if n = ''..'' then bwd ns (c - 1)
      else if c + 1 > 0 then True else bwd ns (c + 1))"

definition removed :: "bool \<Rightarrow> string list \<Rightarrow> string \<Rightarrow> string list \<Rightarrow> bool" where
  "removed absolute pre n ns \<longleftrightarrow>
     (if n = ''.'' \<or> n = ''..'' \<and> absolute then True else if n = ''..'' then bwd (rev pre) 0 else fwd ns 0)"

fun kept :: "bool \<Rightarrow> string list \<Rightarrow> string list \<Rightarrow> string list" where
  "kept absolute pre [] = []"
| "kept absolute pre (n # ns) = (if removed absolute pre n ns then [] else [n]) @ kept absolute (pre @ [n]) ns"

text \<open>How many directories a sequence of names takes off a stack, beyond its own, and how many it leaves.\<close>

fun pops :: "string list \<Rightarrow> nat \<Rightarrow> nat" where
  "pops [] d = 0"
| "pops (n # ns) d =
     (if n = ''.'' then pops ns d
      else if n = ''..'' then (if d = 0 then Suc (pops ns 0) else pops ns (d - 1))
      else pops ns (Suc d))"

definition step_depth :: "nat \<Rightarrow> string \<Rightarrow> nat" where
  "step_depth d n = (if n = ''.'' then d else if n = ''..'' then d - 1 else Suc d)"

definition depth :: "string list \<Rightarrow> nat" where
  "depth ns = foldl step_depth 0 ns"

lemma pops_Suc: "pops ns (Suc d) = pops ns d - 1"
  by (induction ns d rule: pops.induct) auto

lemma fwd_pops: "fwd ns (int d) \<longleftrightarrow> 0 < pops ns d"
proof (induction ns arbitrary: d)
  case (Cons n ns)
  have "fwd ns (int d - 1) \<longleftrightarrow> 0 < pops ns (d - 1)" if "d \<noteq> 0"
    using Cons.IH [of "d - 1"] that by (simp add: of_nat_diff)
  moreover have "fwd ns (int d + 1) \<longleftrightarrow> 0 < pops ns (Suc d)" using Cons.IH [of "Suc d"] by (simp add: add.commute)
  ultimately show ?case using Cons.IH [of d] by auto
qed simp

lemma bwd_depth: "c \<le> 0 \<Longrightarrow> bwd (rev pre) c \<longleftrightarrow> int (depth pre) + c > 0"
proof (induction pre arbitrary: c rule: rev_induct)
  case (snoc n pre)
  show ?case
    using snoc.IH [of c] snoc.IH [of "c - 1"] snoc.IH [of "c + 1"] snoc.prems
    by (auto simp: depth_def step_depth_def)
qed (simp add: depth_def)

text \<open>The segments that are kept, by the depth of the stack before them.\<close>

fun keep :: "bool \<Rightarrow> nat \<Rightarrow> string list \<Rightarrow> string list" where
  "keep absolute d [] = []"
| "keep absolute d (n # ns) =
     (if n = ''.'' \<or> n = ''..'' \<and> (absolute \<or> 0 < d) \<or> n \<noteq> ''..'' \<and> 0 < pops ns 0 then [] else [n]) @
     keep absolute (step_depth d n) ns"

lemma kept_keep: "kept absolute pre ns = keep absolute (depth pre) ns"
proof (induction ns arbitrary: pre)
  case (Cons n ns)
  have "depth (pre @ [n]) = step_depth (depth pre) n" by (simp add: depth_def)
  then show ?case using Cons bwd_depth [of 0 pre] fwd_pops [of ns 0] by (simp add: removed_def)
qed simp

lemma resolve_keep:
  assumes "\<forall>n \<in> set N. n \<noteq> ''..''" "\<forall>n \<in> set B. n = ''..''" "absolute \<longrightarrow> B = []"
  shows "resolve absolute (N @ B) ns = rev B @ rev (drop (pops ns 0) N) @ keep absolute (length N) ns"
  using assms
proof (induction ns arbitrary: N B)
  case (Cons n ns)
  consider "n = ''.''" | "n = ''..''" "N = []" | t N' where "n = ''..''" "N = t # N'" | "n \<noteq> ''.''" "n \<noteq> ''..''"
    by (cases N) auto
  then show ?case
  proof cases
    case 1
    then show ?thesis using Cons by (simp add: step_depth_def)
  next
    case 2
    show ?thesis
    proof (cases absolute)
      case True
      then show ?thesis using 2 Cons.IH [of "[]" "[]"] Cons.prems by (simp add: step_depth_def)
    next
      case False
      have "resolve absolute B (n # ns) = resolve absolute (''..'' # B) ns"
        using 2 False Cons.prems(2) by (cases B) auto
      then show ?thesis using 2 False Cons.IH [of "[]" "''..'' # B"] Cons.prems by (simp add: step_depth_def)
    qed
  next
    case 3
    then show ?thesis using Cons.IH [of N' B] Cons.prems by (simp add: step_depth_def)
  next
    case 4
    have IH: "resolve absolute ((n # N) @ B) ns = rev B @ rev (drop (pops ns 0) (n # N)) @ keep absolute (length (n # N)) ns"
      using 4 Cons.prems by (intro Cons.IH) auto
    show ?thesis using 4 IH by (cases "pops ns 0") (auto simp: step_depth_def pops_Suc)
  qed
qed simp

lemma kept_resolve: "kept absolute [] ns = resolve absolute [] ns"
  using resolve_keep [of "[]" "[]" absolute ns] by (simp add: kept_keep depth_def)

section \<open>The segments of one path\<close>

abbreviation sep :: "string \<Rightarrow> nat \<Rightarrow> bool" where
  "sep \<equiv> cwk_path_is_separator CWK_STYLE_UNIX"

abbreviation stop :: "string \<Rightarrow> nat \<Rightarrow> bool" where
  "stop p i \<equiv> cwk_char p i = NUL \<or> sep p i"

lemma sep_iff: "sep p i \<longleftrightarrow> cwk_char p i = CHR 0x2F"
  by (auto simp: cwk_path_is_separator_def separators_def)

lemma skip_stop: "\<not> sep p (skip_separators CWK_STYLE_UNIX p c)"
proof (induction "CWK_STYLE_UNIX" p c rule: skip_separators.induct)
  case (1 p c)
  then show ?case by (subst skip_separators.simps) auto
qed

lemma skip_seps: "c \<le> i \<Longrightarrow> i < skip_separators CWK_STYLE_UNIX p c \<Longrightarrow> sep p i"
proof (induction "CWK_STYLE_UNIX" p c rule: skip_separators.induct)
  case (1 p c)
  show ?case
  proof (cases "sep p c")
    case True
    then show ?thesis using 1 by (cases "i = c") (auto simp: skip_separators.simps [of _ p c])
  qed (use 1 in \<open>auto simp: skip_separators.simps [of _ p c]\<close>)
qed

lemma skip_idem: "sep p c \<Longrightarrow> skip_separators CWK_STYLE_UNIX p (Suc c) = skip_separators CWK_STYLE_UNIX p c"
  by (simp add: skip_separators.simps [of _ p c])

lemma skip_none: "\<not> sep p c \<Longrightarrow> skip_separators CWK_STYLE_UNIX p c = c"
  by (simp add: skip_separators.simps [of _ p c])

lemma next_stop_stop: "stop p (cwk_path_find_next_stop CWK_STYLE_UNIX p c)"
proof (induction "CWK_STYLE_UNIX" p c rule: cwk_path_find_next_stop.induct)
  case (1 p c)
  then show ?case by (subst cwk_path_find_next_stop.simps, subst cwk_path_find_next_stop.simps) auto
qed

lemma next_stop_ge: "c \<le> cwk_path_find_next_stop CWK_STYLE_UNIX p c"
proof (induction "CWK_STYLE_UNIX" p c rule: cwk_path_find_next_stop.induct)
  case (1 p c)
  then show ?case by (subst cwk_path_find_next_stop.simps) auto
qed

lemma next_stop_gt: "\<not> stop p c \<Longrightarrow> c < cwk_path_find_next_stop CWK_STYLE_UNIX p c"
  using next_stop_ge [of "Suc c" p] by (simp add: cwk_path_find_next_stop.simps [of _ p c])

lemma next_stop_inner: "c \<le> i \<Longrightarrow> i < cwk_path_find_next_stop CWK_STYLE_UNIX p c \<Longrightarrow> \<not> stop p i"
proof (induction "CWK_STYLE_UNIX" p c rule: cwk_path_find_next_stop.induct)
  case (1 p c)
  show ?case
  proof (cases "stop p c")
    case False
    then show ?thesis using 1 by (cases "i = c") (auto simp: cwk_path_find_next_stop.simps [of _ p c])
  qed (use 1 in \<open>auto simp: cwk_path_find_next_stop.simps [of _ p c]\<close>)
qed

text \<open>All segments from position c on, each as its beginning and end.\<close>

function segs :: "string \<Rightarrow> nat \<Rightarrow> (nat \<times> nat) list" where
  "segs p c =
     (let b = skip_separators CWK_STYLE_UNIX p c in
      if cwk_char p b = NUL then []
      else (b, cwk_path_find_next_stop CWK_STYLE_UNIX p b) # segs p (cwk_path_find_next_stop CWK_STYLE_UNIX p b))"
  by pat_completeness auto
termination
proof (relation "measure (\<lambda>(p, c). length p - c)", goal_cases)
  case (2 p c x)
  have "c \<le> x" "x < length p" using 2 skip_separators_ge char_in_path by simp_all
  moreover have "x < cwk_path_find_next_stop CWK_STYLE_UNIX p x" using next_stop_gt skip_stop 2 by simp
  ultimately show ?case by simp
qed simp

declare segs.simps [simp del]

lemma segs_sep: "sep p c \<Longrightarrow> segs p (Suc c) = segs p c"
  by (simp add: segs.simps [of p c] segs.simps [of p "Suc c"] skip_idem)

lemma segs_NUL:
  assumes "cwk_char p c = NUL"
  shows "segs p c = []"
proof -
  have "\<not> sep p c" using assms not_separator_NUL by blast
  then show ?thesis using assms by (subst segs.simps) (simp add: skip_none)
qed

lemma segs_Cons:
  assumes "segs p c = (b, e) # vs"
  shows "vs = segs p e" "c \<le> b" "b < e" "\<forall>i. c \<le> i \<and> i < b \<longrightarrow> sep p i" "\<forall>i. b \<le> i \<and> i < e \<longrightarrow> \<not> stop p i" "stop p e"
proof -
  have b: "b = skip_separators CWK_STYLE_UNIX p c" "cwk_char p b \<noteq> NUL" "e = cwk_path_find_next_stop CWK_STYLE_UNIX p b"
    "vs = segs p e"
    using assms by (subst (asm) segs.simps, auto simp: Let_def split: if_splits)+
  then show "vs = segs p e" "c \<le> b" using skip_separators_ge by simp_all
  have "\<not> stop p b" using b skip_stop by simp
  then show "b < e" "\<forall>i. c \<le> i \<and> i < b \<longrightarrow> sep p i" "\<forall>i. b \<le> i \<and> i < e \<longrightarrow> \<not> stop p i" "stop p e"
    using next_stop_gt b next_stop_inner next_stop_stop skip_seps by blast+
qed

lemma segs_split: "segs p c = us @ (b, e) # vs \<Longrightarrow> vs = segs p e"
proof (induction us arbitrary: c)
  case Nil
  then show ?case using segs_Cons(1) by simp
next
  case (Cons u us)
  then show ?case using segs_Cons(1) [of p c "fst u" "snd u"] by (cases u) auto
qed

lemma segs_mem:
  assumes "(b, e) \<in> set (segs p c)"
  shows "b < e \<and> c \<le> b \<and> (\<forall>i. b \<le> i \<and> i < e \<longrightarrow> \<not> stop p i) \<and> stop p e \<and> (b = c \<or> 0 < b \<and> sep p (b - 1))"
  using assms
proof (induction p c rule: segs.induct)
  case (1 p c)
  obtain b1 e1 vs where s: "segs p c = (b1, e1) # vs" using 1(2) by (cases "segs p c") auto
  note h = segs_Cons [OF s]
  show ?case
  proof (cases "(b, e) = (b1, e1)")
    case True
    then show ?thesis using h by (auto intro!: h(4) [rule_format])
  next
    case False
    have x: "b1 = skip_separators CWK_STYLE_UNIX p c" "cwk_char p b1 \<noteq> NUL" "e1 = cwk_path_find_next_stop CWK_STYLE_UNIX p b1"
      using s by (subst (asm) segs.simps, auto simp: Let_def split: if_splits)+
    have "(b, e) \<in> set (segs p e1)" using False 1(2) s h(1) by auto
    then have IH: "b < e \<and> e1 \<le> b \<and> (\<forall>i. b \<le> i \<and> i < e \<longrightarrow> \<not> stop p i) \<and> stop p e \<and> (b = e1 \<or> 0 < b \<and> sep p (b - 1))"
      using 1(1) [OF x(1)] x by simp
    then have "b \<noteq> e1" using h(6) by auto
    then show ?thesis using IH h(2,3) by auto
  qed
qed

lemma segs_adjacent:
  assumes "segs p c = us @ (b1, e1) # (b2, e2) # vs"
  shows "e1 < b2 \<and> (\<forall>i. e1 \<le> i \<and> i < b2 \<longrightarrow> sep p i)"
proof -
  have s: "segs p e1 = (b2, e2) # vs" using segs_split [OF assms] by simp
  have "stop p e1" using segs_mem [of b1 e1 p c] assms by simp
  moreover have "\<not> stop p b2" using segs_Cons(3,5) [OF s] by blast
  ultimately show ?thesis using segs_Cons(2,4) [OF s] by (metis le_neq_implies_less)
qed

text \<open>Names.\<close>

lemma split_slash_takeWhile:
  "split_slash p = takeWhile (\<lambda>c. c \<noteq> CHR 0x2F) p #
     (case dropWhile (\<lambda>c. c \<noteq> CHR 0x2F) p of [] \<Rightarrow> [] | _ # q \<Rightarrow> split_slash q)"
  by (induction p) auto

lemma path_names_sep: "path_names (CHR 0x2F # p) = path_names p"
  by (simp add: path_names_def)

lemma path_names_name:
  assumes "p \<noteq> []" "hd p \<noteq> CHR 0x2F"
  shows "path_names p = takeWhile (\<lambda>c. c \<noteq> CHR 0x2F) p # path_names (dropWhile (\<lambda>c. c \<noteq> CHR 0x2F) p)"
proof -
  let ?d = "dropWhile (\<lambda>c. c \<noteq> CHR 0x2F) p"
  have n: "takeWhile (\<lambda>c. c \<noteq> CHR 0x2F) p \<noteq> []" using assms by (cases p) auto
  show ?thesis
  proof (cases ?d)
    case Nil
    have "split_slash p = [takeWhile (\<lambda>c. c \<noteq> CHR 0x2F) p]"
      by (subst split_slash_takeWhile) (simp only: Nil list.case)
    then show ?thesis using n unfolding path_names_def Nil by simp
  next
    case (Cons x q)
    then have "x = CHR 0x2F" using hd_dropWhile [of "\<lambda>c. c \<noteq> CHR 0x2F" p] by simp
    then have "path_names ?d = path_names q" using Cons path_names_sep by simp
    then show ?thesis using Cons n split_slash_takeWhile [of p] by (simp add: path_names_def)
  qed
qed

text \<open>A C string has no zero inside.\<close>

definition c_string :: "string \<Rightarrow> bool" where
  "c_string p \<longleftrightarrow> NUL \<notin> set p"

lemma cwk_char_NUL: "c_string p \<Longrightarrow> cwk_char p i = NUL \<longleftrightarrow> length p \<le> i"
  by (metis c_string_def cwk_char_def leD leI nth_mem)

lemma next_stop_takeWhile:
  assumes "c_string p" "c \<le> length p"
  shows "cwk_path_find_next_stop CWK_STYLE_UNIX p c = c + length (takeWhile (\<lambda>x. x \<noteq> CHR 0x2F) (drop c p))"
  using assms
proof (induction "CWK_STYLE_UNIX" p c rule: cwk_path_find_next_stop.induct)
  case (1 p c)
  show ?case
  proof (cases "c < length p")
    case True
    then have d: "drop c p = p ! c # drop (Suc c) p" by (simp add: Cons_nth_drop_Suc)
    have "cwk_char p c = p ! c" using True by (simp add: cwk_char_def)
    moreover have "cwk_char p c \<noteq> NUL" using True cwk_char_NUL [OF 1(2), of c] by simp
    ultimately have "cwk_char p c = p ! c" "cwk_char p c \<noteq> NUL" by auto
    then show ?thesis using 1 True d by (subst cwk_path_find_next_stop.simps) (auto simp: sep_iff)
  next
    case False
    then show ?thesis using cwk_char_NUL [OF 1(2), of c] by (subst cwk_path_find_next_stop.simps) simp
  qed
qed

definition seg_name :: "string \<Rightarrow> nat \<times> nat \<Rightarrow> string" where
  "seg_name p s = take (snd s - fst s) (drop (fst s) p)"

lemma names_skip:
  assumes "c_string p" "c \<le> length p"
  shows "path_names (drop c p) = path_names (drop (skip_separators CWK_STYLE_UNIX p c) p)"
  using assms
proof (induction "CWK_STYLE_UNIX" p c rule: skip_separators.induct)
  case (1 p c)
  show ?case
  proof (cases "sep p c")
    case True
    then have c: "c < length p" by (rule separator_in_path)
    then have "drop c p = CHR 0x2F # drop (Suc c) p" using True by (simp add: sep_iff cwk_char_def flip: Cons_nth_drop_Suc)
    then show ?thesis using 1(1) [OF True 1(2)] True c by (simp add: path_names_sep skip_separators.simps [of _ p c])
  qed (simp add: skip_none)
qed

lemma segs_names: "c_string p \<Longrightarrow> c \<le> length p \<Longrightarrow> map (seg_name p) (segs p c) = path_names (drop c p)"
proof (induction p c rule: segs.induct)
  case (1 p c)
  let ?b = "skip_separators CWK_STYLE_UNIX p c"
  let ?e = "cwk_path_find_next_stop CWK_STYLE_UNIX p ?b"
  note skip = names_skip [OF 1(2,3)]
  show ?case
  proof (cases "cwk_char p ?b = NUL")
    case True
    then have "length p \<le> ?b" using cwk_char_NUL [OF 1(2)] by simp
    then show ?thesis using True skip by (subst segs.simps) (simp add: path_names_def)
  next
    case False
    then have b: "?b < length p" using char_in_path by blast
    have e: "?e = ?b + length (takeWhile (\<lambda>x. x \<noteq> CHR 0x2F) (drop ?b p))"
      using next_stop_takeWhile [OF 1(2), of ?b] b by simp
    let ?d = "drop ?b p"
    have "length (takeWhile (\<lambda>x. x \<noteq> CHR 0x2F) ?d) \<le> length ?d" by (rule length_takeWhile_le)
    then have le: "?e \<le> length p" using e b by simp
    have hd: "?d \<noteq> []" "hd ?d \<noteq> CHR 0x2F" using b skip_stop [of p c] by (simp_all add: sep_iff cwk_char_def hd_drop_conv_nth)
    have "seg_name p (?b, ?e) = takeWhile (\<lambda>x. x \<noteq> CHR 0x2F) ?d" using e by (simp add: seg_name_def takeWhile_eq_take [symmetric])
    moreover have "drop ?e p = dropWhile (\<lambda>x. x \<noteq> CHR 0x2F) ?d" using e by (simp add: dropWhile_eq_drop add.commute)
    moreover have "map (seg_name p) (segs p ?e) = path_names (drop ?e p)" using 1(1) [OF refl False 1(2) le] .
    ultimately show ?thesis using False skip path_names_name [OF hd] by (subst segs.simps) (simp add: Let_def)
  qed
qed

section \<open>Moving over one path\<close>

text \<open>The segment structure for the segment from b to e of path p; s is where its segments begin.\<close>

definition seg_at :: "string \<Rightarrow> nat \<Rightarrow> nat \<times> nat \<Rightarrow> cwk_segment" where
  "seg_at p s x = \<lparr>sg_path = p, sg_segments = s, sg_begin = fst x, sg_end = snd x, sg_size = snd x - fst x\<rparr>"

lemma first_segment:
  "cwk_path_get_first_segment_without_root CWK_STYLE_UNIX p s =
     (case segs p s of [] \<Rightarrow> (False, seg_at p s (s, s)) | x # _ \<Rightarrow> (True, seg_at p s x))"
proof (cases "cwk_char p s = NUL")
  case True
  then show ?thesis using segs_NUL by (simp add: cwk_path_get_first_segment_without_root_def seg_at_def)
next
  case False
  then show ?thesis
    by (subst segs.simps) (simp add: cwk_path_get_first_segment_without_root_def seg_at_def Let_def)
qed

lemma next_segment:
  assumes "b < e" "stop p e"
  shows "cwk_path_get_next_segment CWK_STYLE_UNIX (seg_at p s (b, e)) =
     Inr (case segs p e of [] \<Rightarrow> (False, seg_at p s (b, e)) | x # _ \<Rightarrow> (True, seg_at p s x))"
proof (cases "cwk_char p e = NUL")
  case True
  then show ?thesis using assms(1) segs_NUL by (simp add: cwk_path_get_next_segment_def seg_at_def)
next
  case False
  then have sp: "sep p e" using assms(2) by simp
  show ?thesis
    using assms(1) False sp skip_idem [OF sp]
    by (subst segs.simps) (simp add: cwk_path_get_next_segment_def seg_at_def Let_def)
qed

lemma last_segment:
  assumes "segs p c = x # xs"
  shows "last_segment_loop CWK_STYLE_UNIX (seg_at p s x) = Inr (seg_at p s (last (x # xs)))"
  using assms
proof (induction xs arbitrary: c x)
  case Nil
  obtain b e where x: "x = (b, e)" by (cases x)
  note h = segs_Cons [OF Nil [unfolded x]]
  show ?case using next_segment [OF h(3,6), of s] h(1) by (subst last_segment_loop.simps) (simp add: x)
next
  case (Cons y ys)
  obtain b e where x: "x = (b, e)" by (cases x)
  note h = segs_Cons [OF Cons.prems [unfolded x]]
  have "segs p e = y # ys" using h(1) by simp
  then show ?case using next_segment [OF h(3,6), of s] Cons.IH [of e y]
    by (subst last_segment_loop.simps) (simp add: x)
qed

lemma last_segment_without_root:
  "\<exists>seg. cwk_path_get_last_segment_without_root CWK_STYLE_UNIX p =
     Inr (if segs p 0 = [] then (False, seg) else (True, seg_at p 0 (last (segs p 0))))"
proof (cases "segs p 0")
  case Nil
  then show ?thesis by (simp add: cwk_path_get_last_segment_without_root_def first_segment)
next
  case (Cons x xs)
  then show ?thesis using last_segment [OF Cons, of 0]
    by (simp add: cwk_path_get_last_segment_without_root_def first_segment)
qed

text \<open>The root of a path is one separator or nothing, and the segments are the same with it.\<close>

lemma root_unix: "cwk_path_get_root CWK_STYLE_UNIX p = (if sep p 0 then 1 else 0)"
  by (simp add: cwk_path_get_root_def cwk_path_get_root_unix_def)

lemma segs_root: "segs p (cwk_path_get_root CWK_STYLE_UNIX p) = segs p 0"
  using segs_sep [of p 0] by (simp add: root_unix)

lemma last_segment_root:
  "\<exists>seg. cwk_path_get_last_segment CWK_STYLE_UNIX p =
     Inr (if segs p 0 = [] then (False, seg)
          else (True, seg_at p (cwk_path_get_root CWK_STYLE_UNIX p) (last (segs p 0))))"
proof (cases "segs p 0")
  case Nil
  then show ?thesis by (simp add: cwk_path_get_last_segment_def cwk_path_get_first_segment_def first_segment segs_root)
next
  case (Cons x xs)
  then have c: "segs p (cwk_path_get_root CWK_STYLE_UNIX p) = x # xs" by (simp add: segs_root)
  show ?thesis using last_segment [OF c, of "cwk_path_get_root CWK_STYLE_UNIX p"] Cons
    by (simp add: cwk_path_get_last_segment_def cwk_path_get_first_segment_def first_segment segs_root)
qed

text \<open>Backwards.\<close>

lemma back_over_all:
  "(\<And>i. s \<le> i \<Longrightarrow> i < c \<Longrightarrow> sep p i) \<Longrightarrow> back_over_separators CWK_STYLE_UNIX p s c = None"
  by (induction c) auto

lemma back_over_some':
  "e \<le> c \<Longrightarrow> s < e \<Longrightarrow> (\<And>i. e \<le> i \<Longrightarrow> i < c \<Longrightarrow> sep p i) \<Longrightarrow> \<not> sep p (e - 1) \<Longrightarrow>
   back_over_separators CWK_STYLE_UNIX p s c = Some (e - 1)"
proof (induction c)
  case (Suc c)
  show ?case
  proof (cases "e = Suc c")
    case True
    then show ?thesis using Suc.prems by simp
  next
    case False
    then show ?thesis using Suc by simp
  qed
qed simp

lemma previous_stop_at:
  "b \<le> c \<Longrightarrow> (\<And>i. b \<le> i \<Longrightarrow> i \<le> c \<Longrightarrow> \<not> sep p i) \<Longrightarrow> s \<le> b \<Longrightarrow> b = s \<or> 0 < b \<and> sep p (b - 1) \<Longrightarrow>
   cwk_path_find_previous_stop CWK_STYLE_UNIX p s c = b"
proof (induction c)
  case 0
  then show ?case by (auto simp: cwk_path_find_previous_stop_def previous_stop_loop.simps [of _ p 0 0] Let_def)
next
  case (Suc c)
  have n: "\<not> sep p (Suc c)" using Suc.prems(1,2) by simp
  show ?case
  proof (cases "b = Suc c")
    case True
    show ?thesis
    proof (cases "s = b")
      case True
      then show ?thesis using \<open>b = Suc c\<close> n
        by (simp add: cwk_path_find_previous_stop_def previous_stop_loop.simps [of _ p "Suc c" "Suc c"] Let_def)
    next
      case False
      then have "sep p c" "s \<le> c" using Suc.prems(3,4) True by auto
      then show ?thesis using True n
        by (simp add: cwk_path_find_previous_stop_def previous_stop_loop.simps [of _ p s "Suc c"]
            previous_stop_loop.simps [of _ p s c])
    qed
  next
    case False
    then have "b \<le> c" "s < Suc c" using Suc.prems(1,3) by simp_all
    moreover have "cwk_path_find_previous_stop CWK_STYLE_UNIX p s c = b"
      by (rule Suc.IH) (use Suc.prems \<open>b \<le> c\<close> in simp_all)
    ultimately show ?thesis using n
      by (simp add: cwk_path_find_previous_stop_def previous_stop_loop.simps [of _ p s "Suc c"])
  qed
qed

lemma previous_segment_first:
  assumes "segs p 0 = x # xs" "s \<le> cwk_path_get_root CWK_STYLE_UNIX p"
  shows "cwk_path_get_previous_segment CWK_STYLE_UNIX (seg_at p s x) = (False, seg_at p s x)"
proof -
  obtain b e where x: "x = (b, e)" by (cases x)
  note h = segs_Cons [OF assms(1) [unfolded x]]
  have "back_over_separators CWK_STYLE_UNIX p s b = None" by (rule back_over_all) (use h(4) in simp)
  then show ?thesis by (simp add: cwk_path_get_previous_segment_def seg_at_def x)
qed

lemma previous_segment:
  assumes "segs p 0 = us @ y # x # vs" "s \<le> cwk_path_get_root CWK_STYLE_UNIX p"
  shows "cwk_path_get_previous_segment CWK_STYLE_UNIX (seg_at p s x) = (True, seg_at p s y)"
proof -
  obtain b e where x: "x = (b, e)" by (cases x)
  obtain b1 e1 where y: "y = (b1, e1)" by (cases y)
  have adj: "e1 < b" "\<And>i. e1 \<le> i \<Longrightarrow> i < b \<Longrightarrow> sep p i" using segs_adjacent [of p 0 us b1 e1 b e vs] assms(1) x y by auto
  have m: "b1 < e1" "\<And>i. b1 \<le> i \<Longrightarrow> i < e1 \<Longrightarrow> \<not> stop p i" "b1 = 0 \<or> 0 < b1 \<and> sep p (b1 - 1)"
    using segs_mem [of b1 e1 p 0] assms(1) y by auto
  have s: "s \<le> b1"
  proof (cases "b1 = 0")
    case True
    then have "\<not> sep p 0" using m(1) m(2) [of 0] by simp
    then show ?thesis using assms(2) by (simp add: root_unix)
  next
    case False
    have "s \<le> 1" using assms(2) by (simp add: root_unix split: if_splits)
    then show ?thesis using False by simp
  qed
  have "back_over_separators CWK_STYLE_UNIX p s b = Some (e1 - 1)"
    by (rule back_over_some') (use adj m s in auto)
  moreover have "cwk_path_find_previous_stop CWK_STYLE_UNIX p s (e1 - 1) = b1"
    by (rule previous_stop_at) (use m s in auto)
  ultimately show ?thesis using adj(1) m(1) s by (simp add: cwk_path_get_previous_segment_def seg_at_def x y)
qed

section \<open>Moving over several paths\<close>

text \<open>The segments of all paths from the k-th on, and of those before it, with the number of their path.\<close>

definition path_segs :: "string list \<Rightarrow> nat \<Rightarrow> (nat \<times> nat \<times> nat) list" where
  "path_segs ps i = map (Pair i) (segs (ps ! i) 0)"

definition segs_from :: "string list \<Rightarrow> nat \<Rightarrow> (nat \<times> nat \<times> nat) list" where
  "segs_from ps k = concat (map (path_segs ps) [k ..< length ps])"

definition segs_upto :: "string list \<Rightarrow> nat \<Rightarrow> (nat \<times> nat \<times> nat) list" where
  "segs_upto ps k = concat (map (path_segs ps) [0 ..< k])"

abbreviation all_segs :: "string list \<Rightarrow> (nat \<times> nat \<times> nat) list" where
  "all_segs ps \<equiv> segs_from ps 0"

lemma segs_from_Suc: "k < length ps \<Longrightarrow> segs_from ps k = path_segs ps k @ segs_from ps (Suc k)"
  by (simp add: segs_from_def upt_conv_Cons)

lemma segs_from_end: "length ps \<le> k \<Longrightarrow> segs_from ps k = []"
  by (simp add: segs_from_def)

lemma segs_upto_Suc: "segs_upto ps (Suc k) = segs_upto ps k @ path_segs ps k"
  by (simp add: segs_upto_def)

lemma all_segs_split: "i < length ps \<Longrightarrow> all_segs ps = segs_upto ps i @ path_segs ps i @ segs_from ps (Suc i)"
proof -
  assume i: "i < length ps"
  then have "[0 ..< length ps] = [0 ..< i] @ [i ..< length ps]" by (metis le_add_diff_inverse less_imp_le_nat upt_add_eq_append zero_le)
  then have "all_segs ps = segs_upto ps i @ segs_from ps i" by (simp add: segs_from_def segs_upto_def)
  then show ?thesis using segs_from_Suc [OF i] by simp
qed

lemma segs_upto_index: "x \<in> set (segs_upto ps i) \<Longrightarrow> fst x < i"
  by (auto simp: segs_upto_def path_segs_def)

lemma segs_from_index: "x \<in> set (segs_from ps i) \<Longrightarrow> i \<le> fst x \<and> fst x < length ps"
  by (auto simp: segs_from_def path_segs_def)

text \<open>A position in the list of all segments.\<close>

lemma position:
  assumes "all_segs ps = us @ (i, x) # vs"
  obtains us' vs' where "i < length ps" "segs (ps ! i) 0 = us' @ x # vs'" "us = segs_upto ps i @ map (Pair i) us'"
    "vs = map (Pair i) vs' @ segs_from ps (Suc i)"
proof -
  have i: "i < length ps" using assms segs_from_index [of "(i, x)" ps 0] by simp
  have eq: "us @ (i, x) # vs = segs_upto ps i @ path_segs ps i @ segs_from ps (Suc i)"
    using assms all_segs_split [OF i] by simp
  have "length (segs_upto ps i) \<le> length us"
  proof (rule ccontr)
    assume lt: "\<not> length (segs_upto ps i) \<le> length us"
    then have "(us @ (i, x) # vs) ! length us = segs_upto ps i ! length us" unfolding eq by (simp add: nth_append)
    moreover have "segs_upto ps i ! length us \<in> set (segs_upto ps i)" using lt by simp
    ultimately have "(i, x) \<in> set (segs_upto ps i)" by simp
    then show False using segs_upto_index by fastforce
  qed
  then obtain u where u: "us = segs_upto ps i @ u" "u @ (i, x) # vs = path_segs ps i @ segs_from ps (Suc i)"
  proof -
    let ?A = "segs_upto ps i"
    assume le: "length ?A \<le> length us" and *: "\<And>u. us = ?A @ u \<Longrightarrow> u @ (i, x) # vs = path_segs ps i @ segs_from ps (Suc i) \<Longrightarrow> thesis"
    have e: "?A = take (length ?A) us \<and> path_segs ps i @ segs_from ps (Suc i) = drop (length ?A) us @ (i, x) # vs"
      using eq [symmetric] append_eq_append_conv_if [of ?A "path_segs ps i @ segs_from ps (Suc i)" us "(i, x) # vs"]
      unfolding if_P [OF le] by blast
    have "us = take (length ?A) us @ drop (length ?A) us" by simp
    then have "us = ?A @ drop (length ?A) us" using e by metis
    then show thesis using * [of "drop (length ?A) us"] e by simp
  qed
  have "length u < length (path_segs ps i)"
  proof (rule ccontr)
    assume ge: "\<not> length u < length (path_segs ps i)"
    let ?n = "length u - length (path_segs ps i)"
    have "(u @ (i, x) # vs) ! length u = segs_from ps (Suc i) ! ?n" unfolding u(2) using ge by (simp add: nth_append)
    moreover have "?n < length (segs_from ps (Suc i))"
      using arg_cong [OF u(2), of length] ge by simp
    ultimately have "(i, x) \<in> set (segs_from ps (Suc i))" by (auto simp: in_set_conv_nth)
    then show False using segs_from_index by fastforce
  qed
  then obtain v where v: "u @ (i, x) # v = path_segs ps i" "vs = v @ segs_from ps (Suc i)"
    using u(2) by (auto simp: append_eq_append_conv2 append_eq_Cons_conv Cons_eq_append_conv)
  obtain us' x' vs' where s: "segs (ps ! i) 0 = us' @ x' # vs'" "u = map (Pair i) us'" "(i, x) = (i, x')" "v = map (Pair i) vs'"
    using v(1) [symmetric] unfolding path_segs_def by (auto simp: map_eq_append_conv map_eq_Cons_conv)
  show thesis by (rule that [of us' vs']) (use i s u(1) v(2) in auto)
qed

text \<open>The iterator stands at segment x.\<close>

definition at_seg :: "string list \<Rightarrow> cwk_segment_joined \<Rightarrow> nat \<times> nat \<times> nat \<Rightarrow> bool" where
  "at_seg ps sj x \<longleftrightarrow>
     (\<exists>s \<le> cwk_path_get_root CWK_STYLE_UNIX (ps ! fst x).
        sj = \<lparr>sj_segment = seg_at (ps ! fst x) s (snd x), sj_paths = ps, sj_path_index = fst x\<rparr>)"

lemma first_joined:
  assumes "k < length ps"
  shows "\<exists>seg i. first_joined_loop CWK_STYLE_UNIX (drop k ps) k seg0 =
    (case segs_from ps k of
       [] \<Rightarrow> (False, seg, i)
     | x # _ \<Rightarrow> (True, seg_at (ps ! fst x) (cwk_path_get_root CWK_STYLE_UNIX (ps ! fst x)) (snd x), fst x))"
  using assms
proof (induction "length ps - k" arbitrary: k seg0)
  case (Suc n)
  have d: "drop k ps = ps ! k # drop (Suc k) ps" using Suc.prems by (simp add: Cons_nth_drop_Suc)
  show ?case
  proof (cases "segs (ps ! k) 0")
    case Nil
    have f: "cwk_path_get_first_segment CWK_STYLE_UNIX (ps ! k) =
        (False, seg_at (ps ! k) (cwk_path_get_root CWK_STYLE_UNIX (ps ! k)) (cwk_path_get_root CWK_STYLE_UNIX (ps ! k), cwk_path_get_root CWK_STYLE_UNIX (ps ! k)))"
      using Nil by (simp add: cwk_path_get_first_segment_def first_segment segs_root)
    have s: "segs_from ps k = segs_from ps (Suc k)" using segs_from_Suc [OF Suc.prems] Nil by (simp add: path_segs_def)
    show ?thesis
    proof (cases "Suc k < length ps")
      case True
      then show ?thesis using Suc.hyps(1) [of "Suc k"] Suc.hyps(2) f s d by simp
    next
      case False
      then show ?thesis using f s d segs_from_end [of ps "Suc k"] by simp
    qed
  next
    case (Cons x xs)
    then show ?thesis using segs_from_Suc [OF Suc.prems] d
      by (simp add: path_segs_def cwk_path_get_first_segment_def first_segment segs_root)
  qed
qed simp

lemma next_joined_loop_at:
  "\<exists>seg' i'. next_joined_loop CWK_STYLE_UNIX ps k seg =
    (case segs_from ps k of [] \<Rightarrow> (False, seg', i') | x # _ \<Rightarrow> (True, seg_at (ps ! fst x) 0 (snd x), fst x))"
proof (induction "length ps - k" arbitrary: k seg)
  case 0
  then show ?case by (subst next_joined_loop.simps) (simp add: segs_from_end)
next
  case (Suc n)
  have k: "k < length ps" using Suc.hyps(2) by simp
  show ?case
  proof (cases "segs (ps ! k) 0")
    case Nil
    then show ?thesis using Suc.hyps(1) [of "Suc k"] Suc.hyps(2) k segs_from_Suc [OF k]
      by (subst next_joined_loop.simps) (simp add: first_segment path_segs_def)
  next
    case (Cons x xs)
    then show ?thesis using k segs_from_Suc [OF k]
      by (subst next_joined_loop.simps) (simp add: first_segment path_segs_def)
  qed
qed

lemma next_joined:
  assumes "all_segs ps = us @ x # vs" "at_seg ps sj x"
  shows "\<exists>sj'. cwk_path_get_next_segment_joined CWK_STYLE_UNIX sj = Inr (vs \<noteq> [], sj') \<and> (vs \<noteq> [] \<longrightarrow> at_seg ps sj' (hd vs))"
proof -
  obtain i b e where x: "x = (i, b, e)" by (metis prod_cases3)
  obtain us' vs' where p: "i < length ps" "segs (ps ! i) 0 = us' @ (b, e) # vs'" "vs = map (Pair i) vs' @ segs_from ps (Suc i)"
    using position [of ps us i "(b, e)" vs] assms(1) x by metis
  obtain s where s: "s \<le> cwk_path_get_root CWK_STYLE_UNIX (ps ! i)"
    "sj = \<lparr>sj_segment = seg_at (ps ! i) s (b, e), sj_paths = ps, sj_path_index = i\<rparr>"
    using assms(2) x by (auto simp: at_seg_def)
  have m: "b < e" "stop (ps ! i) e" using segs_mem [of b e "ps ! i" 0] p(2) by auto
  have v: "segs (ps ! i) e = vs'" using segs_split [OF p(2)] by simp
  show ?thesis
  proof (cases vs')
    case Nil
    obtain seg' i' where j: "next_joined_loop CWK_STYLE_UNIX ps (Suc i) (seg_at (ps ! i) s (b, e)) =
      (case segs_from ps (Suc i) of [] \<Rightarrow> (False, seg', i') | x # _ \<Rightarrow> (True, seg_at (ps ! fst x) 0 (snd x), fst x))"
      using next_joined_loop_at by blast
    show ?thesis
      using next_segment [OF m, of s] v Nil j p s
      by (cases "segs_from ps (Suc i)") (auto simp: cwk_path_get_next_segment_joined_def at_seg_def)
  next
    case (Cons y ys)
    then show ?thesis using next_segment [OF m, of s] v p s
      by (auto simp: cwk_path_get_next_segment_joined_def at_seg_def)
  qed
qed

lemma previous_joined_loop_at:
  "k \<le> length ps \<Longrightarrow> \<exists>seg' i' s. (segs_upto ps k \<noteq> [] \<longrightarrow> s \<le> cwk_path_get_root CWK_STYLE_UNIX (ps ! fst (last (segs_upto ps k)))) \<and>
    previous_joined_loop CWK_STYLE_UNIX ps k seg =
    Inr (if segs_upto ps k = [] then (False, seg', i')
      else (True, seg_at (ps ! fst (last (segs_upto ps k))) s (snd (last (segs_upto ps k))), fst (last (segs_upto ps k))))"
proof (induction k arbitrary: seg)
  case 0
  then show ?case by (simp add: segs_upto_def)
next
  case (Suc k)
  let ?g = "if k = 0 then cwk_path_get_last_segment CWK_STYLE_UNIX (ps ! k)
            else cwk_path_get_last_segment_without_root CWK_STYLE_UNIX (ps ! k)"
  obtain seg1 s where g: "?g = Inr (if segs (ps ! k) 0 = [] then (False, seg1) else (True, seg_at (ps ! k) s (last (segs (ps ! k) 0))))"
    and s: "s \<le> cwk_path_get_root CWK_STYLE_UNIX (ps ! k)"
    using last_segment_without_root [of "ps ! k"] last_segment_root [of "ps ! k"] by (cases "k = 0") auto
  show ?case
  proof (cases "segs (ps ! k) 0 = []")
    case True
    have "segs_upto ps (Suc k) = segs_upto ps k" using True by (simp add: segs_upto_Suc path_segs_def)
    then show ?thesis using g True Suc.IH [of seg1] Suc.prems by (cases "segs_upto ps k = []") auto
  next
    case False
    have l: "segs_upto ps (Suc k) \<noteq> []" "last (segs_upto ps (Suc k)) = (k, last (segs (ps ! k) 0))"
      using False by (simp_all add: segs_upto_Suc path_segs_def last_map)
    show ?thesis using g False s l by auto
  qed
qed

lemma previous_joined:
  assumes "all_segs ps = us @ x # vs" "at_seg ps sj x"
  shows "\<exists>sj'. cwk_path_get_previous_segment_joined CWK_STYLE_UNIX sj = Inr (us \<noteq> [], sj') \<and> (us \<noteq> [] \<longrightarrow> at_seg ps sj' (last us))"
proof -
  obtain i b e where x: "x = (i, b, e)" by (metis prod_cases3)
  obtain us' vs' where p: "i < length ps" "segs (ps ! i) 0 = us' @ (b, e) # vs'" "us = segs_upto ps i @ map (Pair i) us'"
    using position [of ps us i "(b, e)" vs] assms(1) x by metis
  obtain s where s: "s \<le> cwk_path_get_root CWK_STYLE_UNIX (ps ! i)"
    "sj = \<lparr>sj_segment = seg_at (ps ! i) s (b, e), sj_paths = ps, sj_path_index = i\<rparr>"
    using assms(2) x by (auto simp: at_seg_def)
  have ne: "ps \<noteq> []" using p(1) by auto
  show ?thesis
  proof (cases us' rule: rev_cases)
    case Nil
    have f: "cwk_path_get_previous_segment CWK_STYLE_UNIX (seg_at (ps ! i) s (b, e)) = (False, seg_at (ps ! i) s (b, e))"
      by (rule previous_segment_first) (use p(2) Nil s(1) in auto)
    show ?thesis
      using previous_joined_loop_at [of i ps "seg_at (ps ! i) s (b, e)"] f p Nil s ne
      by (auto simp: cwk_path_get_previous_segment_joined_def at_seg_def)
  next
    case (snoc ys y)
    have f: "cwk_path_get_previous_segment CWK_STYLE_UNIX (seg_at (ps ! i) s (b, e)) = (True, seg_at (ps ! i) s y)"
      by (rule previous_segment) (use p(2) snoc s(1) in auto)
    show ?thesis using f p snoc s ne
      by (auto simp: cwk_path_get_previous_segment_joined_def at_seg_def)
  qed
qed

section \<open>The scans of the code\<close>

definition name_at :: "string list \<Rightarrow> nat \<times> nat \<times> nat \<Rightarrow> string" where
  "name_at ps x = seg_name (ps ! fst x) (snd x)"

lemma strncmp_eq_take: "n \<le> length a \<Longrightarrow> strncmp_eq a b n \<longleftrightarrow> take n a = take n b \<and> n \<le> length b"
proof (induction a b n rule: strncmp_eq.induct)
  case (2 a b n)
  then show ?case by (cases a; cases b) auto
qed simp

lemma short_name: "n \<noteq> [] \<Longrightarrow> n = take (length n) ''.'' \<and> length n \<le> length ''.'' \<longleftrightarrow> n = ''.''"
  "n \<noteq> [] \<Longrightarrow> n \<noteq> ''.'' \<Longrightarrow> n = take (length n) ''..'' \<and> length n \<le> length ''..'' \<longleftrightarrow> n = ''..''"
  by (cases n; cases "tl n"; auto)+

lemma type_of_name:
  assumes "snd x \<le> length p" "fst x < snd x"
  shows "cwk_path_get_segment_type (seg_at p s x) =
     (if seg_name p x = ''.'' then CWK_CURRENT else if seg_name p x = ''..'' then CWK_BACK else CWK_NORMAL)"
proof -
  let ?n = "seg_name p x"
  have l: "length ?n = snd x - fst x" "?n \<noteq> []" using assms by (auto simp: seg_name_def)
  have "strncmp_eq (drop (fst x) p) b (snd x - fst x) \<longleftrightarrow> ?n = take (length ?n) b \<and> length ?n \<le> length b" for b
    using strncmp_eq_take [of "snd x - fst x" "drop (fst x) p" b] assms l(1) by (simp add: seg_name_def)
  then show ?thesis using short_name [OF l(2)] by (simp add: cwk_path_get_segment_type_def seg_at_def)
qed

lemma segs_length: "(b, e) \<in> set (segs p c) \<Longrightarrow> e \<le> length p"
proof -
  assume m: "(b, e) \<in> set (segs p c)"
  then have "b < e" "\<not> stop p (e - 1)" using segs_mem [OF m] by auto
  then have "e - 1 < length p" using char_in_path by blast
  then show "e \<le> length p" using \<open>b < e\<close> by simp
qed

lemma at_type:
  assumes "x \<in> set (all_segs ps)" "at_seg ps sj x"
  shows "cwk_path_get_segment_type (sj_segment sj) =
     (if name_at ps x = ''.'' then CWK_CURRENT else if name_at ps x = ''..'' then CWK_BACK else CWK_NORMAL)"
proof -
  have "snd x \<in> set (segs (ps ! fst x) 0)" using assms(1) by (auto simp: segs_from_def path_segs_def)
  then have "fst (snd x) < snd (snd x)" "snd (snd x) \<le> length (ps ! fst x)"
    using segs_mem [of "fst (snd x)" "snd (snd x)"] segs_length [of "fst (snd x)" "snd (snd x)"] by auto
  then show ?thesis using assms(2) type_of_name [of "snd x" "ps ! fst x"] by (auto simp: at_seg_def name_at_def)
qed

lemma normal_removed_fwd:
  assumes "all_segs ps = us @ x # vs" "at_seg ps sj x"
  shows "normal_removed_loop CWK_STYLE_UNIX sj c = Inr (fwd (map (name_at ps) vs) c)"
  using assms
proof (induction vs arbitrary: us x sj c)
  case Nil
  then show ?case using next_joined [OF Nil] by (subst normal_removed_loop.simps) auto
next
  case (Cons y vs)
  obtain sj' where n: "cwk_path_get_next_segment_joined CWK_STYLE_UNIX sj = Inr (True, sj')" "at_seg ps sj' y"
    using next_joined [OF Cons.prems] by auto
  have a: "all_segs ps = (us @ [x]) @ y # vs" using Cons.prems(1) by simp
  have t: "cwk_path_get_segment_type (sj_segment sj') =
     (if name_at ps y = ''.'' then CWK_CURRENT else if name_at ps y = ''..'' then CWK_BACK else CWK_NORMAL)"
    by (rule at_type [OF _ n(2)]) (simp add: a)
  show ?case using Cons.IH [OF a n(2)] n t by (subst normal_removed_loop.simps) simp
qed

lemma back_removed_bwd:
  assumes "all_segs ps = us @ x # vs" "at_seg ps sj x"
  shows "back_removed_loop CWK_STYLE_UNIX sj c = Inr (bwd (rev (map (name_at ps) us)) c)"
  using assms
proof (induction us arbitrary: vs x sj c rule: rev_induct)
  case Nil
  then show ?case using previous_joined [OF Nil] by (subst back_removed_loop.simps) auto
next
  case (snoc y us)
  obtain sj' where n: "cwk_path_get_previous_segment_joined CWK_STYLE_UNIX sj = Inr (True, sj')" "at_seg ps sj' y"
    using previous_joined [OF snoc.prems] by auto
  have a: "all_segs ps = us @ y # (x # vs)" using snoc.prems(1) by simp
  have t: "cwk_path_get_segment_type (sj_segment sj') =
     (if name_at ps y = ''.'' then CWK_CURRENT else if name_at ps y = ''..'' then CWK_BACK else CWK_NORMAL)"
    by (rule at_type [OF _ n(2)]) (simp add: a)
  show ?case using snoc.IH [OF a n(2)] n t by (subst back_removed_loop.simps) simp
qed

lemma will_be_removed:
  assumes "all_segs ps = us @ x # vs" "at_seg ps sj x"
  shows "cwk_path_segment_will_be_removed CWK_STYLE_UNIX sj absolute =
     Inr (removed absolute (map (name_at ps) us) (name_at ps x) (map (name_at ps) vs))"
proof -
  have "cwk_path_get_segment_type (sj_segment sj) =
     (if name_at ps x = ''.'' then CWK_CURRENT else if name_at ps x = ''..'' then CWK_BACK else CWK_NORMAL)"
    by (rule at_type [OF _ assms(2)]) (simp add: assms(1))
  then show ?thesis
    using normal_removed_fwd [OF assms, of 0] back_removed_bwd [OF assms, of 0]
    by (simp add: cwk_path_segment_will_be_removed_def removed_def
        cwk_path_segment_normal_will_be_removed_def cwk_path_segment_back_will_be_removed_def)
qed

section \<open>Output\<close>

text \<open>The buffer starts with as much of str as fits.\<close>

definition starts :: "string \<Rightarrow> string \<Rightarrow> bool" where
  "starts buffer str \<longleftrightarrow> (let n = min (length str) (length buffer - 1) in take n buffer = take n str)"

lemma output_sized_length [simp]: "length (snd (cwk_path_output_sized buffer pos s n)) = length buffer" if "n \<le> length s"
  using that by (auto simp: cwk_path_output_sized_def Let_def)

lemma output_sized_pos [simp]: "fst (cwk_path_output_sized buffer pos s n) = n"
  by (simp add: cwk_path_output_sized_def Let_def)

lemma output_sized_starts:
  assumes "starts buffer str" "n \<le> length s"
  shows "starts (snd (cwk_path_output_sized buffer (length str) s n)) (str @ take n s)"
proof -
  let ?L = "length buffer" let ?P = "length str"
  let ?b = "snd (cwk_path_output_sized buffer ?P s n)"
  have l: "length ?b = ?L" using assms(2) by simp
  have s: "take (min ?P (?L - 1)) buffer = take (min ?P (?L - 1)) str" using assms(1) by (simp add: starts_def Let_def)
  show ?thesis
  proof (cases "?P < ?L")
    case True
    then have p: "take ?P buffer = str" using s by (simp add: min_def split: if_splits)
    define k where "k = (if ?L > ?P + n then n else ?L - ?P)"
    have k: "k \<le> n" "k \<le> length s" using True assms(2) by (auto simp: k_def)
    have b: "?b = str @ take k s @ drop (?P + k) buffer"
    proof (cases "k = 0")
      case True
      have "buffer = str @ drop ?P buffer" using p append_take_drop_id [of ?P buffer] by simp
      then show ?thesis using True \<open>?P < ?L\<close> by (auto simp: cwk_path_output_sized_def Let_def k_def)
    next
      case False
      then show ?thesis using True p k_def by (auto simp: cwk_path_output_sized_def Let_def)
    qed
    let ?m = "min (?P + n) (?L - 1)"
    have m: "?m \<le> ?P + k" by (auto simp: k_def)
    have "take ?m ?b = take ?m (str @ take k s)" unfolding b using m k(2) by simp
    also have "\<dots> = take ?m (str @ take n s)" using m k by (auto simp: min_def)
    finally have "take ?m ?b = take ?m (str @ take n s)" .
    then show ?thesis unfolding starts_def Let_def l using assms(2) by (simp only: length_append length_take min_absorb2)
  next
    case False
    then show ?thesis using s by (simp add: cwk_path_output_sized_def starts_def Let_def min_def split: if_splits)
  qed
qed

lemma starts_Nil: "starts buffer []"
  by (simp add: starts_def)

lemma terminate_holds:
  assumes "starts buffer str"
  shows "buffer_holds (cwk_path_terminate_output buffer (length str)) str" "length (cwk_path_terminate_output buffer n) = length buffer"
proof -
  show "length (cwk_path_terminate_output buffer n) = length buffer" by (simp add: cwk_path_terminate_output_def)
  show "buffer_holds (cwk_path_terminate_output buffer (length str)) str"
  proof (cases "buffer = []")
    case False
    then have L: "0 < length buffer" by simp
    define m where "m = min (length str) (length buffer - 1)"
    have t: "cwk_path_terminate_output buffer (length str) = buffer[m := NUL]"
    proof (cases "length buffer \<le> length str")
      case True
      then show ?thesis using L by (simp add: cwk_path_terminate_output_def m_def min_absorb2)
    next
      case False
      then show ?thesis using L by (simp add: cwk_path_terminate_output_def m_def min_absorb1)
    qed
    have "length buffer - 1 < length buffer" using L by (rule diff_less [OF zero_less_one])
    then have "m < length buffer" unfolding m_def by (rule min.strict_coboundedI2)
    then show ?thesis unfolding t using assms by (simp add: buffer_holds_def starts_def Let_def m_def)
  qed (simp add: buffer_holds_def cwk_path_terminate_output_def)
qed

lemma slash_join_snoc: "ks \<noteq> [] \<Longrightarrow> slash_join (ks @ [n]) = slash_join ks @ CHR 0x2F # n"
proof (induction ks rule: slash_join.induct)
  case (3 n' m ns)
  then show ?case by simp
qed simp_all

section \<open>The whole run\<close>

lemma slash_output:
  assumes "starts buffer str"
  shows "\<exists>buffer'. cwk_path_output_separator CWK_STYLE_UNIX buffer (length str) = (1, buffer') \<and>
    starts buffer' (str @ [CHR 0x2F]) \<and> length buffer' = length buffer"
  using output_sized_starts [OF assms, of 1 "[CHR 0x2F]"] output_sized_length [of 1 "[CHR 0x2F]" buffer "length str"]
  by (intro exI [of _ "snd (cwk_path_output_sized buffer (length str) [CHR 0x2F] 1)"])
     (simp add: cwk_path_output_separator_def separators_def prod_eq_iff)

lemma segment_output:
  assumes "starts buffer str" "x \<in> set (all_segs ps)" "at_seg ps sj x"
  shows "\<exists>buffer'. output_segment buffer (length str) (sj_segment sj) = (length (name_at ps x), buffer') \<and>
    starts buffer' (str @ name_at ps x) \<and> length buffer' = length buffer"
proof -
  let ?p = "ps ! fst x" let ?b = "fst (snd x)" let ?e = "snd (snd x)"
  have "snd x \<in> set (segs ?p 0)" using assms(2) by (auto simp: segs_from_def path_segs_def)
  then have be: "?b < ?e" "?e \<le> length ?p" using segs_mem [of ?b ?e ?p 0] segs_length [of ?b ?e ?p 0] by auto
  let ?s = "drop ?b ?p" let ?n = "?e - ?b"
  have n: "?n \<le> length ?s" using be by simp
  have nm: "name_at ps x = take ?n ?s" "length (name_at ps x) = ?n" using be by (simp_all add: name_at_def seg_name_def)
  have o1: "output_segment buffer (length str) (sj_segment sj) = cwk_path_output_sized buffer (length str) ?s ?n"
    using assms(3) by (auto simp: at_seg_def output_segment_def seg_at_def)
  show ?thesis
    using output_sized_starts [OF assms(1) n] output_sized_length [OF n, of buffer "length str"] o1 nm
    by (intro exI [of _ "snd (cwk_path_output_sized buffer (length str) ?s ?n)"]) (simp add: prod_eq_iff)
qed

lemma normalize_loop_kept:
  assumes "all_segs ps = us @ x # vs" "at_seg ps sj x" "starts buffer (root @ slash_join ks)"
  shows "\<exists>buffer'. let ks' = ks @ kept absolute (map (name_at ps) us) (map (name_at ps) (x # vs)) in
    normalize_loop CWK_STYLE_UNIX sj absolute (length (root @ slash_join ks), ks \<noteq> [], buffer) =
      Inr (length (root @ slash_join ks'), ks' \<noteq> [], buffer') \<and>
    starts buffer' (root @ slash_join ks') \<and> length buffer' = length buffer"
  using assms
proof (induction vs arbitrary: us x sj buffer ks)
  case step: Nil
  note rem = will_be_removed [OF step(1,2), of absolute]
  obtain sj' where n: "cwk_path_get_next_segment_joined CWK_STYLE_UNIX sj = Inr (False, sj')"
    using next_joined [OF step(1,2)] by auto
  have x: "x \<in> set (all_segs ps)" by (simp add: step(1))
  show ?case
  proof (cases "removed absolute (map (name_at ps) us) (name_at ps x) (map (name_at ps) [])")
    case True
    then show ?thesis using rem n step(3) by (subst normalize_loop.simps) simp
  next
    case False
    show ?thesis
    proof (cases "ks = []")
      case True
      then show ?thesis using segment_output [OF step(3) x step(2)] False rem n by (subst normalize_loop.simps) auto
    next
      case ks: False
      obtain b1 where b1: "cwk_path_output_separator CWK_STYLE_UNIX buffer (length (root @ slash_join ks)) = (1, b1)"
        "starts b1 ((root @ slash_join ks) @ [CHR 0x2F])" "length b1 = length buffer"
        using slash_output [OF step(3)] by blast
      show ?thesis using segment_output [OF b1(2) x step(2)] b1 ks False rem n
        by (subst normalize_loop.simps) (auto simp: slash_join_snoc)
    qed
  qed
next
  case (Cons y vs)
  note rem = will_be_removed [OF Cons.prems(1,2), of absolute]
  obtain sj' where n: "cwk_path_get_next_segment_joined CWK_STYLE_UNIX sj = Inr (True, sj')" "at_seg ps sj' y"
    using next_joined [OF Cons.prems(1,2)] by auto
  have a: "all_segs ps = (us @ [x]) @ y # vs" using Cons.prems(1) by simp
  have x: "x \<in> set (all_segs ps)" by (simp add: a)
  let ?r = "removed absolute (map (name_at ps) us) (name_at ps x) (map (name_at ps) (y # vs))"
  show ?case
  proof (cases ?r)
    case True
    then show ?thesis using rem n Cons.IH [OF a n(2) Cons.prems(3)] by (subst normalize_loop.simps) simp
  next
    case False
    have "\<exists>b. starts b (root @ slash_join (ks @ [name_at ps x])) \<and> length b = length buffer \<and>
      normalize_loop CWK_STYLE_UNIX sj absolute (length (root @ slash_join ks), ks \<noteq> [], buffer) =
      normalize_loop CWK_STYLE_UNIX sj' absolute (length (root @ slash_join (ks @ [name_at ps x])), True, b)"
    proof (cases "ks = []")
      case True
      then show ?thesis using segment_output [OF Cons.prems(3) x Cons.prems(2)] False rem n
        by (subst normalize_loop.simps [of _ sj]) (auto simp: Let_def)
    next
      case ks: False
      obtain b1 where b1: "cwk_path_output_separator CWK_STYLE_UNIX buffer (length (root @ slash_join ks)) = (1, b1)"
        "starts b1 ((root @ slash_join ks) @ [CHR 0x2F])" "length b1 = length buffer"
        using slash_output [OF Cons.prems(3)] by blast
      show ?thesis using segment_output [OF b1(2) x Cons.prems(2)] b1 ks False rem n
        by (subst normalize_loop.simps [of _ sj]) (auto simp: slash_join_snoc Let_def add_ac)
    qed
    then show ?thesis using Cons.IH [OF a n(2), of _ "ks @ [name_at ps x]"] False by (fastforce simp: Let_def)
  qed
qed

lemma all_names:
  assumes "\<forall>p \<in> set ps. c_string p"
  shows "map (name_at ps) (all_segs ps) = concat (map path_names ps)"
proof -
  have "map (name_at ps) (path_segs ps i) = path_names (ps ! i)" if "i < length ps" for i
    using segs_names [of "ps ! i" 0] assms that by (simp add: path_segs_def name_at_def comp_def)
  then have "map (map (name_at ps)) (map (path_segs ps) [0 ..< length ps]) = map (\<lambda>i. path_names (ps ! i)) [0 ..< length ps]"
    by simp
  then have "map (name_at ps) (all_segs ps) = concat (map (\<lambda>i. path_names (ps ! i)) [0 ..< length ps])"
    unfolding segs_from_def map_concat by (rule arg_cong)
  also have "map (\<lambda>i. path_names (ps ! i)) [0 ..< length ps] = map path_names ps"
    using map_nth [of ps] map_map [of path_names "(!) ps" "[0 ..< length ps]"] by (simp add: comp_def)
  finally show ?thesis .
qed

definition root_text :: "string \<Rightarrow> string" where
  "root_text p = (if sep p 0 then ''/'' else [])"

lemma root_text_unix:
  "cwk_path_get_root CWK_STYLE_UNIX p = length (root_text p)" "take (length (root_text p)) p = root_text p"
  "length (root_text p) \<le> length p" "cwk_path_is_root_absolute CWK_STYLE_UNIX p (length (root_text p)) = sep p 0"
  using separator_in_path [of CWK_STYLE_UNIX p 0] take_Suc_conv_app_nth [of 0 p]
  by (auto simp: root_unix root_text_def sep_iff cwk_char_def Suc_le_eq cwk_path_is_root_absolute_def split: if_splits)

lemma join_start:
  obtains b0 where "starts b0 (root_text p)" "length b0 = length buffer"
    "cwk_path_join_and_normalize_multiple CWK_STYLE_UNIX (p # ps) buffer =
      (case cwk_path_get_first_segment_joined CWK_STYLE_UNIX (p # ps) no_segment of
         (False, _) \<Rightarrow> Inr (length (root_text p), cwk_path_terminate_output b0 (length (root_text p)))
       | (True, sj) \<Rightarrow>
           rbind (normalize_loop CWK_STYLE_UNIX sj (sep p 0) (length (root_text p), False, b0)) (\<lambda>(pos, has_segment_output, buffer).
           if \<not> has_segment_output \<and> pos = 0 then
             rbind (rassert (sep p 0 = False)) (\<lambda>_.
             let (n, buffer) = cwk_path_output_current buffer pos; pos = pos + n in
             Inr (pos, cwk_path_terminate_output buffer pos))
           else Inr (pos, cwk_path_terminate_output buffer pos)))"
proof
  let ?b0 = "snd (cwk_path_output_sized buffer 0 p (length (root_text p)))"
  note r = root_text_unix [of p]
  show "starts ?b0 (root_text p)" "length ?b0 = length buffer"
    using output_sized_starts [OF starts_Nil r(3), of buffer] r by simp_all
  have same_root: "cwk_path_fix_root CWK_STYLE_UNIX b n = b" for b n by (simp add: cwk_path_fix_root_def)
  show "cwk_path_join_and_normalize_multiple CWK_STYLE_UNIX (p # ps) buffer =
      (case cwk_path_get_first_segment_joined CWK_STYLE_UNIX (p # ps) no_segment of
         (False, _) \<Rightarrow> Inr (length (root_text p), cwk_path_terminate_output ?b0 (length (root_text p)))
       | (True, sj) \<Rightarrow>
           rbind (normalize_loop CWK_STYLE_UNIX sj (sep p 0) (length (root_text p), False, ?b0)) (\<lambda>(pos, has_segment_output, buffer).
           if \<not> has_segment_output \<and> pos = 0 then
             rbind (rassert (sep p 0 = False)) (\<lambda>_.
             let (n, buffer) = cwk_path_output_current buffer pos; pos = pos + n in
             Inr (pos, cwk_path_terminate_output buffer pos))
           else Inr (pos, cwk_path_terminate_output buffer pos)))"
    unfolding cwk_path_join_and_normalize_multiple_def list.case Let_def r(1,4) same_root ..
qed

text \<open>The first segment of the joined paths.\<close>

lemma first_joined_segment:
  assumes "paths \<noteq> []"
  shows "all_segs paths = [] \<Longrightarrow> \<exists>sj. cwk_path_get_first_segment_joined CWK_STYLE_UNIX paths no_segment = (False, sj)"
    "all_segs paths = x # vs \<Longrightarrow> \<exists>sj. cwk_path_get_first_segment_joined CWK_STYLE_UNIX paths no_segment = (True, sj) \<and> at_seg paths sj x"
proof -
  have f: "\<exists>seg i. first_joined_loop CWK_STYLE_UNIX paths 0 no_segment =
    (case all_segs paths of
       [] \<Rightarrow> (False, seg, i)
     | x # _ \<Rightarrow> (True, seg_at (paths ! fst x) (cwk_path_get_root CWK_STYLE_UNIX (paths ! fst x)) (snd x), fst x))"
    using first_joined [of 0 paths no_segment] assms by simp
  show "all_segs paths = [] \<Longrightarrow> \<exists>sj. cwk_path_get_first_segment_joined CWK_STYLE_UNIX paths no_segment = (False, sj)"
    using f by (auto simp: cwk_path_get_first_segment_joined_def)
  show "\<exists>sj. cwk_path_get_first_segment_joined CWK_STYLE_UNIX paths no_segment = (True, sj) \<and> at_seg paths sj x"
    if "all_segs paths = x # vs"
    using f that by (auto simp: cwk_path_get_first_segment_joined_def at_seg_def)
qed

text \<open>The reference in terms of the segments that are kept.\<close>

lemma normal_path_kept:
  assumes "paths = p # ps"
  defines "ks \<equiv> kept (sep p 0) [] (concat (map path_names paths))"
  shows "normal_path paths =
    (if concat (map path_names paths) \<noteq> [] \<and> ks = [] \<and> root_text p = [] then ''.'' else root_text p @ slash_join ks)"
  unfolding ks_def by (simp only: normal_path_def Let_def kept_resolve) (auto simp: assms(1) root_text_def sep_iff)

lemma join_normalize:
  assumes "paths \<noteq> []" "\<forall>p \<in> set paths. c_string p"
  shows "\<exists>out. cwk_path_join_and_normalize_multiple CWK_STYLE_UNIX paths buffer = Inr (length (normal_path paths), out) \<and>
    length out = length buffer \<and> buffer_holds out (normal_path paths)"
proof -
  obtain p ps where paths: "paths = p # ps" using assms(1) by (cases paths) auto
  let ?root = "root_text p" and ?ks = "kept (sep p 0) [] (concat (map path_names paths))"
  obtain b0 where b0: "starts b0 ?root" "length b0 = length buffer" and start: "cwk_path_join_and_normalize_multiple CWK_STYLE_UNIX paths buffer =
      (case cwk_path_get_first_segment_joined CWK_STYLE_UNIX paths no_segment of
         (False, _) \<Rightarrow> Inr (length ?root, cwk_path_terminate_output b0 (length ?root))
       | (True, sj) \<Rightarrow>
           rbind (normalize_loop CWK_STYLE_UNIX sj (sep p 0) (length ?root, False, b0)) (\<lambda>(pos, has_segment_output, buffer).
           if \<not> has_segment_output \<and> pos = 0 then
             rbind (rassert (sep p 0 = False)) (\<lambda>_.
             let (n, buffer) = cwk_path_output_current buffer pos; pos = pos + n in
             Inr (pos, cwk_path_terminate_output buffer pos))
           else Inr (pos, cwk_path_terminate_output buffer pos)))"
    unfolding paths by (rule join_start)
  note np = normal_path_kept [OF paths] and names = all_names [OF assms(2)]
  show ?thesis
  proof (cases "all_segs paths")
    case Nil
    then have "concat (map path_names paths) = []" using names by simp
    then have "normal_path paths = ?root" unfolding np by (simp only: kept.simps slash_join.simps) simp
    then show ?thesis using start first_joined_segment(1) [OF assms(1) Nil] terminate_holds [OF b0(1)] b0(2) by auto
  next
    case (Cons x vs)
    obtain sj where sj: "cwk_path_get_first_segment_joined CWK_STYLE_UNIX paths no_segment = (True, sj)" "at_seg paths sj x"
      using first_joined_segment(2) [OF assms(1) Cons] by blast
    have n: "map (name_at paths) (x # vs) = concat (map path_names paths)" using names Cons by (simp only:)
    then have ne: "concat (map path_names paths) \<noteq> []" by (metis list.simps(3) map_eq_Cons_conv)
    obtain b where l: "normalize_loop CWK_STYLE_UNIX sj (sep p 0) (length ?root, False, b0) =
        Inr (length (?root @ slash_join ?ks), ?ks \<noteq> [], b)" "starts b (?root @ slash_join ?ks)" "length b = length buffer"
      using normalize_loop_kept [of paths "[]" x vs sj b0 ?root "[]" "sep p 0"] Cons sj(2) b0 unfolding n by (auto simp: Let_def)
    show ?thesis
    proof (cases "?ks = [] \<and> ?root = []")
      case True
      then have na: "\<not> sep p 0" "normal_path paths = ''.''" using np ne by (auto simp: root_text_def split: if_splits)
      let ?b = "snd (cwk_path_output_sized b 0 ''.'' 1)"
      have "starts ?b ''.''" "length ?b = length b" using output_sized_starts [of b "[]" 1 "''.''"] starts_Nil by simp_all
      then show ?thesis using start sj l True na terminate_holds [of ?b "''.''"]
        by (auto simp: cwk_path_output_current_def Let_def case_prod_unfold)
    next
      case False
      then have "normal_path paths = ?root @ slash_join ?ks" using np by auto
      then show ?thesis using False start sj l terminate_holds [OF l(2)] by auto
    qed
  qed
qed

text \<open>An absolute path keeps no \<open>..\<close>, and no path keeps a \<open>.\<close>.\<close>

lemma resolve_names:
  "set (resolve absolute stack ns) \<subseteq> set stack \<union> (set ns - {''.''}) \<union> (if absolute then {} else {''..''})"
  by (induction absolute stack ns rule: resolve.induct) (auto split: list.splits if_splits)

lemma resolve_absolute: "''..'' \<notin> set stack \<Longrightarrow> ''..'' \<notin> set (resolve True stack ns)"
proof (induction ns arbitrary: stack)
  case (Cons n ns)
  then show ?case by (cases stack) auto
qed simp

text \<open>
  C10: joining and normalising. For every list of paths and every buffer, the code computes exactly
  the path of the reference: all segments put on a stack from which \<open>..\<close> takes the last directory. It
  returns its length, whatever the size of the buffer, never writes behind the buffer, and leaves in it
  as much of the path as fits with a terminating zero. The names of an absolute result contain no \<open>.\<close>
  and no \<open>..\<close>.
\<close>

theorem join_normalize_correct:
  assumes "paths \<noteq> []" "\<forall>p \<in> set paths. c_string p"
  shows "(\<exists>out. cwk_path_join_multiple CWK_STYLE_UNIX paths buffer = Inr (length (normal_path paths), out) \<and>
      length out = length buffer \<and> buffer_holds out (normal_path paths)) \<and>
    (cwk_path_is_absolute CWK_STYLE_UNIX (hd paths) \<longrightarrow>
      (\<exists>ns. normal_path paths = CHR 0x2F # slash_join ns \<and> ''.'' \<notin> set ns \<and> ''..'' \<notin> set ns))"
proof -
  have "\<exists>ns. normal_path paths = CHR 0x2F # slash_join ns \<and> ''.'' \<notin> set ns \<and> ''..'' \<notin> set ns"
    if a: "cwk_path_is_absolute CWK_STYLE_UNIX (hd paths)"
  proof -
    have "cwk_char (hd paths) 0 = CHR 0x2F"
      using a by (simp add: cwk_path_is_absolute_def root_unix cwk_path_is_root_absolute_def sep_iff split: if_splits)
    then show ?thesis
      using resolve_names [of True "[]" "concat (map path_names paths)"] resolve_absolute [of "[]" "concat (map path_names paths)"]
      by (intro exI [of _ "resolve True [] (concat (map path_names paths))"]) (auto simp: normal_path_def Let_def)
  qed
  then show ?thesis using join_normalize [OF assms, of buffer] by (simp add: cwk_path_join_multiple_def)
qed

theorem join_normalize_correct_witness:
  "\<exists>out. cwk_path_join_multiple CWK_STYLE_UNIX [''/srv/a'', ''../x/./y''] (replicate 8 CHR 0x2A) = Inr (length ''/srv/x/y'', out) \<and>
     buffer_holds out ''/srv/x/y''"
proof -
  have "normal_path [''/srv/a'', ''../x/./y''] = ''/srv/x/y''"
    by (simp add: normal_path_def path_names_def cwk_char_def)
  then show ?thesis
    using join_normalize_correct [of "[''/srv/a'', ''../x/./y'']" "replicate 8 CHR 0x2A"]
    by (auto simp: c_string_def NUL_def)
qed

end
