(* ===== verification/Sys.thy ===== *)
theory Sys
  imports Thread Cwalk
begin

text \<open>
  System calls: \<open>lps-linux/sys/*.c\<close>, \<open>sys/sys.h\<close>, \<open>sys.c\<close> and \<open>proc_chdir\<close> of \<open>proc.c\<close>. A handler gets the
  host's services, the arguments and the calling thread, and returns a number and the thread, whose
  process owns memory, kernel state, descriptors and break. Arguments come as 64 bit registers and are
  narrowed to \<open>int\<close> where the handler takes one. Host memory and sandbox memory are one memory. The
  messages written with \<open>LOG\<close> are left out. The pipe handlers are in theory \<open>Pipe\<close>; the dispatcher does
  not reach them.
\<close>

section \<open>The environment of a handler\<close>

record 'k env =
  ev_vm :: "'k world hostvm"
  ev_os :: "'k hostos"
  ev_dev :: "'k devops"

definition th_world :: "'k LPSThread \<Rightarrow> 'k world" where
  "th_world t = pr_world (th_proc t)"

definition th_set_world :: "'k LPSThread \<Rightarrow> 'k world \<Rightarrow> 'k LPSThread" where
  "th_set_world t w = t\<lparr>th_proc := pr_set_world (th_proc t) w\<rparr>"

definition th_store :: "'k LPSThread \<Rightarrow> u64 \<Rightarrow> (nat \<times> nat \<times> u64) list \<Rightarrow> 'k LPSThread" where
  "th_store t p fs = t\<lparr>th_proc := pr_set_mem (th_proc t) (store_fields p fs)\<rparr>"

text \<open>A handler that only works on kernel and memory.\<close>

definition on_world :: "('k world \<Rightarrow> ('a \<times> 'k world) res) \<Rightarrow> 'k LPSThread \<Rightarrow> ('a \<times> 'k LPSThread) res" where
  "on_world f t = rbind (f (th_world t)) (\<lambda>(r, w). Inr (r, th_set_world t w))"

section \<open>Pointers and buffers of the sandbox (sys.h)\<close>

abbreviation FILENAME_MAX :: nat where "FILENAME_MAX \<equiv> 4096"

definition ptrcheck :: "'k LPSThread \<Rightarrow> u64 \<Rightarrow> bool" where
  "ptrcheck t p = lps_box_ptrvalid (pr_box (th_proc t)) p"

definition bufcheck :: "'k LPSThread \<Rightarrow> u64 \<Rightarrow> u64 \<Rightarrow> u64 \<Rightarrow> bool" where
  "bufcheck t p sz align =
     (if \<not> ptrcheck t p then False
      else if \<not> ptrcheck t (p + sz - 1) then False
      else if p mod align \<noteq> 0 then False
      else True)"

definition bufhost :: "'k LPSThread \<Rightarrow> u64 \<Rightarrow> u64 \<Rightarrow> u64 \<Rightarrow> u64 option" where
  "bufhost t p sz align = (if \<not> bufcheck t p sz align then None else Some p)"

definition ptrhost :: "'k LPSThread \<Rightarrow> u64 \<Rightarrow> u64 option" where
  "ptrhost t p = (if \<not> ptrcheck t p then None else Some p)"

definition host_malloc :: "'k env \<Rightarrow> u64 \<Rightarrow> 'k LPSThread \<Rightarrow> bool \<times> 'k LPSThread" where
  "host_malloc env sz t = (case hv_malloc (ev_vm env) sz (th_world t) of (ok, w) \<Rightarrow> (ok, th_set_world t w))"

text \<open>The copies hold bytes; None is NULL.\<close>

definition copyout :: "'k env \<Rightarrow> 'k LPSThread \<Rightarrow> u64 \<Rightarrow> u64 \<Rightarrow> (u8 list option \<times> 'k LPSThread) res" where
  "copyout env t p sz =
     rbind (rassert (bufcheck t p sz 1)) (\<lambda>_.
     case host_malloc env sz t of
       (False, t) \<Rightarrow> Inr (None, t)
     | (True, t) \<Rightarrow> Inr (Some (load_bytes p (unat sz) (w_mem (th_world t))), t))"

definition copyin :: "'k LPSThread \<Rightarrow> u64 \<Rightarrow> u8 list \<Rightarrow> u64 \<Rightarrow> 'k LPSThread res" where
  "copyin t p host sz =
     rbind (rassert (bufcheck t p sz 1)) (\<lambda>_.
     if unat sz > length host then Inl OutOfBounds
     else Inr (t\<lparr>th_proc := pr_set_mem (th_proc t) (store_bytes p (take (unat sz) host))\<rparr>))"

text \<open>The characters from address a on up to the terminating zero, at most n.\<close>

fun mem_str :: "memory \<Rightarrow> u64 \<Rightarrow> nat \<Rightarrow> string" where
  "mem_str m a 0 = []"
| "mem_str m a (Suc n) = (if m a = 0 then [] else char_of (unat (m a)) # mem_str m (a + 1) n)"

definition pathcopy :: "'k env \<Rightarrow> 'k LPSThread \<Rightarrow> u64 \<Rightarrow> string option \<times> 'k LPSThread" where
  "pathcopy env t pathp =
     (if \<not> ptrcheck t pathp then (None, t)
      else
        (case host_malloc env (of_nat FILENAME_MAX) t of
           (False, t) \<Rightarrow> (None, t)
         | (True, t) \<Rightarrow> (Some (mem_str (w_mem (th_world t)) pathp (FILENAME_MAX - 1)), t)))"

text \<open>The host path is the sandbox path.\<close>

definition pathcopyresolve :: "'k env \<Rightarrow> 'k LPSThread \<Rightarrow> u64 \<Rightarrow> string option \<times> 'k LPSThread" where
  "pathcopyresolve env t pathp = pathcopy env t pathp"

section \<open>Files (sys_file.c)\<close>

text \<open>The shared beginning: look the descriptor up, and call its function unless the pointer is NULL.\<close>

definition with_file ::
  "'k LPSThread \<Rightarrow> cint \<Rightarrow> (FDFile \<Rightarrow> ('a::len word \<times> 'k LPSThread) res) \<Rightarrow> ('a word \<times> 'k LPSThread) res" where
  "with_file t fd body =
     rbind (fdfget (pr_fds (th_proc t)) fd) (\<lambda>f.
     case f of
       None \<Rightarrow> Inr (- LINUX_EBADF, t)
     | Some _ \<Rightarrow> rbind (get_file (pr_fheap (th_proc t)) f) body)"

definition if_fn :: "fnptr \<Rightarrow> 'k LPSThread \<Rightarrow> ('a::len word \<times> 'k LPSThread) res \<Rightarrow> ('a word \<times> 'k LPSThread) res" where
  "if_fn fp t body =
     (case fp of Uninit \<Rightarrow> Inl Uninitialised | Null \<Rightarrow> Inr (- LINUX_EPERM, t) | KFile \<Rightarrow> body | PipeFn \<Rightarrow> body)"

text \<open>A call through a function pointer; k and d are the functions of \<open>kfile.c\<close> and of a pipe.\<close>

definition call_fn :: "fnptr \<Rightarrow> 'a res \<Rightarrow> 'a res \<Rightarrow> 'a res" where
  "call_fn fp k d = (case fp of Uninit \<Rightarrow> Inl Uninitialised | Null \<Rightarrow> Inl NullDeref | KFile \<Rightarrow> k | PipeFn \<Rightarrow> d)"

text \<open>A pipe has functions for reading, writing and closing only.\<close>

abbreviation call_kfn :: "fnptr \<Rightarrow> 'a res \<Rightarrow> 'a res" where
  "call_kfn fp k \<equiv> call_fn fp k (Inl Unreachable)"

abbreviation th_files :: "'k LPSThread \<Rightarrow> fheap" where
  "th_files t \<equiv> pr_fheap (th_proc t)"

definition f_read_call :: "'k env \<Rightarrow> FDFile \<Rightarrow> u64 \<Rightarrow> u64 \<Rightarrow> 'k LPSThread \<Rightarrow> (u64 \<times> 'k LPSThread) res" where
  "f_read_call env f buf sz t =
     call_fn (f_read f) (on_world (kread (ev_os env) (th_files t) (f_dev f) buf sz) t)
       (on_world (dv_read (ev_dev env) (f_dev f) buf sz) t)"

definition f_write_call :: "'k env \<Rightarrow> FDFile \<Rightarrow> u64 \<Rightarrow> u64 \<Rightarrow> 'k LPSThread \<Rightarrow> (u64 \<times> 'k LPSThread) res" where
  "f_write_call env f buf sz t =
     call_fn (f_write f) (on_world (kwrite (ev_os env) (th_files t) (f_dev f) buf sz) t)
       (on_world (dv_write (ev_dev env) (f_dev f) buf sz) t)"

definition f_lseek_call :: "'k env \<Rightarrow> FDFile \<Rightarrow> u64 \<Rightarrow> cint \<Rightarrow> 'k LPSThread \<Rightarrow> (u64 \<times> 'k LPSThread) res" where
  "f_lseek_call env f off whence t =
     call_kfn (f_lseek f) (on_world (klseek (ev_os env) (th_files t) (f_dev f) off whence) t)"

definition sys_write :: "'k env \<Rightarrow> cint \<Rightarrow> u64 \<Rightarrow> u64 \<Rightarrow> 'k LPSThread \<Rightarrow> (u64 \<times> 'k LPSThread) res" where
  "sys_write env fd bufp sz t =
     (if sz = 0 then Inr (0, t)
      else
        with_file t fd (\<lambda>f. if_fn (f_write f) t
          (case bufhost t bufp sz 1 of
             None \<Rightarrow> Inr (- LINUX_EINVAL, t)
           | Some buf \<Rightarrow> f_write_call env f buf sz t)))"

definition sys_read :: "'k env \<Rightarrow> cint \<Rightarrow> u64 \<Rightarrow> u64 \<Rightarrow> 'k LPSThread \<Rightarrow> (u64 \<times> 'k LPSThread) res" where
  "sys_read env fd bufp sz t =
     (if sz = 0 then Inr (0, t)
      else
        with_file t fd (\<lambda>f. if_fn (f_read f) t
          (case bufhost t bufp sz 1 of
             None \<Rightarrow> Inr (- LINUX_EINVAL, t)
           | Some buf \<Rightarrow> f_read_call env f buf sz t)))"

text \<open>
  The loops of \<open>sys_writev\<close> and \<open>sys_readv\<close> over the copied array. An entry is 16 bytes; the loop reads
  as many entries as the caller said, and reading behind the copy is a fault.
\<close>

fun iov_loop ::
  "(u64 \<Rightarrow> u64 \<Rightarrow> 'k LPSThread \<Rightarrow> (u64 \<times> 'k LPSThread) res) \<Rightarrow> u8 list \<Rightarrow> nat \<Rightarrow> u64 \<Rightarrow> 'k LPSThread \<Rightarrow>
   (u64 \<times> 'k LPSThread) res" where
  "iov_loop op iov 0 tot t = Inr (tot, t)"
| "iov_loop op iov (Suc n) tot t =
     (if length iov < 16 then Inl OutOfBounds
      else
        rbind (op (le_word (take 8 iov)) (le_word (take 8 (drop 8 iov))) t) (\<lambda>(r, t).
        if sint r < 0 then Inr (r, t) else iov_loop op (drop 16 iov) n (tot + r) t))"

definition iov_call ::
  "'k env \<Rightarrow> (u64 \<Rightarrow> u64 \<Rightarrow> 'k LPSThread \<Rightarrow> (u64 \<times> 'k LPSThread) res) \<Rightarrow> u64 \<Rightarrow> u64 \<Rightarrow> 'k LPSThread \<Rightarrow>
   (u64 \<times> 'k LPSThread) res" where
  "iov_call env op iovp iovcnt t =
     (if \<not> bufcheck t iovp (iovcnt * 16) 8 then Inr (- LINUX_EINVAL, t)
      else
        rbind (copyout env t iovp (iovcnt * 16)) (\<lambda>(iov, t).
        case iov of
          None \<Rightarrow> Inr (- LINUX_ENOMEM, t)
        | Some iov \<Rightarrow> iov_loop op iov (unat iovcnt) 0 t))"

definition sys_writev :: "'k env \<Rightarrow> cint \<Rightarrow> u64 \<Rightarrow> u64 \<Rightarrow> 'k LPSThread \<Rightarrow> (u64 \<times> 'k LPSThread) res" where
  "sys_writev env fd iovp iovcnt t = iov_call env (sys_write env fd) iovp iovcnt t"

definition sys_readv :: "'k env \<Rightarrow> cint \<Rightarrow> u64 \<Rightarrow> u64 \<Rightarrow> 'k LPSThread \<Rightarrow> (u64 \<times> 'k LPSThread) res" where
  "sys_readv env fd iovp iovcnt t = iov_call env (sys_read env fd) iovp iovcnt t"

text \<open>The host's flags have the values of Linux; \<open>O_TRUNC\<close> is not among those passed on.\<close>

definition openflags :: "cint \<Rightarrow> cint" where
  "openflags flags =
     (if flags AND LINUX_O_RDONLY \<noteq> 0 then 0 else 0) OR
     (if flags AND LINUX_O_WRONLY \<noteq> 0 then 0x1 else 0) OR
     (if flags AND LINUX_O_RDWR \<noteq> 0 then 0x2 else 0) OR
     (if flags AND LINUX_O_CREAT \<noteq> 0 then 0x40 else 0) OR
     (if flags AND LINUX_O_APPEND \<noteq> 0 then 0x400 else 0) OR
     (if flags AND LINUX_O_NONBLOCK \<noteq> 0 then 0x800 else 0) OR
     (if flags AND LINUX_O_DIRECTORY \<noteq> 0 then 0x10000 else 0)"

definition th_set_files :: "'k LPSThread \<Rightarrow> fheap \<Rightarrow> FDTable \<Rightarrow> 'k LPSThread" where
  "th_set_files t fh fds = t\<lparr>th_proc := (th_proc t)\<lparr>pr_fheap := fh, pr_fds := fds\<rparr>\<rparr>"

definition sys_openat :: "'k env \<Rightarrow> cint \<Rightarrow> u64 \<Rightarrow> cint \<Rightarrow> cint \<Rightarrow> 'k LPSThread \<Rightarrow> (cint \<times> 'k LPSThread) res" where
  "sys_openat env dirfd pathp flags mode t =
     (if dirfd \<noteq> LINUX_AT_FDCWD then Inr (- LINUX_EBADF, t)
      else
        (case pathcopyresolve env t pathp of
           (None, t) \<Rightarrow> Inr (- LINUX_ENOENT, t)
         | (Some path, t) \<Rightarrow>
             (case ev_os env (H_open path (openflags flags) mode) (th_world t) of
                (r, w) \<Rightarrow>
                  (let t = th_set_world t w; kfd = ucast (hr_ret r) :: cint in
                   if sint kfd < 0 then Inr (host_err (hr_errno r), t)
                   else
                     (case filenew kfd (Some path) (th_files t) of
                        (None, fh) \<Rightarrow> Inr (- LINUX_ENOENT, th_set_files t fh (pr_fds (th_proc t)))
                      | (Some f, fh) \<Rightarrow>
                          rbind (fdfassign fh (pr_fds (th_proc t)) f) (\<lambda>(fd, fh, fds).
                          let t = th_set_files t fh fds in
                          if sint fd < 0 then Inr (- LINUX_EMFILE, t) else Inr (fd, t)))))))"

definition sys_close :: "cint \<Rightarrow> 'k LPSThread \<Rightarrow> (cint \<times> 'k LPSThread) res" where
  "sys_close fd t =
     rbind (fdfclose (th_files t) (pr_fds (th_proc t)) fd) (\<lambda>(closed, fh, fds).
     if \<not> closed then Inr (- LINUX_EBADF, t) else Inr (0, th_set_files t fh fds))"

definition sys_lseek :: "'k env \<Rightarrow> cint \<Rightarrow> u64 \<Rightarrow> cint \<Rightarrow> 'k LPSThread \<Rightarrow> (u64 \<times> 'k LPSThread) res" where
  "sys_lseek env fd offset whence t =
     with_file t fd (\<lambda>f. if_fn (f_lseek f) t (f_lseek_call env f offset whence t))"

text \<open>
  \<open>sys_pread64\<close> checks the pointer for reading only; \<open>SEEK_CUR\<close> is 1 and \<open>SEEK_SET\<close> is 0. A failed first
  \<open>lseek\<close> returns a negative Linux error number, which is translated once more.
\<close>

definition sys_pread64 :: "'k env \<Rightarrow> cint \<Rightarrow> u64 \<Rightarrow> u64 \<Rightarrow> u64 \<Rightarrow> 'k LPSThread \<Rightarrow> (u64 \<times> 'k LPSThread) res" where
  "sys_pread64 env fd bufp sz offset t =
     with_file t fd (\<lambda>f. if_fn (f_read f) t
       (case bufhost t bufp sz 1 of
          None \<Rightarrow> Inr (- LINUX_EFAULT, t)
        | Some buf \<Rightarrow>
            rbind (f_lseek_call env f 0 1 t) (\<lambda>(orig, t).
            if sint orig < 0 then Inr (int_to_u64 (host_err (ucast orig)), t)
            else
              rbind (f_lseek_call env f offset 0 t) (\<lambda>(_, t).
              rbind (f_read_call env f buf sz t) (\<lambda>(n, t).
              rbind (f_lseek_call env f orig 0 t) (\<lambda>(_, t).
              Inr (n, t)))))))"

definition sys_getdents64 :: "'k env \<Rightarrow> cint \<Rightarrow> u64 \<Rightarrow> u64 \<Rightarrow> 'k LPSThread \<Rightarrow> (u64 \<times> 'k LPSThread) res" where
  "sys_getdents64 env fd dirp count t =
     with_file t fd (\<lambda>f. if_fn (f_getdents f) t
       (case bufhost t dirp count 8 of
          None \<Rightarrow> Inr (- LINUX_EINVAL, t)
        | Some buf \<Rightarrow>
            call_kfn (f_getdents f) (on_world (kgetdents (ev_os env) (th_files t) (f_dev f) buf count) t)))"

definition sys_newfstatat :: "'k env \<Rightarrow> cint \<Rightarrow> u64 \<Rightarrow> u64 \<Rightarrow> cint \<Rightarrow> 'k LPSThread \<Rightarrow> (cint \<times> 'k LPSThread) res" where
  "sys_newfstatat env dirfd pathp statbufp flags t =
     (case bufhost t statbufp sizeof_Stat 8 of
        None \<Rightarrow> Inr (- LINUX_EINVAL, t)
      | Some stat \<Rightarrow>
          (if flags AND LINUX_AT_EMPTY_PATH = 0 then
             (case pathcopyresolve env t pathp of
                (None, t) \<Rightarrow> Inr (- LINUX_EINVAL, t)
              | (Some host_path, t) \<Rightarrow>
                  (if dirfd \<noteq> LINUX_AT_FDCWD then Inr (- LINUX_EBADF, t)
                   else on_world (host_fstatat (ev_os env) LINUX_AT_FDCWD host_path stat flags) t))
           else
             with_file t dirfd (\<lambda>f. if_fn (f_stat f) t
               (call_kfn (f_stat f) (on_world (kstat_op (ev_os env) (th_files t) (f_dev f) stat) t)))))"

definition sys_fchmod :: "'k env \<Rightarrow> cint \<Rightarrow> u32 \<Rightarrow> 'k LPSThread \<Rightarrow> (cint \<times> 'k LPSThread) res" where
  "sys_fchmod env fd mode t =
     with_file t fd (\<lambda>f. if_fn (f_chmod f) t
       (call_kfn (f_chmod f) (on_world (kchmod (ev_os env) (th_files t) (f_dev f) mode) t)))"

definition sys_ftruncate :: "'k env \<Rightarrow> cint \<Rightarrow> u64 \<Rightarrow> 'k LPSThread \<Rightarrow> (cint \<times> 'k LPSThread) res" where
  "sys_ftruncate env fd len t =
     with_file t fd (\<lambda>f. if_fn (f_truncate f) t
       (call_kfn (f_truncate f) (on_world (kftruncate (ev_os env) (th_files t) (f_dev f) len) t)))"

definition sys_fchown :: "'k env \<Rightarrow> cint \<Rightarrow> u32 \<Rightarrow> u32 \<Rightarrow> 'k LPSThread \<Rightarrow> (cint \<times> 'k LPSThread) res" where
  "sys_fchown env fd owner grp t =
     with_file t fd (\<lambda>f. if_fn (f_chown f) t
       (call_kfn (f_chown f) (on_world (kfchown (ev_os env) (th_files t) (f_dev f) owner grp) t)))"

definition sys_fsync :: "'k env \<Rightarrow> cint \<Rightarrow> 'k LPSThread \<Rightarrow> (cint \<times> 'k LPSThread) res" where
  "sys_fsync env fd t =
     with_file t fd (\<lambda>f. if_fn (f_sync f) t
       (call_kfn (f_sync f) (on_world (ksync (ev_os env) (th_files t) (f_dev f)) t)))"

text \<open>The handlers that copy one path and hand it to the host.\<close>

definition path_call :: "'k env \<Rightarrow> u64 \<Rightarrow> (string \<Rightarrow> hostcall) \<Rightarrow> 'k LPSThread \<Rightarrow> (cint \<times> 'k LPSThread) res" where
  "path_call env pathp call t =
     (case pathcopyresolve env t pathp of
        (None, t) \<Rightarrow> Inr (- LINUX_EINVAL, t)
      | (Some host_path, t) \<Rightarrow> on_world (\<lambda>w. Inr (call_int (ev_os env) (call host_path) w)) t)"

definition sys_truncate :: "'k env \<Rightarrow> u64 \<Rightarrow> u64 \<Rightarrow> 'k LPSThread \<Rightarrow> (cint \<times> 'k LPSThread) res" where
  "sys_truncate env pathp len t = path_call env pathp (\<lambda>path. H_truncate path len) t"

definition sys_mkdirat :: "'k env \<Rightarrow> cint \<Rightarrow> u64 \<Rightarrow> u32 \<Rightarrow> 'k LPSThread \<Rightarrow> (cint \<times> 'k LPSThread) res" where
  "sys_mkdirat env dirfd pathp mode t =
     (if dirfd \<noteq> LINUX_AT_FDCWD then Inr (- LINUX_EBADF, t)
      else path_call env pathp (\<lambda>path. H_mkdir path mode) t)"

definition sys_unlinkat :: "'k env \<Rightarrow> cint \<Rightarrow> u64 \<Rightarrow> cint \<Rightarrow> 'k LPSThread \<Rightarrow> (cint \<times> 'k LPSThread) res" where
  "sys_unlinkat env dirfd pathp flags t =
     (if dirfd \<noteq> LINUX_AT_FDCWD then Inr (- LINUX_EBADF, t)
      else if flags \<noteq> 0 then Inr (- LINUX_EINVAL, t)
      else path_call env pathp H_unlink t)"

definition sys_renameat :: "'k env \<Rightarrow> cint \<Rightarrow> u64 \<Rightarrow> cint \<Rightarrow> u64 \<Rightarrow> 'k LPSThread \<Rightarrow> (cint \<times> 'k LPSThread) res" where
  "sys_renameat env olddir oldpathp newdir newpathp t =
     (if olddir \<noteq> LINUX_AT_FDCWD \<or> newdir \<noteq> LINUX_AT_FDCWD then Inr (- LINUX_EBADF, t)
      else
        (case pathcopyresolve env t oldpathp of
           (None, t) \<Rightarrow> Inr (- LINUX_EINVAL, t)
         | (Some old_host_path, t) \<Rightarrow> path_call env newpathp (\<lambda>new_host_path. H_rename old_host_path new_host_path) t))"

definition sys_renameat2 :: "'k env \<Rightarrow> cint \<Rightarrow> u64 \<Rightarrow> cint \<Rightarrow> u64 \<Rightarrow> u32 \<Rightarrow> 'k LPSThread \<Rightarrow> (cint \<times> 'k LPSThread) res" where
  "sys_renameat2 env olddir oldpathp newdir newpathp flags t =
     (if flags \<noteq> 0 then Inr (- LINUX_EINVAL, t)
      else sys_renameat env olddir oldpathp newdir newpathp t)"

definition accessmode :: "cint \<Rightarrow> cint" where
  "accessmode mode =
     (if mode = LINUX_F_OK then 0
      else
        (if mode AND LINUX_R_OK \<noteq> 0 then 4 else 0) OR (if mode AND LINUX_W_OK \<noteq> 0 then 2 else 0) OR
        (if mode AND LINUX_X_OK \<noteq> 0 then 1 else 0))"

definition sys_faccessat :: "'k env \<Rightarrow> cint \<Rightarrow> u64 \<Rightarrow> cint \<Rightarrow> 'k LPSThread \<Rightarrow> (cint \<times> 'k LPSThread) res" where
  "sys_faccessat env dirfd pathp mode t =
     (if dirfd \<noteq> LINUX_AT_FDCWD then Inr (- LINUX_EBADF, t)
      else path_call env pathp (\<lambda>path. H_access path (accessmode mode)) t)"

definition sys_readlinkat :: "'k env \<Rightarrow> cint \<Rightarrow> u64 \<Rightarrow> u64 \<Rightarrow> u64 \<Rightarrow> 'k LPSThread \<Rightarrow> (u64 \<times> 'k LPSThread) res" where
  "sys_readlinkat env dirfd pathp bufp sz t =
     (if dirfd \<noteq> LINUX_AT_FDCWD then Inr (- LINUX_EBADF, t)
      else
        (case pathcopyresolve env t pathp of
           (None, t) \<Rightarrow> Inr (- LINUX_EINVAL, t)
         | (Some host_path, t) \<Rightarrow>
             (case bufhost t bufp sz 1 of
                None \<Rightarrow> Inr (- LINUX_EINVAL, t)
              | Some buf \<Rightarrow> on_world (\<lambda>w. Inr (call_ssize (ev_os env) (H_readlink host_path buf sz) w)) t)))"

definition sys_dup :: "cint \<Rightarrow> 'k LPSThread \<Rightarrow> (cint \<times> 'k LPSThread) res" where
  "sys_dup oldfd t =
     rbind (fdfdup2 (th_files t) (pr_fds (th_proc t)) oldfd (- 1)) (\<lambda>(r, fh, fds). Inr (r, th_set_files t fh fds))"

definition sys_dup3 :: "cint \<Rightarrow> cint \<Rightarrow> cint \<Rightarrow> 'k LPSThread \<Rightarrow> (cint \<times> 'k LPSThread) res" where
  "sys_dup3 oldfd newfd flags t =
     (if flags \<noteq> 0 then Inr (- LINUX_EINVAL, t)
      else
        rbind (fdfdup2 (th_files t) (pr_fds (th_proc t)) oldfd newfd) (\<lambda>(r, fh, fds). Inr (r, th_set_files t fh fds)))"

section \<open>Memory (sys_mem.c)\<close>

definition sys_brk :: "'k env \<Rightarrow> u64 \<Rightarrow> 'k LPSThread \<Rightarrow> (u64 \<times> 'k LPSThread) res" where
  "sys_brk env addr t =
     (let p = th_proc t; brkp = pr_brkbase p + pr_brksize p in
      if addr \<noteq> 0 \<and> \<not> ptrcheck t addr then Inr (- 1, t)
      else
        (let brkp = (if addr \<noteq> 0 then addr else brkp);
             brkmaxsize = lo_brksize (pr_opts p);
             brkp = (if brkp < pr_brkbase p then pr_brkbase p else brkp);
             brkp = (if brkp \<ge> pr_brkbase p + brkmaxsize then pr_brkbase p + brkmaxsize else brkp);
             newsize = brkp - pr_brkbase p in
         rbind (rassert (newsize < brkmaxsize)) (\<lambda>_.
         if newsize = pr_brksize p then Inr (brkp, t)
         else
           (let flags = LINUX_MAP_PRIVATE OR LINUX_MAP_ANONYMOUS; prot = PROT_READ OR PROT_WRITE in
            rbind (if brkp \<ge> pr_brkbase p + pr_brksize p then
                     (if pr_brksize p = 0 then
                        lps_box_mapat (ev_vm env) (pr_box p) (pr_brkbase p) newsize prot flags (- 1) 0
                      else
                        (let next = ceilp (pr_brkbase p + pr_brksize p) (4 * 1024) in
                         lps_box_mapat (ev_vm env) (pr_box p) next (newsize - pr_brksize p) prot flags (- 1) 0))
                   else Inr (0, pr_box p)) (\<lambda>(mp, box).
            let p = p\<lparr>pr_box := box\<rparr> in
            if brkp \<ge> pr_brkbase p + pr_brksize p \<and> mp = - 1 then Inr (- 1, t\<lparr>th_proc := p\<rparr>)
            else Inr (pr_brkbase p + newsize, t\<lparr>th_proc := p\<lparr>pr_brksize := newsize\<rparr>\<rparr>))))))"

definition illegal_mask :: cint where
  "illegal_mask = NOT LINUX_MAP_ANONYMOUS AND NOT LINUX_MAP_PRIVATE AND NOT LINUX_MAP_NORESERVE AND
     NOT LINUX_MAP_DENYWRITE AND NOT LINUX_MAP_FIXED"

definition sys_mmap :: "'k env \<Rightarrow> u64 \<Rightarrow> u64 \<Rightarrow> cint \<Rightarrow> cint \<Rightarrow> cint \<Rightarrow> u64 \<Rightarrow> 'k LPSThread \<Rightarrow> (u64 \<times> 'k LPSThread) res" where
  "sys_mmap env addrp len prot flags fd off t =
     (if len = 0 then Inr (- LINUX_EINVAL, t)
      else
        (let len = ceilp len (4 * 1024) in
         if flags AND illegal_mask \<noteq> 0 then Inr (- LINUX_EINVAL, t)
         else if flags AND LINUX_MAP_FIXED \<noteq> 0 then
           (let addrp = truncp addrp (4 * 1024) in
            if \<not> ptrcheck t addrp then Inr (- 1, t)
            else
              rbind (proc_mapat (ev_vm env) (th_proc t) addrp len prot flags fd off) (\<lambda>(r, p).
              if sint r < 0 then Inr (int_to_u64 r, t\<lparr>th_proc := p\<rparr>) else Inr (addrp, t\<lparr>th_proc := p\<rparr>)))
         else
           rbind (proc_mapany (ev_vm env) (th_proc t) len prot flags fd off) (\<lambda>(r, addrp, p).
           if sint r < 0 then Inr (int_to_u64 r, t\<lparr>th_proc := p\<rparr>) else Inr (addrp, t\<lparr>th_proc := p\<rparr>))))"

definition sys_mprotect :: "'k env \<Rightarrow> u64 \<Rightarrow> u64 \<Rightarrow> cint \<Rightarrow> 'k LPSThread \<Rightarrow> (cint \<times> 'k LPSThread) res" where
  "sys_mprotect env addrp len prot t =
     (if \<not> ptrcheck t addrp then Inr (- 1, t)
      else
        rbind (lps_box_mprotect (ev_vm env) (pr_box (th_proc t)) addrp len prot) (\<lambda>(r, box).
        Inr (r, t\<lparr>th_proc := (th_proc t)\<lparr>pr_box := box\<rparr>\<rparr>)))"

definition sys_munmap :: "'k env \<Rightarrow> u64 \<Rightarrow> u64 \<Rightarrow> 'k LPSThread \<Rightarrow> (cint \<times> 'k LPSThread) res" where
  "sys_munmap env addrp len t =
     (if \<not> ptrcheck t addrp then Inr (- 1, t)
      else
        rbind (proc_unmap (ev_vm env) (th_proc t) addrp len) (\<lambda>(r, p). Inr (r, t\<lparr>th_proc := p\<rparr>)))"

section \<open>Working directory (sys_cwd.c, proc.c)\<close>

text \<open>
  \<open>cwd.path\<close> has room for \<open>FILENAME_MAX\<close> characters. The library writes its result over the whole buffer
  \<open>joined\<close> up to the terminating zero, so what the buffer held before does not matter.
\<close>

definition proc_chdir :: "'k LPSProc \<Rightarrow> string \<Rightarrow> (cint \<times> 'k LPSProc) res" where
  "proc_chdir p path =
     (if cwk_path_is_absolute CWK_STYLE_UNIX path then Inr (0, p\<lparr>pr_cwd := take (FILENAME_MAX - 1) path\<rparr>)
      else if pr_cwd p = [] then Inr (- LINUX_ENOENT, p)
      else
        rbind (cwk_path_join CWK_STYLE_UNIX (pr_cwd p) path (replicate FILENAME_MAX NUL)) (\<lambda>(_, joined).
        Inr (0, p\<lparr>pr_cwd := take (FILENAME_MAX - 1) (takeWhile (\<lambda>c. c \<noteq> NUL) joined)\<rparr>)))"

definition sys_chdir :: "'k env \<Rightarrow> u64 \<Rightarrow> 'k LPSThread \<Rightarrow> (cint \<times> 'k LPSThread) res" where
  "sys_chdir env pathp t =
     (case pathcopy env t pathp of
        (None, t) \<Rightarrow> Inr (- LINUX_EINVAL, t)
      | (Some path, t) \<Rightarrow> rbind (proc_chdir (th_proc t) path) (\<lambda>(r, p). Inr (r, t\<lparr>th_proc := p\<rparr>)))"

definition sys_fchdir :: "cint \<Rightarrow> 'k LPSThread \<Rightarrow> (cint \<times> 'k LPSThread) res" where
  "sys_fchdir fd t =
     with_file t fd (\<lambda>f.
       rbind (initialised (f_path f)) (\<lambda>dir.
       case dir of
         None \<Rightarrow> Inr (- LINUX_ENOTDIR, t)
       | Some dir \<Rightarrow> rbind (proc_chdir (th_proc t) dir) (\<lambda>(r, p). Inr (r, t\<lparr>th_proc := p\<rparr>))))"

text \<open>
  \<open>MIN\<close> works on \<open>int\<close>; its result, as a length, is what \<open>memcpy\<close> copies out of the \<open>FILENAME_MAX\<close> bytes of
  \<open>cwd.path\<close>. The last byte is then written at index \<open>len - 1\<close>.
\<close>

definition sys_getcwd :: "u64 \<Rightarrow> u64 \<Rightarrow> 'k LPSThread \<Rightarrow> (u64 \<times> 'k LPSThread) res" where
  "sys_getcwd bufp sz t =
     (if sz = 0 then Inr (0, t)
      else
        (case bufhost t bufp sz 1 of
           None \<Rightarrow> Inr (- LINUX_EINVAL, t)
         | Some buf \<Rightarrow>
             (let cwd = pr_cwd (th_proc t);
                  len = int_to_u64 (c_MIN (ucast sz) (of_nat (length cwd + 1)));
                  bytes = map (\<lambda>c. of_nat (of_char c)) cwd @ [0] in
              if unat len > length bytes then Inl OutOfBounds
              else
                Inr (len, t\<lparr>th_proc := pr_set_mem (th_proc t)
                  (store_bytes (buf + len - 1) [0] \<circ> store_bytes buf (take (unat len) bytes))\<rparr>))))"

section \<open>Information (sys_info.c, sys_ioctl.c, sys_time.c, sys_rand.c)\<close>

abbreviation sizeof_SysInfo :: u64 where "sizeof_SysInfo \<equiv> 368"

text \<open>The assignment of a whole structure sets every member that is not named to zero.\<close>

definition sys_sysinfo :: "'k env \<Rightarrow> u64 \<Rightarrow> 'k LPSThread \<Rightarrow> (cint \<times> 'k LPSThread) res" where
  "sys_sysinfo env infop t =
     (case bufhost t infop sizeof_SysInfo 8 of
        None \<Rightarrow> Inr (- LINUX_EINVAL, t)
      | Some info \<Rightarrow>
          (case ev_os env H_sysinfo (th_world t) of
             (r, w) \<Rightarrow>
               (let t = th_set_world t w; k = hr_sysinfo r in
                if sint (ucast (hr_ret r) :: cint) < 0 then Inr (host_err (hr_errno r), t)
                else
                  (case ki_loads k of (l0, l1, l2) \<Rightarrow>
                    Inr (0, th_store t info
                      ([(8 * i, 8, 0). i \<leftarrow> [0 ..< 46]] @
                       [(0, 8, ki_uptime k), (32, 8, ki_totalram k), (40, 8, ki_freeram k), (48, 8, ki_sharedram k),
                        (56, 8, ki_bufferram k), (64, 8, ki_totalswap k), (72, 8, ki_freeswap k),
                        (80, 2, ucast (ki_procs k)), (88, 8, ki_totalhigh k), (96, 8, ki_freehigh k),
                        (104, 4, ucast (ki_mem_unit k)), (8, 8, l0), (16, 8, l1), (24, 8, l2)]))))))"

abbreviation UTSNAME_LENGTH :: nat where "UTSNAME_LENGTH \<equiv> 65"

text \<open>\<open>strcpy\<close> of a literal: its characters and a terminating zero.\<close>

definition str_fields :: "nat \<Rightarrow> string \<Rightarrow> (nat \<times> nat \<times> u64) list" where
  "str_fields off s = map (\<lambda>i. (off + i, 1, if i < length s then of_nat (of_char (s ! i)) else 0)) [0 ..< length s + 1]"

definition sys_uname :: "u64 \<Rightarrow> 'k LPSThread \<Rightarrow> (cint \<times> 'k LPSThread) res" where
  "sys_uname bufp t =
     (case bufhost t bufp (5 * of_nat UTSNAME_LENGTH) 1 of
        None \<Rightarrow> Inr (- LINUX_EINVAL, t)
      | Some uts \<Rightarrow>
          Inr (0, th_store t uts
            (str_fields 0 ''Linux LPS'' @ str_fields UTSNAME_LENGTH ''lps-sandbox'' @
             str_fields (2 * UTSNAME_LENGTH) ''4.5.0-lps'' @ str_fields (3 * UTSNAME_LENGTH) ''0.0.0-unknown'' @
             str_fields (4 * UTSNAME_LENGTH) ''riscv64'')))"

abbreviation (input) LINUX_RLIMIT_DATA :: cint where "LINUX_RLIMIT_DATA \<equiv> 2"
abbreviation (input) LINUX_RLIMIT_STACK :: cint where "LINUX_RLIMIT_STACK \<equiv> 3"
abbreviation (input) LINUX_RLIMIT_CORE :: cint where "LINUX_RLIMIT_CORE \<equiv> 4"
abbreviation (input) LINUX_RLIMIT_RSS :: cint where "LINUX_RLIMIT_RSS \<equiv> 5"
abbreviation (input) LINUX_RLIMIT_NOFILE :: cint where "LINUX_RLIMIT_NOFILE \<equiv> 7"
abbreviation (input) LINUX_RLIMIT_AS :: cint where "LINUX_RLIMIT_AS \<equiv> 9"

definition sys_getrlimit :: "cint \<Rightarrow> u64 \<Rightarrow> 'k LPSThread \<Rightarrow> (cint \<times> 'k LPSThread) res" where
  "sys_getrlimit resource rlimp t =
     (case bufhost t rlimp 16 8 of
        None \<Rightarrow> Inr (- LINUX_EINVAL, t)
      | Some rlim \<Rightarrow>
          (let put = (\<lambda>v. Inr (0, th_store t rlim [(8, 8, v), (0, 8, v)])); boxsize = bi_size (pr_boxinfo (th_proc t)) in
           if resource = LINUX_RLIMIT_STACK then put (th_stack_size t)
           else if resource = LINUX_RLIMIT_AS then put boxsize
           else if resource = LINUX_RLIMIT_CORE then put 0
           else if resource = LINUX_RLIMIT_RSS then put boxsize
           else if resource = LINUX_RLIMIT_DATA then put boxsize
           else if resource = LINUX_RLIMIT_NOFILE then put (of_nat LINUX_NOFILE)
           else Inr (- LINUX_EINVAL, t)))"

text \<open>The host's \<open>TIOCGWINSZ\<close> is the one of Linux. On failure the handler returns the host's \<open>errno\<close> untranslated.\<close>

abbreviation (input) LINUX_TIOCGWINSZ :: u64 where "LINUX_TIOCGWINSZ \<equiv> 0x5413"

definition sys_ioctl :: "'k env \<Rightarrow> cint \<Rightarrow> u64 \<Rightarrow> u64 \<Rightarrow> 'k LPSThread \<Rightarrow> (cint \<times> 'k LPSThread) res" where
  "sys_ioctl env fd request va0 t =
     (if request \<noteq> LINUX_TIOCGWINSZ then Inr (- LINUX_EINVAL, t)
      else if \<not> bufcheck t va0 8 2 then Inr (- LINUX_EINVAL, t)
      else
        with_file t fd (\<lambda>f. if_fn (f_ioctl f) t
          (call_kfn (f_ioctl f)
            (rbind (kioctl (ev_os env) (th_files t) (f_dev f) LINUX_TIOCGWINSZ (th_world t)) (\<lambda>(e, r, w).
             let t = th_set_world t w; ws = hr_winsize r in
             if e \<noteq> 0 then Inr (- hr_errno r, t)
             else
               Inr (0, th_store t va0
                 [(0, 2, ucast (kw_row ws)), (2, 2, ucast (kw_col ws)), (4, 2, ucast (kw_xpixel ws)), (6, 2, ucast (kw_ypixel ws))]))))))"

text \<open>
  The host's \<open>nanosleep\<close> fills in the remaining time only when it is interrupted, and then it fails. After
  a complete sleep the code copies the local variable it was never stored in.
\<close>

definition sys_nanosleep :: "'k env \<Rightarrow> u64 \<Rightarrow> u64 \<Rightarrow> 'k LPSThread \<Rightarrow> (cint \<times> 'k LPSThread) res" where
  "sys_nanosleep env reqp remp t =
     (case bufhost t reqp 16 8 of
        None \<Rightarrow> Inr (- LINUX_EINVAL, t)
      | Some req \<Rightarrow>
          (let m = w_mem (th_world t);
               sec = le_word (load_bytes req 8 m); nsec = le_word (load_bytes (req + 8) 8 m) in
           case ev_os env (H_nanosleep sec nsec) (th_world t) of
             (r, w) \<Rightarrow>
               (let t = th_set_world t w; ret = ucast (hr_ret r) :: cint in
                if sint ret < 0 then Inr (host_err (hr_errno r), t)
                else if remp \<noteq> 0 then
                  (case bufhost t remp 16 8 of
                     None \<Rightarrow> Inr (- LINUX_EFAULT, t)
                   | Some _ \<Rightarrow> Inl Uninitialised)
                else Inr (ret, t))))"

definition sys_clock_gettime :: "'k env \<Rightarrow> cint \<Rightarrow> u64 \<Rightarrow> 'k LPSThread \<Rightarrow> (cint \<times> 'k LPSThread) res" where
  "sys_clock_gettime env clockid tp t =
     (case bufhost t tp 16 8 of
        None \<Rightarrow> Inr (- LINUX_EFAULT, t)
      | Some ts \<Rightarrow>
          (case ev_os env (H_clock_gettime clockid) (th_world t) of
             (r, w) \<Rightarrow>
               (let t = th_set_world t w in
                if sint (ucast (hr_ret r) :: cint) < 0 then Inr (host_err (hr_errno r), t)
                else Inr (0, th_store t ts [(0, 8, fst (hr_time r)), (8, 8, snd (hr_time r))]))))"

definition sys_getrandom :: "'k env \<Rightarrow> u64 \<Rightarrow> u64 \<Rightarrow> u32 \<Rightarrow> 'k LPSThread \<Rightarrow> (u64 \<times> 'k LPSThread) res" where
  "sys_getrandom env bufp buflen flags t =
     (case bufhost t bufp buflen 1 of
        None \<Rightarrow> Inr (- LINUX_EINVAL, t)
      | Some buf \<Rightarrow>
          (if flags AND (NOT LINUX_GRND_RANDOM AND NOT LINUX_GRND_NONBLOCK) \<noteq> 0 then Inr (- LINUX_EINVAL, t)
           else on_world (\<lambda>w. Inr (host_getrandom (ev_os env) buf buflen flags w)) t))"

section \<open>Threads and the rest (sys_thread.c, sys_ptrctl.c, sys_none.c, sys_passthrough.c)\<close>

definition sys_set_tid_address :: "u64 \<Rightarrow> 'k LPSThread \<Rightarrow> (cint \<times> 'k LPSThread) res" where
  "sys_set_tid_address ctid t =
     (if \<not> ptrcheck t ctid then Inr (- LINUX_EINVAL, t)
      else Inr (th_tid t, t\<lparr>th_ctidp := ctid\<rparr>))"

definition sys_gettid :: "'k LPSThread \<Rightarrow> (cint \<times> 'k LPSThread) res" where
  "sys_gettid t = Inr (th_tid t, t)"

definition pr_set_name :: "u64 \<Rightarrow> 'k LPSThread \<Rightarrow> (cint \<times> 'k LPSThread) res" where
  "pr_set_name namep t =
     (case bufhost t namep 16 1 of
        None \<Rightarrow> Inr (- LINUX_EINVAL, t)
      | Some _ \<Rightarrow> Inr (0, t))"

definition sys_prctl :: "cint \<Rightarrow> u64 \<Rightarrow> 'k LPSThread \<Rightarrow> (cint \<times> 'k LPSThread) res" where
  "sys_prctl op arg2 t = (if op = LINUX_PR_SET_NAME then pr_set_name arg2 t else Inr (- LINUX_EINVAL, t))"

definition sys_ignore :: "'k LPSThread \<Rightarrow> (u64 \<times> 'k LPSThread) res" where
  "sys_ignore t = Inr (0, t)"

definition sys_nosys :: "'k LPSThread \<Rightarrow> (u64 \<times> 'k LPSThread) res" where
  "sys_nosys t = Inr (- LINUX_ENOSYS, t)"

definition sys_passthrough :: "'k env \<Rightarrow> u64 \<Rightarrow> u64 list \<Rightarrow> 'k LPSThread \<Rightarrow> (u64 \<times> 'k LPSThread) res" where
  "sys_passthrough env sysno args t = on_world (\<lambda>w. Inr (call_ssize (ev_os env) (H_syscall sysno args) w)) t"

section \<open>Ending and yielding (sys_proc.c, sys_rtcall.c)\<close>

text \<open>
  How a handler ends: it returns to the sandbox, switches to the host first and returns when the thread
  runs again, or never returns.
\<close>

datatype sysret = Returned u64 | Yielded u64 | Exited

definition sys_exit :: "'k env \<Rightarrow> 'k LPSThread \<Rightarrow> (sysret \<times> 'k LPSThread) res" where
  "sys_exit env t =
     (let t = t\<lparr>th_state := THREAD_EXITED\<rparr> in
      rbind (fdfree (ev_os env) (ev_dev env) (pr_fds (th_proc t)) (th_files t) (th_world t)) (\<lambda>(fds, fh, w).
      Inr (Exited, th_set_world (th_set_files t fh fds) w)))"

definition sys_exit_group :: "'k env \<Rightarrow> 'k LPSThread \<Rightarrow> (sysret \<times> 'k LPSThread) res" where
  "sys_exit_group env t =
     (let t = t\<lparr>th_state := THREAD_EXITED\<rparr> in
      rbind (fdfree (ev_os env) (ev_dev env) (pr_fds (th_proc t)) (th_files t) (th_world t)) (\<lambda>(fds, fh, w).
      Inr (Exited, th_set_world (th_set_files t fh fds) w)))"

definition sys_runtime_call :: "cint \<Rightarrow> 'k LPSThread \<Rightarrow> (sysret \<times> 'k LPSThread) res" where
  "sys_runtime_call typ t =
     (if typ = 0 then Inr (Yielded 0, t) else Inr (Returned (int_to_u64 (- LINUX_EINVAL)), t))"

section \<open>The dispatcher (sys.c)\<close>

text \<open>The value of a handler is converted to \<open>uintptr_t\<close>; an \<open>int\<close> is sign-extended.\<close>

definition ret_word :: "('k LPSThread \<Rightarrow> (u64 \<times> 'k LPSThread) res) \<Rightarrow> 'k LPSThread \<Rightarrow> (sysret \<times> 'k LPSThread) res" where
  "ret_word h t = rbind (h t) (\<lambda>(v, t). Inr (Returned v, t))"

definition ret_int :: "('k LPSThread \<Rightarrow> (cint \<times> 'k LPSThread) res) \<Rightarrow> 'k LPSThread \<Rightarrow> (sysret \<times> 'k LPSThread) res" where
  "ret_int h t = rbind (h t) (\<lambda>(v, t). Inr (Returned (int_to_u64 v), t))"

text \<open>The two \<open>switch\<close> statements as tables of their cases.\<close>

type_synonym 'k cases = "(u64 \<times> ('k LPSThread \<Rightarrow> (sysret \<times> 'k LPSThread) res)) list"

definition own_cases :: "'k env \<Rightarrow> u64 \<Rightarrow> u64 \<Rightarrow> u64 \<Rightarrow> u64 \<Rightarrow> u64 \<Rightarrow> u64 \<Rightarrow> 'k cases" where
  "own_cases env a0 a1 a2 a3 a4 a5 =
    [(SYS_brk, ret_word (sys_brk env a0)),
     (SYS_mmap, ret_word (sys_mmap env a0 a1 (ucast a2) (ucast a3) (ucast a4) a5)),
     (SYS_mprotect, ret_int (sys_mprotect env a0 a1 (ucast a2))),
     (SYS_munmap, ret_int (sys_munmap env a0 a1)),
     (SYS_clone, ret_word sys_nosys),
     (SYS_exit_group, sys_exit_group env),
     (SYS_exit, sys_exit env),
     (LPS_SYS_runtime_call, sys_runtime_call (ucast a0))]"

definition linux_cases :: "'k env \<Rightarrow> u64 \<Rightarrow> u64 \<Rightarrow> u64 \<Rightarrow> u64 \<Rightarrow> u64 \<Rightarrow> u64 \<Rightarrow> 'k cases" where
  "linux_cases env a0 a1 a2 a3 a4 a5 =
    [(SYS_getpid, ret_word (\<lambda>t. Inr (0, t))),
     (SYS_write, ret_word (sys_write env (ucast a0) a1 a2)),
     (SYS_writev, ret_word (sys_writev env (ucast a0) a1 a2)),
     (SYS_read, ret_word (sys_read env (ucast a0) a1 a2)),
     (SYS_readv, ret_word (sys_readv env (ucast a0) a1 a2)),
     (SYS_openat, ret_int (sys_openat env (ucast a0) a1 (ucast a2) (ucast a3))),
     (SYS_close, ret_int (sys_close (ucast a0))),
     (SYS_gettid, ret_int sys_gettid),
     (SYS_futex, ret_word sys_nosys),
     (SYS_set_tid_address, ret_int (sys_set_tid_address a0)),
     (SYS_sched_getaffinity, ret_word sys_nosys),
     (SYS_sched_setaffinity, ret_word sys_nosys),
     (SYS_sched_yield, ret_word sys_nosys),
     (SYS_rt_sigaction, ret_word sys_ignore),
     (SYS_rt_sigprocmask, ret_word sys_ignore),
     (SYS_rt_sigreturn, ret_word sys_ignore),
     (SYS_sigaltstack, ret_word sys_ignore),
     (SYS_lseek, ret_word (sys_lseek env (ucast a0) a1 (ucast a2))),
     (SYS_pread64, ret_word (sys_pread64 env (ucast a0) a1 a2 a3)),
     (SYS_getdents64, ret_word (sys_getdents64 env (ucast a0) a1 a2)),
     (SYS_newfstatat, ret_int (sys_newfstatat env (ucast a0) a1 a2 (ucast a3))),
     (SYS_fstat, ret_int (sys_newfstatat env (ucast a0) 0 a1 LINUX_AT_EMPTY_PATH)),
     (SYS_fchmod, ret_int (sys_fchmod env (ucast a0) (ucast a1))),
     (SYS_truncate, ret_int (sys_truncate env a0 a1)),
     (SYS_ftruncate, ret_int (sys_ftruncate env (ucast a0) a1)),
     (SYS_fchown, ret_int (sys_fchown env (ucast a0) (ucast a1) (ucast a2))),
     (SYS_fsync, ret_int (sys_fsync env (ucast a0))),
     (SYS_mkdirat, ret_int (sys_mkdirat env (ucast a0) a1 (ucast a2))),
     (SYS_unlinkat, ret_int (sys_unlinkat env (ucast a0) a1 (ucast a2))),
     (SYS_renameat2, ret_int (sys_renameat2 env (ucast a0) a1 (ucast a2) a3 (ucast a4))),
     (SYS_faccessat, ret_int (sys_faccessat env (ucast a0) a1 (ucast a2))),
     (SYS_readlinkat, ret_word (sys_readlinkat env (ucast a0) a1 a2 a3)),
     (SYS_dup, ret_int (sys_dup (ucast a0))),
     (SYS_dup3, ret_int (sys_dup3 (ucast a0) (ucast a1) (ucast a2))),
     (SYS_chdir, ret_int (sys_chdir env a0)),
     (SYS_fchdir, ret_int (sys_fchdir (ucast a0))),
     (SYS_getcwd, ret_word (sys_getcwd a0 a1)),
     (SYS_nanosleep, ret_int (sys_nanosleep env a0 a1)),
     (SYS_clock_gettime, ret_int (sys_clock_gettime env (ucast a0) a1)),
     (SYS_getrandom, ret_word (sys_getrandom env a0 a1 (ucast a2))),
     (SYS_ioctl, ret_int (sys_ioctl env (ucast a0) a1 a2)),
     (SYS_fcntl, ret_word sys_ignore),
     (SYS_prctl, ret_int (sys_prctl (ucast a0) a1)),
     (SYS_uname, ret_int (sys_uname a0)),
     (SYS_sysinfo, ret_int (sys_sysinfo env a0)),
     (SYS_getrlimit, ret_int (sys_getrlimit (ucast a0) a1)),
     (SYS_set_robust_list, ret_word sys_ignore),
     (SYS_membarrier, ret_word sys_ignore),
     (SYS_madvise, ret_word sys_ignore),
     (SYS_getrusage, ret_word sys_ignore),
     (SYS_statx, ret_word sys_nosys),
     (SYS_rseq, ret_word sys_nosys),
     (SYS_prlimit64, ret_word sys_nosys),
     (SYS_statfs, ret_word sys_nosys),
     (SYS_getxattr, ret_word sys_nosys),
     (SYS_lgetxattr, ret_word sys_nosys),
     (SYS_socket, ret_word sys_nosys),
     (SYS_mremap, ret_word sys_nosys),
     (SYS_utimensat, ret_word sys_nosys),
     (SYS_memfd_create, ret_word sys_nosys)]"

text \<open>An unknown call ends the whole program.\<close>

definition syshandle ::
  "'k env \<Rightarrow> u64 \<Rightarrow> u64 \<Rightarrow> u64 \<Rightarrow> u64 \<Rightarrow> u64 \<Rightarrow> u64 \<Rightarrow> u64 \<Rightarrow> 'k LPSThread \<Rightarrow> (sysret \<times> 'k LPSThread) res" where
  "syshandle env sysno a0 a1 a2 a3 a4 a5 t =
     (case map_of (own_cases env a0 a1 a2 a3 a4 a5) sysno of
        Some h \<Rightarrow> h t
      | None \<Rightarrow>
          (if lo_passthrough (pr_opts (th_proc t)) then
             ret_word (sys_passthrough env sysno [a0, a1, a2, a3, a4, a5]) t
           else
             (case map_of (linux_cases env a0 a1 a2 a3 a4 a5) sysno of
                Some h \<Rightarrow> h t
              | None \<Rightarrow> Inl ProcessExit)))"

text \<open>
  The trap handler. \<open>ticks\<close> is the cycle counter; the second component is what is written to the timer
  comparison register, if anything. The registers of the thread are those it continues with.
\<close>

definition th_regs :: "'k LPSThread \<Rightarrow> LPSRegs" where
  "th_regs t = cx_regs (th_ctx t)"

definition th_set_regs :: "'k LPSThread \<Rightarrow> LPSRegs \<Rightarrow> 'k LPSThread" where
  "th_set_regs t regs = t\<lparr>th_ctx := (th_ctx t)\<lparr>cx_regs := regs\<rparr>\<rparr>"

definition arch_syshandle :: "'k env \<Rightarrow> u64 \<Rightarrow> 'k LPSThread \<Rightarrow> (sysret \<times> u64 option \<times> 'k LPSThread) res" where
  "arch_syshandle env ticks t =
     (let regs = th_regs t in
      if ucause regs = CAUSE_IRQ_U_TIME then Inr (Yielded (r_a0 regs), Some (ticks + 10000000), t)
      else
        rbind (rassert (ucause regs = CAUSE_DASICS_U_CHECK_FAULT)) (\<lambda>_.
        if dfreason regs \<noteq> DFR_EF then Inl AssertFail
        else
          (let t = th_set_regs t (regs\<lparr>uepc := uepc regs + 4\<rparr>) in
           rbind (syshandle env (r_a7 regs) (r_a0 regs) (r_a1 regs) (r_a2 regs) (r_a3 regs) (r_a4 regs) (r_a5 regs) t) (\<lambda>(r, t).
           case r of
             Exited \<Rightarrow> Inr (r, None, t)
           | Returned v \<Rightarrow> Inr (r, None, th_set_regs t ((th_regs t)\<lparr>r_a0 := v\<rparr>))
           | Yielded v \<Rightarrow> Inr (r, None, th_set_regs t ((th_regs t)\<lparr>r_a0 := v\<rparr>))))))"

end
