(* ===== verification/Frame.thy ===== *)
theory Frame
  imports Prelude
begin

text \<open>
  Operations that work on a good state and keep what has to be kept. \<open>keeps kept s r\<close> says so of one
  result: if the operation that was started in s comes to an end, then in a state to which s is related.
  \<open>finishes kept s r\<close> says that it does come to such an end.
  The locale \<open>frame\<close> is the contract between the relation and the good states: under it operations can
  be put together, one after the other, in a sequence of requests, or as the steps of a machine.
\<close>

definition keeps :: "('s \<Rightarrow> 's \<Rightarrow> bool) \<Rightarrow> 's \<Rightarrow> ('v \<times> 's) res \<Rightarrow> bool" where
  "keeps kept s r \<longleftrightarrow> (\<forall>v s'. r = Inr (v, s') \<longrightarrow> kept s s')"

lemma keeps_fault: "keeps kept s (Inl e)"
  by (simp add: keeps_def)

lemma keeps_end: "kept s s' \<Longrightarrow> keeps kept s (Inr (v, s'))"
  by (simp add: keeps_def)

definition finishes :: "('s \<Rightarrow> 's \<Rightarrow> bool) \<Rightarrow> 's \<Rightarrow> ('v \<times> 's) res \<Rightarrow> bool" where
  "finishes kept s r \<longleftrightarrow> (\<exists>v s'. r = Inr (v, s') \<and> kept s s')"

lemma finishes_end: "kept s s' \<Longrightarrow> finishes kept s (Inr (v, s'))"
  by (simp add: finishes_def)

lemma finishes_keeps: "finishes kept s r \<Longrightarrow> keeps kept s r"
  by (auto simp: finishes_def keeps_def)

locale frame =
  fixes good :: "'s \<Rightarrow> bool"
    and kept :: "'s \<Rightarrow> 's \<Rightarrow> bool"
  assumes refl: "good s \<Longrightarrow> kept s s"
    and trans: "kept s s' \<Longrightarrow> kept s' s'' \<Longrightarrow> kept s s''"
    and good: "kept s s' \<Longrightarrow> good s \<Longrightarrow> good s'"
begin

lemma keeps_return: "good s \<Longrightarrow> keeps kept s (Inr (v, s))"
  by (simp add: keeps_def refl)

lemma keeps_after: "kept s s' \<Longrightarrow> keeps kept s' r \<Longrightarrow> keeps kept s r"
  using trans by (auto simp: keeps_def)

lemma keeps_rbind:
  assumes "good s" "keeps kept s r" "\<And>v s'. good s' \<Longrightarrow> kept s s' \<Longrightarrow> keeps kept s' (f (v, s'))"
  shows "keeps kept s (rbind r f)"
proof (cases r)
  case (Inr x)
  obtain v s' where x: "x = (v, s')" by (cases x)
  have k: "kept s s'" using assms(2) Inr x by (simp add: keeps_def)
  then have "keeps kept s' (f (v, s'))" using assms(1,3) good by blast
  then show ?thesis using keeps_after [OF k] Inr x by simp
qed (simp add: keeps_fault)

lemma finishes_return: "good s \<Longrightarrow> finishes kept s (Inr (v, s))"
  by (simp add: finishes_def refl)

lemma finishes_rbind:
  assumes "good s" "finishes kept s r" "\<And>v s'. good s' \<Longrightarrow> kept s s' \<Longrightarrow> finishes kept s' (f (v, s'))"
  shows "finishes kept s (rbind r f)"
proof -
  obtain v s' where r: "r = Inr (v, s')" "kept s s'" using assms(2) by (auto simp: finishes_def)
  then have "finishes kept s' (f (v, s'))" using assms(1,3) good by blast
  then show ?thesis using r trans by (auto simp: finishes_def)
qed

lemma keeps_requests:
  assumes "\<And>r s. r \<in> set rs \<Longrightarrow> good s \<Longrightarrow> keeps kept s (exec r s)"
  shows "good s \<Longrightarrow> keeps kept s (run_reqs exec rs s)"
  using assms
proof (induction rs arbitrary: s)
  case Nil
  then show ?case by (simp add: keeps_return)
next
  case (Cons r rs)
  have rest: "keeps kept s' (rbind (run_reqs exec rs s') (\<lambda>(vs, s). Inr (v # vs, s)))" if g: "good s'" for v s'
    by (rule keeps_rbind [OF g]) (use Cons g keeps_return in auto)
  show ?case unfolding run_reqs.simps
    by (rule keeps_rbind [OF Cons.prems(1)]) (use Cons.prems rest in simp_all)
qed

lemma kept_steps:
  assumes "\<And>x y. step x y \<Longrightarrow> good x \<Longrightarrow> kept x y"
  shows "step\<^sup>*\<^sup>* s s' \<Longrightarrow> good s \<Longrightarrow> kept s s'"
proof (induction rule: rtranclp_induct)
  case base
  then show ?case by (rule refl)
next
  case (step y z)
  have "good y" using good step.IH step.prems by blast
  then show ?case using trans [OF step.IH [OF step.prems]] assms [OF step.hyps(2)] by blast
qed

end

end
