(* ===== verification/Sys_Spec.thy ===== *)
theory Sys_Spec
  imports Sys Confine Frame
begin

text \<open>
  What the system call interface guarantees. A handler that returns leaves the thread well formed and
  keeps every property of kernel and memory that nothing inside the sandbox can break; the hypotheses
  say what the host, its kernel calls and the pipes do with the buffers they are handed. The lemmas
  about the building blocks of handlers carry the property from the guards of \<open>sys.h\<close> to the dispatcher.
\<close>

section \<open>Hypotheses\<close>

text \<open>The buffer of a kernel call.\<close>

fun call_buf :: "hostcall \<Rightarrow> (u64 \<times> u64) option" where
  "call_buf (H_read fd a n) = Some (a, n)"
| "call_buf (H_write fd a n) = Some (a, n)"
| "call_buf (H_getdents64 fd a n) = Some (a, n)"
| "call_buf (H_readlink path a n) = Some (a, n)"
| "call_buf (H_getrandom a n flags) = Some (a, n)"
| "call_buf _ = None"

text \<open>
  A buffer inside the range lo to hi, or one that runs over the end of the address space, which the
  kernel refuses (\<open>EFAULT\<close>).
\<close>

definition buf_in :: "nat \<Rightarrow> nat \<Rightarrow> u64 \<Rightarrow> u64 \<Rightarrow> bool" where
  "buf_in lo hi a n \<longleftrightarrow> lo \<le> unat a \<and> unat a < hi \<and> (unat a + unat n \<le> hi \<or> 2 ^ 64 < unat a + unat n)"

definition os_keeps :: "'k hostos \<Rightarrow> nat \<Rightarrow> nat \<Rightarrow> ('k world \<Rightarrow> bool) \<Rightarrow> bool" where
  "os_keeps ho lo hi I \<longleftrightarrow>
     (\<forall>c w. I w \<and> (\<forall>n args. c \<noteq> H_syscall n args) \<and> (\<forall>a n. call_buf c = Some (a, n) \<longrightarrow> buf_in lo hi a n) \<longrightarrow>
        I (snd (ho c w)))"

definition dev_keeps :: "'k devops \<Rightarrow> nat \<Rightarrow> nat \<Rightarrow> ('k world \<Rightarrow> bool) \<Rightarrow> bool" where
  "dev_keeps dv lo hi I \<longleftrightarrow>
     (\<forall>dev a n w r w'. I w \<and> buf_in lo hi a n \<and> (dv_read dv dev a n w = Inr (r, w') \<or> dv_write dv dev a n w = Inr (r, w')) \<longrightarrow> I w') \<and>
     (\<forall>dev w r w'. I w \<and> dv_close dv dev w = Inr (r, w') \<longrightarrow> I w')"

definition malloc_keeps :: "'k world hostvm \<Rightarrow> ('k world \<Rightarrow> bool) \<Rightarrow> bool" where
  "malloc_keeps hv I \<longleftrightarrow> (\<forall>n w. I w \<longrightarrow> I (snd (hv_malloc hv n w)))"

section \<open>Well-formed threads\<close>

definition brk_ok :: "'k LPSProc \<Rightarrow> bool" where
  "brk_ok p \<longleftrightarrow> 2 ^ 12 dvd unat (pr_brkbase p) \<and> box_lo (pr_box p) \<le> unat (pr_brkbase p) \<and>
     unat (pr_brkbase p) + unat (lo_brksize (pr_opts p)) \<le> box_hi (pr_box p) \<and>
     pr_brksize p \<le> lo_brksize (pr_opts p)"

definition th_ok :: "'k LPSThread \<Rightarrow> bool" where
  "th_ok t \<longleftrightarrow> proc_ok (th_proc t) \<and> brk_ok (th_proc t) \<and> length (pr_fds (th_proc t)) = LINUX_NOFILE \<and>
     length (pr_cwd (th_proc t)) < FILENAME_MAX"

abbreviation th_box :: "'k LPSThread \<Rightarrow> 'k world LPSBox" where
  "th_box t \<equiv> pr_box (th_proc t)"

text \<open>A sandbox lies in the user half of a 48 bit address space, as every \<open>mmap\<close> of the host does.\<close>

definition th_confined :: "'k env \<Rightarrow> ('k world \<Rightarrow> bool) \<Rightarrow> 'k LPSThread \<Rightarrow> bool" where
  "th_confined env I t \<longleftrightarrow> th_ok t \<and> proc_confined (ev_vm env) I (th_proc t) \<and> box_hi (th_box t) \<le> 2 ^ 47 \<and>
     malloc_keeps (ev_vm env) I \<and> os_keeps (ev_os env) (box_lo (th_box t)) (box_hi (th_box t)) I \<and>
     dev_keeps (ev_dev env) (box_lo (th_box t)) (box_hi (th_box t)) I"

text \<open>What a handler keeps.\<close>

definition th_kept :: "('k world \<Rightarrow> bool) \<Rightarrow> 'k LPSThread \<Rightarrow> 'k LPSThread \<Rightarrow> bool" where
  "th_kept I t t' \<longleftrightarrow> th_ok t' \<and> proc_kept I (th_proc t) (th_proc t') \<and> th_ctx t' = th_ctx t \<and>
     pr_opts (th_proc t') = pr_opts (th_proc t)"

definition ok_res :: "'k env \<Rightarrow> ('k world \<Rightarrow> bool) \<Rightarrow> 'k LPSThread \<Rightarrow> ('a \<times> 'k LPSThread) res \<Rightarrow> bool" where
  "ok_res env I t r \<longleftrightarrow> (\<forall>v t'. r = Inr (v, t') \<longrightarrow> th_kept I t t')"

named_theorems handler

lemma th_kept_confined: "th_kept I t t' \<Longrightarrow> th_confined env I t \<Longrightarrow> th_confined env I t'"
  unfolding th_kept_def th_confined_def using proc_kept_confined by (auto simp: proc_kept_def)

lemma th_kept_trans: "th_kept I t t' \<Longrightarrow> th_kept I t' t'' \<Longrightarrow> th_kept I t t''"
  unfolding th_kept_def using proc_kept_trans by fastforce

lemma th_kept_refl: "th_confined env I t \<Longrightarrow> th_kept I t t"
  unfolding th_kept_def th_confined_def using proc_kept_refl by blast

interpretation thread: frame "th_confined env I" "th_kept I" for env I
  using th_kept_refl th_kept_trans th_kept_confined by unfold_locales

lemma ok_res_keeps: "ok_res env I t r = keeps (th_kept I) t r"
  by (simp add: ok_res_def keeps_def)

lemma ok_fault [handler]: "ok_res env I t (Inl e)"
  by (simp add: ok_res_keeps keeps_fault)

lemma ok_return [handler]: "th_confined env I t \<Longrightarrow> ok_res env I t (Inr (v, t))"
  unfolding ok_res_keeps by (rule thread.keeps_return)

lemma ok_kept: "th_kept I t t' \<Longrightarrow> ok_res env I t (Inr (v, t'))"
  by (simp add: ok_res_keeps keeps_end)

lemma ok_after: "th_kept I t t' \<Longrightarrow> ok_res env I t' r \<Longrightarrow> ok_res env I t r"
  unfolding ok_res_keeps by (rule thread.keeps_after)

lemma ok_rbind:
  assumes "th_confined env I t" "ok_res env I t r" "\<And>v t'. th_confined env I t' \<Longrightarrow> th_kept I t t' \<Longrightarrow> ok_res env I t' (f (v, t'))"
  shows "ok_res env I t (rbind r f)"
  using assms thread.keeps_rbind [of env I t r f] unfolding ok_res_keeps by blast

lemma ok_if [handler]: "(b \<Longrightarrow> ok_res env I t x) \<Longrightarrow> (\<not> b \<Longrightarrow> ok_res env I t y) \<Longrightarrow> ok_res env I t (if b then x else y)"
  by simp

section \<open>Building blocks of handlers\<close>

lemma th_confined_world: "th_confined env I t \<Longrightarrow> I (th_world t)"
  by (simp add: th_confined_def proc_confined_def th_world_def)

lemma th_kept_world:
  assumes "th_confined env I t" "I w"
  shows "th_kept I t (th_set_world t w)"
proof -
  have "proc_kept I (th_proc t) (pr_set_world (th_proc t) w)"
    using assms by (intro proc_kept_world [of "ev_vm env"]) (simp_all add: th_confined_def)
  then show ?thesis
    using assms(1) by (simp add: th_kept_def th_set_world_def th_ok_def th_confined_def proc_kept_def brk_ok_def
        pr_set_world_def box_set_world_def)
qed

lemma ok_on_world:
  assumes "th_confined env I t" "\<And>r w'. f (th_world t) = Inr (r, w') \<Longrightarrow> I w'"
  shows "ok_res env I t (on_world f t)"
  using assms(2) th_kept_world [OF assms(1)]
  by (cases "f (th_world t)") (auto simp: on_world_def ok_res_def)

lemma os_kept:
  assumes "th_confined env I t" "I w" "\<And>n args. c \<noteq> H_syscall n args"
    "\<And>a n. call_buf c = Some (a, n) \<Longrightarrow> buf_in (box_lo (th_box t)) (box_hi (th_box t)) a n"
  shows "I (snd (ev_os env c w))"
  using assms unfolding th_confined_def os_keeps_def by blast

lemma th_box_limit: "th_confined env I t \<Longrightarrow> box_hi (th_box t) < 2 ^ 64"
  using box_ok_limit(2) by (auto simp: th_confined_def proc_confined_def proc_ok_def)

lemma ptrcheck_iff:
  "th_confined env I t \<Longrightarrow> ptrcheck t p \<longleftrightarrow> box_lo (th_box t) \<le> unat p \<and> unat p < box_hi (th_box t)"
  using th_box_limit [of env I t] by (simp add: ptrcheck_def lps_box_ptrvalid_def u64_arith unat_add_nowrap)

text \<open>The two ends of a buffer are in the sandbox: so is the buffer, unless it wraps around.\<close>

lemma ends_in_range:
  assumes "lo \<le> unat (p :: u64)" "unat p < hi" "lo \<le> unat (p + sz - 1)" "unat (p + sz - 1) < hi" "hi < 2 ^ 64"
  shows "unat p + unat sz \<le> hi \<or> 2 ^ 64 < unat p + unat sz"
proof -
  have e: "unat (p + (sz - 1)) = (unat p + unat (sz - 1)) mod 2 ^ 64" by (rule unat_add_wrap)
  show ?thesis
  proof (cases "sz = 0")
    case True
    then show ?thesis using assms(2) by simp
  next
    case False
    then have s: "unat (sz - 1) = unat sz - 1" "0 < unat sz" by (simp_all add: unat_minus_one unat_gt_0)
    show ?thesis
    proof (cases "unat p + unat (sz - 1) < 2 ^ 64")
      case True
      then have "unat (p + sz - 1) = unat p + unat (sz - 1)" using e by (simp add: add_diff_eq)
      then show ?thesis using assms(4) s by linarith
    next
      case False
      then show ?thesis
      proof (cases "unat p + unat sz = 2 ^ 64")
        case True
        then show ?thesis using False s by linarith
      next
        case neq: False
        then show ?thesis using False s by linarith
      qed
    qed
  qed
qed

lemma bufhost_in:
  assumes "th_confined env I t" "bufhost t p sz align = Some buf"
  shows "buf = p" "buf_in (box_lo (th_box t)) (box_hi (th_box t)) p sz" "bufcheck t p sz align"
proof -
  have b: "ptrcheck t p" "ptrcheck t (p + sz - 1)" and eq: "buf = p" "bufcheck t p sz align"
    using assms(2) by (auto simp: bufhost_def bufcheck_def split: if_splits)
  show "buf = p" "bufcheck t p sz align" using eq by auto
  show "buf_in (box_lo (th_box t)) (box_hi (th_box t)) p sz"
    using b ends_in_range [OF _ _ _ _ th_box_limit [OF assms(1)], where p = p and sz = sz and lo = "box_lo (th_box t)"]
    by (simp add: ptrcheck_iff [OF assms(1)] buf_in_def)
qed

text \<open>A buffer of less than half the address space does not wrap around.\<close>

lemma th_box_user: "th_confined env I t \<Longrightarrow> box_hi (th_box t) \<le> 2 ^ 47"
  by (simp add: th_confined_def)

lemma buf_in_small:
  assumes "th_confined env I t" "bufcheck t p sz align" "unat sz < 2 ^ 62"
  shows "unat p + unat sz \<le> box_hi (th_box t)" "box_lo (th_box t) \<le> unat p"
proof -
  have "bufhost t p sz align = Some p" using assms(2) by (simp add: bufhost_def)
  then have b: "buf_in (box_lo (th_box t)) (box_hi (th_box t)) p sz" by (rule bufhost_in(2) [OF assms(1)])
  then show "box_lo (th_box t) \<le> unat p" by (simp add: buf_in_def)
  have "unat p < 2 ^ 47" using b th_box_user [OF assms(1)] by (simp add: buf_in_def)
  then have "unat p + unat sz < 2 ^ 64" using assms(3) by simp
  then show "unat p + unat sz \<le> box_hi (th_box t)" using b by (simp add: buf_in_def)
qed

lemma ok_bufhost:
  assumes "th_confined env I t" "ok_res env I t n"
    "\<And>buf. buf = p \<Longrightarrow> bufcheck t p sz align \<Longrightarrow> buf_in (box_lo (th_box t)) (box_hi (th_box t)) p sz \<Longrightarrow> ok_res env I t (f buf)"
  shows "ok_res env I t (case bufhost t p sz align of None \<Rightarrow> n | Some buf \<Rightarrow> f buf)"
  using assms(2,3) bufhost_in [OF assms(1), of p sz align] by (cases "bufhost t p sz align") auto

lemma ok_with_file:
  assumes "th_confined env I t" "\<And>f. ok_res env I t (body f)"
  shows "ok_res env I t (with_file t fd body)"
proof (cases "fdfget (pr_fds (th_proc t)) fd")
  case (Inr f)
  show ?thesis
  proof (cases f)
    case (Some a)
    then show ?thesis using assms(2) Inr by (cases "get_file (th_files t) (Some a)") (simp_all add: with_file_def ok_fault)
  qed (use assms(1) Inr in \<open>simp add: with_file_def ok_return\<close>)
qed (simp add: with_file_def ok_fault)

lemma ok_if_fn: "th_confined env I t \<Longrightarrow> ok_res env I t body \<Longrightarrow> ok_res env I t (if_fn fp t body)"
  by (cases fp) (simp_all add: if_fn_def ok_fault ok_return)

lemma ok_call_fn: "ok_res env I t k \<Longrightarrow> ok_res env I t d \<Longrightarrow> ok_res env I t (call_fn fp k d)"
  by (cases fp) (simp_all add: call_fn_def ok_fault)

text \<open>Members of a structure.\<close>

lemma store_fields_keeps:
  assumes "mem_keeps lo hi I" "lo \<le> unat a" "unat a + n \<le> hi" "hi < 2 ^ 64" "\<forall>(off, k, v) \<in> set fs. off + k \<le> n" "I w"
  shows "I (w\<lparr>w_mem := store_fields a fs (w_mem w)\<rparr>)"
  using assms(5,6)
proof (induction fs arbitrary: w)
  case (Cons f fs)
  obtain off k v where f: "f = (off, k, v)" by (cases f)
  let ?w = "w\<lparr>w_mem := store_bytes (a + of_nat off) (le_bytes k v) (w_mem w)\<rparr>"
  have ok: "off + k \<le> n" using Cons.prems(1) f by simp
  have off: "unat (of_nat off :: u64) = off" by (rule unat_of_nat_u64) (use ok assms(3,4) in linarith)
  have "unat (a + of_nat off) = unat a + off"
    using unat_add_nowrap [of a "of_nat off"] off ok assms(3,4) by simp
  then have "I ?w" using assms(1-3) ok Cons.prems(2) unfolding mem_keeps_def by simp
  then show ?case using Cons.IH [of ?w] Cons.prems(1) f by simp
qed simp

lemma th_confined_mem: "th_confined env I t \<Longrightarrow> mem_keeps (box_lo (th_box t)) (box_hi (th_box t)) I"
  by (simp add: th_confined_def proc_confined_def host_confined_def)

lemma th_store_kept:
  assumes "th_confined env I t" "bufcheck t p sz align" "unat sz < 2 ^ 62" "\<forall>(off, k, v) \<in> set fs. off + k \<le> unat sz"
  shows "th_kept I t (th_store t p fs)"
proof -
  note b = buf_in_small [OF assms(1-3)]
  have "I ((th_world t)\<lparr>w_mem := store_fields p fs (w_mem (th_world t))\<rparr>)"
    by (rule store_fields_keeps [OF th_confined_mem [OF assms(1)] b(2) b(1) th_box_limit [OF assms(1)] assms(4)
          th_confined_world [OF assms(1)]])
  then have "th_kept I t (th_set_world t ((th_world t)\<lparr>w_mem := store_fields p fs (w_mem (th_world t))\<rparr>))"
    by (rule th_kept_world [OF assms(1)])
  then show ?thesis by (simp add: th_store_def th_set_world_def pr_set_mem_def th_world_def)
qed

lemma same_box_world [simp]: "bx_base (th_box (th_set_world t w)) = bx_base (th_box t)" "bx_size (th_box (th_set_world t w)) = bx_size (th_box t)"
  by (simp_all add: th_set_world_def pr_set_world_def box_set_world_def)

lemma bufcheck_world [simp]: "bufcheck (th_set_world t w) p sz align = bufcheck t p sz align"
  by (simp add: bufcheck_def ptrcheck_def lps_box_ptrvalid_def)

text \<open>Changes of the descriptor table, the break and other parts of the process that are not the sandbox.\<close>

lemma th_kept_files:
  assumes "th_confined env I t" "length fds = LINUX_NOFILE"
  shows "th_kept I t (th_set_files t fh fds)"
  using assms proc_kept_refl [of "ev_vm env" I "th_proc t"]
  by (simp add: th_kept_def th_confined_def th_set_files_def th_ok_def proc_kept_def proc_ok_def brk_ok_def pr_world_def)

lemma th_confined_fds: "th_confined env I t \<Longrightarrow> length (pr_fds (th_proc t)) = LINUX_NOFILE"
  by (simp add: th_confined_def th_ok_def)

lemma fdfassign_length: "fdfassign fh t f = Inr (fd, fh', t') \<Longrightarrow> length t' = length t"
  by (auto simp: fdfassign_def Let_def rbind_Inr_iff split: if_splits)

lemma fdfdup2_length: "fdfdup2 fh t a b = Inr (r, fh', t') \<Longrightarrow> length t' = length t"
  by (auto simp: fdfdup2_def Let_def rbind_Inr_iff split: if_splits option.splits)

lemma fdfclose_length: "fdfclose fh t fd = Inr (r, fh', t') \<Longrightarrow> length t' = length t"
  by (auto simp: fdfclose_def rbind_Inr_iff split: if_splits)

text \<open>Memory of the host and paths.\<close>

lemma malloc_kept: "th_confined env I t \<Longrightarrow> host_malloc env sz t = (ok, t') \<Longrightarrow> th_kept I t t'"
proof -
  assume c: "th_confined env I t" and m: "host_malloc env sz t = (ok, t')"
  obtain ok' w where h: "hv_malloc (ev_vm env) sz (th_world t) = (ok', w)" by (rule prod.exhaust)
  have "I (snd (hv_malloc (ev_vm env) sz (th_world t)))"
    using c th_confined_world [OF c] by (simp add: th_confined_def malloc_keeps_def)
  then show "th_kept I t t'" using h m th_kept_world [OF c] by (auto simp: host_malloc_def)
qed

lemma ok_path:
  assumes "th_confined env I t" "\<And>t'. th_confined env I t' \<Longrightarrow> th_kept I t t' \<Longrightarrow> ok_res env I t' (n t')"
    "\<And>path t'. th_confined env I t' \<Longrightarrow> th_kept I t t' \<Longrightarrow> length path < FILENAME_MAX \<Longrightarrow> ok_res env I t' (f path t')"
  shows "ok_res env I t (case pathcopy env t pathp of (None, t) \<Rightarrow> n t | (Some path, t) \<Rightarrow> f path t)"
proof -
  have len: "length (mem_str m a k) \<le> k" for m a k by (induction m a k rule: mem_str.induct) auto
  have step: "ok_res env I t r" if "th_kept I t t'" "th_confined env I t' \<Longrightarrow> ok_res env I t' r" for t' r
    using that th_kept_confined [OF that(1) assms(1)] ok_after by blast
  show ?thesis
  proof (cases "ptrcheck t pathp")
    case False
    then show ?thesis using assms(2) [OF assms(1) th_kept_refl [OF assms(1)]] by (simp add: pathcopy_def)
  next
    case True
    obtain ok t' where m: "host_malloc env (of_nat FILENAME_MAX) t = (ok, t')" by (rule prod.exhaust)
    have k: "th_kept I t t'" by (rule malloc_kept [OF assms(1) m])
    let ?path = "mem_str (w_mem (th_world t')) pathp (FILENAME_MAX - 1)"
    have "length ?path < FILENAME_MAX" by (rule le_less_trans [OF len]) simp
    then have "ok_res env I t (f ?path t')" using step [OF k] assms(3) k by blast
    moreover have "ok_res env I t (n t')" using step [OF k] assms(2) k by blast
    ultimately show ?thesis using True m by (cases ok) (simp_all add: pathcopy_def)
  qed
qed

lemma ok_call_int:
  assumes "th_confined env I t" "call_buf c = None" "\<And>n args. c \<noteq> H_syscall n args"
  shows "ok_res env I t (on_world (\<lambda>w. Inr (call_int (ev_os env) c w)) t)"
  by (rule ok_on_world [OF assms(1)])
     (use os_kept [OF assms(1) th_confined_world [OF assms(1)], of c] assms in \<open>auto simp: call_int_def case_prod_unfold\<close>)

lemma ok_path_call:
  assumes "th_confined env I t" "\<And>path. call_buf (c path) = None" "\<And>path n args. c path \<noteq> H_syscall n args"
  shows "ok_res env I t (path_call env pathp c t)"
  unfolding path_call_def pathcopyresolve_def
  by (rule ok_path [OF assms(1)], erule ok_return, rule ok_call_int, assumption, rule assms(2), rule assms(3))

section \<open>Calls of files and devices\<close>

text \<open>Every operation of a kernel file is one call of the kernel.\<close>

lemma file_calls:
  "kread ho fh dev a n w = Inr (r, w') \<Longrightarrow> \<exists>kfd. w' = snd (ho (H_read kfd a n) w)"
  "kwrite ho fh dev a n w = Inr (r, w') \<Longrightarrow> \<exists>kfd. w' = snd (ho (H_write kfd a n) w)"
  "klseek ho fh dev off wh w = Inr (r, w') \<Longrightarrow> \<exists>kfd. w' = snd (ho (H_lseek kfd off wh) w)"
  "kgetdents ho fh dev a n w = Inr (r, w') \<Longrightarrow> \<exists>kfd. w' = snd (ho (H_getdents64 kfd a n) w)"
  "kchmod ho fh dev mode w = Inr (i, w') \<Longrightarrow> \<exists>kfd. w' = snd (ho (H_fchmod kfd mode) w)"
  "kftruncate ho fh dev len w = Inr (i, w') \<Longrightarrow> \<exists>kfd. w' = snd (ho (H_ftruncate kfd len) w)"
  "kfchown ho fh dev ow gr w = Inr (i, w') \<Longrightarrow> \<exists>kfd. w' = snd (ho (H_fchown kfd ow gr) w)"
  "ksync ho fh dev w = Inr (i, w') \<Longrightarrow> \<exists>kfd. w' = snd (ho (H_fsync kfd) w)"
  "kclose ho fh dev w = Inr (i, w') \<Longrightarrow> \<exists>kfd. w' = snd (ho (H_close kfd) w)"
  "kioctl ho fh dev req w = Inr (i, y, w') \<Longrightarrow> \<exists>kfd. w' = snd (ho (H_ioctl kfd req) w)"
  by (auto simp: kread_def kwrite_def klseek_def kgetdents_def host_getdents64_def kchmod_def kftruncate_def kfchown_def
      ksync_def kclose_def kioctl_def call_ssize_def call_int_def rbind_Inr_iff case_prod_unfold)
    (metis snd_conv)

lemma ok_read_call:
  assumes "th_confined env I t" "buf_in (box_lo (th_box t)) (box_hi (th_box t)) buf n"
  shows "ok_res env I t (f_read_call env f buf n t)"
  unfolding f_read_call_def
proof (intro ok_call_fn ok_on_world [OF assms(1)])
  fix r w'
  show "kread (ev_os env) (th_files t) (f_dev f) buf n (th_world t) = Inr (r, w') \<Longrightarrow> I w'"
    using os_kept [OF assms(1) th_confined_world [OF assms(1)]] assms(2) by (fastforce dest!: file_calls)
  show "dv_read (ev_dev env) (f_dev f) buf n (th_world t) = Inr (r, w') \<Longrightarrow> I w'"
    using assms th_confined_world [OF assms(1)] unfolding th_confined_def dev_keeps_def by blast
qed

lemma ok_write_call:
  assumes "th_confined env I t" "buf_in (box_lo (th_box t)) (box_hi (th_box t)) buf n"
  shows "ok_res env I t (f_write_call env f buf n t)"
  unfolding f_write_call_def
proof (intro ok_call_fn ok_on_world [OF assms(1)])
  fix r w'
  show "kwrite (ev_os env) (th_files t) (f_dev f) buf n (th_world t) = Inr (r, w') \<Longrightarrow> I w'"
    using os_kept [OF assms(1) th_confined_world [OF assms(1)]] assms(2) by (fastforce dest!: file_calls)
  show "dv_write (ev_dev env) (f_dev f) buf n (th_world t) = Inr (r, w') \<Longrightarrow> I w'"
    using assms th_confined_world [OF assms(1)] unfolding th_confined_def dev_keeps_def by blast
qed

text \<open>Operations without a buffer.\<close>

lemma ok_k_call:
  assumes "th_confined env I t"
    "\<And>r w'. f (th_world t) = Inr (r, w') \<Longrightarrow> \<exists>c. w' = snd (ev_os env c (th_world t)) \<and> call_buf c = None \<and> (\<forall>n a. c \<noteq> H_syscall n a)"
  shows "ok_res env I t (call_kfn fp (on_world f t))"
  by (intro ok_call_fn ok_fault ok_on_world [OF assms(1)])
     (use os_kept [OF assms(1) th_confined_world [OF assms(1)]] assms(2) in fastforce)

lemma ok_lseek_call: "th_confined env I t \<Longrightarrow> ok_res env I t (f_lseek_call env f off wh t)"
  unfolding f_lseek_call_def by (rule ok_k_call) (fastforce dest!: file_calls)+

text \<open>\<open>fstat\<close> writes its structure into the caller's memory.\<close>

lemma fstatat_kept:
  assumes "th_confined env I t" "bufcheck t p sizeof_Stat al" "host_fstatat (ev_os env) fd path p flags (th_world t) = Inr (r, w')"
  shows "I w'"
proof -
  obtain c x w1 where c: "ev_os env c (th_world t) = (x, w1)" "call_buf c = None" "\<forall>n a. c \<noteq> H_syscall n a"
    "w' = w1 \<or> w' = w1\<lparr>w_mem := copystat p (hr_stat x) (w_mem w1)\<rparr>"
  proof (cases "flags = LINUX_AT_EMPTY_PATH")
    case True
    then show ?thesis using that [of "H_fstat fd"] assms(3)
      by (cases "ev_os env (H_fstat fd) (th_world t)") (auto simp: host_fstatat_def split: if_splits)
  next
    case False
    then show ?thesis using that [of "H_fstatat fd path 0"] assms(3)
      by (cases "ev_os env (H_fstatat fd path 0) (th_world t)") (auto simp: host_fstatat_def rassert_def split: if_splits)
  qed
  have w1: "I w1" using os_kept [OF assms(1) th_confined_world [OF assms(1)], of c] c(1-3) by simp
  have "I (w1\<lparr>w_mem := copystat p (hr_stat x) (w_mem w1)\<rparr>)"
    unfolding copystat_def
    by (rule store_fields_keeps [OF th_confined_mem [OF assms(1)] buf_in_small(2) [OF assms(1,2)] buf_in_small(1) [OF assms(1,2)]
          th_box_limit [OF assms(1)] _ w1]) simp_all
  then show ?thesis using c(4) w1 by auto
qed

section \<open>The handlers\<close>

lemma ok_sys_write [handler]: "th_confined env I t \<Longrightarrow> ok_res env I t (sys_write env fd p n t)"
  unfolding sys_write_def
  by (intro ok_if ok_return ok_with_file ok_if_fn ok_bufhost; (assumption | simp add: ok_write_call))

lemma ok_sys_read [handler]: "th_confined env I t \<Longrightarrow> ok_res env I t (sys_read env fd p n t)"
  unfolding sys_read_def
  by (intro ok_if ok_return ok_with_file ok_if_fn ok_bufhost; (assumption | simp add: ok_read_call))

lemma ok_iov_loop:
  assumes "th_confined env I t" "\<And>b n t. th_confined env I t \<Longrightarrow> ok_res env I t (op b n t)"
  shows "ok_res env I t (iov_loop op iov n tot t)"
  using assms(1)
proof (induction n arbitrary: iov tot t)
  case 0
  then show ?case by (simp add: ok_return)
next
  case (Suc n)
  show ?case
    unfolding iov_loop.simps
    by (intro ok_if ok_fault ok_rbind [OF Suc.prems] assms(2) [OF Suc.prems])
       (use Suc.IH in \<open>auto intro: ok_return\<close>)
qed

lemma ok_iov_call:
  assumes "th_confined env I t" "\<And>b n t. th_confined env I t \<Longrightarrow> ok_res env I t (op b n t)"
  shows "ok_res env I t (iov_call env op p cnt t)"
proof -
  have c: "ok_res env I t (copyout env t p n)" for n
    using malloc_kept [OF assms(1), of n]
    by (auto simp: copyout_def ok_res_def rbind_Inr_iff split: prod.splits bool.splits)
  show ?thesis
    unfolding iov_call_def
    by (intro ok_if ok_return [OF assms(1)] ok_rbind [OF assms(1) c])
       (auto split: option.splits intro: ok_return ok_iov_loop assms(2))
qed

lemma ok_sys_writev [handler]: "th_confined env I t \<Longrightarrow> ok_res env I t (sys_writev env fd p n t)"
  unfolding sys_writev_def by (intro ok_iov_call ok_sys_write)

lemma ok_sys_readv [handler]: "th_confined env I t \<Longrightarrow> ok_res env I t (sys_readv env fd p n t)"
  unfolding sys_readv_def by (intro ok_iov_call ok_sys_read)

lemma ok_sys_lseek [handler]: "th_confined env I t \<Longrightarrow> ok_res env I t (sys_lseek env fd off wh t)"
  unfolding sys_lseek_def by (intro ok_with_file ok_if_fn ok_lseek_call)

lemma ok_sys_fchmod [handler]: "th_confined env I t \<Longrightarrow> ok_res env I t (sys_fchmod env fd mode t)"
  unfolding sys_fchmod_def by (intro ok_with_file ok_if_fn ok_k_call) (fastforce dest!: file_calls)+

lemma ok_sys_ftruncate [handler]: "th_confined env I t \<Longrightarrow> ok_res env I t (sys_ftruncate env fd len t)"
  unfolding sys_ftruncate_def by (intro ok_with_file ok_if_fn ok_k_call) (fastforce dest!: file_calls)+

lemma ok_sys_fchown [handler]: "th_confined env I t \<Longrightarrow> ok_res env I t (sys_fchown env fd ow gr t)"
  unfolding sys_fchown_def by (intro ok_with_file ok_if_fn ok_k_call) (fastforce dest!: file_calls)+

lemma ok_sys_fsync [handler]: "th_confined env I t \<Longrightarrow> ok_res env I t (sys_fsync env fd t)"
  unfolding sys_fsync_def by (intro ok_with_file ok_if_fn ok_k_call) (fastforce dest!: file_calls)+

lemma ok_sys_getdents64 [handler]: "th_confined env I t \<Longrightarrow> ok_res env I t (sys_getdents64 env fd p n t)"
  unfolding sys_getdents64_def
proof (intro ok_with_file ok_if_fn ok_bufhost ok_call_fn ok_fault ok_return ok_on_world)
  fix buf r w'
  assume c: "th_confined env I t" and b: "buf_in (box_lo (th_box t)) (box_hi (th_box t)) p n" "buf = p"
  show "kgetdents (ev_os env) (th_files t) (f_dev f) buf n (th_world t) = Inr (r, w') \<Longrightarrow> I w'" for f
    using os_kept [OF c th_confined_world [OF c]] b by (fastforce dest!: file_calls)
qed

lemma kept_buf_in: "th_kept I t t' \<Longrightarrow> buf_in (box_lo (th_box t')) (box_hi (th_box t')) a n = buf_in (box_lo (th_box t)) (box_hi (th_box t)) a n"
  by (simp add: th_kept_def proc_kept_def)

lemma ok_sys_pread64 [handler]: "th_confined env I t \<Longrightarrow> ok_res env I t (sys_pread64 env fd p n off t)"
  unfolding sys_pread64_def
proof (intro ok_with_file ok_if_fn ok_bufhost ok_return)
  fix f buf
  assume c: "th_confined env I t" and b: "buf_in (box_lo (th_box t)) (box_hi (th_box t)) p n" "buf = p"
  show "ok_res env I t
     (rbind (f_lseek_call env f 0 1 t) (\<lambda>(orig, t).
      if sint orig < 0 then Inr (int_to_u64 (host_err (ucast orig)), t)
      else
        rbind (f_lseek_call env f off 0 t) (\<lambda>(_, t).
        rbind (f_read_call env f buf n t) (\<lambda>(n, t).
        rbind (f_lseek_call env f orig 0 t) (\<lambda>(_, t).
        Inr (n, t))))))"
  proof (rule ok_rbind [OF c ok_lseek_call [OF c]], simp, intro impI conjI ok_return)
    fix t1
    assume 1: "th_confined env I t1" "th_kept I t t1"
    show "ok_res env I t1 (rbind (f_lseek_call env f off 0 t1) (\<lambda>(_, t).
        rbind (f_read_call env f buf n t) (\<lambda>(n, t). rbind (f_lseek_call env f orig 0 t) (\<lambda>(_, t). Inr (n, t)))))" for orig
    proof (rule ok_rbind [OF 1(1) ok_lseek_call [OF 1(1)]], simp)
      fix t2
      assume 2: "th_confined env I t2" "th_kept I t1 t2"
      have "buf_in (box_lo (th_box t2)) (box_hi (th_box t2)) buf n"
        using b kept_buf_in [OF 1(2)] kept_buf_in [OF 2(2)] by simp
      then show "ok_res env I t2 (rbind (f_read_call env f buf n t2) (\<lambda>(n, t). rbind (f_lseek_call env f orig 0 t) (\<lambda>(_, t). Inr (n, t))))"
        by (intro ok_rbind [OF 2(1)] ok_read_call [OF 2(1)])
           (auto intro: ok_rbind [OF _ ok_lseek_call] ok_return)
    qed
  qed
qed

section \<open>Memory\<close>

text \<open>A new state of the process with the same place, break area and descriptors.\<close>

lemma th_kept_proc:
  assumes "th_confined env I t" "proc_kept I (th_proc t) p'" "pr_brkbase p' = pr_brkbase (th_proc t)"
    "pr_opts p' = pr_opts (th_proc t)" "pr_brksize p' \<le> lo_brksize (pr_opts p')" "length (pr_fds p') = LINUX_NOFILE"
    "length (pr_cwd p') < FILENAME_MAX"
  shows "th_kept I t (t\<lparr>th_proc := p'\<rparr>)"
  using assms by (simp add: th_kept_def th_ok_def brk_ok_def proc_kept_def th_confined_def)

lemma th_confined_parts:
  assumes "th_confined env I t"
  shows "proc_confined (ev_vm env) I (th_proc t)" "brk_ok (th_proc t)" "pr_brksize (th_proc t) \<le> lo_brksize (pr_opts (th_proc t))"
    "length (pr_cwd (th_proc t)) < FILENAME_MAX" "box_ok (th_box t)" "mem_ok (th_box t)"
  using assms by (simp_all add: th_confined_def th_ok_def brk_ok_def proc_confined_def proc_ok_def)

lemma th_kept_box:
  assumes "th_confined env I t" "proc_kept I (th_proc t) ((th_proc t)\<lparr>pr_box := box'\<rparr>)"
  shows "th_kept I t (t\<lparr>th_proc := (th_proc t)\<lparr>pr_box := box'\<rparr>\<rparr>)"
  using th_confined_fds [OF assms(1)] th_confined_parts [OF assms(1)] by (intro th_kept_proc [OF assms]) simp_all

lemma in_box_range:
  assumes "th_confined env I t" "in_box (th_box t) addr sz" "unat addr + unat sz < 2 ^ 64"
  shows "box_lo (th_box t) \<le> unat addr" "unat addr + unat sz \<le> box_hi (th_box t)"
  using assms th_box_limit [OF assms(1)] by (simp_all add: in_box_def u64_arith unat_add_nowrap)

lemma mapat_thread:
  assumes "th_confined env I t" "2 ^ 12 dvd unat addr" "sz \<noteq> 0" "unat addr + unat sz < 2 ^ 64"
    "lps_box_mapat (ev_vm env) (th_box t) addr sz prot flags fd off = Inr (r, box')"
  shows "proc_kept I (th_proc t) ((th_proc t)\<lparr>pr_box := box'\<rparr>)"
proof -
  have "in_box (th_box t) addr sz"
    using assms(5) by (cases "in_box (th_box t) addr sz") (simp_all add: lps_box_mapat_def)
  note rg = in_box_range [OF assms(1) this assms(4)]
  show ?thesis
    by (rule mapat_kept [OF th_confined_parts(1) [OF assms(1)] assms(2,3) rg, of prot flags fd off]) (use assms(5) in auto)
qed

lemma mprotect_thread:
  assumes "th_confined env I t" "unat addr + unat sz < 2 ^ 64"
    "lps_box_mprotect (ev_vm env) (th_box t) addr sz prot = Inr (r, box')"
  shows "proc_kept I (th_proc t) ((th_proc t)\<lparr>pr_box := box'\<rparr>)"
proof -
  have "in_box (th_box t) addr sz"
    using assms(3) by (cases "in_box (th_box t) addr sz") (simp_all add: lps_box_mprotect_def)
  note rg = in_box_range [OF assms(1) this assms(2)]
  show ?thesis
    by (rule mprotect_kept [OF th_confined_parts(1) [OF assms(1)] rg, of prot]) (use assms(3) in auto)
qed

lemma munmap_refused:
  assumes "box_ok box" "\<not> 2 ^ 12 dvd unat addr \<or> sz = 0"
  shows "mm_unmap_cb (bx_st box) addr sz f = Inr (- LINUX_EINVAL, bx_st box)"
proof -
  have p: "mm_p2pagesize (s_mm (bx_st box)) = 12" using assms(1) by (simp add: box_ok_def)
  then have "mmpagesize (s_mm (bx_st box)) = Inr (2 ^ 12)" using mmpagesize_ok [of "s_mm (bx_st box)"] by simp
  moreover have "addr mod 2 ^ 12 \<noteq> 0 \<or> sz = 0" using assms(2) u64_mod_pow2_eq_0 [of 12 addr] by simp
  ultimately show ?thesis unfolding mm_unmap_cb_def by auto
qed

lemma munmap_thread:
  assumes "th_confined env I t" "unat addr + unat sz < 2 ^ 64"
    "lps_box_munmap (ev_vm env) (th_box t) addr sz = Inr (r, box')"
  shows "proc_kept I (th_proc t) ((th_proc t)\<lparr>pr_box := box'\<rparr>)"
proof -
  note c = th_confined_parts [OF assms(1)]
  have hv: "none_ok (ev_vm env)" "host_keeps (ev_vm env) (box_lo (th_box t)) (box_hi (th_box t)) I" "I (box_host (th_box t))"
    using c(1) by (simp_all add: proc_confined_def host_confined_def pr_world_def)
  show ?thesis
  proof (cases "in_box (th_box t) addr sz")
    case False
    then have "box' = th_box t" using assms(3) by (simp add: lps_box_munmap_def)
    then show ?thesis using proc_kept_refl [OF c(1)] by simp
  next
    case True
    show ?thesis
    proof (cases "2 ^ 12 dvd unat addr \<and> sz \<noteq> 0")
      case False
      then have "\<not> 2 ^ 12 dvd unat addr \<or> sz = 0" by blast
      then have "box' = th_box t" using munmap_refused [OF c(5)] assms(3) True by (simp add: lps_box_munmap_def)
      then show ?thesis using proc_kept_refl [OF c(1)] by simp
    next
      case al: True
      have "box_req (th_box t) addr sz"
        by (rule box_reqI [OF c(5)]) (use al in_box_range [OF assms(1) True assms(2)] in \<open>simp_all\<close>)
      then obtain b where "lps_box_munmap (ev_vm env) (th_box t) addr sz = Inr (0, b)" "box_kept I (th_box t) b"
        using box_munmap_ok [OF c(5,6) _ hv] by blast
      then show ?thesis using assms(3) proc_kept_box [OF c(1)] by simp
    qed
  qed
qed

lemma mapany_thread:
  assumes "th_confined env I t" "sz \<noteq> 0" "unat sz + 4095 < 2 ^ 64"
    "lps_box_mapany (ev_vm env) (th_box t) sz prot flags fd off = Inr (r, box')"
  shows "proc_kept I (th_proc t) ((th_proc t)\<lparr>pr_box := box'\<rparr>)"
proof -
  note c = th_confined_parts [OF assms(1)]
  have hv: "fixed_or_fail (ev_vm env)" "host_keeps (ev_vm env) (box_lo (th_box t)) (box_hi (th_box t)) I" "I (box_host (th_box t))"
    using c(1) by (simp_all add: proc_confined_def host_confined_def pr_world_def)
  have "mm_p2pagesize (s_mm (bx_st (th_box t))) = 12" using c(5) by (simp add: box_ok_def)
  then have "any_req (s_mm (bx_st (th_box t))) sz" using assms(2,3) by (simp add: any_req_def)
  then have "box_kept I (th_box t) box'"
    using box_mapany_ok [OF c(5,6) _ hv, of sz prot flags fd off] assms(4) by auto
  then show ?thesis by (rule proc_kept_box [OF c(1)])
qed

text \<open>Requests whose length does not wrap around when it is rounded up.\<close>

lemma ceilp_page: "unat len < 2 ^ 63 \<Longrightarrow> unat (ceilp len (4 * 1024)) = round_up 4096 (unat len)"
  using unat_ceilp [of 12 len] by simp

lemma round_up_page: "n < 2 ^ 63 \<Longrightarrow> round_up 4096 n < 2 ^ 63 + 4096" "0 < n \<Longrightarrow> 0 < round_up 4096 n"
  using round_up_less [of 4096 n] round_up_ge [of 4096 n] by simp_all

lemma ok_sys_mmap:
  assumes "th_confined env I t" "unat len < 2 ^ 62"
  shows "ok_res env I t (sys_mmap env addr len prot flags fd off t)"
proof -
  let ?l = "ceilp len (4 * 1024)" and ?a = "truncp addr (4 * 1024)"
  have a: "unat ?a = unat addr div 2 ^ 12 * 2 ^ 12" using unat_truncp [of addr 12] by simp
  have l: "unat ?l = round_up 4096 (unat len)" by (rule ceilp_page) (use assms(2) in simp)
  have small: "unat ?l < 2 ^ 62 + 4096" using round_up_less [of 4096 "unat len"] assms(2) l by simp
  have l0: "?l \<noteq> 0" if "len \<noteq> 0"
  proof -
    have "0 < unat len" using that by (simp add: unat_gt_0)
    then have "0 < unat ?l" using round_up_ge [of 4096 "unat len"] l by linarith
    then show ?thesis by auto
  qed
  have any: "th_kept I t (t\<lparr>th_proc := p\<rparr>)"
    if "len \<noteq> 0" "proc_mapany (ev_vm env) (th_proc t) ?l prot flags fd off = Inr (r, addrp, p)" for r addrp p
  proof -
    have "p = th_proc t \<or> (\<exists>x b k. lps_box_mapany (ev_vm env) (th_box t) ?l prot flags k off = Inr (x, b) \<and> p = (th_proc t)\<lparr>pr_box := b\<rparr>)"
      using that(2) by (auto simp: proc_mapany_def rbind_Inr_iff Let_def split: if_splits)
    then show ?thesis using mapany_thread [OF assms(1) l0 [OF that(1)]] small th_kept_refl [OF assms(1)] th_kept_box [OF assms(1)] by auto
  qed
  have at: "th_kept I t (t\<lparr>th_proc := p\<rparr>)"
    if "len \<noteq> 0" "ptrcheck t ?a" "proc_mapat (ev_vm env) (th_proc t) ?a ?l prot flags fd off = Inr (r, p)" for r p
  proof -
    have "p = th_proc t \<or> (\<exists>x b k. lps_box_mapat (ev_vm env) (th_box t) ?a ?l prot flags k off = Inr (x, b) \<and> p = (th_proc t)\<lparr>pr_box := b\<rparr>)"
      using that(3) by (auto simp: proc_mapat_def rbind_Inr_iff Let_def split: if_splits)
    moreover have "2 ^ 12 dvd unat ?a" unfolding a by simp
    moreover have "unat ?a < 2 ^ 47" using that(2) ptrcheck_iff [OF assms(1)] th_box_user [OF assms(1)] by simp
    then have "unat ?a + unat ?l < 2 ^ 64" using small by simp
    ultimately show ?thesis
      using mapat_thread [OF assms(1) _ l0 [OF that(1)]] th_kept_refl [OF assms(1)] th_kept_box [OF assms(1)] by auto
  qed
  show ?thesis
    unfolding sys_mmap_def Let_def
    by (intro ok_if ok_return [OF assms(1)])
       (use any at in \<open>auto simp: ok_res_def rbind_Inr_iff split: if_splits\<close>)
qed

lemma valid_no_wrap:
  assumes "th_confined env I t" "ptrcheck t addr" "unat len < 2 ^ 62"
  shows "unat addr + unat len < 2 ^ 64"
proof -
  have "unat addr < 2 ^ 47" using assms(2) ptrcheck_iff [OF assms(1)] th_box_user [OF assms(1)] by simp
  then show ?thesis using assms(3) by simp
qed

lemma ok_sys_mprotect:
  assumes "th_confined env I t" "unat len < 2 ^ 62"
  shows "ok_res env I t (sys_mprotect env addr len prot t)"
  unfolding sys_mprotect_def
proof (intro ok_if ok_return [OF assms(1)])
  assume "\<not> \<not> ptrcheck t addr"
  then show "ok_res env I t (rbind (lps_box_mprotect (ev_vm env) (th_box t) addr len prot) (\<lambda>(r, box).
      Inr (r, t\<lparr>th_proc := (th_proc t)\<lparr>pr_box := box\<rparr>\<rparr>)))"
    using mprotect_thread [OF assms(1) valid_no_wrap [OF assms(1)], of addr len prot] th_kept_box [OF assms(1)] assms(2)
    by (auto simp: ok_res_def rbind_Inr_iff)
qed

lemma ok_sys_munmap:
  assumes "th_confined env I t" "unat len < 2 ^ 62"
  shows "ok_res env I t (sys_munmap env addr len t)"
  unfolding sys_munmap_def proc_unmap_def
proof (intro ok_if ok_return [OF assms(1)])
  assume "\<not> \<not> ptrcheck t addr"
  then show "ok_res env I t (rbind (rbind (lps_box_munmap (ev_vm env) (th_box t) addr len)
      (\<lambda>(r, box). Inr (r, (th_proc t)\<lparr>pr_box := box\<rparr>))) (\<lambda>(r, p). Inr (r, t\<lparr>th_proc := p\<rparr>)))"
    using munmap_thread [OF assms(1) valid_no_wrap [OF assms(1)], of addr len] th_kept_box [OF assms(1)] assms(2)
    by (auto simp: ok_res_def rbind_Inr_iff)
qed

text \<open>The break.\<close>

lemma brk_area:
  assumes "th_confined env I t"
  defines "p \<equiv> th_proc t"
  shows "unat (pr_brkbase p) + unat (lo_brksize (pr_opts p)) < 2 ^ 64" "2 ^ 12 dvd unat (pr_brkbase p)"
    "unat (pr_brkbase p + pr_brksize p) = unat (pr_brkbase p) + unat (pr_brksize p)"
    "unat (pr_brkbase p + lo_brksize (pr_opts p)) = unat (pr_brkbase p) + unat (lo_brksize (pr_opts p))"
    "unat (pr_brkbase p) + unat (lo_brksize (pr_opts p)) \<le> box_hi (pr_box p)" "box_lo (pr_box p) \<le> unat (pr_brkbase p)"
    "unat (pr_brksize p) \<le> unat (lo_brksize (pr_opts p))"
proof -
  have b: "brk_ok p" using th_confined_parts(2) [OF assms(1)] by (simp add: p_def)
  then show h: "2 ^ 12 dvd unat (pr_brkbase p)" "unat (pr_brkbase p) + unat (lo_brksize (pr_opts p)) \<le> box_hi (pr_box p)"
    "box_lo (pr_box p) \<le> unat (pr_brkbase p)" "unat (pr_brksize p) \<le> unat (lo_brksize (pr_opts p))"
    by (simp_all add: brk_ok_def u64_le_iff)
  show "unat (pr_brkbase p) + unat (lo_brksize (pr_opts p)) < 2 ^ 64"
    using h(2) th_box_limit [OF assms(1)] by (simp add: p_def)
  then show "unat (pr_brkbase p + pr_brksize p) = unat (pr_brkbase p) + unat (pr_brksize p)"
    "unat (pr_brkbase p + lo_brksize (pr_opts p)) = unat (pr_brkbase p) + unat (lo_brksize (pr_opts p))"
    using h(4) by (simp_all add: unat_add_nowrap)
qed

text \<open>Where the growth of the break is mapped.\<close>

definition brk_next :: "'k LPSProc \<Rightarrow> u64" where
  "brk_next p = (if pr_brksize p = 0 then pr_brkbase p else ceilp (pr_brkbase p + pr_brksize p) (4 * 1024))"

lemma box_hi_page: "th_confined env I t \<Longrightarrow> box_hi (th_box t) + 4096 \<le> 2 ^ 64"
proof -
  assume c: "th_confined env I t"
  obtain k where k: "box_hi (th_box t) = k * 2 ^ 12" using box_ok_limit(1) [OF th_confined_parts(5) [OF c]] by blast
  then have "k * 2 ^ 12 < 2 ^ 52 * 2 ^ 12" using th_box_limit [OF c] by simp
  then have "k < 2 ^ 52" by simp
  then have "Suc k * 2 ^ 12 \<le> 2 ^ 52 * 2 ^ 12" by (intro mult_le_mono1) simp
  then show ?thesis using k by simp
qed

lemma brk_next_at:
  assumes "th_confined env I t"
  defines "p \<equiv> th_proc t"
  shows "2 ^ 12 dvd unat (brk_next p)" "unat (brk_next p) = unat (pr_brkbase p) + round_up 4096 (unat (pr_brksize p))"
proof -
  note a = brk_area [OF assms(1), folded p_def]
  have "unat (brk_next p) = unat (pr_brkbase p) + round_up 4096 (unat (pr_brksize p))"
  proof (cases "pr_brksize p = 0")
    case True
    then show ?thesis by (simp add: brk_next_def round_up_def)
  next
    case False
    obtain k where k: "unat (pr_brkbase p) = 4096 * k" using a(2) by (auto elim: dvdE)
    have "unat (pr_brkbase p + pr_brksize p) + (2 ^ 12 - 1) < 2 ^ 64"
      using a(3,5,7) box_hi_page [OF assms(1)] by (simp add: p_def)
    then have "unat (ceilp (pr_brkbase p + pr_brksize p) (4 * 1024)) = round_up 4096 (unat (pr_brkbase p) + unat (pr_brksize p))"
      using unat_ceilp [of 12 "pr_brkbase p + pr_brksize p"] a(3) by simp
    also have "\<dots> = unat (pr_brkbase p) + round_up 4096 (unat (pr_brksize p))"
    proof -
      have "(4096 * k + unat (pr_brksize p) + (4096 - 1)) div 4096 = k + (unat (pr_brksize p) + (4096 - 1)) div 4096"
        unfolding add.assoc [of "4096 * k"] by (rule div_mult_self4) simp
      then show ?thesis unfolding k round_up_def by (simp only: add_mult_distrib mult.commute [of k])
    qed
    finally show ?thesis using False by (simp add: brk_next_def)
  qed
  then show "unat (brk_next p) = unat (pr_brkbase p) + round_up 4096 (unat (pr_brksize p))" "2 ^ 12 dvd unat (brk_next p)"
    using a(2) by (simp_all add: round_up_dvd dvd_add)
qed

text \<open>The handler for a new break inside the area.\<close>

lemma sys_brk_move:
  assumes "th_confined env I t" "pr_brkbase (th_proc t) \<le> brkp"
    "unat brkp < unat (pr_brkbase (th_proc t)) + unat (lo_brksize (pr_opts (th_proc t)))"
    "addr = 0 \<and> brkp = pr_brkbase (th_proc t) + pr_brksize (th_proc t) \<or>
     addr \<noteq> 0 \<and> ptrcheck t addr \<and> brkp = (if addr < pr_brkbase (th_proc t) then pr_brkbase (th_proc t) else addr)"
  defines "p \<equiv> th_proc t"
  shows "sys_brk env addr t =
     (if brkp = pr_brkbase p + pr_brksize p then Inr (brkp, t)
      else if brkp < pr_brkbase p + pr_brksize p then Inr (brkp, t\<lparr>th_proc := p\<lparr>pr_brksize := brkp - pr_brkbase p\<rparr>\<rparr>)
      else
        rbind (lps_box_mapat (ev_vm env) (pr_box p) (brk_next p) (brkp - pr_brkbase p - pr_brksize p)
          (PROT_READ OR PROT_WRITE) (LINUX_MAP_PRIVATE OR LINUX_MAP_ANONYMOUS) (- 1) 0) (\<lambda>(mp, box).
        if mp = - 1 then Inr (- 1, t\<lparr>th_proc := p\<lparr>pr_box := box\<rparr>\<rparr>)
        else Inr (brkp, t\<lparr>th_proc := p\<lparr>pr_box := box, pr_brksize := brkp - pr_brkbase p\<rparr>\<rparr>)))"
proof -
  note a = brk_area [OF assms(1), folded p_def]
  have lt: "\<not> pr_brkbase p + lo_brksize (pr_opts p) \<le> brkp"
    using assms(3) a(4) by (simp add: u64_le_iff p_def)
  have nb: "\<not> brkp < pr_brkbase p" using assms(2) by (simp add: p_def)
  have sz: "unat (brkp - pr_brkbase p) = unat brkp - unat (pr_brkbase p)" using assms(2) by (simp add: unat_sub p_def)
  have ok: "brkp - pr_brkbase p < lo_brksize (pr_opts p)"
    using sz assms(2,3) by (simp add: u64_arith p_def)
  have eq: "brkp - pr_brkbase p = pr_brksize p \<longleftrightarrow> brkp = pr_brkbase p + pr_brksize p" by (auto simp: algebra_simps)
  have newbrk: "pr_brkbase p + (brkp - pr_brkbase p) = brkp" by simp
  have same: "p\<lparr>pr_box := pr_box p, pr_brksize := x\<rparr> = p\<lparr>pr_brksize := x\<rparr>" for x by simp
  have "sys_brk env addr t =
     (let newsize = brkp - pr_brkbase p in
      if newsize = pr_brksize p then Inr (brkp, t)
      else
        rbind (if brkp \<ge> pr_brkbase p + pr_brksize p then
                 lps_box_mapat (ev_vm env) (pr_box p) (brk_next p) (newsize - pr_brksize p) (PROT_READ OR PROT_WRITE)
                   (LINUX_MAP_PRIVATE OR LINUX_MAP_ANONYMOUS) (- 1) 0
               else Inr (0, pr_box p)) (\<lambda>(mp, box).
        if brkp \<ge> pr_brkbase p + pr_brksize p \<and> mp = - 1 then Inr (- 1, t\<lparr>th_proc := p\<lparr>pr_box := box\<rparr>\<rparr>)
        else Inr (pr_brkbase p + newsize, t\<lparr>th_proc := p\<lparr>pr_box := box, pr_brksize := newsize\<rparr>\<rparr>)))"
  proof (cases "addr = 0")
    case True
    then show ?thesis using assms(4) lt ok nb unfolding sys_brk_def Let_def brk_next_def p_def [symmetric]
      by (simp cong: if_cong)
  next
    case False
    then have g: "ptrcheck t addr" "brkp = (if addr < pr_brkbase p then pr_brkbase p else addr)" using assms(4) by (auto simp: p_def)
    show ?thesis
    proof (cases "addr < pr_brkbase p")
      case True
      then show ?thesis using g False lt ok nb unfolding sys_brk_def Let_def brk_next_def p_def [symmetric]
        by (simp cong: if_cong)
    next
      case ge: False
      then show ?thesis using g False lt ok nb unfolding sys_brk_def Let_def brk_next_def p_def [symmetric]
        by (simp cong: if_cong)
    qed
  qed
  then show ?thesis unfolding Let_def eq newbrk
    by (cases rule: linorder_cases [of brkp "pr_brkbase p + pr_brksize p"]) (auto simp: same dest: leD)
qed

lemma sys_brk_refused: "addr \<noteq> 0 \<Longrightarrow> \<not> ptrcheck t addr \<Longrightarrow> sys_brk env addr t = Inr (- 1, t)"
  by (simp add: sys_brk_def Let_def)

text \<open>A request for the end of the area or beyond runs into the assertion.\<close>

lemma sys_brk_beyond:
  assumes "th_confined env I t" "addr \<noteq> 0" "ptrcheck t addr"
    "unat (pr_brkbase (th_proc t)) + unat (lo_brksize (pr_opts (th_proc t))) \<le> unat addr"
  shows "sys_brk env addr t = Inl AssertFail"
proof -
  define p where "p = th_proc t"
  note a = brk_area [OF assms(1), folded p_def]
  have ge: "pr_brkbase p + lo_brksize (pr_opts p) \<le> addr" using assms(4) a(4) by (simp add: u64_le_iff p_def)
  have "\<not> addr < pr_brkbase p" using assms(4) by (simp add: u64_less_iff p_def)
  then show ?thesis using assms(2,3) ge unfolding sys_brk_def Let_def p_def [symmetric] by simp
qed

text \<open>A full break area, whose break does not move without a request to move it.\<close>

lemma sys_brk_full:
  assumes "th_confined env I t" "pr_brksize (th_proc t) = lo_brksize (pr_opts (th_proc t))"
  shows "sys_brk env 0 t = Inl AssertFail"
proof -
  define p where "p = th_proc t"
  note a = brk_area [OF assms(1), folded p_def]
  have "\<not> pr_brkbase p + lo_brksize (pr_opts p) < pr_brkbase p" using a(4) by (simp add: u64_less_iff)
  then show ?thesis using assms(2) unfolding sys_brk_def Let_def p_def [symmetric] by simp
qed

lemma brk_cases:
  assumes "th_confined env I t"
  obtains (refused) "addr \<noteq> 0" "\<not> ptrcheck t addr"
  | (aborts) "sys_brk env addr t = Inl AssertFail"
  | (moves) brkp where "pr_brkbase (th_proc t) \<le> brkp"
    "unat brkp < unat (pr_brkbase (th_proc t)) + unat (lo_brksize (pr_opts (th_proc t)))"
    "addr = 0 \<and> brkp = pr_brkbase (th_proc t) + pr_brksize (th_proc t) \<or>
     addr \<noteq> 0 \<and> ptrcheck t addr \<and> brkp = (if addr < pr_brkbase (th_proc t) then pr_brkbase (th_proc t) else addr)"
proof -
  note a = brk_area [OF assms]
  let ?p = "th_proc t"
  show thesis
  proof (cases "addr = 0")
    case True
    show thesis
    proof (cases "pr_brksize ?p = lo_brksize (pr_opts ?p)")
      case True
      then show thesis using aborts sys_brk_full [OF assms] \<open>addr = 0\<close> by simp
    next
      case False
      then have "unat (pr_brksize ?p) < unat (lo_brksize (pr_opts ?p))" using a(7) by (simp add: u64_eq_iff)
      then show thesis using moves [of "pr_brkbase ?p + pr_brksize ?p"] a(3) True by (simp add: u64_le_iff)
    qed
  next
    case nz: False
    show thesis
    proof (cases "ptrcheck t addr")
      case True
      show thesis
      proof (cases "unat (pr_brkbase ?p) + unat (lo_brksize (pr_opts ?p)) \<le> unat addr")
        case True
        then show thesis using aborts sys_brk_beyond [OF assms nz \<open>ptrcheck t addr\<close>] by simp
      next
        case False
        show thesis
        proof (cases "addr < pr_brkbase ?p")
          case True
          show thesis
          proof (cases "lo_brksize (pr_opts ?p) = 0")
            case True
            then have "sys_brk env addr t = Inl AssertFail"
              using nz \<open>ptrcheck t addr\<close> \<open>addr < pr_brkbase ?p\<close> unfolding sys_brk_def Let_def by simp
            then show thesis by (rule aborts)
          next
            case False
            then have "0 < unat (lo_brksize (pr_opts ?p))" by (simp add: unat_gt_0)
            then show thesis using moves [of "pr_brkbase ?p"] nz True \<open>ptrcheck t addr\<close> by simp
          qed
        next
          case ge: False
          then show thesis using moves [of addr] nz False \<open>ptrcheck t addr\<close> by simp
        qed
      qed
    qed (use nz refused in blast)
  qed
qed

lemma ok_sys_brk [handler]:
  assumes "th_confined env I t"
  shows "ok_res env I t (sys_brk env addr t)"
  using assms
proof (cases rule: brk_cases [where addr = addr])
  case refused
  then show ?thesis unfolding sys_brk_refused [OF refused] by (intro ok_return [OF assms])
next
  case aborts
  then show ?thesis by (simp add: ok_fault)
next
  case (moves brkp)
  define p where "p = th_proc t"
  note a = brk_area [OF assms, folded p_def] and n = brk_next_at [OF assms, folded p_def]
  have sz: "unat (brkp - pr_brkbase p) = unat brkp - unat (pr_brkbase p)" using moves(1) by (simp add: unat_sub p_def)
  then have le: "brkp - pr_brkbase p \<le> lo_brksize (pr_opts p)" using moves(2) by (simp add: u64_le_iff p_def)
  have kept: "th_kept I t (t\<lparr>th_proc := p'\<lparr>pr_brksize := n\<rparr>\<rparr>)"
    if "proc_kept I p p'" "n \<le> lo_brksize (pr_opts p)" "pr_brkbase p' = pr_brkbase p" "pr_opts p' = pr_opts p" "pr_fds p' = pr_fds p"
      "pr_cwd p' = pr_cwd p" for p' n
    using that th_confined_parts(4) [OF assms] th_confined_fds [OF assms]
    by (intro th_kept_proc [OF assms]) (simp_all add: p_def)
  have refl: "proc_kept I p p" using proc_kept_refl [OF th_confined_parts(1) [OF assms]] by (simp add: p_def)
  have grow: "proc_kept I p (p\<lparr>pr_box := box\<rparr>)"
    if lt: "pr_brkbase p + pr_brksize p < brkp" and m: "lps_box_mapat (ev_vm env) (pr_box p) (brk_next p)
        (brkp - pr_brkbase p - pr_brksize p) prot flags fd off = Inr (r, box)" for prot flags fd off r box
  proof -
    have lt': "unat (pr_brkbase p) + unat (pr_brksize p) < unat brkp" using lt a(3) by (simp add: u64_less_iff)
    have d: "unat (brkp - pr_brkbase p - pr_brksize p) = unat brkp - unat (pr_brkbase p) - unat (pr_brksize p)"
      using lt' sz by (simp add: unat_sub u64_le_iff)
    have "round_up 4096 (unat (pr_brksize p)) < unat (pr_brksize p) + 4096" by (rule round_up_less) simp
    then have "unat (brk_next p) + unat (brkp - pr_brkbase p - pr_brksize p) < 2 ^ 64"
      using n(2) d lt' moves(2) a(5) box_hi_page [OF assms] by (simp add: p_def)
    moreover have "brkp - pr_brkbase p - pr_brksize p \<noteq> 0" using d lt' by (intro notI) simp
    ultimately show ?thesis using mapat_thread [OF assms _ _ _ m [unfolded p_def]] n(1) by (simp add: p_def)
  qed
  show ?thesis
    unfolding sys_brk_move [OF assms moves, folded p_def]
  proof (intro ok_if ok_return [OF assms])
    show "ok_res env I t (Inr (v, t\<lparr>th_proc := p\<lparr>pr_brksize := brkp - pr_brkbase p\<rparr>\<rparr>))" for v :: u64
      by (intro ok_kept kept refl le) simp_all
    assume "brkp \<noteq> pr_brkbase p + pr_brksize p" "\<not> brkp < pr_brkbase p + pr_brksize p"
    then have lt: "pr_brkbase p + pr_brksize p < brkp" by simp
    show "ok_res env I t (rbind (lps_box_mapat (ev_vm env) (pr_box p) (brk_next p) (brkp - pr_brkbase p - pr_brksize p)
          (PROT_READ OR PROT_WRITE) (LINUX_MAP_PRIVATE OR LINUX_MAP_ANONYMOUS) (- 1) 0) (\<lambda>(mp, box).
        if mp = - 1 then Inr (- 1, t\<lparr>th_proc := p\<lparr>pr_box := box\<rparr>\<rparr>)
        else Inr (brkp, t\<lparr>th_proc := p\<lparr>pr_box := box, pr_brksize := brkp - pr_brkbase p\<rparr>\<rparr>)))"
    proof (cases "lps_box_mapat (ev_vm env) (pr_box p) (brk_next p) (brkp - pr_brkbase p - pr_brksize p)
          (PROT_READ OR PROT_WRITE) (LINUX_MAP_PRIVATE OR LINUX_MAP_ANONYMOUS) (- 1) 0")
      case (Inr x)
      obtain mp box where x: "x = (mp, box)" by (cases x)
      note g = grow [OF lt Inr [unfolded x]]
      have "th_kept I t (t\<lparr>th_proc := p\<lparr>pr_box := box\<rparr>\<rparr>)" using th_kept_box [OF assms] g by (simp add: p_def)
      moreover have "th_kept I t (t\<lparr>th_proc := p\<lparr>pr_box := box, pr_brksize := brkp - pr_brkbase p\<rparr>\<rparr>)"
        using kept [OF g le] by simp
      ultimately show ?thesis using Inr x by (simp add: ok_kept)
    qed (simp add: ok_fault)
  qed
qed

section \<open>The other handlers\<close>

lemma ok_sys_openat [handler]:
  assumes "th_confined env I t"
  shows "ok_res env I t (sys_openat env dirfd p flags mode t)"
  unfolding sys_openat_def pathcopyresolve_def
proof (intro ok_if ok_return [OF assms] ok_path [OF assms])
  fix path t1
  assume c: "th_confined env I t1"
  obtain r w where o: "ev_os env (H_open path (openflags flags) mode) (th_world t1) = (r, w)" by (rule prod.exhaust)
  have "I w" using os_kept [OF c th_confined_world [OF c], of "H_open path (openflags flags) mode"] o by simp
  then have k: "th_kept I t1 (th_set_world t1 w)" by (rule th_kept_world [OF c])
  note c2 = th_kept_confined [OF k c]
  have f: "ok_res env I t1 (Inr (v, th_set_files (th_set_world t1 w) fh fds))" if "length fds = LINUX_NOFILE" for v :: cint and fh fds
    by (intro ok_after [OF k] ok_kept th_kept_files [OF c2] that)
  have "ok_res env I t1 (rbind (fdfassign fh (pr_fds (th_proc (th_set_world t1 w))) a) (\<lambda>(fd, fh, fds).
      let t = th_set_files (th_set_world t1 w) fh fds in if sint fd < 0 then Inr (- LINUX_EMFILE, t) else Inr (fd, t)))" for fh a
    using f fdfassign_length [of fh _ a] th_confined_fds [OF c2]
    by (cases "fdfassign fh (pr_fds (th_proc (th_set_world t1 w))) a") (auto simp: ok_fault Let_def)
  moreover have "ok_res env I t1 (Inr (v, th_set_world t1 w))" for v :: cint by (rule ok_kept [OF k])
  ultimately show "ok_res env I t1
     (case ev_os env (H_open path (openflags flags) mode) (th_world t1) of
      (r, w) \<Rightarrow>
        let t = th_set_world t1 w; kfd = ucast (hr_ret r)
        in if sint kfd < 0 then Inr (host_err (hr_errno r), t)
           else case filenew kfd (Some path) (th_files t) of
                (None, fh) \<Rightarrow> Inr (- LINUX_ENOENT, th_set_files t fh (pr_fds (th_proc t)))
              | (Some f, fh) \<Rightarrow>
                  rbind (fdfassign fh (pr_fds (th_proc t)) f)
                   (\<lambda>(fd, fh, fds).
                       let t = th_set_files t fh fds
                       in if sint fd < 0 then Inr (- LINUX_EMFILE, t) else Inr (fd, t)))"
    using f [OF th_confined_fds [OF c2]] unfolding o by (auto simp: Let_def split: prod.splits option.splits)
qed (erule ok_return)

lemma ok_sys_close [handler]: "th_confined env I t \<Longrightarrow> ok_res env I t (sys_close fd t)"
  unfolding sys_close_def
  by (auto simp: ok_res_def rbind_Inr_iff intro!: th_kept_files dest!: fdfclose_length dest: th_confined_fds th_kept_refl)

lemma ok_fdfdup2:
  "th_confined env I t \<Longrightarrow>
   ok_res env I t (rbind (fdfdup2 (th_files t) (pr_fds (th_proc t)) a b) (\<lambda>(r, fh, fds). Inr (r, th_set_files t fh fds)))"
  by (auto simp: ok_res_def rbind_Inr_iff intro!: th_kept_files dest!: fdfdup2_length dest: th_confined_fds)

lemma ok_sys_dup [handler]: "th_confined env I t \<Longrightarrow> ok_res env I t (sys_dup fd t)"
  unfolding sys_dup_def by (rule ok_fdfdup2)

lemma ok_sys_dup3 [handler]: "th_confined env I t \<Longrightarrow> ok_res env I t (sys_dup3 a b flags t)"
  unfolding sys_dup3_def by (intro ok_if ok_return ok_fdfdup2)

lemma bufcheck_kept: "th_kept I t t1 \<Longrightarrow> bufcheck t1 a n al = bufcheck t a n al"
proof -
  assume "th_kept I t t1"
  then have "ptrcheck t1 q = ptrcheck t q" for q by (simp add: ptrcheck_def lps_box_ptrvalid_def th_kept_def proc_kept_def)
  then show "bufcheck t1 a n al = bufcheck t a n al" by (simp add: bufcheck_def)
qed

lemma ok_sys_newfstatat [handler]:
  assumes "th_confined env I t"
  shows "ok_res env I t (sys_newfstatat env fd p sp flags t)"
  unfolding sys_newfstatat_def pathcopyresolve_def
proof (intro ok_bufhost [OF assms] ok_if ok_return [OF assms] ok_path [OF assms] ok_with_file [OF assms] ok_if_fn [OF assms]
    ok_call_fn ok_fault)
  fix path t1
  assume b: "bufcheck t sp sizeof_Stat 8" and k: "th_kept I t t1" and c: "th_confined env I t1"
  have "bufcheck t1 sp sizeof_Stat 8" using b bufcheck_kept [OF k] by simp
  then show "ok_res env I t1 (on_world (host_fstatat (ev_os env) LINUX_AT_FDCWD path buf flags) t1)" if "buf = sp" for buf
    using that by (intro ok_on_world [OF c]) (rule fstatat_kept [OF c], simp_all)
next
  fix f buf
  assume "bufcheck t sp sizeof_Stat 8" "buf = sp"
  then show "ok_res env I t (on_world (kstat_op (ev_os env) (th_files t) (f_dev f) buf) t)"
    by (intro ok_on_world [OF assms]) (auto simp: kstat_op_def rbind_Inr_iff intro: fstatat_kept [OF assms])
qed (auto intro: ok_return)

lemma ok_sys_truncate [handler]: "th_confined env I t \<Longrightarrow> ok_res env I t (sys_truncate env p len t)"
  unfolding sys_truncate_def by (rule ok_path_call) simp_all

lemma ok_sys_mkdirat [handler]: "th_confined env I t \<Longrightarrow> ok_res env I t (sys_mkdirat env fd p mode t)"
  unfolding sys_mkdirat_def by (intro ok_if ok_return ok_path_call) simp_all

lemma ok_sys_unlinkat [handler]: "th_confined env I t \<Longrightarrow> ok_res env I t (sys_unlinkat env fd p flags t)"
  unfolding sys_unlinkat_def by (intro ok_if ok_return ok_path_call) simp_all

lemma ok_sys_renameat2 [handler]: "th_confined env I t \<Longrightarrow> ok_res env I t (sys_renameat2 env od op nd np flags t)"
  unfolding sys_renameat2_def sys_renameat_def pathcopyresolve_def
  by (intro ok_if ok_return ok_path ok_path_call) simp_all

lemma ok_sys_faccessat [handler]: "th_confined env I t \<Longrightarrow> ok_res env I t (sys_faccessat env fd p mode t)"
  unfolding sys_faccessat_def by (intro ok_if ok_return ok_path_call) simp_all

lemma ok_sys_readlinkat [handler]:
  assumes "th_confined env I t"
  shows "ok_res env I t (sys_readlinkat env fd p bufp n t)"
  unfolding sys_readlinkat_def pathcopyresolve_def
proof (intro ok_if ok_return [OF assms] ok_path [OF assms])
  fix path t1
  assume c: "th_confined env I t1"
  show "ok_res env I t1 (case bufhost t1 bufp n 1 of None \<Rightarrow> Inr (- LINUX_EINVAL, t1)
      | Some buf \<Rightarrow> on_world (\<lambda>w. Inr (call_ssize (ev_os env) (H_readlink path buf n) w)) t1)"
  proof (intro ok_bufhost [OF c] ok_return [OF c] ok_on_world [OF c])
    fix buf r w'
    assume "buf = bufp" "buf_in (box_lo (th_box t1)) (box_hi (th_box t1)) bufp n"
      "Inr (call_ssize (ev_os env) (H_readlink path buf n) (th_world t1)) = Inr (r, w')"
    then show "I w'" using os_kept [OF c th_confined_world [OF c], of "H_readlink path buf n"]
      by (auto simp: call_ssize_def case_prod_unfold)
  qed
qed (erule ok_return)

lemma ok_sys_getrandom [handler]:
  assumes "th_confined env I t"
  shows "ok_res env I t (sys_getrandom env bufp n flags t)"
  unfolding sys_getrandom_def
proof (intro ok_bufhost [OF assms] ok_if ok_return [OF assms] ok_on_world [OF assms])
  fix buf r w'
  assume "buf = bufp" "buf_in (box_lo (th_box t)) (box_hi (th_box t)) bufp n"
    "Inr (host_getrandom (ev_os env) buf n flags (th_world t)) = Inr (r, w')"
  then show "I w'" using os_kept [OF assms th_confined_world [OF assms], of "H_getrandom buf n (randomflags flags)"]
    by (auto simp: host_getrandom_def case_prod_unfold split: if_splits)
qed

lemma proc_chdir_kept:
  assumes "th_confined env I t" "proc_chdir (th_proc t) path = Inr (r, p)"
  shows "th_kept I t (t\<lparr>th_proc := p\<rparr>)"
proof -
  have "p = th_proc t \<or> (\<exists>s. length s < FILENAME_MAX \<and> p = (th_proc t)\<lparr>pr_cwd := s\<rparr>)"
  proof (cases "cwk_path_is_absolute CWK_STYLE_UNIX path")
    case True
    then show ?thesis using assms(2) by (intro disjI2 exI [of _ "take (FILENAME_MAX - 1) path"]) (auto simp: proc_chdir_def)
  next
    case False
    show ?thesis
    proof (cases "pr_cwd (th_proc t) = []")
      case True
      then show ?thesis using assms(2) False by (simp add: proc_chdir_def)
    next
      case ne: False
      then obtain n joined where "p = (th_proc t)\<lparr>pr_cwd := take (FILENAME_MAX - 1) (takeWhile (\<lambda>c. c \<noteq> NUL) joined)\<rparr>"
        using assms(2) False unfolding proc_chdir_def by (auto simp: rbind_Inr_iff)
      then show ?thesis by (intro disjI2 exI [of _ "take (FILENAME_MAX - 1) (takeWhile (\<lambda>c. c \<noteq> NUL) joined)"]) simp
    qed
  qed
  moreover have "th_kept I t (t\<lparr>th_proc := (th_proc t)\<lparr>pr_cwd := s\<rparr>\<rparr>)" if "length s < FILENAME_MAX" for s
    using that th_confined_parts [OF assms(1)] th_confined_fds [OF assms(1)] proc_kept_refl [of "ev_vm env" I "th_proc t"]
    by (intro th_kept_proc [OF assms(1)]) simp_all
  ultimately show ?thesis using th_kept_refl [OF assms(1)] by auto
qed

lemma ok_chdir: "th_confined env I t \<Longrightarrow> ok_res env I t (rbind (proc_chdir (th_proc t) path) (\<lambda>(r, p). Inr (r, t\<lparr>th_proc := p\<rparr>)))"
  using proc_chdir_kept by (auto simp: ok_res_def rbind_Inr_iff)

lemma ok_sys_chdir [handler]: "th_confined env I t \<Longrightarrow> ok_res env I t (sys_chdir env p t)"
  unfolding sys_chdir_def by (intro ok_path ok_return ok_chdir)

lemma ok_sys_fchdir [handler]:
  assumes "th_confined env I t"
  shows "ok_res env I t (sys_fchdir fd t)"
  unfolding sys_fchdir_def
proof (intro ok_with_file [OF assms])
  fix f
  show "ok_res env I t (rbind (initialised (f_path f)) (\<lambda>dir.
       case dir of
         None \<Rightarrow> Inr (- LINUX_ENOTDIR, t)
       | Some dir \<Rightarrow> rbind (proc_chdir (th_proc t) dir) (\<lambda>(r, p). Inr (r, t\<lparr>th_proc := p\<rparr>))))"
    using ok_chdir [OF assms] ok_return [OF assms]
    by (cases "f_path f") (auto simp: initialised_def ok_fault split: option.splits)
qed

text \<open>The length \<open>getcwd\<close> computes, for a buffer smaller than 2 GiB.\<close>

lemma getcwd_len:
  assumes "unat (sz :: u64) < 2 ^ 31" "n \<le> 4096"
  shows "unat (int_to_u64 (c_MIN (ucast sz) (of_nat n))) = min (unat sz) n"
proof -
  have s: "sint (ucast sz :: cint) = int (unat sz)" "int_to_u64 (ucast sz) = sz" using count_as_int [OF assms(1)] by simp_all
  have un: "unat (of_nat n :: cint) = n"
    using assms(2) by (simp only: unsigned_of_nat) (simp add: take_bit_nat_eq_self)
  have n: "sint (of_nat n :: cint) = int n" "unat (int_to_u64 (of_nat n :: cint)) = n"
    using sint_small [of "of_nat n"] int_to_u64_small [of "of_nat n"] un assms(2) by simp_all
  show ?thesis
  proof (cases "unat sz < n")
    case True
    then have "c_MIN (ucast sz) (of_nat n) = ucast sz" by (simp only: c_MIN_def s n of_nat_less_iff if_True)
    then show ?thesis using s True by simp
  next
    case False
    then have "c_MIN (ucast sz) (of_nat n) = of_nat n" by (simp only: c_MIN_def s n of_nat_less_iff if_False)
    then show ?thesis using n False by simp
  qed
qed

lemma ok_sys_getcwd:
  assumes "th_confined env I t" "unat sz < 2 ^ 31"
  shows "ok_res env I t (sys_getcwd p sz t)"
  unfolding sys_getcwd_def
proof (intro ok_if ok_return [OF assms(1)] ok_bufhost [OF assms(1)])
  fix buf
  assume nz: "sz \<noteq> 0" and b: "buf = p" "bufcheck t p sz 1"
  let ?cwd = "pr_cwd (th_proc t)"
  let ?len = "int_to_u64 (c_MIN (ucast sz) (of_nat (length ?cwd + 1)))"
  let ?bytes = "map (\<lambda>c. of_nat (of_char c)) ?cwd @ [0] :: u8 list"
  have cwd: "length ?cwd < FILENAME_MAX" by (rule th_confined_parts(4) [OF assms(1)])
  have len: "unat ?len = min (unat sz) (length ?cwd + 1)" by (rule getcwd_len [OF assms(2)]) (use cwd in simp)
  have "0 < unat sz" using nz by (simp add: unat_gt_0)
  then have pos: "0 < unat ?len" using len by simp
  have sm: "unat sz < 2 ^ 62" using assms(2) by simp
  note rg = buf_in_small [OF assms(1) b(2) sm]
  have hi: "unat p + unat ?len \<le> box_hi (th_box t)" using rg(1) len by linarith
  have last: "unat (p + ?len - 1) = unat p + unat ?len - 1"
  proof -
    have "unat (p + ?len) = unat p + unat ?len" using hi th_box_limit [OF assms(1)] by (intro unat_add_nowrap) simp
    moreover then have "p + ?len \<noteq> 0" using pos by (intro notI) simp
    ultimately show ?thesis by (simp add: unat_minus_one)
  qed
  have "length (take (unat ?len) ?bytes) = unat ?len" using len by simp
  then have k1: "I ((th_world t)\<lparr>w_mem := store_bytes p (take (unat ?len) ?bytes) (w_mem (th_world t))\<rparr>)"
    using th_confined_mem [OF assms(1)] th_confined_world [OF assms(1)] rg(2) hi unfolding mem_keeps_def by simp
  have "box_lo (th_box t) \<le> unat (p + ?len - 1)" "unat (p + ?len - 1) + length [0 :: u8] \<le> box_hi (th_box t)"
    using last hi rg(2) pos by simp_all
  then have "I ((th_world t)\<lparr>w_mem := store_bytes (p + ?len - 1) [0] (store_bytes p (take (unat ?len) ?bytes) (w_mem (th_world t)))\<rparr>)"
    using th_confined_mem [OF assms(1)] k1 unfolding mem_keeps_def by fastforce
  then have "th_kept I t (th_set_world t ((th_world t)\<lparr>w_mem := store_bytes (p + ?len - 1) [0] (store_bytes p (take (unat ?len) ?bytes) (w_mem (th_world t)))\<rparr>))"
    by (rule th_kept_world [OF assms(1)])
  then have "th_kept I t (t\<lparr>th_proc := pr_set_mem (th_proc t) (store_bytes (p + ?len - 1) [0] \<circ> store_bytes p (take (unat ?len) ?bytes))\<rparr>)"
    by (simp add: th_set_world_def pr_set_mem_def th_world_def)
  then show "ok_res env I t
     (let cwd = ?cwd; len = int_to_u64 (c_MIN (ucast sz) (of_nat (length cwd + 1)));
          bytes = map (\<lambda>c. of_nat (of_char c)) cwd @ [0] in
      if unat len > length bytes then Inl OutOfBounds
      else
        Inr (len, t\<lparr>th_proc := pr_set_mem (th_proc t)
          (store_bytes (buf + len - 1) [0] \<circ> store_bytes buf (take (unat len) bytes))\<rparr>))"
    unfolding Let_def b(1) by (intro ok_if ok_fault ok_kept)
qed

text \<open>A call of the kernel without a buffer, after which members of a structure are written.\<close>

lemma kernel_then_store:
  assumes "th_confined env I t" "ev_os env c (th_world t) = (r, w)" "call_buf c = None" "\<forall>n a. c \<noteq> H_syscall n a"
  shows "th_kept I t (th_set_world t w)"
    "bufcheck t p sz al \<Longrightarrow> unat sz < 2 ^ 62 \<Longrightarrow> \<forall>(off, k, v) \<in> set fs. off + k \<le> unat sz \<Longrightarrow>
      th_kept I t (th_store (th_set_world t w) p fs)"
proof -
  have "I w" using os_kept [OF assms(1) th_confined_world [OF assms(1)], of c] assms(2-4) by simp
  then show k: "th_kept I t (th_set_world t w)" by (rule th_kept_world [OF assms(1)])
  show "th_kept I t (th_store (th_set_world t w) p fs)"
    if "bufcheck t p sz al" "unat sz < 2 ^ 62" "\<forall>(off, k, v) \<in> set fs. off + k \<le> unat sz"
    by (rule th_kept_trans [OF k], rule th_store_kept [OF th_kept_confined [OF k assms(1)] _ that(2,3)]) (use that(1) in simp)
qed

lemma ok_sys_sysinfo [handler]:
  assumes "th_confined env I t"
  shows "ok_res env I t (sys_sysinfo env p t)"
  unfolding sys_sysinfo_def
proof (intro ok_bufhost [OF assms] ok_return [OF assms])
  fix buf
  assume b: "buf = p" "bufcheck t p sizeof_SysInfo 8"
  obtain r w where o: "ev_os env H_sysinfo (th_world t) = (r, w)" by (rule prod.exhaust)
  note k = kernel_then_store [OF assms o]
  show "ok_res env I t (case ev_os env H_sysinfo (th_world t) of
             (r, w) \<Rightarrow>
               (let t = th_set_world t w; k = hr_sysinfo r in
                if sint (ucast (hr_ret r) :: cint) < 0 then Inr (host_err (hr_errno r), t)
                else
                  (case ki_loads k of (l0, l1, l2) \<Rightarrow>
                    Inr (0, th_store t buf
                      ([(8 * i, 8, 0). i \<leftarrow> [0 ..< 46]] @
                       [(0, 8, ki_uptime k), (32, 8, ki_totalram k), (40, 8, ki_freeram k), (48, 8, ki_sharedram k),
                        (56, 8, ki_bufferram k), (64, 8, ki_totalswap k), (72, 8, ki_freeswap k),
                        (80, 2, ucast (ki_procs k)), (88, 8, ki_totalhigh k), (96, 8, ki_freehigh k),
                        (104, 4, ucast (ki_mem_unit k)), (8, 8, l0), (16, 8, l1), (24, 8, l2)])))))"
    unfolding o Let_def b(1) prod.case
    by (intro ok_if) (auto split: prod.split intro!: ok_kept k(1) k(2) [OF _ _ b(2)])
qed

lemma str_fields_range: "off + length s + 1 \<le> n \<Longrightarrow> \<forall>(o1, k, v) \<in> set (str_fields off s). o1 + k \<le> n"
  by (auto simp: str_fields_def)

lemma ok_sys_uname [handler]:
  assumes "th_confined env I t"
  shows "ok_res env I t (sys_uname p t)"
  unfolding sys_uname_def
proof (intro ok_bufhost [OF assms] ok_return [OF assms] ok_kept)
  fix buf
  assume b: "buf = p" "bufcheck t p (5 * of_nat UTSNAME_LENGTH) 1"
  show "th_kept I t (th_store t buf
            (str_fields 0 ''Linux LPS'' @ str_fields UTSNAME_LENGTH ''lps-sandbox'' @
             str_fields (2 * UTSNAME_LENGTH) ''4.5.0-lps'' @ str_fields (3 * UTSNAME_LENGTH) ''0.0.0-unknown'' @
             str_fields (4 * UTSNAME_LENGTH) ''riscv64''))"
    unfolding b(1)
  proof (rule th_store_kept [OF assms b(2)])
    show "\<forall>(off, k, v) \<in> set (str_fields 0 ''Linux LPS'' @ str_fields UTSNAME_LENGTH ''lps-sandbox'' @
             str_fields (2 * UTSNAME_LENGTH) ''4.5.0-lps'' @ str_fields (3 * UTSNAME_LENGTH) ''0.0.0-unknown'' @
             str_fields (4 * UTSNAME_LENGTH) ''riscv64''). off + k \<le> unat (5 * of_nat UTSNAME_LENGTH :: u64)"
      unfolding set_append ball_Un by (intro conjI str_fields_range) simp_all
  qed simp
qed

lemma ok_sys_getrlimit [handler]:
  assumes "th_confined env I t"
  shows "ok_res env I t (sys_getrlimit res p t)"
  unfolding sys_getrlimit_def Let_def
  by (intro ok_bufhost [OF assms] ok_return [OF assms] ok_if ok_kept; simp)
     (use th_store_kept [OF assms] in auto)+

lemma ok_sys_ioctl [handler]:
  assumes "th_confined env I t"
  shows "ok_res env I t (sys_ioctl env fd req p t)"
  unfolding sys_ioctl_def
proof (intro ok_if ok_return [OF assms] ok_with_file [OF assms] ok_if_fn [OF assms] ok_call_fn ok_fault)
  fix f
  assume b: "\<not> \<not> bufcheck t p 8 2"
  show "ok_res env I t (rbind (kioctl (ev_os env) (th_files t) (f_dev f) LINUX_TIOCGWINSZ (th_world t)) (\<lambda>(e, r, w).
             let t = th_set_world t w; ws = hr_winsize r in
             if e \<noteq> 0 then Inr (- hr_errno r, t)
             else
               Inr (0, th_store t p
                 [(0, 2, ucast (kw_row ws)), (2, 2, ucast (kw_col ws)), (4, 2, ucast (kw_xpixel ws)), (6, 2, ucast (kw_ypixel ws))])))"
  proof (cases "kioctl (ev_os env) (th_files t) (f_dev f) LINUX_TIOCGWINSZ (th_world t)")
    case (Inr x)
    obtain e r w where x: "x = (e, r, w)" by (metis prod_cases3)
    obtain kfd where "w = snd (ev_os env (H_ioctl kfd LINUX_TIOCGWINSZ) (th_world t))" using file_calls(10) Inr x by blast
    then obtain y where o: "ev_os env (H_ioctl kfd LINUX_TIOCGWINSZ) (th_world t) = (y, w)" by (simp add: prod_eq_iff)
    note k = kernel_then_store [OF assms o]
    show ?thesis unfolding Inr x rbind_simps prod.case Let_def
      by (intro ok_if ok_kept) (use b in \<open>auto intro!: k(1) k(2) [where al = 2 and sz = 8]\<close>)
  qed (simp add: ok_fault)
qed

lemma ok_sys_nanosleep [handler]:
  assumes "th_confined env I t"
  shows "ok_res env I t (sys_nanosleep env rp mp t)"
proof -
  have k: "th_kept I t (th_set_world t w)" if "ev_os env (H_nanosleep s n) (th_world t) = (r, w)" for s n r w
    using kernel_then_store(1) [OF assms that] by simp
  show ?thesis
    unfolding sys_nanosleep_def Let_def
    by (intro ok_bufhost [OF assms] ok_return [OF assms])
       (auto split: prod.split option.split intro!: ok_if ok_fault ok_kept k)
qed

lemma ok_sys_clock_gettime [handler]:
  assumes "th_confined env I t"
  shows "ok_res env I t (sys_clock_gettime env cid p t)"
  unfolding sys_clock_gettime_def
proof (intro ok_bufhost [OF assms] ok_return [OF assms])
  fix buf
  assume b: "buf = p" "bufcheck t p 16 8"
  obtain r w where o: "ev_os env (H_clock_gettime cid) (th_world t) = (r, w)" by (rule prod.exhaust)
  note k = kernel_then_store [OF assms o]
  show "ok_res env I t (case ev_os env (H_clock_gettime cid) (th_world t) of
             (r, w) \<Rightarrow>
               (let t = th_set_world t w in
                if sint (ucast (hr_ret r) :: cint) < 0 then Inr (host_err (hr_errno r), t)
                else Inr (0, th_store t buf [(0, 8, fst (hr_time r)), (8, 8, snd (hr_time r))])))"
    unfolding o Let_def b(1) prod.case by (intro ok_if ok_kept k(1) k(2) [OF _ _ b(2)]) simp_all
qed

lemma ok_sys_set_tid_address [handler]: "th_confined env I t \<Longrightarrow> ok_res env I t (sys_set_tid_address p t)"
  unfolding sys_set_tid_address_def
  by (intro ok_if ok_return ok_kept) (auto simp: th_kept_def th_ok_def dest: th_kept_refl)

lemma ok_small_handlers [handler]:
  "th_confined env I t \<Longrightarrow> ok_res env I t (sys_gettid t)" "th_confined env I t \<Longrightarrow> ok_res env I t (sys_prctl op p t)"
  "th_confined env I t \<Longrightarrow> ok_res env I t (sys_ignore t)" "th_confined env I t \<Longrightarrow> ok_res env I t (sys_nosys t)"
  "th_confined env I t \<Longrightarrow> ok_res env I t (sys_runtime_call typ t)"
  by (auto simp: sys_gettid_def sys_prctl_def pr_set_name_def sys_ignore_def sys_nosys_def sys_runtime_call_def
      intro!: ok_if ok_return split: option.split)

lemma fdfree_keeps:
  assumes "os_keeps ho lo hi I" "dev_keeps dv lo hi I"
  shows "I w \<Longrightarrow> fdfree_loop ho dv fds fh w = Inr (fds', fh', w') \<Longrightarrow> I w' \<and> length fds' = length fds"
proof (induction fds arbitrary: fds' fh w)
  case (Cons p fds)
  have close: "I w1" if "call_close ho dv fh fp dev w = Inr (r, w1)" for fp dev r w1
  proof (cases fp)
    case KFile
    then have "kclose ho fh dev w = Inr (r, w1)" using that by (simp add: call_close_def)
    then obtain kfd where "w1 = snd (ho (H_close kfd) w)" using file_calls(9) by blast
    then show ?thesis using assms(1) Cons.prems(1) unfolding os_keeps_def by fastforce
  next
    case PipeFn
    then have "dv_close dv dev w = Inr (r, w1)" using that by (simp add: call_close_def)
    then show ?thesis using assms(2) Cons.prems(1) unfolding dev_keeps_def by blast
  qed (use that in \<open>simp_all add: call_close_def\<close>)
  show ?case
  proof (cases p)
    case None
    then show ?thesis using Cons by (fastforce simp: rbind_Inr_iff)
  next
    case (Some a)
    then obtain f :: FDFile and r w1 fds1 where s: "call_close ho dv fh (f_close f) (f_dev f) w = Inr (r, w1)"
      "fdfree_loop ho dv fds (set_file fh a None) w1 = Inr (fds1, fh', w')" "fds' = None # fds1"
      using Cons.prems(2) by (auto simp: rbind_Inr_iff)
    show ?thesis using Cons.IH [OF close [OF s(1)] s(2)] s(3) by simp
  qed
qed simp

lemma ok_sys_exit [handler]:
  assumes "th_confined env I t"
  shows "ok_res env I t (sys_exit env t)" "ok_res env I t (sys_exit_group env t)"
proof -
  let ?t = "t\<lparr>th_state := THREAD_EXITED\<rparr>"
  have c: "th_confined env I ?t" using assms by (simp add: th_confined_def th_ok_def)
  have "th_kept I t (th_set_world (th_set_files ?t fh fds) w)"
    if f: "fdfree (ev_os env) (ev_dev env) (pr_fds (th_proc ?t)) (th_files ?t) (th_world ?t) = Inr (fds, fh, w)" for fds fh w
  proof -
    have fl: "fdfree_loop (ev_os env) (ev_dev env) (pr_fds (th_proc ?t)) (th_files ?t) (th_world ?t) = Inr (fds, fh, w)"
      using f by (simp add: fdfree_def)
    have k: "os_keeps (ev_os env) (box_lo (th_box t)) (box_hi (th_box t)) I" "dev_keeps (ev_dev env) (box_lo (th_box t)) (box_hi (th_box t)) I"
      using assms by (simp_all add: th_confined_def)
    have "I w \<and> length fds = length (pr_fds (th_proc ?t))"
      by (rule fdfree_keeps [OF k th_confined_world [OF c] fl])
    then have w: "I w" "length fds = LINUX_NOFILE" using th_confined_fds [OF c] by simp_all
    have k1: "th_kept I ?t (th_set_files ?t fh fds)" by (rule th_kept_files [OF c w(2)])
    have "th_kept I ?t (th_set_world (th_set_files ?t fh fds) w)"
      by (rule th_kept_trans [OF k1], rule th_kept_world [OF th_kept_confined [OF k1 c] w(1)])
    then show ?thesis by (simp add: th_kept_def)
  qed
  then show "ok_res env I t (sys_exit env t)" "ok_res env I t (sys_exit_group env t)"
    by (auto simp: ok_res_def sys_exit_def sys_exit_group_def Let_def rbind_Inr_iff)
qed

section \<open>The dispatcher\<close>

lemma ok_ret: "ok_res env I t (h t) \<Longrightarrow> ok_res env I t (ret_word h t)" "ok_res env I t (h' t) \<Longrightarrow> ok_res env I t (ret_int h' t)"
  by (auto simp: ok_res_def ret_word_def ret_int_def rbind_Inr_iff)

text \<open>
  The requests the guarantees are about: the lengths of mappings stay below a quarter of the address
  space and the buffer of \<open>getcwd\<close> below 2 GiB.
\<close>

definition request_ok :: "u64 \<Rightarrow> u64 \<Rightarrow> bool" where
  "request_ok sysno a1 \<longleftrightarrow>
     (sysno \<in> {SYS_mmap, SYS_mprotect, SYS_munmap} \<longrightarrow> unat a1 < 2 ^ 62) \<and> (sysno = SYS_getcwd \<longrightarrow> unat a1 < 2 ^ 31)"

lemma ok_own_cases:
  assumes "th_confined env I t" "request_ok n a1"
  shows "(n, h) \<in> set (own_cases env a0 a1 a2 a3 a4 a5) \<Longrightarrow> ok_res env I t (h t)"
  using assms ok_sys_mmap [OF assms(1), of a1] ok_sys_mprotect [OF assms(1), of a1] ok_sys_munmap [OF assms(1), of a1]
  by (auto simp: own_cases_def request_ok_def intro!: ok_ret handler)

lemma ok_linux_cases:
  assumes "th_confined env I t" "request_ok n a1"
  shows "(n, h) \<in> set (linux_cases env a0 a1 a2 a3 a4 a5) \<Longrightarrow> ok_res env I t (h t)"
  using assms ok_sys_getcwd [OF assms(1), of a1]
  by (auto simp: linux_cases_def request_ok_def intro!: ok_ret handler)

lemma ok_syshandle:
  assumes "th_confined env I t" "request_ok sysno a1" "\<not> lo_passthrough (pr_opts (th_proc t))"
  shows "ok_res env I t (syshandle env sysno a0 a1 a2 a3 a4 a5 t)"
  using ok_own_cases [OF assms(1,2)] ok_linux_cases [OF assms(1,2)] assms(3) ok_fault
  by (auto simp: syshandle_def split: option.split dest!: map_of_SomeD)

text \<open>A break below the old one, and one above.\<close>

lemma sys_brk_shrink:
  fixes t :: "'k LPSThread"
  assumes t: "th_confined env I t"
  defines "p \<equiv> th_proc t"
  defines "B \<equiv> unat (pr_brkbase p)" and "S \<equiv> unat (pr_brksize p)" and "M \<equiv> unat (lo_brksize (pr_opts p))"
  assumes v: "addr \<noteq> 0" "ptrcheck t addr" "unat addr \<le> B + S" "unat addr < B + M" "0 < M"
  shows "sys_brk env addr t = Inr (max addr (pr_brkbase p), t\<lparr>th_proc := p\<lparr>pr_brksize := max addr (pr_brkbase p) - pr_brkbase p\<rparr>\<rparr>)"
proof -
  note a = brk_area [OF t, folded p_def, folded B_def S_def M_def]
  let ?b = "max addr (pr_brkbase p)"
  have ub: "unat ?b = max (unat addr) B" by (simp add: max_def u64_le_iff B_def)
  have e: "?b = (if addr < pr_brkbase p then pr_brkbase p else addr)" by (auto simp: max_def)
  have lo: "pr_brkbase p \<le> ?b" by (rule max.cobounded2)
  have hi: "unat ?b < unat (pr_brkbase p) + unat (lo_brksize (pr_opts p))" using v(4,5) ub by (simp add: B_def M_def)
  have m: "sys_brk env addr t =
     (if ?b = pr_brkbase p + pr_brksize p then Inr (?b, t)
      else if ?b < pr_brkbase p + pr_brksize p then Inr (?b, t\<lparr>th_proc := p\<lparr>pr_brksize := ?b - pr_brkbase p\<rparr>\<rparr>)
      else
        rbind (lps_box_mapat (ev_vm env) (pr_box p) (brk_next p) (?b - pr_brkbase p - pr_brksize p)
          (PROT_READ OR PROT_WRITE) (LINUX_MAP_PRIVATE OR LINUX_MAP_ANONYMOUS) (- 1) 0) (\<lambda>(mp, box).
        if mp = - 1 then Inr (- 1, t\<lparr>th_proc := p\<lparr>pr_box := box\<rparr>\<rparr>)
        else Inr (?b, t\<lparr>th_proc := p\<lparr>pr_box := box, pr_brksize := ?b - pr_brkbase p\<rparr>\<rparr>)))"
    using v(1,2) e by (intro sys_brk_move [OF t, folded p_def, OF lo hi] disjI2 conjI)
  have "unat ?b \<le> unat (pr_brkbase p + pr_brksize p)" using v(3) a(3) ub by simp
  then have "?b = pr_brkbase p + pr_brksize p \<or> ?b < pr_brkbase p + pr_brksize p" by (auto simp: u64_less_iff u64_eq_iff)
  then show ?thesis
  proof
    assume e: "?b = pr_brkbase p + pr_brksize p"
    then show ?thesis unfolding m unfolding e by (simp add: p_def)
  next
    assume l: "?b < pr_brkbase p + pr_brksize p"
    then show ?thesis unfolding m using less_imp_neq [OF l] by (simp only: if_True if_False simp_thms)
  qed
qed

lemma sys_brk_grow:
  fixes t :: "'k LPSThread"
  assumes t: "th_confined env I t"
  defines "p \<equiv> th_proc t"
  defines "B \<equiv> unat (pr_brkbase p)" and "S \<equiv> unat (pr_brksize p)" and "M \<equiv> unat (lo_brksize (pr_opts p))"
  assumes v: "addr \<noteq> 0" "ptrcheck t addr" "B + S < unat addr" "unat addr < B + M"
      "B + round_up 4096 S + (unat addr - (B + S)) \<le> box_hi (pr_box p)"
  shows "\<exists>box r first n. sys_brk env addr t = Inr (r, t\<lparr>th_proc := p\<lparr>pr_box := box, pr_brksize := (if r = - 1 then pr_brksize p else addr - pr_brkbase p)\<rparr>\<rparr>) \<and>
         (r = addr \<or> r = - 1) \<and> first * 4096 = B + round_up 4096 S \<and> n * 4096 = round_up 4096 (unat addr - (B + S)) \<and>
         box_pages box = (\<lambda>q. if first \<le> q \<and> q < first + n
           then (if r = - 1 then None else Some (new_info (PROT_READ OR PROT_WRITE) (LINUX_MAP_PRIVATE OR LINUX_MAP_ANONYMOUS) (- 1) 0))
           else box_pages (pr_box p) q)"
proof -
  note a = brk_area [OF t, folded p_def, folded B_def S_def M_def]
  note n = brk_next_at [OF t, folded p_def, folded B_def S_def]
  let ?sz = "addr - pr_brkbase p - pr_brksize p"
  let ?prot = "PROT_READ OR PROT_WRITE" and ?flags = "LINUX_MAP_PRIVATE OR LINUX_MAP_ANONYMOUS :: cint"
  have "unat (addr - pr_brkbase p) = unat addr - B" using v(3) by (simp add: unat_sub u64_le_iff B_def)
  then have sz: "unat ?sz = unat addr - (B + S)" using v(3) by (simp add: unat_sub u64_le_iff S_def)
  have nz: "?sz \<noteq> 0" using sz v(3) by (intro notI) simp
  have nb: "\<not> addr < pr_brkbase p" using v(3) by (simp add: u64_less_iff B_def)
  have m: "sys_brk env addr t =
    rbind (lps_box_mapat (ev_vm env) (pr_box p) (brk_next p) ?sz ?prot ?flags (- 1) 0) (\<lambda>(mp, box).
      if mp = - 1 then Inr (- 1, t\<lparr>th_proc := p\<lparr>pr_box := box\<rparr>\<rparr>)
      else Inr (addr, t\<lparr>th_proc := p\<lparr>pr_box := box, pr_brksize := addr - pr_brkbase p\<rparr>\<rparr>))"
  proof -
    have le: "unat (pr_brkbase p) \<le> unat addr" using v(3) by (simp add: B_def)
    have gt: "addr \<noteq> pr_brkbase p + pr_brksize p" "\<not> addr < pr_brkbase p + pr_brksize p"
      using v(3) a(3) by (auto simp: u64_less_iff)
    show ?thesis
      using sys_brk_move [OF t, of addr addr, folded p_def] v(1,2,4) le nb gt
      by (simp add: u64_le_iff B_def M_def p_def)
  qed
  note c = th_confined_parts [OF t, folded p_def]
  have hv: "none_ok (ev_vm env)" "fixed_or_fail (ev_vm env)" "host_keeps (ev_vm env) (box_lo (pr_box p)) (box_hi (pr_box p)) I" "I (box_host (pr_box p))"
    using c(1) by (simp_all add: proc_confined_def host_confined_def pr_world_def)
  have req: "box_req (pr_box p) (brk_next p) ?sz"
    by (rule box_reqI [OF c(5) n(1) nz]) (use n(2) sz v(5) a(6) in \<open>simp_all add: B_def\<close>)
  have p2: "mm_p2pagesize (s_mm (bx_st (pr_box p))) = 12" using c(5) by (simp add: box_ok_def)
  let ?first = "unat (brk_next p) div 2 ^ 12" and ?n = "pages_up 12 (unat ?sz)"
  obtain r box where b: "lps_box_mapat (ev_vm env) (pr_box p) (brk_next p) ?sz ?prot ?flags (- 1) 0 = Inr (r, box)"
    "r \<in> {brk_next p, - 1}"
    "box_pages box = (\<lambda>q. if ?first \<le> q \<and> q < ?first + ?n
      then (if r = - 1 then None else Some (new_info ?prot ?flags (- 1) 0)) else box_pages (pr_box p) q)"
    using box_mapat_ok [OF c(5,6) req hv, of ?prot ?flags "- 1" 0] p2 by auto
  have f: "?first * 4096 = B + round_up 4096 S" "?n * 4096 = round_up 4096 (unat addr - (B + S))"
    using n sz by (simp_all add: round_up_def pages_up_def)
  have a1: "addr \<noteq> - 1"
  proof
    assume "addr = - 1"
    then have "unat addr = 2 ^ 64 - 1" unfolding \<open>addr = - 1\<close> by (simp add: unsigned_minus_1_eq_mask mask_eq_exp_minus_1)
    moreover have "unat addr < 2 ^ 47" using v(2) ptrcheck_iff [OF t] th_box_user [OF t] by simp
    ultimately show False by simp
  qed
  show ?thesis
  proof (cases "r = - 1")
    case True
    have "p\<lparr>pr_box := box, pr_brksize := pr_brksize p\<rparr> = p\<lparr>pr_box := box\<rparr>" by simp
    then show ?thesis using m b f True
      by (intro exI [of _ box] exI [of _ "- 1"] exI [of _ ?first] exI [of _ ?n]) simp
  next
    case False
    then show ?thesis using m b f a1
      by (intro exI [of _ box] exI [of _ addr] exI [of _ ?first] exI [of _ ?n]) simp
  qed
qed

text \<open>The trap handler.\<close>

lemma arch_syshandle_step:
  assumes "th_confined env I t" "\<not> lo_passthrough (pr_opts (th_proc t))"
    "request_ok (r_a7 (th_regs t)) (r_a1 (th_regs t))"
  shows "case arch_syshandle env ticks t of
      Inl e \<Rightarrow> True
    | Inr (r, timer, t') \<Rightarrow>
        th_confined env I t' \<and> I (th_world t') \<and>
        bx_base (th_box t') = bx_base (th_box t) \<and> bx_size (th_box t') = bx_size (th_box t) \<and>
        pr_opts (th_proc t') = pr_opts (th_proc t) \<and>
        (ucause (th_regs t) = CAUSE_IRQ_U_TIME \<or> ucause (th_regs t) = CAUSE_DASICS_U_CHECK_FAULT \<and> dfreason (th_regs t) = DFR_EF) \<and>
        (ucause (th_regs t) = CAUSE_IRQ_U_TIME \<longrightarrow> t' = t \<and> timer = Some (ticks + 10000000)) \<and>
        (ucause (th_regs t) \<noteq> CAUSE_IRQ_U_TIME \<longrightarrow> timer = None \<and>
          (\<forall>v. r = Returned v \<or> r = Yielded v \<longrightarrow> th_regs t' = (th_regs t)\<lparr>uepc := uepc (th_regs t) + 4, r_a0 := v\<rparr>))"
proof (cases "ucause (th_regs t) = CAUSE_IRQ_U_TIME")
  case True
  then show ?thesis using assms(1) th_confined_world [OF assms(1)] by (simp add: arch_syshandle_def Let_def)
next
  case False
  let ?regs = "th_regs t"
  show ?thesis
  proof (cases "ucause ?regs = CAUSE_DASICS_U_CHECK_FAULT \<and> dfreason ?regs = DFR_EF")
    case False
    then show ?thesis using \<open>ucause (th_regs t) \<noteq> CAUSE_IRQ_U_TIME\<close>
      by (cases "ucause ?regs = CAUSE_DASICS_U_CHECK_FAULT") (simp_all add: arch_syshandle_def Let_def)
  next
    case call: True
    have set_regs: "th_confined env I (th_set_regs x rs) = th_confined env I x" for x rs
      by (simp add: th_confined_def th_set_regs_def th_ok_def)
    let ?t = "th_set_regs t (?regs\<lparr>uepc := uepc ?regs + 4\<rparr>)"
    have c: "th_confined env I ?t" "\<not> lo_passthrough (pr_opts (th_proc ?t))"
      using assms(1,2) set_regs by (simp_all add: th_set_regs_def)
    let ?s = "syshandle env (r_a7 ?regs) (r_a0 ?regs) (r_a1 ?regs) (r_a2 ?regs) (r_a3 ?regs) (r_a4 ?regs) (r_a5 ?regs) ?t"
    show ?thesis
    proof (cases ?s)
      case (Inl e)
      then show ?thesis using call by (simp add: arch_syshandle_def Let_def)
    next
      case (Inr x)
      obtain r t1 where x: "x = (r, t1)" by (cases x)
      have k: "th_kept I ?t t1" using ok_syshandle [OF c(1) assms(3) c(2)] Inr x by (auto simp: ok_res_def)
      have c1: "th_confined env I t1" by (rule th_kept_confined [OF k c(1)])
      have w: "I (th_world t1)" by (rule th_confined_world [OF c1])
      have same: "bx_base (th_box t1) = bx_base (th_box t)" "bx_size (th_box t1) = bx_size (th_box t)"
        "pr_opts (th_proc t1) = pr_opts (th_proc t)"
        using k by (simp_all add: th_kept_def proc_kept_def th_set_regs_def)
      have regs: "th_regs t1 = ?regs\<lparr>uepc := uepc ?regs + 4\<rparr>"
        using k by (simp add: th_kept_def th_regs_def th_set_regs_def)
      have a: "arch_syshandle env ticks t = Inr (r, None,
          case r of Exited \<Rightarrow> t1 | Returned v \<Rightarrow> th_set_regs t1 ((th_regs t1)\<lparr>r_a0 := v\<rparr>)
          | Yielded v \<Rightarrow> th_set_regs t1 ((th_regs t1)\<lparr>r_a0 := v\<rparr>))"
        using call Inr x by (cases r) (simp_all add: arch_syshandle_def Let_def)
      have w2: "th_world (th_set_regs t1 rs) = th_world t1" "th_regs (th_set_regs t1 rs) = rs" "th_proc (th_set_regs t1 rs) = th_proc t1" for rs
        by (simp_all add: th_world_def th_set_regs_def th_regs_def)
      show ?thesis unfolding a using c1 w same regs w2 set_regs [of t1] call by (cases r) simp_all
    qed
  qed
qed

section \<open>Properties\<close>

text \<open>
  C26: what the buffer check accepts. For a sandbox in the user half of the address space, a
  well-aligned buffer of at least one and less than \<open>2 ^ 62\<close> bytes passes exactly when all of it lies in
  the sandbox. For larger sizes the sum wraps: with any pointer behind the first two bytes of the sandbox
  the size \<open>2 ^ 64 - 1\<close> passes too.
\<close>

theorem bufcheck_exact:
  assumes "box_ok (th_box t)" "box_hi (th_box t) \<le> 2 ^ 47"
  shows "(n \<noteq> 0 \<and> unat n < 2 ^ 62 \<longrightarrow>
      (bufcheck t p n al \<longleftrightarrow> box_lo (th_box t) \<le> unat p \<and> unat p + unat n \<le> box_hi (th_box t) \<and> p mod al = 0)) \<and>
    (box_lo (th_box t) + 2 \<le> unat p \<and> unat p < box_hi (th_box t) \<longrightarrow> bufcheck t p (- 1) 1)"
proof -
  have lim: "box_hi (th_box t) < 2 ^ 64" using assms(2) by simp
  have ptr: "ptrcheck t q \<longleftrightarrow> box_lo (th_box t) \<le> unat q \<and> unat q < box_hi (th_box t)" for q
    using lim by (simp add: ptrcheck_def lps_box_ptrvalid_def u64_arith unat_add_nowrap)
  have ends: "bufcheck t p n al \<longleftrightarrow> ptrcheck t p \<and> ptrcheck t (p + n - 1) \<and> p mod al = 0" for n al by (simp add: bufcheck_def)
  have inside: "bufcheck t p n al \<longleftrightarrow> box_lo (th_box t) \<le> unat p \<and> unat p + unat n \<le> box_hi (th_box t) \<and> p mod al = 0"
    if n: "n \<noteq> 0" "unat n < 2 ^ 62"
  proof -
    have n0: "0 < unat n" using n(1) by (simp add: unat_gt_0)
    have e: "unat (p + n - 1) = unat p + unat n - 1" if "unat p < box_hi (th_box t)"
    proof -
      have s: "unat (p + n) = unat p + unat n" by (rule unat_add_nowrap) (use that assms(2) n(2) in simp)
      then have "p + n \<noteq> 0" using n0 by (intro notI) simp
      then show ?thesis using s by (simp add: unat_minus_one)
    qed
    show ?thesis
    proof (cases "unat p < box_hi (th_box t)")
      case True
      then show ?thesis using n0 by (cases "p mod al = 0") (auto simp: ends ptr e)
    next
      case False
      then show ?thesis using n0 by (cases "p mod al = 0") (auto simp: ends ptr)
    qed
  qed
  have wraps: "bufcheck t p (- 1) 1" if p: "box_lo (th_box t) + 2 \<le> unat p" "unat p < box_hi (th_box t)"
  proof -
    have "unat (2 :: u64) \<le> unat p" using p(1) by simp
    then have "unat (p - 2) = unat p - 2" by (simp add: unat_sub u64_le_iff)
    then have "box_lo (th_box t) \<le> unat (p - 2)" "unat (p - 2) < box_hi (th_box t)" using p by linarith+
    then have "ptrcheck t p" "ptrcheck t (p - 2)" using p unfolding ptr by linarith+
    then show ?thesis by (simp add: ends)
  qed
  show ?thesis
  proof (intro conjI impI)
    assume "n \<noteq> 0 \<and> unat n < 2 ^ 62"
    then show "bufcheck t p n al \<longleftrightarrow> box_lo (th_box t) \<le> unat p \<and> unat p + unat n \<le> box_hi (th_box t) \<and> p mod al = 0"
      by (elim conjE) (rule inside)
  next
    assume "box_lo (th_box t) + 2 \<le> unat p \<and> unat p < box_hi (th_box t)"
    then show "bufcheck t p (- 1) 1" by (elim conjE) (rule wraps)
  qed
qed




section \<open>Concrete runs\<close>

text \<open>A kernel whose calls succeed and do nothing, and no devices.\<close>

definition idle_os :: "'k hostos" where
  "idle_os c w =
     (\<lparr>hr_ret = 0, hr_errno = 0,
       hr_stat = \<lparr>ks_dev = 0, ks_ino = 0, ks_nlink = 0, ks_mode = 0, ks_uid = 0, ks_gid = 0, ks_rdev = 0, ks_size = 0,
         ks_blksize = 0, ks_blocks = 0, ks_atim = (0, 0), ks_mtim = (0, 0), ks_ctim = (0, 0)\<rparr>,
       hr_sysinfo = \<lparr>ki_uptime = 0, ki_loads = (0, 0, 0), ki_totalram = 0, ki_freeram = 0, ki_sharedram = 0, ki_bufferram = 0,
         ki_totalswap = 0, ki_freeswap = 0, ki_procs = 0, ki_totalhigh = 0, ki_freehigh = 0, ki_mem_unit = 0\<rparr>,
       hr_winsize = \<lparr>kw_row = 0, kw_col = 0, kw_xpixel = 0, kw_ypixel = 0\<rparr>, hr_time = (0, 0)\<rparr>, w)"

definition demo_env :: "'k env" where
  "demo_env = \<lparr>ev_vm = zero_host, ev_os = idle_os,
     ev_dev = \<lparr>dv_read = (\<lambda>dev a n w. Inl Unreachable), dv_write = (\<lambda>dev a n w. Inl Unreachable),
       dv_close = (\<lambda>dev w. Inl Unreachable)\<rparr>\<rparr>"

text \<open>A thread in the sandbox from \<open>0x40000000\<close> to \<open>0xc0000000\<close> that makes a call.\<close>

definition demo_regs :: "u64 \<Rightarrow> u64 \<Rightarrow> LPSRegs" where
  "demo_regs sysno a0 = zero_regs\<lparr>ucause := CAUSE_DASICS_U_CHECK_FAULT, dfreason := DFR_EF, r_a7 := sysno, r_a0 := a0\<rparr>"

definition demo_thread :: "LPSRegs \<Rightarrow> unit LPSThread" where
  "demo_thread regs =
     \<lparr>th_ctx = \<lparr>cx_regs = regs, cx_kregs = zero_kregs, cx_userdata = 0\<rparr>,
      th_stack = 0, th_stack_size = 0, th_ctidp = 0, th_tid = BASE_TID, th_state = THREAD_RUNNABLE,
      th_proc = demo_proc\<lparr>pr_brkbase := 0x50000000\<rparr>\<rparr>"

lemma demo_thread_confined:
  "th_confined demo_env (same_outside_range (\<lambda>_. 0) 0x40000000 0xc0000000) (demo_thread regs)"
proof -
  let ?I = "same_outside_range (\<lambda>_. 0) 0x40000000 0xc0000000 :: unit world \<Rightarrow> bool"
  have c: "proc_confined zero_host ?I (demo_proc\<lparr>pr_brkbase := 0x50000000\<rparr>)"
    using demo_proc_confined by (simp add: proc_confined_def proc_ok_def pr_world_def)
  then have ok: "proc_ok (demo_proc\<lparr>pr_brkbase := 0x50000000\<rparr>)" by (simp add: proc_confined_def)
  have "th_ok (demo_thread regs)"
    using ok demo_table_facts(1)
    by (simp add: th_ok_def demo_thread_def brk_ok_def demo_proc_def demo_proc_box_def BRKMAXSIZE_def)
  moreover have "malloc_keeps zero_host ?I" by (simp add: malloc_keeps_def zero_host_def)
  moreover have "os_keeps idle_os lo hi ?I" "dev_keeps (ev_dev demo_env) lo hi ?I" for lo hi
    by (simp_all add: os_keeps_def idle_os_def dev_keeps_def demo_env_def)
  ultimately show ?thesis
    using c by (simp add: th_confined_def demo_thread_def demo_env_def) (simp add: demo_proc_def demo_proc_box_def)
qed

theorem bufcheck_exact_witness:
  "bufcheck (demo_thread zero_regs) 0x40001000 (- 1) 1 \<and> \<not> bufcheck (demo_thread zero_regs) 0xbfffffff 2 1"
proof -
  have b: "box_ok (th_box (demo_thread zero_regs))" "box_hi (th_box (demo_thread zero_regs)) \<le> 2 ^ 47"
    using demo_thread_confined [of zero_regs] by (simp_all add: th_confined_def th_ok_def proc_ok_def)
  show ?thesis
    using bufcheck_exact [OF b, where p = "0x40001000"] bufcheck_exact [OF b, where n = 2 and p = "0xbfffffff" and al = 1]
    by (simp add: demo_thread_def demo_proc_def demo_proc_box_def)
qed

lemma demo_request: "\<not> lo_passthrough (pr_opts (th_proc (demo_thread regs)))" "request_ok SYS_brk b"
  by (simp_all add: demo_thread_def demo_proc_def request_ok_def)

lemma demo_brk: "sys_brk demo_env 0 (demo_thread regs) = Inr (0x50000000, demo_thread regs)"
  using sys_brk_move [OF demo_thread_confined [of regs], where brkp = "0x50000000" and addr = 0]
  by (simp add: demo_thread_def demo_proc_def BRKMAXSIZE_def)

lemma demo_brk_call: "syshandle demo_env SYS_brk 0 a1 a2 a3 a4 a5 (demo_thread regs) = Inr (Returned 0x50000000, demo_thread regs)"
  by (simp add: syshandle_def own_cases_def ret_word_def demo_brk)

lemma demo_thread_regs: "th_set_regs (demo_thread regs) regs' = demo_thread regs'" "th_regs (demo_thread regs) = regs"
  by (simp_all add: th_set_regs_def th_regs_def demo_thread_def)

lemma demo_trap:
  assumes "ucause regs = CAUSE_DASICS_U_CHECK_FAULT" "dfreason regs = DFR_EF" "r_a7 regs = SYS_brk" "r_a0 regs = 0"
  shows "arch_syshandle demo_env ticks (demo_thread regs) =
    Inr (Returned 0x50000000, None, demo_thread (regs\<lparr>uepc := uepc regs + 4, r_a0 := 0x50000000\<rparr>))"
  using assms by (simp add: arch_syshandle_def demo_thread_regs demo_brk_call)




end
