(* ===== verification/Sys_Edge.thy ===== *)
theory Sys_Edge
  imports Sys_Spec Cwalk_Spec
begin

text \<open>
  The working directory, whose paths the library resolves, and what the handlers do with requests nobody
  expects: closed descriptors, counts that wrap, buffers of gigabytes, results that are never computed.
\<close>

section \<open>The working directory\<close>

lemma split_slash_chars: "n \<in> set (split_slash p) \<Longrightarrow> set n \<subseteq> set p"
proof (induction p arbitrary: n)
  case (Cons c p)
  then show ?case by (cases "split_slash p") (fastforce split: if_splits)+
qed simp

lemma resolve_from: "n \<in> set (resolve absolute stack ns) \<Longrightarrow> n \<in> set stack \<union> set ns \<union> {''..''}"
proof (induction absolute stack ns rule: resolve.induct)
  case (2 absolute stack n ns)
  then show ?case by (cases stack) (auto split: if_splits)
qed simp

lemma slash_join_chars: "set (slash_join ns) \<subseteq> insert (CHR 0x2F) (\<Union> (set ` set ns))"
  by (induction ns rule: slash_join.induct) auto

lemma normal_path_string:
  assumes "\<forall>p \<in> set paths. c_string p"
  shows "c_string (normal_path paths)"
proof -
  let ?ns = "concat (map path_names paths)"
  have names: "c_string n" if "n \<in> set (resolve absolute [] ?ns)" for absolute n
    using resolve_from [OF that] assms split_slash_chars by (fastforce simp: path_names_def c_string_def NUL_def)
  have join: "c_string (slash_join (resolve absolute [] ?ns))" for absolute
    using slash_join_chars names by (fastforce simp: c_string_def NUL_def)
  then show ?thesis by (simp add: normal_path_def Let_def) (auto simp: c_string_def NUL_def)
qed

text \<open>The string a buffer holds.\<close>

lemma buffer_string:
  assumes "buffer_holds buffer s" "c_string s" "buffer \<noteq> []"
  shows "takeWhile (\<lambda>c. c \<noteq> NUL) buffer = take (length buffer - 1) s"
proof -
  let ?n = "min (length s) (length buffer - 1)"
  have "0 < length buffer" using assms(3) by simp
  then have l: "?n < length buffer" by linarith
  have b: "take ?n buffer = take ?n s" "buffer ! ?n = NUL"
    using assms(1,3) by (simp_all add: buffer_holds_def Let_def)
  have eq: "buffer = take ?n s @ NUL # drop (Suc ?n) buffer" using id_take_nth_drop [OF l] b(1,2) by simp
  have chars: "\<forall>c \<in> set (take ?n s). c \<noteq> NUL" using assms(2) set_take_subset by (fastforce simp: c_string_def)
  have "takeWhile (\<lambda>c. c \<noteq> NUL) (take ?n s @ NUL # drop (Suc ?n) buffer) = take ?n s"
    using chars by (subst takeWhile_append2) auto
  then have "takeWhile (\<lambda>c. c \<noteq> NUL) buffer = take ?n s" using eq by metis
  then show ?thesis by (cases "length s \<le> length buffer - 1") (simp_all add: min_def)
qed

text \<open>
  C27: the working directory. An absolute path is taken as it is, a relative one joined to the working
  directory with every \<open>.\<close> and \<open>..\<close> resolved; both are cut to the size of the buffer. Without a working
  directory a relative path is refused and nothing changes.
\<close>

theorem proc_chdir_correct:
  assumes "c_string path" "c_string (pr_cwd p)"
  shows "proc_chdir p path =
      (if cwk_path_is_absolute CWK_STYLE_UNIX path then Inr (0, p\<lparr>pr_cwd := take 4095 path\<rparr>)
       else if pr_cwd p = [] then Inr (- LINUX_ENOENT, p)
       else Inr (0, p\<lparr>pr_cwd := take 4095 (normal_path [pr_cwd p, path])\<rparr>))"
proof -
  have all: "\<forall>q \<in> set [pr_cwd p, path]. c_string q" using assms by simp
  obtain out where out: "cwk_path_join_and_normalize_multiple CWK_STYLE_UNIX [pr_cwd p, path] (replicate FILENAME_MAX NUL) =
      Inr (length (normal_path [pr_cwd p, path]), out)"
    "length out = FILENAME_MAX" "buffer_holds out (normal_path [pr_cwd p, path])"
    using join_normalize [OF _ all, of "replicate FILENAME_MAX NUL"] by auto
  have "takeWhile (\<lambda>c. c \<noteq> NUL) out = take 4095 (normal_path [pr_cwd p, path])"
    using buffer_string [OF out(3) normal_path_string [OF all]] out(2) by fastforce
  then show ?thesis using out(1) by (simp add: proc_chdir_def cwk_path_join_def)
qed

theorem proc_chdir_correct_witness:
  "proc_chdir (demo_proc\<lparr>pr_cwd := ''/srv/a''\<rparr>) ''../b/./c'' = Inr (0, demo_proc\<lparr>pr_cwd := ''/srv/b/c''\<rparr>) \<and>
   proc_chdir demo_proc ''b'' = Inr (- LINUX_ENOENT, demo_proc)"
  using proc_chdir_correct [of "''../b/./c''" "demo_proc\<lparr>pr_cwd := ''/srv/a''\<rparr>"] proc_chdir_correct [of "''b''" demo_proc]
  by (simp add: c_string_def NUL_def demo_proc_def normal_path_def path_names_def cwk_char_def cwk_path_is_absolute_def
      cwk_path_get_root_def cwk_path_get_root_unix_def cwk_path_is_separator_def separators_def cwk_path_is_root_absolute_def)

section \<open>Requests nobody expects\<close>

text \<open>
  A mapping of a descriptor that is not open: \<open>fdfget\<close> returns NULL and its \<open>kfd\<close> is read, which stops
  the runtime with every sandbox in it.
\<close>

lemma sys_mmap_closed_fd:
  assumes "len \<noteq> 0" "0 \<le> sint fd" "fdfget (pr_fds (th_proc t)) fd = Inr None"
  shows "sys_mmap env addr len prot LINUX_MAP_PRIVATE fd off t = Inl NullDeref"
  using assms by (simp add: sys_mmap_def illegal_mask_def proc_mapany_def proc_kfd_def getkfd_def get_file_def)

text \<open>A fixed mapping of a file without a kernel descriptor (a pipe) is reported as done; nothing is mapped.\<close>

lemma sys_mmap_fixed_pipe:
  assumes "len \<noteq> 0" "0 \<le> sint fd" "fdfget (pr_fds (th_proc t)) fd = Inr f" "getkfd (th_files t) f = Inr (- 1)"
    "ptrcheck t (truncp addr 4096)"
  shows "sys_mmap env addr len prot (LINUX_MAP_PRIVATE OR LINUX_MAP_FIXED) fd off t = Inr (truncp addr 4096, t)"
  using assms by (simp add: sys_mmap_def illegal_mask_def proc_mapat_def proc_kfd_def)

text \<open>
  The size is cut to \<open>int\<close>. Of 4 GiB nothing is left: the terminating zero is written to the byte before
  the buffer. Of 2 GiB a negative number is left, and the copy runs over the end of \<open>cwd.path\<close>.
\<close>

lemma sint_length: "n \<le> 4096 \<Longrightarrow> sint (of_nat n :: cint) = int n"
proof -
  assume n: "n \<le> 4096"
  then have "unat (of_nat n :: cint) = n" by (simp only: unsigned_of_nat) (simp add: take_bit_nat_eq_self)
  then show ?thesis using sint_small [of "of_nat n"] n by simp
qed

lemma sys_getcwd_4GiB:
  assumes "bufcheck t bufp 0x100000000 1" "length (pr_cwd (th_proc t)) < FILENAME_MAX"
  shows "sys_getcwd bufp 0x100000000 t =
    Inr (0, t\<lparr>th_proc := pr_set_mem (th_proc t) (\<lambda>m. store_bytes (bufp - 1) [0] (store_bytes bufp [] m))\<rparr>)"
proof -
  have "0 < sint (of_nat (length (pr_cwd (th_proc t)) + 1) :: cint)"
    using assms(2) by (subst sint_length) simp_all
  then have "c_MIN (ucast (0x100000000 :: u64)) (of_nat (length (pr_cwd (th_proc t)) + 1)) = 0" by (simp add: c_MIN_def)
  then show ?thesis using assms(1) by (simp add: sys_getcwd_def bufhost_def Let_def int_to_u64_def o_def)
qed

lemma sys_getcwd_2GiB:
  assumes "bufcheck t bufp 0x80000000 1" "length (pr_cwd (th_proc t)) < FILENAME_MAX"
  shows "sys_getcwd bufp 0x80000000 t = Inl OutOfBounds"
  proof -
  let ?n = "of_nat (length (pr_cwd (th_proc t)) + 1) :: cint"
  have "0 < sint ?n" using assms(2) by (subst sint_length) simp_all
  then have m: "c_MIN (ucast (0x80000000 :: u64)) ?n = ucast (0x80000000 :: u64)" by (simp add: c_MIN_def)
  have "int_to_u64 (ucast (0x80000000 :: u64)) = 0xffffffff80000000" by (simp add: int_to_u64_def)
  then have "length (pr_cwd (th_proc t)) + 1 < unat (int_to_u64 (c_MIN (ucast (0x80000000 :: u64)) ?n))"
    using assms(2) unfolding m by simp
  then show ?thesis using assms(1) by (simp add: sys_getcwd_def bufhost_def Let_def)
qed

text \<open>
  The byte size of the vector wraps, its copy holds one entry, and the loop reads on behind the copy as
  soon as the first entry is written.
\<close>

lemma sys_writev_count_wraps:
  assumes "bufcheck t iovp 16 8" "host_malloc env 16 t = (True, t1)"
    "sys_write env fd (le_word (load_bytes iovp 8 (w_mem (th_world t1)))) (le_word (load_bytes (iovp + 8) 8 (w_mem (th_world t1)))) t1 = Inr (n, t2)"
    "0 \<le> sint n"
  shows "sys_writev env fd iovp (2 ^ 60 + 1) t = Inl OutOfBounds"
  proof -
  define iov where "iov = load_bytes iovp 16 (w_mem (th_world t1))"
  have two: "unat (2 ^ 60 + 1 :: u64) = Suc (Suc (2 ^ 60 - 1))" by simp
  have iov: "length iov = 16" "take 8 iov = load_bytes iovp 8 (w_mem (th_world t1))"
    "take 8 (drop 8 iov) = load_bytes (iovp + 8) 8 (w_mem (th_world t1))"
    by (simp_all add: iov_def load_bytes_def take_map drop_map upt_rec numeral_eq_Suc add.assoc)
  have second: "iov_loop (sys_write env fd) iov (Suc (Suc k)) 0 t1 = Inl OutOfBounds" for k using iov assms(3,4) by simp
  have wraps: "(2 ^ 60 + 1) * 16 = (16 :: u64)" by (subst word_unat_eq_iff) simp
  have "bufcheck t iovp 16 1" using assms(1) by (simp add: bufcheck_def split: if_splits)
  then have "sys_writev env fd iovp (2 ^ 60 + 1) t = iov_loop (sys_write env fd) iov (unat (2 ^ 60 + 1 :: u64)) 0 t1"
    unfolding sys_writev_def iov_call_def copyout_def wraps using assms(1,2) by (simp add: iov_def rassert_def)
  also have "\<dots> = Inl OutOfBounds"
    unfolding two by (rule second)
  finally show ?thesis .
qed

text \<open>\<open>O_TRUNC\<close> is accepted and lost.\<close>

lemma openflags_trunc: "openflags (flags OR LINUX_O_TRUNC) = openflags flags"
  by (simp add: openflags_def bit.conj_disj_distrib2)

text \<open>After a sleep that is not interrupted the caller gets what the stack of the runtime held.\<close>

lemma sys_nanosleep_remainder:
  assumes "bufcheck t reqp 16 8" "remp \<noteq> 0" "\<And>c. ev_os env c (th_world t) = (r c, th_world t)" "\<And>c. hr_ret (r c) = 0"
    "bufcheck t remp 16 8"
  shows "sys_nanosleep env reqp remp t = Inl Uninitialised"
  using assms by (simp add: sys_nanosleep_def bufhost_def Let_def)

text \<open>\<open>pread64\<close> asks for the position without looking whether the file can seek.\<close>

lemma sys_pread64_pipe:
  assumes "fdfget (pr_fds (th_proc t)) fd = Inr (Some a)" "get_file (th_files t) (Some a) = Inr f" "f_read f = PipeFn"
    "f_lseek f = Null" "bufcheck t bufp sz 1"
  shows "sys_pread64 env fd bufp sz off t = Inl NullDeref"
  using assms by (simp add: sys_pread64_def with_file_def if_fn_def bufhost_def f_lseek_call_def call_fn_def)

text \<open>\<open>pipe2\<close> has a handler but no case in the dispatcher: like every unknown call it ends the process.\<close>

lemma syshandle_pipe2: "\<not> lo_passthrough (pr_opts (th_proc t)) \<Longrightarrow> syshandle env 59 a0 a1 a2 a3 a4 a5 t = Inl ProcessExit"
  by (simp add: syshandle_def own_cases_def linux_cases_def)

end
