(* ===== verification/Sandbox_Run.thy ===== *)
theory Sandbox_Run
  imports Sys_Spec Thread_Spec
begin

text \<open>
  A sandbox from trap to trap. Between traps the sandbox computes: its registers take any values, except
  the bound registers, which user code cannot write, and it stores where the valid bounds with write
  permission let it. A trap goes to \<open>arch_syshandle\<close> (\<open>lps-linux/sys.c\<close>). The property joins what the
  components promise one by one: bound registers set when the thread was made (\<open>bound.c\<close>, \<open>ctx.c\<close>,
  \<open>thread.c\<close>), guards and handlers of system calls, mappings (\<open>box.c\<close>, \<open>mmap.c\<close>).
\<close>

section \<open>What the hardware lets through\<close>

text \<open>
  The hardware compares the address of every store with the bounds whose field has V and W
  (lower end included, upper end not); without a match the store does not happen.
\<close>

definition store_allowed :: "LPSRegs \<Rightarrow> u64 \<Rightarrow> bool" where
  "store_allowed regs a \<longleftrightarrow>
     (\<exists>k < length (membound regs). cfg_field (memcfg regs) k AND ucast (LIBCFG_V OR LIBCFG_W) = ucast (LIBCFG_V OR LIBCFG_W) \<and>
        fst (membound regs ! k) \<le> a \<and> a < snd (membound regs ! k))"

definition same_bounds :: "LPSRegs \<Rightarrow> LPSRegs \<Rightarrow> bool" where
  "same_bounds r r' \<longleftrightarrow> memcfg r' = memcfg r \<and> membound r' = membound r \<and> jmpcfg r' = jmpcfg r \<and> jmpbound r' = jmpbound r"

section \<open>Steps\<close>

inductive sandbox_step :: "'k env \<Rightarrow> 'k LPSThread \<Rightarrow> 'k LPSThread \<Rightarrow> bool" for env where
  compute: "same_bounds (th_regs t) regs \<Longrightarrow> sandbox_step env t (th_set_regs t regs)"
| store: "store_allowed (th_regs t) a \<Longrightarrow>
    sandbox_step env t (th_set_world t ((th_world t)\<lparr>w_mem := (w_mem (th_world t))(a := b)\<rparr>))"
| trap: "request_ok (r_a7 (th_regs t)) (r_a1 (th_regs t)) \<Longrightarrow> arch_syshandle env ticks t = Inr (r, timer, t') \<Longrightarrow>
    r \<noteq> Exited \<Longrightarrow> sandbox_step env t t'"

inductive_cases sandbox_stepE: "sandbox_step env t t'"

section \<open>The invariant\<close>

definition run_ok :: "'k env \<Rightarrow> ('k world \<Rightarrow> bool) \<Rightarrow> 'k LPSThread \<Rightarrow> bool" where
  "run_ok env I t \<longleftrightarrow> th_confined env I t \<and> \<not> lo_passthrough (pr_opts (th_proc t)) \<and>
     confining (th_regs t) (bx_base (th_box t)) (bx_base (th_box t) + bx_size (th_box t))"

definition run_kept :: "'k env \<Rightarrow> ('k world \<Rightarrow> bool) \<Rightarrow> 'k LPSThread \<Rightarrow> 'k LPSThread \<Rightarrow> bool" where
  "run_kept env I t t' \<longleftrightarrow> run_ok env I t' \<and> bx_base (th_box t') = bx_base (th_box t) \<and> bx_size (th_box t') = bx_size (th_box t)"

interpretation run: frame "run_ok env I" "run_kept env I" for env I
  by unfold_locales (auto simp: run_kept_def)

lemma confining_same_bounds: "confining r lo hi \<Longrightarrow> same_bounds r r' \<Longrightarrow> confining r' lo hi"
  by (simp add: confining_def same_bounds_def)

text \<open>With confining registers a store stays in the range.\<close>

lemma confining_store:
  assumes "confining regs lo hi" "store_allowed regs a"
  shows "lo \<le> a \<and> a < hi"
proof -
  obtain k where k: "k < length (membound regs)" "fst (membound regs ! k) \<le> a" "a < snd (membound regs ! k)"
    using assms(2) by (auto simp: store_allowed_def)
  have b: "membound regs = (lo, hi) # replicate 15 (0, 0)" using assms(1) by (simp add: confining_def)
  show ?thesis
  proof (cases k)
    case 0
    then show ?thesis using k b by simp
  next
    case (Suc j)
    then have "membound regs ! k = (0, 0)" using k(1) b by simp
    then show ?thesis using k(3) by simp
  qed
qed

lemma th_set_regs_simps [simp]:
  "th_regs (th_set_regs t regs) = regs" "th_proc (th_set_regs t regs) = th_proc t"
  "th_confined env I (th_set_regs t regs) = th_confined env I t"
  by (simp_all add: th_regs_def th_set_regs_def th_confined_def th_ok_def)

lemma th_set_world_simps [simp]:
  "th_regs (th_set_world t w) = th_regs t" "pr_opts (th_proc (th_set_world t w)) = pr_opts (th_proc t)"
  "th_world (th_set_world t w) = w"
  by (simp_all add: th_regs_def th_set_world_def pr_set_world_def th_world_def pr_world_def box_set_world_def)

lemma store_byte: "store_bytes a [b] m = m(a := b)"
  by (auto simp: store_bytes_def fun_eq_iff unat_eq_0 unat_gt_0)

lemma compute_kept: "run_ok env I t \<Longrightarrow> same_bounds (th_regs t) regs \<Longrightarrow> run_kept env I t (th_set_regs t regs)"
  using confining_same_bounds by (auto simp: run_ok_def run_kept_def)

lemma store_kept:
  assumes "run_ok env I t" "store_allowed (th_regs t) a"
  shows "run_kept env I t (th_set_world t ((th_world t)\<lparr>w_mem := (w_mem (th_world t))(a := b)\<rparr>))"
proof -
  have c: "th_confined env I t" and r: "confining (th_regs t) (bx_base (th_box t)) (bx_base (th_box t) + bx_size (th_box t))"
    using assms(1) by (simp_all add: run_ok_def)
  have "ptrcheck t a" using confining_store [OF r assms(2)] by (simp add: ptrcheck_def lps_box_ptrvalid_def)
  then have rg: "box_lo (th_box t) \<le> unat a" "unat a + length [b] \<le> box_hi (th_box t)" using ptrcheck_iff [OF c] by simp_all
  have "I ((th_world t)\<lparr>w_mem := store_bytes a [b] (w_mem (th_world t))\<rparr>)"
    using th_confined_mem [OF c] th_confined_world [OF c] rg unfolding mem_keeps_def by blast
  then have k: "th_kept I t (th_set_world t ((th_world t)\<lparr>w_mem := (w_mem (th_world t))(a := b)\<rparr>))"
    unfolding store_byte by (rule th_kept_world [OF c])
  show ?thesis using th_kept_confined [OF k c] assms(1) by (simp add: run_kept_def run_ok_def)
qed

lemma trap_kept:
  assumes "run_ok env I t" "request_ok (r_a7 (th_regs t)) (r_a1 (th_regs t))" "arch_syshandle env ticks t = Inr (r, timer, t')" "r \<noteq> Exited"
  shows "run_kept env I t t'"
proof -
  have ok: "th_confined env I t" "\<not> lo_passthrough (pr_opts (th_proc t))" using assms(1) by (simp_all add: run_ok_def)
  have t: "th_confined env I t'" "bx_base (th_box t') = bx_base (th_box t)" "bx_size (th_box t') = bx_size (th_box t)"
      "pr_opts (th_proc t') = pr_opts (th_proc t)"
      "same_bounds (th_regs t) (th_regs t')"
    using arch_syshandle_step [OF ok assms(2), of ticks] assms(3,4)
    by (cases r; cases "ucause (th_regs t) = CAUSE_IRQ_U_TIME"; auto simp: same_bounds_def)+
  show ?thesis using t ok confining_same_bounds [OF _ t(5)] assms(1) by (auto simp: run_kept_def run_ok_def)
qed

lemma step_kept: "sandbox_step env t t' \<Longrightarrow> run_ok env I t \<Longrightarrow> run_kept env I t t'"
  by (erule sandbox_stepE) (simp_all add: compute_kept store_kept trap_kept)

section \<open>Properties\<close>


section \<open>A concrete run\<close>


end
