(* ===== verification/Ring_Threads.thy ===== *)
theory Ring_Threads
  imports Ring
begin

text \<open>
  The ring queue of \<open>lps-linux/queue.c\<close> under several threads. Every thread runs a list of queue
  operations; a step of the system is one step of one thread, in any order. A step is one lock or
  unlock, one access to \<open>count\<close>, or one statement on the buffer, \<open>head\<close> and \<open>tail\<close> (their accesses
  are shown to be free of races, so statements are fine enough). The mutexes have an owner: locking
  a mutex that is locked makes the thread wait, and unlocking one that the thread does not own, which
  POSIX leaves undefined, opens it and sets \<open>rq_misuse\<close>. The lists \<open>rs_in\<close> and \<open>rs_out\<close> are
  ghosts: who put and who took which element, in the order of the updates of \<open>count\<close>.
\<close>

section \<open>Threads and their steps\<close>

datatype ring_op = Push_One nat | Push "nat list" | Pop_One | Pop_Back | Pop cint | Count

datatype ring_ret = RInt nat | RPtr nat | RPtrs "nat list"

text \<open>
  Program points, with the local variables that are live there. The flag of \<open>HLock\<close> says whether
  the tail mutex is locked next; the other flag is the variable \<open>locked_both\<close>.
\<close>

datatype ring_pc =
    Idle
  | HLock bool bool
  | TLock bool
  | Check bool
  | Put_Buf bool | Put_Tail bool | Put_Count bool
  | PutN_Buf "nat list" nat | PutN_Tail "nat list" nat | PutN_Test "nat list" nat | PutN_Count nat
  | Get_Buf bool | Get_Head bool nat | Get_Count bool nat
  | Back_Tail bool | Back_Buf bool | Back_Count bool nat
  | GetN_Test nat "nat list" | GetN_Buf nat "nat list" | GetN_Head nat "nat list" | GetN_Count "nat list"
  | UnlockT bool ring_ret | UnlockH ring_ret
  | Ret ring_ret

record ring_sys =
  rs_q :: RingQueue
  rs_howner :: "nat option"
  rs_towner :: "nat option"
  rs_pc :: "nat \<Rightarrow> ring_pc"
  rs_todo :: "nat \<Rightarrow> ring_op list"
  rs_hist :: "nat \<Rightarrow> (ring_op \<times> ring_ret) list"
  rs_in :: "(nat \<times> nat) list"
  rs_out :: "(nat \<times> nat) list"

text \<open>The code before the locks: the unlocked read of \<open>count\<close> and the choice of the locks.\<close>

definition start_pc :: "ring_op \<Rightarrow> RingQueue \<Rightarrow> ring_pc" where
  "start_pc op q =
     (let current_count = ring_count q in
      case op of
        Push_One v \<Rightarrow>
          if int_to_u64 current_count \<ge> rq_cap q then Ret (RInt 0)
          else if int_to_u64 current_count \<ge> rq_cap q - 1 then HLock True True
          else TLock False
      | Push es \<Rightarrow> if es = [] then Ret (RInt 0) else HLock True True
      | Pop_One \<Rightarrow> if sint current_count \<le> 0 then Ret (RPtr 0) else HLock (sint current_count \<le> 1) True
      | Pop_Back \<Rightarrow>
          if sint current_count \<le> 0 then Ret (RPtr 0)
          else if sint current_count \<le> 1 then HLock True False
          else TLock False
      | Pop n \<Rightarrow> HLock True True
      | Count \<Rightarrow> Ret (RInt (unat current_count)))"

text \<open>Where a thread goes once it has its locks, and how it gives them back.\<close>

definition locked_pc :: "ring_op \<Rightarrow> bool \<Rightarrow> ring_pc" where
  "locked_pc op both =
     (case op of
        Push es \<Rightarrow> PutN_Buf es 0
      | Pop n \<Rightarrow> GetN_Test (nat (sint n)) []
      | _ \<Rightarrow> Check both)"

definition unlock_pc :: "ring_op \<Rightarrow> bool \<Rightarrow> ring_ret \<Rightarrow> ring_pc" where
  "unlock_pc op both r =
     (if both then UnlockT True r else case op of Pop_One \<Rightarrow> UnlockH r | _ \<Rightarrow> UnlockT False r)"

text \<open>The double check under the locks.\<close>

definition check_pc :: "ring_op \<Rightarrow> bool \<Rightarrow> RingQueue \<Rightarrow> ring_pc" where
  "check_pc op both q =
     (case op of
        Pop_One \<Rightarrow> if rq_count q \<le> 0 then unlock_pc op both (RPtr 0) else Get_Buf both
      | Pop_Back \<Rightarrow> if rq_count q \<le> 0 then unlock_pc op both (RPtr 0) else Back_Tail both
      | _ \<Rightarrow> if rq_count q \<ge> rq_cap q then unlock_pc op both (RInt 0) else Put_Buf both)"

definition move_tail :: "RingQueue \<Rightarrow> RingQueue res" where
  "move_tail q = rbind (umod (rq_tail q + 1) (rq_cap q)) (\<lambda>tail. Inr (q\<lparr>rq_tail := tail\<rparr>))"

definition move_head :: "RingQueue \<Rightarrow> RingQueue res" where
  "move_head q = rbind (umod (rq_head q + 1) (rq_cap q)) (\<lambda>head. Inr (q\<lparr>rq_head := head\<rparr>))"

definition at_pc :: "ring_pc \<Rightarrow> RingQueue res \<Rightarrow> (ring_pc \<times> RingQueue) res" where
  "at_pc pc r = rbind r (\<lambda>q. Inr (pc, q))"

text \<open>The statements between the locks, one group per operation.\<close>

definition data_step :: "ring_op \<Rightarrow> ring_pc \<Rightarrow> RingQueue \<Rightarrow> (ring_pc \<times> RingQueue) res" where
  "data_step op pc q =
     (case pc of
        Check b \<Rightarrow> Inr (check_pc op b q, q)
      | Put_Buf b \<Rightarrow> (case op of Push_One v \<Rightarrow> at_pc (Put_Tail b) (buf_set q (rq_tail q) v) | _ \<Rightarrow> Inl Unreachable)
      | Put_Tail b \<Rightarrow> at_pc (Put_Count b) (move_tail q)
      | Put_Count b \<Rightarrow> Inr (unlock_pc op b (RInt 1), q\<lparr>rq_count := rq_count q + 1\<rparr>)
      | PutN_Buf es i \<Rightarrow>
          (case es of [] \<Rightarrow> Inl OutOfBounds | e # es' \<Rightarrow> at_pc (PutN_Tail es' (Suc i)) (buf_set q (rq_tail q) e))
      | PutN_Tail es i \<Rightarrow> at_pc (PutN_Test es i) (move_tail q)
      | PutN_Test es i \<Rightarrow> Inr (if es \<noteq> [] \<and> rq_tail q \<noteq> rq_head q then PutN_Buf es i else PutN_Count i, q)
      | PutN_Count i \<Rightarrow> Inr (UnlockT True (RInt i), q\<lparr>rq_count := rq_count q + of_nat i\<rparr>)
      | Get_Buf b \<Rightarrow> rbind (buf_get q (rq_head q)) (\<lambda>v. Inr (Get_Head b v, q))
      | Get_Head b v \<Rightarrow> at_pc (Get_Count b v) (move_head q)
      | Get_Count b v \<Rightarrow> Inr (unlock_pc op b (RPtr v), q\<lparr>rq_count := rq_count q - 1\<rparr>)
      | Back_Tail b \<Rightarrow>
          rbind (umod (rq_tail q - 1 + rq_cap q) (rq_cap q)) (\<lambda>tail. Inr (Back_Buf b, q\<lparr>rq_tail := tail\<rparr>))
      | Back_Buf b \<Rightarrow> rbind (buf_get q (rq_tail q)) (\<lambda>v. Inr (Back_Count b v, q))
      | Back_Count b v \<Rightarrow> Inr (unlock_pc op b (RPtr v), q\<lparr>rq_count := rq_count q - 1\<rparr>)
      | GetN_Test k es \<Rightarrow> Inr (if 0 < k \<and> rq_head q \<noteq> rq_tail q then GetN_Buf k es else GetN_Count es, q)
      | GetN_Buf k es \<Rightarrow> rbind (buf_get q (rq_head q)) (\<lambda>e. Inr (GetN_Head k (es @ [e]), q))
      | GetN_Head k es \<Rightarrow> at_pc (GetN_Test (k - 1) es) (move_head q)
      | GetN_Count es \<Rightarrow> Inr (UnlockT True (RPtrs es), q\<lparr>rq_count := rq_count q - of_nat (length es)\<rparr>)
      | _ \<Rightarrow> Inl Unreachable)"

text \<open>What the ghosts record when \<open>count\<close> is updated.\<close>

definition put_now :: "ring_op \<Rightarrow> ring_pc \<Rightarrow> nat list" where
  "put_now op pc =
     (case pc of
        Put_Count b \<Rightarrow> (case op of Push_One v \<Rightarrow> [v] | _ \<Rightarrow> [])
      | PutN_Count i \<Rightarrow> (case op of Push es \<Rightarrow> take i es | _ \<Rightarrow> [])
      | _ \<Rightarrow> [])"

definition got_now :: "ring_pc \<Rightarrow> nat list" where
  "got_now pc =
     (case pc of Get_Count b v \<Rightarrow> [v] | Back_Count b v \<Rightarrow> [v] | GetN_Count es \<Rightarrow> es | _ \<Rightarrow> [])"

definition go :: "nat \<Rightarrow> ring_pc \<Rightarrow> ring_sys \<Rightarrow> ring_sys" where
  "go t pc s = s\<lparr>rs_pc := (rs_pc s)(t := pc)\<rparr>"

definition disowned :: "nat option \<Rightarrow> nat \<Rightarrow> RingQueue \<Rightarrow> RingQueue" where
  "disowned owner t q = q\<lparr>rq_misuse := (rq_misuse q \<or> owner \<noteq> Some t)\<rparr>"

text \<open>
  One step of thread t: None when it has nothing to do or waits for a mutex. The operation in
  progress is the first of \<open>rs_todo\<close>.
\<close>

definition thread_step :: "nat \<Rightarrow> ring_sys \<Rightarrow> ring_sys res option" where
  "thread_step t s =
     (case rs_todo s t of
        [] \<Rightarrow> None
      | op # ops \<Rightarrow>
          (case rs_pc s t of
             Idle \<Rightarrow> Some (Inr (go t (start_pc op (rs_q s)) s))
           | HLock two both \<Rightarrow>
               (case lock_h (rs_q s) of
                  Inl _ \<Rightarrow> None
                | Inr q \<Rightarrow> Some (Inr (go t (if two then TLock both else locked_pc op both)
                                      (s\<lparr>rs_q := q, rs_howner := Some t\<rparr>))))
           | TLock both \<Rightarrow>
               (case lock_t (rs_q s) of
                  Inl _ \<Rightarrow> None
                | Inr q \<Rightarrow> Some (Inr (go t (locked_pc op both) (s\<lparr>rs_q := q, rs_towner := Some t\<rparr>))))
           | UnlockT both r \<Rightarrow>
               Some (Inr (go t (if both then UnlockH r else Ret r)
                 (s\<lparr>rs_q := disowned (rs_towner s) t (unlock_t (rs_q s)), rs_towner := None\<rparr>)))
           | UnlockH r \<Rightarrow>
               Some (Inr (go t (Ret r)
                 (s\<lparr>rs_q := disowned (rs_howner s) t (unlock_h (rs_q s)), rs_howner := None\<rparr>)))
           | Ret r \<Rightarrow>
               Some (Inr (go t Idle
                 (s\<lparr>rs_todo := (rs_todo s)(t := ops), rs_hist := (rs_hist s)(t := rs_hist s t @ [(op, r)])\<rparr>)))
           | pc \<Rightarrow>
               Some (rbind (data_step op pc (rs_q s)) (\<lambda>(pc', q).
                 Inr (go t pc' (s\<lparr>rs_q := q, rs_in := rs_in s @ map (Pair t) (put_now op pc),
                                  rs_out := rs_out s @ map (Pair t) (got_now pc)\<rparr>))))))"

text \<open>A schedule names the thread of each step; a thread that waits or is finished is passed over.\<close>

fun run_sched :: "nat list \<Rightarrow> ring_sys \<Rightarrow> ring_sys res" where
  "run_sched [] s = Inr s"
| "run_sched (t # ts) s =
     (case thread_step t s of None \<Rightarrow> run_sched ts s | Some r \<Rightarrow> rbind r (run_sched ts))"

definition ring_start :: "RingQueue \<Rightarrow> (nat \<Rightarrow> ring_op list) \<Rightarrow> ring_sys" where
  "ring_start q progs =
     \<lparr>rs_q = q, rs_howner = None, rs_towner = None, rs_pc = (\<lambda>_. Idle), rs_todo = progs,
      rs_hist = (\<lambda>_. []), rs_in = [], rs_out = []\<rparr>"

end
