(* ===== verification/Ring_Threads_Spec.thy ===== *)
theory Ring_Threads_Spec
  imports Ring_Threads
begin

text \<open>
  The ring queue as the multi-core scheduler's global queue uses it (\<open>mcsched_add\<close> puts with
  \<open>ring_push_one\<close>, the workers take with \<open>ring_count\<close> and \<open>ring_pop\<close>): whatever the interleaving,
  elements come out once and in order, the threads exclude each other and every schedule ends. The last
  section shows that the local queues, whose \<open>ring_pop_one\<close> and \<open>ring_pop_back\<close> mismatch their
  locks, are not safe.
\<close>

section \<open>The invariant\<close>

definition shared_op :: "ring_op \<Rightarrow> bool" where
  "shared_op op \<longleftrightarrow> (case op of Push_One v \<Rightarrow> True | Pop n \<Rightarrow> True | Count \<Rightarrow> True | _ \<Rightarrow> False)"

text \<open>The program points of an operation.\<close>

definition pc_for :: "ring_op \<Rightarrow> ring_pc \<Rightarrow> bool" where
  "pc_for op pc \<longleftrightarrow>
     (case pc of
        Idle \<Rightarrow> True
      | Ret r \<Rightarrow> True
      | HLock two both \<Rightarrow> op \<noteq> Count \<and> two \<and> both
      | UnlockH r \<Rightarrow> op \<noteq> Count
      | TLock b \<Rightarrow> op \<noteq> Count \<and> (b \<or> (\<exists>v. op = Push_One v))
      | UnlockT b r \<Rightarrow> op \<noteq> Count \<and> (b \<or> (\<exists>v. op = Push_One v))
      | Check b \<Rightarrow> (\<exists>v. op = Push_One v)
      | Put_Buf b \<Rightarrow> (\<exists>v. op = Push_One v)
      | Put_Tail b \<Rightarrow> (\<exists>v. op = Push_One v)
      | Put_Count b \<Rightarrow> (\<exists>v. op = Push_One v)
      | GetN_Test k es \<Rightarrow> (\<exists>n. op = Pop n)
      | GetN_Buf k es \<Rightarrow> 0 < k \<and> (\<exists>n. op = Pop n)
      | GetN_Head k es \<Rightarrow> 0 < k \<and> (\<exists>n. op = Pop n)
      | GetN_Count es \<Rightarrow> (\<exists>n. op = Pop n)
      | _ \<Rightarrow> False)"

text \<open>The points where a thread holds the tail mutex, and those where it holds the head mutex.\<close>

definition inside :: "ring_pc \<Rightarrow> bool" where
  "inside pc \<longleftrightarrow>
     (case pc of Idle \<Rightarrow> False | HLock _ _ \<Rightarrow> False | TLock _ \<Rightarrow> False | UnlockH _ \<Rightarrow> False | Ret _ \<Rightarrow> False
      | _ \<Rightarrow> True)"

definition holds_h :: "ring_pc \<Rightarrow> bool" where
  "holds_h pc \<longleftrightarrow>
     (case pc of
        TLock b \<Rightarrow> b | Check b \<Rightarrow> b | Put_Buf b \<Rightarrow> b | Put_Tail b \<Rightarrow> b | Put_Count b \<Rightarrow> b
      | UnlockT b r \<Rightarrow> b | UnlockH r \<Rightarrow> True
      | GetN_Test k es \<Rightarrow> True | GetN_Buf k es \<Rightarrow> True | GetN_Head k es \<Rightarrow> True | GetN_Count es \<Rightarrow> True
      | _ \<Rightarrow> False)"

text \<open>The points whose statements access the buffer, \<open>head\<close> or \<open>tail\<close>.\<close>

definition accesses :: "ring_pc \<Rightarrow> bool" where
  "accesses pc \<longleftrightarrow>
     (case pc of
        Idle \<Rightarrow> False | HLock _ _ \<Rightarrow> False | TLock _ \<Rightarrow> False | Check _ \<Rightarrow> False | UnlockT _ _ \<Rightarrow> False
      | UnlockH _ \<Rightarrow> False | Ret _ \<Rightarrow> False | _ \<Rightarrow> True)"

text \<open>
  The ring while a thread is at a point that holds the tail mutex: xs are the elements that \<open>count\<close>
  counts.
\<close>

definition data_at :: "ring_op \<Rightarrow> ring_pc \<Rightarrow> RingQueue \<Rightarrow> nat list \<Rightarrow> bool" where
  "data_at op pc q xs \<longleftrightarrow> unat (rq_count q) = length xs \<and> length xs \<le> unat (rq_cap q) \<and>
     (case pc of
        Put_Buf b \<Rightarrow> ring_ok q xs \<and> length xs < length (rq_buf q)
      | Put_Tail b \<Rightarrow> ring_ok q xs \<and> length xs < length (rq_buf q) \<and> op = Push_One (rq_buf q ! unat (rq_tail q))
      | Put_Count b \<Rightarrow> (\<exists>v. op = Push_One v \<and> ring_ok (q\<lparr>rq_count := rq_count q + 1\<rparr>) (xs @ [v]))
      | GetN_Test k es \<Rightarrow> (\<exists>ys. xs = es @ ys \<and> ring_ok (counted q (length ys)) ys)
      | GetN_Buf k es \<Rightarrow> (\<exists>ys. xs = es @ ys \<and> ys \<noteq> [] \<and> ring_ok (counted q (length ys)) ys)
      | GetN_Head k es \<Rightarrow>
          (\<exists>ys. xs = es @ ys \<and> ring_ok (counted (q\<lparr>rq_head := (rq_head q + 1) mod rq_cap q\<rparr>) (length ys)) ys)
      | GetN_Count es \<Rightarrow> (\<exists>ys. xs = es @ ys \<and> ring_ok (counted q (length ys)) ys)
      | _ \<Rightarrow> ring_ok q xs)"

text \<open>What an operation that returned r has put and taken.\<close>

fun accepted :: "ring_op \<times> ring_ret \<Rightarrow> nat list" where
  "accepted (Push_One v, RInt k) = (if k = 0 then [] else [v])"
| "accepted (Push es, RInt k) = take k es"
| "accepted _ = []"

fun taken :: "ring_op \<times> ring_ret \<Rightarrow> nat list" where
  "taken (Pop n, RPtrs es) = es"
| "taken (Pop_One, RPtr v) = (if v = 0 then [] else [v])"
| "taken (Pop_Back, RPtr v) = (if v = 0 then [] else [v])"
| "taken _ = []"

definition ret_of :: "ring_pc \<Rightarrow> ring_ret option" where
  "ret_of pc = (case pc of UnlockT b r \<Rightarrow> Some r | UnlockH r \<Rightarrow> Some r | Ret r \<Rightarrow> Some r | _ \<Rightarrow> None)"

definition pending :: "(ring_op \<times> ring_ret \<Rightarrow> nat list) \<Rightarrow> ring_op list \<Rightarrow> ring_pc \<Rightarrow> nat list" where
  "pending f ops pc = (case ret_of pc of None \<Rightarrow> [] | Some r \<Rightarrow> (case ops of [] \<Rightarrow> [] | op # _ \<Rightarrow> f (op, r)))"

definition by_thread :: "nat \<Rightarrow> (nat \<times> nat) list \<Rightarrow> nat list" where
  "by_thread t l = map snd (filter (\<lambda>p. fst p = t) l)"

definition locks_inv :: "ring_sys \<Rightarrow> bool" where
  "locks_inv s \<longleftrightarrow>
     (\<forall>t. (rs_howner s = Some t) = holds_h (rs_pc s t) \<and> (rs_towner s = Some t) = inside (rs_pc s t)) \<and>
     rq_hlock (rs_q s) = (rs_howner s \<noteq> None) \<and> rq_tlock (rs_q s) = (rs_towner s \<noteq> None) \<and> \<not> rq_misuse (rs_q s)"

definition progs_inv :: "ring_sys \<Rightarrow> bool" where
  "progs_inv s \<longleftrightarrow> (\<forall>t. (\<forall>op \<in> set (rs_todo s t). shared_op op) \<and>
     (rs_todo s t = [] \<longrightarrow> rs_pc s t = Idle) \<and>
     (\<forall>op ops. rs_todo s t = op # ops \<longrightarrow> pc_for op (rs_pc s t)))"

definition hist_inv :: "ring_sys \<Rightarrow> bool" where
  "hist_inv s \<longleftrightarrow>
     (\<forall>t. by_thread t (rs_in s) = concat (map accepted (rs_hist s t)) @ pending accepted (rs_todo s t) (rs_pc s t) \<and>
          by_thread t (rs_out s) = concat (map taken (rs_hist s t)) @ pending taken (rs_todo s t) (rs_pc s t))"

definition data_inv :: "ring_sys \<Rightarrow> nat list \<Rightarrow> bool" where
  "data_inv s xs \<longleftrightarrow> map snd (rs_in s) = map snd (rs_out s) @ xs \<and>
     (case rs_towner s of
        None \<Rightarrow> ring_ok (rs_q s) xs
      | Some t \<Rightarrow> data_at (hd (rs_todo s t)) (rs_pc s t) (rs_q s) xs)"

definition ring_inv :: "ring_sys \<Rightarrow> bool" where
  "ring_inv s \<longleftrightarrow> locks_inv s \<and> progs_inv s \<and> hist_inv s \<and> (\<exists>xs. data_inv s xs)"

section \<open>Statements under the locks\<close>

lemma data_at_default:
  "ring_ok q xs \<Longrightarrow> pc \<in> {Check b, UnlockT b r} \<Longrightarrow> data_at op pc q xs"
  by (auto simp: data_at_def ring_ok_def)

lemma counted_same: "ring_ok q xs \<Longrightarrow> ring_ok (counted q (length xs)) xs"
  by (simp add: ring_ok_counted(2))

text \<open>The contract of a statement: what it leaves, for the lists xs before and xs' after.\<close>

definition step_ok :: "ring_op \<Rightarrow> ring_pc \<Rightarrow> RingQueue \<Rightarrow> nat list \<Rightarrow> ring_pc \<Rightarrow> RingQueue \<Rightarrow> nat list \<Rightarrow> bool" where
  "step_ok op pc q xs pc' q' xs' \<longleftrightarrow>
     data_step op pc q = Inr (pc', q') \<and> data_at op pc' q' xs' \<and> xs @ put_now op pc = got_now pc @ xs' \<and>
     pc_for op pc' \<and> inside pc' \<and> holds_h pc' = holds_h pc \<and>
     pending accepted [op] pc' = put_now op pc \<and> pending taken [op] pc' = got_now pc \<and>
     rq_hlock q' = rq_hlock q \<and> rq_tlock q' = rq_tlock q \<and> rq_misuse q' = rq_misuse q \<and> rq_cap q' = rq_cap q"

lemmas pc_defs = pc_for_def inside_def holds_h_def pending_def ret_of_def put_now_def got_now_def

lemma check_ok:
  assumes "data_at (Push_One v) (Check b) q xs"
  shows "\<exists>pc' q' xs'. step_ok (Push_One v) (Check b) q xs pc' q' xs'"
  using assms ring_ok_words(7) [of q xs]
  by (intro exI [of _ "check_pc (Push_One v) b q"] exI [of _ q] exI [of _ xs])
    (auto simp: step_ok_def data_step_def check_pc_def unlock_pc_def data_at_def pc_defs not_le)

lemma put_buf_ok:
  assumes "data_at (Push_One v) (Put_Buf b) q xs"
  shows "\<exists>pc' q' xs'. step_ok (Push_One v) (Put_Buf b) q xs pc' q' xs'"
proof -
  have ok: "ring_ok q xs" "length xs < length (rq_buf q)" using assms by (simp_all add: data_at_def)
  note w = ring_ok_words(4) [OF ok(1)]
  let ?q = "q\<lparr>rq_buf := (rq_buf q)[unat (rq_tail q) := v]\<rparr>"
  have "xs = rotated (rq_buf ?q) (unat (rq_head ?q)) (length xs)"
  proof -
    have t: "unat (rq_tail q) = (unat (rq_head q) + length xs) mod length (rq_buf q)"
      and x: "xs = rotated (rq_buf q) (unat (rq_head q)) (length xs)" using ok(1) by (simp_all add: ring_ok_def)
    have "rotated (rq_buf ?q) (unat (rq_head q)) (Suc (length xs)) = xs @ [v]"
      using rotated_update [OF ok(2), of "unat (rq_head q)" v] x t by simp
    then show ?thesis by (simp add: rotated_snoc)
  qed
  then have "ring_ok ?q xs" using ok(1) by (simp add: ring_ok_def)
  then have "step_ok (Push_One v) (Put_Buf b) q xs (Put_Tail b) ?q xs"
    using assms w ok(2) by (simp add: step_ok_def data_step_def at_pc_def buf_set_def data_at_def pc_defs)
  then show ?thesis by blast
qed

lemma put_tail_ok:
  assumes "data_at (Push_One v) (Put_Tail b) q xs"
  shows "\<exists>pc' q' xs'. step_ok (Push_One v) (Put_Tail b) q xs pc' q' xs'"
proof -
  have ok: "ring_ok q xs" "length xs < length (rq_buf q)" "rq_buf q ! unat (rq_tail q) = v"
    using assms by (auto simp: data_at_def)
  let ?q = "q\<lparr>rq_tail := (rq_tail q + 1) mod rq_cap q\<rparr>"
  have "rq_buf q = (rq_buf q)[unat (rq_tail q) := v]" using ok(3) by (metis list_update_id)
  then have "ring_ok (?q\<lparr>rq_count := rq_count q + 1\<rparr>) (xs @ [v])"
    by (intro ring_ok_push [OF ok(1,2)]) simp_all
  then have "step_ok (Push_One v) (Put_Tail b) q xs (Put_Count b) ?q xs"
    using assms ring_ok_words(1) [OF ok(1)]
    by (simp add: step_ok_def data_step_def at_pc_def move_tail_def umod_def data_at_def pc_defs)
  then show ?thesis by blast
qed

lemma put_count_ok:
  assumes "data_at (Push_One v) (Put_Count b) q xs"
  shows "\<exists>pc' q' xs'. step_ok (Push_One v) (Put_Count b) q xs pc' q' xs'"
proof -
  let ?q = "q\<lparr>rq_count := rq_count q + 1\<rparr>"
  have ok: "ring_ok ?q (xs @ [v])" using assms by (simp add: data_at_def)
  have "step_ok (Push_One v) (Put_Count b) q xs (UnlockT b (RInt 1)) ?q (xs @ [v])"
    using data_at_default [OF ok, of "UnlockT b (RInt 1)" b "RInt 1"]
    by (simp add: step_ok_def data_step_def unlock_pc_def pc_defs)
  then show ?thesis by blast
qed

lemma get_test_ok:
  assumes "data_at (Pop n) (GetN_Test k es) q xs"
  shows "\<exists>pc' q' xs'. step_ok (Pop n) (GetN_Test k es) q xs pc' q' xs'"
proof -
  obtain ys where ys: "xs = es @ ys" "ring_ok (counted q (length ys)) ys" using assms by (auto simp: data_at_def)
  have "ys \<noteq> []" if "rq_head q \<noteq> rq_tail q" using head_tail_eq [OF ys(2)] that by auto
  then have "step_ok (Pop n) (GetN_Test k es) q xs (if 0 < k \<and> rq_head q \<noteq> rq_tail q then GetN_Buf k es else GetN_Count es) q xs"
    using assms ys by (auto simp: step_ok_def data_step_def data_at_def pc_defs)
  then show ?thesis by blast
qed

lemma get_buf_ok:
  assumes "data_at (Pop n) (GetN_Buf k es) q xs" "0 < k"
  shows "\<exists>pc' q' xs'. step_ok (Pop n) (GetN_Buf k es) q xs pc' q' xs'"
proof -
  obtain y ys where ys: "xs = es @ y # ys" "ring_ok (counted q (length (y # ys))) (y # ys)"
    using assms by (auto simp: data_at_def neq_Nil_conv)
  let ?q = "counted (q\<lparr>rq_head := (rq_head q + 1) mod rq_cap q\<rparr>) (length ys)"
  have p: "ring_ok ?q ys" "rq_buf q ! unat (rq_head q) = y"
    using ring_ok_pop [OF ys(2), of ?q] by simp_all
  have "unat (rq_head q) < length (rq_buf q)" using ys(2) by (simp add: ring_ok_def)
  then have "step_ok (Pop n) (GetN_Buf k es) q xs (GetN_Head k (es @ [y])) q xs"
    using assms p ys(1) by (simp add: step_ok_def data_step_def buf_get_def data_at_def pc_defs)
  then show ?thesis by blast
qed

lemma get_head_ok:
  assumes "data_at (Pop n) (GetN_Head k es) q xs"
  shows "\<exists>pc' q' xs'. step_ok (Pop n) (GetN_Head k es) q xs pc' q' xs'"
proof -
  let ?q = "q\<lparr>rq_head := (rq_head q + 1) mod rq_cap q\<rparr>"
  obtain ys where ys: "xs = es @ ys" "ring_ok (counted ?q (length ys)) ys" using assms by (auto simp: data_at_def)
  have "step_ok (Pop n) (GetN_Head k es) q xs (GetN_Test (k - 1) es) ?q xs"
    using assms ys ring_ok_words(1) [OF ys(2)]
    by (auto simp: step_ok_def data_step_def at_pc_def move_head_def umod_def data_at_def pc_defs)
  then show ?thesis by blast
qed

lemma get_count_ok:
  assumes "data_at (Pop n) (GetN_Count es) q xs"
  shows "\<exists>pc' q' xs'. step_ok (Pop n) (GetN_Count es) q xs pc' q' xs'"
proof -
  obtain ys where ys: "xs = es @ ys" "ring_ok (counted q (length ys)) ys" and c: "unat (rq_count q) = length xs"
    using assms by (auto simp: data_at_def)
  have "length xs < 2 ^ 64" using unat_lt_2p64 [of "rq_count q"] c by simp
  then have "rq_count q = of_nat (length es) + of_nat (length ys)"
    using c ys(1) unat_of_nat_u64 [of "length xs"] by (simp add: u64_eq_iff flip: of_nat_add)
  then have "ring_ok (q\<lparr>rq_count := rq_count q - of_nat (length es)\<rparr>) ys" using ys(2) by simp
  then have "step_ok (Pop n) (GetN_Count es) q xs (UnlockT True (RPtrs es)) (q\<lparr>rq_count := rq_count q - of_nat (length es)\<rparr>) ys"
    using ys(1) data_at_default [of "q\<lparr>rq_count := rq_count q - of_nat (length es)\<rparr>" ys "UnlockT True (RPtrs es)" True "RPtrs es"]
    by (simp add: step_ok_def data_step_def pc_defs)
  then show ?thesis by blast
qed

lemma data_step_ok:
  assumes "pc_for op pc" "inside pc" "\<nexists>b r. pc = UnlockT b r" "data_at op pc q xs"
  shows "\<exists>pc' q' xs'. step_ok op pc q xs pc' q' xs'"
  using assms check_ok put_buf_ok put_tail_ok put_count_ok get_test_ok get_buf_ok get_head_ok get_count_ok
  by (cases pc) (fastforce simp: pc_for_def inside_def)+

section \<open>The invariant is kept\<close>

lemma go_simps [simp]:
  "rs_q (go t pc s) = rs_q s" "rs_howner (go t pc s) = rs_howner s" "rs_towner (go t pc s) = rs_towner s"
  "rs_pc (go t pc s) = (rs_pc s)(t := pc)" "rs_todo (go t pc s) = rs_todo s" "rs_hist (go t pc s) = rs_hist s"
  "rs_in (go t pc s) = rs_in s" "rs_out (go t pc s) = rs_out s"
  by (simp_all add: go_def)

lemma thread_step_data:
  assumes "rs_todo s t = op # ops" "inside (rs_pc s t)" "\<nexists>b r. rs_pc s t = UnlockT b r"
  shows "thread_step t s =
    Some (rbind (data_step op (rs_pc s t) (rs_q s)) (\<lambda>(pc', q).
      Inr (go t pc' (s\<lparr>rs_q := q, rs_in := rs_in s @ map (Pair t) (put_now op (rs_pc s t)),
                       rs_out := rs_out s @ map (Pair t) (got_now (rs_pc s t))\<rparr>))))"
  using assms by (cases "rs_pc s t") (auto simp: thread_step_def inside_def)

lemma by_thread_append [simp]: "by_thread t (l @ l') = by_thread t l @ by_thread t l'"
  by (simp add: by_thread_def)

lemma by_thread_own [simp]: "by_thread t (map (Pair u) vs) = (if t = u then vs else [])"
  by (simp add: by_thread_def filter_map o_def)

lemma pending_data:
  "inside pc \<Longrightarrow> \<nexists>b r. pc = UnlockT b r \<Longrightarrow> pending f ops pc = []"
  by (cases pc) (auto simp: pending_def ret_of_def inside_def)

lemma pending_Cons: "pending f (op # ops) pc = pending f [op] pc"
  by (simp add: pending_def split: option.split)

lemma map_Pair_snd [simp]: "map (snd \<circ> Pair t) vs = vs"
  by (simp add: o_def)

lemma step_data_inv:
  assumes inv: "ring_inv s" and ops: "rs_todo s t = op # ops"
    and pc: "inside (rs_pc s t)" "\<nexists>b r. rs_pc s t = UnlockT b r"
  shows "\<exists>s'. thread_step t s = Some (Inr s') \<and> ring_inv s' \<and> rq_cap (rs_q s') = rq_cap (rs_q s)"
proof -
  obtain xs where xs: "data_inv s xs" using inv by (auto simp: ring_inv_def)
  have L: "locks_inv s" and P: "progs_inv s" and H: "hist_inv s" using inv by (simp_all add: ring_inv_def)
  have own: "rs_towner s = Some t" using L pc(1) by (simp add: locks_inv_def)
  have pf: "pc_for op (rs_pc s t)" using P ops by (auto simp: progs_inv_def dest: spec [of _ t])
  have "data_at op (rs_pc s t) (rs_q s) xs" using xs own ops by (simp add: data_inv_def)
  then obtain pc' q' xs' where so: "step_ok op (rs_pc s t) (rs_q s) xs pc' q' xs'"
    using data_step_ok [OF pf pc] by blast
  let ?s = "go t pc' (s\<lparr>rs_q := q', rs_in := rs_in s @ map (Pair t) (put_now op (rs_pc s t)),
                       rs_out := rs_out s @ map (Pair t) (got_now (rs_pc s t))\<rparr>)"
  have "thread_step t s = Some (Inr ?s)" using thread_step_data [OF ops pc] so by (simp add: step_ok_def)
  moreover have "locks_inv ?s" using L so pc(1) by (simp add: locks_inv_def step_ok_def)
  moreover have "progs_inv ?s" using P so ops by (simp add: progs_inv_def step_ok_def)
  moreover have "hist_inv ?s"
    using H so ops pending_data [OF pc] by (auto simp: hist_inv_def step_ok_def pending_Cons [of _ op ops])
  moreover have "data_inv ?s xs'"
    using xs so own ops by (simp add: data_inv_def step_ok_def)
  ultimately show ?thesis using so by (auto simp: ring_inv_def step_ok_def)
qed

lemma data_inv_other:
  assumes "data_inv s xs" "rs_towner s' = rs_towner s" "rs_in s' = rs_in s" "rs_out s' = rs_out s"
    "rq_buf (rs_q s') = rq_buf (rs_q s)" "rq_head (rs_q s') = rq_head (rs_q s)" "rq_tail (rs_q s') = rq_tail (rs_q s)"
    "rq_cap (rs_q s') = rq_cap (rs_q s)" "rq_count (rs_q s') = rq_count (rs_q s)"
    "\<And>u. rs_towner s = Some u \<Longrightarrow> rs_pc s' u = rs_pc s u \<and> rs_todo s' u = rs_todo s u"
  shows "data_inv s' xs"
  using assms by (auto simp: data_inv_def data_at_def ring_ok_def split: option.splits ring_pc.splits)


lemma start_pc_ok:
  assumes "shared_op op"
  shows "pc_for op (start_pc op q)" "\<not> inside (start_pc op q)" "\<not> holds_h (start_pc op q)"
    "pending accepted [op] (start_pc op q) = []" "pending taken [op] (start_pc op q) = []"
  using assms
  by (cases op; simp add: shared_op_def start_pc_def Let_def pc_defs)+

lemma locked_pc_ok:
  assumes "shared_op op" "pc_for op (TLock b)"
  shows "pc_for op (locked_pc op b)" "inside (locked_pc op b)" "holds_h (locked_pc op b) = b"
    "pending f ops (locked_pc op b) = []" "ring_ok q xs \<Longrightarrow> data_at op (locked_pc op b) q xs"
proof -
  show "ring_ok q xs \<Longrightarrow> data_at op (locked_pc op b) q xs"
    using assms counted_same [of q xs]
    by (cases op) (auto simp: shared_op_def locked_pc_def data_at_def ring_ok_def pc_for_def)
qed (use assms in \<open>cases op; simp add: shared_op_def locked_pc_def pc_defs\<close>)+

lemma step_idle_inv:
  assumes inv: "ring_inv s" and ops: "rs_todo s t = op # ops" and pc: "rs_pc s t = Idle"
  shows "\<exists>s'. thread_step t s = Some (Inr s') \<and> ring_inv s' \<and> rq_cap (rs_q s') = rq_cap (rs_q s)"
proof -
  obtain xs where xs: "data_inv s xs" using inv by (auto simp: ring_inv_def)
  have L: "locks_inv s" and P: "progs_inv s" and H: "hist_inv s" using inv by (simp_all add: ring_inv_def)
  have "op \<in> set (rs_todo s t)" using ops by simp
  then have so: "shared_op op" using P by (auto simp: progs_inv_def)
  have own: "rs_towner s \<noteq> Some t" "\<not> holds_h Idle" "\<not> inside Idle" "pending f l Idle = []" for f l
    using L pc by (simp_all add: locks_inv_def pc_defs)
  let ?s = "go t (start_pc op (rs_q s)) s"
  have "thread_step t s = Some (Inr ?s)" using ops pc by (simp add: thread_step_def)
  moreover have "locks_inv ?s" using L so own pc by (auto simp: locks_inv_def start_pc_ok)
  moreover have "progs_inv ?s" using P so ops by (simp add: progs_inv_def start_pc_ok)
  moreover have "hist_inv ?s"
    using H so ops own pc by (auto simp: hist_inv_def start_pc_ok pending_Cons [of _ op ops])
  moreover have "data_inv ?s xs" by (rule data_inv_other [OF xs]) (use own in auto)
  ultimately show ?thesis by (auto simp: ring_inv_def)
qed

lemma step_hlock_inv:
  assumes inv: "ring_inv s" and ops: "rs_todo s t = op # ops" and pc: "rs_pc s t = HLock two both"
  shows "if rs_howner s = None then \<exists>s'. thread_step t s = Some (Inr s') \<and> ring_inv s' \<and> rq_cap (rs_q s') = rq_cap (rs_q s)
    else thread_step t s = None"
proof (cases "rs_howner s = None")
  case False
  then show ?thesis using inv ops pc by (simp add: thread_step_def lock_h_def ring_inv_def locks_inv_def)
next
  case True
  obtain xs where xs: "data_inv s xs" using inv by (auto simp: ring_inv_def)
  have L: "locks_inv s" and P: "progs_inv s" and H: "hist_inv s" using inv by (simp_all add: ring_inv_def)
  have pf: "pc_for op (HLock two both)" using P ops pc by (auto simp: progs_inv_def dest: spec [of _ t])
  then have pf': "two" "both" "pc_for op (TLock True)" by (simp_all add: pc_for_def)
  have own: "rs_towner s \<noteq> Some t" "\<not> inside (HLock two both)" "pending f l (HLock two both) = []" "holds_h (TLock True)"
      "\<not> inside (TLock True)" "pending f l (TLock True) = []" for f l
    using L pc by (simp_all add: locks_inv_def pc_defs)
  let ?s = "go t (TLock True) (s\<lparr>rs_q := (rs_q s)\<lparr>rq_hlock := True\<rparr>, rs_howner := Some t\<rparr>)"
  have "thread_step t s = Some (Inr ?s)"
    using True L ops pc pf' by (simp add: thread_step_def lock_h_def locks_inv_def)
  moreover have "locks_inv ?s" using L True own pc by (auto simp: locks_inv_def)
  moreover have "progs_inv ?s" using P pf' ops by (simp add: progs_inv_def)
  moreover have "hist_inv ?s" using H ops own pc by (simp add: hist_inv_def)
  moreover have "data_inv ?s xs"
    by (rule data_inv_other [OF xs]) (use own in auto)
  ultimately show ?thesis using True by (auto simp: ring_inv_def)
qed

lemma step_tlock_inv:
  assumes inv: "ring_inv s" and ops: "rs_todo s t = op # ops" and pc: "rs_pc s t = TLock b"
  shows "if rs_towner s = None then \<exists>s'. thread_step t s = Some (Inr s') \<and> ring_inv s' \<and> rq_cap (rs_q s') = rq_cap (rs_q s)
    else thread_step t s = None"
proof (cases "rs_towner s = None")
  case False
  then show ?thesis using inv ops pc by (simp add: thread_step_def lock_t_def ring_inv_def locks_inv_def)
next
  case True
  obtain xs where xs: "data_inv s xs" using inv by (auto simp: ring_inv_def)
  have L: "locks_inv s" and P: "progs_inv s" and H: "hist_inv s" using inv by (simp_all add: ring_inv_def)
  have pf: "pc_for op (TLock b)" using P ops pc by (auto simp: progs_inv_def dest: spec [of _ t])
  have "op \<in> set (rs_todo s t)" using ops by simp
  then have so: "shared_op op" using P by (auto simp: progs_inv_def)
  have ok: "ring_ok (rs_q s) xs" using xs True by (simp add: data_inv_def)
  have own: "holds_h (TLock b) = b" "pending f l (TLock b) = []" for f l by (simp_all add: pc_defs)
  let ?s = "go t (locked_pc op b) (s\<lparr>rs_q := (rs_q s)\<lparr>rq_tlock := True\<rparr>, rs_towner := Some t\<rparr>)"
  have "thread_step t s = Some (Inr ?s)" using True L ops pc by (simp add: thread_step_def lock_t_def locks_inv_def)
  moreover have "locks_inv ?s" using L True own pc so pf by (auto simp: locks_inv_def locked_pc_ok)
  moreover have "progs_inv ?s" using P pf so ops by (simp add: progs_inv_def locked_pc_ok)
  moreover have "hist_inv ?s" using H own pc so pf by (simp add: hist_inv_def locked_pc_ok)
  moreover have "data_inv ?s xs"
    using xs ops ok locked_pc_ok(5) [OF so pf, of "(rs_q s)\<lparr>rq_tlock := True\<rparr>" xs] by (simp add: data_inv_def ring_ok_def)
  ultimately show ?thesis using True by (auto simp: ring_inv_def)
qed


lemma step_unlockt_inv:
  assumes inv: "ring_inv s" and ops: "rs_todo s t = op # ops" and pc: "rs_pc s t = UnlockT b r"
  shows "\<exists>s'. thread_step t s = Some (Inr s') \<and> ring_inv s' \<and> rq_cap (rs_q s') = rq_cap (rs_q s)"
proof -
  obtain xs where xs: "data_inv s xs" using inv by (auto simp: ring_inv_def)
  have L: "locks_inv s" and P: "progs_inv s" and H: "hist_inv s" using inv by (simp_all add: ring_inv_def)
  have pf: "pc_for op (UnlockT b r)" using P ops pc by (auto simp: progs_inv_def dest: spec [of _ t])
  obtain pc' where new: "pc' = (if b then UnlockH r else Ret r)" by simp
  have own: "holds_h (UnlockT b r) = b" "inside (UnlockT b r)" "holds_h pc' = b" "\<not> inside pc'" "pc_for op pc'"
      "pending f l pc' = pending f l (UnlockT b r)" for f l
    using pf new by (simp_all add: pc_defs)
  have town: "rs_towner s = Some t" using L pc own(2) by (simp add: locks_inv_def)
  have q: "disowned (rs_towner s) t (unlock_t (rs_q s)) = (rs_q s)\<lparr>rq_tlock := False\<rparr>"
    using L town by (simp add: disowned_def unlock_t_def locks_inv_def)
  let ?s = "go t pc' (s\<lparr>rs_q := (rs_q s)\<lparr>rq_tlock := False\<rparr>, rs_towner := None\<rparr>)"
  have "thread_step t s = Some (Inr ?s)" using ops pc q new by (simp add: thread_step_def)
  moreover have "locks_inv ?s"
  proof -
    have "\<not> inside (rs_pc s u)" if "u \<noteq> t" for u
      using L town that by (metis locks_inv_def option.inject)
    then show ?thesis using L own pc by (auto simp: locks_inv_def)
  qed
  moreover have "progs_inv ?s" using P own ops by (simp add: progs_inv_def)
  moreover have "hist_inv ?s" using H ops own pc by (simp add: hist_inv_def)
  moreover have "ring_ok (rs_q s) xs" using xs town pc by (simp add: data_inv_def data_at_def)
  then have "data_inv ?s xs" using xs by (simp add: data_inv_def ring_ok_def)
  ultimately show ?thesis by (auto simp: ring_inv_def)
qed

lemma step_unlockh_inv:
  assumes inv: "ring_inv s" and ops: "rs_todo s t = op # ops" and pc: "rs_pc s t = UnlockH r"
  shows "\<exists>s'. thread_step t s = Some (Inr s') \<and> ring_inv s' \<and> rq_cap (rs_q s') = rq_cap (rs_q s)"
proof -
  obtain xs where xs: "data_inv s xs" using inv by (auto simp: ring_inv_def)
  have L: "locks_inv s" and P: "progs_inv s" and H: "hist_inv s" using inv by (simp_all add: ring_inv_def)
  have own: "holds_h (UnlockH r)" "\<not> inside (UnlockH r)" "\<not> holds_h (Ret r)" "\<not> inside (Ret r)" "pc_for op (Ret r)"
      "pending f l (Ret r) = pending f l (UnlockH r)" for f l
    by (simp_all add: pc_defs)
  have hown: "rs_howner s = Some t" "rs_towner s \<noteq> Some t" using L pc own(1,2) by (simp_all add: locks_inv_def)
  have q: "disowned (rs_howner s) t (unlock_h (rs_q s)) = (rs_q s)\<lparr>rq_hlock := False\<rparr>"
    using L hown by (simp add: disowned_def unlock_h_def locks_inv_def)
  let ?s = "go t (Ret r) (s\<lparr>rs_q := (rs_q s)\<lparr>rq_hlock := False\<rparr>, rs_howner := None\<rparr>)"
  have "thread_step t s = Some (Inr ?s)" using ops pc q by (simp add: thread_step_def)
  moreover have "locks_inv ?s"
  proof -
    have "\<not> holds_h (rs_pc s u)" if "u \<noteq> t" for u
      using L hown that by (metis locks_inv_def option.inject)
    then show ?thesis using L own hown pc by (auto simp: locks_inv_def)
  qed
  moreover have "progs_inv ?s" using P own ops by (simp add: progs_inv_def)
  moreover have "hist_inv ?s" using H ops own pc by (simp add: hist_inv_def)
  moreover have "data_inv ?s xs" by (rule data_inv_other [OF xs]) (use hown in auto)
  ultimately show ?thesis by (auto simp: ring_inv_def)
qed

lemma step_ret_inv:
  assumes inv: "ring_inv s" and ops: "rs_todo s t = op # ops" and pc: "rs_pc s t = Ret r"
  shows "\<exists>s'. thread_step t s = Some (Inr s') \<and> ring_inv s' \<and> rq_cap (rs_q s') = rq_cap (rs_q s)"
proof -
  obtain xs where xs: "data_inv s xs" using inv by (auto simp: ring_inv_def)
  have L: "locks_inv s" and P: "progs_inv s" and H: "hist_inv s" using inv by (simp_all add: ring_inv_def)
  have own: "\<not> holds_h (Ret r)" "\<not> inside (Ret r)" "\<not> holds_h Idle" "\<not> inside Idle" "pc_for op' Idle"
      "pending f l Idle = []" "pending f [op] (Ret r) = f (op, r)" for f l op'
    by (simp_all add: pc_defs)
  have town: "rs_towner s \<noteq> Some t" using L pc own(2) by (simp add: locks_inv_def)
  let ?s = "go t Idle (s\<lparr>rs_todo := (rs_todo s)(t := ops), rs_hist := (rs_hist s)(t := rs_hist s t @ [(op, r)])\<rparr>)"
  have "thread_step t s = Some (Inr ?s)" using ops pc by (simp add: thread_step_def)
  moreover have "locks_inv ?s" using L own pc by (simp add: locks_inv_def)
  moreover have "\<forall>op \<in> set ops. shared_op op" using P ops by (auto simp: progs_inv_def dest: spec [of _ t])
  then have "progs_inv ?s" using P own ops by (simp add: progs_inv_def)
  moreover have "hist_inv ?s"
    using H ops own pc by (simp add: hist_inv_def pending_Cons [of _ op ops] o_def)
  moreover have "data_inv ?s xs" by (rule data_inv_other [OF xs]) (use town in auto)
  ultimately show ?thesis by (auto simp: ring_inv_def)
qed

text \<open>Every step keeps the invariant; a thread only waits at a lock that another thread owns.\<close>

lemma thread_step_inv:
  assumes "ring_inv s"
  shows "(case thread_step t s of
      None \<Rightarrow> rs_todo s t = [] \<or> (\<exists>two b. rs_pc s t = HLock two b) \<and> rs_howner s \<noteq> None \<or>
        (\<exists>b. rs_pc s t = TLock b) \<and> rs_towner s \<noteq> None
    | Some r \<Rightarrow> \<exists>s'. r = Inr s' \<and> ring_inv s' \<and> rq_cap (rs_q s') = rq_cap (rs_q s))"
proof (cases "rs_todo s t")
  case Nil
  then show ?thesis by (simp add: thread_step_def)
next
  case (Cons op ops)
  note steps = step_idle_inv [OF assms Cons] step_hlock_inv [OF assms Cons] step_tlock_inv [OF assms Cons]
    step_unlockt_inv [OF assms Cons] step_unlockh_inv [OF assms Cons] step_ret_inv [OF assms Cons]
  show ?thesis
  proof (cases "inside (rs_pc s t) \<and> (\<nexists>b r. rs_pc s t = UnlockT b r)")
    case True
    then show ?thesis using step_data_inv [OF assms Cons] by auto
  next
    case False
    then consider "rs_pc s t = Idle" | two b where "rs_pc s t = HLock two b" | b where "rs_pc s t = TLock b"
      | b r where "rs_pc s t = UnlockT b r" | r where "rs_pc s t = UnlockH r" | r where "rs_pc s t = Ret r"
      by (cases "rs_pc s t") (auto simp: inside_def)
    then show ?thesis by cases (use steps in \<open>fastforce split: if_splits\<close>)+
  qed
qed

lemma run_sched_inv:
  assumes "ring_inv s"
  shows "\<exists>s'. run_sched sch s = Inr s' \<and> ring_inv s' \<and> rq_cap (rs_q s') = rq_cap (rs_q s)"
  using assms
proof (induction sch arbitrary: s)
  case (Cons t sch)
  show ?case
  proof (cases "thread_step t s")
    case None
    then show ?thesis using Cons by simp
  next
    case (Some r)
    then obtain s' where "r = Inr s'" "ring_inv s'" "rq_cap (rs_q s') = rq_cap (rs_q s)"
      using thread_step_inv [OF Cons.prems, of t] by auto
    then show ?thesis using Some Cons.IH [of s'] by auto
  qed
qed simp


section \<open>Progress\<close>

text \<open>An upper bound on the steps an operation still takes at a program point.\<close>

definition steps_left :: "ring_op \<Rightarrow> ring_pc \<Rightarrow> nat" where
  "steps_left op pc =
     (let n = (case op of Pop n \<Rightarrow> 3 * nat (sint n) | _ \<Rightarrow> 0) in
      case pc of
        Idle \<Rightarrow> n + 10 | HLock _ _ \<Rightarrow> n + 9 | TLock _ \<Rightarrow> n + 8 | Check _ \<Rightarrow> 7 | Put_Buf _ \<Rightarrow> 6 | Put_Tail _ \<Rightarrow> 5
      | Put_Count _ \<Rightarrow> 4 | GetN_Test k _ \<Rightarrow> 3 * k + 7 | GetN_Buf k _ \<Rightarrow> 3 * k + 6 | GetN_Head k _ \<Rightarrow> 3 * k + 5
      | GetN_Count _ \<Rightarrow> 4 | UnlockT _ _ \<Rightarrow> 3 | UnlockH _ \<Rightarrow> 2 | Ret _ \<Rightarrow> 1 | _ \<Rightarrow> 0)"

definition thread_left :: "ring_op list \<Rightarrow> ring_pc \<Rightarrow> nat" where
  "thread_left ops pc =
     (case ops of [] \<Rightarrow> 0 | op # ops \<Rightarrow> steps_left op pc + sum_list (map (\<lambda>op. steps_left op Idle) ops))"

lemma start_left: "shared_op op \<Longrightarrow> steps_left op (start_pc op q) < steps_left op Idle"
  by (cases op) (auto simp: shared_op_def start_pc_def Let_def steps_left_def)

lemma locked_left: "shared_op op \<Longrightarrow> pc_for op (TLock b) \<Longrightarrow> steps_left op (locked_pc op b) < steps_left op (TLock b)"
  by (cases op) (auto simp: shared_op_def locked_pc_def steps_left_def pc_for_def)

lemma data_left:
  assumes "data_step op pc q = Inr (pc', q')" "pc_for op pc"
  shows "steps_left op pc' < steps_left op pc"
  using assms
  by (cases pc)
    (auto simp: data_step_def at_pc_def rbind_Inr_iff pc_for_def check_pc_def unlock_pc_def steps_left_def Let_def
      split: if_splits)

lemma step_left:
  assumes "thread_step t s = Some (Inr s')" "progs_inv s"
  shows "thread_left (rs_todo s' t) (rs_pc s' t) < thread_left (rs_todo s t) (rs_pc s t)"
    "u \<noteq> t \<Longrightarrow> rs_todo s' u = rs_todo s u \<and> rs_pc s' u = rs_pc s u"
    "map fst (rs_hist s' u) @ rs_todo s' u = map fst (rs_hist s u) @ rs_todo s u"
proof -
  obtain op ops where ops: "rs_todo s t = op # ops" using assms(1) by (cases "rs_todo s t") (auto simp: thread_step_def)
  have pf: "pc_for op (rs_pc s t)" and so: "shared_op op"
    using assms(2) ops by (auto simp: progs_inv_def dest: spec [of _ t])
  have "thread_left (rs_todo s' t) (rs_pc s' t) < thread_left (rs_todo s t) (rs_pc s t) \<and>
    (u \<noteq> t \<longrightarrow> rs_todo s' u = rs_todo s u \<and> rs_pc s' u = rs_pc s u) \<and>
    map fst (rs_hist s' u) @ rs_todo s' u = map fst (rs_hist s u) @ rs_todo s u"
  proof (cases "inside (rs_pc s t) \<and> (\<nexists>b r. rs_pc s t = UnlockT b r)")
    case True
    then obtain pc' q' where "data_step op (rs_pc s t) (rs_q s) = Inr (pc', q')" "rs_pc s' = (rs_pc s)(t := pc')"
        "rs_todo s' = rs_todo s" "rs_hist s' = rs_hist s"
      using assms(1) thread_step_data [OF ops] by (auto simp: rbind_Inr_iff)
    then show ?thesis using data_left [OF _ pf] ops by (simp add: thread_left_def)
  next
    case False
    then consider "rs_pc s t = Idle" | two b where "rs_pc s t = HLock two b" | b where "rs_pc s t = TLock b"
      | b r where "rs_pc s t = UnlockT b r" | r where "rs_pc s t = UnlockH r" | r where "rs_pc s t = Ret r"
      by (cases "rs_pc s t") (auto simp: inside_def)
    then show ?thesis
      using assms(1) ops pf start_left [OF so] locked_left [OF so]
      by cases
        (auto simp: thread_step_def thread_left_def lock_h_def lock_t_def steps_left_def [of _ "HLock _ _"]
          steps_left_def [of _ "TLock _"] steps_left_def [of _ "UnlockT _ _"] steps_left_def [of _ "UnlockH _"]
          steps_left_def [of _ "Ret _"] pc_for_def [of _ "HLock _ _"] Let_def split: if_splits list.splits)
  qed
  then show "thread_left (rs_todo s' t) (rs_pc s' t) < thread_left (rs_todo s t) (rs_pc s t)"
    "u \<noteq> t \<Longrightarrow> rs_todo s' u = rs_todo s u \<and> rs_pc s' u = rs_pc s u"
    "map fst (rs_hist s' u) @ rs_todo s' u = map fst (rs_hist s u) @ rs_todo s u" by simp_all
qed


text \<open>
  A thread that waits at the tail mutex holds at most the head mutex, and the owner of the tail mutex
  never waits, so some thread can always go on.
\<close>

lemma some_thread_steps:
  assumes inv: "ring_inv s" and t: "rs_todo s t \<noteq> []"
  shows "\<exists>u s'. thread_step u s = Some (Inr s')"
proof -
  have L: "(rs_howner s = Some v) = holds_h (rs_pc s v)" "(rs_towner s = Some v) = inside (rs_pc s v)" for v
    using inv by (simp_all add: ring_inv_def locks_inv_def)
  have idle: "rs_pc s v = Idle" if "rs_todo s v = []" for v using inv that by (simp add: ring_inv_def progs_inv_def)
  have moves: "\<exists>s'. thread_step v s = Some (Inr s')"
    if "rs_todo s v \<noteq> []" "rs_howner s \<noteq> None \<Longrightarrow> \<nexists>two b. rs_pc s v = HLock two b"
      "rs_towner s \<noteq> None \<Longrightarrow> \<nexists>b. rs_pc s v = TLock b" for v
    using thread_step_inv [OF inv, of v] that by (cases "thread_step v s") auto
  consider u where "rs_towner s = Some u" | u where "rs_towner s = None" "rs_howner s = Some u"
    | "rs_towner s = None" "rs_howner s = None" by (cases "rs_towner s"; cases "rs_howner s") auto
  then show ?thesis
  proof cases
    case (1 u)
    then have "inside (rs_pc s u)" using L(2) by simp
    then have "rs_todo s u \<noteq> []" "\<nexists>two b. rs_pc s u = HLock two b" "\<nexists>b. rs_pc s u = TLock b"
      using idle [of u] by (auto simp: inside_def)
    then show ?thesis using moves [of u] by blast
  next
    case (2 u)
    then have "holds_h (rs_pc s u)" using L(1) by simp
    then have "rs_todo s u \<noteq> []" "\<nexists>two b. rs_pc s u = HLock two b" using idle [of u] by (auto simp: holds_h_def)
    then show ?thesis using moves [of u] 2(1) by blast
  next
    case 3
    then show ?thesis using moves [OF t] by blast
  qed
qed

definition work_left :: "nat \<Rightarrow> ring_sys \<Rightarrow> nat" where
  "work_left n s = (\<Sum>t < n. thread_left (rs_todo s t) (rs_pc s t))"

lemma step_work_left:
  assumes "thread_step t s = Some (Inr s')" "ring_inv s" "t < n"
  shows "work_left n s' < work_left n s"
proof -
  have P: "progs_inv s" using assms(2) by (simp add: ring_inv_def)
  note l = step_left(1,2) [OF assms(1) P]
  show ?thesis unfolding work_left_def
  proof (rule sum_strict_mono_ex1)
    show "\<forall>u \<in> {..<n}. thread_left (rs_todo s' u) (rs_pc s' u) \<le> thread_left (rs_todo s u) (rs_pc s u)"
    proof
      fix u show "thread_left (rs_todo s' u) (rs_pc s' u) \<le> thread_left (rs_todo s u) (rs_pc s u)"
        using l(1) l(2) [of u] by (cases "u = t") simp_all
    qed
  qed (use l(1) assms(3) in auto)
qed

text \<open>Finished threads do not move.\<close>

lemma step_within:
  assumes "thread_step t s = Some r" "\<forall>t \<ge> n. rs_todo s t = []"
  shows "t < n"
  using assms by (auto simp: thread_step_def not_less [symmetric])

lemma finish_from:
  assumes "ring_inv s" "\<forall>t \<ge> n. rs_todo s t = []"
  shows "\<exists>sch s'. length sch \<le> work_left n s \<and> run_sched sch s = Inr s' \<and> ring_inv s' \<and> (\<forall>t. rs_todo s' t = [])"
  using assms
proof (induction "work_left n s" arbitrary: s rule: less_induct)
  case less
  show ?case
  proof (cases "\<exists>t. rs_todo s t \<noteq> []")
    case False
    then show ?thesis using less.prems by (intro exI [of _ "[]"] exI [of _ s]) auto
  next
    case True
    then obtain u s1 where u: "thread_step u s = Some (Inr s1)" using some_thread_steps [OF less.prems(1)] by blast
    have lt: "u < n" using step_within [OF u less.prems(2)] .
    have w: "work_left n s1 < work_left n s" using step_work_left [OF u less.prems(1) lt] .
    have inv: "ring_inv s1" using thread_step_inv [OF less.prems(1), of u] u by simp
    have "\<forall>t \<ge> n. rs_todo s1 t = []"
      using step_left(2) [OF u] less.prems lt by (auto simp: ring_inv_def)
    then obtain sch s' where "length sch \<le> work_left n s1" "run_sched sch s1 = Inr s'" "ring_inv s'"
        "\<forall>t. rs_todo s' t = []"
      using less.hyps [OF w inv] by blast
    then show ?thesis using u w by (intro exI [of _ "u # sch"] exI [of _ s']) auto
  qed
qed

lemma run_sched_append: "run_sched (sch @ sch') s = rbind (run_sched sch s) (run_sched sch')"
proof (induction sch arbitrary: s)
  case (Cons t sch)
  then show ?case by (cases "thread_step t s") (auto simp: rbind_def split: sum.splits)
qed simp

lemma run_sched_progs:
  assumes "ring_inv s" "run_sched sch s = Inr s'"
  shows "map fst (rs_hist s' t) @ rs_todo s' t = map fst (rs_hist s t) @ rs_todo s t"
  using assms
proof (induction sch arbitrary: s)
  case (Cons u sch)
  show ?case
  proof (cases "thread_step u s")
    case None
    then show ?thesis using Cons by simp
  next
    case (Some r)
    then obtain s1 where s1: "thread_step u s = Some (Inr s1)" "ring_inv s1"
      using thread_step_inv [OF Cons.prems(1), of u] by auto
    then have "map fst (rs_hist s1 t) @ rs_todo s1 t = map fst (rs_hist s t) @ rs_todo s t"
      using step_left(3) [OF s1(1)] Cons.prems(1) by (simp add: ring_inv_def)
    then show ?thesis using Cons.IH [OF s1(2)] Cons.prems(2) s1(1) by simp
  qed
qed simp

lemma ring_start_inv:
  assumes "ring_ok q []" "unlocked q" "\<not> rq_misuse q" "\<forall>t. \<forall>op \<in> set (progs t). shared_op op"
  shows "ring_inv (ring_start q progs)"
  using assms
  by (auto simp: ring_inv_def ring_start_def locks_inv_def progs_inv_def hist_inv_def data_inv_def pc_defs by_thread_def)

lemma accesses_inside: "accesses pc \<Longrightarrow> inside pc"
  by (cases pc) (simp_all add: accesses_def inside_def)

lemma data_inv_counts:
  assumes "data_inv s xs"
  shows "unat (rq_count (rs_q s)) = length xs" "length xs \<le> unat (rq_cap (rs_q s))"
  using assms by (auto simp: data_inv_def data_at_def ring_ok_def split: option.splits)

lemma ring_inv_facts:
  assumes "ring_inv s"
  shows "\<exists>xs. map snd (rs_in s) = map snd (rs_out s) @ xs \<and> unat (rq_count (rs_q s)) = length xs \<and>
      length xs \<le> unat (rq_cap (rs_q s)) \<and> (rs_towner s = None \<longrightarrow> ring_ok (rs_q s) xs)"
    "accesses (rs_pc s t) \<Longrightarrow> accesses (rs_pc s u) \<Longrightarrow> t = u"
    "rs_pc s t = Idle \<Longrightarrow> by_thread t (rs_in s) = concat (map accepted (rs_hist s t)) \<and>
      by_thread t (rs_out s) = concat (map taken (rs_hist s t))"
    "\<not> rq_misuse (rs_q s)"
proof -
  obtain xs where xs: "data_inv s xs" using assms by (auto simp: ring_inv_def)
  then show "\<exists>xs. map snd (rs_in s) = map snd (rs_out s) @ xs \<and> unat (rq_count (rs_q s)) = length xs \<and>
      length xs \<le> unat (rq_cap (rs_q s)) \<and> (rs_towner s = None \<longrightarrow> ring_ok (rs_q s) xs)"
    using data_inv_counts [OF xs] by (intro exI [of _ xs]) (auto simp: data_inv_def)
  show "t = u" if "accesses (rs_pc s t)" "accesses (rs_pc s u)"
    using that [THEN accesses_inside] assms by (metis ring_inv_def locks_inv_def option.inject)
  show "by_thread t (rs_in s) = concat (map accepted (rs_hist s t)) \<and>
      by_thread t (rs_out s) = concat (map taken (rs_hist s t))" if "rs_pc s t = Idle"
    using assms that by (simp add: ring_inv_def hist_inv_def pending_def ret_of_def)
  show "\<not> rq_misuse (rs_q s)" using assms by (simp add: ring_inv_def locks_inv_def)
qed

section \<open>Properties\<close>

text \<open>
  C7: the queue shared by several threads. From an empty ring, any number of threads run
  \<open>ring_push_one\<close>, \<open>ring_pop\<close> and \<open>ring_count\<close> in any interleaving: no step faults and no mutex is
  misused; at every moment the elements put so far, in order, are those taken so far followed by the
  \<open>count\<close> elements in the ring, which never exceed its capacity and are its contents whenever the
  tail mutex is free; no two threads access the buffer, \<open>head\<close> or \<open>tail\<close> at the same time; and what
  a thread has put and taken is exactly what its calls returned.
\<close>

theorem ring_threads_correct:
  assumes "ring_ok q []" "unlocked q" "\<not> rq_misuse q" "\<forall>t. \<forall>op \<in> set (progs t). shared_op op"
  shows "\<exists>s. run_sched sch (ring_start q progs) = Inr s \<and> \<not> rq_misuse (rs_q s) \<and>
    (\<exists>xs. map snd (rs_in s) = map snd (rs_out s) @ xs \<and> unat (rq_count (rs_q s)) = length xs \<and>
      length xs \<le> unat (rq_cap q) \<and> (rs_towner s = None \<longrightarrow> ring_ok (rs_q s) xs)) \<and>
    (\<forall>t u. accesses (rs_pc s t) \<longrightarrow> accesses (rs_pc s u) \<longrightarrow> t = u) \<and>
    (\<forall>t. rs_pc s t = Idle \<longrightarrow> by_thread t (rs_in s) = concat (map accepted (rs_hist s t)) \<and>
      by_thread t (rs_out s) = concat (map taken (rs_hist s t)))"
proof -
  have "ring_inv (ring_start q progs)" by (rule ring_start_inv [OF assms])
  then obtain s where "run_sched sch (ring_start q progs) = Inr s" "ring_inv s" "rq_cap (rs_q s) = rq_cap q"
    using run_sched_inv [of "ring_start q progs" sch] by (auto simp: ring_start_def)
  then show ?thesis using ring_inv_facts [of s] by (metis (no_types, lifting))
qed

text \<open>
  C12: the threads never block each other for good. However n threads have been interleaved so far, the
  run can be continued to a state where every thread has finished its program, within a number of
  steps that depends on the programs only, and no schedule gets stuck before: as long as a
  thread has work, some thread can make a step, and every step reduces the remaining work.
\<close>

theorem ring_threads_finish:
  assumes "ring_ok q []" "unlocked q" "\<not> rq_misuse q" "\<forall>t. \<forall>op \<in> set (progs t). shared_op op"
    "\<forall>t \<ge> n. progs t = []"
  shows "\<exists>s rest s'. run_sched sch (ring_start q progs) = Inr s \<and>
    ((\<exists>t. rs_todo s t \<noteq> []) \<longrightarrow> (\<exists>u s1. thread_step u s = Some (Inr s1))) \<and>
    (\<forall>u s1. thread_step u s = Some (Inr s1) \<longrightarrow> work_left n s1 < work_left n s) \<and>
    length rest \<le> work_left n s \<and> run_sched (sch @ rest) (ring_start q progs) = Inr s' \<and>
    (\<forall>t. map fst (rs_hist s' t) = progs t)"
proof -
  let ?s0 = "ring_start q progs"
  have inv0: "ring_inv ?s0" by (rule ring_start_inv [OF assms(1-4)])
  then obtain s where s: "run_sched sch ?s0 = Inr s" "ring_inv s"
    using run_sched_inv [of ?s0 sch] by auto
  have progs: "map fst (rs_hist s t) @ rs_todo s t = progs t" for t
    using run_sched_progs [OF inv0 s(1)] by (simp add: ring_start_def)
  then have n: "\<forall>t \<ge> n. rs_todo s t = []" using assms(5) by (metis append_is_Nil_conv)
  obtain rest s' where r: "length rest \<le> work_left n s" "run_sched rest s = Inr s'" "\<forall>t. rs_todo s' t = []"
    using finish_from [OF s(2) n] by blast
  have "map fst (rs_hist s' t) = progs t" for t
    using run_sched_progs [OF s(2) r(2), of t] r(3) progs [of t] by simp
  moreover have "run_sched (sch @ rest) ?s0 = Inr s'" using s(1) r(2) by (simp add: run_sched_append)
  moreover have "work_left n s1 < work_left n s" if "thread_step u s = Some (Inr s1)" for u s1
    by (rule step_work_left [OF that s(2) step_within [OF that n]])
  moreover have "\<exists>u s1. thread_step u s = Some (Inr s1)" if "rs_todo s t \<noteq> []" for t
    by (rule some_thread_steps [OF s(2) that])
  ultimately show ?thesis using s(1) r(1) by blast
qed

section \<open>Concrete runs\<close>

text \<open>Two adders and two workers on a ring of four.\<close>

definition demo_progs :: "nat \<Rightarrow> ring_op list" where
  "demo_progs t = (if t = 0 then [Push_One 5, Push_One 6] else if t = 1 then [Push_One 7]
     else if t = 2 then [Count, Pop 2] else if t = 3 then [Pop 1] else [])"

lemma demo_progs_ok:
  "ring_ok (demo_ring []) []" "unlocked (demo_ring [])" "\<not> rq_misuse (demo_ring [])"
  "\<forall>t. \<forall>op \<in> set (demo_progs t). shared_op op" "\<forall>t \<ge> 4. demo_progs t = []"
  by (auto simp: ring_ok_def demo_ring_def demo_progs_def shared_op_def split: if_splits)

definition demo_sch :: "nat list" where
  "demo_sch = [0, 1, 0, 1, 0, 0, 0, 0, 0, 1, 0, 1, 2, 1, 1, 2, 2] @ replicate 9 1 @ replicate 14 2"

theorem ring_threads_correct_witness:
  "\<exists>s xs. run_sched demo_sch (ring_start (demo_ring []) demo_progs) = Inr s \<and> \<not> rq_misuse (rs_q s) \<and>
    map snd (rs_in s) = map snd (rs_out s) @ xs"
  using ring_threads_correct [OF demo_progs_ok(1-4), where sch = demo_sch] by blast

theorem ring_threads_finish_witness:
  "\<exists>rest s'. run_sched (demo_sch @ rest) (ring_start (demo_ring []) demo_progs) = Inr s' \<and>
    map fst (rs_hist s' 0) = [Push_One 5, Push_One 6] \<and> map fst (rs_hist s' 2) = [Count, Pop 2]"
proof -
  obtain rest s' where "run_sched (demo_sch @ rest) (ring_start (demo_ring []) demo_progs) = Inr s'"
      "\<forall>t. map fst (rs_hist s' t) = demo_progs t"
    using ring_threads_finish [OF demo_progs_ok, where sch = demo_sch] by blast
  then show ?thesis by (intro exI [of _ rest] exI [of _ s']) (auto simp: demo_progs_def)
qed

lemma demo_threads_results:
  "map_sum id (\<lambda>s. (rs_hist s 1, rs_hist s 2, rs_in s)) (run_sched demo_sch (ring_start (demo_ring []) demo_progs)) =
   Inr ([(Push_One 7, RInt 1)], [(Count, RInt 1), (Pop 2, RPtrs [5, 7])], [(0, 5), (1, 7)])"
  by code_simp

text \<open>
  A worker's own queue has an owner that takes with \<open>ring_pop_one\<close> and thieves that take with
  \<open>ring_pop_back\<close>. With three elements the owner locks the head mutex only but unlocks both, which
  opens the tail mutex under the first thief; the second thief gets in, and both return the
  same element, so that one thread is run by two workers and another one is lost.
\<close>

definition thieves :: "nat \<Rightarrow> ring_op list" where
  "thieves t = (if t = 0 then [Pop_One] else if t \<le> 2 then [Pop_Back] else [])"

definition steal_sch :: "nat list" where
  "steal_sch = [1, 1, 1] @ replicate 8 0 @ [2, 2, 2, 1, 2, 1, 2] @ replicate 9 1 @ replicate 9 2"

lemma steal_returns_twice:
  "map_sum id (\<lambda>s. (rs_hist s 1, rs_hist s 2, rq_misuse (rs_q s)))
     (run_sched steal_sch (ring_start (demo_ring [7, 8, 9]) thieves)) =
   Inr ([(Pop_Back, RPtr 8)], [(Pop_Back, RPtr 8)], True)"
  by code_simp

end
