(* ===== verification/Load_File.thy ===== *)
theory Load_File
  imports Sys_Spec Elf_Spec
begin

text \<open>
  Programs in files: \<open>lps_proc_load_fd\<close> and \<open>lps_proc_load_file\<close> of \<open>proc.c\<close>, and the buffers of \<open>buf.c\<close>. The
  image is a private mapping of the file; loading it keeps what loading an image from memory keeps.
\<close>

section \<open>Images in files\<close>

text \<open>
  The host's \<open>SEEK_SET\<close>, \<open>SEEK_CUR\<close> and \<open>SEEK_END\<close> are 0, 1 and 2. The image is what the mapping holds; it
  is private and the loader does not write to it. \<open>fopen\<close> opens the path for reading and \<open>fclose\<close> closes the
  descriptor.
\<close>

definition host_lseek :: "'k hostos \<Rightarrow> cint \<Rightarrow> u64 \<Rightarrow> cint \<Rightarrow> 'k world \<Rightarrow> u64 \<times> 'k world" where
  "host_lseek ho fd off whence w = (case ho (H_lseek fd off whence) w of (r, w) \<Rightarrow> (hr_ret r, w))"

definition lps_proc_load_fd ::
  "'k world hostvm \<Rightarrow> 'k hostos \<Rightarrow> bool \<Rightarrow> 'k LPSProc \<Rightarrow> cint \<Rightarrow> (bool \<times> 'k LPSProc) res" where
  "lps_proc_load_fd hv ho malloc_ok proc fd =
     (let (cur, w) = host_lseek ho fd 0 1 (pr_world proc);
          (prog_size, w) = host_lseek ho fd 0 2 w in
      if sint prog_size < 0 then Inr (False, pr_set_world proc w)
      else
        (let (_, w) = host_lseek ho fd cur 0 w;
             (_, w) = host_lseek ho fd 0 0 w;
             (prog_data, w) = hv_mmap hv 0 prog_size PROT_READ MAP_PRIVATE fd 0 w;
             proc = pr_set_world proc w in
         if prog_data = - 1 then Inr (False, proc)
         else
           rbind (proc_load hv malloc_ok proc fd (load_bytes prog_data (unat prog_size) (w_mem w))) (\<lambda>(ok, proc).
           case hv_munmap hv prog_data prog_size (pr_world proc) of (_, w) \<Rightarrow> Inr (ok, pr_set_world proc w))))"

definition lps_proc_load_file ::
  "'k world hostvm \<Rightarrow> 'k hostos \<Rightarrow> bool \<Rightarrow> 'k LPSProc \<Rightarrow> string \<Rightarrow> (bool \<times> 'k LPSProc) res" where
  "lps_proc_load_file hv ho malloc_ok proc prog_path =
     (case ho (H_open prog_path 0 0) (pr_world proc) of (f, w) \<Rightarrow>
        if hr_ret f = - 1 then Inr (False, pr_set_world proc w)
        else
          rbind (lps_proc_load_fd hv ho malloc_ok (pr_set_world proc w) (ucast (hr_ret f))) (\<lambda>(ok, proc).
          case ho (H_close (ucast (hr_ret f))) (pr_world proc) of (_, w) \<Rightarrow> Inr (ok, pr_set_world proc w)))"

text \<open>Files as buffers (\<open>buf.c\<close>): the error result is the zero structure, whose descriptor is 0.\<close>

definition no_buf :: Buf where
  "no_buf = \<lparr>bf_fd = 0, bf_data = [], bf_size = 0\<rparr>"

definition buf_read_file ::
  "'k world hostvm \<Rightarrow> 'k hostos \<Rightarrow> string \<Rightarrow> 'k world \<Rightarrow> (Buf \<times> u64) \<times> 'k world" where
  "buf_read_file hv ho filename w =
     (case ho (H_open filename 0 0) w of (f, w) \<Rightarrow>
        let fd = ucast (hr_ret f) :: cint in
        if sint fd < 0 then ((no_buf, 0), w)
        else
          (let (sz, w) = host_lseek ho fd 0 2 w in
           if sint sz < 0 then ((no_buf, 0), snd (ho (H_close fd) w))
           else
             (let (_, w) = host_lseek ho fd 0 0 w;
                  (p, w) = hv_mmap hv 0 sz PROT_READ MAP_PRIVATE fd 0 w in
              if p = - 1 then ((no_buf, 0), snd (ho (H_close fd) w))
              else ((\<lparr>bf_fd = fd, bf_data = load_bytes p (unat sz) (w_mem w), bf_size = sz\<rparr>, p), w))))"

definition buf_close :: "'k world hostvm \<Rightarrow> 'k hostos \<Rightarrow> Buf \<times> u64 \<Rightarrow> 'k world \<Rightarrow> 'k world" where
  "buf_close hv ho buf w =
     (if bf_fd (fst buf) \<noteq> - 1 then snd (hv_munmap hv (snd buf) (bf_size (fst buf)) (snd (ho (H_close (bf_fd (fst buf))) w)))
      else w)"

text \<open>
  What the kernel does with files: \<open>lseek\<close> to the end answers the length of the file behind fd, a private mapping
  holds its bytes, opening the path gives fd or fails. Mapping a file where the kernel chooses and unmapping
  that again leave I.
\<close>

definition file_is :: "'k world hostvm \<Rightarrow> 'k hostos \<Rightarrow> cint \<Rightarrow> u8 list \<Rightarrow> bool" where
  "file_is hv ho fd prog \<longleftrightarrow>
     (\<forall>w. hr_ret (fst (ho (H_lseek fd 0 2) w)) = of_nat (length prog)) \<and>
     (\<forall>w p w'. hv_mmap hv 0 (of_nat (length prog)) PROT_READ MAP_PRIVATE fd 0 w = (p, w') \<and> p \<noteq> - 1 \<longrightarrow>
        load_bytes p (length prog) (w_mem w') = prog)"

definition opens :: "'k hostos \<Rightarrow> string \<Rightarrow> cint \<Rightarrow> bool" where
  "opens ho path fd \<longleftrightarrow> (\<forall>w. hr_ret (fst (ho (H_open path 0 0) w)) \<in> {int_to_u64 fd, - 1})"

definition files_keep :: "'k world hostvm \<Rightarrow> ('k world \<Rightarrow> bool) \<Rightarrow> bool" where
  "files_keep hv I \<longleftrightarrow> (\<forall>n fd w p w'. I w \<and> hv_mmap hv 0 n PROT_READ MAP_PRIVATE fd 0 w = (p, w') \<longrightarrow>
     I w' \<and> (\<forall>v. I v \<and> p \<noteq> - 1 \<longrightarrow> I (snd (hv_munmap hv p n v))))"

lemma narrow_int: "ucast (int_to_u64 fd) = fd"
  unfolding int_to_u64_def by (rule bit_word_eqI) (auto simp: bit_simps)

text \<open>What loading promises.\<close>

definition load_result :: "('k world \<Rightarrow> bool) \<Rightarrow> 'k LPSProc \<Rightarrow> bool \<Rightarrow> 'k LPSProc \<Rightarrow> bool" where
  "load_result I p ok p' \<longleftrightarrow> proc_kept I p p' \<and> segs_inside p' \<and>
     (ok \<longrightarrow> box_lo (pr_box p) \<le> unat (pr_entry p') \<and> unat (pr_entry p') < box_lo (pr_box p) + unat CODE_MAX \<and>
       box_lo (pr_box p) \<le> unat (pr_brkbase p') \<and> unat (pr_brkbase p') + unat (lo_brksize (pr_opts p)) \<le> box_hi (pr_box p))"

lemma seek_keeps:
  assumes "os_keeps ho lo hi I" "I w" "host_lseek ho fd off whence w = (r, w')"
  shows "I w'" "r = hr_ret (fst (ho (H_lseek fd off whence) w))"
proof -
  have "I (snd (ho (H_lseek fd off whence) w))" using assms(1,2) unfolding os_keeps_def by simp
  then show "I w'" "r = hr_ret (fst (ho (H_lseek fd off whence) w))"
    using assms(3) by (auto simp: host_lseek_def split: prod.splits)
qed

lemma set_world_simps [simp]:
  "pr_box (pr_set_world p w) = box_set_world (pr_box p) w" "pr_segs (pr_set_world p w) = pr_segs p"
  "pr_opts (pr_set_world p w) = pr_opts p" "pr_world (pr_set_world p w) = w"
  "pr_entry (pr_set_world p w) = pr_entry p" "pr_brkbase (pr_set_world p w) = pr_brkbase p"
  "bx_base (box_set_world b w) = bx_base b" "bx_size (box_set_world b w) = bx_size b"
  by (simp_all add: pr_set_world_def pr_world_def box_set_world_def)

lemma load_result_world:
  assumes "proc_confined hv I p" "load_result I p ok q" "I w"
  shows "load_result I p ok (pr_set_world q w)"
proof -
  have k: "proc_kept I p q" using assms(2) by (simp add: load_result_def)
  have "proc_kept I q (pr_set_world q w)" by (rule proc_kept_world [OF proc_kept_confined [OF k assms(1)] assms(3)])
  then show ?thesis using proc_kept_trans [OF k] assms(2) by (auto simp: load_result_def segs_inside_def)
qed

lemma load_result_after:
  assumes "proc_kept I p p'" "load_result I p' ok q" "pr_opts p' = pr_opts p"
  shows "load_result I p ok q"
  using assms proc_kept_trans [OF assms(1)] by (auto simp: load_result_def proc_kept_def)

lemma load_result_none:
  assumes "proc_confined hv I p" "pr_segs p = []" "I w"
  shows "load_result I p False (pr_set_world p w)"
  using proc_kept_world [OF assms(1,3)] assms(2) by (simp add: load_result_def segs_inside_def)

lemma load_fd_ok:
  assumes p: "proc_confined hv I p" "0 < box_lo (pr_box p)" "pr_segs p = []" "lo_brksize (pr_opts p) \<noteq> 0"
      "M + unat (lo_brksize (pr_opts p)) \<le> unat (bx_size (pr_box p))" "image_sane M fd prog"
      "box_lo (pr_box p) + unat CODE_MAX < 2 ^ 64"
    and f: "file_is hv ho fd prog" "files_keep hv I" "os_keeps ho (box_lo (pr_box p)) (box_hi (pr_box p)) I"
  shows "\<exists>ok p'. lps_proc_load_fd hv ho malloc_ok p fd = Inr (ok, p') \<and> load_result I p ok p'"
proof -
  have w: "I (pr_world p)" using p(1) by (simp add: proc_confined_def)
  obtain cur w1 where 1: "host_lseek ho fd 0 1 (pr_world p) = (cur, w1)" by (rule prod.exhaust)
  obtain sz w2 where 2: "host_lseek ho fd 0 2 w1 = (sz, w2)" by (rule prod.exhaust)
  obtain r3 w3 where 3: "host_lseek ho fd cur 0 w2 = (r3, w3)" by (rule prod.exhaust)
  obtain r4 w4 where 4: "host_lseek ho fd 0 0 w3 = (r4, w4)" by (rule prod.exhaust)
  obtain a w5 where 5: "hv_mmap hv 0 sz PROT_READ MAP_PRIVATE fd 0 w4 = (a, w5)" by (rule prod.exhaust)
  note sk = seek_keeps [OF f(3)]
  have I1: "I w1" using sk(1) [OF w 1] . have I2: "I w2" using sk(1) [OF I1 2] . have I3: "I w3" using sk(1) [OF I2 3] .
  have I4: "I w4" using sk(1) [OF I3 4] .
  have I5: "I w5" and unmap: "\<And>v. I v \<Longrightarrow> a \<noteq> - 1 \<Longrightarrow> I (snd (hv_munmap hv a sz v))"
    using f(2) I4 5 unfolding files_keep_def by blast+
  have len: "sz = of_nat (length prog)" using sk(2) [OF I1 2] f(1) by (simp add: file_is_def)
  have "length prog < 2 ^ 63" using p(6) by (simp add: image_sane_def)
  then have usz: "unat sz = length prog" using len by (simp add: unat_of_nat_u64)
  show ?thesis
  proof (cases "sint sz < 0 \<or> a = - 1")
    case True
    then have "\<exists>w. I w \<and> lps_proc_load_fd hv ho malloc_ok p fd = Inr (False, pr_set_world p w)"
      using 1 2 3 4 5 I2 I5 by (cases "sint sz < 0") (auto simp: lps_proc_load_fd_def)
    then show ?thesis using load_result_none [OF p(1,3)] by blast
  next
    case False
    let ?p = "pr_set_world p w5"
    have k: "proc_kept I p ?p" by (rule proc_kept_world [OF p(1) I5])
    have c: "proc_confined hv I ?p" using k p(1) by (rule proc_kept_confined)
    have "load_bytes a (length prog) (w_mem w5) = prog"
      using f(1) 5 False unfolding file_is_def len by blast
    then have bytes: "load_bytes a (unat sz) (w_mem w5) = prog" using usz by simp
    have "\<exists>ok p'. proc_load hv malloc_ok ?p fd prog = Inr (ok, p') \<and> proc_kept I ?p p' \<and> segs_inside p' \<and> rest_kept ?p p' \<and>
      (ok \<longrightarrow> box_lo (pr_box ?p) \<le> unat (pr_entry p') \<and> unat (pr_entry p') < box_lo (pr_box ?p) + unat CODE_MAX \<and>
       box_lo (pr_box ?p) \<le> unat (pr_brkbase p') \<and>
       unat (pr_brkbase p') + unat (lo_brksize (pr_opts ?p)) \<le> box_hi (pr_box ?p) \<and>
       2 ^ 12 dvd unat (pr_brkbase p') \<and> pr_brksize p' = 0)"
      using c p(2-7) by (intro proc_load_ok) simp_all
    then obtain ok q where q: "proc_load hv malloc_ok ?p fd prog = Inr (ok, q)" "load_result I ?p ok q"
      by (auto simp: load_result_def)
    have qw: "load_result I p ok q" using k q(2) by (rule load_result_after) simp
    then have "I (pr_world q)" by (simp add: load_result_def proc_kept_def)
    then have "I (snd (hv_munmap hv a sz (pr_world q)))" using unmap False by blast
    then have "load_result I p ok (pr_set_world q (snd (hv_munmap hv a sz (pr_world q))))"
      by (rule load_result_world [OF p(1) qw])
    moreover have "lps_proc_load_fd hv ho malloc_ok p fd = Inr (ok, pr_set_world q (snd (hv_munmap hv a sz (pr_world q))))"
      using 1 2 3 4 5 False q(1) bytes by (simp add: lps_proc_load_fd_def split: prod.split)
    ultimately show ?thesis by blast
  qed
qed

section \<open>Properties\<close>


section \<open>A concrete file\<close>

text \<open>A host that maps the file at a fixed place, and a kernel that knows its length.\<close>

definition demo_prog :: "u8 list" where
  "demo_prog = demo_ehdr @ demo_phdr"

definition file_host :: "unit world hostvm" where
  "file_host = zero_host\<lparr>hv_mmap := (\<lambda>a n prot flags fd off w.
     if a = 0 \<and> flags = MAP_PRIVATE then (0x200000, w\<lparr>w_mem := store_bytes 0x200000 demo_prog (w_mem w)\<rparr>) else hv_mmap zero_host a n prot flags fd off w)\<rparr>"

definition file_os :: "unit hostos" where
  "file_os c w = (case c of
     H_lseek fd off whence \<Rightarrow> (if whence = 2 then ((fst (idle_os c w))\<lparr>hr_ret := of_nat (length demo_prog)\<rparr>, w) else idle_os c w)
   | _ \<Rightarrow> idle_os c w)"

definition low_zero :: "unit world \<Rightarrow> bool" where
  "low_zero w \<longleftrightarrow> w_mem w 0x10 = 0"

lemma demo_prog_length: "length demo_prog = 120"
  by (simp add: demo_prog_def demo_ehdr_def demo_phdr_def)

lemma file_is_demo: "file_is file_host file_os 0 demo_prog" "opens file_os path 0"
  using load_store_bytes [of demo_prog "0x200000"]
  by (auto simp: file_is_def opens_def file_host_def file_os_def idle_os_def int_to_u64_def demo_prog_length)

lemma demo_file_sane: "image_sane 0x2000 0 demo_prog"
proof -
  have "buf_read (image 0 demo_prog) = buf_read (image (- 1) demo_prog)" by (intro ext) (simp add: buf_read_def Let_def)
  then have h: "elf_headers (image 0 demo_prog) = elf_headers (image (- 1) demo_prog)" unfolding elf_headers_def by (simp only:)
  have "phdr_sane M (image 0 demo_prog) = phdr_sane M (image (- 1) demo_prog)" for M
    by (intro ext) (simp add: phdr_sane_def)
  then show ?thesis using demo_image_sane h unfolding image_sane_def demo_prog_def by (simp only:)
qed

lemma low_zero_kept:
  assumes "lo \<le> unat (a :: u64)" "unat a + n \<le> hi" "0x10 < lo" "hi < 2 ^ 64"
  shows "\<not> unat (0x10 - a) < n"
  using assms by (intro outside_offset [of "0x10" lo hi]) simp_all

lemma file_host_confined:
  assumes "0x10 < lo" "hi < 2 ^ 64"
  shows "host_confined file_host lo hi low_zero" "files_keep file_host low_zero" "os_keeps file_os lo hi low_zero"
proof -
  have fixed: "flags OR MAP_FIXED \<noteq> MAP_PRIVATE" for flags :: cint
  proof
    assume "flags OR MAP_FIXED = MAP_PRIVATE"
    then have "bit (flags OR MAP_FIXED) 4 = bit MAP_PRIVATE 4" by (rule arg_cong)
    then show False by (simp add: bit_simps MAP_FIXED_def MAP_PRIVATE_def)
  qed
  from fixed [of "MAP_ANONYMOUS OR MAP_PRIVATE"] fixed
  have "none_ok file_host" "fixed_or_fail file_host" "host_keeps file_host lo hi low_zero" "prot_keeps file_host lo hi low_zero"
    "mem_keeps lo hi low_zero"
    using assms low_zero_kept [OF _ _ assms]
    by (auto simp: none_ok_def fixed_or_fail_def host_keeps_def prot_keeps_def mem_keeps_def file_host_def zero_host_def
        low_zero_def store_bytes_def or.assoc)
  then show "host_confined file_host lo hi low_zero" by (simp add: host_confined_def)
  show "files_keep file_host low_zero"
    by (auto simp: files_keep_def file_host_def zero_host_def low_zero_def store_bytes_def demo_prog_length)
  show "os_keeps file_os lo hi low_zero"
    by (auto simp: os_keeps_def file_os_def idle_os_def low_zero_def split: hostcall.splits)
qed


end
