(* ===== verification/Launch.thy ===== *)
theory Launch
  imports Sandbox_Run Load_File
begin

text \<open>
  From a program to a running sandbox: the host programs of \<open>apps/\<close> make a process, load an image into it
  and start a thread (\<open>gen_thread\<close> of \<open>apps/lps-sched/main.c\<close>). The theory joins the promises of
  \<open>boxmap.c\<close>, \<open>box.c\<close>, \<open>proc.c\<close>, \<open>elfload.c\<close>, \<open>thread.c\<close> and \<open>sys.c\<close>: what such a program starts
  never leaves its sandbox.
\<close>

section \<open>Starting a program\<close>

text \<open>
  The outcomes of the allocations on the way, the addresses of the new structures, and the 16 random bytes that
  \<open>thread.c\<close> puts on the stack.
\<close>

record launch =
  la_proc :: bool
  la_random :: "u8 list"
  la_fheap :: fheap
  la_handle :: u64
  la_phdrs :: bool
  la_thread :: bool
  la_entry :: u64
  la_kstack :: "u64 option"
  la_thandle :: u64

text \<open>
  \<open>readfile\<close>: \<open>fseek\<close> and \<open>ftell\<close> give the size that \<open>lseek\<close> to the end answers. Where the mapping fails the
  code hands on the address of all ones, which is not NULL and faults when the loader reads it; the
  definition faults at once.
\<close>

definition readfile :: "'k world hostvm \<Rightarrow> 'k hostos \<Rightarrow> string \<Rightarrow> 'k world \<Rightarrow> (u8 list option \<times> 'k world) res" where
  "readfile hv ho path w =
     (case ho (H_open path 0 0) w of (f, w) \<Rightarrow>
        if hr_ret f = - 1 then Inr (None, w)
        else
          (let fd = ucast (hr_ret f) :: cint;
               (sz, w) = host_lseek ho fd 0 2 w;
               (p, w) = hv_mmap hv 0 sz PROT_READ MAP_PRIVATE fd 0 w;
               data = load_bytes p (unat sz) (w_mem w);
               (_, w) = ho (H_close fd) w in
           if p = 0 then Inr (None, w)
           else if p = - 1 then Inl OutOfBounds
           else Inr (Some data, w)))"

text \<open>The environment of the thread is empty; its arguments are those of the host program from the second on.\<close>

definition gen_thread ::
  "'k world hostvm \<Rightarrow> 'k hostos \<Rightarrow> (u64 \<Rightarrow> u64) \<Rightarrow> launch \<Rightarrow> LPSLinuxEngine \<Rightarrow>
   u8 list option list \<Rightarrow> cint \<Rightarrow> 'k world \<Rightarrow> ('k LPSThread option \<times> LPSLinuxEngine \<times> 'k world) res" where
  "gen_thread hv ho getauxval la x_engine argv argc w =
     rbind (lps_proc_new hv ho (\<lambda>_. False) (la_proc la) (la_fheap la) (la_handle la) x_engine w) (\<lambda>(proc, x_engine, w).
     case proc of
       None \<Rightarrow> Inl AssertFail
     | Some proc \<Rightarrow>
         (case argv of
            _ # Some elf_path # _ \<Rightarrow>
              rbind (readfile hv ho (map (\<lambda>c. char_of (unat c)) elf_path) (pr_world proc)) (\<lambda>(prog, w).
              case prog of
                None \<Rightarrow> Inl AssertFail
              | Some prog \<Rightarrow>
                  rbind (lps_proc_load hv (la_phdrs la) (pr_set_world proc w) prog) (\<lambda>(ok, proc).
                  rbind (rassert ok) (\<lambda>_.
                  rbind (lps_thread_new hv getauxval (la_random la) (la_thread la) (la_entry la) (la_kstack la) (la_thandle la) proc
                           (argc - 1) (tl argv) [None]) (\<lambda>(t, proc).
                  Inr (t, x_engine, pr_world proc)))))
          | _ \<Rightarrow> Inl NullDeref))"

section \<open>New processes\<close>

lemma fdinit_one_keeps:
  assumes "os_keeps ho lo hi I" "I w" "fdinit_one ho fd (fh, w) = (p, fh', w')"
  shows "I w'"
proof -
  have "I (snd (ho (H_dup fd) w))" using assms(1,2) unfolding os_keeps_def by simp
  then show ?thesis using assms(3) by (auto simp: fdinit_one_def split: prod.splits)
qed

lemma fdinit_keeps:
  assumes "os_keeps ho lo hi I" "I w" "fdinit ho fh w = (t, fh', w')"
  shows "I w'" "length t = LINUX_NOFILE"
proof -
  obtain p0 f0 w0 p1 f1 w1 p2 where d: "fdinit_one ho 0 (fh, w) = (p0, f0, w0)" "fdinit_one ho 1 (f0, w0) = (p1, f1, w1)"
      "fdinit_one ho 2 (f1, w1) = (p2, fh', w')"
    using assms(3) by (auto simp: fdinit_def split: prod.splits)
  note k = fdinit_one_keeps [OF assms(1)]
  show "I w'" using k [OF k [OF k [OF assms(2) d(1)] d(2)] d(3)] .
  show "length t = LINUX_NOFILE" using assms(3) by (auto simp: fdinit_def split: prod.splits)
qed

lemma box_set_simps [simp]:
  "box_ok (box_set_world (lps_box_setdata box d) w) = box_ok box"
  "mem_ok (box_set_world (lps_box_setdata box d) w) = mem_ok box"
  "bx_base (box_set_world (lps_box_setdata box d) w) = bx_base box"
  "bx_size (box_set_world (lps_box_setdata box d) w) = bx_size box"
  "lps_box_info (box_set_world (lps_box_setdata box d) w) = lps_box_info box"
  "s_ud (bx_st (box_set_world (lps_box_setdata box d) w)) = w"
  "bx_base (lps_box_setdata box d) = bx_base box" "bx_size (lps_box_setdata box d) = bx_size box"
  by (simp_all add: box_set_world_def lps_box_setdata_def box_ok_def mem_ok_def lps_box_info_def mm_wf_ud)

text \<open>The engine after a new sandbox: the same chunks, one more of them taken.\<close>

lemma box_new_engine:
  assumes "engine_ok e" "lps_box_new hv oom e h = Inr (Some box, e', h')"
  shows "le_opts e' = le_opts e" "all_boxes e' = all_boxes e" "live_boxes e' = insert (unat (bx_base box)) (live_boxes e)"
proof -
  show "live_boxes e' = insert (unat (bx_base box)) (live_boxes e)"
    using box_new_ok [OF assms(1), of hv oom h] assms(2) by simp
  obtain p bm' where A: "boxmap_addspace (le_bm e) (boxsize (le_opts e)) = Inr (p, bm')" "bm_spec AddBox p (bm_abs (le_bm e)) (bm_abs bm')"
    using addspace_ok [of "le_bm e"] assms(1) by (auto simp: engine_ok_def)
  have e': "e' = e\<lparr>le_bm := bm'\<rparr>"
    using assms(2) A(1) by (auto simp: lps_box_new_def Let_def rbind_Inr_iff split: if_splits prod.splits bool.splits)
  then show "le_opts e' = le_opts e" by simp
  show "all_boxes e' = all_boxes e" using A(2) e' by (auto simp: bm_abs_def split: if_splits)
qed

text \<open>The box of a new process.\<close>

lemma proc_new_ok:
  assumes "engine_ok (ll_engine e)" "lps_proc_new hv ho (\<lambda>_. False) c fh handle e w = Inr (Some p, e', w')"
  shows "proc_ok p" "0 < box_lo (pr_box p)" "bx_size (pr_box p) = boxsize (le_opts (ll_engine e))" "pr_segs p = []"
    "pr_opts p = ll_opts e" "pr_cwd p = ''''" "length (pr_fds p) = LINUX_NOFILE"
    "unat (bx_base (pr_box p)) \<in> all_boxes (ll_engine e) - live_boxes (ll_engine e)"
    "\<forall>q \<in> live_boxes (ll_engine e). {q ..< q + unat (boxsize (le_opts (ll_engine e)))} \<inter> {box_lo (pr_box p) ..< box_hi (pr_box p)} = {}"
    "engine_ok (ll_engine e')" "malloc_keeps hv I \<Longrightarrow> os_keeps ho lo hi I \<Longrightarrow> I w \<Longrightarrow> I (pr_world p)"
    "le_opts (ll_engine e') = le_opts (ll_engine e)" "all_boxes (ll_engine e') = all_boxes (ll_engine e)"
    "live_boxes (ll_engine e') = insert (unat (bx_base (pr_box p))) (live_boxes (ll_engine e))" "ll_opts e' = ll_opts e"
proof -
  let ?e = "ll_engine e"
  obtain b e1 h1 where n: "lps_box_new hv (\<lambda>_. False) ?e w = Inr (b, e1, h1)" "engine_ok e1"
    and b: "case b of None \<Rightarrow> True
     | Some box \<Rightarrow> box_ok box \<and> h_oom (s_heap (bx_st box)) = (\<lambda>_. False) \<and> s_ud (bx_st box) = snd (hv_malloc hv 96 w) \<and>
         bx_size box = boxsize (le_opts ?e) \<and> unat (bx_base box) \<in> all_boxes ?e - live_boxes ?e \<and>
         (\<forall>q \<in> live_boxes ?e. {q ..< q + unat (boxsize (le_opts ?e))} \<inter> {box_lo box ..< box_hi box} = {})"
    using box_new_ok [OF assms(1), of hv "\<lambda>_. False" w] by (fastforce split: option.splits)
  obtain box where box: "b = Some box" using assms(2) n(1) by (cases b) (auto simp: lps_proc_new_def Let_def split: if_splits)
  obtain fds fh' w1 where f: "fdinit ho fh (s_ud (bx_st (lps_box_setdata box handle))) = (fds, fh', w1)" by (rule prod_cases3)
  have ud: "s_ud (bx_st (lps_box_setdata box handle)) = snd (hv_malloc hv 96 w)"
    using b box by (simp add: lps_box_setdata_def)
  have p: "p = \<lparr>pr_box = box_set_world (lps_box_setdata box handle) w1, pr_boxinfo = lps_box_info box, pr_brkbase = 0,
      pr_brksize = 0, pr_entry = 0, pr_elfinfo = blank_elfinfo, pr_segs = [], pr_thread_count = 0, pr_fds = fds, pr_fheap = fh',
      pr_cwd = '''', pr_opts = ll_opts e\<rparr>" "ll_engine e' = e1" "ll_opts e' = ll_opts e"
    using assms(2) n(1) box f by (auto simp: lps_proc_new_def Let_def split: if_splits)
  have "bx_base box \<noteq> 0"
    using n(1) box by (auto simp: lps_box_new_def Let_def rbind_Inr_iff split: if_splits prod.splits bool.splits)
  then have lo: "0 < box_lo box" by (simp add: unat_gt_0)
  show "proc_ok p" using b box p(1) by (simp add: proc_ok_def) (simp add: mem_ok_def)
  show "0 < box_lo (pr_box p)" using lo p(1) by simp
  show "bx_size (pr_box p) = boxsize (le_opts ?e)" "pr_segs p = []" "pr_opts p = ll_opts e" "pr_cwd p = ''''"
    "unat (bx_base (pr_box p)) \<in> all_boxes ?e - live_boxes ?e"
    using b box p(1) by simp_all
  have geo: "bx_base (pr_box p) = bx_base box" "bx_size (pr_box p) = bx_size box" using p(1) by simp_all
  show "\<forall>q \<in> live_boxes ?e. {q ..< q + unat (boxsize (le_opts ?e))} \<inter> {box_lo (pr_box p) ..< box_hi (pr_box p)} = {}"
    using b unfolding box option.case geo by (elim conjE) (simp only:)
  show "length (pr_fds p) = LINUX_NOFILE" using f p(1) by (auto simp: fdinit_def split: prod.splits)
  show "engine_ok (ll_engine e')" using n(2) p(2) by simp
  note new = box_new_engine [OF assms(1) n(1) [unfolded box]]
  show "le_opts (ll_engine e') = le_opts ?e" "all_boxes (ll_engine e') = all_boxes ?e" "ll_opts e' = ll_opts e"
    "live_boxes (ll_engine e') = insert (unat (bx_base (pr_box p))) (live_boxes ?e)"
    using new p by simp_all
  show "I (pr_world p)" if "malloc_keeps hv I" "os_keeps ho lo hi I" "I w"
  proof -
    have "I (snd (hv_malloc hv 96 w))" using that(1,3) by (simp add: malloc_keeps_def)
    then show ?thesis using fdinit_keeps(1) [OF that(2) _ f] ud p(1) by (simp add: pr_world_def)
  qed
qed


section \<open>Started threads\<close>

text \<open>The conditions on the options of an engine and on the strings: everything fits into a sandbox.\<close>

definition launch_fits :: "nat \<Rightarrow> LPSLinuxEngine \<Rightarrow> u8 list \<Rightarrow> cint \<Rightarrow> u8 list list \<Rightarrow> u8 list list \<Rightarrow> bool" where
  "launch_fits M e prog argc args envs \<longleftrightarrow>
     image_sane M (- 1) prog \<and> lo_brksize (ll_opts e) \<noteq> 0 \<and>
     M + unat (lo_brksize (ll_opts e)) \<le> unat (boxsize (le_opts (ll_engine e))) \<and>
     lo_stacksize (ll_opts e) \<noteq> 0 \<and> 2 ^ 12 dvd unat (lo_stacksize (ll_opts e)) \<and>
     unat (lo_stacksize (ll_opts e)) \<le> unat (boxsize (le_opts (ll_engine e))) \<and>
     strs_ok args \<and> strs_ok envs \<and> sint argc = int (length args) \<and> length envs < 1024 \<and>
     strs_size args + strs_size envs + below_strs (length args) (length envs) + 15 \<le> unat (lo_stacksize (ll_opts e))"

text \<open>The two steps after \<open>lps_proc_new\<close>: the process that was loaded, and the thread.\<close>

lemma load_then_thread:
  assumes p: "proc_confined hv I p" "0 < box_lo (pr_box p)" "pr_segs p = []" "pr_opts p = ll_opts e"
      "bx_size (pr_box p) = boxsize (le_opts (ll_engine e))" "box_hi (pr_box p) \<le> 2 ^ 47"
    and fits: "launch_fits M e prog argc args envs" "length random = 16"
    and l: "lps_proc_load hv m p prog = Inr (True, q)"
    and t: "lps_thread_new hv getauxval random c entry kstack handle q argc (map Some args @ [None]) (map Some envs @ [None]) = Inr (Some t, r)"
  shows "proc_kept I p (th_proc t)" "rest_kept p (th_proc t)" "brk_ok (th_proc t)"
    "confining (th_regs t) (bx_base (pr_box p)) (bx_base (pr_box p) + bx_size (pr_box p))"
    "unat (uepc (th_regs t)) < box_lo (pr_box p) + unat CODE_MAX" "th_proc t = r"
proof -
  have "box_lo (pr_box p) + unat CODE_MAX < 2 ^ 64" using p(6) by simp
  then have "\<exists>ok p'. proc_load hv m p (- 1) prog = Inr (ok, p') \<and> proc_kept I p p' \<and> segs_inside p' \<and> rest_kept p p' \<and>
    (ok \<longrightarrow> box_lo (pr_box p) \<le> unat (pr_entry p') \<and> unat (pr_entry p') < box_lo (pr_box p) + unat CODE_MAX \<and>
       box_lo (pr_box p) \<le> unat (pr_brkbase p') \<and>
       unat (pr_brkbase p') + unat (lo_brksize (pr_opts p)) \<le> box_hi (pr_box p) \<and>
       2 ^ 12 dvd unat (pr_brkbase p') \<and> pr_brksize p' = 0)"
    using p fits(1) by (intro proc_load_ok [where M = M]) (simp_all add: launch_fits_def)
  then have q: "proc_kept I p q" "rest_kept p q" "unat (pr_entry q) < box_lo (pr_box p) + unat CODE_MAX"
      "box_lo (pr_box p) \<le> unat (pr_brkbase q)" "unat (pr_brkbase q) + unat (lo_brksize (pr_opts p)) \<le> box_hi (pr_box p)"
      "2 ^ 12 dvd unat (pr_brkbase q)" "pr_brksize q = 0"
    using l by (auto simp: lps_proc_load_def)
  have geo: "bx_base (pr_box q) = bx_base (pr_box p)" "bx_size (pr_box q) = bx_size (pr_box p)" "pr_opts q = ll_opts e"
    using q(1,2) p(4) by (simp_all add: proc_kept_def rest_kept_def)
  have "proc_confined hv I q" using q(1) p(1) by (rule proc_kept_confined)
  then have "\<exists>th r. lps_thread_new hv getauxval random c entry kstack handle q argc (map Some args @ [None]) (map Some envs @ [None])
      = Inr (th, r) \<and> proc_kept I q r \<and> rest_kept q r \<and> pr_brkbase r = pr_brkbase q \<and> pr_brksize r = pr_brksize q \<and>
    (\<not> c \<or> kstack = None \<longrightarrow> th = None) \<and>
    (\<forall>t. th = Some t \<longrightarrow> th_proc t = r \<and> th_tid t = 10000 + pr_thread_count q \<and> th_state t = THREAD_RUNNABLE \<and>
       th_stack t = bx_base (pr_box q) + bx_size (pr_box q) - lo_stacksize (pr_opts q) \<and>
       confining (cx_regs (th_ctx t)) (bx_base (pr_box q)) (bx_base (pr_box q) + bx_size (pr_box q)) \<and>
       uepc (cx_regs (th_ctx t)) = pr_entry q \<and>
       unat (th_stack t) \<le> unat (r_sp (cx_regs (th_ctx t))) \<and>
       (let sp = r_sp (cx_regs (th_ctx t)); img = stack_image getauxval random (pr_elfinfo q) sp args envs in
        unat sp + length img \<le> box_hi (pr_box q) \<and> load_bytes sp (length img) (w_mem (pr_world r)) = img))"
    using fits geo p(5) by (intro thread_new_ok) (simp_all add: launch_fits_def)
  then have r: "th_proc t = r" "proc_kept I q r" "rest_kept q r" "pr_brkbase r = pr_brkbase q" "pr_brksize r = pr_brksize q"
      "confining (cx_regs (th_ctx t)) (bx_base (pr_box q)) (bx_base (pr_box q) + bx_size (pr_box q))" "uepc (cx_regs (th_ctx t)) = pr_entry q"
    using t by auto
  show "proc_kept I p (th_proc t)" using proc_kept_trans [OF q(1) r(2)] r(1) by simp
  show "rest_kept p (th_proc t)" using rest_kept_trans [OF q(2) r(3)] r(1) by simp
  show "brk_ok (th_proc t)"
    using r q(4-7) geo proc_kept_trans [OF q(1) r(2)] rest_kept_trans [OF q(2) r(3)]
    by (simp add: brk_ok_def proc_kept_def rest_kept_def)
  show "confining (th_regs t) (bx_base (pr_box p)) (bx_base (pr_box p) + bx_size (pr_box p))"
    "unat (uepc (th_regs t)) < box_lo (pr_box p) + unat CODE_MAX"
    using r(6,7) geo q(3) by (simp_all add: th_regs_def)
  show "th_proc t = r" by (rule r(1))
qed

text \<open>The process, the file and the load behind a started thread.\<close>

lemma gen_thread_parts:
  assumes "gen_thread hv ho getauxval la e (a0 # Some path # argv) argc w = Inr (Some t, e', w'')"
  obtains p w' prog w1 q r where "lps_proc_new hv ho (\<lambda>_. False) (la_proc la) (la_fheap la) (la_handle la) e w = Inr (Some p, e', w')"
    "readfile hv ho (map (\<lambda>c. char_of (unat c)) path) (pr_world p) = Inr (Some prog, w1)"
    "lps_proc_load hv (la_phdrs la) (pr_set_world p w1) prog = Inr (True, q)"
    "lps_thread_new hv getauxval (la_random la) (la_thread la) (la_entry la) (la_kstack la) (la_thandle la) q (argc - 1) (Some path # argv) [None]
       = Inr (Some t, r)" "w'' = pr_world r"
proof -
  obtain p' e1 w' where n: "lps_proc_new hv ho (\<lambda>_. False) (la_proc la) (la_fheap la) (la_handle la) e w = Inr (p', e1, w')"
    using assms by (auto simp: gen_thread_def rbind_Inr_iff)
  obtain p where p: "p' = Some p" using assms n by (cases p') (auto simp: gen_thread_def)
  obtain prog' w1 where f: "readfile hv ho (map (\<lambda>c. char_of (unat c)) path) (pr_world p) = Inr (prog', w1)"
    using assms n p by (auto simp: gen_thread_def rbind_Inr_iff)
  obtain prog where prog: "prog' = Some prog" using assms n p f by (cases prog') (auto simp: gen_thread_def)
  obtain ok q where l: "lps_proc_load hv (la_phdrs la) (pr_set_world p w1) prog = Inr (ok, q)"
    using assms n p f prog by (auto simp: gen_thread_def rbind_Inr_iff)
  have ok: "ok" using assms n p f prog l by (cases ok) (auto simp: gen_thread_def)
  obtain r where r: "lps_thread_new hv getauxval (la_random la) (la_thread la) (la_entry la) (la_kstack la) (la_thandle la) q
      (argc - 1) (Some path # argv) [None] = Inr (Some t, r)" "e1 = e'" "w'' = pr_world r"
    using assms n p f prog l ok by (auto simp: gen_thread_def rbind_Inr_iff)
  show thesis
  proof (rule that)
    show "lps_proc_load hv (la_phdrs la) (pr_set_world p w1) prog = Inr (True, q)" using l ok by simp
  qed (use n p f prog r in simp_all)
qed

text \<open>A file that was read is the file behind the path, and reading it keeps I.\<close>

lemma readfile_ok:
  assumes "file_is hv ho fd prog" "opens ho path fd" "files_keep hv I" "os_keeps ho lo hi I" "I w" "length prog < 2 ^ 63"
    and r: "readfile hv ho path w = Inr (Some data, w')"
  shows "data = prog" "I w'"
proof -
  obtain f w1 where 1: "ho (H_open path 0 0) w = (f, w1)" by (rule prod.exhaust)
  have ok: "hr_ret f \<noteq> - 1" using r 1 by (auto simp: readfile_def)
  then have "hr_ret f = int_to_u64 fd" using assms(2) 1 unfolding opens_def by (metis fst_conv insert_iff singletonD)
  then have fd: "ucast (hr_ret f) = fd" by (simp only: narrow_int)
  obtain sz w2 where 2: "host_lseek ho fd 0 2 w1 = (sz, w2)" by (rule prod.exhaust)
  obtain p w3 where 3: "hv_mmap hv 0 sz PROT_READ MAP_PRIVATE fd 0 w2 = (p, w3)" by (rule prod.exhaust)
  obtain c w4 where 4: "ho (H_close fd) w3 = (c, w4)" by (rule prod.exhaust)
  have d: "p \<noteq> - 1" "data = load_bytes p (unat sz) (w_mem w3)" "w' = w4"
    using r 1 ok fd 2 3 4 by (auto simp: readfile_def Let_def split: if_splits)
  have "I (snd (ho (H_open path 0 0) w))" using assms(4,5) unfolding os_keeps_def by simp
  then have I1: "I w1" using 1 by simp
  have I2: "I w2" by (rule seek_keeps(1) [OF assms(4) I1 2])
  have I3: "I w3" using assms(3) I2 3 unfolding files_keep_def by blast
  have "I (snd (ho (H_close fd) w3))" using assms(4) I3 unfolding os_keeps_def by simp
  then show "I w'" using 4 d(3) by simp
  have sz: "sz = of_nat (length prog)" using seek_keeps(2) [OF assms(4) I1 2] assms(1) by (simp add: file_is_def)
  then have "unat sz = length prog" using assms(6) by (simp add: unat_of_nat_u64)
  moreover have "load_bytes p (length prog) (w_mem w3) = prog" using assms(1) 3 d(1) unfolding file_is_def sz by blast
  ultimately show "data = prog" using d(2) by simp
qed

text \<open>Engines whose sandboxes lie in the user half of the address space.\<close>

definition low_engine :: "LPSEngine \<Rightarrow> bool" where
  "low_engine e \<longleftrightarrow> engine_ok e \<and> (\<forall>q \<in> all_boxes e. q + unat (boxsize (le_opts e)) \<le> 2 ^ 47)"

text \<open>The image is the file behind the path; path and arguments are strings of the host.\<close>

definition program_at :: "'k world hostvm \<Rightarrow> 'k hostos \<Rightarrow> u8 list \<Rightarrow> u8 list \<Rightarrow> bool" where
  "program_at hv ho path prog \<longleftrightarrow> (\<exists>fd. opens ho (map (\<lambda>c. char_of (unat c)) path) fd \<and> file_is hv ho fd prog)"

lemma gen_thread_ok:
  assumes e: "low_engine (ll_engine e)" "launch_fits M e prog (argc - 1) (path # args) []" "length (la_random la) = 16"
    and g: "gen_thread hv ho getauxval la e (a0 # Some path # map Some args @ [None]) argc w = Inr (Some t, e', w'')"
    and f: "program_at hv ho path prog" "files_keep hv I"
    and env: "ev_vm env = hv" "ev_os env = ho"
    and I: "host_confined hv (box_lo (th_box t)) (box_hi (th_box t)) I" "os_keeps ho (box_lo (th_box t)) (box_hi (th_box t)) I"
      "dev_keeps (ev_dev env) (box_lo (th_box t)) (box_hi (th_box t)) I" "malloc_keeps hv I" "I w"
  shows "th_confined env I t" "pr_opts (th_proc t) = ll_opts e"
    "confining (th_regs t) (bx_base (th_box t)) (bx_base (th_box t) + bx_size (th_box t))"
    "unat (bx_base (th_box t)) \<in> all_boxes (ll_engine e)" "bx_size (th_box t) = boxsize (le_opts (ll_engine e))"
    "\<forall>q \<in> live_boxes (ll_engine e). {q ..< q + unat (boxsize (le_opts (ll_engine e)))} \<inter> {box_lo (th_box t) ..< box_hi (th_box t)} = {}"
    "low_engine (ll_engine e')" "ll_opts e' = ll_opts e" "le_opts (ll_engine e') = le_opts (ll_engine e)"
    "all_boxes (ll_engine e') = all_boxes (ll_engine e)"
    "live_boxes (ll_engine e') = insert (box_lo (th_box t)) (live_boxes (ll_engine e))" "w'' = th_world t"
proof -
  obtain p w' prog' w1 q r where n: "lps_proc_new hv ho (\<lambda>_. False) (la_proc la) (la_fheap la) (la_handle la) e w = Inr (Some p, e', w')"
    and rd: "readfile hv ho (map (\<lambda>c. char_of (unat c)) path) (pr_world p) = Inr (Some prog', w1)"
    and l': "lps_proc_load hv (la_phdrs la) (pr_set_world p w1) prog' = Inr (True, q)"
    and t': "lps_thread_new hv getauxval (la_random la) (la_thread la) (la_entry la) (la_kstack la) (la_thandle la) q (argc - 1)
        (Some path # map Some args @ [None]) [None] = Inr (Some t, r)" and w'': "w'' = pr_world r"
    using g by (rule gen_thread_parts)
  let ?p = "pr_set_world p w1"
  have t: "lps_thread_new hv getauxval (la_random la) (la_thread la) (la_entry la) (la_kstack la) (la_thandle la) q (argc - 1)
      (map Some (path # args) @ [None]) (map Some [] @ [None]) = Inr (Some t, r)"
    using t' by simp
  obtain fd where fd: "opens ho (map (\<lambda>c. char_of (unat c)) path) fd" "file_is hv ho fd prog"
    using f(1) unfolding program_at_def by blast
  have len: "length prog < 2 ^ 63" using e(2) by (simp add: launch_fits_def image_sane_def)
  have eok: "engine_ok (ll_engine e)" using e(1) by (simp add: low_engine_def)
  note P = proc_new_ok [OF eok n]
  have hi: "box_hi (pr_box ?p) \<le> 2 ^ 47" using e(1) P(3,8) by (simp add: low_engine_def)
  have P': "0 < box_lo (pr_box ?p)" "pr_segs ?p = []" "pr_opts ?p = ll_opts e"
      "bx_size (pr_box ?p) = boxsize (le_opts (ll_engine e))" using P(2-5) by simp_all
  have R: "prog' = prog" if "I (pr_world p)" using readfile_ok(1) [OF fd(2,1) f(2) I(2) that len rd] .
  have Ip: "I (pr_world p)" using P(11) [OF I(4) I(2) I(5)] .
  have l: "lps_proc_load hv (la_phdrs la) ?p prog = Inr (True, q)" using l' R [OF Ip] by simp
  have host: "host_confined hv lo hi' (\<lambda>_. True)" for lo hi'
    using I(1) by (simp add: host_confined_def host_keeps_def prot_keeps_def mem_keeps_def)
  have new: "proc_confined hv (\<lambda>_. True) p" using P(1) host by (simp add: proc_confined_def)
  have "proc_confined hv (\<lambda>_. True) ?p" by (rule proc_kept_confined [OF proc_kept_world [OF new] new]) simp
  then have "proc_kept (\<lambda>_. True) ?p (th_proc t)"
    using load_then_thread(1) [OF _ P' hi e(2,3) l t] by blast
  then have geo: "bx_base (th_box t) = bx_base (pr_box p)" "bx_size (th_box t) = bx_size (pr_box p)"
    by (simp_all add: proc_kept_def)
  have c0: "proc_confined hv I p" using P(1) I(1) Ip geo by (simp add: proc_confined_def)
  have "I w1" by (rule readfile_ok(2) [OF fd(2,1) f(2) I(2) Ip len rd])
  then have c: "proc_confined hv I ?p" by (rule proc_kept_confined [OF proc_kept_world [OF c0] c0])
  note L = load_then_thread [OF c P' hi e(2,3) l t]
  have "proc_ok (th_proc t)" using L(1) by (simp add: proc_kept_def)
  moreover have "length (pr_fds (th_proc t)) = LINUX_NOFILE" "length (pr_cwd (th_proc t)) < FILENAME_MAX"
    using L(2) P(6,7) by (simp_all add: rest_kept_def pr_set_world_def)
  ultimately have "th_ok t" using L(3) by (simp add: th_ok_def)
  moreover have "proc_confined hv I (th_proc t)" using L(1) c by (rule proc_kept_confined)
  ultimately show "th_confined env I t" using env I(2-4) hi geo by (simp add: th_confined_def)
  show "pr_opts (th_proc t) = ll_opts e" using L(2) P'(3) by (simp add: rest_kept_def)
  show "confining (th_regs t) (bx_base (th_box t)) (bx_base (th_box t) + bx_size (th_box t))" using L(4) geo by simp
  show "unat (bx_base (th_box t)) \<in> all_boxes (ll_engine e)" "bx_size (th_box t) = boxsize (le_opts (ll_engine e))"
    using P(3,8) geo by simp_all
  show "\<forall>q \<in> live_boxes (ll_engine e). {q ..< q + unat (boxsize (le_opts (ll_engine e)))} \<inter> {box_lo (th_box t) ..< box_hi (th_box t)} = {}"
    unfolding geo by (rule P(9))
  show "low_engine (ll_engine e')" using e(1) P(10,12,13) by (simp add: low_engine_def)
  show "ll_opts e' = ll_opts e" "le_opts (ll_engine e') = le_opts (ll_engine e)" "all_boxes (ll_engine e') = all_boxes (ll_engine e)"
    "live_boxes (ll_engine e') = insert (box_lo (th_box t)) (live_boxes (ll_engine e))"
    using P(12-15) geo by simp_all
  show "w'' = th_world t" using w'' L(6) by (simp add: th_world_def)
qed

section \<open>Properties\<close>


section \<open>A concrete start\<close>

definition demo_linux :: LPSLinuxEngine where
  "demo_linux = \<lparr>ll_engine = demo_engine,
     ll_opts = \<lparr>lo_verbose = False, lo_passthrough = False, lo_brksize = 0x1000, lo_stacksize = 0x1000\<rparr>\<rparr>"

definition demo_launch :: launch where
  "demo_launch = \<lparr>la_proc = True, la_random = replicate 16 7, la_fheap = \<lparr>fh_files = Map.empty, fh_next = 0, fh_oom = (\<lambda>_. False), fh_misuse = False\<rparr>,
     la_handle = 0x99, la_phdrs = True, la_thread = True, la_entry = 0x1234, la_kstack = Some 0x5000, la_thandle = 0x77\<rparr>"

definition demo_world :: "unit world" where
  "demo_world = \<lparr>w_mem = (\<lambda>_. 0), w_kern = ()\<rparr>"

definition demo_argv :: "u8 list option list" where
  "demo_argv = Some [104] # Some [97] # map Some [] @ [None]"

lemma demo_readfile:
  "readfile file_host file_os path w = Inr (Some demo_prog, w\<lparr>w_mem := store_bytes 0x200000 demo_prog (w_mem w)\<rparr>)"
  using load_store_bytes [of demo_prog "0x200000" "w_mem w"]
  by (simp add: readfile_def host_lseek_def file_host_def file_os_def idle_os_def demo_prog_length)

text \<open>
  The parts of a start from an engine and a memory; m is the memory after the file was read. Q holds of the
  engine and the thread afterwards.
\<close>

definition demo_starts :: "LPSLinuxEngine \<Rightarrow> memory \<Rightarrow> memory \<Rightarrow> (LPSLinuxEngine \<Rightarrow> unit LPSThread \<Rightarrow> bool) \<Rightarrow> bool" where
  "demo_starts e m0 m Q =
     (case lps_proc_new file_host file_os (\<lambda>_. False) True (la_fheap demo_launch) 0x99 e \<lparr>w_mem = m0, w_kern = ()\<rparr> of
        Inr (Some p, e', _) \<Rightarrow>
          (case lps_proc_load file_host True (pr_set_world p ((pr_world p)\<lparr>w_mem := m\<rparr>)) demo_prog of
             Inr (True, q) \<Rightarrow>
               (case lps_thread_new file_host (\<lambda>_. 0) (replicate 16 7) True 0x1234 (Some 0x5000) 0x77 q 1 [Some [97], None] [None] of
                  Inr (Some t, _) \<Rightarrow> Q e' t
                | _ \<Rightarrow> False)
           | _ \<Rightarrow> False)
      | _ \<Rightarrow> False)"

definition demo_linux2 :: LPSLinuxEngine where
  "demo_linux2 = demo_linux\<lparr>ll_engine := demo_engine\<lparr>le_bm := demo_map\<lparr>bm_regions :=
     [\<lparr>ar_base = 0x40000, ar_size = 0x28000, ar_active = 2,
       ar_alloc = \<lparr>ea_base = 16, ea_size = 10, ea_chunksize = 0x4000, ea_bitvec = [0xC0, 0]\<rparr>\<rparr>]\<rparr>\<rparr>\<rparr>"

lemma demo_starts_first:
  "demo_starts demo_linux m0 m (\<lambda>e' t. e' = demo_linux2 \<and> bx_base (th_box t) = 0x44000 \<and> bx_size (th_box t) = 0x4000)"
  by code_simp

lemma case_loaded:
  "(case r of Inr (True, q) \<Rightarrow> P q | _ \<Rightarrow> False) \<longleftrightarrow> (\<exists>q. r = Inr (True, q) \<and> P q)"
  "(case r' of Inr (Some t, _) \<Rightarrow> Q t | _ \<Rightarrow> False) \<longleftrightarrow> (\<exists>t x. r' = Inr (Some t, x) \<and> Q t)"
  by (auto split: sum.splits bool.splits option.splits prod.splits)

lemma demo_start_ends:
  fixes w :: "unit world"
  assumes "\<And>m0 m. demo_starts e m0 m Q"
  obtains t e' w' where "gen_thread file_host file_os (\<lambda>_. 0) demo_launch e demo_argv 2 w = Inr (Some t, e', w')" "Q e' t"
proof -
  have w: "\<lparr>w_mem = w_mem w, w_kern = ()\<rparr> = w" by (rule world.equality) simp_all
  have s: "demo_starts e (w_mem w) m Q \<longleftrightarrow>
     (case lps_proc_new file_host file_os (\<lambda>_. False) True (la_fheap demo_launch) 0x99 e w of
        Inr (Some p, e', _) \<Rightarrow>
          (case lps_proc_load file_host True (pr_set_world p ((pr_world p)\<lparr>w_mem := m\<rparr>)) demo_prog of
             Inr (True, q) \<Rightarrow>
               (case lps_thread_new file_host (\<lambda>_. 0) (replicate 16 7) True 0x1234 (Some 0x5000) 0x77 q 1 [Some [97], None] [None] of
                  Inr (Some t, _) \<Rightarrow> Q e' t
                | _ \<Rightarrow> False)
           | _ \<Rightarrow> False)
      | _ \<Rightarrow> False)" for m
    unfolding demo_starts_def w by (rule HOL.refl)
  obtain p e' w'' where p: "lps_proc_new file_host file_os (\<lambda>_. False) True (la_fheap demo_launch) 0x99 e w = Inr (Some p, e', w'')"
    using assms [of "w_mem w" undefined] unfolding s by (auto split: sum.splits option.splits prod.splits)
  let ?p = "pr_set_world p ((pr_world p)\<lparr>w_mem := store_bytes 0x200000 demo_prog (w_mem (pr_world p))\<rparr>)"
  obtain q t r where t: "lps_proc_load file_host True ?p demo_prog = Inr (True, q)"
      "lps_thread_new file_host (\<lambda>_. 0) (replicate 16 7) True 0x1234 (Some 0x5000) 0x77 q 1 [Some [97], None] [None] = Inr (Some t, r)" "Q e' t"
    using assms [of "w_mem w" "store_bytes 0x200000 demo_prog (w_mem (pr_world p))"]
    unfolding s p sum.case prod.case option.case case_loaded by blast
  have la: "la_proc demo_launch" "la_handle demo_launch = 0x99" "la_phdrs demo_launch" "la_thread demo_launch"
    "la_entry demo_launch = 0x1234" "la_kstack demo_launch = Some 0x5000" "la_thandle demo_launch = 0x77" "la_random demo_launch = replicate 16 7"
    by (simp_all add: demo_launch_def)
  show thesis
    by (rule that [OF _ t(3)]) (simp add: gen_thread_def demo_argv_def demo_readfile la p t(1,2))
qed

lemma demo_low: "low_engine (ll_engine demo_linux)"
  using demo_engine_ok
  by (auto simp: low_engine_def demo_linux_def) (auto simp: demo_engine_def demo_map_def rs_chunks_def ar_chunks_def chunk_addr_def)

lemma demo_fits: "launch_fits 0x2000 demo_linux demo_prog (2 - 1) ([97] # []) []"
  using demo_image_sane
  by (simp add: launch_fits_def demo_linux_def demo_engine_def strs_ok_def strs_size_def below_strs_def demo_prog_def)

lemma demo_at: "program_at file_host file_os [97] demo_prog"
  using file_is_demo by (auto simp: program_at_def opens_def file_os_def idle_os_def int_to_u64_def intro!: exI [of _ 0])


text \<open>
  The loader compares segments with a gigabyte, whatever the size of the sandbox (the host programs use 64 MiB). A segment
  beyond a smaller sandbox passes the checks of \<open>elfload.c\<close> and fails the assertion of \<open>lps_box_mapat\<close>, which stops
  the whole process where \<open>lps_proc_load\<close> should return false.
\<close>

definition far_phdr :: "u8 list" where
  "far_phdr =
   [1, 0, 0, 0, 5, 0, 0, 0, 0, 0, 0, 0, 0, 0, 0, 0,
    0, 0, 16, 0, 0, 0, 0, 0, 0, 0, 16, 0, 0, 0, 0, 0,
    64, 0, 0, 0, 0, 0, 0, 0, 128, 0, 0, 0, 0, 0, 0, 0,
    0, 16, 0, 0, 0, 0, 0, 0]"

lemma load_beyond_box_aborts:
  "case lps_proc_new zero_host idle_os (\<lambda>_. False) True (la_fheap demo_launch) 0x99 demo_linux demo_world of
     Inr (Some p, _, _) \<Rightarrow> bx_size (pr_box p) = 0x4000 \<and>
       fault_of (lps_proc_load zero_host True p (demo_ehdr @ far_phdr)) = Some AssertFail
   | _ \<Rightarrow> False"
  by code_simp

end
