(* ===== verification/Isolation.thy ===== *)
theory Isolation
  imports Launch Sched
begin

text \<open>
  Many programs under one engine: the loop of \<open>main\<close> in \<open>apps/lps-sched/main.c\<close> starts one thread after
  another and adds each of them to the scheduler, whose workers then run them in some order. The theory says that they
  do not meet in memory: their sandboxes are disjoint, and what one program computes, stores and calls changes no
  byte of another, in whatever order the steps of all of them come.
\<close>

section \<open>Starting them\<close>

text \<open>\<open>mcsched_add\<close> gets the address of the thread, or NULL where \<open>lps_thread_new\<close> had no memory.\<close>

fun gen_threads ::
  "'k world hostvm \<Rightarrow> 'k hostos \<Rightarrow> (u64 \<Rightarrow> u64) \<Rightarrow> launch list \<Rightarrow> LPSLinuxEngine \<Rightarrow> u8 list option list \<Rightarrow> cint \<Rightarrow>
   'v mcs \<Rightarrow> 'k world \<Rightarrow> ('k LPSThread option list \<times> LPSLinuxEngine \<times> 'v mcs \<times> 'k world) res" where
  "gen_threads hv ho getauxval [] x_engine argv argc s w = Inr ([], x_engine, s, w)"
| "gen_threads hv ho getauxval (la # las) x_engine argv argc s w =
     rbind (gen_thread hv ho getauxval la x_engine argv argc w) (\<lambda>(t, x_engine, w).
     rbind (mcsched_add (if t = None then 0 else unat (la_thandle la)) s) (\<lambda>(_, s).
     rbind (gen_threads hv ho getauxval las x_engine argv argc s w) (\<lambda>(ts, x_engine, s, w).
     Inr (t # ts, x_engine, s, w))))"

section \<open>Running them\<close>

text \<open>
  The threads share kernel and memory. A step of the machine is a step of one thread (\<open>Sandbox_Run\<close>) from the world
  that the others left.
\<close>

type_synonym 'k machine = "'k LPSThread list \<times> 'k world"

inductive machine_step :: "'k env \<Rightarrow> nat \<Rightarrow> 'k machine \<Rightarrow> 'k machine \<Rightarrow> bool" for env where
  "i < length ts \<Longrightarrow> sandbox_step env (th_set_world (ts ! i) w) t' \<Longrightarrow> machine_step env i (ts, w) (ts[i := t'], th_world t')"

inductive_cases machine_stepE: "machine_step env i (ts, w) s'"

text \<open>The numbers of the threads in the order of their steps.\<close>

inductive machine_run :: "'k env \<Rightarrow> nat list \<Rightarrow> 'k machine \<Rightarrow> 'k machine \<Rightarrow> bool" for env where
  stop: "machine_run env [] s s"
| go: "machine_step env i s s' \<Longrightarrow> machine_run env is s' s'' \<Longrightarrow> machine_run env (i # is) s s''"

section \<open>Memory that nobody may touch\<close>

definition owns :: "'k LPSThread \<Rightarrow> u64 \<Rightarrow> bool" where
  "owns t a \<longleftrightarrow> box_lo (th_box t) \<le> unat a \<and> unat a < box_hi (th_box t)"

definition fixes_mem :: "u64 set \<Rightarrow> (u64 \<Rightarrow> u8) \<Rightarrow> 'k world \<Rightarrow> bool" where
  "fixes_mem A m w \<longleftrightarrow> (\<forall>a \<in> A. w_mem w a = m a)"

text \<open>The addresses of all chunks of the engine, taken or not.\<close>

definition box_mem :: "LPSEngine \<Rightarrow> u64 set" where
  "box_mem e = {a. \<exists>q \<in> all_boxes e. q \<le> unat a \<and> unat a < q + unat (boxsize (le_opts e))}"

text \<open>
  Kernel, devices and allocator write to the memory of the engine only where they are handed a buffer in it.
\<close>

definition gentle :: "'k env \<Rightarrow> u64 set \<Rightarrow> bool" where
  "gentle env P \<longleftrightarrow>
     (\<forall>lo hi A m. hi \<le> 2 ^ 47 \<and> A \<subseteq> P \<and> (\<forall>a \<in> A. unat a < lo \<or> hi \<le> unat a) \<longrightarrow>
        host_confined (ev_vm env) lo hi (fixes_mem A m) \<and> os_keeps (ev_os env) lo hi (fixes_mem A m) \<and>
        dev_keeps (ev_dev env) lo hi (fixes_mem A m) \<and> malloc_keeps (ev_vm env) (fixes_mem A m) \<and>
        files_keep (ev_vm env) (fixes_mem A m))"

text \<open>What \<open>run_ok\<close> asks of a thread by itself.\<close>

definition well :: "'k LPSThread \<Rightarrow> bool" where
  "well t \<longleftrightarrow> th_ok t \<and> proc_ok (th_proc t) \<and> box_hi (th_box t) \<le> 2 ^ 47 \<and> \<not> lo_passthrough (pr_opts (th_proc t)) \<and>
     confining (th_regs t) (bx_base (th_box t)) (bx_base (th_box t) + bx_size (th_box t))"

text \<open>Everything of P outside the sandbox of t, with the bytes it has in w.\<close>

abbreviation others :: "u64 set \<Rightarrow> 'k LPSThread \<Rightarrow> 'k world \<Rightarrow> 'k world \<Rightarrow> bool" where
  "others P t w \<equiv> fixes_mem {a \<in> P. \<not> owns t a} (w_mem w)"

lemma othersD: "others P t w w' \<Longrightarrow> a \<in> P \<Longrightarrow> \<not> owns t a \<Longrightarrow> w_mem w' a = w_mem w a"
  by (simp add: fixes_mem_def)

lemma others_same: "others P t w w"
  by (simp add: fixes_mem_def)

lemma gentle_others:
  assumes "gentle env P" "box_hi (th_box t) \<le> 2 ^ 47"
  shows "host_confined (ev_vm env) (box_lo (th_box t)) (box_hi (th_box t)) (others P t w)"
    "os_keeps (ev_os env) (box_lo (th_box t)) (box_hi (th_box t)) (others P t w)"
    "dev_keeps (ev_dev env) (box_lo (th_box t)) (box_hi (th_box t)) (others P t w)"
    "malloc_keeps (ev_vm env) (others P t w)" "files_keep (ev_vm env) (others P t w)"
proof -
  have "{a \<in> P. \<not> owns t a} \<subseteq> P" "\<forall>a \<in> {a \<in> P. \<not> owns t a}. unat a < box_lo (th_box t) \<or> box_hi (th_box t) \<le> unat a"
    by (auto simp: owns_def)
  note g = assms(1) [unfolded gentle_def, rule_format, OF conjI [OF assms(2) conjI [OF this]], of "w_mem w"]
  show "host_confined (ev_vm env) (box_lo (th_box t)) (box_hi (th_box t)) (others P t w)"
    "os_keeps (ev_os env) (box_lo (th_box t)) (box_hi (th_box t)) (others P t w)"
    "dev_keeps (ev_dev env) (box_lo (th_box t)) (box_hi (th_box t)) (others P t w)"
    "malloc_keeps (ev_vm env) (others P t w)" "files_keep (ev_vm env) (others P t w)"
    using g by simp_all
qed

lemma run_ok_others:
  assumes "gentle env P" "box_hi (th_box t) \<le> 2 ^ 47"
  shows "run_ok env (others P t w) t \<longleftrightarrow> well t \<and> others P t w (th_world t)"
  using gentle_others [OF assms, of w]
  by (auto simp: run_ok_def th_confined_def proc_confined_def well_def th_world_def)

lemma th_box_set_world [simp]:
  "bx_base (th_box (th_set_world t w)) = bx_base (th_box t)" "bx_size (th_box (th_set_world t w)) = bx_size (th_box t)"
  by (simp_all add: th_set_world_def pr_set_world_def box_set_world_def)

lemma owns_cong: "bx_base (th_box t) = bx_base (th_box t') \<Longrightarrow> bx_size (th_box t) = bx_size (th_box t') \<Longrightarrow> owns t = owns t'"
  by (simp add: owns_def fun_eq_iff)

lemma owns_set_world [simp]: "owns (th_set_world t w) = owns t"
  by (rule owns_cong) simp_all

lemma well_set_world: "well t \<Longrightarrow> well (th_set_world t w)"
  by (simp add: well_def) (simp add: th_ok_def th_set_world_def pr_set_world_def proc_ok_def mem_ok_def box_set_world_def box_ok_def mm_wf_ud brk_ok_def lps_box_info_def)

text \<open>One step of a well-formed thread in a shared world.\<close>

lemma step_well:
  assumes "gentle env P" "well t" "sandbox_step env (th_set_world t w) t'"
  shows "well t'" "bx_base (th_box t') = bx_base (th_box t)" "bx_size (th_box t') = bx_size (th_box t)"
    "others P t w (th_world t')"
proof -
  let ?t = "th_set_world t w"
  have hi: "box_hi (th_box ?t) \<le> 2 ^ 47" using assms(2) by (simp add: well_def)
  have w: "others P ?t w w" by (rule others_same)
  then have "run_ok env (others P ?t w) ?t"
    unfolding run_ok_others [OF assms(1) hi] using well_set_world [OF assms(2)] by simp
  then have k: "run_kept env (others P ?t w) ?t t'" using step_kept [OF assms(3)] by blast
  then show b: "bx_base (th_box t') = bx_base (th_box t)" "bx_size (th_box t') = bx_size (th_box t)"
    by (simp_all add: run_kept_def)
  have o: "owns ?t = owns t'" using b by (intro owns_cong) simp_all
  have "run_ok env (others P t' w) t'" using k unfolding o by (simp add: run_kept_def)
  then have t': "well t' \<and> others P t' w (th_world t')" using hi b by (subst (asm) run_ok_others [OF assms(1)]) simp_all
  then show "well t'" "others P t w (th_world t')" using o by simp_all
qed


section \<open>Machines\<close>

text \<open>All threads well formed, their sandboxes in memory of the engine and apart from one another.\<close>

definition machine_ok :: "u64 set \<Rightarrow> 'k LPSThread list \<Rightarrow> bool" where
  "machine_ok P ts \<longleftrightarrow> (\<forall>t \<in> set ts. well t \<and> Collect (owns t) \<subseteq> P) \<and>
     (\<forall>i < length ts. \<forall>j < length ts. i \<noteq> j \<longrightarrow> Collect (owns (ts ! i)) \<inter> Collect (owns (ts ! j)) = {})"

definition same_places :: "'k LPSThread list \<Rightarrow> 'k LPSThread list \<Rightarrow> bool" where
  "same_places ts ts' \<longleftrightarrow> map (\<lambda>t. (bx_base (th_box t), bx_size (th_box t))) ts' = map (\<lambda>t. (bx_base (th_box t), bx_size (th_box t))) ts"

lemma same_placesD:
  assumes "same_places ts ts'"
  shows "length ts' = length ts" "i < length ts \<Longrightarrow> owns (ts' ! i) = owns (ts ! i)"
proof -
  show n: "length ts' = length ts" using assms by (auto simp: same_places_def dest: map_eq_imp_length_eq)
  show "owns (ts' ! i) = owns (ts ! i)" if "i < length ts"
    using arg_cong [OF assms [unfolded same_places_def], of "\<lambda>xs. xs ! i"] that n by (intro owns_cong) simp_all
qed

lemma machine_ok_index:
  "machine_ok P ts \<longleftrightarrow> (\<forall>i < length ts. well (ts ! i) \<and> Collect (owns (ts ! i)) \<subseteq> P) \<and>
     (\<forall>i < length ts. \<forall>j < length ts. i \<noteq> j \<longrightarrow> Collect (owns (ts ! i)) \<inter> Collect (owns (ts ! j)) = {})"
  by (simp add: machine_ok_def all_set_conv_all_nth)

lemma machine_ok_Cons:
  "machine_ok P (t # ts) \<longleftrightarrow> machine_ok P ts \<and> well t \<and> Collect (owns t) \<subseteq> P \<and> (\<forall>u \<in> set ts. Collect (owns t) \<inter> Collect (owns u) = {})"
  unfolding machine_ok_index list.size add_Suc_right add_0_right All_less_Suc2
  by (simp add: all_set_conv_all_nth Int_commute) blast

text \<open>A step of thread i: the other threads and their memory are what they were.\<close>

lemma machine_step_ok:
  assumes g: "gentle env P" and ok: "machine_ok P ts" and s: "machine_step env i (ts, w) (ts', w')"
  shows "machine_ok P ts' \<and> same_places ts ts' \<and> i < length ts \<and> others P (ts ! i) w w' \<and>
    (\<forall>j < length ts. j \<noteq> i \<longrightarrow> ts' ! j = ts ! j)"
proof -
  obtain t' where i: "i < length ts" and t': "sandbox_step env (th_set_world (ts ! i) w) t'" and s': "ts' = ts[i := t']" "w' = th_world t'"
    using s by (auto elim: machine_stepE)
  have "well (ts ! i)" using ok i by (simp add: machine_ok_index)
  note k = step_well [OF g this t']
  have p: "same_places ts ts'" using i k(2,3) s'(1) by (auto simp: same_places_def intro!: nth_equalityI simp: nth_list_update)
  have "machine_ok P ts'"
    using ok i k(1) s'(1) same_placesD [OF p] unfolding machine_ok_index
    by (auto simp: nth_list_update)
  then show ?thesis using p i k(4) s' by simp
qed

lemma machine_run_ok:
  assumes "machine_run env is s s'" "gentle env P"
  shows "machine_ok P (fst s) \<Longrightarrow> machine_ok P (fst s') \<and> same_places (fst s) (fst s') \<and>
    (\<forall>j < length (fst s). j \<notin> set is \<longrightarrow> fst s' ! j = fst s ! j \<and> (\<forall>a. owns (fst s ! j) a \<longrightarrow> w_mem (snd s') a = w_mem (snd s) a)) \<and>
    (\<forall>a \<in> P. (\<forall>t \<in> set (fst s). \<not> owns t a) \<longrightarrow> w_mem (snd s') a = w_mem (snd s) a)"
  using assms(1)
proof (induction rule: machine_run.induct)
  case (stop s)
  then show ?case by (simp add: same_places_def)
next
  case (go i s s1 "is" s')
  obtain ts w ts1 w1 where s: "s = (ts, w)" "s1 = (ts1, w1)" by (cases s; cases s1)
  have ok: "machine_ok P ts" using go.prems s by simp
  note k = machine_step_ok [OF assms(2) ok go.hyps(1) [unfolded s]]
  have p: "same_places ts ts1" and i: "i < length ts" using k by simp_all
  note pl = same_placesD [OF p]
  have ih: "machine_ok P (fst s') \<and> same_places ts1 (fst s') \<and>
    (\<forall>j < length ts1. j \<notin> set is \<longrightarrow> fst s' ! j = ts1 ! j \<and> (\<forall>a. owns (ts1 ! j) a \<longrightarrow> w_mem (snd s') a = w_mem w1 a)) \<and>
    (\<forall>a \<in> P. (\<forall>t \<in> set ts1. \<not> owns t a) \<longrightarrow> w_mem (snd s') a = w_mem w1 a)"
    using go.IH k s by simp
  have o: "w_mem w1 a = w_mem w a" if "a \<in> P" "\<not> owns (ts ! i) a" for a
    using k that by (auto dest: othersD)
  have j: "fst s' ! j = ts ! j \<and> (\<forall>a. owns (ts ! j) a \<longrightarrow> w_mem (snd s') a = w_mem w a)" if "j < length ts" "j \<notin> set (i # is)" for j
  proof -
    have "ts1 ! j = ts ! j" "fst s' ! j = ts1 ! j" "\<forall>a. owns (ts1 ! j) a \<longrightarrow> w_mem (snd s') a = w_mem w1 a"
      using k ih that pl by auto
    moreover have "Collect (owns (ts ! j)) \<subseteq> P" "Collect (owns (ts ! j)) \<inter> Collect (owns (ts ! i)) = {}"
      using ok that i by (auto simp: machine_ok_index)
    ultimately show ?thesis using o by auto
  qed
  have n: "w_mem (snd s') a = w_mem w a" if "a \<in> P" "\<forall>t \<in> set ts. \<not> owns t a" for a
  proof -
    have "\<forall>t \<in> set ts1. \<not> owns t a" using that(2) pl by (simp add: all_set_conv_all_nth)
    then show ?thesis using ih that o [of a] i by simp
  qed
  have "same_places ts (fst s')" using p ih by (simp add: same_places_def)
  then show ?case using ih j n s by simp
qed

section \<open>Starting keeps them apart\<close>

text \<open>One more program: its sandbox is a free chunk, and memory elsewhere in the engine stays as it was.\<close>

lemma start_well:
  assumes g: "gentle env (box_mem (ll_engine e))"
    and e: "low_engine (ll_engine e)" "launch_fits M e prog (argc - 1) (path # args) []" "length (la_random la) = 16"
      "\<not> lo_passthrough (ll_opts e)" "program_at (ev_vm env) (ev_os env) path prog"
    and s: "gen_thread (ev_vm env) (ev_os env) getauxval la e (a0 # Some path # map Some args @ [None]) argc w = Inr (Some t, e', w')"
  shows "well t" "Collect (owns t) \<subseteq> box_mem (ll_engine e)" "others (box_mem (ll_engine e)) t w w'" "w' = th_world t"
    "\<forall>q \<in> live_boxes (ll_engine e). {q ..< q + unat (boxsize (le_opts (ll_engine e)))} \<inter> {box_lo (th_box t) ..< box_hi (th_box t)} = {}"
    "low_engine (ll_engine e')" "ll_opts e' = ll_opts e" "le_opts (ll_engine e') = le_opts (ll_engine e)"
    "all_boxes (ll_engine e') = all_boxes (ll_engine e)"
    "live_boxes (ll_engine e') = insert (box_lo (th_box t)) (live_boxes (ll_engine e))"
    "bx_size (th_box t) = boxsize (le_opts (ll_engine e))"
proof -
  let ?P = "box_mem (ll_engine e)"
  have none: "host_confined (ev_vm env) 0 0 (fixes_mem {} undefined)" using g by (simp add: gentle_def)
  have T: "host_confined (ev_vm env) lo hi (\<lambda>_. True)" for lo hi
    using none by (simp add: host_confined_def host_keeps_def prot_keeps_def mem_keeps_def)
  have "files_keep (ev_vm env) (\<lambda>_. True)" "os_keeps (ev_os env) lo hi (\<lambda>_. True)" "dev_keeps (ev_dev env) lo hi (\<lambda>_. True)"
    "malloc_keeps (ev_vm env) (\<lambda>_. True)" for lo hi
    by (simp_all add: files_keep_def os_keeps_def dev_keeps_def malloc_keeps_def)
  note gen_thread_ok(4,5) [OF e(1,2,3) s e(5) this(1) HOL.refl HOL.refl T this(2-4) TrueI]
  then have hi: "box_hi (th_box t) \<le> 2 ^ 47" using e(1) by (simp add: low_engine_def)
  note I = gentle_others [OF g hi, of w]
  note G = gen_thread_ok [OF e(1,2,3) s e(5) I(5) HOL.refl HOL.refl I(1-4) others_same]
  show "well t" using G(1-3) e(4) by (auto simp: th_confined_def proc_confined_def well_def)
  show "others ?P t w w'" using th_confined_world [OF G(1)] G(12) by simp
  show "Collect (owns t) \<subseteq> ?P" using G(4,5) by (auto simp: owns_def box_mem_def)
  show "w' = th_world t" "low_engine (ll_engine e')" "ll_opts e' = ll_opts e" "le_opts (ll_engine e') = le_opts (ll_engine e)"
    "all_boxes (ll_engine e') = all_boxes (ll_engine e)"
    "live_boxes (ll_engine e') = insert (box_lo (th_box t)) (live_boxes (ll_engine e))"
    "bx_size (th_box t) = boxsize (le_opts (ll_engine e))"
    "\<forall>q \<in> live_boxes (ll_engine e). {q ..< q + unat (boxsize (le_opts (ll_engine e)))} \<inter> {box_lo (th_box t) ..< box_hi (th_box t)} = {}"
    using G(5-12) by simp_all
qed


lemma gen_threads_Cons:
  assumes "gen_threads hv ho getauxval (la # las) e argv argc s w = Inr (map Some ts, e', s', w')"
  obtains t us e1 s1 r w1 where "ts = t # us" "gen_thread hv ho getauxval la e argv argc w = Inr (Some t, e1, w1)"
    "mcsched_add (unat (la_thandle la)) s = Inr (r, s1)"
    "gen_threads hv ho getauxval las e1 argv argc s1 w1 = Inr (map Some us, e', s', w')"
  using assms by (cases ts) (auto simp: rbind_Inr_iff)

text \<open>What holds of the threads of the loop, the chunks that were taken before it left alone.\<close>

lemma gen_threads_ok:
  assumes "gentle env (box_mem (ll_engine e))" "low_engine (ll_engine e)" "launch_fits M e prog (argc - 1) (path # args) []"
    "\<forall>la \<in> set las. length (la_random la) = 16" "\<not> lo_passthrough (ll_opts e)" "program_at (ev_vm env) (ev_os env) path prog"
    "gen_threads (ev_vm env) (ev_os env) getauxval las e (a0 # Some path # map Some args @ [None]) argc s w = Inr (map Some ts, e', s', w')"
  shows "machine_ok (box_mem (ll_engine e)) ts \<and>
    (\<forall>t \<in> set ts. \<forall>q \<in> live_boxes (ll_engine e). \<forall>a. owns t a \<longrightarrow> \<not> (q \<le> unat a \<and> unat a < q + unat (boxsize (le_opts (ll_engine e))))) \<and>
    (\<forall>t \<in> set ts. \<forall>a. owns t a \<longrightarrow> w_mem w' a = w_mem (th_world t) a) \<and>
    (\<forall>a \<in> box_mem (ll_engine e). (\<forall>t \<in> set ts. \<not> owns t a) \<longrightarrow> w_mem w' a = w_mem w a)"
  using assms
proof (induction las arbitrary: e s w ts)
  case Nil
  then show ?case by (simp add: machine_ok_def)
next
  case (Cons la las)
  let ?P = "box_mem (ll_engine e)" and ?n = "unat (boxsize (le_opts (ll_engine e)))"
  obtain t us e1 s1 r w1 where ts: "ts = t # us"
    and t: "gen_thread (ev_vm env) (ev_os env) getauxval la e (a0 # Some path # map Some args @ [None]) argc w = Inr (Some t, e1, w1)"
    and us: "gen_threads (ev_vm env) (ev_os env) getauxval las e1 (a0 # Some path # map Some args @ [None]) argc s1 w1 = Inr (map Some us, e', s', w')"
    using Cons.prems(7) by (rule gen_threads_Cons)
  have rnd: "length (la_random la) = 16" using Cons.prems(4) by simp
  note S = start_well [OF Cons.prems(1-3) rnd Cons.prems(5,6) t]
  have P: "box_mem (ll_engine e1) = ?P" using S(8,9) by (simp add: box_mem_def)
  have IH: "machine_ok ?P us"
    "\<forall>u \<in> set us. \<forall>q \<in> live_boxes (ll_engine e1). \<forall>a. owns u a \<longrightarrow> \<not> (q \<le> unat a \<and> unat a < q + ?n)"
    "\<forall>u \<in> set us. \<forall>a. owns u a \<longrightarrow> w_mem w' a = w_mem (th_world u) a"
    "\<forall>a \<in> ?P. (\<forall>u \<in> set us. \<not> owns u a) \<longrightarrow> w_mem w' a = w_mem w1 a"
    using Cons.IH [OF _ S(6) _ _ _ Cons.prems(6) us] Cons.prems(1,3-5) S(7-9) unfolding P by (simp_all add: launch_fits_def)
  have apart: "\<not> owns t a" if "u \<in> set us" "owns u a" for u a
    using IH(2) that S(10,11) by (auto simp: owns_def)
  have old: "\<not> (q \<le> unat a \<and> unat a < q + ?n)" if "owns t a" "q \<in> live_boxes (ll_engine e)" for q a
    using S(5) that by (fastforce simp: owns_def)
  have "machine_ok ?P ts"
    unfolding ts machine_ok_Cons using IH(1) S(1,2) apart by auto
  moreover have "\<forall>t \<in> set ts. \<forall>q \<in> live_boxes (ll_engine e). \<forall>a. owns t a \<longrightarrow> \<not> (q \<le> unat a \<and> unat a < q + ?n)"
    using IH(2) S(10) old ts by simp
  moreover have "\<forall>t \<in> set ts. \<forall>a. owns t a \<longrightarrow> w_mem w' a = w_mem (th_world t) a"
  proof -
    have "w_mem w' a = w_mem (th_world t) a" if "owns t a" for a
      using IH(4) that S(2,4) apart by auto
    then show ?thesis using IH(3) ts by simp
  qed
  moreover have "\<forall>a \<in> ?P. (\<forall>t \<in> set ts. \<not> owns t a) \<longrightarrow> w_mem w' a = w_mem w a"
    using IH(4) ts othersD [OF S(3)] by simp
  ultimately show ?case by blast
qed

text \<open>The scheduler: the threads stand in the queue in the order in which they were made.\<close>

lemma gen_threads_queued:
  assumes "alone s xs ys" "gen_threads hv ho getauxval las e argv argc s w = Inr (map Some ts, e', s', w')"
    "length ys + length las \<le> 1024"
  shows "alone s' xs (ys @ map (\<lambda>la. unat (la_thandle la)) las)"
  using assms
proof (induction las arbitrary: s e w ys ts)
  case (Cons la las)
  obtain t us e1 s1 r w1 where us: "mcsched_add (unat (la_thandle la)) s = Inr (r, s1)"
      "gen_threads hv ho getauxval las e1 argv argc s1 w1 = Inr (map Some us, e', s', w')"
    using Cons.prems(2) by (rule gen_threads_Cons)
  have "alone s1 xs (ys @ [unat (la_thandle la)])" using mcsched_add_alone [OF Cons.prems(1), of "unat (la_thandle la)"] us(1) Cons.prems(3) by auto
  then show ?case using Cons.IH [OF _ us(2)] Cons.prems(3) by fastforce
qed simp

section \<open>Properties\<close>



section \<open>Two concrete programs\<close>

lemma demo_starts_second:
  "demo_starts demo_linux2 m0 m (\<lambda>e' t. bx_base (th_box t) = 0x48000 \<and> bx_size (th_box t) = 0x4000)"
  by code_simp

text \<open>Two programs, started on one worker.\<close>

lemma demo_two:
  obtains t u e' s' w' where
    "gen_threads file_host file_os (\<lambda>_. 0) [demo_launch, demo_launch] demo_linux demo_argv 2 (mcsched_init 1 (\<lambda>_. THREAD_RUNNABLE) ()) demo_world
       = Inr (map Some [t, u], e', s', w')"
    "bx_base (th_box t) = 0x44000" "bx_size (th_box t) = 0x4000" "bx_base (th_box u) = 0x48000" "bx_size (th_box u) = 0x4000"
proof -
  obtain t e1 w1 where t: "gen_thread file_host file_os (\<lambda>_. 0) demo_launch demo_linux demo_argv 2 demo_world = Inr (Some t, e1, w1)"
      "e1 = demo_linux2" "bx_base (th_box t) = 0x44000" "bx_size (th_box t) = 0x4000"
    by (rule demo_start_ends [OF demo_starts_first]) blast
  obtain u e2 w2 where u: "gen_thread file_host file_os (\<lambda>_. 0) demo_launch demo_linux2 demo_argv 2 w1 = Inr (Some u, e2, w2)"
      "bx_base (th_box u) = 0x48000" "bx_size (th_box u) = 0x4000"
    by (rule demo_start_ends [OF demo_starts_second]) blast
  let ?s = "mcsched_init 1 (\<lambda>_. THREAD_RUNNABLE) ()" and ?h = "unat (la_thandle demo_launch)"
  obtain s1 s2 where "mcsched_add ?h ?s = Inr (1, s1)" "mcsched_add ?h s1 = Inr (1, s2)"
    using mcsched_add_alone [OF mcsched_init_alone, of ?h "\<lambda>_. THREAD_RUNNABLE" "()"] mcsched_add_alone [of _ "[]" "[?h]" ?h] by fastforce
  then show thesis using t u by (intro that [of t u e2 s2 w2]) simp_all
qed

lemma demo_box_mem: "a \<in> box_mem (ll_engine demo_linux) \<Longrightarrow> unat a < 0x68000"
  by (auto simp: box_mem_def demo_linux_def demo_engine_def demo_map_def rs_chunks_def ar_chunks_def chunk_addr_def)

lemma store_fixes:
  assumes "unat a < lo \<or> hi \<le> unat a" "lo \<le> unat b" "unat b + length bs \<le> hi" "hi \<le> 2 ^ 47"
  shows "store_bytes b bs m a = m a"
  using outside_offset [OF assms(1-3)] assms(4) by (simp add: store_bytes_other not_less)

lemma demo_gentle: "gentle (demo_env\<lparr>ev_vm := file_host, ev_os := file_os\<rparr>) (box_mem (ll_engine demo_linux))"
proof -
  have "host_confined file_host lo hi (fixes_mem A m) \<and> os_keeps file_os lo hi (fixes_mem A m) \<and> files_keep file_host (fixes_mem A m)"
    if hi: "hi \<le> 2 ^ 47" and low: "\<forall>a \<in> A. unat a < 0x68000" and out: "\<forall>a \<in> A. unat a < lo \<or> hi \<le> unat a" for lo hi m and A :: "u64 set"
  proof -
    have off: "\<not> unat (a - b) < n" if "a \<in> A" "lo \<le> unat b" "unat b + n \<le> hi" for a b n
      using outside_offset [of a lo hi b n] out that hi by auto
    have kept: "store_bytes b bs w a = w a" if "a \<in> A" "lo \<le> unat b" "unat b + length bs \<le> hi" for a b bs and w :: memory
      using off [OF that] by (simp add: store_bytes_other not_less)
    have prog: "store_bytes 0x200000 demo_prog w a = w a" if "a \<in> A" for a and w :: memory
      using outside_offset [of a "0x200000" "0x200078" "0x200000" 120] low that
      by (intro store_bytes_other) (fastforce simp: demo_prog_length)
    have "host_keeps file_host lo hi (fixes_mem A m)" "prot_keeps file_host lo hi (fixes_mem A m)" "mem_keeps lo hi (fixes_mem A m)"
      using off kept prog by (simp_all add: host_keeps_def prot_keeps_def mem_keeps_def file_host_def zero_host_def fixes_mem_def)
    moreover have "none_ok file_host" "fixed_or_fail file_host"
      using file_host_confined(1) [of "0x11" "0x12"] by (simp_all add: host_confined_def)
    moreover have "os_keeps file_os lo hi (fixes_mem A m)"
      by (auto simp: os_keeps_def file_os_def idle_os_def split: hostcall.splits)
    moreover have "files_keep file_host (fixes_mem A m)"
      using prog by (auto simp: files_keep_def file_host_def zero_host_def fixes_mem_def)
    ultimately show ?thesis by (simp add: host_confined_def)
  qed
  moreover have "dev_keeps (ev_dev demo_env) lo hi I" "malloc_keeps file_host I" for lo hi I
    by (simp_all add: dev_keeps_def demo_env_def malloc_keeps_def zero_host_def file_host_def)
  ultimately show ?thesis using demo_box_mem by (auto simp: gentle_def subset_iff)
qed


end
