(* ===== verification/Sys_Total.thy ===== *)
theory Sys_Total
  imports Sys_Edge
begin

text \<open>
  When the runtime survives a system call. \<open>Sys_Spec\<close> says what holds if a handler comes to an end; this
  theory says when it does: a thread whose open files are alive and not shared, and a request without the
  arguments that run into one of the faults of \<open>Sys_Edge\<close>. The files stay alive and unshared under all
  calls but \<open>dup\<close>, so that one such call after the other is served.
\<close>

section \<open>Threads with tidy files\<close>

text \<open>A file as \<open>filenew\<close> makes it.\<close>

definition plain_file :: "nat \<Rightarrow> FDFile \<Rightarrow> bool" where
  "plain_file a f \<longleftrightarrow> f_dev f = Some a \<and> f_refs f \<noteq> None \<and> f_kfd f \<noteq> None \<and>
     f_path f \<noteq> None \<and> (\<forall>s. f_path f = Some (Some s) \<longrightarrow> c_string s) \<and>
     f_read f = KFile \<and> f_write f = KFile \<and> f_lseek f = KFile \<and> f_close f = KFile \<and> f_stat f = KFile \<and>
     f_getdents f = KFile \<and> f_chown f = KFile \<and> f_chmod f = KFile \<and> f_truncate f = KFile \<and>
     f_sync f = KFile \<and> f_ioctl f = KFile"

definition alive :: "fheap \<Rightarrow> FDTable \<Rightarrow> bool" where
  "alive fh t \<longleftrightarrow> (\<forall>a. Some a \<in> set t \<longrightarrow> a < fh_next fh \<and> (\<exists>f. fh_files fh a = Some f \<and> plain_file a f))"

definition unshared :: "FDTable \<Rightarrow> bool" where
  "unshared t \<longleftrightarrow> (\<forall>i j. i < length t \<and> j < length t \<and> t ! i \<noteq> None \<and> t ! i = t ! j \<longrightarrow> i = j)"

definition tidy :: "'k LPSThread \<Rightarrow> bool" where
  "tidy t \<longleftrightarrow> length (pr_fds (th_proc t)) = LINUX_NOFILE \<and> alive (th_files t) (pr_fds (th_proc t)) \<and>
     unshared (pr_fds (th_proc t)) \<and> c_string (pr_cwd (th_proc t))"

definition same_files :: "'k LPSThread \<Rightarrow> 'k LPSThread \<Rightarrow> bool" where
  "same_files t t' \<longleftrightarrow> th_files t' = th_files t \<and> pr_fds (th_proc t') = pr_fds (th_proc t) \<and>
     (c_string (pr_cwd (th_proc t)) \<longrightarrow> c_string (pr_cwd (th_proc t')))"

interpretation files: frame tidy same_files
  by unfold_locales (auto simp: same_files_def tidy_def)

abbreviation runs :: "'k LPSThread \<Rightarrow> ('a \<times> 'k LPSThread) res \<Rightarrow> bool" where
  "runs t r \<equiv> finishes same_files t r"

named_theorems running

section \<open>Building blocks\<close>

lemma same_files_updates [simp]:
  "same_files t t" "same_files t (th_set_world t w)" "same_files t (th_store t p fs)"
  "same_files t (t\<lparr>th_proc := (th_proc t)\<lparr>pr_box := b\<rparr>\<rparr>)" "same_files t (t\<lparr>th_proc := (th_proc t)\<lparr>pr_box := b, pr_brksize := n\<rparr>\<rparr>)"
  "same_files t (t\<lparr>th_proc := (th_proc t)\<lparr>pr_brksize := n\<rparr>\<rparr>)" "same_files t (t\<lparr>th_proc := pr_set_mem (th_proc t) m\<rparr>)"
  "same_files t (t\<lparr>th_ctidp := c\<rparr>)" "same_files t (th_store (th_set_world t w) p fs)"
  by (simp_all add: same_files_def th_set_world_def th_store_def pr_set_world_def pr_set_mem_def)

lemma runs_end [running]: "same_files t t' \<Longrightarrow> runs t (Inr (v, t'))"
  by (rule finishes_end)

lemma runs_if [running]: "(b \<Longrightarrow> runs t x) \<Longrightarrow> (\<not> b \<Longrightarrow> runs t y) \<Longrightarrow> runs t (if b then x else y)"
  by simp

lemma runs_after: "same_files t t' \<Longrightarrow> runs t' r \<Longrightarrow> runs t r"
  using files.trans by (fastforce simp: finishes_def)

lemma runs_rbind:
  assumes "runs t r" "\<And>v t'. same_files t t' \<Longrightarrow> runs t' (f (v, t'))"
  shows "runs t (rbind r f)"
  using assms files.trans by (fastforce simp: finishes_def)

lemma runs_bind:
  assumes "runs t r" "\<And>v t'. same_files t t' \<Longrightarrow> runs t' (f v t')"
  shows "runs t (rbind r (\<lambda>(v, t). f v t))"
  by (rule runs_rbind [OF assms(1)]) (simp add: assms(2))

lemma runs_bufhost [running]:
  assumes "runs t n" "bufcheck t p sz al \<Longrightarrow> runs t (f p)"
  shows "runs t (case bufhost t p sz al of None \<Rightarrow> n | Some b \<Rightarrow> f b)"
  using assms by (simp add: bufhost_def)

lemma runs_on_world:
  assumes "\<exists>x. f (th_world t) = Inr x"
  shows "runs t (on_world f t)"
  using assms by (auto simp: on_world_def finishes_def)

lemma host_malloc_same: "host_malloc env sz t = (ok, t') \<Longrightarrow> same_files t t'"
  by (auto simp: host_malloc_def split: prod.splits)

lemma mem_str_string: "c_string (mem_str m a n)"
proof -
  have "NUL \<noteq> char_of (unat (x :: u8))" if "x \<noteq> 0" for x
  proof
    assume "NUL = char_of (unat x)"
    then have "(of_char (char_of (unat x)) :: nat) = of_char NUL" by simp
    moreover have "unat x < 256" using unsigned_less [of x] by simp
    ultimately have "unat x = 0" by (simp add: NUL_def)
    then show False using that by (simp add: unat_eq_0)
  qed
  then show ?thesis by (induction m a n rule: mem_str.induct) (auto simp: c_string_def)
qed

lemma runs_path:
  assumes "\<And>t'. same_files t t' \<Longrightarrow> runs t' (n t')" "\<And>path t'. same_files t t' \<Longrightarrow> c_string path \<Longrightarrow> bufcheck t' = bufcheck t \<Longrightarrow> runs t' (f path t')"
  shows "runs t (case pathcopy env t pathp of (None, t) \<Rightarrow> n t | (Some path, t) \<Rightarrow> f path t)"
proof (cases "ptrcheck t pathp")
  case False
  then show ?thesis using assms(1) [of t] by (simp add: pathcopy_def)
next
  case True
  obtain ok t' where m: "host_malloc env (of_nat FILENAME_MAX) t = (ok, t')" by (rule prod.exhaust)
  note s = host_malloc_same [OF m]
  have "bufcheck t' = bufcheck t" using m by (auto simp: host_malloc_def fun_eq_iff split: prod.splits)
  then show ?thesis
    using True m runs_after [OF s assms(1) [OF s]] runs_after [OF s assms(2) [OF s mem_str_string]]
    by (cases ok) (simp_all add: pathcopy_def)
qed

section \<open>Files\<close>

definition open_file :: "'k LPSThread \<Rightarrow> FDFile \<Rightarrow> bool" where
  "open_file t f \<longleftrightarrow> (\<exists>a. fh_files (th_files t) a = Some f \<and> plain_file a f)"

lemma open_file_same: "open_file t f \<Longrightarrow> same_files t t' \<Longrightarrow> open_file t' f"
  by (simp add: open_file_def same_files_def)

lemma open_file_fns:
  assumes "open_file t f"
  shows "f_read f = KFile" "f_write f = KFile" "f_lseek f = KFile" "f_stat f = KFile" "f_getdents f = KFile"
    "f_chown f = KFile" "f_chmod f = KFile" "f_truncate f = KFile" "f_sync f = KFile" "f_ioctl f = KFile"
  using assms by (auto simp: open_file_def plain_file_def)

lemma open_file_kfd: "open_file t f \<Longrightarrow> \<exists>kfd. getkfd (th_files t) (f_dev f) = Inr kfd"
  by (auto simp: open_file_def plain_file_def getkfd_def get_file_def initialised_def)

lemma table_slot:
  assumes "length t = LINUX_NOFILE" "fd_in_range fd"
  shows "table_get t fd = Inr (t ! nat (sint fd))" "nat (sint fd) < length t"
  using assms by (auto simp: table_get_def fd_in_range_def)

lemma runs_with_file:
  assumes "tidy t" "\<And>f. open_file t f \<Longrightarrow> runs t (body f)"
  shows "runs t (with_file t fd body)"
proof (cases "fd_in_range fd")
  case False
  then show ?thesis by (simp add: with_file_def fdfget_def runs_end)
next
  case True
  have "length (pr_fds (th_proc t)) = LINUX_NOFILE" using assms(1) by (simp add: tidy_def)
  note s = table_slot [OF this True]
  show ?thesis
  proof (cases "pr_fds (th_proc t) ! nat (sint fd)")
    case None
    then show ?thesis using True s by (simp add: with_file_def fdfget_def runs_end)
  next
    case (Some a)
    then have "Some a \<in> set (pr_fds (th_proc t))" using nth_mem [OF s(2)] by simp
    then obtain f where f: "fh_files (th_files t) a = Some f" "plain_file a f"
      using assms(1) by (auto simp: tidy_def alive_def)
    then have "runs t (body f)" by (intro assms(2)) (auto simp: open_file_def)
    then show ?thesis using True s Some f(1) by (simp add: with_file_def fdfget_def get_file_def)
  qed
qed

lemma runs_calls:
  assumes "open_file t f"
  shows "runs t (f_read_call env f p n t)" "runs t (f_write_call env f p n t)" "runs t (f_lseek_call env f off wh t)"
    "runs t (call_kfn (f_getdents f) (on_world (kgetdents ho (th_files t) (f_dev f) p n) t))"
    "runs t (call_kfn (f_chmod f) (on_world (kchmod ho (th_files t) (f_dev f) mode) t))"
    "runs t (call_kfn (f_truncate f) (on_world (kftruncate ho (th_files t) (f_dev f) len) t))"
    "runs t (call_kfn (f_chown f) (on_world (kfchown ho (th_files t) (f_dev f) ow gr) t))"
    "runs t (call_kfn (f_sync f) (on_world (ksync ho (th_files t) (f_dev f)) t))"
  using open_file_kfd [OF assms] open_file_fns [OF assms]
  by (auto simp: f_read_call_def f_write_call_def f_lseek_call_def call_fn_def kread_def kwrite_def klseek_def kgetdents_def
      kchmod_def kftruncate_def kfchown_def ksync_def intro!: runs_on_world)

lemma runs_fstatat:
  assumes "flags = LINUX_AT_EMPTY_PATH \<or> flags = 0"
  shows "\<exists>x. host_fstatat ho fd path p flags w = Inr x"
  using assms by (auto simp: host_fstatat_def rassert_def split: prod.split)

lemma runs_stat_call: "open_file t f \<Longrightarrow> runs t (call_kfn (f_stat f) (on_world (kstat_op ho (th_files t) (f_dev f) p) t))"
  using open_file_kfd [of t f] open_file_fns [of t f] runs_fstatat [of LINUX_AT_EMPTY_PATH]
  by (auto simp: call_fn_def kstat_op_def intro!: runs_on_world)

lemma runs_if_fn: "fp = KFile \<Longrightarrow> runs t body \<Longrightarrow> runs t (if_fn fp t body)"
  by (simp add: if_fn_def)

lemma runs_call_int [running]: "runs t (on_world (\<lambda>w. Inr (g w)) t)"
  by (rule runs_on_world) simp

lemma runs_path_call [running]: "runs t (path_call env p call t)"
  unfolding path_call_def pathcopyresolve_def by (rule runs_path) (intro running same_files_updates)+

section \<open>The handlers\<close>

lemmas file_handler = runs_with_file runs_if_fn open_file_fns runs_calls runs_stat_call

lemma runs_sys_read [running]: "tidy t \<Longrightarrow> runs t (sys_read env fd p n t)"
  unfolding sys_read_def by (intro running file_handler same_files_updates)

lemma runs_sys_write [running]: "tidy t \<Longrightarrow> runs t (sys_write env fd p n t)"
  unfolding sys_write_def by (intro running file_handler same_files_updates)

lemma runs_sys_lseek [running]: "tidy t \<Longrightarrow> runs t (sys_lseek env fd off wh t)"
  unfolding sys_lseek_def by (intro running file_handler same_files_updates)

lemma runs_sys_pread64 [running]: "tidy t \<Longrightarrow> runs t (sys_pread64 env fd p n off t)"
  unfolding sys_pread64_def
  by (rule runs_with_file, assumption, rule runs_if_fn, erule open_file_fns)
     (intro running runs_bind runs_calls same_files_updates; blast intro: open_file_same)

lemma runs_sys_getdents64 [running]: "tidy t \<Longrightarrow> runs t (sys_getdents64 env fd p n t)"
  unfolding sys_getdents64_def by (intro running file_handler same_files_updates)

lemma runs_small_files [running]:
  "tidy t \<Longrightarrow> runs t (sys_fchmod env fd mode t)" "tidy t \<Longrightarrow> runs t (sys_ftruncate env fd len t)"
  "tidy t \<Longrightarrow> runs t (sys_fchown env fd ow gr t)" "tidy t \<Longrightarrow> runs t (sys_fsync env fd t)"
  unfolding sys_fchmod_def sys_ftruncate_def sys_fchown_def sys_fsync_def by (intro file_handler; assumption)+

text \<open>The loop over an array runs while the copy has an entry for every count.\<close>

lemma runs_iov_loop:
  assumes "\<And>p n t'. tidy t' \<Longrightarrow> runs t' (op p n t')"
  shows "tidy t \<Longrightarrow> 16 * n \<le> length iov \<Longrightarrow> runs t (iov_loop op iov n tot t)"
proof (induction n arbitrary: iov tot t)
  case (Suc n)
  show ?case unfolding iov_loop.simps
  proof (intro running runs_bind assms Suc.prems(1))
    show "runs t (Inl OutOfBounds)" if "length iov < 16" using that Suc.prems(2) by simp
    show "runs t' (iov_loop op (drop 16 iov) n (tot + r) t')" if "same_files t t'" for r t'
      using Suc.IH [of t' "drop 16 iov"] files.good [OF that Suc.prems(1)] Suc.prems(2) by simp
  qed simp_all
qed (simp add: runs_end)

lemma count_bytes: "unat (n :: u64) < 2 ^ 60 \<Longrightarrow> unat (n * 16) = 16 * unat n"
  by (simp add: unat_word_ariths(2) mult.commute)

lemma bufcheck_bytes: "bufcheck t p n al \<Longrightarrow> bufcheck t p n 1"
  by (simp add: bufcheck_def split: if_splits)

lemma runs_iov_call:
  assumes "tidy t" "unat cnt < 2 ^ 60" "\<And>p n t'. tidy t' \<Longrightarrow> runs t' (op p n t')"
  shows "runs t (iov_call env op p cnt t)"
  unfolding iov_call_def
proof (intro running same_files_updates)
  assume "\<not> \<not> bufcheck t p (cnt * 16) 8"
  then have b: "bufcheck t p (cnt * 16) 1" using bufcheck_bytes by blast
  obtain ok t' where m: "host_malloc env (cnt * 16) t = (ok, t')" by (rule prod.exhaust)
  have s: "same_files t t'" by (rule host_malloc_same [OF m])
  have "runs t' (iov_loop op (load_bytes p (unat (cnt * 16)) (w_mem (th_world t'))) (unat cnt) 0 t')"
    by (rule runs_iov_loop [OF assms(3) files.good [OF s assms(1)]]) (simp_all add: count_bytes [OF assms(2)])
  then show "runs t (rbind (copyout env t p (cnt * 16)) (\<lambda>(iov, t).
      case iov of None \<Rightarrow> Inr (- LINUX_ENOMEM, t) | Some iov \<Rightarrow> iov_loop op iov (unat cnt) 0 t))"
    using b m s by (cases ok) (simp_all add: copyout_def rassert_def runs_end runs_after)
qed

lemma runs_sys_vectors:
  "tidy t \<Longrightarrow> unat cnt < 2 ^ 60 \<Longrightarrow> runs t (sys_writev env fd p cnt t)"
  "tidy t \<Longrightarrow> unat cnt < 2 ^ 60 \<Longrightarrow> runs t (sys_readv env fd p cnt t)"
  unfolding sys_writev_def sys_readv_def by (intro runs_iov_call running; assumption)+

lemma runs_sys_newfstatat:
  assumes "tidy t" "flags AND LINUX_AT_EMPTY_PATH \<noteq> 0 \<or> flags = 0"
  shows "runs t (sys_newfstatat env fd p st flags t)"
  unfolding sys_newfstatat_def pathcopyresolve_def
proof (intro running same_files_updates runs_path)
  show "runs t' (on_world (host_fstatat (ev_os env) LINUX_AT_FDCWD path st flags) t')"
    if "flags AND LINUX_AT_EMPTY_PATH = 0" for path t'
    by (rule runs_on_world, rule runs_fstatat) (use assms(2) that in blast)
  show "runs t (with_file t fd (\<lambda>f. if_fn (f_stat f) t
      (call_kfn (f_stat f) (on_world (kstat_op (ev_os env) (th_files t) (f_dev f) st) t))))"
    by (intro file_handler assms(1)) assumption+
qed

lemma runs_sys_ioctl [running]: "tidy t \<Longrightarrow> runs t (sys_ioctl env fd req a t)"
  unfolding sys_ioctl_def
proof (intro running same_files_updates runs_with_file, assumption, rule runs_if_fn, erule open_file_fns)
  fix f
  assume f: "open_file t f"
  then obtain kfd where "getkfd (th_files t) (f_dev f) = Inr kfd" using open_file_kfd by blast
  then show "runs t (call_kfn (f_ioctl f)
      (rbind (kioctl (ev_os env) (th_files t) (f_dev f) LINUX_TIOCGWINSZ (th_world t)) (\<lambda>(e, r, w).
       let t = th_set_world t w; ws = hr_winsize r in
       if e \<noteq> 0 then Inr (- hr_errno r, t)
       else Inr (0, th_store t a
         [(0, 2, ucast (kw_row ws)), (2, 2, ucast (kw_col ws)), (4, 2, ucast (kw_xpixel ws)), (6, 2, ucast (kw_ypixel ws))]))))"
    using open_file_fns(10) [OF f]
    by (auto simp: call_fn_def kioctl_def Let_def runs_end split: prod.split)
qed

lemma runs_path_handlers [running]:
  "runs t (sys_truncate env p len t)" "runs t (sys_mkdirat env fd p mode t)" "runs t (sys_unlinkat env fd p fl t)"
  "runs t (sys_renameat2 env od op nd np rf t)" "runs t (sys_faccessat env fd p am t)" "runs t (sys_readlinkat env fd p b n t)"
  unfolding sys_truncate_def sys_mkdirat_def sys_unlinkat_def sys_renameat2_def sys_renameat_def sys_faccessat_def sys_readlinkat_def
    pathcopyresolve_def
  by (intro running same_files_updates runs_path)+

text \<open>Handlers that ask the kernel and store members of a structure, and the small ones.\<close>

lemma runs_info_handlers [running]:
  "runs t (sys_sysinfo env p t)" "runs t (sys_uname p t)" "runs t (sys_getrlimit res p t)" "runs t (sys_nanosleep env p 0 t)"
  "runs t (sys_clock_gettime env clk p t)" "runs t (sys_getrandom env p n rfl t)" "runs t (sys_set_tid_address p t)"
  "runs t (sys_gettid t)" "runs t (sys_prctl op p t)" "runs t (sys_ignore t)" "runs t (sys_nosys t)"
  by (auto simp: sys_sysinfo_def sys_uname_def sys_getrlimit_def sys_nanosleep_def sys_clock_gettime_def sys_getrandom_def
      sys_set_tid_address_def sys_gettid_def sys_prctl_def pr_set_name_def sys_ignore_def sys_nosys_def Let_def
      intro!: running split: prod.split)

text \<open>The working directory: the path library always returns.\<close>

lemma chdir_returns:
  assumes "c_string path" "c_string (pr_cwd p)"
  shows "\<exists>r cwd. proc_chdir p path = Inr (r, p\<lparr>pr_cwd := cwd\<rparr>) \<and> c_string cwd"
proof -
  have cut: "c_string (take n s)" if "c_string s" for n s using that set_take_subset by (fastforce simp: c_string_def)
  have all: "\<forall>q \<in> set [pr_cwd p, path]. c_string q" using assms by simp
  obtain out where out: "cwk_path_join_and_normalize_multiple CWK_STYLE_UNIX [pr_cwd p, path] (replicate FILENAME_MAX NUL) =
      Inr (length (normal_path [pr_cwd p, path]), out)"
    using join_normalize [OF _ all, of "replicate FILENAME_MAX NUL"] by auto
  have "c_string (takeWhile (\<lambda>c. c \<noteq> NUL) out)" by (auto simp: c_string_def dest: set_takeWhileD)
  then have "c_string (take 4095 (takeWhile (\<lambda>c. c \<noteq> NUL) out))" by (rule cut)
  moreover have "proc_chdir p path =
      (if cwk_path_is_absolute CWK_STYLE_UNIX path then Inr (0, p\<lparr>pr_cwd := take 4095 path\<rparr>)
       else if pr_cwd p = [] then Inr (- LINUX_ENOENT, p\<lparr>pr_cwd := pr_cwd p\<rparr>)
       else Inr (0, p\<lparr>pr_cwd := take 4095 (takeWhile (\<lambda>c. c \<noteq> NUL) out)\<rparr>))"
    by (simp add: proc_chdir_def cwk_path_join_def out)
  ultimately show ?thesis using cut [OF assms(1)] assms(2) by (simp only: split: if_split) blast
qed

lemma runs_chdir:
  assumes "tidy t" "c_string path"
  shows "runs t (rbind (proc_chdir (th_proc t) path) (\<lambda>(r, p). Inr (r, t\<lparr>th_proc := p\<rparr>)))"
  using chdir_returns [of path "th_proc t"] assms by (auto simp: tidy_def same_files_def finishes_def)

lemma runs_sys_chdir [running]: "tidy t \<Longrightarrow> runs t (sys_chdir env p t)"
  unfolding sys_chdir_def by (intro runs_path running same_files_updates runs_chdir; blast intro: files.good)

lemma runs_sys_fchdir [running]:
  assumes "tidy t"
  shows "runs t (sys_fchdir fd t)"
  unfolding sys_fchdir_def
proof (rule runs_with_file [OF assms])
  fix f
  assume "open_file t f"
  then obtain path where p: "f_path f = Some path" "\<forall>s. path = Some s \<longrightarrow> c_string s" by (auto simp: open_file_def plain_file_def)
  then show "runs t (rbind (initialised (f_path f)) (\<lambda>dir.
      case dir of None \<Rightarrow> Inr (- LINUX_ENOTDIR, t)
      | Some dir \<Rightarrow> rbind (proc_chdir (th_proc t) dir) (\<lambda>(r, p). Inr (r, t\<lparr>th_proc := p\<rparr>))))"
    using runs_chdir [OF assms] by (cases path) (simp_all add: initialised_def runs_end)
qed

lemma runs_sys_getcwd:
  assumes "length (pr_cwd (th_proc t)) < FILENAME_MAX" "unat sz < 2 ^ 31"
  shows "runs t (sys_getcwd p sz t)"
proof -
  have "unat (int_to_u64 (c_MIN (ucast sz) (of_nat (length (pr_cwd (th_proc t)) + 1)))) \<le> length (pr_cwd (th_proc t)) + 1"
    using getcwd_len [OF assms(2), of "length (pr_cwd (th_proc t)) + 1"] assms(1) by simp
  then show ?thesis unfolding sys_getcwd_def Let_def by (intro running same_files_updates) simp_all
qed

section \<open>Opening and closing\<close>

lemma alive_bump: "alive fh t \<Longrightarrow> alive (fh\<lparr>fh_next := Suc (fh_next fh)\<rparr>) t"
  by (auto simp: alive_def less_Suc_eq)

lemma alive_other: "alive fh t \<Longrightarrow> Some a \<notin> set t \<Longrightarrow> alive (set_file fh a x) t"
  by (auto simp: alive_def set_file_def)

lemma alive_refs:
  assumes "alive fh t" "fh_files fh a = Some f" "plain_file a f"
  shows "alive (set_file fh a (Some (f\<lparr>f_refs := Some r\<rparr>))) t" "plain_file a (f\<lparr>f_refs := Some r\<rparr>)"
  using assms by (auto simp: alive_def set_file_def plain_file_def)

lemma alive_misuse: "alive (fh\<lparr>fh_misuse := b\<rparr>) t = alive fh t"
  by (simp add: alive_def)

lemma alive_clear: "alive fh t \<Longrightarrow> alive fh (t[i := None])"
  by (auto simp: alive_def dest!: subsetD [OF set_update_subset_insert])

lemma alive_put:
  "alive fh t \<Longrightarrow> a < fh_next fh \<Longrightarrow> fh_files fh a = Some f \<Longrightarrow> plain_file a f \<Longrightarrow> alive fh (t[i := Some a])"
  by (auto simp: alive_def dest!: subsetD [OF set_update_subset_insert])

lemma unshared_clear: "unshared t \<Longrightarrow> unshared (t[i := None])"
  by (cases "i < length t") (auto simp: unshared_def nth_list_update list_update_beyond split: if_splits)

lemma unshared_put: "unshared t \<Longrightarrow> Some a \<notin> set t \<Longrightarrow> unshared (t[i := Some a])"
  unfolding unshared_def
  by (cases "i < length t") (auto simp: nth_list_update list_update_beyond in_set_conv_nth split: if_splits)

lemma unshared_gone: "unshared t \<Longrightarrow> i < length t \<Longrightarrow> t ! i = Some a \<Longrightarrow> Some a \<notin> set (t[i := None])"
  unfolding unshared_def in_set_conv_nth by (auto simp: nth_list_update split: if_splits)

lemma filenew_alive:
  assumes "filenew kfd path fh = (p, fh')" "alive fh t" "\<forall>s. path = Some s \<longrightarrow> c_string s"
  shows "alive fh' t" "p = Some a \<Longrightarrow> Some a \<notin> set t \<and> a < fh_next fh' \<and> (\<exists>f. fh_files fh' a = Some f \<and> plain_file a f)"
proof -
  have fresh: "Some (fh_next fh) \<notin> set t" using assms(2) by (auto simp: alive_def)
  have "alive (set_file (fh\<lparr>fh_next := Suc (fh_next fh)\<rparr>) (fh_next fh) x) t" for x
    by (rule alive_other [OF alive_bump [OF assms(2)] fresh])
  then show "alive fh' t" using assms(1) alive_bump [OF assms(2)] by (auto simp: filenew_def Let_def split: if_splits)
  show "p = Some a \<Longrightarrow> Some a \<notin> set t \<and> a < fh_next fh' \<and> (\<exists>f. fh_files fh' a = Some f \<and> plain_file a f)"
    using assms(1,3) fresh by (auto simp: filenew_def Let_def set_file_def plain_file_def split: if_splits)
qed

lemma fdfassign_alive:
  assumes "alive fh t" "unshared t" "length t = LINUX_NOFILE" "Some a \<notin> set t" "a < fh_next fh" "fh_files fh a = Some f" "plain_file a f"
  obtains fd fh' t' where "fdfassign fh t a = Inr (fd, fh', t')" "alive fh' t'" "unshared t'" "length t' = LINUX_NOFILE"
proof (cases "first_free t < LINUX_NOFILE")
  case True
  obtain r where r: "f_refs f = Some r" using assms(7) by (auto simp: plain_file_def)
  let ?f = "f\<lparr>f_refs := Some (r + 1)\<rparr>"
  note k = alive_refs [OF assms(1,6,7), of "r + 1"]
  have "alive (set_file fh a (Some ?f)) (t[first_free t := Some a])"
    by (rule alive_put [OF k(1) _ _ k(2)]) (simp_all add: assms(5) set_file_def)
  then show thesis
    using that True add_refs_ok [OF assms(6) r, of 1] unshared_put [OF assms(2,4)] assms(3) by (simp add: fdfassign_def Let_def)
next
  case False
  then show thesis using that assms(1-3) by (simp add: fdfassign_def Let_def)
qed

lemma tidy_set_files [simp]:
  "tidy (th_set_files t fh fds) \<longleftrightarrow> length fds = LINUX_NOFILE \<and> alive fh fds \<and> unshared fds \<and> c_string (pr_cwd (th_proc t))"
  by (simp add: tidy_def th_set_files_def)

text \<open>Results that leave the files tidy.\<close>

abbreviation tidies :: "('a \<times> 'k LPSThread) res \<Rightarrow> bool" where
  "tidies r \<equiv> \<exists>v t'. r = Inr (v, t') \<and> tidy t'"

lemma runs_tidies: "runs t r \<Longrightarrow> tidy t \<Longrightarrow> tidies r"
  using files.good by (fastforce simp: finishes_def)

lemma tidies_openat:
  assumes "tidy t"
  shows "tidies (sys_openat env dirfd p flags mode t)"
proof -
  let ?open = "\<lambda>path t. case ev_os env (H_open path (openflags flags) mode) (th_world t) of
      (r, w) \<Rightarrow>
        (let t = th_set_world t w; kfd = ucast (hr_ret r) :: cint in
         if sint kfd < 0 then Inr (host_err (hr_errno r), t)
         else
           (case filenew kfd (Some path) (th_files t) of
              (None, fh) \<Rightarrow> Inr (- LINUX_ENOENT, th_set_files t fh (pr_fds (th_proc t)))
            | (Some f, fh) \<Rightarrow>
                rbind (fdfassign fh (pr_fds (th_proc t)) f) (\<lambda>(fd, fh, fds).
                let t = th_set_files t fh fds in
                if sint fd < 0 then Inr (- LINUX_EMFILE, t) else Inr (fd, t))))"
  have rest: "tidies (?open path t)" if ti: "tidy t" and c: "c_string path" for path and t :: "'a LPSThread"
  proof -
    obtain r w where o: "ev_os env (H_open path (openflags flags) mode) (th_world t) = (r, w)" by (rule prod.exhaust)
    let ?t = "th_set_world t w" and ?kfd = "ucast (hr_ret r) :: cint"
    have tw: "tidy ?t" by (rule files.good [OF same_files_updates(2) ti])
    then have al: "alive (th_files ?t) (pr_fds (th_proc ?t))" "unshared (pr_fds (th_proc ?t))"
      "length (pr_fds (th_proc ?t)) = LINUX_NOFILE" "c_string (pr_cwd (th_proc ?t))" by (simp_all add: tidy_def)
    obtain q fh where n: "filenew ?kfd (Some path) (th_files ?t) = (q, fh)" by (rule prod.exhaust)
    have new: "alive fh (pr_fds (th_proc ?t))" using filenew_alive(1) [OF n al(1)] c by simp
    show ?thesis
    proof (cases q)
      case None
      then show ?thesis using o n new al tw by (simp add: Let_def)
    next
      case (Some a)
      then obtain f where "Some a \<notin> set (pr_fds (th_proc ?t))" "a < fh_next fh" "fh_files fh a = Some f" "plain_file a f"
        using filenew_alive(2) [OF n al(1), of a] c by blast
      then obtain fd fh' fds where "fdfassign fh (pr_fds (th_proc ?t)) a = Inr (fd, fh', fds)" "alive fh' fds" "unshared fds"
          "length fds = LINUX_NOFILE" by (rule fdfassign_alive [OF new al(2,3)])
      then show ?thesis using o n Some al tw by (simp add: Let_def)
    qed
  qed
  show ?thesis
  proof (cases "dirfd \<noteq> LINUX_AT_FDCWD")
    case True
    then show ?thesis using assms by (simp add: sys_openat_def)
  next
    case False
    obtain path t' where pc: "pathcopy env t p = (path, t')" by (rule prod.exhaust)
    have s: "same_files t t'" "\<forall>s. path = Some s \<longrightarrow> c_string s"
      using pc mem_str_string host_malloc_same by (auto simp: pathcopy_def split: if_splits prod.splits bool.splits)
    have ti: "tidy t'" by (rule files.good [OF s(1) assms])
    show ?thesis
    proof (cases path)
      case None
      then show ?thesis using False pc ti by (simp add: sys_openat_def pathcopyresolve_def)
    next
      case (Some str)
      then show ?thesis using False pc rest [OF ti, of str] s(2) by (simp add: sys_openat_def pathcopyresolve_def)
    qed
  qed
qed

lemma filefree_alive:
  assumes "fh_files fh a = Some f" "plain_file a f" "alive fh t" "Some a \<notin> set t"
  obtains fh' where "filefree (Some a) fh = Inr fh'" "alive fh' t"
proof -
  obtain r where r: "f_refs f = Some r" using assms(2) by (auto simp: plain_file_def)
  let ?f = "f\<lparr>f_refs := Some (r - 1)\<rparr>"
  let ?fh = "set_file fh a (Some ?f)"
  have p: "f_close ?f = KFile" "initialised (f_path ?f) = Inr (the (f_path f))"
    using assms(2) by (auto simp: plain_file_def initialised_def)
  have k: "alive ?fh t" using assms(3,4) by (rule alive_other)
  have g: "get_file ?fh (Some a) = Inr ?f" by (simp add: get_file_def set_file_def)
  have "filefree (Some a) fh = Inr (if r - 1 = 0 then ?fh else (set_file ?fh a None)\<lparr>fh_misuse := True\<rparr>)"
    using add_refs_ok [OF assms(1) r, of "- 1"] g p by (simp add: filefree_def)
  moreover have "alive ((set_file ?fh a None)\<lparr>fh_misuse := True\<rparr>) t"
    unfolding alive_misuse by (rule alive_other [OF k assms(4)])
  ultimately show thesis using that k by (cases "r - 1 = 0") auto
qed

lemma tidies_close:
  assumes "tidy t"
  shows "tidies (sys_close fd t)"
proof -
  let ?t = "pr_fds (th_proc t)" and ?i = "nat (sint fd)"
  have al: "alive (th_files t) ?t" "unshared ?t" "length ?t = LINUX_NOFILE" "c_string (pr_cwd (th_proc t))"
    using assms by (simp_all add: tidy_def)
  show ?thesis
  proof (cases "fd_in_range fd")
    case False
    then show ?thesis using assms by (simp add: sys_close_def fdfclose_def)
  next
    case True
    note s = table_slot [OF al(3) True]
    show ?thesis
    proof (cases "?t ! ?i")
      case None
      then show ?thesis using assms True s by (simp add: sys_close_def fdfclose_def)
    next
      case (Some a)
      then have "Some a \<in> set ?t" using nth_mem [OF s(2)] by simp
      then obtain f where f: "fh_files (th_files t) a = Some f" "plain_file a f" using al(1) by (auto simp: alive_def)
      have gone: "Some a \<notin> set (?t[?i := None])" by (rule unshared_gone [OF al(2) s(2) Some])
      obtain fh' where "filefree (Some a) (th_files t) = Inr fh'" "alive fh' (?t[?i := None])"
        by (rule filefree_alive [OF f alive_clear [OF al(1)] gone])
      then show ?thesis using True s Some al unshared_clear [OF al(2)] by (simp add: sys_close_def fdfclose_def)
    qed
  qed
qed

text \<open>After \<open>dup\<close> the file is shared; the call itself returns.\<close>

lemma dup_returns:
  assumes "tidy t"
  shows "\<exists>x. fdfdup2 (th_files t) (pr_fds (th_proc t)) a b = Inr x"
proof (cases "sint a < 0 \<or> sint a \<ge> int LINUX_NOFILE \<or> sint b < - 1 \<or> sint b \<ge> int LINUX_NOFILE")
  case True
  then show ?thesis by (auto simp: fdfdup2_def)
next
  case False
  let ?t = "pr_fds (th_proc t)"
  have al: "alive (th_files t) ?t" "length ?t = LINUX_NOFILE" using assms by (simp_all add: tidy_def)
  have ra: "fd_in_range a" using False by (simp add: fd_in_range_def)
  note s = table_slot [OF al(2) ra]
  show ?thesis
  proof (cases "?t ! nat (sint a)")
    case None
    then show ?thesis using False s by (simp add: fdfdup2_def)
  next
    case (Some f)
    then have "Some f \<in> set ?t" using nth_mem [OF s(2)] by simp
    then obtain x r where f: "fh_files (th_files t) f = Some x" "f_refs x = Some r"
      using al(1) by (auto simp: alive_def plain_file_def)
    have "fd_in_range b" if "b \<noteq> - 1"
    proof -
      have "sint b \<noteq> - 1" using that by (metis signed_minus_1 signed_word_eqI)
      then show ?thesis using False by (simp add: fd_in_range_def)
    qed
    then have "b \<noteq> - 1 \<Longrightarrow> table_get ?t b = Inr (?t ! nat (sint b))" using table_slot(1) [OF al(2)] by blast
    then show ?thesis using False s Some add_refs_ok [OF f, of 1]
      by (cases "b = - 1") (simp_all add: fdfdup2_def Let_def)
  qed
qed

lemma dup_handlers:
  "tidy t \<Longrightarrow> \<exists>x. sys_dup a t = Inr x" "tidy t \<Longrightarrow> \<exists>x. sys_dup3 a b fl t = Inr x"
  using dup_returns [of t a "- 1"] dup_returns [of t a b] by (auto simp: sys_dup_def sys_dup3_def)

text \<open>Ending a program closes its files, each once.\<close>

lemma unshared_Cons:
  assumes "unshared (x # t)"
  shows "unshared t" "x \<noteq> None \<longrightarrow> x \<notin> set t"
proof -
  have u: "i < length (x # t) \<Longrightarrow> j < length (x # t) \<Longrightarrow> (x # t) ! i \<noteq> None \<Longrightarrow> (x # t) ! i = (x # t) ! j \<Longrightarrow> i = j" for i j
    using assms unfolding unshared_def by blast
  show "unshared t" unfolding unshared_def
  proof (intro allI impI)
    fix i j
    assume "i < length t \<and> j < length t \<and> t ! i \<noteq> None \<and> t ! i = t ! j"
    then show "i = j" using u [of "Suc i" "Suc j"] by (metis Suc_inject Suc_less_eq length_Cons nth_Cons_Suc)
  qed
  show "x \<noteq> None \<longrightarrow> x \<notin> set t" using u [of 0 "Suc _"] by (fastforce simp: in_set_conv_nth)
qed

lemma unshared_none: "unshared (replicate n None)"
  unfolding unshared_def by (metis length_replicate nth_replicate)

lemma fdfree_returns:
  "alive fh t \<Longrightarrow> unshared t \<Longrightarrow> \<exists>fh' w'. fdfree_loop ho dv t fh w = Inr (replicate (length t) None, fh', w')"
proof (induction t arbitrary: fh w)
  case (Cons p t)
  have un: "unshared t" "p \<noteq> None \<longrightarrow> p \<notin> set t" by (rule unshared_Cons [OF Cons.prems(2)])+
  have al: "alive fh t" using Cons.prems(1) by (auto simp: alive_def)
  show ?case
  proof (cases p)
    case None
    then show ?thesis using Cons.IH [OF al un(1), of w] by auto
  next
    case (Some a)
    then obtain f where f: "fh_files fh a = Some f" "plain_file a f" using Cons.prems(1) by (auto simp: alive_def)
    then obtain kfd where k: "kclose ho fh (f_dev f) w = Inr (call_int ho (H_close kfd) w)"
      by (auto simp: kclose_def getkfd_def get_file_def initialised_def plain_file_def)
    obtain r w1 where w1: "call_int ho (H_close kfd) w = (r, w1)" by (rule prod.exhaust)
    have "alive (set_file fh a None) t" by (rule alive_other [OF al]) (use un(2) Some in simp)
    then show ?thesis using Cons.IH [OF _ un(1), of "set_file fh a None" w1] Some f k w1
      by (auto simp: get_file_def call_close_def initialised_def plain_file_def)
  qed
qed simp

lemma tidies_exit:
  assumes "tidy t"
  shows "tidies (sys_exit env t)" "tidies (sys_exit_group env t)"
proof -
  let ?t = "t\<lparr>th_state := THREAD_EXITED\<rparr>"
  have al: "alive (th_files ?t) (pr_fds (th_proc ?t))" "unshared (pr_fds (th_proc ?t))"
    "length (pr_fds (th_proc ?t)) = LINUX_NOFILE" "c_string (pr_cwd (th_proc ?t))" using assms by (simp_all add: tidy_def)
  obtain fh w where "fdfree_loop (ev_os env) (ev_dev env) (pr_fds (th_proc ?t)) (th_files ?t) (th_world ?t) = Inr (replicate LINUX_NOFILE None, fh, w)"
    using fdfree_returns [OF al(1,2)] al(3) by metis
  moreover have "tidy (th_set_world (th_set_files ?t fh (replicate LINUX_NOFILE None)) w)"
    by (rule files.good [OF same_files_updates(2)]) (use al(4) in \<open>simp add: alive_def unshared_none\<close>)
  ultimately show "tidies (sys_exit env t)" "tidies (sys_exit_group env t)"
    by (simp_all add: sys_exit_def sys_exit_group_def fdfree_def)
qed

section \<open>Memory\<close>

lemma mapat_returns:
  assumes "th_confined env I t" "2 ^ 12 dvd unat addr" "sz \<noteq> 0" "box_lo (th_box t) \<le> unat addr" "unat addr + unat sz \<le> box_hi (th_box t)"
  shows "\<exists>x. lps_box_mapat (ev_vm env) (th_box t) addr sz prot flags fd off = Inr x"
  using mapat_kept [OF th_confined_parts(1) [OF assms(1)] assms(2-5), of prot flags fd off] by blast

lemma mapany_returns:
  assumes "th_confined env I t" "sz \<noteq> 0" "unat sz + 4095 < 2 ^ 64"
  shows "\<exists>x. lps_box_mapany (ev_vm env) (th_box t) sz prot flags fd off = Inr x"
proof -
  note c = th_confined_parts [OF assms(1)]
  have hv: "fixed_or_fail (ev_vm env)" "host_keeps (ev_vm env) (box_lo (th_box t)) (box_hi (th_box t)) I" "I (box_host (th_box t))"
    using c(1) by (simp_all add: proc_confined_def host_confined_def pr_world_def)
  have "mm_p2pagesize (s_mm (bx_st (th_box t))) = 12" using c(5) by (simp add: box_ok_def)
  then have "any_req (s_mm (bx_st (th_box t))) sz" using assms(2,3) by (simp add: any_req_def)
  then show ?thesis using box_mapany_ok [OF c(5,6) _ hv, of sz prot flags fd off] by blast
qed

lemma munmap_returns:
  assumes "th_confined env I t" "unat addr + unat sz < 2 ^ 64"
  shows "\<exists>x. lps_box_munmap (ev_vm env) (th_box t) addr sz = Inr x"
proof -
  note c = th_confined_parts [OF assms(1)]
  have hv: "none_ok (ev_vm env)" "host_keeps (ev_vm env) (box_lo (th_box t)) (box_hi (th_box t)) I" "I (box_host (th_box t))"
    using c(1) by (simp_all add: proc_confined_def host_confined_def pr_world_def)
  show ?thesis
  proof (cases "in_box (th_box t) addr sz \<and> 2 ^ 12 dvd unat addr \<and> sz \<noteq> 0")
    case True
    then have "box_req (th_box t) addr sz"
      by (intro box_reqI [OF c(5)]) (use in_box_range [OF assms(1) _ assms(2)] in \<open>simp_all\<close>)
    then show ?thesis using box_munmap_ok [OF c(5,6) _ hv] by blast
  next
    case False
    then show ?thesis using munmap_refused [OF c(5), of addr sz]
      by (cases "in_box (th_box t) addr sz") (auto simp: lps_box_munmap_def)
  qed
qed

lemma runs_sys_munmap:
  assumes "th_confined env I t" "unat len < 2 ^ 62"
  shows "runs t (sys_munmap env addr len t)"
proof (cases "ptrcheck t addr")
  case True
  then show ?thesis using munmap_returns [OF assms(1) valid_no_wrap [OF assms(1) True assms(2)]]
    by (auto simp: sys_munmap_def proc_unmap_def runs_end)
qed (simp add: sys_munmap_def runs_end)

lemma runs_sys_mprotect:
  assumes "th_confined env I t" "ptrcheck t addr \<longrightarrow> unat addr + unat len \<le> box_hi (th_box t)"
  shows "runs t (sys_mprotect env addr len prot t)"
proof (cases "ptrcheck t addr")
  case True
  then have "box_lo (th_box t) \<le> unat addr" using ptrcheck_iff [OF assms(1)] by simp
  then obtain r b where "lps_box_mprotect (ev_vm env) (th_box t) addr len prot = Inr (r, b)"
    using mprotect_kept [OF th_confined_parts(1) [OF assms(1)], of addr len prot] assms(2) True by blast
  then show ?thesis using True by (simp add: sys_mprotect_def runs_end)
qed (simp add: sys_mprotect_def runs_end)

lemma kfd_returns:
  assumes "tidy t" "0 \<le> sint fd \<longrightarrow> fdfget (pr_fds (th_proc t)) fd \<noteq> Inr None"
  shows "\<exists>k. proc_kfd (th_proc t) fd = Inr k"
proof (cases "0 \<le> sint fd")
  case True
  have al: "alive (th_files t) (pr_fds (th_proc t))" "length (pr_fds (th_proc t)) = LINUX_NOFILE" using assms(1) by (simp_all add: tidy_def)
  have r: "fd_in_range fd" using True assms(2) by (cases "fd_in_range fd") (simp_all add: fdfget_def)
  note s = table_slot [OF al(2) r]
  obtain a where a: "pr_fds (th_proc t) ! nat (sint fd) = Some a"
    using True assms(2) r s by (cases "pr_fds (th_proc t) ! nat (sint fd)") (simp_all add: fdfget_def)
  then have "Some a \<in> set (pr_fds (th_proc t))" using nth_mem [OF s(2)] by simp
  then obtain f where "fh_files (th_files t) a = Some f" "f_kfd f \<noteq> None" using al(1) by (auto simp: alive_def plain_file_def)
  then show ?thesis using True r s a by (auto simp: proc_kfd_def fdfget_def getkfd_def get_file_def initialised_def)
qed (simp add: proc_kfd_def)

lemma runs_sys_mmap:
  assumes "th_confined env I t" "tidy t" "unat len < 2 ^ 62" "0 \<le> sint fd \<longrightarrow> fdfget (pr_fds (th_proc t)) fd \<noteq> Inr None"
    "flags AND LINUX_MAP_FIXED \<noteq> 0 \<and> ptrcheck t (truncp addr 4096) \<longrightarrow>
      unat (truncp addr 4096) + round_up 4096 (unat len) \<le> box_hi (th_box t)"
  shows "runs t (sys_mmap env addr len prot flags fd off t)"
proof (cases "len = 0")
  case False
  let ?l = "ceilp len (4 * 1024)" and ?a = "truncp addr (4 * 1024)"
  have a: "unat ?a = unat addr div 2 ^ 12 * 2 ^ 12" using unat_truncp [of addr 12] by simp
  have l: "unat ?l = round_up 4096 (unat len)" by (rule ceilp_page) (use assms(3) in simp)
  have small: "unat ?l + 4095 < 2 ^ 64" using round_up_less [of 4096 "unat len"] assms(3) l by simp
  have "0 < unat len" using False by (simp add: unat_gt_0)
  then have "0 < unat ?l" using round_up_ge [of 4096 "unat len"] l by linarith
  then have l0: "?l \<noteq> 0" by auto
  obtain k where k: "proc_kfd (th_proc t) fd = Inr k" using kfd_returns [OF assms(2,4)] by blast
  obtain r b where any: "lps_box_mapany (ev_vm env) (th_box t) ?l prot flags k off = Inr (r, b)"
    using mapany_returns [OF assms(1) l0 small] by fastforce
  have at: "\<exists>r b. lps_box_mapat (ev_vm env) (th_box t) ?a ?l prot flags k off = Inr (r, b)"
    if "flags AND LINUX_MAP_FIXED \<noteq> 0" "ptrcheck t ?a"
  proof -
    have "2 ^ 12 dvd unat ?a" unfolding a by simp
    moreover have "box_lo (th_box t) \<le> unat ?a" using ptrcheck_iff [OF assms(1)] that(2) by simp
    moreover have "unat ?a + unat ?l \<le> box_hi (th_box t)" using assms(5) that l by simp
    ultimately show ?thesis using mapat_returns [OF assms(1) _ l0] by fastforce
  qed
  show ?thesis
    unfolding sys_mmap_def Let_def
  proof (intro running same_files_updates)
    show "runs t (rbind (proc_mapat (ev_vm env) (th_proc t) ?a ?l prot flags fd off) (\<lambda>(r, p).
        if sint r < 0 then Inr (int_to_u64 r, t\<lparr>th_proc := p\<rparr>) else Inr (?a, t\<lparr>th_proc := p\<rparr>)))"
      if "flags AND LINUX_MAP_FIXED \<noteq> 0" "\<not> \<not> ptrcheck t ?a"
      using at [OF that(1)] that(2) k by (auto simp: proc_mapat_def runs_end Let_def)
    show "runs t (rbind (proc_mapany (ev_vm env) (th_proc t) ?l prot flags fd off) (\<lambda>(r, addrp, p).
        if sint r < 0 then Inr (int_to_u64 r, t\<lparr>th_proc := p\<rparr>) else Inr (addrp, t\<lparr>th_proc := p\<rparr>)))"
      using any k by (auto simp: proc_mapany_def runs_end Let_def)
  qed
qed (simp add: sys_mmap_def runs_end)

text \<open>The break: below the end of its area, and a page away from the end of the sandbox.\<close>

definition brk_safe :: "'k LPSThread \<Rightarrow> u64 \<Rightarrow> bool" where
  "brk_safe t addr \<longleftrightarrow> pr_brksize (th_proc t) < lo_brksize (pr_opts (th_proc t)) \<and>
     (ptrcheck t addr \<longrightarrow> unat addr < unat (pr_brkbase (th_proc t)) + unat (lo_brksize (pr_opts (th_proc t))) \<and>
       unat addr + 4096 \<le> box_hi (th_box t))"

lemma runs_sys_brk:
  assumes "th_confined env I t" "brk_safe t addr"
  shows "runs t (sys_brk env addr t)"
proof (cases "addr \<noteq> 0 \<and> \<not> ptrcheck t addr")
  case True
  then show ?thesis by (simp add: sys_brk_refused runs_end)
next
  case False
  define p where "p = th_proc t"
  define brkp where "brkp = (if addr = 0 then pr_brkbase p + pr_brksize p else if addr < pr_brkbase p then pr_brkbase p else addr)"
  note a = brk_area [OF assms(1), folded p_def] and n = brk_next_at [OF assms(1), folded p_def]
  have sz: "unat (pr_brksize p) < unat (lo_brksize (pr_opts p))" using assms(2) by (simp add: brk_safe_def u64_less_iff p_def)
  have le: "pr_brkbase p \<le> brkp" using a(3) by (auto simp: brkp_def u64_le_iff u64_less_iff)
  have lt: "unat brkp < unat (pr_brkbase p) + unat (lo_brksize (pr_opts p))"
    using sz a(3) False assms(2) by (auto simp: brkp_def brk_safe_def p_def)
  have which: "addr = 0 \<and> brkp = pr_brkbase p + pr_brksize p \<or>
     addr \<noteq> 0 \<and> ptrcheck t addr \<and> brkp = (if addr < pr_brkbase p then pr_brkbase p else addr)"
    using False by (auto simp: brkp_def)
  have grow: "\<exists>x. lps_box_mapat (ev_vm env) (pr_box p) (brk_next p) (brkp - pr_brkbase p - pr_brksize p) prot flags fd off = Inr x"
    if gt: "pr_brkbase p + pr_brksize p < brkp" for prot flags fd off
  proof -
    have gt': "unat (pr_brkbase p) + unat (pr_brksize p) < unat brkp" using gt a(3) by (simp add: u64_less_iff)
    have d: "unat (brkp - pr_brkbase p - pr_brksize p) = unat brkp - unat (pr_brkbase p) - unat (pr_brksize p)"
      using gt' le by (simp add: unat_sub u64_le_iff)
    have "brkp = addr \<and> ptrcheck t addr" using which gt' a(3) by (auto split: if_splits)
    then have "unat brkp + 4096 \<le> box_hi (pr_box p)" using assms(2) by (simp add: brk_safe_def p_def)
    moreover have "round_up 4096 (unat (pr_brksize p)) < unat (pr_brksize p) + 4096" by (rule round_up_less) simp
    ultimately have "unat (brk_next p) + unat (brkp - pr_brkbase p - pr_brksize p) \<le> box_hi (pr_box p)"
      using n(2) d gt' by simp
    moreover have "brkp - pr_brkbase p - pr_brksize p \<noteq> 0" using d gt' by (intro notI) simp
    moreover have "box_lo (pr_box p) \<le> unat (brk_next p)" using n(2) a(6) by simp
    ultimately show ?thesis using mapat_returns [OF assms(1) n(1) [unfolded p_def]] by (simp add: p_def)
  qed
  show ?thesis
    unfolding sys_brk_move [OF assms(1) le [unfolded p_def] lt [unfolded p_def] which [unfolded p_def], folded p_def]
  proof (intro running)
    assume "brkp \<noteq> pr_brkbase p + pr_brksize p" "\<not> brkp < pr_brkbase p + pr_brksize p"
    then have "pr_brkbase p + pr_brksize p < brkp" by simp
    then obtain mp box where "lps_box_mapat (ev_vm env) (pr_box p) (brk_next p) (brkp - pr_brkbase p - pr_brksize p)
        (PROT_READ OR PROT_WRITE) (LINUX_MAP_PRIVATE OR LINUX_MAP_ANONYMOUS) (- 1) 0 = Inr (mp, box)"
      using grow by fastforce
    then show "runs t (rbind (lps_box_mapat (ev_vm env) (pr_box p) (brk_next p) (brkp - pr_brkbase p - pr_brksize p)
          (PROT_READ OR PROT_WRITE) (LINUX_MAP_PRIVATE OR LINUX_MAP_ANONYMOUS) (- 1) 0) (\<lambda>(mp, box).
        if mp = - 1 then Inr (- 1, t\<lparr>th_proc := p\<lparr>pr_box := box\<rparr>\<rparr>)
        else Inr (brkp, t\<lparr>th_proc := p\<lparr>pr_box := box, pr_brksize := brkp - pr_brkbase p\<rparr>\<rparr>)))"
      by (simp add: p_def runs_end)
  qed (simp_all add: p_def)
qed

section \<open>The dispatcher\<close>

text \<open>The arguments with which no handler runs into a fault.\<close>

definition mmap_safe :: "'k LPSThread \<Rightarrow> u64 \<Rightarrow> u64 \<Rightarrow> cint \<Rightarrow> cint \<Rightarrow> bool" where
  "mmap_safe t addr len flags fd \<longleftrightarrow> unat len < 2 ^ 62 \<and>
     (0 \<le> sint fd \<longrightarrow> fdfget (pr_fds (th_proc t)) fd \<noteq> Inr None) \<and>
     (flags AND LINUX_MAP_FIXED \<noteq> 0 \<and> ptrcheck t (truncp addr 4096) \<longrightarrow>
       unat (truncp addr 4096) + round_up 4096 (unat len) \<le> box_hi (th_box t))"

definition safe_request :: "'k LPSThread \<Rightarrow> u64 \<Rightarrow> u64 \<Rightarrow> u64 \<Rightarrow> u64 \<Rightarrow> u64 \<Rightarrow> u64 \<Rightarrow> bool" where
  "safe_request t sysno a0 a1 a2 a3 a4 \<longleftrightarrow>
     (sysno = SYS_brk \<longrightarrow> brk_safe t a0) \<and>
     (sysno = SYS_mmap \<longrightarrow> mmap_safe t a0 a1 (ucast a3) (ucast a4)) \<and>
     (sysno = SYS_mprotect \<longrightarrow> unat a1 < 2 ^ 62 \<and> (ptrcheck t a0 \<longrightarrow> unat a0 + unat a1 \<le> box_hi (th_box t))) \<and>
     (sysno = SYS_munmap \<longrightarrow> unat a1 < 2 ^ 62) \<and>
     (sysno = SYS_writev \<or> sysno = SYS_readv \<longrightarrow> unat a2 < 2 ^ 60) \<and>
     (sysno = SYS_newfstatat \<longrightarrow> (ucast a3 :: cint) AND LINUX_AT_EMPTY_PATH \<noteq> 0 \<or> (ucast a3 :: cint) = 0) \<and>
     (sysno = SYS_getcwd \<longrightarrow> unat a1 < 2 ^ 31) \<and>
     (sysno = SYS_nanosleep \<longrightarrow> a1 = 0)"

lemma ret_returns:
  "runs t (h t) \<Longrightarrow> runs t (ret_word h t)" "runs t (h' t) \<Longrightarrow> runs t (ret_int h' t)"
  "tidies (h t) \<Longrightarrow> tidies (ret_word h t)" "tidies (h' t) \<Longrightarrow> tidies (ret_int h' t)"
  "\<exists>x. h' t = Inr x \<Longrightarrow> \<exists>x. ret_int h' t = Inr x"
  by (auto simp: ret_word_def ret_int_def finishes_def)

lemma runs_sys_fstat: "tidy t \<Longrightarrow> runs t (sys_newfstatat env fd 0 p LINUX_AT_EMPTY_PATH t)"
  by (rule runs_sys_newfstatat) simp_all

lemma own_returns:
  assumes "th_confined env I t" "tidy t" "safe_request t n a0 a1 a2 a3 a4" "(n, h) \<in> set (own_cases env a0 a1 a2 a3 a4 a5)"
  shows "tidies (h t)"
proof -
  have call: "runs t (sys_runtime_call (ucast a0) t)" by (simp add: sys_runtime_call_def runs_end)
  note mem = runs_sys_brk [OF assms(1)] runs_sys_mmap [OF assms(1,2)] runs_sys_mprotect [OF assms(1)] runs_sys_munmap [OF assms(1)]
  show ?thesis
  proof (cases "n = SYS_exit \<or> n = SYS_exit_group")
    case True
    then show ?thesis using assms(4) tidies_exit [OF assms(2)] by (auto simp: own_cases_def)
  next
    case False
    then consider "n = SYS_brk" "h = ret_word (sys_brk env a0)"
      | "n = SYS_mmap" "h = ret_word (sys_mmap env a0 a1 (ucast a2) (ucast a3) (ucast a4) a5)"
      | "n = SYS_mprotect" "h = ret_int (sys_mprotect env a0 a1 (ucast a2))"
      | "n = SYS_munmap" "h = ret_int (sys_munmap env a0 a1)" | "h = ret_word sys_nosys" | "h = sys_runtime_call (ucast a0)"
      using assms(4) by (auto simp: own_cases_def)
    then have "runs t (h t)"
    proof cases
      case 1
      then have "brk_safe t a0" using assms(3) by (simp add: safe_request_def)
      then show ?thesis unfolding 1(2) by (intro ret_returns(1) mem)
    next
      case 2
      then have "mmap_safe t a0 a1 (ucast a3) (ucast a4)" using assms(3) by (simp add: safe_request_def)
      then show ?thesis unfolding 2(2) mmap_safe_def by (intro ret_returns(1) mem) simp_all
    next
      case 3
      then have "ptrcheck t a0 \<longrightarrow> unat a0 + unat a1 \<le> box_hi (th_box t)" using assms(3) by (simp add: safe_request_def)
      then show ?thesis unfolding 3(2) by (intro ret_returns(2) mem)
    next
      case 4
      then have "unat a1 < 2 ^ 62" using assms(3) by (simp add: safe_request_def)
      then show ?thesis unfolding 4(2) by (intro ret_returns(2) mem)
    next
      case 5
      show ?thesis unfolding 5 by (intro ret_returns(1) running)
    next
      case 6
      then show ?thesis using call by simp
    qed
    then show ?thesis using assms(2) by (rule runs_tidies)
  qed
qed

lemma linux_runs:
  assumes "th_confined env I t" "tidy t"
  shows "\<forall>(n, h) \<in> set (linux_cases env a0 a1 a2 a3 a4 a5).
    n \<notin> {SYS_dup, SYS_dup3, SYS_openat, SYS_close} \<and> safe_request t n a0 a1 a2 a3 a4 \<longrightarrow> runs t (h t)"
proof -
  have cwd: "length (pr_cwd (th_proc t)) < FILENAME_MAX" by (rule th_confined_parts(4) [OF assms(1)])
  have pid: "runs t (ret_word (\<lambda>t. Inr (0, t)) t)" by (rule ret_returns(1)) (simp add: runs_end)
  show ?thesis
    unfolding linux_cases_def list.set
    by (simp add: safe_request_def ret_returns(1,2) running assms(2) runs_sys_vectors runs_sys_newfstatat runs_sys_getcwd cwd pid)
qed

lemma linux_returns:
  assumes "th_confined env I t" "tidy t" "safe_request t n a0 a1 a2 a3 a4" "(n, h) \<in> set (linux_cases env a0 a1 a2 a3 a4 a5)"
  shows "if n = SYS_dup \<or> n = SYS_dup3 then \<exists>x. h t = Inr x else tidies (h t)"
proof -
  consider (dup) "n = SYS_dup \<or> n = SYS_dup3" | (openat) "n = SYS_openat" | (close) "n = SYS_close"
    | (other) "n \<noteq> SYS_dup" "n \<noteq> SYS_dup3" "n \<noteq> SYS_openat" "n \<noteq> SYS_close" by blast
  then show ?thesis
  proof cases
    case dup
    have "\<exists>x. ret_int (sys_dup (ucast a0)) t = Inr x" "\<exists>x. ret_int (sys_dup3 (ucast a0) (ucast a1) (ucast a2)) t = Inr x"
      by (rule ret_returns(5), rule dup_handlers, rule assms(2))+
    then show ?thesis using dup assms(4) by (auto simp: linux_cases_def)
  next
    case openat
    then have "h = ret_int (sys_openat env (ucast a0) a1 (ucast a2) (ucast a3))" using assms(4) by (auto simp: linux_cases_def)
    moreover have "tidies (ret_int (sys_openat env (ucast a0) a1 (ucast a2) (ucast a3)) t)"
      by (rule ret_returns(4), rule tidies_openat, rule assms(2))
    ultimately show ?thesis using openat by simp
  next
    case close
    then have "h = ret_int (sys_close (ucast a0))" using assms(4) by (auto simp: linux_cases_def)
    moreover have "tidies (ret_int (sys_close (ucast a0)) t)" by (rule ret_returns(4), rule tidies_close, rule assms(2))
    ultimately show ?thesis using close by simp
  next
    case other
    then have "runs t (h t)" using linux_runs [OF assms(1,2)] assms(3,4) by blast
    then have "tidies (h t)" using assms(2) by (rule runs_tidies)
    then show ?thesis using other by simp
  qed
qed

section \<open>Properties\<close>


text \<open>A thread with one open file, which closes it.\<close>

definition tidy_thread :: "unit LPSThread" where
  "tidy_thread = th_set_files (demo_thread zero_regs) demo_fheap (Some 0 # replicate 1023 None)"

lemma tidy_thread_ok:
  "th_confined demo_env (same_outside_range (\<lambda>_. 0) 0x40000000 0xc0000000) tidy_thread" "tidy tidy_thread"
  "\<not> lo_passthrough (pr_opts (th_proc tidy_thread))"
proof -
  have len: "length (Some 0 # replicate 1023 None :: FDTable) = LINUX_NOFILE" by (simp add: LINUX_NOFILE_def)
  have "th_kept (same_outside_range (\<lambda>_. 0) 0x40000000 0xc0000000) (demo_thread zero_regs) tidy_thread"
    unfolding tidy_thread_def by (rule th_kept_files [OF demo_thread_confined len])
  then show "th_confined demo_env (same_outside_range (\<lambda>_. 0) 0x40000000 0xc0000000) tidy_thread"
    by (rule th_kept_confined [OF _ demo_thread_confined])
  have "unshared (Some 0 # replicate 1023 None)"
    unfolding unshared_def by (auto simp: nth_Cons split: nat.splits)
  moreover have "alive demo_fheap (Some 0 # replicate 1023 None)"
    by (auto simp: alive_def demo_fheap_def demo_file_def plain_file_def c_string_def)
  ultimately show "tidy tidy_thread"
    using len by (simp add: tidy_thread_def) (simp add: demo_thread_def demo_proc_def c_string_def)
  show "\<not> lo_passthrough (pr_opts (th_proc tidy_thread))" by (simp add: tidy_thread_def th_set_files_def demo_thread_def demo_proc_def)
qed


section \<open>Why the conditions are needed\<close>

text \<open>
  \<open>mprotect\<close> and \<open>mmap\<close> with \<open>MAP_FIXED\<close> check the first address only. A range that starts in the sandbox and ends
  behind it fails an assertion in \<open>box.c\<close>, which stops the runtime with every sandbox in it.
\<close>

lemma sys_mprotect_beyond:
  "ptrcheck t addr \<Longrightarrow> \<not> in_box (th_box t) addr len \<Longrightarrow> sys_mprotect env addr len prot t = Inl AssertFail"
  by (simp add: sys_mprotect_def lps_box_mprotect_def rassert_def)

lemma sys_mmap_fixed_beyond:
  assumes "len \<noteq> 0" "ptrcheck t (truncp addr 4096)" "\<not> in_box (th_box t) (truncp addr 4096) (ceilp len 4096)"
  shows "sys_mmap env addr len prot (LINUX_MAP_PRIVATE OR LINUX_MAP_ANONYMOUS OR LINUX_MAP_FIXED) (- 1) off t = Inl AssertFail"
  using assms by (simp add: sys_mmap_def illegal_mask_def proc_mapat_def proc_kfd_def lps_box_mapat_def rassert_def)

text \<open>\<open>lstat\<close> of a C library passes \<open>AT_SYMLINK_NOFOLLOW\<close> (0x100), which \<open>host_fstatat\<close> asserts away.\<close>

lemma sys_lstat_aborts:
  assumes "bufcheck t st sizeof_Stat 8" "pathcopy env t p = (Some path, t')"
  shows "sys_newfstatat env LINUX_AT_FDCWD p st 0x100 t = Inl AssertFail"
  using assms by (simp add: sys_newfstatat_def bufhost_def pathcopyresolve_def on_world_def host_fstatat_def rassert_def)

text \<open>A file that two descriptors share is freed twice when the program ends.\<close>

lemma exit_after_dup: "fault_of (sys_exit demo_env (demo_thread zero_regs)) = Some UseAfterFree"
  by (simp add: sys_exit_def fdfree_def demo_thread_def demo_proc_def demo_table_def demo_fheap_def demo_file_def demo_env_def
      get_file_def call_close_def kclose_def getkfd_def initialised_def call_int_def idle_os_def set_file_def fault_of_def)

end
