(* ===== verification/Dirents.thy ===== *)
theory Dirents
  imports Host
begin

text \<open>
  Reading a directory where the C library has no \<open>getdents64\<close>: the second version of \<open>host_getdents64\<close> in
  \<open>lps-linux/host.c\<close> and \<open>struct Dirent\<close> of \<open>linux.h\<close>. What \<open>readdir\<close> returns, one entry after the other, is an
  argument.
\<close>

section \<open>Records\<close>

record dirent =
  de_ino :: u64
  de_type :: u8
  de_name :: string

text \<open>\<open>struct Dirent\<close>: number, offset, length, type and 256 characters at offset 19; 280 bytes with padding.\<close>

abbreviation sizeof_Dirent :: nat where "sizeof_Dirent \<equiv> 280"

text \<open>
  One turn of the loop: the record's length and the memory. \<open>strncpy\<close> copies exactly the characters that fit;
  the zeros behind them were written by \<open>memset\<close>.
\<close>

definition put_dirent :: "u64 \<Rightarrow> dirent \<Rightarrow> memory \<Rightarrow> u64 \<times> memory" where
  "put_dirent dent ent m =
     (let m = store_bytes dent (replicate sizeof_Dirent 0) m;
          len = length (de_name ent);
          len = (if len \<ge> 256 then 255 else len);
          reclen = ceilp (8 + 8 + 2 + 1 + of_nat len + 1) 8;
          m = store_fields dent [(0, 8, de_ino ent), (8, 8, - 1), (18, 1, ucast (de_type ent)), (16, 2, reclen)] m
      in (reclen, store_bytes (dent + 19) (map (\<lambda>c. of_nat (of_char c)) (take len (de_name ent))) m))"

fun dirents_loop :: "u64 \<Rightarrow> u64 \<Rightarrow> dirent list \<Rightarrow> u64 \<Rightarrow> memory \<Rightarrow> u64 \<times> memory" where
  "dirents_loop dirp count [] written m = (written, m)"
| "dirents_loop dirp count (ent # ents) written m =
     (if written < count then
        (case put_dirent (dirp + written) ent m of (reclen, m) \<Rightarrow> dirents_loop dirp count ents (written + reclen) m)
      else (written, m))"

text \<open>
  dir is the directory's entries, or \<open>errno\<close> when \<open>fdopendir\<close> fails; the other \<open>errno\<close> is the one after the loop.
\<close>

definition host_getdents64_dir :: "cint + dirent list \<Rightarrow> cint \<Rightarrow> u64 \<Rightarrow> u64 \<Rightarrow> memory \<Rightarrow> u64 \<times> memory" where
  "host_getdents64_dir dir errno dirp count m =
     (case dir of
        Inl e \<Rightarrow> (int_to_u64 (host_err e), m)
      | Inr ents \<Rightarrow>
          (case dirents_loop dirp count ents 0 m of
             (written, m) \<Rightarrow> if sint errno < 0 then (int_to_u64 (host_err errno), m) else (written, m)))"

section \<open>Where the records go\<close>

text \<open>Records have the length of their name, rounded to words.\<close>

lemma put_dirent_len:
  "unat (fst (put_dirent a ent m)) = round_up 8 (20 + min 255 (length (de_name ent)))"
proof -
  let ?n = "min 255 (length (de_name ent))"
  have n: "(if length (de_name ent) \<ge> 256 then 255 else length (de_name ent)) = ?n" by auto
  have u: "unat (20 + of_nat ?n :: u64) = 20 + ?n"
    using unat_add_nowrap [of "20 :: u64" "of_nat ?n"] unat_of_nat_u64 [of ?n] by simp
  have "unat (ceilp (20 + of_nat ?n) 8) = round_up 8 (20 + ?n)" using unat_ceilp [of 3 "20 + of_nat ?n"] u by simp
  then show ?thesis by (simp add: put_dirent_def Let_def n add.commute [of _ 1] add.assoc [symmetric])
qed

lemma dirent_fits: "round_up 8 (20 + min 255 n) \<le> sizeof_Dirent"
proof -
  have "20 + min 255 n + 7 \<le> 282" by simp
  then have "(20 + min 255 n + 7) div 8 \<le> 282 div 8" by (rule div_le_mono)
  then show ?thesis by (simp add: round_up_def)
qed

text \<open>A record is written over the whole structure, also where it is shorter.\<close>

lemma put_dirent_outside:
  assumes "x \<notin> byte_range a sizeof_Dirent"
  shows "snd (put_dirent a ent m) x = m x"
proof -
  have name: "store_bytes (a + 19) (map (\<lambda>c. of_nat (of_char c)) (take n (de_name ent))) m' x = m' x" if "n \<le> 255" for n m'
    using byte_range_inner [OF assms, of 19 "min (length (de_name ent)) n"] that by (intro store_bytes_outside) simp
  show ?thesis
    using assms store_bytes_outside [of x a "replicate sizeof_Dirent 0" m]
    by (simp add: put_dirent_def Let_def name store_fields_outside [OF assms] del: store_fields.simps)
qed

text \<open>
  The loop looks at the room before a record, not at the room for it: it may write 279 bytes past the
  buffer, and report as many as 279 bytes more than the caller offered.
\<close>

lemma dirents_loop_range:
  assumes "unat count + 280 < 2 ^ 64" "x \<notin> byte_range dirp (unat count + 279)"
  shows "unat written < unat count + 280 \<Longrightarrow>
    unat (fst (dirents_loop dirp count ents written m)) < unat count + 280 \<and> snd (dirents_loop dirp count ents written m) x = m x"
proof (induction ents arbitrary: written m)
  case (Cons ent ents)
  show ?case
  proof (cases "written < count")
    case True
    obtain r m' where p: "put_dirent (dirp + written) ent m = (r, m')" by (rule prod.exhaust)
    have lt: "unat written < unat count" using True by (simp add: u64_less_iff)
    have r: "unat r \<le> 280" using put_dirent_len [of "dirp + written" ent m] dirent_fits [of "length (de_name ent)"] p by simp
    then have "unat (written + r) < unat count + 280" using lt assms(1) by (simp add: unat_add_nowrap)
    moreover have "x \<notin> byte_range (dirp + of_nat (unat written)) sizeof_Dirent"
      using assms lt by (intro byte_range_inner [OF assms(2)]) simp_all
    then have "m' x = m x" using put_dirent_outside [of x "dirp + written" ent m] p by simp
    ultimately show ?thesis using Cons.IH [of "written + r" m'] True p by simp
  qed (use Cons.prems in simp)
qed simp

lemma getdents_dir_range:
  assumes "unat count + 280 < 2 ^ 64" "x \<notin> byte_range dirp (unat count + 279)"
  shows "snd (host_getdents64_dir dir errno dirp count m) x = m x"
  using dirents_loop_range [OF assms, of 0] by (auto simp: host_getdents64_dir_def split: sum.split prod.split) (metis snd_conv)

text \<open>A buffer of one byte at the end of a sandbox: the 279 bytes behind it are overwritten.\<close>

lemma getdents_dir_overrun:
  "host_getdents64_dir (Inr [\<lparr>de_ino = 7, de_type = 8, de_name = ''a''\<rparr>]) 0 0x1fff 1 (\<lambda>_. 9) = (24, m) \<Longrightarrow>
   m 0x2000 = 0 \<and> m 0x2012 = 97 \<and> m 0x2116 = 0 \<and> m 0x2117 = 9"
  by (auto simp: host_getdents64_dir_def put_dirent_def Let_def store_bytes_def le_bytes_def ceilp_def)

end
